(* ===== verification/PhPrelude.thy ===== *)
theory PhPrelude
  imports Main "HOL-Library.Word"
begin

text \<open>
  What every component of the development shares: the machine types of the Windows headers, the
  status codes, reads and writes of a bounded region of memory, and the lemmas on lists and words
  that the component proofs use through the collections \<open>mem_simps\<close> and \<open>word_nat\<close>.
\<close>

unbundle bit_operations_syntax

named_theorems mem_simps "reads and writes of bounded memory"
named_theorems word_nat "machine words read as natural numbers"

section \<open>Machine types\<close>

type_synonym uchar = "8 word"
type_synonym ushort = "16 word"
type_synonym wchar = ushort
type_synonym ulong = "32 word"
type_synonym ulong64 = "64 word"

abbreviation ULONG_MAX :: ulong where
  "ULONG_MAX \<equiv> 0xFFFFFFFF"

section \<open>Status codes\<close>

text \<open>
  The values of \<open>NTSTATUS\<close> that the modelled code returns. Every one but \<open>STATUS_SUCCESS\<close> has the
  error severity, so \<open>NT_SUCCESS\<close> holds of that one alone.
\<close>

datatype ntstatus =
    STATUS_SUCCESS
  | STATUS_INVALID_PARAMETER_2
  | STATUS_INVALID_PARAMETER_3
  | STATUS_INSUFFICIENT_RESOURCES
  | STATUS_ALREADY_COMMITTED
  | STATUS_INTEGER_OVERFLOW
  | STATUS_REVISION_MISMATCH
  | STATUS_INVALID_MESSAGE
  | STATUS_NOT_FOUND
  | STATUS_CONTEXT_MISMATCH
  | STATUS_HEAP_CORRUPTION
  | STATUS_INVALID_PARAMETER
  | STATUS_INFO_LENGTH_MISMATCH
  | STATUS_INVALID_INFO_CLASS
  | STATUS_INVALID_PARAMETER_MIX
  | STATUS_UNSUCCESSFUL
  | STATUS_INTERNAL_ERROR
  | STATUS_BAD_FILE_TYPE

definition NT_SUCCESS :: "ntstatus \<Rightarrow> bool" where
  "NT_SUCCESS s \<longleftrightarrow> s = STATUS_SUCCESS"

lemma NT_SUCCESS_simps [simp]:
  "NT_SUCCESS STATUS_SUCCESS"
  "s \<noteq> STATUS_SUCCESS \<Longrightarrow> \<not> NT_SUCCESS s"
  by (simp_all add: NT_SUCCESS_def)

section \<open>Bounded memory\<close>

text \<open>
  A region is the list of its cells. A read or a write of a range that leaves the region is
  undefined behaviour in C: \<open>None\<close>.
\<close>

definition mem_read :: "'a list \<Rightarrow> nat \<Rightarrow> nat \<Rightarrow> 'a list option" where
  "mem_read m off n = (if off + n \<le> length m then Some (take n (drop off m)) else None)"

definition mem_write :: "'a list \<Rightarrow> nat \<Rightarrow> 'a list \<Rightarrow> 'a list option" where
  "mem_write m off d =
     (if off + length d \<le> length m then Some (take off m @ d @ drop (off + length d) m) else None)"

lemma mem_write_length [mem_simps]: "mem_write m off d = Some m' \<Longrightarrow> length m' = length m"
  by (auto simp: mem_write_def split: if_splits)

lemma mem_write_Some_iff [mem_simps]:
  "(\<exists>m'. mem_write m off d = Some m') \<longleftrightarrow> off + length d \<le> length m"
  by (simp add: mem_write_def)

lemma mem_read_write_same [mem_simps]:
  "mem_write m off d = Some m' \<Longrightarrow> mem_read m' off (length d) = Some d"
  by (auto simp: mem_write_def mem_read_def split: if_splits)

lemma take_drop_write_before:
  assumes "i + n \<le> off" and "off + length d \<le> length m"
  shows "take n (drop i (take off m @ d @ drop (off + length d) m)) = take n (drop i m)"
proof -
  have "take n (drop i (take off m)) = take n (drop i m)"
    using assms(1) by (simp add: drop_take)
  moreover have "length (drop i (take off m)) \<ge> n"
    using assms by simp
  ultimately show ?thesis using assms by simp
qed

lemma take_drop_write_after:
  assumes "off + length d \<le> i" and "off + length d \<le> length m"
  shows "take n (drop i (take off m @ d @ drop (off + length d) m)) = take n (drop i m)"
  using assms by (simp add: min_def)

lemma mem_read_write_other [mem_simps]:
  assumes "mem_write m off d = Some m'" and "i + n \<le> off \<or> off + length d \<le> i"
  shows "mem_read m' i n = mem_read m i n"
proof -
  from assms(1) have b: "off + length d \<le> length m"
    and m': "m' = take off m @ d @ drop (off + length d) m"
    by (auto simp: mem_write_def split: if_splits)
  have len: "length m' = length m"
    using b m' by simp
  from assms(2) have "take n (drop i m') = take n (drop i m)"
    using take_drop_write_before [OF _ b, of i n] take_drop_write_after [OF _ b, of i n] m' by blast
  with len show ?thesis by (simp add: mem_read_def)
qed

lemma mem_read_length: "mem_read m off n = Some d \<Longrightarrow> length d = n"
  by (auto simp: mem_read_def split: if_splits)

section \<open>Words as natural numbers\<close>

lemma unat_uchar_less: "unat (x :: uchar) < 256"
  using unsigned_less [of x, where ?'a = nat] by simp

lemma unat_ushort_less: "unat (x :: ushort) < 65536"
  using unsigned_less [of x, where ?'a = nat] by simp

lemma unat_ulong_less: "unat (x :: ulong) < 4294967296"
  using unsigned_less [of x, where ?'a = nat] by simp

lemma unat_plus_no_overflow [word_nat]:
  fixes a b :: "'a::len word"
  assumes "unat a + unat b < 2 ^ LENGTH('a)"
  shows "unat (a + b) = unat a + unat b"
  using assms by (simp add: unat_word_ariths)

lemma word_no_overflow_iff [word_nat]:
  fixes a b :: "'a::len word"
  shows "a \<le> a + b \<longleftrightarrow> unat a + unat b < 2 ^ LENGTH('a)"
proof
  assume "unat a + unat b < 2 ^ LENGTH('a)"
  then show "a \<le> a + b" by (simp add: word_le_nat_alt unat_plus_no_overflow)
next
  assume le: "a \<le> a + b"
  show "unat a + unat b < 2 ^ LENGTH('a)"
  proof (rule ccontr)
    assume "\<not> ?thesis"
    then have ge: "2 ^ LENGTH('a) \<le> unat a + unat b" by simp
    have "unat a < 2 ^ LENGTH('a)" "unat b < 2 ^ LENGTH('a)" by simp_all
    then have lt: "unat a + unat b - 2 ^ LENGTH('a) < 2 ^ LENGTH('a)" by linarith
    have "unat (a + b) = (unat a + unat b) mod 2 ^ LENGTH('a)"
      by (rule unat_word_ariths(1))
    also have "\<dots> = (unat a + unat b - 2 ^ LENGTH('a)) mod 2 ^ LENGTH('a)"
      using ge by (rule le_mod_geq)
    also have "\<dots> = unat a + unat b - 2 ^ LENGTH('a)"
      using lt by (rule mod_less)
    finally have "unat (a + b) = unat a + unat b - 2 ^ LENGTH('a)" .
    then have "unat (a + b) < unat a"
      using ge \<open>unat b < 2 ^ LENGTH('a)\<close> by linarith
    with le show False by (simp add: word_le_nat_alt)
  qed
qed

lemma unat_2_power [word_nat]:
  assumes "k < LENGTH('a)"
  shows "unat (2 ^ k :: 'a::len word) = 2 ^ k"
proof -
  have "(2 :: nat) ^ k < 2 ^ LENGTH('a)"
    using assms by (rule power_strict_increasing) simp
  then have "unat (of_nat (2 ^ k) :: 'a word) = 2 ^ k"
    unfolding unat_of_nat by (rule mod_less)
  then show ?thesis by simp
qed

lemma unat_and_mask: "unat ((x :: 'a::len word) AND mask k) = unat x mod 2 ^ k"
proof -
  have "unat (x AND mask k) = unat (take_bit k x)" by (simp add: take_bit_eq_mask)
  also have "\<dots> = take_bit k (unat x)" by (rule unsigned_take_bit_eq)
  finally show ?thesis by (simp add: take_bit_eq_mod)
qed

end
