(* ===== verification/KphMessage.thy ===== *)
theory KphMessage
  imports PhPrelude
begin

text \<open>
  The messages that the kernel driver and its clients exchange: \<open>kphlib/kphmsg.c\<close> (a fixed header,
  initialisation, validation) and \<open>kphlib/kphmsgdyn.c\<close> (the table of dynamic fields and the buffer
  they live in). The message is one 4096 byte structure. Operations that write memory return
  \<open>None\<close> when they would access memory outside the array they index or the message they copy into.

  The abstract view of a message is the finite map \<open>dyn_map\<close> from field identifiers to a type
  identifier and the bytes of the field.
\<close>

section \<open>Checked arithmetic on 16 bit values\<close>

definition RtlUShortAdd :: "ushort \<Rightarrow> ushort \<Rightarrow> ntstatus \<times> ushort" where
  "RtlUShortAdd usAugend usAddend =
     (if usAugend + usAddend \<ge> usAugend then (STATUS_SUCCESS, usAugend + usAddend)
      else (STATUS_INTEGER_OVERFLOW, 0xFFFF))"

definition RtlUShortSub :: "ushort \<Rightarrow> ushort \<Rightarrow> ntstatus \<times> ushort" where
  "RtlUShortSub usMinuend usSubtrahend =
     (if usMinuend \<ge> usSubtrahend then (STATUS_SUCCESS, usMinuend - usSubtrahend)
      else (STATUS_INTEGER_OVERFLOW, 0xFFFF))"

section \<open>The message\<close>

record dyn_entry =
  FieldId :: ulong
  TypeId :: ulong
  Offset :: ushort
  Length :: ushort

record kph_message =
  Version :: ushort
  Size :: ushort
  MessageId :: ulong
  TimeStamp :: ulong64
  Body :: "uchar list"
  DynCount :: uchar
  Entries :: "dyn_entry list"
  Buffer :: "uchar list"

abbreviation sizeof_KPH_MESSAGE :: ushort where "sizeof_KPH_MESSAGE \<equiv> 0x1000"
abbreviation KPH_MESSAGE_MIN_SIZE :: ushort where "KPH_MESSAGE_MIN_SIZE \<equiv> 356"
abbreviation KPH_MESSAGE_VERSION :: ushort where "KPH_MESSAGE_VERSION \<equiv> 4"
abbreviation InvalidKphMsg :: ulong where "InvalidKphMsg \<equiv> 0"
abbreviation MaxKphMsg :: ulong where "MaxKphMsg \<equiv> 0x40000099"
abbreviation KphMsgUnhandled :: ulong where "KphMsgUnhandled \<equiv> 0xFFFFFFFF"
abbreviation InvalidKphMsgField :: ulong where "InvalidKphMsgField \<equiv> 0"
abbreviation MaxKphMsgField :: ulong where "MaxKphMsgField \<equiv> 17"
abbreviation InvalidKphMsgType :: ulong where "InvalidKphMsgType \<equiv> 0"
abbreviation KphMsgTypeUnicodeString :: ulong where "KphMsgTypeUnicodeString \<equiv> 1"
abbreviation KphMsgTypeAnsiString :: ulong where "KphMsgTypeAnsiString \<equiv> 2"
abbreviation KphMsgTypeStackTrace :: ulong where "KphMsgTypeStackTrace \<equiv> 3"
abbreviation KphMsgTypeSizedBuffer :: ulong where "KphMsgTypeSizedBuffer \<equiv> 4"
abbreviation MaxKphMsgType :: ulong where "MaxKphMsgType \<equiv> 5"

definition zero_entry :: dyn_entry where
  "zero_entry = \<lparr>FieldId = 0, TypeId = 0, Offset = 0, Length = 0\<rparr>"

text \<open>\<open>RtlZeroMemory\<close> clears everything below \<open>KPH_MESSAGE_MIN_SIZE\<close>, that is, all but the buffer.\<close>

definition KphMsgInit :: "ulong64 \<Rightarrow> kph_message \<Rightarrow> ulong \<Rightarrow> kph_message" where
  "KphMsgInit now Message messageId =
     Message\<lparr>Version := KPH_MESSAGE_VERSION, Size := KPH_MESSAGE_MIN_SIZE, MessageId := messageId,
       TimeStamp := now, Body := replicate 240 0, DynCount := 0,
       Entries := replicate 8 zero_entry\<rparr>"

text \<open>The identifiers are C enumerations: 32 bit signed comparisons.\<close>

definition KphMsgValidate :: "kph_message \<Rightarrow> ntstatus" where
  "KphMsgValidate Message =
     (if Version Message \<noteq> KPH_MESSAGE_VERSION then STATUS_REVISION_MISMATCH
      else if Size Message < KPH_MESSAGE_MIN_SIZE \<or> Size Message > sizeof_KPH_MESSAGE
        then STATUS_INVALID_MESSAGE
      else if MessageId Message \<noteq> KphMsgUnhandled \<and>
          (MessageId Message \<le>s InvalidKphMsg \<or> MaxKphMsg \<le>s MessageId Message)
        then STATUS_INVALID_MESSAGE
      else STATUS_SUCCESS)"

section \<open>The dynamic table\<close>

fun find_entry_from :: "dyn_entry list \<Rightarrow> nat \<Rightarrow> nat \<Rightarrow> ulong \<Rightarrow> nat option" where
  "find_entry_from es i 0 fieldId = None"
| "find_entry_from es i (Suc n) fieldId =
     (if FieldId (es ! i) = fieldId then Some i else find_entry_from es (Suc i) n fieldId)"

text \<open>The pointer into the table that the code returns is the index of the entry.\<close>

definition KphpMsgDynFindEntry :: "kph_message \<Rightarrow> ulong \<Rightarrow> nat option" where
  "KphpMsgDynFindEntry Message fieldId =
     find_entry_from (Entries Message) 0 (unat (DynCount Message)) fieldId"

definition KphpMsgDynClaimEntry ::
    "kph_message \<Rightarrow> ulong \<Rightarrow> ulong \<Rightarrow> ushort \<Rightarrow> ntstatus \<times> kph_message \<times> dyn_entry option" where
  "KphpMsgDynClaimEntry Message fieldId typeId len =
     (if fieldId \<le>s InvalidKphMsgField \<or> MaxKphMsgField \<le>s fieldId
        then (STATUS_INVALID_PARAMETER_2, Message, None)
      else if typeId \<le>s InvalidKphMsgType \<or> MaxKphMsgType \<le>s typeId
        then (STATUS_INVALID_PARAMETER_3, Message, None)
      else let status = KphMsgValidate Message in
      if \<not> NT_SUCCESS status then (status, Message, None)
      else if unat (DynCount Message) \<ge> 8 then (STATUS_INSUFFICIENT_RESOURCES, Message, None)
      else if KphpMsgDynFindEntry Message fieldId \<noteq> None
        then (STATUS_ALREADY_COMMITTED, Message, None)
      else let (status, offset) = RtlUShortAdd (Size Message) len in
      if \<not> NT_SUCCESS status then (status, Message, None)
      else if offset > sizeof_KPH_MESSAGE then (STATUS_INSUFFICIENT_RESOURCES, Message, None)
      else let claimed = \<lparr>FieldId = fieldId, TypeId = typeId, Offset = Size Message, Length = len\<rparr>
      in (STATUS_SUCCESS,
          Message\<lparr>Entries := (Entries Message)[unat (DynCount Message) := claimed],
            DynCount := DynCount Message + 1,
            Size := Size Message + len\<rparr>,
          Some claimed))"

definition KphpMsgDynLookupEntry ::
    "kph_message \<Rightarrow> ulong \<Rightarrow> ulong \<Rightarrow> ntstatus \<times> dyn_entry option" where
  "KphpMsgDynLookupEntry Message fieldId typeId =
     (let status = KphMsgValidate Message in
      if \<not> NT_SUCCESS status then (status, None)
      else case KphpMsgDynFindEntry Message fieldId of
        None \<Rightarrow> (STATUS_NOT_FOUND, None)
      | Some i \<Rightarrow>
          let entry = Entries Message ! i in
          if TypeId entry \<noteq> typeId then (STATUS_CONTEXT_MISMATCH, None)
          else if Offset entry \<ge> Size Message then (STATUS_HEAP_CORRUPTION, None)
          else (STATUS_SUCCESS, Some entry))"

definition KphMsgDynClear :: "kph_message \<Rightarrow> kph_message" where
  "KphMsgDynClear Message =
     Message\<lparr>Size := KPH_MESSAGE_MIN_SIZE, DynCount := 0, Entries := replicate 8 zero_entry\<rparr>"

text \<open>
  The guard is the one of the source: the function returns when the table is \<^emph>\<open>not\<close> empty. What
  follows indexes the table with the decremented 8 bit count; \<open>None\<close> is an index past its end.
\<close>

definition KphMsgDynClearLast :: "kph_message \<Rightarrow> kph_message option" where
  "KphMsgDynClearLast Message =
     (if DynCount Message \<noteq> 0 then Some Message
      else let count = DynCount Message - 1 in
      if unat count < length (Entries Message)
        then let entry = Entries Message ! unat count in
          Some (Message\<lparr>DynCount := count, Size := Size Message - Length entry,
            Entries := (Entries Message)[unat count := zero_entry]\<rparr>)
        else None)"

definition KphMsgDynRemaining :: "kph_message \<Rightarrow> ushort" where
  "KphMsgDynRemaining Message =
     (let (status, remaining) = RtlUShortSub sizeof_KPH_MESSAGE (Size Message) in
      if \<not> NT_SUCCESS status then 0 else remaining)"

section \<open>Typed fields\<close>

text \<open>
  \<open>RtlCopyMemory (Add2Ptr (Message, offset), data, n)\<close>: the buffer starts 356 bytes into the
  message and ends with it; a copy that is not inside it is \<open>None\<close>.
\<close>

definition copy_to_message :: "kph_message \<Rightarrow> ushort \<Rightarrow> uchar list \<Rightarrow> kph_message option" where
  "copy_to_message Message offset d =
     (if unat offset < 356 then None
      else map_option (\<lambda>b. Message\<lparr>Buffer := b\<rparr>) (mem_write (Buffer Message) (unat offset - 356) d))"

text \<open>A counted string or buffer of the caller: the length field and the memory it points to.\<close>

record counted_bytes =
  cb_Length :: ushort
  cb_Buffer :: "uchar list"

record stack_trace =
  st_Count :: ushort
  st_Frames :: "ulong64 list"

text \<open>What a getter fills in: lengths and a pointer, as the offset into the message.\<close>

record message_ref =
  ref_Length :: ushort
  ref_MaximumLength :: ushort
  ref_Buffer :: "ushort option"

definition null_ref :: message_ref where
  "null_ref = \<lparr>ref_Length = 0, ref_MaximumLength = 0, ref_Buffer = None\<rparr>"

text \<open>A 64 bit pointer in memory, low byte first.\<close>

definition frame_bytes :: "ulong64 \<Rightarrow> uchar list" where
  "frame_bytes p = map (\<lambda>i. ucast (drop_bit (8 * i) p)) [0..<8]"

definition add_counted :: "ulong \<Rightarrow> kph_message \<Rightarrow> ulong \<Rightarrow> counted_bytes \<Rightarrow> (ntstatus \<times> kph_message) option" where
  "add_counted typeId Message fieldId s =
     (let (status, Message', entry) = KphpMsgDynClaimEntry Message fieldId typeId (cb_Length s) in
      case entry of
        None \<Rightarrow> Some (status, Message')
      | Some e \<Rightarrow> (case mem_read (cb_Buffer s) 0 (unat (cb_Length s)) of
          None \<Rightarrow> None
        | Some d \<Rightarrow> map_option (\<lambda>m. (STATUS_SUCCESS, m)) (copy_to_message Message' (Offset e) d)))"

definition get_ref :: "ulong \<Rightarrow> kph_message \<Rightarrow> ulong \<Rightarrow> ntstatus \<times> message_ref" where
  "get_ref typeId Message fieldId =
     (case KphpMsgDynLookupEntry Message fieldId typeId of
        (status, None) \<Rightarrow> (status, null_ref)
      | (status, Some e) \<Rightarrow> (STATUS_SUCCESS,
          \<lparr>ref_Length = Length e, ref_MaximumLength = Length e, ref_Buffer = Some (Offset e)\<rparr>))"

definition KphMsgDynAddUnicodeString where
  "KphMsgDynAddUnicodeString = add_counted KphMsgTypeUnicodeString"

definition KphMsgDynGetUnicodeString where
  "KphMsgDynGetUnicodeString = get_ref KphMsgTypeUnicodeString"

definition KphMsgDynAddAnsiString where
  "KphMsgDynAddAnsiString = add_counted KphMsgTypeAnsiString"

definition KphMsgDynGetAnsiString where
  "KphMsgDynGetAnsiString = get_ref KphMsgTypeAnsiString"

definition KphMsgDynAddSizedBuffer where
  "KphMsgDynAddSizedBuffer = add_counted KphMsgTypeSizedBuffer"

text \<open>\<open>KPHM_SIZED_BUFFER\<close> has no maximum length.\<close>

definition KphMsgDynGetSizedBuffer :: "kph_message \<Rightarrow> ulong \<Rightarrow> ntstatus \<times> ushort \<times> ushort option" where
  "KphMsgDynGetSizedBuffer Message fieldId =
     (case KphpMsgDynLookupEntry Message fieldId KphMsgTypeSizedBuffer of
        (status, None) \<Rightarrow> (status, 0, None)
      | (status, Some e) \<Rightarrow> (STATUS_SUCCESS, Length e, Some (Offset e)))"

text \<open>
  \<open>StackTrace->Count * sizeof (PVOID)\<close> is converted to \<open>USHORT\<close> where it is passed as the length to
  claim, and is not where it is the size of the copy.
\<close>

definition KphMsgDynAddStackTrace ::
    "kph_message \<Rightarrow> ulong \<Rightarrow> stack_trace \<Rightarrow> (ntstatus \<times> kph_message) option" where
  "KphMsgDynAddStackTrace Message fieldId st =
     (let n = unat (st_Count st);
          (status, Message', entry) =
            KphpMsgDynClaimEntry Message fieldId KphMsgTypeStackTrace (of_nat (n * 8)) in
      case entry of
        None \<Rightarrow> Some (status, Message')
      | Some e \<Rightarrow> (case mem_read (st_Frames st) 0 n of
          None \<Rightarrow> None
        | Some fs \<Rightarrow>
            map_option (\<lambda>m. (STATUS_SUCCESS, m))
              (copy_to_message Message' (Offset e) (concat (map frame_bytes fs)))))"

definition KphMsgDynGetStackTrace :: "kph_message \<Rightarrow> ulong \<Rightarrow> ntstatus \<times> ushort \<times> ushort option" where
  "KphMsgDynGetStackTrace Message fieldId =
     (case KphpMsgDynLookupEntry Message fieldId KphMsgTypeStackTrace of
        (status, None) \<Rightarrow> (status, 0, None)
      | (status, Some e) \<Rightarrow> (STATUS_SUCCESS, Length e div 8, Some (Offset e)))"

section \<open>Well-formed messages and their abstraction\<close>

definition live :: "kph_message \<Rightarrow> dyn_entry list" where
  "live m = take (unat (DynCount m)) (Entries m)"

fun entries_tile :: "nat \<Rightarrow> dyn_entry list \<Rightarrow> nat \<Rightarrow> bool" where
  "entries_tile off [] stop = (off = stop)"
| "entries_tile off (e # es) stop =
     (unat (Offset e) = off \<and> entries_tile (off + unat (Length e)) es stop)"

text \<open>
  The message validates, the table and the buffer have their array sizes, the fields in use are
  distinct, and their ranges follow each other without a gap from the start of the buffer to
  \<open>Size\<close>.
\<close>

definition msg_wf :: "kph_message \<Rightarrow> bool" where
  "msg_wf m \<longleftrightarrow> KphMsgValidate m = STATUS_SUCCESS \<and> length (Entries m) = 8 \<and>
     length (Buffer m) = 3740 \<and> unat (DynCount m) \<le> 8 \<and>
     entries_tile 356 (live m) (unat (Size m)) \<and> distinct (map FieldId (live m))"

definition entry_bytes :: "kph_message \<Rightarrow> dyn_entry \<Rightarrow> uchar list option" where
  "entry_bytes m e =
     (if unat (Offset e) < 356 then None
      else mem_read (Buffer m) (unat (Offset e) - 356) (unat (Length e)))"

definition dyn_map :: "kph_message \<Rightarrow> ulong \<Rightarrow> (ulong \<times> uchar list) option" where
  "dyn_map m f =
     (case List.find (\<lambda>e. FieldId e = f) (live m) of
        None \<Rightarrow> None
      | Some e \<Rightarrow> map_option (Pair (TypeId e)) (entry_bytes m e))"

text \<open>When a claim succeeds, stated on the abstract data.\<close>

definition valid_field :: "ulong \<Rightarrow> bool" where
  "valid_field f \<longleftrightarrow> InvalidKphMsgField <s f \<and> f <s MaxKphMsgField"

definition valid_type :: "ulong \<Rightarrow> bool" where
  "valid_type t \<longleftrightarrow> InvalidKphMsgType <s t \<and> t <s MaxKphMsgType"

definition claim_ok :: "kph_message \<Rightarrow> ulong \<Rightarrow> ulong \<Rightarrow> nat \<Rightarrow> bool" where
  "claim_ok m f t n \<longleftrightarrow> valid_field f \<and> valid_type t \<and> unat (DynCount m) < 8 \<and>
     dyn_map m f = None \<and> unat (Size m) + n \<le> 4096"

subsection \<open>Finding an entry\<close>

lemma find_entry_from_eq:
  "i + n \<le> length es \<Longrightarrow>
   map_option ((!) es) (find_entry_from es i n f) = List.find (\<lambda>e. FieldId e = f) (take n (drop i es))"
proof (induction n arbitrary: i)
  case 0
  then show ?case by simp
next
  case (Suc n)
  then have "drop i es = es ! i # drop (Suc i) es"
    by (simp add: Cons_nth_drop_Suc)
  with Suc show ?case by simp
qed

lemma FindEntry_eq:
  "unat (DynCount m) \<le> length (Entries m) \<Longrightarrow>
   map_option ((!) (Entries m)) (KphpMsgDynFindEntry m f) = List.find (\<lambda>e. FieldId e = f) (live m)"
  using find_entry_from_eq [of 0 "unat (DynCount m)" "Entries m" f]
  by (simp add: KphpMsgDynFindEntry_def live_def)

subsection \<open>Tilings\<close>

lemma entries_tile_append:
  "entries_tile off (es @ [e]) stop \<longleftrightarrow>
   entries_tile off es (unat (Offset e)) \<and> stop = unat (Offset e) + unat (Length e)"
  by (induction es arbitrary: off) auto

lemma entries_tile_le: "entries_tile off es stop \<Longrightarrow> off \<le> stop"
  by (induction es arbitrary: off) fastforce+

lemma entries_tile_bounds:
  "entries_tile off es stop \<Longrightarrow> e \<in> set es \<Longrightarrow>
   off \<le> unat (Offset e) \<and> unat (Offset e) + unat (Length e) \<le> stop"
proof (induction es arbitrary: off)
  case Nil
  then show ?case by simp
next
  case (Cons a es)
  have "off + unat (Length a) \<le> stop"
    using Cons.prems(1) by (auto dest: entries_tile_le)
  with Cons show ?case by fastforce
qed

subsection \<open>Facts of a well-formed message\<close>

lemma msg_wf_size: "msg_wf m \<Longrightarrow> 356 \<le> unat (Size m) \<and> unat (Size m) \<le> 4096"
  by (auto simp: msg_wf_def KphMsgValidate_def word_less_nat_alt split: if_splits)

lemma msg_wf_length_live: "msg_wf m \<Longrightarrow> length (live m) = unat (DynCount m)"
  by (simp add: msg_wf_def live_def)

lemma msg_wf_entry:
  "msg_wf m \<Longrightarrow> e \<in> set (live m) \<Longrightarrow>
   356 \<le> unat (Offset e) \<and> unat (Offset e) + unat (Length e) \<le> unat (Size m)"
  using entries_tile_bounds [of 356 "live m" "unat (Size m)" e] by (simp add: msg_wf_def)

lemma msg_wf_entry_bytes:
  assumes "msg_wf m" and "e \<in> set (live m)"
  shows "\<exists>d. entry_bytes m e = Some d \<and> length d = unat (Length e)"
  using msg_wf_entry [OF assms] msg_wf_size [OF assms(1)] assms(1)
  by (auto simp: entry_bytes_def mem_read_def msg_wf_def)

lemma msg_wf_Buffer: "msg_wf m \<Longrightarrow> length (Buffer m) = 3740"
  by (simp add: msg_wf_def)

lemma KphMsgValidate_Buffer_update [simp]: "KphMsgValidate (m\<lparr>Buffer := b\<rparr>) = KphMsgValidate m"
  by (simp add: KphMsgValidate_def)

lemma live_Buffer_update [simp]: "live (m\<lparr>Buffer := b\<rparr>) = live m"
  by (simp add: live_def)

lemma msg_wf_Buffer_update: "msg_wf m \<Longrightarrow> length b = 3740 \<Longrightarrow> msg_wf (m\<lparr>Buffer := b\<rparr>)"
  by (simp add: msg_wf_def)

lemma find_SomeD: "List.find P xs = Some x \<Longrightarrow> x \<in> set xs \<and> P x"
  by (auto simp: find_Some_iff)

lemma msg_wf_dyn_map_None:
  assumes "msg_wf m"
  shows "dyn_map m f = None \<longleftrightarrow> List.find (\<lambda>e. FieldId e = f) (live m) = None"
proof (cases "List.find (\<lambda>e. FieldId e = f) (live m)")
  case (Some e)
  then obtain d where "entry_bytes m e = Some d"
    using msg_wf_entry_bytes [OF assms, of e] find_SomeD [OF Some] by blast
  with Some show ?thesis by (simp add: dyn_map_def)
qed (simp add: dyn_map_def)

lemma msg_wf_FindEntry_None:
  assumes "msg_wf m"
  shows "KphpMsgDynFindEntry m f = None \<longleftrightarrow> dyn_map m f = None"
proof -
  have "map_option ((!) (Entries m)) (KphpMsgDynFindEntry m f) = List.find (\<lambda>e. FieldId e = f) (live m)"
    using assms by (simp add: FindEntry_eq msg_wf_def)
  then show ?thesis
    using msg_wf_dyn_map_None [OF assms, of f] by (metis option.map_disc_iff)
qed

subsection \<open>Claiming an entry\<close>

lemma RtlUShortAdd_success:
  "unat a + unat b < 65536 \<Longrightarrow> RtlUShortAdd a b = (STATUS_SUCCESS, a + b)"
  by (simp add: RtlUShortAdd_def word_no_overflow_iff)

lemma RtlUShortAdd_overflow:
  "65536 \<le> unat a + unat b \<Longrightarrow> RtlUShortAdd a b = (STATUS_INTEGER_OVERFLOW, 0xFFFF)"
  by (simp add: RtlUShortAdd_def word_no_overflow_iff)

definition claimed_message :: "kph_message \<Rightarrow> ulong \<Rightarrow> ulong \<Rightarrow> ushort \<Rightarrow> kph_message" where
  "claimed_message m f t n =
     m\<lparr>Entries := (Entries m)[unat (DynCount m) :=
         \<lparr>FieldId = f, TypeId = t, Offset = Size m, Length = n\<rparr>],
       DynCount := DynCount m + 1, Size := Size m + n\<rparr>"

lemma not_valid_field: "\<not> valid_field f \<longleftrightarrow> f \<le>s InvalidKphMsgField \<or> MaxKphMsgField \<le>s f"
  by (auto simp: valid_field_def word_sle_eq word_sless_alt)

lemma not_valid_type: "\<not> valid_type t \<longleftrightarrow> t \<le>s InvalidKphMsgType \<or> MaxKphMsgType \<le>s t"
  by (auto simp: valid_type_def word_sle_eq word_sless_alt)

lemma ClaimEntry_success:
  assumes wf: "msg_wf m" and ok: "claim_ok m f t (unat n)"
  shows "KphpMsgDynClaimEntry m f t n =
     (STATUS_SUCCESS, claimed_message m f t n,
      Some \<lparr>FieldId = f, TypeId = t, Offset = Size m, Length = n\<rparr>)"
proof -
  have f: "\<not> (f \<le>s InvalidKphMsgField \<or> MaxKphMsgField \<le>s f)"
    and t: "\<not> (t \<le>s InvalidKphMsgType \<or> MaxKphMsgType \<le>s t)"
    using ok not_valid_field [of f] not_valid_type [of t] by (auto simp: claim_ok_def)
  have c: "\<not> 8 \<le> unat (DynCount m)"
    using ok by (simp add: claim_ok_def)
  have nf: "KphpMsgDynFindEntry m f = None"
    using ok wf by (simp add: claim_ok_def msg_wf_FindEntry_None)
  have s: "unat (Size m) + unat n \<le> 4096"
    using ok by (simp add: claim_ok_def)
  then have a: "RtlUShortAdd (Size m) n = (STATUS_SUCCESS, Size m + n)"
    by (simp add: RtlUShortAdd_success)
  have "unat (Size m + n) = unat (Size m) + unat n"
    using s by (simp add: unat_plus_no_overflow)
  then have b: "\<not> sizeof_KPH_MESSAGE < Size m + n"
    using s by (simp add: word_less_nat_alt)
  have v: "KphMsgValidate m = STATUS_SUCCESS"
    using wf by (simp add: msg_wf_def)
  show ?thesis
    using f t c nf a b v by (simp add: KphpMsgDynClaimEntry_def claimed_message_def Let_def)
qed

lemma ClaimEntry_failure:
  assumes wf: "msg_wf m" and no: "\<not> claim_ok m f t (unat n)"
  shows "\<exists>s. s \<noteq> STATUS_SUCCESS \<and> KphpMsgDynClaimEntry m f t n = (s, m, None)"
proof -
  consider "f \<le>s InvalidKphMsgField \<or> MaxKphMsgField \<le>s f"
    | "t \<le>s InvalidKphMsgType \<or> MaxKphMsgType \<le>s t"
    | "8 \<le> unat (DynCount m)" | "KphpMsgDynFindEntry m f \<noteq> None"
    | "65536 \<le> unat (Size m) + unat n"
    | "unat (Size m) + unat n < 65536" "4096 < unat (Size m) + unat n"
    using no wf
    by (cases "unat (Size m) + unat n < 65536")
      (auto simp: claim_ok_def not_valid_field not_valid_type msg_wf_FindEntry_None not_le)
  then show ?thesis
  proof cases
    case 5
    then show ?thesis
      by (auto simp: KphpMsgDynClaimEntry_def RtlUShortAdd_overflow NT_SUCCESS_def Let_def)
  next
    case 6
    then have "sizeof_KPH_MESSAGE < Size m + n"
      by (simp add: word_less_nat_alt unat_plus_no_overflow)
    with 6 show ?thesis
      by (auto simp: KphpMsgDynClaimEntry_def RtlUShortAdd_success NT_SUCCESS_def Let_def)
  qed (auto simp: KphpMsgDynClaimEntry_def NT_SUCCESS_def Let_def)
qed

lemma claimed_message_live:
  assumes "msg_wf m" and "unat (DynCount m) < 8"
  shows "live (claimed_message m f t n) =
     live m @ [\<lparr>FieldId = f, TypeId = t, Offset = Size m, Length = n\<rparr>]"
proof -
  have "unat (DynCount m + 1) = Suc (unat (DynCount m))"
    using assms(2) by (simp add: unat_plus_no_overflow)
  then show ?thesis
    using assms by (simp add: live_def claimed_message_def msg_wf_def take_Suc_conv_app_nth)
qed

lemma claimed_message_wf:
  assumes wf: "msg_wf m" and ok: "claim_ok m f t (unat n)"
  shows "msg_wf (claimed_message m f t n)"
proof -
  have c: "unat (DynCount m) < 8" and s: "unat (Size m) + unat n \<le> 4096"
    using ok by (simp_all add: claim_ok_def)
  have u: "unat (Size m + n) = unat (Size m) + unat n"
    using s by (simp add: unat_plus_no_overflow)
  have uc: "unat (DynCount m + 1) = Suc (unat (DynCount m))"
    using c by (simp add: unat_plus_no_overflow)
  have "List.find (\<lambda>e. FieldId e = f) (live m) = None"
    using ok msg_wf_dyn_map_None [OF wf] by (simp add: claim_ok_def)
  then have nf: "f \<notin> FieldId ` set (live m)"
    by (auto simp: find_None_iff)
  have v: "KphMsgValidate (claimed_message m f t n) = STATUS_SUCCESS"
    using wf u s msg_wf_size [OF wf]
    by (auto simp: msg_wf_def KphMsgValidate_def claimed_message_def word_less_nat_alt
        split: if_splits)
  show ?thesis
    using wf v c uc u nf unfolding msg_wf_def claimed_message_live [OF wf c]
    by (simp add: claimed_message_def entries_tile_append)
qed

subsection \<open>Adding a payload\<close>

definition add_payload :: "ulong \<Rightarrow> kph_message \<Rightarrow> ulong \<Rightarrow> uchar list \<Rightarrow> (ntstatus \<times> kph_message) option" where
  "add_payload t m f d =
     (let (status, m', entry) = KphpMsgDynClaimEntry m f t (of_nat (length d)) in
      case entry of
        None \<Rightarrow> Some (status, m')
      | Some e \<Rightarrow> map_option (\<lambda>m''. (STATUS_SUCCESS, m'')) (copy_to_message m' (Offset e) d))"

lemma find_append_single:
  "List.find P (xs @ [x]) =
     (case List.find P xs of Some y \<Rightarrow> Some y | None \<Rightarrow> if P x then Some x else None)"
  by (induction xs) auto

lemma copied_dyn_map:
  assumes wf: "msg_wf m" and ok: "claim_ok m f t (length d)"
    and w: "mem_write (Buffer m) (unat (Size m) - 356) d = Some b"
  shows "dyn_map ((claimed_message m f t (of_nat (length d)))\<lparr>Buffer := b\<rparr>) = (dyn_map m)(f \<mapsto> (t, d))"
    (is "dyn_map ?m' = _")
proof
  fix g
  let ?e = "\<lparr>FieldId = f, TypeId = t, Offset = Size m, Length = of_nat (length d)\<rparr>"
  have c: "unat (DynCount m) < 8" and n: "length d \<le> 4096"
    using ok by (simp_all add: claim_ok_def)
  then have len: "unat (of_nat (length d) :: ushort) = length d"
    by (simp add: unat_of_nat)
  note live' = claimed_message_live [OF wf c, of f t "of_nat (length d)"]
  have f: "List.find (\<lambda>e. FieldId e = f) (live m) = None"
    using ok msg_wf_dyn_map_None [OF wf] by (simp add: claim_ok_def)
  have old: "entry_bytes ?m' e = entry_bytes m e" if "e \<in> set (live m)" for e
  proof -
    have "unat (Offset e) - 356 + unat (Length e) \<le> unat (Size m) - 356"
      using msg_wf_entry [OF wf that] by linarith
    with mem_read_write_other [OF w disjI1 [OF this]] show ?thesis
      by (simp add: entry_bytes_def claimed_message_def)
  qed
  have new: "entry_bytes ?m' ?e = Some d"
    using w msg_wf_size [OF wf] len by (simp add: entry_bytes_def mem_read_write_same)
  show "dyn_map ?m' g = ((dyn_map m)(f \<mapsto> (t, d))) g"
  proof (cases "g = f")
    case True
    with f new show ?thesis by (simp add: dyn_map_def live' find_append_single)
  next
    case False
    then have eq: "List.find (\<lambda>e. FieldId e = g) (live ?m') = List.find (\<lambda>e. FieldId e = g) (live m)"
      by (simp add: live' find_append_single split: option.split)
    show ?thesis
    proof (cases "List.find (\<lambda>e. FieldId e = g) (live m)")
      case None
      with eq False show ?thesis by (simp add: dyn_map_def)
    next
      case (Some e)
      then have "entry_bytes ?m' e = entry_bytes m e"
        by (intro old) (auto dest: find_SomeD)
      with eq Some False show ?thesis by (simp add: dyn_map_def)
    qed
  qed
qed

lemma add_payload_success:
  assumes wf: "msg_wf m" and ok: "claim_ok m f t (length d)"
  shows "\<exists>m'. add_payload t m f d = Some (STATUS_SUCCESS, m') \<and> msg_wf m' \<and>
     dyn_map m' = (dyn_map m)(f \<mapsto> (t, d)) \<and> unat (Size m') = unat (Size m) + length d"
proof -
  have n: "length d \<le> 4096" and s: "unat (Size m) + length d \<le> 4096"
    using ok by (simp_all add: claim_ok_def)
  from n have len: "unat (of_nat (length d) :: ushort) = length d"
    by (simp add: unat_of_nat)
  with ok have ok': "claim_ok m f t (unat (of_nat (length d) :: ushort))" by simp
  let ?c = "claimed_message m f t (of_nat (length d))"
  obtain b where w: "mem_write (Buffer m) (unat (Size m) - 356) d = Some b"
    using wf s msg_wf_size [OF wf] mem_write_Some_iff [of "Buffer m" "unat (Size m) - 356" d]
    by (auto simp: msg_wf_def)
  have eq: "add_payload t m f d = Some (STATUS_SUCCESS, ?c\<lparr>Buffer := b\<rparr>)"
    using ClaimEntry_success [OF wf ok'] w msg_wf_size [OF wf]
    by (simp add: add_payload_def copy_to_message_def claimed_message_def)
  have "msg_wf (?c\<lparr>Buffer := b\<rparr>)"
    using claimed_message_wf [OF wf ok'] mem_write_length [OF w] msg_wf_Buffer [OF wf]
    by (simp add: msg_wf_Buffer_update)
  moreover have "unat (Size (?c\<lparr>Buffer := b\<rparr>)) = unat (Size m) + length d"
    using s len by (simp add: claimed_message_def unat_plus_no_overflow)
  ultimately show ?thesis
    using eq copied_dyn_map [OF wf ok w] by blast
qed

lemma add_payload_failure:
  assumes wf: "msg_wf m" and "length d < 65536" and no: "\<not> claim_ok m f t (length d)"
  shows "\<exists>s. s \<noteq> STATUS_SUCCESS \<and> add_payload t m f d = Some (s, m)"
proof -
  have "unat (of_nat (length d) :: ushort) = length d"
    using assms(2) by (simp add: unat_of_nat)
  with no have "\<not> claim_ok m f t (unat (of_nat (length d) :: ushort))" by simp
  from ClaimEntry_failure [OF wf this] show ?thesis
    by (auto simp: add_payload_def)
qed

section \<open>The contract of a typed field\<close>

text \<open>
  What the four kinds of fields share: \<open>payload v\<close> are the bytes of a caller's value and
  \<open>readable v\<close> says that its memory is as long as its length field says.
\<close>

locale dyn_field =
  fixes tid :: ulong
    and readable :: "'v \<Rightarrow> bool"
    and payload :: "'v \<Rightarrow> uchar list"
    and add :: "kph_message \<Rightarrow> ulong \<Rightarrow> 'v \<Rightarrow> (ntstatus \<times> kph_message) option"
  assumes tid_valid: "valid_type tid"
    and payload_length: "readable v \<Longrightarrow> length (payload v) < 65536"
    and add_eq: "readable v \<Longrightarrow> add m f v = add_payload tid m f (payload v)"
begin

lemma add_cases:
  assumes "msg_wf m" and "readable v"
  shows "claim_ok m f tid (length (payload v)) \<and>
      (\<exists>m'. add m f v = Some (STATUS_SUCCESS, m') \<and> msg_wf m' \<and>
         dyn_map m' = (dyn_map m)(f \<mapsto> (tid, payload v)) \<and>
         unat (Size m') = unat (Size m) + length (payload v))
    \<or> \<not> claim_ok m f tid (length (payload v)) \<and>
      (\<exists>s. s \<noteq> STATUS_SUCCESS \<and> add m f v = Some (s, m))"
  using add_payload_success [OF assms(1)] add_payload_failure [OF assms(1) payload_length]
    add_eq [OF assms(2)] assms(2) by simp blast

lemma add_total: "msg_wf m \<Longrightarrow> readable v \<Longrightarrow> \<exists>s m'. add m f v = Some (s, m')"
  using add_cases by blast

lemma add_wf: "msg_wf m \<Longrightarrow> readable v \<Longrightarrow> add m f v = Some (s, m') \<Longrightarrow> msg_wf m'"
  using add_cases [of m v f] by auto

lemma add_success:
  assumes "msg_wf m" and "readable v" and "add m f v = Some (STATUS_SUCCESS, m')"
  shows "claim_ok m f tid (length (payload v)) \<and> dyn_map m' = (dyn_map m)(f \<mapsto> (tid, payload v)) \<and>
    unat (Size m') = unat (Size m) + length (payload v)"
  using add_cases [OF assms(1,2), of f] assms(3) by auto

lemma add_error:
  assumes "msg_wf m" and "readable v" and "add m f v = Some (s, m')" and "s \<noteq> STATUS_SUCCESS"
  shows "m' = m \<and> \<not> claim_ok m f tid (length (payload v))"
  using add_cases [OF assms(1,2), of f] assms(3,4) by auto

end

definition counted_ok :: "counted_bytes \<Rightarrow> bool" where
  "counted_ok s \<longleftrightarrow> unat (cb_Length s) \<le> length (cb_Buffer s)"

definition counted_payload :: "counted_bytes \<Rightarrow> uchar list" where
  "counted_payload s = take (unat (cb_Length s)) (cb_Buffer s)"

definition trace_ok :: "stack_trace \<Rightarrow> bool" where
  "trace_ok st \<longleftrightarrow> unat (st_Count st) \<le> length (st_Frames st) \<and> unat (st_Count st) < 8192"

definition trace_payload :: "stack_trace \<Rightarrow> uchar list" where
  "trace_payload st = concat (map frame_bytes (take (unat (st_Count st)) (st_Frames st)))"

lemma counted_payload_length: "counted_ok s \<Longrightarrow> length (counted_payload s) = unat (cb_Length s)"
  by (simp add: counted_ok_def counted_payload_def)

lemma add_counted_eq: "counted_ok s \<Longrightarrow> add_counted t m f s = add_payload t m f (counted_payload s)"
  using counted_payload_length [of s]
  by (auto simp: add_counted_def add_payload_def counted_ok_def mem_read_def counted_payload_def
      split: option.splits)

lemma length_frames: "length (concat (map frame_bytes fs)) = length fs * 8"
  by (induction fs) (simp_all add: frame_bytes_def)

lemma trace_payload_length: "trace_ok st \<Longrightarrow> length (trace_payload st) = unat (st_Count st) * 8"
  by (simp add: trace_ok_def trace_payload_def length_frames)

lemma AddStackTrace_eq:
  "trace_ok st \<Longrightarrow> KphMsgDynAddStackTrace m f st = add_payload KphMsgTypeStackTrace m f (trace_payload st)"
  using trace_payload_length [of st]
  by (auto simp: KphMsgDynAddStackTrace_def add_payload_def trace_ok_def mem_read_def trace_payload_def
      Let_def split: option.splits)

lemma counted_less: "counted_ok s \<Longrightarrow> length (counted_payload s) < 65536"
  using counted_payload_length [of s] unat_ushort_less [of "cb_Length s"] by simp

interpretation unicode_field: dyn_field KphMsgTypeUnicodeString counted_ok counted_payload KphMsgDynAddUnicodeString
  by unfold_locales
    (simp_all add: valid_type_def word_sless_alt counted_less KphMsgDynAddUnicodeString_def add_counted_eq)

interpretation ansi_field: dyn_field KphMsgTypeAnsiString counted_ok counted_payload KphMsgDynAddAnsiString
  by unfold_locales
    (simp_all add: valid_type_def word_sless_alt counted_less KphMsgDynAddAnsiString_def add_counted_eq)

interpretation buffer_field: dyn_field KphMsgTypeSizedBuffer counted_ok counted_payload KphMsgDynAddSizedBuffer
  by unfold_locales
    (simp_all add: valid_type_def word_sless_alt counted_less KphMsgDynAddSizedBuffer_def add_counted_eq)

interpretation trace_field: dyn_field KphMsgTypeStackTrace trace_ok trace_payload KphMsgDynAddStackTrace
  by unfold_locales
    (auto simp: valid_type_def word_sless_alt trace_payload_length AddStackTrace_eq trace_ok_def)

section \<open>Looking a field up\<close>

lemma LookupEntry_found:
  assumes wf: "msg_wf m" and "dyn_map m f = Some (t, d)" and "d \<noteq> []"
  shows "\<exists>e. KphpMsgDynLookupEntry m f t = (STATUS_SUCCESS, Some e) \<and> entry_bytes m e = Some d \<and>
    356 \<le> unat (Offset e) \<and> unat (Offset e) + unat (Length e) \<le> unat (Size m) \<and>
    unat (Length e) = length d"
proof -
  obtain e where e: "List.find (\<lambda>e. FieldId e = f) (live m) = Some e" "TypeId e = t"
      "entry_bytes m e = Some d"
    using assms(2) by (auto simp: dyn_map_def split: option.splits)
  then have b: "356 \<le> unat (Offset e) \<and> unat (Offset e) + unat (Length e) \<le> unat (Size m)"
      "length d = unat (Length e)"
    using msg_wf_entry [OF wf, of e] msg_wf_entry_bytes [OF wf, of e] find_SomeD [OF e(1)] by auto
  then have "\<not> Size m \<le> Offset e"
    using length_greater_0_conv [THEN iffD2, OF assms(3)] by (auto simp: word_le_nat_alt)
  moreover obtain i where "KphpMsgDynFindEntry m f = Some i" "Entries m ! i = e"
    using FindEntry_eq [of m f] wf e(1) by (auto simp: msg_wf_def)
  ultimately have "KphpMsgDynLookupEntry m f t = (STATUS_SUCCESS, Some e)"
    using wf e(2) by (simp add: KphpMsgDynLookupEntry_def msg_wf_def)
  with b e(3) show ?thesis by auto
qed

lemma get_ref_found:
  assumes wf: "msg_wf m" and "dyn_map m f = Some (t, d)" and "d \<noteq> []"
  shows "\<exists>off. get_ref t m f = (STATUS_SUCCESS, \<lparr>ref_Length = of_nat (length d),
      ref_MaximumLength = of_nat (length d), ref_Buffer = Some off\<rparr>) \<and> 356 \<le> unat off \<and>
    unat off + length d \<le> unat (Size m) \<and> mem_read (Buffer m) (unat off - 356) (length d) = Some d"
proof -
  obtain e where "KphpMsgDynLookupEntry m f t = (STATUS_SUCCESS, Some e)" "entry_bytes m e = Some d"
      "356 \<le> unat (Offset e)" "unat (Offset e) + unat (Length e) \<le> unat (Size m)"
      and len: "unat (Length e) = length d"
    using LookupEntry_found [OF assms] by blast
  moreover have "Length e = of_nat (length d)"
    using len by (simp flip: len)
  ultimately show ?thesis
    by (auto simp: get_ref_def entry_bytes_def intro!: exI [of _ "Offset e"] split: if_splits)
qed

section \<open>Sequences of operations\<close>

datatype dyn_op =
    AddUnicode ulong counted_bytes
  | AddAnsi ulong counted_bytes
  | AddBuffer ulong counted_bytes
  | AddTrace ulong stack_trace
  | Clear

fun op_readable :: "dyn_op \<Rightarrow> bool" where
  "op_readable (AddTrace f st) = trace_ok st"
| "op_readable (AddUnicode f s) = counted_ok s"
| "op_readable (AddAnsi f s) = counted_ok s"
| "op_readable (AddBuffer f s) = counted_ok s"
| "op_readable Clear = True"

fun run_op :: "kph_message \<Rightarrow> dyn_op \<Rightarrow> kph_message option" where
  "run_op m (AddUnicode f s) = map_option snd (KphMsgDynAddUnicodeString m f s)"
| "run_op m (AddAnsi f s) = map_option snd (KphMsgDynAddAnsiString m f s)"
| "run_op m (AddBuffer f s) = map_option snd (KphMsgDynAddSizedBuffer m f s)"
| "run_op m (AddTrace f st) = map_option snd (KphMsgDynAddStackTrace m f st)"
| "run_op m Clear = Some (KphMsgDynClear m)"

fun run_ops :: "kph_message \<Rightarrow> dyn_op list \<Rightarrow> kph_message option" where
  "run_ops m [] = Some m"
| "run_ops m (x # xs) = (case run_op m x of None \<Rightarrow> None | Some m' \<Rightarrow> run_ops m' xs)"

text \<open>The same on the abstract state: the fields, and how many bytes they take.\<close>

type_synonym dyn_state = "(ulong \<rightharpoonup> ulong \<times> uchar list) \<times> nat \<times> nat"

definition spec_add :: "dyn_state \<Rightarrow> ulong \<Rightarrow> ulong \<Rightarrow> uchar list \<Rightarrow> dyn_state" where
  "spec_add S t f d =
     (case S of (M, count, used) \<Rightarrow>
        if valid_field f \<and> count < 8 \<and> M f = None \<and> used + length d \<le> 3740
        then (M(f \<mapsto> (t, d)), Suc count, used + length d) else S)"

fun spec_op :: "dyn_state \<Rightarrow> dyn_op \<Rightarrow> dyn_state" where
  "spec_op S (AddUnicode f s) = spec_add S KphMsgTypeUnicodeString f (counted_payload s)"
| "spec_op S (AddAnsi f s) = spec_add S KphMsgTypeAnsiString f (counted_payload s)"
| "spec_op S (AddBuffer f s) = spec_add S KphMsgTypeSizedBuffer f (counted_payload s)"
| "spec_op S (AddTrace f st) = spec_add S KphMsgTypeStackTrace f (trace_payload st)"
| "spec_op S Clear = (Map.empty, 0, 0)"

definition dyn_abs :: "kph_message \<Rightarrow> dyn_state" where
  "dyn_abs m = (dyn_map m, unat (DynCount m), unat (Size m) - 356)"

lemma add_payload_count:
  "msg_wf m \<Longrightarrow> claim_ok m f t (length d) \<Longrightarrow> add_payload t m f d = Some (s, m') \<Longrightarrow>
   unat (DynCount m') = Suc (unat (DynCount m))"
  using ClaimEntry_success [of m f t "of_nat (length d)"]
  by (auto simp: add_payload_def claim_ok_def unat_of_nat copy_to_message_def claimed_message_def
      unat_plus_no_overflow split: if_splits)

lemma add_payload_refines:
  assumes wf: "msg_wf m" and "length d < 65536" and "valid_type t"
  shows "\<exists>s m'. add_payload t m f d = Some (s, m') \<and> msg_wf m' \<and> dyn_abs m' = spec_add (dyn_abs m) t f d"
proof (cases "claim_ok m f t (length d)")
  case True
  then obtain m' where m': "add_payload t m f d = Some (STATUS_SUCCESS, m')" "msg_wf m'"
      "dyn_map m' = (dyn_map m)(f \<mapsto> (t, d))" "unat (Size m') = unat (Size m) + length d"
    using add_payload_success [OF wf] by blast
  with True add_payload_count [OF wf True m'(1)] msg_wf_size [OF wf]
  have "dyn_abs m' = spec_add (dyn_abs m) t f d"
    by (auto simp: dyn_abs_def spec_add_def claim_ok_def)
  with m' show ?thesis by blast
next
  case False
  then obtain s where "add_payload t m f d = Some (s, m)"
    using add_payload_failure [OF wf assms(2)] by blast
  moreover have "dyn_abs m = spec_add (dyn_abs m) t f d"
    using False assms(3) msg_wf_size [OF wf] by (auto simp: dyn_abs_def spec_add_def claim_ok_def)
  ultimately show ?thesis using wf by auto
qed

lemma run_op_refines:
  assumes "msg_wf m" and "op_readable x"
  shows "\<exists>m'. run_op m x = Some m' \<and> msg_wf m' \<and> dyn_abs m' = spec_op (dyn_abs m) x"
proof (cases x)
  case Clear
  have "msg_wf (KphMsgDynClear m)"
    using assms(1) by (auto simp: msg_wf_def KphMsgDynClear_def KphMsgValidate_def live_def split: if_splits)
  moreover have "dyn_abs (KphMsgDynClear m) = (Map.empty, 0, 0)"
    by (auto simp: dyn_abs_def KphMsgDynClear_def dyn_map_def live_def)
  ultimately show ?thesis using Clear by simp
next
  case (AddUnicode f s)
  then show ?thesis
    using assms add_payload_refines [OF assms(1) unicode_field.payload_length unicode_field.tid_valid, of s f]
    by (auto simp: unicode_field.add_eq)
next
  case (AddAnsi f s)
  then show ?thesis
    using assms add_payload_refines [OF assms(1) ansi_field.payload_length ansi_field.tid_valid, of s f]
    by (auto simp: ansi_field.add_eq)
next
  case (AddBuffer f s)
  then show ?thesis
    using assms add_payload_refines [OF assms(1) buffer_field.payload_length buffer_field.tid_valid, of s f]
    by (auto simp: buffer_field.add_eq)
next
  case (AddTrace f st)
  then show ?thesis
    using assms add_payload_refines [OF assms(1) trace_field.payload_length trace_field.tid_valid, of st f]
    by (auto simp: trace_field.add_eq)
qed

lemma run_ops_refines:
  "msg_wf m \<Longrightarrow> list_all op_readable xs \<Longrightarrow>
   \<exists>m'. run_ops m xs = Some m' \<and> msg_wf m' \<and> dyn_abs m' = foldl spec_op (dyn_abs m) xs"
proof (induction xs arbitrary: m)
  case Nil
  then show ?case by simp
next
  case (Cons x xs)
  then obtain m1 where m1: "run_op m x = Some m1" "msg_wf m1" "dyn_abs m1 = spec_op (dyn_abs m) x"
    using run_op_refines [of m x] by auto
  with Cons.IH [of m1] Cons.prems show ?case by auto
qed

definition valid_message_id :: "ulong \<Rightarrow> bool" where
  "valid_message_id i \<longleftrightarrow> i = KphMsgUnhandled \<or> InvalidKphMsg <s i \<and> i <s MaxKphMsg"

lemma KphMsgInit_wf:
  assumes "length (Buffer m) = 3740" and "valid_message_id i"
  shows "msg_wf (KphMsgInit now m i)"
proof -
  have "\<not> (i \<noteq> KphMsgUnhandled \<and> (i \<le>s InvalidKphMsg \<or> MaxKphMsg \<le>s i))"
    using assms(2) by (auto simp: valid_message_id_def word_sle_eq word_sless_alt)
  then show ?thesis
    using assms(1) by (auto simp: msg_wf_def KphMsgInit_def KphMsgValidate_def live_def)
qed

lemma KphMsgInit_abs: "dyn_abs (KphMsgInit now m i) = (Map.empty, 0, 0)"
  by (auto simp: dyn_abs_def KphMsgInit_def dyn_map_def live_def)

text \<open>The blank message the witnesses start from.\<close>

definition blank_message :: kph_message where
  "blank_message = \<lparr>Version = 0, Size = 0, MessageId = 0, TimeStamp = 0, Body = replicate 240 0,
     DynCount = 0, Entries = replicate 8 zero_entry, Buffer = replicate 3740 0\<rparr>"

definition first_message :: kph_message where
  "first_message = KphMsgInit 0 blank_message 1"

lemma first_message_wf: "msg_wf first_message"
  by (simp add: first_message_def KphMsgInit_wf blank_message_def valid_message_id_def word_sless_alt)

lemma first_message_abs: "dyn_abs first_message = (Map.empty, 0, 0)"
  by (simp add: first_message_def KphMsgInit_abs)

lemma first_message_claim: "n \<le> 3740 \<Longrightarrow> valid_type t \<Longrightarrow> claim_ok first_message 1 t n"
  using first_message_abs
  by (auto simp: claim_ok_def dyn_abs_def valid_field_def word_sless_alt first_message_def KphMsgInit_def)

section \<open>Properties\<close>

text \<open>
  C10. After \<open>KphMsgInit\<close>, any sequence of the four \<open>KphMsgDynAdd\<close> operations and \<open>KphMsgDynClear\<close>
  on readable values, stack traces of fewer than 8192 frames among them, stays inside the memory of the message, keeps it well formed, and acts on the
  abstract state (the map from field identifiers to typed byte strings, the number of fields and
  the bytes in use) exactly as the specification: a field is added when its identifier is valid
  and new, the table has room and the bytes fit, and otherwise nothing changes. Longer stack traces and
  \<open>KphMsgDynClearLast\<close>, which can leave the memory, are not among these operations: they have theorems of their own below.
\<close>

theorem KphMsgDyn_operations_refine:
  assumes "length (Buffer m) = 3740" and "valid_message_id i" and "list_all op_readable ops"
  shows "\<exists>m'. run_ops (KphMsgInit now m i) ops = Some m' \<and> msg_wf m' \<and>
    dyn_abs m' = foldl spec_op (Map.empty, 0, 0) ops"
  using run_ops_refines [OF KphMsgInit_wf [OF assms(1,2)] assms(3)] by (simp add: KphMsgInit_abs)

theorem KphMsgDyn_operations_refine_witness:
  "\<exists>m'. run_ops (KphMsgInit 7 blank_message 1)
       [AddUnicode 1 \<lparr>cb_Length = 2, cb_Buffer = [65, 0]\<rparr>, AddBuffer 1 \<lparr>cb_Length = 1, cb_Buffer = [9]\<rparr>,
        AddTrace 5 \<lparr>st_Count = 1, st_Frames = [0x1122]\<rparr>] = Some m' \<and> msg_wf m' \<and>
     dyn_abs m' = foldl spec_op (Map.empty, 0, 0)
       [AddUnicode 1 \<lparr>cb_Length = 2, cb_Buffer = [65, 0]\<rparr>, AddBuffer 1 \<lparr>cb_Length = 1, cb_Buffer = [9]\<rparr>,
        AddTrace 5 \<lparr>st_Count = 1, st_Frames = [0x1122]\<rparr>]"
  by (rule KphMsgDyn_operations_refine)
    (simp_all add: blank_message_def valid_message_id_def word_sless_alt counted_ok_def trace_ok_def)

text \<open>
  C26. Reading back what was added: after \<open>KphMsgDynAddUnicodeString\<close> succeeds with a non-empty
  string, \<open>KphMsgDynGetUnicodeString\<close> returns its length and a pointer into the used part of the
  buffer at which exactly the string's bytes stand.
\<close>

theorem KphMsgDyn_unicode_roundtrip:
  assumes "msg_wf m" and "counted_ok s" and "cb_Length s \<noteq> 0"
    and "KphMsgDynAddUnicodeString m f s = Some (STATUS_SUCCESS, m')"
  shows "\<exists>off. KphMsgDynGetUnicodeString m' f = (STATUS_SUCCESS, \<lparr>ref_Length = cb_Length s,
      ref_MaximumLength = cb_Length s, ref_Buffer = Some off\<rparr>) \<and>
    356 \<le> unat off \<and> unat off + unat (cb_Length s) \<le> unat (Size m') \<and>
    mem_read (Buffer m') (unat off - 356) (unat (cb_Length s)) = Some (counted_payload s)"
proof -
  have "dyn_map m' f = Some (KphMsgTypeUnicodeString, counted_payload s)"
    using unicode_field.add_success [OF assms(1,2,4)] by simp
  moreover have "counted_payload s \<noteq> []"
    using counted_payload_length [OF assms(2)] assms(3) by (auto simp: unat_eq_0)
  ultimately show ?thesis
    using get_ref_found [OF unicode_field.add_wf [OF assms(1,2,4)], of f KphMsgTypeUnicodeString "counted_payload s"]
      counted_payload_length [OF assms(2)]
    by (simp add: KphMsgDynGetUnicodeString_def)
qed

theorem KphMsgDyn_unicode_roundtrip_witness:
  "\<exists>m' off. KphMsgDynAddUnicodeString first_message 1 \<lparr>cb_Length = 2, cb_Buffer = [65, 0]\<rparr> = Some (STATUS_SUCCESS, m') \<and>
     KphMsgDynGetUnicodeString m' 1 = (STATUS_SUCCESS, \<lparr>ref_Length = 2, ref_MaximumLength = 2, ref_Buffer = Some off\<rparr>) \<and>
     mem_read (Buffer m') (unat off - 356) 2 = Some [65, 0]"
proof -
  let ?s = "\<lparr>cb_Length = 2, cb_Buffer = [65, 0]\<rparr>"
  have ok: "counted_ok ?s" by (simp add: counted_ok_def)
  have p: "counted_payload ?s = [65, 0]" by (simp add: counted_payload_def take_Cons')
  have "claim_ok first_message 1 KphMsgTypeUnicodeString (length (counted_payload ?s))"
    by (simp add: p first_message_claim unicode_field.tid_valid)
  then obtain m' where m': "KphMsgDynAddUnicodeString first_message 1 ?s = Some (STATUS_SUCCESS, m')"
    using unicode_field.add_cases [OF first_message_wf ok] by blast
  show ?thesis
    using m' KphMsgDyn_unicode_roundtrip [OF first_message_wf ok _ m'] p by auto
qed

text \<open>
  Which status a claim of table space returns, on a message whose count is inside the table: the
  parameter checks come first, then the validation of the header, then the table and the
  duplicate check, then the checked addition and the end of the message. A claim that fails
  changes nothing; one that succeeds appends an entry at the old \<open>Size\<close> and grows \<open>Size\<close> by its
  length.
\<close>

theorem KphpMsgDynClaimEntry_status:
  "KphpMsgDynClaimEntry m f t n =
     (if \<not> valid_field f then (STATUS_INVALID_PARAMETER_2, m, None)
      else if \<not> valid_type t then (STATUS_INVALID_PARAMETER_3, m, None)
      else if KphMsgValidate m \<noteq> STATUS_SUCCESS then (KphMsgValidate m, m, None)
      else if 8 \<le> unat (DynCount m) then (STATUS_INSUFFICIENT_RESOURCES, m, None)
      else if KphpMsgDynFindEntry m f \<noteq> None then (STATUS_ALREADY_COMMITTED, m, None)
      else if 65536 \<le> unat (Size m) + unat n then (STATUS_INTEGER_OVERFLOW, m, None)
      else if 4096 < unat (Size m) + unat n then (STATUS_INSUFFICIENT_RESOURCES, m, None)
      else (STATUS_SUCCESS, claimed_message m f t n,
        Some \<lparr>FieldId = f, TypeId = t, Offset = Size m, Length = n\<rparr>))"
proof (cases "65536 \<le> unat (Size m) + unat n")
  case True
  then show ?thesis
    by (simp add: KphpMsgDynClaimEntry_def not_valid_field not_valid_type RtlUShortAdd_overflow
        NT_SUCCESS_def Let_def)
next
  case False
  then have "sizeof_KPH_MESSAGE < Size m + n \<longleftrightarrow> 4096 < unat (Size m) + unat n"
    by (simp add: word_less_nat_alt unat_plus_no_overflow)
  with False show ?thesis
    by (simp add: KphpMsgDynClaimEntry_def not_valid_field not_valid_type RtlUShortAdd_success
        NT_SUCCESS_def Let_def claimed_message_def)
qed

text \<open>
  A stack trace of fewer than 8192 frames reads back: \<open>KphMsgDynGetStackTrace\<close> returns its frame
  count and a pointer at which the frames stand, each as eight bytes, low byte first.
\<close>

theorem KphMsgDyn_stack_trace_roundtrip:
  assumes "msg_wf m" and "trace_ok st" and "st_Count st \<noteq> 0"
    and "KphMsgDynAddStackTrace m f st = Some (STATUS_SUCCESS, m')"
  shows "\<exists>off. KphMsgDynGetStackTrace m' f = (STATUS_SUCCESS, st_Count st, Some off) \<and> 356 \<le> unat off \<and>
    mem_read (Buffer m') (unat off - 356) (8 * unat (st_Count st)) =
      Some (concat (map frame_bytes (take (unat (st_Count st)) (st_Frames st))))"
proof -
  have map: "dyn_map m' f = Some (KphMsgTypeStackTrace, trace_payload st)"
    using trace_field.add_success [OF assms(1,2,4)] by simp
  have "0 < unat (st_Count st)"
    using assms(3) by (simp add: unat_gt_0)
  then have len: "length (trace_payload st) = unat (st_Count st) * 8" "trace_payload st \<noteq> []"
    using trace_payload_length [OF assms(2)] by auto
  obtain e where e: "KphpMsgDynLookupEntry m' f KphMsgTypeStackTrace = (STATUS_SUCCESS, Some e)"
      "entry_bytes m' e = Some (trace_payload st)" "356 \<le> unat (Offset e)"
      "unat (Length e) = length (trace_payload st)"
    using LookupEntry_found [OF trace_field.add_wf [OF assms(1,2,4)] map len(2)] by blast
  have "unat (Length e div 8) = unat (st_Count st)"
    using e(4) len(1) by (simp add: unat_div)
  then have "Length e div 8 = st_Count st"
    by (simp only: word_unat_eq_iff)
  with e len(1) show ?thesis
    by (auto simp: KphMsgDynGetStackTrace_def entry_bytes_def trace_payload_def mult.commute split: if_splits)
qed

theorem KphMsgDyn_stack_trace_roundtrip_witness:
  "\<exists>m' off. KphMsgDynAddStackTrace first_message 1 \<lparr>st_Count = 1, st_Frames = [0x1122]\<rparr> = Some (STATUS_SUCCESS, m') \<and>
     KphMsgDynGetStackTrace m' 1 = (STATUS_SUCCESS, 1, Some off) \<and>
     mem_read (Buffer m') (unat off - 356) 8 = Some [0x22, 0x11, 0, 0, 0, 0, 0, 0]"
proof -
  let ?st = "\<lparr>st_Count = 1, st_Frames = [0x1122]\<rparr>"
  have ok: "trace_ok ?st" by (simp add: trace_ok_def)
  have "length (trace_payload ?st) = 8" using trace_payload_length [OF ok] by simp
  then have "claim_ok first_message 1 KphMsgTypeStackTrace (length (trace_payload ?st))"
    by (simp add: first_message_claim trace_field.tid_valid)
  then obtain m' where m': "KphMsgDynAddStackTrace first_message 1 ?st = Some (STATUS_SUCCESS, m')"
    using trace_field.add_cases [OF first_message_wf ok] by blast
  have bytes: "frame_bytes 0x1122 = [0x22, 0x11, 0, 0, 0, 0, 0, 0]"
    by (simp add: frame_bytes_def upt_conv_Cons)
  show ?thesis
    using m' KphMsgDyn_stack_trace_roundtrip [OF first_message_wf ok _ m'] bytes by auto
qed

text \<open>
  C30. The length that \<open>KphMsgDynAddStackTrace\<close> claims is the byte count of the frames modulo 65536,
  the length it copies is not reduced. For 8192 frames or more that are readable: when the reduced claim is granted, the
  copy runs past the end of the message; when it is refused, the status is an error and nothing changes.
\<close>

theorem KphMsgDynAddStackTrace_overrun:
  assumes "msg_wf m" and "8192 \<le> unat (st_Count st)" and "unat (st_Count st) \<le> length (st_Frames st)"
  shows "if claim_ok m f KphMsgTypeStackTrace (unat (st_Count st) * 8 mod 65536)
    then KphMsgDynAddStackTrace m f st = None
    else \<exists>status. status \<noteq> STATUS_SUCCESS \<and> KphMsgDynAddStackTrace m f st = Some (status, m)"
proof -
  let ?n = "of_nat (unat (st_Count st) * 8) :: ushort"
  let ?d = "concat (map frame_bytes (take (unat (st_Count st)) (st_Frames st)))"
  have n: "unat ?n = unat (st_Count st) * 8 mod 65536"
    by (simp only: unat_of_nat) simp
  show ?thesis
  proof (cases "claim_ok m f KphMsgTypeStackTrace (unat (st_Count st) * 8 mod 65536)")
    case True
    then have claim: "KphpMsgDynClaimEntry m f KphMsgTypeStackTrace ?n = (STATUS_SUCCESS,
        claimed_message m f KphMsgTypeStackTrace ?n,
        Some \<lparr>FieldId = f, TypeId = KphMsgTypeStackTrace, Offset = Size m, Length = ?n\<rparr>)"
      using ClaimEntry_success [OF assms(1), of f KphMsgTypeStackTrace ?n] n by simp
    have "3740 < length ?d"
      using assms(2,3) by (simp add: length_frames)
    then have "copy_to_message (claimed_message m f KphMsgTypeStackTrace ?n) (Size m) ?d = None"
      using msg_wf_Buffer [OF assms(1)]
      by (simp add: copy_to_message_def mem_write_def claimed_message_def) arith
    with claim assms(3) True show ?thesis
      by (simp add: KphMsgDynAddStackTrace_def mem_read_def)
  next
    case False
    then obtain status where "status \<noteq> STATUS_SUCCESS"
        "KphpMsgDynClaimEntry m f KphMsgTypeStackTrace ?n = (status, m, None)"
      using ClaimEntry_failure [OF assms(1), of f KphMsgTypeStackTrace ?n] n by auto
    with False show ?thesis by (simp add: KphMsgDynAddStackTrace_def)
  qed
qed

text \<open>8192 frames claim no byte and are copied; 10000 frames claim 14464 bytes, which do not fit.\<close>

theorem KphMsgDynAddStackTrace_overrun_witness:
  "KphMsgDynAddStackTrace first_message 1 \<lparr>st_Count = 8192, st_Frames = replicate 8192 0\<rparr> = None \<and>
   (\<exists>status. status \<noteq> STATUS_SUCCESS \<and>
      KphMsgDynAddStackTrace first_message 1 \<lparr>st_Count = 10000, st_Frames = replicate 10000 0\<rparr> = Some (status, first_message))"
proof
  have "claim_ok first_message 1 KphMsgTypeStackTrace 0"
    by (simp add: first_message_claim trace_field.tid_valid)
  then show "KphMsgDynAddStackTrace first_message 1 \<lparr>st_Count = 8192, st_Frames = replicate 8192 0\<rparr> = None"
    using KphMsgDynAddStackTrace_overrun [OF first_message_wf, of "\<lparr>st_Count = 8192, st_Frames = replicate 8192 0\<rparr>" 1]
    by simp
  have "\<not> claim_ok first_message 1 KphMsgTypeStackTrace 14464"
    using first_message_abs by (auto simp: claim_ok_def dyn_abs_def)
  then show "\<exists>status. status \<noteq> STATUS_SUCCESS \<and>
      KphMsgDynAddStackTrace first_message 1 \<lparr>st_Count = 10000, st_Frames = replicate 10000 0\<rparr> = Some (status, first_message)"
    using KphMsgDynAddStackTrace_overrun [OF first_message_wf, of "\<lparr>st_Count = 10000, st_Frames = replicate 10000 0\<rparr>" 1]
    by simp
qed

text \<open>
  C31. \<open>KphMsgDynClearLast\<close> does not clear the last entry: on a table with entries it does nothing,
  and on an empty one its index wraps around to 255, outside the table of 8.
\<close>

theorem KphMsgDynClearLast_never_clears:
  assumes "length (Entries m) = 8"
  shows "KphMsgDynClearLast m = (if DynCount m = 0 then None else Some m)"
  using assms by (simp add: KphMsgDynClearLast_def Let_def unsigned_minus_1_eq_mask mask_eq_exp_minus_1)

theorem KphMsgDynClearLast_never_clears_witness:
  "KphMsgDynClearLast first_message = None"
  using KphMsgDynClearLast_never_clears [of first_message]
  by (simp add: first_message_def KphMsgInit_def)

text \<open>
  An empty field at the end of the table is in the message but cannot be read: its offset equals
  \<open>Size\<close>, and the lookup reports \<open>STATUS_HEAP_CORRUPTION\<close>.
\<close>

theorem KphMsgDyn_empty_last_field:
  assumes "msg_wf m" and "cb_Length s = 0"
    and "KphMsgDynAddSizedBuffer m f s = Some (STATUS_SUCCESS, m')"
  shows "dyn_map m' f = Some (KphMsgTypeSizedBuffer, []) \<and>
    KphMsgDynGetSizedBuffer m' f = (STATUS_HEAP_CORRUPTION, 0, None)"
proof -
  have ok: "counted_ok s" and p: "counted_payload s = []"
    using assms(2) by (simp_all add: counted_ok_def counted_payload_def)
  have wf': "msg_wf m'" and map: "dyn_map m' f = Some (KphMsgTypeSizedBuffer, [])"
      and claim: "claim_ok m f KphMsgTypeSizedBuffer 0" and size: "unat (Size m') = unat (Size m)"
    using buffer_field.add_success [OF assms(1) ok assms(3)] buffer_field.add_wf [OF assms(1) ok assms(3)] p
    by simp_all
  let ?e = "\<lparr>FieldId = f, TypeId = KphMsgTypeSizedBuffer, Offset = Size m, Length = 0\<rparr>"
  have "KphpMsgDynClaimEntry m f KphMsgTypeSizedBuffer 0 =
      (STATUS_SUCCESS, claimed_message m f KphMsgTypeSizedBuffer 0, Some ?e)"
    using ClaimEntry_success [OF assms(1), of f KphMsgTypeSizedBuffer 0] claim by simp
  then have "live m' = live (claimed_message m f KphMsgTypeSizedBuffer 0)"
    using assms(3) buffer_field.add_eq [OF ok, of m f] p
    by (auto simp: add_payload_def copy_to_message_def split: if_splits)
  moreover have "unat (DynCount m) < 8" and "List.find (\<lambda>e. FieldId e = f) (live m) = None"
    using claim msg_wf_dyn_map_None [OF assms(1)] by (simp_all add: claim_ok_def)
  ultimately have "List.find (\<lambda>e. FieldId e = f) (live m') = Some ?e"
    using claimed_message_live [OF assms(1)] by (simp add: find_append_single)
  then obtain i where "KphpMsgDynFindEntry m' f = Some i" "Entries m' ! i = ?e"
    using FindEntry_eq [of m' f] wf' by (auto simp: msg_wf_def)
  then show ?thesis
    using wf' size map by (simp add: KphMsgDynGetSizedBuffer_def KphpMsgDynLookupEntry_def msg_wf_def
        word_le_nat_alt)
qed

theorem KphMsgDyn_empty_last_field_witness:
  "\<exists>m'. KphMsgDynAddSizedBuffer first_message 1 \<lparr>cb_Length = 0, cb_Buffer = []\<rparr> = Some (STATUS_SUCCESS, m') \<and>
     KphMsgDynGetSizedBuffer m' 1 = (STATUS_HEAP_CORRUPTION, 0, None)"
proof -
  let ?s = "\<lparr>cb_Length = 0, cb_Buffer = []\<rparr>"
  have ok: "counted_ok ?s" by (simp add: counted_ok_def)
  have "claim_ok first_message 1 KphMsgTypeSizedBuffer (length (counted_payload ?s))"
    by (simp add: counted_payload_def first_message_claim buffer_field.tid_valid)
  then obtain m' where m': "KphMsgDynAddSizedBuffer first_message 1 ?s = Some (STATUS_SUCCESS, m')"
    using buffer_field.add_cases [OF first_message_wf ok] by blast
  show ?thesis
    using m' KphMsgDyn_empty_last_field [OF first_message_wf _ m'] by auto
qed

end
