(* ===== verification/PhNumeric.thy ===== *)
theory PhNumeric
  imports PhPrelude
begin

text \<open>
  The numeric helpers of \<open>phlib/basesup.c\<close> (rounding to a power of two, exponentiation, hexadecimal
  strings, parsing of integers) and the digit tables of \<open>phlib/data.c\<close>. Strings are lists of 16 bit
  characters; \<open>String->Length / sizeof (WCHAR)\<close> is the length of the list.
\<close>


section \<open>Powers of two and exponentiation\<close>

definition PhRoundUpToPowerOfTwo :: "ulong \<Rightarrow> ulong" where
  "PhRoundUpToPowerOfTwo number =
     (let number = number - 1;
          number = number OR drop_bit 1 number;
          number = number OR drop_bit 2 number;
          number = number OR drop_bit 4 number;
          number = number OR drop_bit 8 number;
          number = number OR drop_bit 16 number
      in number + 1)"

lemma unat_drop_bit_1: "unat (drop_bit (Suc 0) (e :: 'a::len word)) = unat e div 2"
  unfolding unat_drop_bit_eq by (simp add: drop_bit_Suc)

lemma drop_bit_1_less: "e \<noteq> 0 \<Longrightarrow> unat (drop_bit (Suc 0) (e :: ulong)) < unat e"
  unfolding unat_drop_bit_1 by (simp add: unat_gt_0)

text \<open>The loop of \<open>PhExponentiate\<close> and \<open>PhExponentiate64\<close>, for a base of any width.\<close>

function exponentiate_loop :: "'a::len word \<Rightarrow> 'a word \<Rightarrow> ulong \<Rightarrow> 'a word" where
  "exponentiate_loop result b e =
     (if e = 0 then result
      else exponentiate_loop (if e AND 1 \<noteq> 0 then result * b else result) (b * b) (drop_bit 1 e))"
  by pat_completeness auto

termination
  by (relation "measure (\<lambda>(result, b, e). unat e)") (auto simp: drop_bit_1_less)

declare exponentiate_loop.simps [simp del]

definition PhExponentiate :: "ulong \<Rightarrow> ulong \<Rightarrow> ulong" where
  "PhExponentiate b e = exponentiate_loop 1 b e"

definition PhExponentiate64 :: "ulong64 \<Rightarrow> ulong \<Rightarrow> ulong64" where
  "PhExponentiate64 b e = exponentiate_loop 1 b e"

section \<open>Digit tables\<close>

definition PhCharToInteger :: "ulong list" where
  "PhCharToInteger =
     replicate 16 (-1) @ replicate 16 (-1)
     @ [36, 37, 38, 39, 40, 41, 42, 43, 44, 45, 46, 47, 48, 49, 50, 51]
     @ [0, 1, 2, 3, 4, 5, 6, 7, 8, 9]
     @ [52, 53, 54, 55, 56, 57, 58]
     @ [10, 11, 12, 13, 14, 15, 16, 17, 18, 19, 20, 21, 22, 23, 24, 25, 26, 27, 28, 29, 30, 31, 32, 33, 34, 35]
     @ [59, 60, 61, 62, 63, 64]
     @ [10, 11, 12, 13, 14, 15, 16, 17, 18, 19, 20, 21, 22, 23, 24, 25, 26, 27, 28, 29, 30, 31, 32, 33, 34, 35]
     @ [65, 66, 67, 68, -1]
     @ replicate 128 (-1)"

text \<open>The characters of the two string literals, by their codes.\<close>

definition PhIntegerToChar :: "uchar list" where
  "PhIntegerToChar =
     [48, 49, 50, 51, 52, 53, 54, 55, 56, 57]
     @ [97, 98, 99, 100, 101, 102, 103, 104, 105, 106, 107, 108, 109,
        110, 111, 112, 113, 114, 115, 116, 117, 118, 119, 120, 121, 122]
     @ [32, 33, 34, 35, 36, 37, 38, 39, 40, 41, 42, 43, 44, 45, 46, 47]
     @ [58, 59, 60, 61, 62, 63, 64] @ [91, 92, 93, 94, 95, 96] @ [123, 124, 125, 126]"

definition PhIntegerToCharUpper :: "uchar list" where
  "PhIntegerToCharUpper =
     [48, 49, 50, 51, 52, 53, 54, 55, 56, 57]
     @ [65, 66, 67, 68, 69, 70, 71, 72, 73, 74, 75, 76, 77,
        78, 79, 80, 81, 82, 83, 84, 85, 86, 87, 88, 89, 90]
     @ [32, 33, 34, 35, 36, 37, 38, 39, 40, 41, 42, 43, 44, 45, 46, 47]
     @ [58, 59, 60, 61, 62, 63, 64] @ [91, 92, 93, 94, 95, 96] @ [123, 124, 125, 126]"

text \<open>\<open>PhCharToInteger[(UCHAR)c]\<close>: the table is indexed with the low byte of the character.\<close>

definition char_value :: "wchar \<Rightarrow> ulong" where
  "char_value c = PhCharToInteger ! unat (ucast c :: uchar)"

section \<open>Hexadecimal strings\<close>

definition hex_byte :: "wchar list \<Rightarrow> nat \<Rightarrow> uchar" where
  "hex_byte s i = ucast (push_bit 4 (char_value (s ! (i * 2)))) + ucast (char_value (s ! (i * 2 + 1)))"

definition PhHexStringToBuffer :: "wchar list \<Rightarrow> uchar list option" where
  "PhHexStringToBuffer s =
     (if odd (length s) then None else Some (map (hex_byte s) [0..<length s div 2]))"

definition PhHexStringToBufferEx :: "wchar list \<Rightarrow> ulong \<Rightarrow> uchar list option" where
  "PhHexStringToBufferEx s bufferLength =
     (if odd (length s) then None
      else if length s div 2 > unat bufferLength then None
      else Some (map (hex_byte s) [0..<length s div 2]))"

definition hex_digits :: "uchar list \<Rightarrow> uchar \<Rightarrow> wchar list" where
  "hex_digits table b = [ucast (table ! unat (drop_bit 4 b)), ucast (table ! unat (b AND 0xF))]"

definition PhBufferToHexStringEx :: "uchar list \<Rightarrow> bool \<Rightarrow> wchar list" where
  "PhBufferToHexStringEx buffer upperCase =
     (let table = (if upperCase then PhIntegerToCharUpper else PhIntegerToChar)
      in concat (map (hex_digits table) buffer))"

definition PhBufferToHexString :: "uchar list \<Rightarrow> wchar list" where
  "PhBufferToHexString buffer = PhBufferToHexStringEx buffer False"

text \<open>
  The variant that writes into the caller's buffer of \<open>length out\<close> characters: \<open>None\<close> is a write
  past its end, \<open>Some None\<close> is \<open>FALSE\<close>. The terminator is written after the last digit.
\<close>

definition PhBufferToHexStringBuffer ::
    "uchar list \<Rightarrow> bool \<Rightarrow> wchar list \<Rightarrow> (wchar list \<times> nat) option option" where
  "PhBufferToHexStringBuffer input upperCase out =
     (if length out * 2 < length input * 2 * 2 then Some None
      else map_option (\<lambda>m. Some (m, length input * 2 * 2))
        (mem_write out 0 (PhBufferToHexStringEx input upperCase @ [0])))"

section \<open>Parsing integers\<close>

fun string_to_integer_loop :: "wchar list \<Rightarrow> ulong \<Rightarrow> ulong64 \<Rightarrow> bool \<Rightarrow> bool \<times> ulong64" where
  "string_to_integer_loop [] b result valid = (valid, result)"
| "string_to_integer_loop (c # cs) b result valid =
     (let value = char_value c in
      if value < b then string_to_integer_loop cs b (result * ucast b + ucast value) valid
      else string_to_integer_loop cs b result False)"

definition PhpStringToInteger64 :: "wchar list \<Rightarrow> ulong \<Rightarrow> bool \<times> ulong64" where
  "PhpStringToInteger64 s b = string_to_integer_loop s b 0 True"

text \<open>The character after a leading \<open>0\<close> that selects a base, 10 for any other.\<close>

definition prefix_base :: "wchar \<Rightarrow> ulong" where
  "prefix_base c =
     (if c = 0x78 \<or> c = 0x58 then 16
      else if c = 0x6F \<or> c = 0x4F then 8
      else if c = 0x62 \<or> c = 0x42 then 2
      else if c = 0x74 \<or> c = 0x54 then 3
      else if c = 0x71 \<or> c = 0x51 then 4
      else if c = 0x77 \<or> c = 0x57 then 12
      else if c = 0x72 \<or> c = 0x52 then 32
      else 10)"

text \<open>\<open>None\<close> is the early return on a base above 69, which leaves the result unwritten.\<close>

definition PhStringToInteger64 :: "wchar list \<Rightarrow> ulong \<Rightarrow> (bool \<times> ulong64) option" where
  "PhStringToInteger64 s b =
     (if b > 69 then None
      else
        let (negative, s) =
              (case s of
                 [] \<Rightarrow> (False, s)
               | c # cs \<Rightarrow> if c = 0x2D then (True, cs) else if c = 0x2B then (False, cs) else (False, s));
            (base, s) =
              (if b \<noteq> 0 then (b, s)
               else (case s of
                   c # d # cs \<Rightarrow>
                     if c = 0x30 then
                       (let base = prefix_base d in if base \<noteq> 10 then (base, cs) else (10, s))
                     else (10, s)
                 | _ \<Rightarrow> (10, s)));
            (valid, result) = PhpStringToInteger64 s base
        in Some (valid, if negative then - result else result))"

section \<open>Correctness of the powers\<close>

lemma smear_step:
  assumes "\<And>i. bit u i \<longleftrightarrow> (\<exists>k<n. bit w (i + k))"
  shows "bit (u OR drop_bit n u) i \<longleftrightarrow> (\<exists>k<n + n. bit (w :: 'a::len word) (i + k))"
proof -
  have "(\<exists>k<n + n. bit w (i + k)) \<longleftrightarrow> (\<exists>k<n. bit w (i + k)) \<or> (\<exists>k<n. bit w (n + i + k))"
    by (auto simp: ac_simps) (metis add.assoc add.commute add_less_cancel_left le_add_diff_inverse not_less)+
  then show ?thesis
    by (simp add: bit_or_iff bit_drop_bit_eq assms)
qed

definition smear :: "ulong \<Rightarrow> ulong" where
  "smear w = (let w = w OR drop_bit 1 w; w = w OR drop_bit 2 w; w = w OR drop_bit 4 w;
     w = w OR drop_bit 8 w in w OR drop_bit 16 w)"

lemma bit_smear: "bit (smear w) i \<longleftrightarrow> (\<exists>k<32. bit w (i + k))"
proof -
  have 0: "bit w i \<longleftrightarrow> (\<exists>k<1. bit w (i + k))" for i by simp
  note s1 = smear_step [OF 0, simplified one_add_one]
  note s2 = smear_step [OF s1] note s4 = smear_step [OF s2, simplified]
  note s8 = smear_step [OF s4, simplified] note s16 = smear_step [OF s8, simplified]
  show ?thesis
    using s16 by (simp add: smear_def Let_def)
qed

lemma bit_word_nat: "bit (w :: 'a::len word) i \<longleftrightarrow> odd (unat w div 2 ^ i)"
  by (simp flip: bit_iff_odd add: bit_unsigned_iff)

lemma smear_eq_mask:
  assumes "2 ^ h \<le> unat w" and "unat w < 2 ^ Suc h"
  shows "smear w = mask (Suc h)"
proof (rule bit_word_eqI)
  fix i assume i: "i < LENGTH(32)"
  have "unat w div 2 ^ h = 1"
    using assms by (intro div_nat_eqI) simp_all
  then have top: "bit w h" by (simp add: bit_word_nat)
  then have h: "h < 32" using bit_imp_le_length [of w h] by simp
  have above: "\<not> bit w j" if "h < j" for j
  proof -
    have "(2::nat) ^ Suc h \<le> 2 ^ j" using that by (intro power_increasing) auto
    with assms(2) have "unat w div 2 ^ j = 0" by simp
    then show ?thesis by (simp add: bit_word_nat)
  qed
  have "(\<exists>k<32. bit w (i + k)) \<longleftrightarrow> i \<le> h"
  proof
    assume "i \<le> h"
    with top h show "\<exists>k<32. bit w (i + k)" by (intro exI [of _ "h - i"]) simp
  next
    assume "\<exists>k<32. bit w (i + k)"
    then obtain k where "bit w (i + k)" by blast
    with above [of "i + k"] show "i \<le> h" by linarith
  qed
  with i show "bit (smear w) i \<longleftrightarrow> bit (mask (Suc h) :: ulong) i"
    by (auto simp: bit_smear bit_mask_iff)
qed

lemma PhRoundUpToPowerOfTwo_smear: "PhRoundUpToPowerOfTwo n = smear (n - 1) + 1"
  by (simp add: PhRoundUpToPowerOfTwo_def smear_def Let_def)

lemma PhRoundUpToPowerOfTwo_power:
  assumes "2 ^ h < unat n" and "unat n \<le> 2 ^ Suc h"
  shows "PhRoundUpToPowerOfTwo n = 2 ^ Suc h"
proof -
  have "unat (n - 1) = unat n - 1"
    using assms(1) by (metis less_nat_zero_code unat_0 unat_minus_one)
  then have "smear (n - 1) = mask (Suc h)"
    using assms by (intro smear_eq_mask) simp_all
  then show ?thesis
    by (simp add: PhRoundUpToPowerOfTwo_smear mask_eq_exp_minus_1)
qed

lemma ex_power_interval: "1 < (n::nat) \<Longrightarrow> \<exists>h. 2 ^ h < n \<and> n \<le> 2 ^ Suc h"
  using ex_power_ivl2 [of 2 n] by auto

lemma PhRoundUpToPowerOfTwo_cases:
  assumes "0 < unat n" and "unat n \<le> 2 ^ 31"
  shows "\<exists>k\<le>31. PhRoundUpToPowerOfTwo n = 2 ^ k \<and> unat n \<le> 2 ^ k \<and> 2 ^ k < 2 * unat n"
proof (cases "unat n = 1")
  case True
  then have "n = 1" by (metis unat_1 word_unat_eq_iff)
  then show ?thesis
    by (intro exI [of _ 0]) (simp add: PhRoundUpToPowerOfTwo_def)
next
  case False
  with assms(1) obtain h where h: "2 ^ h < unat n" "unat n \<le> 2 ^ Suc h"
    using ex_power_interval [of "unat n"] by auto
  have "(2::nat) ^ h < 2 ^ 31" using h(1) assms(2) by linarith
  then have "h < 31" by (rule power_less_imp_less_exp [rotated]) simp
  with h show ?thesis
    by (intro exI [of _ "Suc h"]) (simp add: PhRoundUpToPowerOfTwo_power del: power_Suc, simp)
qed

lemma exponentiate_loop_eq: "exponentiate_loop r b e = r * b ^ unat e"
proof (induction r b e rule: exponentiate_loop.induct)
  case (1 r b e)
  show ?case
  proof (cases "e = 0")
    case True
    then show ?thesis by (simp add: exponentiate_loop.simps)
  next
    case False
    have odd: "e AND 1 \<noteq> 0 \<longleftrightarrow> odd (unat e)"
      by (simp add: and_one_eq flip: even_iff_mod_2_eq_zero) (metis even_of_nat unsigned_of_nat of_nat_unat ucast_id)
    have half: "unat (drop_bit (Suc 0) e) = unat e div 2" by (rule unat_drop_bit_1)
    have sq: "(b * b) ^ (unat e div 2) = b ^ (2 * (unat e div 2))"
      by (simp add: power_mult power2_eq_square)
    have "(if odd (unat e) then b else 1) * b ^ (2 * (unat e div 2)) = b ^ unat e"
      by (cases "odd (unat e)") (auto simp flip: power_Suc elim!: oddE)
    with 1 False odd half sq show ?thesis
      by (simp add: exponentiate_loop.simps [of r b e] mult.assoc split: if_splits)
  qed
qed

section \<open>Digits\<close>

lemma digit_value_all:
  "list_all (\<lambda>d. char_value (ucast (PhIntegerToChar ! d)) = of_nat d \<and>
     char_value (ucast (PhIntegerToCharUpper ! d)) = of_nat d) [0..<69]"
  by code_simp

lemma digit_value:
  assumes "d < 69"
  shows "char_value (ucast (PhIntegerToChar ! d)) = of_nat d"
    and "char_value (ucast (PhIntegerToCharUpper ! d)) = of_nat d"
  using digit_value_all assms by (simp_all add: list_all_iff)

lemma unat_nibbles: "unat (drop_bit 4 (b :: uchar)) = unat b div 16" "unat (b AND 0xF) = unat b mod 16"
proof -
  show "unat (drop_bit 4 b) = unat b div 16"
    unfolding unat_drop_bit_eq by (simp add: drop_bit_eq_div)
  have "b AND mask 4 = take_bit 4 b" by (rule take_bit_eq_mask [symmetric])
  moreover have "(mask 4 :: uchar) = 0xF" by (simp add: mask_eq_exp_minus_1)
  ultimately have "b AND 0xF = take_bit 4 b" by simp
  then show "unat (b AND 0xF) = unat b mod 16"
    by (simp add: take_bit_eq_mod unat_mod)
qed

lemma nibbles_all:
  "list_all (\<lambda>n. (ucast (push_bit 4 (of_nat (n div 16) :: ulong)) + ucast (of_nat (n mod 16) :: ulong) :: uchar)
     = of_nat n) [0..<256]"
  by code_simp

lemma nibbles_join:
  "(ucast (push_bit 4 (of_nat (unat b div 16) :: ulong)) + ucast (of_nat (unat b mod 16) :: ulong) :: uchar) = b"
  using nibbles_all unat_uchar_less [of b] by (simp add: list_all_iff del: of_nat_div)

definition hex_table :: "bool \<Rightarrow> uchar list" where
  "hex_table upper = (if upper then PhIntegerToCharUpper else PhIntegerToChar)"

lemma hex_digits_nth:
  "i < length bs \<Longrightarrow> concat (map (hex_digits t) bs) ! (i * 2) = ucast (t ! unat (drop_bit 4 (bs ! i)))"
  "i < length bs \<Longrightarrow> concat (map (hex_digits t) bs) ! Suc (i * 2) = ucast (t ! unat ((bs ! i) AND 0xF))"
proof (induction bs arbitrary: i)
  case (Cons b bs)
  { case 1 then show ?case using Cons.IH(1) [of "i - 1"]
      by (cases i) (simp_all add: hex_digits_def) }
  { case 2 then show ?case using Cons.IH(2) [of "i - 1"]
      by (cases i) (simp_all add: hex_digits_def) }
qed simp_all

lemma hex_digits_length: "length (concat (map (hex_digits t) bs)) = length bs * 2"
  by (induction bs) (simp_all add: hex_digits_def)

lemma hex_byte_digits:
  assumes "i < length bs"
  shows "hex_byte (concat (map (hex_digits (hex_table u)) bs)) i = bs ! i"
proof -
  have "char_value (ucast (hex_table u ! d)) = of_nat d" if "d < 16" for d
    using digit_value [of d] that by (simp add: hex_table_def)
  moreover have "unat (bs ! i) div 16 < 16" "unat (bs ! i) mod 16 < 16"
    using unat_uchar_less [of "bs ! i"] by auto
  ultimately show ?thesis
    using nibbles_join [of "bs ! i"]
    by (simp add: hex_byte_def hex_digits_nth [OF assms] unat_nibbles del: of_nat_div)
qed

section \<open>The value of a string of digits\<close>

text \<open>The reference: unbounded Horner evaluation of the digits below the base, the others skipped.\<close>

definition digits_value :: "ulong \<Rightarrow> wchar list \<Rightarrow> nat" where
  "digits_value b s =
     foldl (\<lambda>a c. a * unat b + unat (char_value c)) 0 (filter (\<lambda>c. char_value c < b) s)"

lemma ucast_of_nat_unat: "(ucast (x :: ulong) :: ulong64) = of_nat (unat x)"
  by simp

lemma string_to_integer_loop_eq:
  "string_to_integer_loop s b (of_nat a) v =
     (v \<and> list_all (\<lambda>c. char_value c < b) s,
      of_nat (foldl (\<lambda>a c. a * unat b + unat (char_value c)) a (filter (\<lambda>c. char_value c < b) s)))"
proof (induction s arbitrary: a v)
  case (Cons c s)
  have "(of_nat a * ucast b + ucast (char_value c) :: ulong64) = of_nat (a * unat b + unat (char_value c))"
    unfolding ucast_of_nat_unat by (simp only: of_nat_add of_nat_mult)
  then show ?case
    using Cons [of "a * unat b + unat (char_value c)" v] Cons [of a False]
    by (simp add: Let_def del: of_nat_add of_nat_mult)
qed simp

lemma PhpStringToInteger64_eq:
  "PhpStringToInteger64 s b = (list_all (\<lambda>c. char_value c < b) s, of_nat (digits_value b s))"
  using string_to_integer_loop_eq [of s b 0 True] by (simp add: PhpStringToInteger64_def digits_value_def)

lemma digit_string_value:
  assumes "list_all (\<lambda>d. d < unat b) ds" and "unat b \<le> 69"
  shows "list_all (\<lambda>c. char_value c < b) (map (\<lambda>d. ucast (PhIntegerToChar ! d)) ds)"
    and "digits_value b (map (\<lambda>d. ucast (PhIntegerToChar ! d)) ds) = foldl (\<lambda>a d. a * unat b + d) 0 ds"
proof -
  have d: "char_value (ucast (PhIntegerToChar ! d)) < b \<and>
      unat (char_value (ucast (PhIntegerToChar ! d))) = d" if "d \<in> set ds" for d
    using assms that digit_value [of d] by (fastforce simp: list_all_iff word_less_nat_alt unat_of_nat)
  then show "list_all (\<lambda>c. char_value c < b) (map (\<lambda>d. ucast (PhIntegerToChar ! d)) ds)"
    by (simp add: list_all_iff)
  from d have "filter (\<lambda>c. char_value c < b) (map (\<lambda>d. ucast (PhIntegerToChar ! d)) ds) =
      map (\<lambda>d. ucast (PhIntegerToChar ! d)) ds"
    by (simp add: filter_True)
  moreover have "foldl (\<lambda>a c. a * unat b + unat (char_value c)) a (map (\<lambda>d. ucast (PhIntegerToChar ! d)) ds)
      = foldl (\<lambda>a d. a * unat b + d) a ds" for a
    using d by (induction ds arbitrary: a) auto
  ultimately show "digits_value b (map (\<lambda>d. ucast (PhIntegerToChar ! d)) ds) = foldl (\<lambda>a d. a * unat b + d) 0 ds"
    by (simp add: digits_value_def)
qed

section \<open>Properties\<close>

text \<open>
  \<open>PhRoundUpToPowerOfTwo\<close> returns the least power of two that is not below its argument, for every
  argument from 1 to \<open>2 ^ 31\<close> (above, the 32 bit result would not be representable).
\<close>

theorem PhRoundUpToPowerOfTwo_least:
  assumes "0 < unat n" and "unat n \<le> 2 ^ 31"
  shows "\<exists>k\<le>31. PhRoundUpToPowerOfTwo n = 2 ^ k \<and> unat n \<le> 2 ^ k \<and> (\<forall>j. unat n \<le> 2 ^ j \<longrightarrow> k \<le> j)"
proof -
  obtain k where k: "k \<le> 31" "PhRoundUpToPowerOfTwo n = 2 ^ k" "unat n \<le> 2 ^ k" "2 ^ k < 2 * unat n"
    using PhRoundUpToPowerOfTwo_cases [OF assms] by blast
  have "k \<le> j" if "unat n \<le> 2 ^ j" for j
  proof -
    have "(2::nat) ^ k < 2 ^ Suc j" using k(4) that by simp
    then have "k < Suc j" by (rule power_less_imp_less_exp [rotated]) simp
    then show ?thesis by simp
  qed
  with k show ?thesis by blast
qed

theorem PhRoundUpToPowerOfTwo_least_witness:
  "\<exists>k\<le>31. PhRoundUpToPowerOfTwo 100 = 2 ^ k \<and> unat (100 :: ulong) \<le> 2 ^ k \<and>
     (\<forall>j. unat (100 :: ulong) \<le> 2 ^ j \<longrightarrow> k \<le> j)"
  by (rule PhRoundUpToPowerOfTwo_least) simp_all

text \<open>
  Both exponentiation routines compute the power modulo the width of their result, for every base
  and every exponent: the loop of squarings always ends and equals repeated multiplication.
\<close>

theorem PhExponentiate_power:
  "PhExponentiate b e = b ^ unat e \<and> PhExponentiate64 c e = c ^ unat e"
  by (simp add: PhExponentiate_def PhExponentiate64_def exponentiate_loop_eq)

text \<open>
  Hexadecimal strings: decoding what \<open>PhBufferToHexStringEx\<close> printed, in either case, gives the
  bytes back.
\<close>

theorem PhHexString_roundtrip: "PhHexStringToBuffer (PhBufferToHexStringEx bs upper) = Some bs"
proof -
  have s: "PhBufferToHexStringEx bs upper = concat (map (hex_digits (hex_table upper)) bs)"
    by (simp add: PhBufferToHexStringEx_def hex_table_def Let_def)
  have "map (hex_byte (concat (map (hex_digits (hex_table upper)) bs))) [0..<length bs] = bs"
    by (rule nth_equalityI) (simp_all add: hex_byte_digits)
  then show ?thesis
    by (simp add: PhHexStringToBuffer_def s hex_digits_length)
qed

text \<open>
  \<open>PhBufferToHexStringBuffer\<close> accepts an output buffer that holds exactly the digits, and then
  writes its terminator one character past the end; with room for one character more it succeeds.
\<close>

theorem PhBufferToHexStringBuffer_terminator:
  "length out = 2 * length bs \<Longrightarrow> PhBufferToHexStringBuffer bs upper out = None"
  by (simp add: PhBufferToHexStringBuffer_def mem_write_def PhBufferToHexStringEx_def hex_digits_length)

theorem PhBufferToHexStringBuffer_terminator_witness:
  "PhBufferToHexStringBuffer [0xAB] True [0, 0] = None"
  by (rule PhBufferToHexStringBuffer_terminator) simp

text \<open>
  \<open>PhStringToInteger64\<close> with an explicit base: an optional sign is taken off, the call succeeds
  exactly when every remaining character is a digit below the base, and the result is the Horner
  value of the digits modulo \<open>2 ^ 64\<close>, negated in two's complement after a minus sign.
\<close>

theorem PhStringToInteger64_explicit_base:
  assumes "0 < b" and "b \<le> 69" and "s = [] \<or> hd s \<noteq> 0x2D \<and> hd s \<noteq> 0x2B"
  shows "PhStringToInteger64 s b = Some (list_all (\<lambda>c. char_value c < b) s, of_nat (digits_value b s)) \<and>
    PhStringToInteger64 (0x2B # s) b = Some (list_all (\<lambda>c. char_value c < b) s, of_nat (digits_value b s)) \<and>
    PhStringToInteger64 (0x2D # s) b = Some (list_all (\<lambda>c. char_value c < b) s, - of_nat (digits_value b s))"
  using assms
  by (cases s) (auto simp: PhStringToInteger64_def PhpStringToInteger64_eq Let_def not_less [symmetric])

theorem PhStringToInteger64_explicit_base_witness:
  "PhStringToInteger64 [0x31, 0x32] 10 = Some (True, 12) \<and>
   PhStringToInteger64 [0x2D, 0x31, 0x32] 10 = Some (True, -12)"
proof -
  have v: "char_value 0x31 = 1" "char_value 0x32 = 2" by code_simp+
  then have "digits_value 10 [0x31, 0x32] = 12" by (simp add: digits_value_def)
  with v show ?thesis
    using PhStringToInteger64_explicit_base [of 10 "[0x31, 0x32]"] by simp
qed

text \<open>
  With base 0, a string of hexadecimal digits after \<open>0x\<close> is read in base 16: for any list of
  digits, printed with the digit table of \<open>data.c\<close>, the result is their value modulo \<open>2 ^ 64\<close>.
\<close>

theorem PhStringToInteger64_hex_prefix:
  assumes "list_all (\<lambda>d. d < 16) ds"
  shows "PhStringToInteger64 (0x30 # 0x78 # map (\<lambda>d. ucast (PhIntegerToChar ! d)) ds) 0 =
    Some (True, of_nat (foldl (\<lambda>a d. a * 16 + d) 0 ds))"
  using digit_string_value [of 16 ds] assms
  by (simp add: PhStringToInteger64_def PhpStringToInteger64_eq prefix_base_def Let_def)

theorem PhStringToInteger64_hex_prefix_witness:
  "PhStringToInteger64 (0x30 # 0x78 # map (\<lambda>d. ucast (PhIntegerToChar ! d)) [15, 15]) 0 =
    Some (True, of_nat (foldl (\<lambda>a d. a * 16 + d) 0 [15, 15]))"
  by (rule PhStringToInteger64_hex_prefix) simp

end
