(* ===== verification/PhHashtable.thy ===== *)
theory PhHashtable
  imports PhNumeric
begin

text \<open>
  The hashtable of \<open>phlib/basesup.c\<close>: an array of buckets and an array of entries, whose \<open>Next\<close> fields
  thread one chain per bucket and one chain of free entries through the entry array. Entries hold a
  value of type \<open>'e\<close> where the code copies \<open>EntrySize\<close> bytes; pointers to entries are indices.
  Fresh memory has unknown contents, given by a function of the index. An index outside an array and
  a chain that never ends are \<open>None\<close>.

  The simple hashtable (pointer keys and values) is its instance for key-value pairs.
\<close>

section \<open>State\<close>

record 'e ht_entry =
  HashCode :: ulong
  Next :: ulong
  EntryBody :: 'e

record 'e hashtable =
  EqualFunction :: "'e \<Rightarrow> 'e \<Rightarrow> bool"
  HashFunction :: "'e \<Rightarrow> ulong"
  AllocatedBuckets :: ulong
  Buckets :: "ulong list"
  AllocatedEntries :: ulong
  HtEntries :: "'e ht_entry list"
  HtCount :: ulong
  FreeEntry :: ulong
  NextEntry :: ulong

text \<open>\<open>PH_HASHTABLE_POWER_OF_TWO_SIZE\<close> is defined and \<open>PH_HASHTABLE_FULL_HASH\<close> is not.\<close>

definition PhpValidateHash :: "ulong \<Rightarrow> ulong" where
  "PhpValidateHash hash = hash AND 0x7FFFFFFF"

definition PhpIndexFromHash :: "'e hashtable \<Rightarrow> ulong \<Rightarrow> ulong" where
  "PhpIndexFromHash H hash = hash AND (AllocatedBuckets H - 1)"

definition PhpGetNumberOfBuckets :: "ulong \<Rightarrow> ulong" where
  "PhpGetNumberOfBuckets capacity = PhRoundUpToPowerOfTwo capacity"

section \<open>Operations\<close>

definition PhCreateHashtable ::
    "('e \<Rightarrow> 'e \<Rightarrow> bool) \<Rightarrow> ('e \<Rightarrow> ulong) \<Rightarrow> ulong \<Rightarrow> (nat \<Rightarrow> 'e ht_entry) \<Rightarrow> 'e hashtable" where
  "PhCreateHashtable eq hash initialCapacity fresh =
     (let capacity = (if initialCapacity = 0 then 1 else initialCapacity);
          buckets = PhpGetNumberOfBuckets capacity
      in \<lparr>EqualFunction = eq, HashFunction = hash,
          AllocatedBuckets = buckets, Buckets = replicate (unat buckets) ULONG_MAX,
          AllocatedEntries = buckets, HtEntries = map fresh [0..<unat buckets],
          HtCount = 0, FreeEntry = ULONG_MAX, NextEntry = 0\<rparr>)"

text \<open>The loop that distributes the entries \<open>i, \<dots>, i + n - 1\<close> among the buckets.\<close>

fun resize_loop :: "'e hashtable \<Rightarrow> nat \<Rightarrow> nat \<Rightarrow> 'e hashtable" where
  "resize_loop H i 0 = H"
| "resize_loop H i (Suc n) =
     (let entry = HtEntries H ! i in
      if HashCode entry \<noteq> ULONG_MAX then
        let index = unat (PhpIndexFromHash H (HashCode entry)) in
        resize_loop
          (H\<lparr>HtEntries := (HtEntries H)[i := entry\<lparr>Next := Buckets H ! index\<rparr>],
             Buckets := (Buckets H)[index := of_nat i]\<rparr>)
          (Suc i) n
      else resize_loop H (Suc i) n)"

text \<open>\<open>PhReAllocate\<close> keeps the old entries and appends fresh memory.\<close>

definition PhpResizeHashtable :: "'e hashtable \<Rightarrow> ulong \<Rightarrow> (nat \<Rightarrow> 'e ht_entry) \<Rightarrow> 'e hashtable" where
  "PhpResizeHashtable H newCapacity fresh =
     (let buckets = PhpGetNumberOfBuckets newCapacity;
          entries = take (unat buckets) (HtEntries H) @ map fresh [length (HtEntries H)..<unat buckets]
      in resize_loop
          (H\<lparr>AllocatedBuckets := buckets, Buckets := replicate (unat buckets) ULONG_MAX,
             AllocatedEntries := buckets, HtEntries := entries\<rparr>)
          0 (unat (NextEntry H)))"

text \<open>The walk along a chain; the result is the index of the entry that matches.\<close>

partial_function (option) find_loop :: "'e hashtable \<Rightarrow> ulong \<Rightarrow> 'e \<Rightarrow> ulong \<Rightarrow> ulong option option" where
  "find_loop H hashCode e i =
     (if i = ULONG_MAX then Some None
      else if \<not> unat i < length (HtEntries H) then None
      else if HashCode (HtEntries H ! unat i) = hashCode \<and>
          EqualFunction H (EntryBody (HtEntries H ! unat i)) e
        then Some (Some i)
      else find_loop H hashCode e (Next (HtEntries H ! unat i)))"

text \<open>
  \<open>PhpAddEntryHashtable\<close> returns the entry and whether it was added. The entry that is initialised
  is the head of the free chain or the next unused one, after a resize when the array is full.
\<close>

definition add_new_entry :: "'e hashtable \<Rightarrow> ulong \<Rightarrow> ulong \<Rightarrow> ulong \<Rightarrow> 'e \<Rightarrow> 'e hashtable" where
  "add_new_entry H freeEntry hashCode index e =
     H\<lparr>HtEntries := (HtEntries H)[unat freeEntry :=
         \<lparr>HashCode = hashCode, Next = Buckets H ! unat index, EntryBody = e\<rparr>],
       Buckets := (Buckets H)[unat index := freeEntry],
       HtCount := HtCount H + 1\<rparr>"

definition PhpAddEntryHashtable ::
    "'e hashtable \<Rightarrow> 'e \<Rightarrow> bool \<Rightarrow> (nat \<Rightarrow> 'e ht_entry) \<Rightarrow> ('e hashtable \<times> ulong \<times> bool) option" where
  "PhpAddEntryHashtable H e checkForDuplicate fresh =
     (let hashCode = PhpValidateHash (HashFunction H e);
          index = PhpIndexFromHash H hashCode in
      if \<not> unat index < length (Buckets H) then None
      else case (if checkForDuplicate then find_loop H hashCode e (Buckets H ! unat index) else Some None) of
        None \<Rightarrow> None
      | Some (Some i) \<Rightarrow> Some (H, i, False)
      | Some None \<Rightarrow>
          if FreeEntry H \<noteq> ULONG_MAX then
            let freeEntry = FreeEntry H in
            if \<not> unat freeEntry < length (HtEntries H) then None
            else let H = H\<lparr>FreeEntry := Next (HtEntries H ! unat freeEntry)\<rparr>
                 in Some (add_new_entry H freeEntry hashCode index e, freeEntry, True)
          else
            let H = (if NextEntry H = AllocatedEntries H
                     then PhpResizeHashtable H (AllocatedBuckets H * 2) fresh else H);
                index = PhpIndexFromHash H hashCode;
                freeEntry = NextEntry H in
            if \<not> (unat freeEntry < length (HtEntries H) \<and> unat index < length (Buckets H)) then None
            else let H = H\<lparr>NextEntry := NextEntry H + 1\<rparr>
                 in Some (add_new_entry H freeEntry hashCode index e, freeEntry, True))"

text \<open>\<open>NULL\<close> is an inner \<open>None\<close>.\<close>

definition PhAddEntryHashtable ::
    "'e hashtable \<Rightarrow> 'e \<Rightarrow> (nat \<Rightarrow> 'e ht_entry) \<Rightarrow> ('e hashtable \<times> ulong option) option" where
  "PhAddEntryHashtable H e fresh =
     map_option (\<lambda>(H, entry, added). (H, if added then Some entry else None))
       (PhpAddEntryHashtable H e True fresh)"

definition PhAddEntryHashtableEx ::
    "'e hashtable \<Rightarrow> 'e \<Rightarrow> (nat \<Rightarrow> 'e ht_entry) \<Rightarrow> ('e hashtable \<times> ulong \<times> bool) option" where
  "PhAddEntryHashtableEx H e fresh = PhpAddEntryHashtable H e True fresh"

definition PhClearHashtable :: "'e hashtable \<Rightarrow> 'e hashtable" where
  "PhClearHashtable H =
     (if HtCount H > 0 then
        H\<lparr>Buckets := replicate (unat (AllocatedBuckets H)) ULONG_MAX, HtCount := 0,
          FreeEntry := ULONG_MAX, NextEntry := 0\<rparr>
      else H)"

text \<open>Enumeration: \<open>n\<close> is the number of entries still to visit, the key is their first index.\<close>

fun enum_loop :: "'e hashtable \<Rightarrow> nat \<Rightarrow> nat \<Rightarrow> ('e \<times> nat) option" where
  "enum_loop H key 0 = None"
| "enum_loop H key (Suc n) =
     (if HashCode (HtEntries H ! key) \<noteq> ULONG_MAX then Some (EntryBody (HtEntries H ! key), Suc key)
      else enum_loop H (Suc key) n)"

definition PhEnumHashtable :: "'e hashtable \<Rightarrow> nat \<Rightarrow> ('e \<times> nat) option" where
  "PhEnumHashtable H enumerationKey = enum_loop H enumerationKey (unat (NextEntry H) - enumerationKey)"

definition PhFindEntryHashtable :: "'e hashtable \<Rightarrow> 'e \<Rightarrow> ulong option option" where
  "PhFindEntryHashtable H e =
     (let hashCode = PhpValidateHash (HashFunction H e);
          index = PhpIndexFromHash H hashCode in
      if \<not> unat index < length (Buckets H) then None
      else find_loop H hashCode e (Buckets H ! unat index))"

text \<open>The walk of the removal also yields the entry before the one that matches.\<close>

partial_function (option) remove_loop ::
    "'e hashtable \<Rightarrow> ulong \<Rightarrow> 'e \<Rightarrow> ulong \<Rightarrow> ulong \<Rightarrow> (ulong \<times> ulong) option option" where
  "remove_loop H hashCode e previousIndex i =
     (if i = ULONG_MAX then Some None
      else if \<not> unat i < length (HtEntries H) then None
      else if HashCode (HtEntries H ! unat i) = hashCode \<and>
          EqualFunction H (EntryBody (HtEntries H ! unat i)) e
        then Some (Some (previousIndex, i))
      else remove_loop H hashCode e i (Next (HtEntries H ! unat i)))"

definition unlink_entry :: "'e hashtable \<Rightarrow> ulong \<Rightarrow> ulong \<Rightarrow> ulong \<Rightarrow> 'e hashtable" where
  "unlink_entry H index previousIndex i =
     (let after = Next (HtEntries H ! unat i) in
      if previousIndex = ULONG_MAX then H\<lparr>Buckets := (Buckets H)[unat index := after]\<rparr>
      else H\<lparr>HtEntries := (HtEntries H)[unat previousIndex :=
               (HtEntries H ! unat previousIndex)\<lparr>Next := after\<rparr>]\<rparr>)"

definition PhRemoveEntryHashtable :: "'e hashtable \<Rightarrow> 'e \<Rightarrow> ('e hashtable \<times> bool) option" where
  "PhRemoveEntryHashtable H e =
     (let hashCode = PhpValidateHash (HashFunction H e);
          index = PhpIndexFromHash H hashCode in
      if \<not> unat index < length (Buckets H) then None
      else case remove_loop H hashCode e ULONG_MAX (Buckets H ! unat index) of
        None \<Rightarrow> None
      | Some None \<Rightarrow> Some (H, False)
      | Some (Some (previousIndex, i)) \<Rightarrow>
          let H = unlink_entry H index previousIndex i in
          Some (H\<lparr>HtEntries := (HtEntries H)[unat i :=
                    (HtEntries H ! unat i)\<lparr>HashCode := ULONG_MAX, Next := FreeEntry H\<rparr>],
                 FreeEntry := i, HtCount := HtCount H - 1\<rparr>, True))"

section \<open>Chains\<close>

text \<open>\<open>chain es i xs\<close>: following \<open>Next\<close> from \<open>i\<close> visits the entries \<open>xs\<close> and then ends.\<close>

fun chain :: "'e ht_entry list \<Rightarrow> ulong \<Rightarrow> nat list \<Rightarrow> bool" where
  "chain es i [] = (i = ULONG_MAX)"
| "chain es i (x # xs) =
     (i \<noteq> ULONG_MAX \<and> unat i = x \<and> x < length es \<and> chain es (Next (es ! x)) xs)"

lemma chain_update_other [simp]: "x \<notin> set xs \<Longrightarrow> chain (es[x := v]) i xs = chain es i xs"
  by (induction xs arbitrary: i) auto

lemma chain_update_same_next [simp]:
  "x < length es \<Longrightarrow> Next v = Next (es ! x) \<Longrightarrow> chain (es[x := v]) i xs = chain es i xs"
  by (induction xs arbitrary: i) (auto simp: nth_list_update)

lemma chain_append_entries: "chain es i xs \<Longrightarrow> chain (es @ fs) i xs"
  by (induction xs arbitrary: i) (auto simp: nth_append)

lemma chain_range: "chain es i xs \<Longrightarrow> x \<in> set xs \<Longrightarrow> x < length es"
  by (induction xs arbitrary: i) auto

lemma chain_unlink:
  assumes "chain es i (ys @ x # zs)" and "distinct (ys @ x # zs)" and "ys \<noteq> []"
  shows "chain (es[last ys := (es ! last ys)\<lparr>Next := Next (es ! x)\<rparr>]) i (ys @ zs)"
  using assms
proof (induction ys arbitrary: i)
  case (Cons y ys)
  show ?case
  proof (cases "ys = []")
    case True
    with Cons.prems show ?thesis by auto
  next
    case False
    then have "y \<noteq> last ys" using Cons.prems(2) by auto
    with Cons False show ?thesis by auto
  qed
qed simp

text \<open>What a walk finds on a chain.\<close>

lemma find_loop_chain:
  assumes "chain (HtEntries H) i xs"
  shows "\<exists>r. find_loop H hc e i = Some r \<and>
    (case r of
       None \<Rightarrow> (\<forall>x\<in>set xs. \<not> (HashCode (HtEntries H ! x) = hc \<and> EqualFunction H (EntryBody (HtEntries H ! x)) e))
     | Some j \<Rightarrow> unat j \<in> set xs \<and> HashCode (HtEntries H ! unat j) = hc \<and>
         EqualFunction H (EntryBody (HtEntries H ! unat j)) e)"
  using assms
proof (induction xs arbitrary: i)
  case Nil
  then show ?case by (simp add: find_loop.simps)
next
  case (Cons x xs)
  let ?match = "HashCode (HtEntries H ! x) = hc \<and> EqualFunction H (EntryBody (HtEntries H ! x)) e"
  show ?case
  proof (cases ?match)
    case True
    with Cons.prems show ?thesis by (simp add: find_loop.simps [of H hc e i])
  next
    case False
    from Cons.prems have "find_loop H hc e i = find_loop H hc e (Next (HtEntries H ! x))"
      using False by (subst find_loop.simps) auto
    moreover obtain r where "find_loop H hc e (Next (HtEntries H ! x)) = Some r"
      "case r of
         None \<Rightarrow> (\<forall>x\<in>set xs. \<not> (HashCode (HtEntries H ! x) = hc \<and> EqualFunction H (EntryBody (HtEntries H ! x)) e))
       | Some j \<Rightarrow> unat j \<in> set xs \<and> HashCode (HtEntries H ! unat j) = hc \<and>
           EqualFunction H (EntryBody (HtEntries H ! unat j)) e"
      using Cons.IH [of "Next (HtEntries H ! x)"] Cons.prems by auto
    ultimately show ?thesis
      using False by (auto split: option.splits)
  qed
qed

lemma remove_loop_chain:
  assumes "chain (HtEntries H) i xs"
  shows "remove_loop H hc e p i = Some None \<and>
      (\<forall>x\<in>set xs. \<not> (HashCode (HtEntries H ! x) = hc \<and> EqualFunction H (EntryBody (HtEntries H ! x)) e))
    \<or> (\<exists>ys x zs q j. xs = ys @ x # zs \<and> remove_loop H hc e p i = Some (Some (q, j)) \<and> unat j = x \<and> j \<noteq> ULONG_MAX \<and>
        HashCode (HtEntries H ! x) = hc \<and> EqualFunction H (EntryBody (HtEntries H ! x)) e \<and>
        (if ys = [] then q = p else unat q = last ys \<and> q \<noteq> ULONG_MAX))"
  using assms
proof (induction xs arbitrary: i p)
  case Nil
  then show ?case by (simp add: remove_loop.simps)
next
  case (Cons x xs)
  let ?match = "HashCode (HtEntries H ! x) = hc \<and> EqualFunction H (EntryBody (HtEntries H ! x)) e"
  show ?case
  proof (cases ?match)
    case True
    with Cons.prems have "remove_loop H hc e p i = Some (Some (p, i))"
      by (subst remove_loop.simps) simp
    with True Cons.prems show ?thesis
      by (intro disjI2 exI [of _ "[]"] exI [of _ x] exI [of _ xs] exI [of _ p] exI [of _ i]) auto
  next
    case False
    from Cons.prems have eq: "remove_loop H hc e p i = remove_loop H hc e i (Next (HtEntries H ! x))"
      using False by (subst remove_loop.simps) auto
    have "chain (HtEntries H) (Next (HtEntries H ! x)) xs" using Cons.prems by simp
    from Cons.IH [OF this, of i] show ?thesis
    proof (elim disjE exE conjE)
      assume "remove_loop H hc e i (Next (HtEntries H ! x)) = Some None"
        "\<forall>x\<in>set xs. \<not> (HashCode (HtEntries H ! x) = hc \<and> EqualFunction H (EntryBody (HtEntries H ! x)) e)"
      with eq False show ?thesis by simp
    next
      fix ys y zs q j
      assume h: "xs = ys @ y # zs" "remove_loop H hc e i (Next (HtEntries H ! x)) = Some (Some (q, j))"
        "unat j = y" "j \<noteq> ULONG_MAX" "HashCode (HtEntries H ! y) = hc" "EqualFunction H (EntryBody (HtEntries H ! y)) e"
        "if ys = [] then q = i else unat q = last ys \<and> q \<noteq> ULONG_MAX"
      then show ?thesis
        using eq Cons.prems
        by (intro disjI2 exI [of _ "x # ys"] exI [of _ y] exI [of _ zs] exI [of _ q] exI [of _ j]) auto
    qed
  qed
qed

section \<open>The invariant\<close>

abbreviation used :: "'e hashtable \<Rightarrow> nat \<Rightarrow> bool" where
  "used H x \<equiv> HashCode (HtEntries H ! x) \<noteq> ULONG_MAX"

abbreviation body_of :: "'e hashtable \<Rightarrow> nat \<Rightarrow> 'e" where
  "body_of H x \<equiv> EntryBody (HtEntries H ! x)"

abbreviation bucket_of :: "'e hashtable \<Rightarrow> nat \<Rightarrow> nat" where
  "bucket_of H x \<equiv> unat (PhpIndexFromHash H (HashCode (HtEntries H ! x)))"

text \<open>Every bucket heads a chain of exactly the used entries below \<open>n\<close> that hash to it.\<close>

definition buckets_rep :: "'e hashtable \<Rightarrow> nat \<Rightarrow> bool" where
  "buckets_rep H n \<longleftrightarrow>
     (\<forall>b<length (Buckets H). \<exists>xs. chain (HtEntries H) (Buckets H ! b) xs \<and> distinct xs \<and>
        set xs = {x. x < n \<and> used H x \<and> bucket_of H x = b})"

text \<open>The free chain holds exactly the unused entries below \<open>n\<close>.\<close>

definition free_rep :: "'e hashtable \<Rightarrow> nat \<Rightarrow> bool" where
  "free_rep H n \<longleftrightarrow>
     (\<exists>xs. chain (HtEntries H) (FreeEntry H) xs \<and> distinct xs \<and> set xs = {x. x < n \<and> \<not> used H x})"

definition ht_shape :: "'e hashtable \<Rightarrow> bool" where
  "ht_shape H \<longleftrightarrow> (\<exists>k\<le>31. AllocatedBuckets H = 2 ^ k) \<and> AllocatedEntries H = AllocatedBuckets H \<and>
     length (Buckets H) = unat (AllocatedBuckets H) \<and> length (HtEntries H) = unat (AllocatedBuckets H) \<and>
     unat (NextEntry H) \<le> unat (AllocatedBuckets H)"

definition occupied :: "'e hashtable \<Rightarrow> nat set" where
  "occupied H = {x. x < unat (NextEntry H) \<and> used H x}"

definition ht_inv :: "('e \<Rightarrow> 'e \<Rightarrow> bool) \<Rightarrow> ('e \<Rightarrow> ulong) \<Rightarrow> 'e hashtable \<Rightarrow> bool" where
  "ht_inv eq hash H \<longleftrightarrow> EqualFunction H = eq \<and> HashFunction H = hash \<and> ht_shape H \<and>
     buckets_rep H (unat (NextEntry H)) \<and> free_rep H (unat (NextEntry H)) \<and>
     (\<forall>x\<in>occupied H. HashCode (HtEntries H ! x) = PhpValidateHash (hash (body_of H x))) \<and>
     unat (HtCount H) = card (occupied H) \<and>
     (\<forall>x\<in>occupied H. \<forall>y\<in>occupied H. x \<noteq> y \<longrightarrow> \<not> eq (body_of H x) (body_of H y))"

text \<open>The abstraction: the entries that are stored.\<close>

definition stored :: "'e hashtable \<Rightarrow> 'e set" where
  "stored H = body_of H ` occupied H"

lemma ht_shape_pos: "ht_shape H \<Longrightarrow> 0 < unat (AllocatedBuckets H)"
proof -
  assume "ht_shape H"
  then obtain k where "k \<le> 31" "AllocatedBuckets H = 2 ^ k" by (auto simp: ht_shape_def)
  then show ?thesis by (simp add: unat_gt_0)
qed

lemma unat_power2: "k \<le> 31 \<Longrightarrow> unat (2 ^ k :: ulong) = 2 ^ k"
  by (simp add: unat_2_power)

lemma ht_shape_le: "ht_shape H \<Longrightarrow> unat (AllocatedBuckets H) \<le> 2 ^ 31"
proof -
  assume "ht_shape H"
  then obtain k where "k \<le> 31" "AllocatedBuckets H = 2 ^ k" by (auto simp: ht_shape_def)
  then have "unat (AllocatedBuckets H) = 2 ^ k" by (simp add: unat_power2)
  also have "\<dots> \<le> 2 ^ 31" using \<open>k \<le> 31\<close> by (intro power_increasing) auto
  finally show ?thesis .
qed

text \<open>The bucket index is in range whatever the hash: a mask with the bucket count minus one.\<close>

lemma PhpIndexFromHash_less:
  assumes "0 < unat (AllocatedBuckets H)"
  shows "unat (PhpIndexFromHash H h) < unat (AllocatedBuckets H)"
proof -
  have "PhpIndexFromHash H h \<le> AllocatedBuckets H - 1"
    by (simp add: PhpIndexFromHash_def word_and_le1)
  then have "unat (PhpIndexFromHash H h) \<le> unat (AllocatedBuckets H - 1)"
    by (simp add: word_le_nat_alt)
  also have "\<dots> = unat (AllocatedBuckets H) - 1"
    using assms by (metis less_nat_zero_code unat_0 unat_minus_one)
  finally show ?thesis using assms by linarith
qed

lemma PhpValidateHash_neq: "PhpValidateHash h \<noteq> ULONG_MAX"
proof
  assume "PhpValidateHash h = ULONG_MAX"
  then have "bit (PhpValidateHash h) 31" by simp
  then show False by (simp add: PhpValidateHash_def bit_and_iff)
qed

lemma finite_occupied [simp]: "finite (occupied H)"
  by (rule finite_subset [of _ "{..<unat (NextEntry H)}"]) (auto simp: occupied_def)

subsection \<open>Creation and clearing\<close>

lemma PhpGetNumberOfBuckets_power:
  assumes "0 < unat c" and "unat c \<le> 2 ^ 31"
  shows "\<exists>k\<le>31. PhpGetNumberOfBuckets c = 2 ^ k \<and> unat c \<le> 2 ^ k"
  using PhRoundUpToPowerOfTwo_cases [OF assms] by (auto simp: PhpGetNumberOfBuckets_def)

lemma empty_reps:
  assumes "NextEntry H = 0" and "FreeEntry H = ULONG_MAX"
    and "Buckets H = replicate n ULONG_MAX"
  shows "buckets_rep H 0" and "free_rep H 0" and "occupied H = {}"
  using assms by (auto simp: buckets_rep_def free_rep_def occupied_def intro!: exI [of _ "[]"])

lemma PhCreateHashtable_inv:
  assumes "unat capacity \<le> 2 ^ 31"
  shows "ht_inv eq hash (PhCreateHashtable eq hash capacity fresh)"
    and "stored (PhCreateHashtable eq hash capacity fresh) = {}"
proof -
  let ?H = "PhCreateHashtable eq hash capacity fresh"
  let ?c = "if capacity = 0 then 1 else capacity"
  have "0 < unat ?c" "unat ?c \<le> 2 ^ 31"
    using assms by (auto simp: unat_gt_0)
  then have "\<exists>k\<le>31. PhpGetNumberOfBuckets ?c = 2 ^ k"
    using PhpGetNumberOfBuckets_power by blast
  then have shape: "ht_shape ?H"
    by (auto simp: ht_shape_def PhCreateHashtable_def Let_def)
  note reps = empty_reps [of ?H "unat (PhpGetNumberOfBuckets ?c)"]
  show "ht_inv eq hash ?H"
    using shape reps by (simp add: ht_inv_def) (simp add: PhCreateHashtable_def Let_def)
  show "stored ?H = {}"
    using reps by (simp add: stored_def PhCreateHashtable_def Let_def)
qed

lemma PhClearHashtable_inv:
  assumes "ht_inv eq hash H"
  shows "ht_inv eq hash (PhClearHashtable H)" and "stored (PhClearHashtable H) = {}"
proof -
  let ?H = "H\<lparr>Buckets := replicate (unat (AllocatedBuckets H)) ULONG_MAX, HtCount := 0,
    FreeEntry := ULONG_MAX, NextEntry := 0\<rparr>"
  note reps = empty_reps [of ?H "unat (AllocatedBuckets H)"]
  have "ht_shape ?H"
    using assms by (auto simp: ht_inv_def ht_shape_def)
  then have inv: "ht_inv eq hash ?H"
    using assms reps by (simp add: ht_inv_def)
  have "HtCount H = 0 \<Longrightarrow> occupied H = {}"
    using assms by (auto simp: ht_inv_def)
  with reps have "stored (PhClearHashtable H) = {}"
    by (auto simp: stored_def PhClearHashtable_def word_gt_0)
  then show "stored (PhClearHashtable H) = {}" .
  show "ht_inv eq hash (PhClearHashtable H)"
    using inv assms by (simp add: PhClearHashtable_def)
qed

subsection \<open>Linking a new entry\<close>

text \<open>
  The entry \<open>f\<close> is not in use below \<open>n\<close>, and below \<open>n'\<close> it is the only one more than below \<open>n\<close>.
\<close>

lemma add_new_entry_buckets:
  assumes rep: "buckets_rep H n" and f: "unat f < length (HtEntries H)" "f \<noteq> ULONG_MAX"
    and new: "unat f < n \<longrightarrow> \<not> used H (unat f)" "unat f < n'" "\<And>x. x \<noteq> unat f \<Longrightarrow> x < n' \<longleftrightarrow> x < n"
    and h: "h \<noteq> ULONG_MAX" and b: "unat (PhpIndexFromHash H h) < length (Buckets H)"
  shows "buckets_rep (add_new_entry H f h (PhpIndexFromHash H h) e) n'" (is "buckets_rep ?H n'")
  unfolding buckets_rep_def
proof (intro allI impI)
  fix b' assume b': "b' < length (Buckets ?H)"
  let ?b = "unat (PhpIndexFromHash H h)"
  have len: "length (Buckets ?H) = length (Buckets H)" by (simp add: add_new_entry_def)
  obtain xs where xs: "chain (HtEntries H) (Buckets H ! b') xs" "distinct xs"
      "set xs = {x. x < n \<and> used H x \<and> bucket_of H x = b'}"
    using rep b' len by (auto simp: buckets_rep_def)
  have fresh: "unat f \<notin> set xs" using new(1) xs(3) by auto
  have idx: "PhpIndexFromHash ?H = PhpIndexFromHash H"
    by (simp add: PhpIndexFromHash_def add_new_entry_def fun_eq_iff)
  have set': "{x. x < n' \<and> used ?H x \<and> bucket_of ?H x = b'} =
      {x. x < n \<and> used H x \<and> bucket_of H x = b'} \<union> (if b' = ?b then {unat f} else {})"
    using f h new unfolding idx
    by (auto simp: add_new_entry_def nth_list_update PhpIndexFromHash_def split: if_splits)
  show "\<exists>xs. chain (HtEntries ?H) (Buckets ?H ! b') xs \<and> distinct xs \<and>
      set xs = {x. x < n' \<and> used ?H x \<and> bucket_of ?H x = b'}"
  proof (cases "b' = ?b")
    case True
    then have "chain (HtEntries ?H) (Buckets ?H ! b') (unat f # xs)"
      using xs(1) f b fresh by (simp add: add_new_entry_def)
    then show ?thesis
      using True xs fresh set' by (intro exI [of _ "unat f # xs"]) auto
  next
    case False
    then have "chain (HtEntries ?H) (Buckets ?H ! b') xs"
      using xs(1) fresh by (simp add: add_new_entry_def)
    then show ?thesis
      using False xs set' by (intro exI [of _ xs]) auto
  qed
qed

subsection \<open>Resizing\<close>

lemma resize_loop_frame:
  "EqualFunction (resize_loop H i n) = EqualFunction H"
  "HashFunction (resize_loop H i n) = HashFunction H"
  "AllocatedBuckets (resize_loop H i n) = AllocatedBuckets H"
  "AllocatedEntries (resize_loop H i n) = AllocatedEntries H"
  "length (Buckets (resize_loop H i n)) = length (Buckets H)"
  "length (HtEntries (resize_loop H i n)) = length (HtEntries H)"
  "HtCount (resize_loop H i n) = HtCount H"
  "FreeEntry (resize_loop H i n) = FreeEntry H"
  "NextEntry (resize_loop H i n) = NextEntry H"
  by (induction n arbitrary: H i) (simp_all add: Let_def)

lemma resize_loop_entry:
  "HashCode (HtEntries (resize_loop H i n) ! x) = HashCode (HtEntries H ! x) \<and>
   EntryBody (HtEntries (resize_loop H i n) ! x) = EntryBody (HtEntries H ! x)"
proof (induction n arbitrary: H i)
  case (Suc n)
  have "HashCode ((HtEntries H)[i := (HtEntries H ! i)\<lparr>Next := v\<rparr>] ! x) = HashCode (HtEntries H ! x) \<and>
      EntryBody ((HtEntries H)[i := (HtEntries H ! i)\<lparr>Next := v\<rparr>] ! x) = EntryBody (HtEntries H ! x)" for v
    by (cases "i < length (HtEntries H)") (auto simp: nth_list_update list_update_beyond)
  with Suc show ?case by (simp add: Let_def)
qed simp

lemma resize_loop_buckets:
  assumes "buckets_rep H i" and "i + n \<le> length (HtEntries H)" and "length (HtEntries H) \<le> 2 ^ 31"
    and "0 < unat (AllocatedBuckets H)" and "length (Buckets H) = unat (AllocatedBuckets H)"
  shows "buckets_rep (resize_loop H i n) (i + n)"
  using assms
proof (induction n arbitrary: H i)
  case (Suc n)
  show ?case
  proof (cases "used H i")
    case False
    then have "{x. x < Suc i \<and> used H x \<and> bucket_of H x = b} = {x. x < i \<and> used H x \<and> bucket_of H x = b}" for b
      by (auto simp: less_Suc_eq)
    then have "buckets_rep H (Suc i)"
      using Suc.prems(1) by (simp add: buckets_rep_def)
    then show ?thesis using Suc.IH [of H "Suc i"] Suc.prems False by (simp add: Let_def)
  next
    case True
    let ?h = "HashCode (HtEntries H ! i)"
    have u: "unat (of_nat i :: ulong) = i" and m: "(of_nat i :: ulong) \<noteq> ULONG_MAX"
    proof -
      have "i < 2 ^ 32 - 1" using Suc.prems(2,3) by simp
      then show "unat (of_nat i :: ulong) = i" by (simp add: unat_of_nat)
      with \<open>i < 2 ^ 32 - 1\<close> show "(of_nat i :: ulong) \<noteq> ULONG_MAX" by auto
    qed
    have b: "unat (PhpIndexFromHash H ?h) < length (Buckets H)"
      using PhpIndexFromHash_less [OF Suc.prems(4)] Suc.prems(5) by simp
    let ?H = "add_new_entry H (of_nat i) ?h (PhpIndexFromHash H ?h) (body_of H i)"
    have "buckets_rep ?H (Suc i)"
      using Suc.prems True u m b by (intro add_new_entry_buckets [of _ i]) auto
    then have "buckets_rep (?H\<lparr>HtCount := HtCount H\<rparr>) (Suc i)"
      by (simp add: buckets_rep_def PhpIndexFromHash_def)
    moreover have "?H\<lparr>HtCount := HtCount H\<rparr> =
        H\<lparr>HtEntries := (HtEntries H)[i := (HtEntries H ! i)\<lparr>Next := Buckets H ! unat (PhpIndexFromHash H ?h)\<rparr>],
          Buckets := (Buckets H)[unat (PhpIndexFromHash H ?h) := of_nat i]\<rparr>"
      by (cases "HtEntries H ! i") (simp add: add_new_entry_def u)
    ultimately show ?thesis
      using Suc.IH [of "?H\<lparr>HtCount := HtCount H\<rparr>" "Suc i"] Suc.prems True
      by (simp add: Let_def)
  qed
qed simp

lemma resize_sizes:
  assumes "ht_shape H" and "unat (AllocatedBuckets H) < 2 ^ 31"
  obtains j where "j \<le> 31" "PhpGetNumberOfBuckets (AllocatedBuckets H * 2) = 2 ^ j"
    "unat (PhpGetNumberOfBuckets (AllocatedBuckets H * 2)) = 2 ^ j"
    "unat (AllocatedBuckets H) < 2 ^ j" "(2::nat) ^ j \<le> 2 ^ 31"
proof -
  obtain k where k: "k \<le> 31" "AllocatedBuckets H = 2 ^ k" using assms(1) by (auto simp: ht_shape_def)
  then have ua: "unat (AllocatedBuckets H) = 2 ^ k" by (simp add: unat_power2)
  have "k \<noteq> 31" using assms(2) ua by auto
  with k have k': "Suc k \<le> 31" by simp
  have "AllocatedBuckets H * 2 = 2 ^ Suc k" using k(2) by simp
  then have u2: "unat (AllocatedBuckets H * 2) = 2 ^ Suc k" using unat_power2 [OF k'] by simp
  have "(2::nat) ^ Suc k \<le> 2 ^ 31" using k' by (intro power_increasing) auto
  then obtain j where j: "j \<le> 31" "PhpGetNumberOfBuckets (AllocatedBuckets H * 2) = 2 ^ j"
      "(2::nat) ^ Suc k \<le> 2 ^ j"
    using PhpGetNumberOfBuckets_power [of "AllocatedBuckets H * 2"] u2 by auto
  have "unat (PhpGetNumberOfBuckets (AllocatedBuckets H * 2)) = 2 ^ j" using j by (simp add: unat_power2)
  moreover have "unat (AllocatedBuckets H) < 2 ^ j"
    unfolding ua by (rule less_le_trans [OF _ j(3)]) simp
  moreover have "(2::nat) ^ j \<le> 2 ^ 31" using j(1) by (intro power_increasing) auto
  ultimately show ?thesis using that j(1,2) by blast
qed

text \<open>The table before the entries are distributed again.\<close>

definition resize_start :: "'e hashtable \<Rightarrow> (nat \<Rightarrow> 'e ht_entry) \<Rightarrow> 'e hashtable" where
  "resize_start H fresh =
     (let nb = PhpGetNumberOfBuckets (AllocatedBuckets H * 2) in
      H\<lparr>AllocatedBuckets := nb, Buckets := replicate (unat nb) ULONG_MAX, AllocatedEntries := nb,
        HtEntries := take (unat nb) (HtEntries H) @ map fresh [length (HtEntries H)..<unat nb]\<rparr>)"

lemma resize_start_loop:
  "PhpResizeHashtable H (AllocatedBuckets H * 2) fresh = resize_loop (resize_start H fresh) 0 (unat (NextEntry H))"
  by (simp add: PhpResizeHashtable_def resize_start_def Let_def)

lemma resize_start_facts:
  fixes H :: "'e hashtable" and fresh :: "nat \<Rightarrow> 'e ht_entry"
  assumes "ht_shape H" and "unat (AllocatedBuckets H) < 2 ^ 31"
  defines "H0 \<equiv> resize_start H fresh"
  shows "buckets_rep H0 0"
    and "\<And>x. x < unat (NextEntry H) \<Longrightarrow> HtEntries H0 ! x = HtEntries H ! x"
    and "ht_shape H0" and "unat (AllocatedBuckets H) < unat (AllocatedBuckets H0)"
    and "NextEntry H0 = NextEntry H" and "FreeEntry H0 = FreeEntry H" and "HtCount H0 = HtCount H"
    and "EqualFunction H0 = EqualFunction H" and "HashFunction H0 = HashFunction H"
proof -
  obtain j where j: "j \<le> 31" "PhpGetNumberOfBuckets (AllocatedBuckets H * 2) = 2 ^ j"
    "unat (PhpGetNumberOfBuckets (AllocatedBuckets H * 2)) = 2 ^ j"
    "unat (AllocatedBuckets H) < 2 ^ j" "(2::nat) ^ j \<le> 2 ^ 31"
    using resize_sizes [OF assms(1,2)] .
  have len: "length (HtEntries H) = unat (AllocatedBuckets H)"
    and nx: "unat (NextEntry H) \<le> unat (AllocatedBuckets H)"
    using assms(1) by (simp_all add: ht_shape_def)
  show "buckets_rep H0 0"
    by (auto simp: H0_def resize_start_def Let_def buckets_rep_def intro!: exI [of _ "[]"])
  show "HtEntries H0 ! x = HtEntries H ! x" if "x < unat (NextEntry H)" for x
    using that nx len j(3,4) by (simp add: H0_def resize_start_def Let_def nth_append)
  show "ht_shape H0" "unat (AllocatedBuckets H) < unat (AllocatedBuckets H0)"
    using j len nx by (auto simp: H0_def resize_start_def Let_def ht_shape_def)
qed (simp_all add: H0_def resize_start_def Let_def)

lemma PhpResizeHashtable_inv:
  fixes H :: "'e hashtable" and fresh :: "nat \<Rightarrow> 'e ht_entry"
  assumes inv: "ht_inv eq hash H" and free: "FreeEntry H = ULONG_MAX"
    and room: "unat (AllocatedBuckets H) < 2 ^ 31"
  defines "H' \<equiv> PhpResizeHashtable H (AllocatedBuckets H * 2) fresh"
  shows "ht_inv eq hash H'" and "occupied H' = occupied H"
    and "\<And>x. x \<in> occupied H \<Longrightarrow> body_of H' x = body_of H x"
    and "NextEntry H' = NextEntry H" and "FreeEntry H' = ULONG_MAX"
    and "unat (AllocatedBuckets H) < unat (AllocatedBuckets H')"
proof -
  from inv have shape: "ht_shape H" by (simp add: ht_inv_def)
  note start = resize_start_facts [OF shape room, where fresh = fresh]
  have H': "H' = resize_loop (resize_start H fresh) 0 (unat (NextEntry H))"
    by (simp add: H'_def resize_start_loop)
  have shape': "ht_shape H'"
    using start(3) by (simp add: H' ht_shape_def resize_loop_frame)
  show next': "NextEntry H' = NextEntry H" and free': "FreeEntry H' = ULONG_MAX"
    using free start by (simp_all add: H' resize_loop_frame)
  show "unat (AllocatedBuckets H) < unat (AllocatedBuckets H')"
    using start(4) by (simp add: H' resize_loop_frame)
  have br: "buckets_rep H' (unat (NextEntry H'))"
    unfolding next' unfolding H' using resize_loop_buckets [OF start(1), of "unat (NextEntry H)"]
      ht_shape_pos [OF start(3)] ht_shape_le [OF start(3)] start(3,5) by (simp add: ht_shape_def)
  have same: "HashCode (HtEntries H' ! x) = HashCode (HtEntries H ! x) \<and> body_of H' x = body_of H x"
    if "x < unat (NextEntry H)" for x
    using resize_loop_entry [of "resize_start H fresh" 0 "unat (NextEntry H)" x] start(2) [OF that]
    by (simp add: H')
  show occ: "occupied H' = occupied H"
    using same next' by (auto simp: occupied_def)
  show body: "body_of H' x = body_of H x" if "x \<in> occupied H" for x
    using same that by (simp add: occupied_def)
  have "{x. x < unat (NextEntry H) \<and> \<not> used H x} = {}"
  proof -
    obtain xs where "chain (HtEntries H) (FreeEntry H) xs" "set xs = {x. x < unat (NextEntry H) \<and> \<not> used H x}"
      using inv by (auto simp: ht_inv_def free_rep_def)
    with free show ?thesis by (cases xs) auto
  qed
  then have "free_rep H' (unat (NextEntry H'))"
    using same free' next' by (auto simp: free_rep_def intro!: exI [of _ "[]"])
  moreover have "EqualFunction H' = eq" "HashFunction H' = hash" "HtCount H' = HtCount H"
    using inv start by (simp_all add: H' resize_loop_frame ht_inv_def)
  moreover have "\<forall>x\<in>occupied H. HashCode (HtEntries H' ! x) = HashCode (HtEntries H ! x)"
    using same by (simp add: occupied_def)
  ultimately show "ht_inv eq hash H'"
    using inv shape' br occ body by (simp add: ht_inv_def)
qed

subsection \<open>Unlinking an entry\<close>

text \<open>
  Taking the entry \<open>i\<close> out of the chain of its bucket and putting it at the head of the free chain.
\<close>

definition freed :: "'e hashtable \<Rightarrow> ulong \<Rightarrow> 'e hashtable" where
  "freed H i = H\<lparr>HtEntries := (HtEntries H)[unat i := (HtEntries H ! unat i)\<lparr>HashCode := ULONG_MAX, Next := FreeEntry H\<rparr>],
     FreeEntry := i, HtCount := HtCount H - 1\<rparr>"

lemma freed_frame:
  defines "R H b q i \<equiv> freed (unlink_entry H b q i) i"
  shows "EqualFunction (R H b q i) = EqualFunction H" "HashFunction (R H b q i) = HashFunction H"
    "AllocatedBuckets (R H b q i) = AllocatedBuckets H" "AllocatedEntries (R H b q i) = AllocatedEntries H"
    "length (Buckets (R H b q i)) = length (Buckets H)" "length (HtEntries (R H b q i)) = length (HtEntries H)"
    "NextEntry (R H b q i) = NextEntry H" "FreeEntry (R H b q i) = i" "HtCount (R H b q i) = HtCount H - 1"
  by (simp_all add: R_def freed_def unlink_entry_def Let_def)

lemma freed_entry:
  assumes "unat i < length (HtEntries H)" and "q \<noteq> ULONG_MAX \<longrightarrow> unat q < length (HtEntries H)"
  shows "HashCode (HtEntries (freed (unlink_entry H b q i) i) ! x) =
      (if x = unat i then ULONG_MAX else HashCode (HtEntries H ! x))"
    and "body_of (freed (unlink_entry H b q i) i) x = body_of H x"
  using assms by (auto simp: freed_def unlink_entry_def Let_def nth_list_update)

text \<open>The chain of the bucket after the entry is unlinked; \<open>q\<close> is the entry before, if there is one.\<close>

lemma unlink_chain:
  assumes "chain (HtEntries H) (Buckets H ! unat b) (ys @ unat i # zs)" and "distinct (ys @ unat i # zs)"
    and "unat b < length (Buckets H)"
    and "if ys = [] then q = ULONG_MAX else unat q = last ys \<and> q \<noteq> ULONG_MAX"
  shows "chain (HtEntries (freed (unlink_entry H b q i) i)) (Buckets (freed (unlink_entry H b q i) i) ! unat b) (ys @ zs)"
proof -
  have "chain (HtEntries (unlink_entry H b q i)) (Buckets (unlink_entry H b q i) ! unat b) (ys @ zs)"
    using assms chain_unlink [OF assms(1,2)]
    by (cases "ys = []") (auto simp: unlink_entry_def Let_def)
  moreover have "unat i \<notin> set (ys @ zs)" using assms(2) by auto
  ultimately show ?thesis by (simp add: freed_def)
qed

lemma unlink_other_chain:
  assumes "chain (HtEntries H) c xs" and "unat i \<notin> set xs" and "q \<noteq> ULONG_MAX \<longrightarrow> unat q \<notin> set xs"
  shows "chain (HtEntries (freed (unlink_entry H b q i) i)) c xs"
  using assms by (auto simp: freed_def unlink_entry_def Let_def)

lemma freed_buckets:
  assumes rep: "buckets_rep H n" and b: "unat b < length (Buckets H)"
    and xs: "chain (HtEntries H) (Buckets H ! unat b) (ys @ unat i # zs)" "distinct (ys @ unat i # zs)"
      "set (ys @ unat i # zs) = {x. x < n \<and> used H x \<and> bucket_of H x = unat b}"
    and q: "if ys = [] then q = ULONG_MAX else unat q = last ys \<and> q \<noteq> ULONG_MAX"
  shows "buckets_rep (freed (unlink_entry H b q i) i) n" (is "buckets_rep ?H n")
  unfolding buckets_rep_def
proof (intro allI impI)
  fix c assume "c < length (Buckets ?H)"
  then have c: "c < length (Buckets H)" by (simp add: freed_frame)
  have qs: "unat q \<in> set ys" if "q \<noteq> ULONG_MAX" using that q by (auto split: if_splits)
  have range: "unat i < length (HtEntries H)" "q \<noteq> ULONG_MAX \<longrightarrow> unat q < length (HtEntries H)"
    using chain_range [OF xs(1)] qs by auto
  have idx: "PhpIndexFromHash ?H = PhpIndexFromHash H" by (simp add: fun_eq_iff PhpIndexFromHash_def freed_frame)
  have set': "{x. x < n \<and> used ?H x \<and> bucket_of ?H x = c} = {x. x < n \<and> used H x \<and> bucket_of H x = c} - {unat i}"
    using freed_entry(1) [OF range, of b] by (auto simp: idx split: if_splits)
  show "\<exists>xs. chain (HtEntries ?H) (Buckets ?H ! c) xs \<and> distinct xs \<and>
      set xs = {x. x < n \<and> used ?H x \<and> bucket_of ?H x = c}"
  proof (cases "c = unat b")
    case True
    then have "chain (HtEntries ?H) (Buckets ?H ! c) (ys @ zs)"
      using unlink_chain [OF xs(1,2) b q] by simp
    moreover have "set (ys @ zs) = set (ys @ unat i # zs) - {unat i}" using xs(2) by auto
    ultimately show ?thesis
      using xs(2,3) True set' by (intro exI [of _ "ys @ zs"]) auto
  next
    case False
    obtain ws where ws: "chain (HtEntries H) (Buckets H ! c) ws" "distinct ws"
        "set ws = {x. x < n \<and> used H x \<and> bucket_of H x = c}"
      using rep c by (auto simp: buckets_rep_def)
    have disj: "set ws \<inter> set (ys @ unat i # zs) = {}" using ws(3) xs(3) False by auto
    then have "chain (HtEntries ?H) (Buckets H ! c) ws"
      using unlink_other_chain [OF ws(1), of i q b] qs by auto
    moreover have "Buckets ?H ! c = Buckets H ! c"
      using False by (simp add: freed_def unlink_entry_def Let_def)
    ultimately show ?thesis
      using ws set' disj by (intro exI [of _ ws]) auto
  qed
qed

section \<open>The contract of the comparison and hash functions\<close>

text \<open>
  The documentation of \<open>PPH_HASHTABLE_EQUAL_FUNCTION\<close> and \<open>PPH_HASHTABLE_HASH_FUNCTION\<close>: a comparison
  of entries for equality, and equal entries have the same hash code.
\<close>

locale ht_contract =
  fixes eq :: "'e \<Rightarrow> 'e \<Rightarrow> bool" and hash :: "'e \<Rightarrow> ulong"
  assumes eq_refl: "eq x x"
    and eq_sym: "eq x y \<Longrightarrow> eq y x"
    and eq_trans: "eq x y \<Longrightarrow> eq y z \<Longrightarrow> eq x z"
    and eq_hash: "eq x y \<Longrightarrow> hash x = hash y"
begin

lemma find_correct:
  assumes inv: "ht_inv eq hash H"
  shows "\<exists>r. PhFindEntryHashtable H e = Some r \<and>
    (case r of None \<Rightarrow> (\<forall>x\<in>stored H. \<not> eq x e)
     | Some i \<Rightarrow> unat i \<in> occupied H \<and> eq (body_of H (unat i)) e)"
proof -
  let ?h = "PhpValidateHash (hash e)"
  let ?b = "unat (PhpIndexFromHash H ?h)"
  from inv have shape: "ht_shape H" and eq: "EqualFunction H = eq" "HashFunction H = hash"
    by (simp_all add: ht_inv_def)
  have b: "?b < length (Buckets H)"
    using PhpIndexFromHash_less [OF ht_shape_pos [OF shape]] shape by (simp add: ht_shape_def)
  obtain xs where xs: "chain (HtEntries H) (Buckets H ! ?b) xs"
      "set xs = {x. x < unat (NextEntry H) \<and> used H x \<and> bucket_of H x = ?b}"
    using inv b by (auto simp: ht_inv_def buckets_rep_def)
  have match: "x \<in> set xs \<and> HashCode (HtEntries H ! x) = ?h \<and> eq (body_of H x) e
      \<longleftrightarrow> x \<in> occupied H \<and> eq (body_of H x) e" for x
  proof
    assume "x \<in> occupied H \<and> eq (body_of H x) e"
    moreover from this have "HashCode (HtEntries H ! x) = ?h"
      using inv eq_hash [of "body_of H x" e] by (simp add: ht_inv_def)
    ultimately show "x \<in> set xs \<and> HashCode (HtEntries H ! x) = ?h \<and> eq (body_of H x) e"
      by (simp add: xs(2) occupied_def)
  qed (simp add: xs(2) occupied_def PhpValidateHash_neq)
  obtain r where r: "find_loop H ?h e (Buckets H ! ?b) = Some r"
    "case r of
       None \<Rightarrow> (\<forall>x\<in>set xs. \<not> (HashCode (HtEntries H ! x) = ?h \<and> eq (body_of H x) e))
     | Some j \<Rightarrow> unat j \<in> set xs \<and> HashCode (HtEntries H ! unat j) = ?h \<and> eq (body_of H (unat j)) e"
    using find_loop_chain [OF xs(1), of ?h e] eq by auto
  then have "case r of None \<Rightarrow> (\<forall>x\<in>stored H. \<not> eq x e)
     | Some i \<Rightarrow> unat i \<in> occupied H \<and> eq (body_of H (unat i)) e"
    using match by (auto simp: stored_def split: option.splits)
  with r(1) b eq show ?thesis by (simp add: PhFindEntryHashtable_def)
qed

lemma add_new_entry_inv:
  assumes H: "EqualFunction H = eq" "HashFunction H = hash" "ht_shape H" and rep: "buckets_rep H n"
    and f: "unat f < unat (NextEntry H)" "unat f < n \<longrightarrow> \<not> used H (unat f)"
      "\<And>x. x \<noteq> unat f \<Longrightarrow> x < unat (NextEntry H) \<longleftrightarrow> x < n"
    and free: "chain (HtEntries H) (FreeEntry H) xs" "distinct xs"
      "set xs = {x. x < n \<and> \<not> used H x \<and> x \<noteq> unat f}"
    and occ: "U = {x. x < n \<and> used H x}" and card: "unat (HtCount H) = card U"
    and codes: "\<forall>x\<in>U. HashCode (HtEntries H ! x) = PhpValidateHash (hash (body_of H x))"
    and dup: "\<forall>x\<in>U. \<forall>y\<in>U. x \<noteq> y \<longrightarrow> \<not> eq (body_of H x) (body_of H y)"
    and new: "\<forall>x\<in>U. \<not> eq (body_of H x) e"
  defines "h \<equiv> PhpValidateHash (hash e)"
  defines "H' \<equiv> add_new_entry H f h (PhpIndexFromHash H h) e"
  shows "ht_inv eq hash H'" and "stored H' = insert e (body_of H ` U)"
    and "unat f \<in> occupied H'" and "body_of H' (unat f) = e"
proof -
  have len: "unat f < length (HtEntries H)" "unat (NextEntry H) \<le> 2 ^ 31"
    using f(1) H(3) ht_shape_le [OF H(3)] by (simp_all add: ht_shape_def)
  then have fm: "f \<noteq> ULONG_MAX" using f(1) by auto
  have b: "unat (PhpIndexFromHash H h) < length (Buckets H)"
    using PhpIndexFromHash_less [OF ht_shape_pos [OF H(3)]] H(3) by (simp add: ht_shape_def)
  have h: "h \<noteq> ULONG_MAX" by (simp add: h_def PhpValidateHash_neq)
  have es: "HtEntries H' ! x = (if x = unat f then \<lparr>HashCode = h, Next = Buckets H ! unat (PhpIndexFromHash H h), EntryBody = e\<rparr>
      else HtEntries H ! x)" for x
    using len(1) by (simp add: H'_def add_new_entry_def nth_list_update)
  have nx: "NextEntry H' = NextEntry H" by (simp add: H'_def add_new_entry_def)
  have fU: "unat f \<notin> U" using f(2) occ by auto
  have occ': "occupied H' = insert (unat f) U"
    using f h occ by (auto simp: occupied_def nx es)
  have sub: "U \<subseteq> {..<unat (NextEntry H)}"
  proof
    fix x assume "x \<in> U"
    then have "x \<noteq> unat f" "x < n" using fU occ by auto
    then show "x \<in> {..<unat (NextEntry H)}" using f(3) by simp
  qed
  then have fin: "finite U" by (rule finite_subset) simp
  have "card U \<le> unat (NextEntry H)" using card_mono [OF _ sub] by simp
  with fin len(2) have cnt: "unat (HtCount H') = card (occupied H')"
    unfolding occ' using card fU by (simp add: H'_def add_new_entry_def unat_plus_no_overflow)
  have "chain (HtEntries H') (FreeEntry H') xs"
    using free(1,3) by (simp add: H'_def add_new_entry_def)
  then have fr: "free_rep H' (unat (NextEntry H'))"
    using free(2,3) f h by (auto simp: free_rep_def nx es intro!: exI [of _ xs])
  have br: "buckets_rep H' (unat (NextEntry H'))"
    unfolding nx unfolding H'_def using rep len(1) fm f h b by (intro add_new_entry_buckets) auto
  have new': "\<forall>x\<in>U. \<not> eq e (body_of H x)" using new eq_sym by blast
  have "EqualFunction H' = eq" "HashFunction H' = hash" "ht_shape H'"
    using H by (simp_all add: H'_def add_new_entry_def ht_shape_def)
  moreover have "\<forall>x\<in>occupied H'. HashCode (HtEntries H' ! x) = PhpValidateHash (hash (body_of H' x))"
    using codes fU by (auto simp: occ' es h_def)
  moreover have "\<forall>x\<in>occupied H'. \<forall>y\<in>occupied H'. x \<noteq> y \<longrightarrow> \<not> eq (body_of H' x) (body_of H' y)"
    using dup new new' fU by (auto simp: occ' es)
  ultimately show "ht_inv eq hash H'"
    using br fr cnt by (simp add: ht_inv_def)
  have "body_of H' ` U = body_of H ` U"
    using fU by (intro image_cong) (auto simp: es)
  then show "stored H' = insert e (body_of H ` U)"
    by (simp add: stored_def occ' es)
  show "unat f \<in> occupied H'" "body_of H' (unat f) = e"
    by (simp_all add: occ' es)
qed

text \<open>The entry that an insertion takes: from the free chain, or the next one.\<close>

lemma add_from_free:
  assumes inv: "ht_inv eq hash H" and free: "FreeEntry H \<noteq> ULONG_MAX" and new: "\<forall>x\<in>stored H. \<not> eq x e"
  defines "h \<equiv> PhpValidateHash (hash e)"
  defines "H' \<equiv> add_new_entry (H\<lparr>FreeEntry := Next (HtEntries H ! unat (FreeEntry H))\<rparr>) (FreeEntry H) h (PhpIndexFromHash H h) e"
  shows "unat (FreeEntry H) < length (HtEntries H)" and "ht_inv eq hash H'"
    and "stored H' = insert e (stored H)"
    and "unat (FreeEntry H) \<in> occupied H'" and "body_of H' (unat (FreeEntry H)) = e"
proof -
  let ?f = "FreeEntry H" and ?H = "H\<lparr>FreeEntry := Next (HtEntries H ! unat (FreeEntry H))\<rparr>"
  obtain fs where fs: "chain (HtEntries H) ?f fs" "distinct fs"
      "set fs = {x. x < unat (NextEntry H) \<and> \<not> used H x}"
    using inv by (auto simp: ht_inv_def free_rep_def)
  with free obtain xs where xs: "fs = unat ?f # xs" "chain (HtEntries H) (Next (HtEntries H ! unat ?f)) xs"
    by (cases fs) auto
  have f: "unat ?f < unat (NextEntry H)" "\<not> used H (unat ?f)"
    using fs(3) xs(1) by auto
  have setxs: "set xs = {x. x < unat (NextEntry H) \<and> \<not> used H x \<and> x \<noteq> unat ?f}"
    using fs(2,3) xs(1) by auto
  show "unat ?f < length (HtEntries H)"
    using f(1) inv by (simp add: ht_inv_def ht_shape_def)
  have idx: "PhpIndexFromHash ?H = PhpIndexFromHash H" by (simp add: fun_eq_iff PhpIndexFromHash_def)
  have occ: "occupied H = {x. x < unat (NextEntry H) \<and> used ?H x}" by (simp add: occupied_def)
  note add = add_new_entry_inv [of ?H "unat (NextEntry H)" ?f xs "occupied H" e, folded h_def, unfolded idx, folded H'_def]
  have rep: "buckets_rep ?H (unat (NextEntry H))"
    using inv by (simp add: ht_inv_def buckets_rep_def PhpIndexFromHash_def)
  have prems: "EqualFunction ?H = eq" "HashFunction ?H = hash" "ht_shape ?H"
      "unat (HtCount ?H) = card (occupied H)"
      "\<forall>x\<in>occupied H. HashCode (HtEntries ?H ! x) = PhpValidateHash (hash (body_of ?H x))"
      "\<forall>x\<in>occupied H. \<forall>y\<in>occupied H. x \<noteq> y \<longrightarrow> \<not> eq (body_of ?H x) (body_of ?H y)"
      "\<forall>x\<in>occupied H. \<not> eq (body_of ?H x) e"
    using inv new by (simp_all add: ht_inv_def ht_shape_def stored_def)
  show "ht_inv eq hash H'" "stored H' = insert e (stored H)"
    "unat ?f \<in> occupied H'" "body_of H' (unat ?f) = e"
    using add [OF prems(1-3) rep] f xs(2) setxs fs(2) xs(1) occ prems(4-7) by (simp_all add: stored_def)
qed

lemma add_from_next:
  assumes inv: "ht_inv eq hash H" and free: "FreeEntry H = ULONG_MAX"
    and room: "unat (NextEntry H) < unat (AllocatedBuckets H)" and new: "\<forall>x\<in>stored H. \<not> eq x e"
  defines "h \<equiv> PhpValidateHash (hash e)"
  defines "H' \<equiv> add_new_entry (H\<lparr>NextEntry := NextEntry H + 1\<rparr>) (NextEntry H) h (PhpIndexFromHash H h) e"
  shows "ht_inv eq hash H'" and "stored H' = insert e (stored H)"
    and "unat (NextEntry H) \<in> occupied H'" and "body_of H' (unat (NextEntry H)) = e"
proof -
  let ?f = "NextEntry H" and ?H = "H\<lparr>NextEntry := NextEntry H + 1\<rparr>"
  have shape: "ht_shape H" using inv by (simp add: ht_inv_def)
  have nx: "unat (NextEntry ?H) = Suc (unat ?f)"
    using room ht_shape_le [OF shape] by (simp add: unat_plus_no_overflow)
  obtain fs where fs: "chain (HtEntries H) (FreeEntry H) fs" "distinct fs"
      "set fs = {x. x < unat (NextEntry H) \<and> \<not> used H x}"
    using inv by (auto simp: ht_inv_def free_rep_def)
  have setxs: "set fs = {x. x < unat ?f \<and> \<not> used ?H x \<and> x \<noteq> unat ?f}"
    using fs(3) by auto
  have idx: "PhpIndexFromHash ?H = PhpIndexFromHash H" by (simp add: fun_eq_iff PhpIndexFromHash_def)
  have occ: "occupied H = {x. x < unat ?f \<and> used ?H x}" by (simp add: occupied_def)
  note add = add_new_entry_inv [of ?H "unat ?f" ?f fs "occupied H" e, folded h_def, unfolded idx, folded H'_def]
  have rep: "buckets_rep ?H (unat ?f)"
    using inv by (simp add: ht_inv_def buckets_rep_def PhpIndexFromHash_def)
  have prems: "EqualFunction ?H = eq" "HashFunction ?H = hash" "ht_shape ?H"
      "unat (HtCount ?H) = card (occupied H)"
      "\<forall>x\<in>occupied H. HashCode (HtEntries ?H ! x) = PhpValidateHash (hash (body_of ?H x))"
      "\<forall>x\<in>occupied H. \<forall>y\<in>occupied H. x \<noteq> y \<longrightarrow> \<not> eq (body_of ?H x) (body_of ?H y)"
      "\<forall>x\<in>occupied H. \<not> eq (body_of ?H x) e"
    using inv new room nx by (simp_all add: ht_inv_def ht_shape_def stored_def)
  have lt: "x < unat (NextEntry ?H) \<longleftrightarrow> x < unat ?f" if "x \<noteq> unat ?f" for x
    using that nx by auto
  show "ht_inv eq hash H'" "stored H' = insert e (stored H)"
    "unat ?f \<in> occupied H'" "body_of H' (unat ?f) = e"
    using add [OF prems(1-3) rep _ _ lt] nx fs(1,2) setxs occ prems(4-7) by (simp_all add: stored_def)
qed

lemma index_in_range:
  "ht_inv eq hash H \<Longrightarrow> unat (PhpIndexFromHash H h) < length (Buckets H)"
  using PhpIndexFromHash_less [OF ht_shape_pos] by (auto simp: ht_inv_def ht_shape_def)

lemma add_to_full:
  fixes H :: "'e hashtable" and fresh :: "nat \<Rightarrow> 'e ht_entry"
  assumes inv: "ht_inv eq hash H" and free: "FreeEntry H = ULONG_MAX"
    and bound: "unat (NextEntry H) < 2 ^ 31" and new: "\<forall>x\<in>stored H. \<not> eq x e"
  defines "R \<equiv> (if NextEntry H = AllocatedEntries H then PhpResizeHashtable H (AllocatedBuckets H * 2) fresh else H)"
  shows "ht_inv eq hash R" and "FreeEntry R = ULONG_MAX" and "unat (NextEntry R) < unat (AllocatedBuckets R)"
    and "stored R = stored H" and "NextEntry R = NextEntry H"
proof -
  have shape: "ht_shape H" using inv by (simp add: ht_inv_def)
  have "NextEntry R = NextEntry H \<and> ht_inv eq hash R \<and> FreeEntry R = ULONG_MAX \<and> unat (NextEntry R) < unat (AllocatedBuckets R) \<and> stored R = stored H"
  proof (cases "NextEntry H = AllocatedEntries H")
    case True
    then have "unat (AllocatedBuckets H) < 2 ^ 31" using bound shape by (simp add: ht_shape_def)
    note resize = PhpResizeHashtable_inv [OF inv free this, where fresh = fresh]
    have "stored R = stored H"
      using resize True by (auto simp: R_def stored_def intro!: image_cong)
    then show ?thesis
      using resize True shape by (simp add: R_def ht_shape_def)
  next
    case False
    then have "unat (NextEntry H) \<noteq> unat (AllocatedBuckets H)"
      using shape by (auto simp: ht_shape_def word_unat_eq_iff)
    then show ?thesis
      using False inv free shape by (simp add: R_def ht_shape_def)
  qed
  then show "ht_inv eq hash R" "FreeEntry R = ULONG_MAX" "unat (NextEntry R) < unat (AllocatedBuckets R)"
    "stored R = stored H" "NextEntry R = NextEntry H" by blast+
qed

lemma add_correct:
  assumes inv: "ht_inv eq hash H" and bound: "unat (NextEntry H) < 2 ^ 31"
  shows "\<exists>H' i added. PhpAddEntryHashtable H e True fresh = Some (H', i, added) \<and> ht_inv eq hash H' \<and>
    unat i \<in> occupied H' \<and> eq (body_of H' (unat i)) e \<and> unat (NextEntry H') \<le> Suc (unat (NextEntry H)) \<and>
    (if \<exists>x\<in>stored H. eq x e then \<not> added \<and> H' = H
     else added \<and> stored H' = insert e (stored H) \<and> body_of H' (unat i) = e)"
proof -
  let ?h = "PhpValidateHash (hash e)"
  have eq: "EqualFunction H = eq" "HashFunction H = hash" using inv by (simp_all add: ht_inv_def)
  note b = index_in_range [OF inv, of ?h]
  obtain r where r: "find_loop H ?h e (Buckets H ! unat (PhpIndexFromHash H ?h)) = Some r"
    "case r of None \<Rightarrow> (\<forall>x\<in>stored H. \<not> eq x e)
     | Some i \<Rightarrow> unat i \<in> occupied H \<and> eq (body_of H (unat i)) e"
    using find_correct [OF inv, of e] b eq by (auto simp: PhFindEntryHashtable_def Let_def)
  show ?thesis
  proof (cases r)
    case (Some i)
    then have "unat i \<in> occupied H" "eq (body_of H (unat i)) e" using r(2) by auto
    moreover then have "\<exists>x\<in>stored H. eq x e" by (auto simp: stored_def)
    ultimately show ?thesis
      using Some r(1) b eq inv by (simp add: PhpAddEntryHashtable_def ex_bool_eq)
  next
    case None
    with r have new: "\<forall>x\<in>stored H. \<not> eq x e" by simp
    show ?thesis
    proof (cases "FreeEntry H = ULONG_MAX")
      case False
      note add = add_from_free [OF inv False new]
      have "NextEntry (add_new_entry (H\<lparr>FreeEntry := n\<rparr>) f c b e) = NextEntry H" for n f c b
        by (simp add: add_new_entry_def)
      then show ?thesis
        using None r(1) b eq False add new eq_refl [of e]
        by (simp add: PhpAddEntryHashtable_def Let_def ex_bool_eq)
    next
      case True
      let ?R = "if NextEntry H = AllocatedEntries H then PhpResizeHashtable H (AllocatedBuckets H * 2) fresh else H"
      note full = add_to_full [OF inv True bound new, where fresh = fresh]
      have "\<forall>x\<in>stored ?R. \<not> eq x e" using full(4) new by simp
      note add = add_from_next [OF full(1-3) this]
      have "unat (NextEntry ?R) < length (HtEntries ?R)"
        using full(1,3) by (simp add: ht_inv_def ht_shape_def)
      moreover have "unat (NextEntry (add_new_entry (?R\<lparr>NextEntry := NextEntry ?R + 1\<rparr>) f c b e)) \<le> Suc (unat (NextEntry H))" for f c b
        using bound by (simp add: add_new_entry_def full(5) unat_plus_no_overflow)
      ultimately show ?thesis
        using None r(1) b eq True add new eq_refl [of e] full(4) index_in_range [OF full(1), of ?h]
        by (simp add: PhpAddEntryHashtable_def Let_def ex_bool_eq)
    qed
  qed
qed

lemma bodies_inj: "ht_inv eq hash H \<Longrightarrow> inj_on (body_of H) (occupied H)"
  by (rule inj_onI, rule ccontr) (metis eq_refl ht_inv_def)

lemma freed_inv:
  assumes inv: "ht_inv eq hash H" and b: "unat b < length (Buckets H)"
    and xs: "chain (HtEntries H) (Buckets H ! unat b) (ys @ unat i # zs)" "distinct (ys @ unat i # zs)"
      "set (ys @ unat i # zs) = {x. x < unat (NextEntry H) \<and> used H x \<and> bucket_of H x = unat b}"
    and q: "if ys = [] then q = ULONG_MAX else unat q = last ys \<and> q \<noteq> ULONG_MAX" and i: "i \<noteq> ULONG_MAX"
  defines "H' \<equiv> freed (unlink_entry H b q i) i"
  shows "ht_inv eq hash H'" and "stored H' = stored H - {body_of H (unat i)}"
proof -
  have qs: "unat q \<in> set ys" if "q \<noteq> ULONG_MAX" using that q by (auto split: if_splits)
  have range: "unat i < length (HtEntries H)" "q \<noteq> ULONG_MAX \<longrightarrow> unat q < length (HtEntries H)"
    using chain_range [OF xs(1)] qs by auto
  note es = freed_entry [OF range, of b, folded H'_def]
  note fr = freed_frame [of H b q i, folded H'_def]
  have x: "unat i \<in> occupied H" using xs(3) by (auto simp: occupied_def)
  have occ: "occupied H' = occupied H - {unat i}"
    by (auto simp: occupied_def fr es(1) split: if_splits)
  have "0 < card (occupied H)" using x card_gt_0_iff by fastforce
  then have "unat (HtCount H) = card (occupied H)" "HtCount H \<noteq> 0"
    using inv by (auto simp: ht_inv_def)
  then have cnt: "unat (HtCount H') = card (occupied H')"
    using x by (simp add: fr occ unat_minus_one)
  obtain fs where fs: "chain (HtEntries H) (FreeEntry H) fs" "distinct fs"
      "set fs = {x. x < unat (NextEntry H) \<and> \<not> used H x}"
    using inv by (auto simp: ht_inv_def free_rep_def)
  have disj: "set fs \<inter> set (ys @ unat i # zs) = {}" using fs(3) xs(3) by auto
  then have "chain (HtEntries H') (FreeEntry H) fs"
    unfolding H'_def using qs by (intro unlink_other_chain [OF fs(1)]) auto
  moreover have "Next (HtEntries H' ! unat i) = FreeEntry H"
    using range(1) by (simp add: H'_def freed_def unlink_entry_def Let_def)
  ultimately have "chain (HtEntries H') (FreeEntry H') (unat i # fs)"
    using i range(1) by (simp add: fr)
  moreover have "set (unat i # fs) = {x. x < unat (NextEntry H') \<and> \<not> used H' x}"
    using x by (auto simp: fs(3) fr es(1) occupied_def)
  moreover have "distinct (unat i # fs)" using fs(2) disj by auto
  ultimately have free: "free_rep H' (unat (NextEntry H'))"
    unfolding free_rep_def by blast
  have "buckets_rep H' (unat (NextEntry H'))"
    using freed_buckets [OF _ b xs q] inv by (simp add: ht_inv_def H'_def fr(7) [unfolded H'_def])
  moreover have "EqualFunction H' = eq" "HashFunction H' = hash" "ht_shape H'"
    using inv by (simp_all add: ht_inv_def ht_shape_def fr)
  moreover have "\<forall>x\<in>occupied H'. HashCode (HtEntries H' ! x) = PhpValidateHash (hash (body_of H' x))"
    "\<forall>x\<in>occupied H'. \<forall>y\<in>occupied H'. x \<noteq> y \<longrightarrow> \<not> eq (body_of H' x) (body_of H' y)"
    using inv by (simp_all add: ht_inv_def es occ)
  ultimately show "ht_inv eq hash H'"
    using cnt free by (simp add: ht_inv_def)
  have "body_of H' ` occupied H' = body_of H ` (occupied H - {unat i})" by (simp add: es(2) occ)
  also have "\<dots> = stored H - {body_of H (unat i)}"
    using inj_on_image_set_diff [OF bodies_inj [OF inv], of "occupied H" "{unat i}"] x by (simp add: stored_def)
  finally show "stored H' = stored H - {body_of H (unat i)}" by (simp add: stored_def)
qed

lemma remove_correct:
  assumes inv: "ht_inv eq hash H"
  shows "\<exists>H' r. PhRemoveEntryHashtable H e = Some (H', r) \<and> ht_inv eq hash H' \<and>
    r = (\<exists>x\<in>stored H. eq x e) \<and> stored H' = {x \<in> stored H. \<not> eq x e} \<and> (\<not> r \<longrightarrow> H' = H) \<and>
    NextEntry H' = NextEntry H"
proof -
  let ?h = "PhpValidateHash (hash e)"
  let ?b = "PhpIndexFromHash H ?h"
  have eq: "EqualFunction H = eq" "HashFunction H = hash" and shape: "ht_shape H"
    using inv by (simp_all add: ht_inv_def)
  note b = index_in_range [OF inv, of ?h]
  obtain xs where xs: "chain (HtEntries H) (Buckets H ! unat ?b) xs" "distinct xs"
      "set xs = {x. x < unat (NextEntry H) \<and> used H x \<and> bucket_of H x = unat ?b}"
    using inv b by (auto simp: ht_inv_def buckets_rep_def)
  have code: "HashCode (HtEntries H ! x) = ?h" if "x \<in> occupied H" "eq (body_of H x) e" for x
    using inv that eq_hash [of "body_of H x" e] by (simp add: ht_inv_def)
  from remove_loop_chain [OF xs(1), of ?h e ULONG_MAX, unfolded eq] show ?thesis
  proof (elim disjE exE conjE)
    assume none: "remove_loop H ?h e ULONG_MAX (Buckets H ! unat ?b) = Some None"
      "\<forall>x\<in>set xs. \<not> (HashCode (HtEntries H ! x) = ?h \<and> eq (body_of H x) e)"
    have "\<not> eq y e" if y: "y \<in> stored H" for y
    proof
      assume e: "eq y e"
      obtain x where x: "x \<in> occupied H" "y = body_of H x" using y by (auto simp: stored_def)
      then have "x \<in> set xs" using code [OF x(1)] e by (simp add: xs(3) occupied_def)
      then show False using none(2) code [OF x(1)] x(2) e by blast
    qed
    then show ?thesis
      using none(1) b eq inv by (auto simp: PhRemoveEntryHashtable_def Let_def)
  next
    fix ys x zs q i
    assume h: "xs = ys @ x # zs" "remove_loop H ?h e ULONG_MAX (Buckets H ! unat ?b) = Some (Some (q, i))"
      "unat i = x" "i \<noteq> ULONG_MAX" "HashCode (HtEntries H ! x) = ?h" "eq (body_of H x) e"
      "if ys = [] then q = ULONG_MAX else unat q = last ys \<and> q \<noteq> ULONG_MAX"
    let ?H = "freed (unlink_entry H ?b q i) i"
    have R: "PhRemoveEntryHashtable H e = Some (?H, True)"
      using h(2) b eq by (simp add: PhRemoveEntryHashtable_def Let_def freed_def)
    have x: "x \<in> occupied H" using xs(3) h(1) by (auto simp: occupied_def)
    have only: "y = x" if "y \<in> occupied H" "eq (body_of H y) e" for y
      using inv x that h(6) eq_sym eq_trans unfolding ht_inv_def by blast
    have "eq (body_of H y) e \<longleftrightarrow> body_of H y = body_of H x" if "y \<in> occupied H" for y
      using only [OF that] h(6) by auto
    then have "stored H - {body_of H x} = {z \<in> stored H. \<not> eq z e}"
      by (auto simp: stored_def)
    moreover have "\<exists>z\<in>stored H. eq z e" using x h(6) by (auto simp: stored_def)
    moreover have "ht_inv eq hash ?H" "stored ?H = stored H - {body_of H x}"
      using freed_inv [OF inv b, of ys i zs q] xs h by simp_all
    ultimately show ?thesis using R by (simp add: ex_bool_eq freed_frame)
  qed
qed

end

section \<open>Enumeration\<close>

text \<open>All entries in the order in which repeated calls of \<open>PhEnumHashtable\<close> deliver them.\<close>

lemma enum_loop_key: "enum_loop H key n = Some (e, k) \<Longrightarrow> key < k \<and> k \<le> key + n"
  by (induction n arbitrary: key) (fastforce split: if_splits)+

function enum_from :: "'e hashtable \<Rightarrow> nat \<Rightarrow> 'e list" where
  "enum_from H key = (case PhEnumHashtable H key of None \<Rightarrow> [] | Some (e, k) \<Rightarrow> e # enum_from H k)"
  by pat_completeness auto
termination
  by (relation "measure (\<lambda>(H, key). unat (NextEntry H) - key)")
    (auto simp: PhEnumHashtable_def dest: enum_loop_key)

declare enum_from.simps [simp del]

lemma enum_loop_skip:
  "enum_loop H key n =
     (case filter (used H) [key..<key + n] of [] \<Rightarrow> None | x # xs \<Rightarrow> Some (body_of H x, Suc x))"
proof (induction n arbitrary: key)
  case (Suc n)
  have "[key..<key + Suc n] = key # [Suc key..<Suc key + n]" by (simp add: upt_conv_Cons)
  with Suc [of "Suc key"] show ?case by simp
qed simp

lemma filter_upt_Cons:
  assumes "filter P [a..<b] = x # xs"
  shows "filter P [Suc x..<b] = xs" and "a \<le> x" and "x < b"
proof -
  have "x \<in> set (filter P [a..<b])" using assms by simp
  then show ax: "a \<le> x" and xb: "x < b" by auto
  from \<open>x \<in> _\<close> have Px: "P x" by simp
  have "filter P [a..<b] = filter P [a..<x] @ filter P [x..<b]"
    using ax xb by (metis filter_append less_imp_le upt_add_eq_append le_add_diff_inverse)
  moreover have "filter P [a..<x] = []"
  proof (rule ccontr)
    assume "filter P [a..<x] \<noteq> []"
    then obtain y ys where y: "filter P [a..<x] = y # ys" by (cases "filter P [a..<x]") auto
    then have "y \<in> set (filter P [a..<x])" by simp
    then have "y < x" by simp
    with y calculation assms show False by simp
  qed
  ultimately have "filter P [x..<b] = x # xs" using assms by simp
  then show "filter P [Suc x..<b] = xs" using xb Px by (simp add: upt_conv_Cons)
qed

lemma enum_from_eq: "enum_from H key = map (body_of H) (filter (used H) [key..<unat (NextEntry H)])"
proof (induction H key rule: enum_from.induct)
  case (1 H key)
  let ?N = "unat (NextEntry H)"
  have E: "PhEnumHashtable H key =
      (case filter (used H) [key..<?N] of [] \<Rightarrow> None | x # xs \<Rightarrow> Some (body_of H x, Suc x))"
    by (cases "key \<le> ?N") (simp_all add: PhEnumHashtable_def enum_loop_skip)
  show ?case
  proof (cases "filter (used H) [key..<?N]")
    case Nil
    with E show ?thesis by (simp add: enum_from.simps)
  next
    case (Cons x xs)
    then have "PhEnumHashtable H key = Some (body_of H x, Suc x)" using E by simp
    moreover from this have "enum_from H (Suc x) = map (body_of H) xs"
      using 1 filter_upt_Cons(1) [OF Cons] by simp
    ultimately show ?thesis using Cons by (simp add: enum_from.simps [of H key])
  qed
qed

section \<open>The simple hashtable\<close>

definition PhHashInt64 :: "ulong64 \<Rightarrow> ulong" where
  "PhHashInt64 v =
     (let v = NOT v + push_bit 18 v;
          v = v XOR drop_bit 31 v;
          v = v * 21;
          v = v XOR drop_bit 11 v;
          v = v + push_bit 6 v;
          v = v XOR drop_bit 22 v
      in ucast v)"

type_synonym key_value = "ulong64 \<times> ulong64"

definition PhpSimpleHashtableEqualFunction :: "key_value \<Rightarrow> key_value \<Rightarrow> bool" where
  "PhpSimpleHashtableEqualFunction e1 e2 \<longleftrightarrow> fst e1 = fst e2"

definition PhpSimpleHashtableHashFunction :: "key_value \<Rightarrow> ulong" where
  "PhpSimpleHashtableHashFunction e = PhHashInt64 (fst e)"

definition PhCreateSimpleHashtable :: "ulong \<Rightarrow> (nat \<Rightarrow> key_value ht_entry) \<Rightarrow> key_value hashtable" where
  "PhCreateSimpleHashtable initialCapacity fresh =
     PhCreateHashtable PhpSimpleHashtableEqualFunction PhpSimpleHashtableHashFunction initialCapacity fresh"

text \<open>The result is the value, or \<open>NULL\<close> when the key was there already.\<close>

definition PhAddItemSimpleHashtable ::
    "key_value hashtable \<Rightarrow> ulong64 \<Rightarrow> ulong64 \<Rightarrow> (nat \<Rightarrow> key_value ht_entry) \<Rightarrow> (key_value hashtable \<times> ulong64) option" where
  "PhAddItemSimpleHashtable H key value fresh =
     map_option (\<lambda>(H, entry). (H, if entry \<noteq> None then value else 0)) (PhAddEntryHashtable H (key, value) fresh)"

text \<open>The value part of the entry that is looked up is uninitialised: \<open>junk\<close>.\<close>

definition PhFindItemSimpleHashtable :: "key_value hashtable \<Rightarrow> ulong64 \<Rightarrow> ulong64 \<Rightarrow> ulong64 option option" where
  "PhFindItemSimpleHashtable H key junk =
     map_option (map_option (\<lambda>i. snd (body_of H (unat i)))) (PhFindEntryHashtable H (key, junk))"

definition PhRemoveItemSimpleHashtable :: "key_value hashtable \<Rightarrow> ulong64 \<Rightarrow> ulong64 \<Rightarrow> (key_value hashtable \<times> bool) option" where
  "PhRemoveItemSimpleHashtable H key junk = PhRemoveEntryHashtable H (key, junk)"

interpretation simple_ht: ht_contract PhpSimpleHashtableEqualFunction PhpSimpleHashtableHashFunction
  by unfold_locales (auto simp: PhpSimpleHashtableEqualFunction_def PhpSimpleHashtableHashFunction_def)

section \<open>Dictionaries\<close>

text \<open>
  What a client of a dictionary relies on. \<open>content\<close> is the graph of the abstract map, \<open>room\<close> a lower
  bound on the number of additions that are still possible.
\<close>

datatype ('k, 'v) dict_op = DAdd 'k 'v | DRemove 'k

fun dict_spec :: "('k \<rightharpoonup> 'v) \<Rightarrow> ('k, 'v) dict_op \<Rightarrow> ('k \<rightharpoonup> 'v)" where
  "dict_spec M (DAdd k v) = (if M k = None then M(k \<mapsto> v) else M)"
| "dict_spec M (DRemove k) = M(k := None)"

fun dict_run :: "('m \<Rightarrow> ('k, 'v) dict_op \<Rightarrow> 'm option) \<Rightarrow> 'm \<Rightarrow> ('k, 'v) dict_op list \<Rightarrow> 'm option" where
  "dict_run step m [] = Some m"
| "dict_run step m (x # xs) = (case step m x of None \<Rightarrow> None | Some m' \<Rightarrow> dict_run step m' xs)"

locale dictionary =
  fixes inv :: "'m \<Rightarrow> bool" and room :: "'m \<Rightarrow> nat" and content :: "'m \<Rightarrow> ('k \<times> 'v) set"
    and step :: "'m \<Rightarrow> ('k, 'v) dict_op \<Rightarrow> 'm option" and find :: "'m \<Rightarrow> 'k \<Rightarrow> 'v option option"
  assumes step_law: "inv m \<Longrightarrow> 0 < room m \<Longrightarrow> content m = Map.graph M \<Longrightarrow>
      \<exists>m'. step m x = Some m' \<and> inv m' \<and> room m \<le> Suc (room m') \<and> content m' = Map.graph (dict_spec M x)"
    and find_law: "inv m \<Longrightarrow> content m = Map.graph M \<Longrightarrow> find m k = Some (M k)"
begin

lemma run_refines:
  "inv m \<Longrightarrow> length xs \<le> room m \<Longrightarrow> content m = Map.graph M \<Longrightarrow>
   \<exists>m'. dict_run step m xs = Some m' \<and> inv m' \<and> content m' = Map.graph (foldl dict_spec M xs) \<and>
     (\<forall>k. find m' k = Some (foldl dict_spec M xs k))"
proof (induction xs arbitrary: m M)
  case Nil
  then show ?case by (simp add: find_law)
next
  case (Cons x xs)
  then obtain m' where m': "step m x = Some m'" "inv m'" "room m \<le> Suc (room m')"
      "content m' = Map.graph (dict_spec M x)"
    using step_law [of m M x] by auto
  then have "length xs \<le> room m'" using Cons.prems(2) by simp
  from Cons.IH [OF m'(2) this m'(4)] m'(1) show ?case by simp
qed

end

text \<open>The simple hashtable is one; the fresh memory and the uninitialised value are arbitrary.\<close>

abbreviation simple_inv :: "key_value hashtable \<Rightarrow> bool" where
  "simple_inv \<equiv> ht_inv PhpSimpleHashtableEqualFunction PhpSimpleHashtableHashFunction"

fun simple_step ::
    "(nat \<Rightarrow> key_value ht_entry) \<Rightarrow> ulong64 \<Rightarrow> key_value hashtable \<Rightarrow> (ulong64, ulong64) dict_op \<Rightarrow> key_value hashtable option" where
  "simple_step fresh junk H (DAdd k v) = map_option fst (PhAddItemSimpleHashtable H k v fresh)"
| "simple_step fresh junk H (DRemove k) = map_option fst (PhRemoveItemSimpleHashtable H k junk)"

lemma graph_exists: "(\<exists>x\<in>Map.graph M. PhpSimpleHashtableEqualFunction x (k, v)) \<longleftrightarrow> M k \<noteq> None"
  by (auto simp: PhpSimpleHashtableEqualFunction_def Map.graph_def)

lemma graph_remove:
  "{x \<in> Map.graph M. \<not> PhpSimpleHashtableEqualFunction x (k, v)} = Map.graph (M(k := None))"
  by (auto simp: PhpSimpleHashtableEqualFunction_def Map.graph_def split: if_splits)

lemma graph_add: "M k = None \<Longrightarrow> insert (k, v) (Map.graph M) = Map.graph (M(k \<mapsto> v))"
  by (auto simp: Map.graph_def split: if_splits)

lemma PhFindItemSimpleHashtable_map:
  assumes inv: "simple_inv H" and M: "stored H = Map.graph M"
  shows "PhFindItemSimpleHashtable H k junk = Some (M k)"
proof -
  obtain r where r: "PhFindEntryHashtable H (k, junk) = Some r"
    "case r of None \<Rightarrow> (\<forall>x\<in>stored H. \<not> PhpSimpleHashtableEqualFunction x (k, junk))
     | Some i \<Rightarrow> unat i \<in> occupied H \<and> PhpSimpleHashtableEqualFunction (body_of H (unat i)) (k, junk)"
    using simple_ht.find_correct [OF inv] by blast
  show ?thesis
  proof (cases r)
    case None
    then have "M k = None" using r(2) graph_exists [of M k junk] M by auto
    with None r(1) show ?thesis by (simp add: PhFindItemSimpleHashtable_def)
  next
    case (Some i)
    then have "body_of H (unat i) \<in> Map.graph M" "fst (body_of H (unat i)) = k"
      using r(2) by (auto simp: M [symmetric] stored_def PhpSimpleHashtableEqualFunction_def)
    then have "M k = Some (snd (body_of H (unat i)))" by (auto simp: Map.graph_def)
    with Some r(1) show ?thesis by (simp add: PhFindItemSimpleHashtable_def)
  qed
qed

lemma simple_step_map:
  assumes inv: "simple_inv H" and room: "0 < 2 ^ 31 - unat (NextEntry H)" and M: "stored H = Map.graph M"
  shows "\<exists>H'. simple_step fresh junk H x = Some H' \<and> simple_inv H' \<and>
    2 ^ 31 - unat (NextEntry H) \<le> Suc (2 ^ 31 - unat (NextEntry H')) \<and> stored H' = Map.graph (dict_spec M x)"
proof (cases x)
  case (DAdd k v)
  have "unat (NextEntry H) < 2 ^ 31" using room by simp
  then obtain H' i added where H': "PhpAddEntryHashtable H (k, v) True fresh = Some (H', i, added)" "simple_inv H'"
      "unat (NextEntry H') \<le> Suc (unat (NextEntry H))"
      "if M k \<noteq> None then \<not> added \<and> H' = H else added \<and> stored H' = insert (k, v) (stored H)"
    using simple_ht.add_correct [OF inv, of "(k, v)" fresh] M graph_exists [of M k v] by auto
  then have "stored H' = Map.graph (dict_spec M x)"
    using DAdd M graph_add [of M k v] by (auto split: if_splits)
  with H' DAdd show ?thesis
    by (auto simp: PhAddItemSimpleHashtable_def PhAddEntryHashtable_def)
next
  case (DRemove k)
  obtain H' r where "PhRemoveEntryHashtable H (k, junk) = Some (H', r)" "simple_inv H'"
      "stored H' = {x \<in> stored H. \<not> PhpSimpleHashtableEqualFunction x (k, junk)}" "NextEntry H' = NextEntry H"
    using simple_ht.remove_correct [OF inv] by blast
  with DRemove M show ?thesis
    by (auto simp: PhRemoveItemSimpleHashtable_def graph_remove)
qed

interpretation simple_dict: dictionary simple_inv "\<lambda>H. 2 ^ 31 - unat (NextEntry H)" stored
    "simple_step fresh junk" "\<lambda>H k. PhFindItemSimpleHashtable H k junk'"
  by unfold_locales (use simple_step_map PhFindItemSimpleHashtable_map in \<open>blast+\<close>)

section \<open>Properties\<close>

text \<open>
  C3. The simple hashtable implements a finite map. From \<open>PhCreateSimpleHashtable\<close> with any capacity
  up to \<open>2 ^ 31\<close>, every sequence of at most \<open>2 ^ 31\<close> additions and removals returns (no chain walk
  runs forever, no index leaves its array), and afterwards \<open>PhFindItemSimpleHashtable\<close> gives for each
  key exactly the value of the map obtained by the same sequence, where an addition keeps the value
  of a key that is present.
\<close>

theorem PhSimpleHashtable_refines_map:
  assumes "unat capacity \<le> 2 ^ 31" and "length ops \<le> 2 ^ 31"
  shows "\<exists>H. dict_run (simple_step fresh junk) (PhCreateSimpleHashtable capacity fresh0) ops = Some H \<and>
    (\<forall>k. PhFindItemSimpleHashtable H k junk' = Some (foldl dict_spec Map.empty ops k))"
proof -
  let ?H = "PhCreateSimpleHashtable capacity fresh0"
  have "simple_inv ?H" "stored ?H = Map.graph Map.empty"
    using PhCreateHashtable_inv [OF assms(1)] by (simp_all add: PhCreateSimpleHashtable_def)
  moreover have "NextEntry ?H = 0"
    by (simp add: PhCreateSimpleHashtable_def PhCreateHashtable_def Let_def)
  ultimately show ?thesis
    using simple_dict.run_refines [of ?H ops Map.empty fresh junk junk'] assms(2) by auto
qed

theorem PhSimpleHashtable_refines_map_witness:
  "\<exists>H. dict_run (simple_step (\<lambda>_. \<lparr>HashCode = 7, Next = 7, EntryBody = (7, 7)\<rparr>) 9)
       (PhCreateSimpleHashtable 1 (\<lambda>_. \<lparr>HashCode = 5, Next = 5, EntryBody = (5, 5)\<rparr>))
       [DAdd 10 100, DAdd 20 200, DAdd 10 300, DRemove 20, DAdd 30 400] = Some H \<and>
     PhFindItemSimpleHashtable H 10 8 = Some (Some 100) \<and> PhFindItemSimpleHashtable H 20 8 = Some None"
  using PhSimpleHashtable_refines_map
    [of 1 "[DAdd 10 100, DAdd 20 200, DAdd 10 300, DRemove 20, DAdd 30 400]"
      "\<lambda>_. \<lparr>HashCode = 7, Next = 7, EntryBody = (7, 7)\<rparr>" 9 "\<lambda>_. \<lparr>HashCode = 5, Next = 5, EntryBody = (5, 5)\<rparr>" 8]
  by auto

text \<open>
  \<open>PhFindEntryHashtable\<close>, for any comparison and hash functions that keep their contract: the walk
  ends, and it returns \<open>NULL\<close> exactly when no stored entry is equal, and otherwise a stored entry that
  is equal to the one looked up.
\<close>

theorem PhFindEntryHashtable_correct:
  assumes "ht_contract eq hash" and "ht_inv eq hash H"
  shows "\<exists>r. PhFindEntryHashtable H e = Some r \<and> (r = None \<longleftrightarrow> (\<forall>x\<in>stored H. \<not> eq x e)) \<and>
    (\<forall>i. r = Some i \<longrightarrow> EntryBody (HtEntries H ! unat i) \<in> stored H \<and> eq (EntryBody (HtEntries H ! unat i)) e)"
proof -
  obtain r where r: "PhFindEntryHashtable H e = Some r"
    "case r of None \<Rightarrow> (\<forall>x\<in>stored H. \<not> eq x e)
     | Some i \<Rightarrow> unat i \<in> occupied H \<and> eq (EntryBody (HtEntries H ! unat i)) e"
    using ht_contract.find_correct [OF assms] by blast
  then show ?thesis by (cases r) (auto simp: stored_def)
qed

text \<open>
  C25. Adding an entry: \<open>PhAddEntryHashtableEx\<close> keeps the invariant (bucket chains, free chain, count)
  and either returns the equal entry that is stored and changes nothing, or stores the entry and
  returns it, whether it reuses a freed entry, takes the next one or first doubles the table. This is for a
  comparison that is an equivalence and a hash function that respects it, and a table that has used fewer than \<open>2 ^ 31\<close> entries.
\<close>

theorem PhAddEntryHashtableEx_correct:
  assumes "ht_contract eq hash" and "ht_inv eq hash H" and "unat (NextEntry H) < 2 ^ 31"
  shows "\<exists>H' i added. PhAddEntryHashtableEx H e fresh = Some (H', i, added) \<and> ht_inv eq hash H' \<and>
    EntryBody (HtEntries H' ! unat i) \<in> stored H' \<and> eq (EntryBody (HtEntries H' ! unat i)) e \<and>
    added = (\<forall>x\<in>stored H. \<not> eq x e) \<and> (if added then stored H' = insert e (stored H) else H' = H)"
proof -
  obtain H' i added where "PhpAddEntryHashtable H e True fresh = Some (H', i, added)" "ht_inv eq hash H'"
      "unat i \<in> occupied H'" "eq (EntryBody (HtEntries H' ! unat i)) e"
      "if \<exists>x\<in>stored H. eq x e then \<not> added \<and> H' = H
       else added \<and> stored H' = insert e (stored H) \<and> EntryBody (HtEntries H' ! unat i) = e"
    using ht_contract.add_correct [OF assms] by blast
  then show ?thesis
    by (auto simp: PhAddEntryHashtableEx_def stored_def split: if_splits)
qed

text \<open>
  Removing an entry: \<open>PhRemoveEntryHashtable\<close> keeps the invariant, reports whether an equal entry
  was stored, and leaves exactly the entries that are not equal to the given one.
\<close>

theorem PhRemoveEntryHashtable_correct:
  assumes "ht_contract eq hash" and "ht_inv eq hash H"
  shows "\<exists>H'. PhRemoveEntryHashtable H e = Some (H', \<exists>x\<in>stored H. eq x e) \<and> ht_inv eq hash H' \<and>
    stored H' = {x \<in> stored H. \<not> eq x e}"
  using ht_contract.remove_correct [OF assms, of e] by auto

text \<open>
  Enumerating with \<open>PhEnumHashtable\<close> from key 0 until it returns \<open>FALSE\<close> delivers every stored entry
  once, \<open>Count\<close> of them.
\<close>

theorem PhEnumHashtable_complete:
  assumes "ht_contract eq hash" and "ht_inv eq hash H"
  shows "set (enum_from H 0) = stored H \<and> distinct (enum_from H 0) \<and> length (enum_from H 0) = unat (HtCount H)"
proof -
  let ?xs = "filter (used H) [0..<unat (NextEntry H)]"
  have xs: "set ?xs = occupied H" "distinct ?xs" by (auto simp: occupied_def)
  then have "length ?xs = unat (HtCount H)"
    using assms(2) distinct_card [OF xs(2)] by (simp add: ht_inv_def)
  moreover have "distinct (map (body_of H) ?xs)"
    using ht_contract.bodies_inj [OF assms] xs by (simp add: distinct_map)
  moreover have "set (map (body_of H) ?xs) = stored H"
    unfolding set_map xs(1) by (simp add: stored_def)
  ultimately show ?thesis
    unfolding enum_from_eq by simp
qed

subsection \<open>Witnesses\<close>

definition one_entry_table :: "key_value hashtable" where
  "one_entry_table = PhCreateSimpleHashtable 1 (\<lambda>_. \<lparr>HashCode = 5, Next = 5, EntryBody = (5, 5)\<rparr>)"

lemma one_entry_table_facts:
  "simple_inv one_entry_table" "stored one_entry_table = {}" "NextEntry one_entry_table = 0"
proof -
  show "simple_inv one_entry_table" "stored one_entry_table = {}"
    using PhCreateHashtable_inv [of 1] by (simp_all add: one_entry_table_def PhCreateSimpleHashtable_def)
  show "NextEntry one_entry_table = 0"
    by (simp add: one_entry_table_def PhCreateSimpleHashtable_def PhCreateHashtable_def Let_def)
qed

theorem PhFindEntryHashtable_correct_witness:
  "PhFindEntryHashtable one_entry_table (3, 0) = Some None"
  using PhFindEntryHashtable_correct [OF simple_ht.ht_contract_axioms one_entry_table_facts(1), of "(3, 0)"]
    one_entry_table_facts(2) by auto

theorem PhAddEntryHashtableEx_correct_witness:
  "\<exists>H' i. PhAddEntryHashtableEx one_entry_table (3, 4) (\<lambda>_. \<lparr>HashCode = 6, Next = 6, EntryBody = (6, 6)\<rparr>)
      = Some (H', i, True) \<and> stored H' = {(3, 4)}"
  using PhAddEntryHashtableEx_correct [OF simple_ht.ht_contract_axioms one_entry_table_facts(1), of "(3, 4)"]
    one_entry_table_facts(2,3) by fastforce

theorem PhRemoveEntryHashtable_correct_witness:
  "\<exists>H'. PhRemoveEntryHashtable one_entry_table (3, 4) = Some (H', False) \<and> stored H' = {}"
  using PhRemoveEntryHashtable_correct [OF simple_ht.ht_contract_axioms one_entry_table_facts(1), of "(3, 4)"]
    one_entry_table_facts(2) by auto

theorem PhEnumHashtable_complete_witness: "enum_from one_entry_table 0 = []"
  using PhEnumHashtable_complete [OF simple_ht.ht_contract_axioms one_entry_table_facts(1)]
    one_entry_table_facts(2) by simp

end
