(* ===== verification/PhSequence.thy ===== *)
theory PhSequence
  imports PhPrelude
begin

text \<open>
  The growable containers of \<open>src/phlib/basesup.c\<close>: the item array (\<open>PH_ARRAY\<close>, sizes of type
  \<open>SIZE_T\<close>) and the pointer-sized list (\<open>PH_LIST\<close>, sizes of type \<open>ULONG\<close>). A storage block is the list
  of its cells, \<open>None\<close> for a cell never written. An operation returns \<open>None\<close> when the C code would
  access a cell outside the block.

  The interfaces \<open>appendable\<close> and \<open>removable\<close> state what the clients of these containers rely on;
  they are interpreted on the models of both containers here, and on the string and byte builders in
  the theory that models them.
\<close>

section \<open>Storage blocks\<close>

text \<open>
  \<open>PhAllocate\<close> returns uninitialised cells, \<open>PhReAllocate\<close> keeps the cells that fit. Both raise an
  exception inside the heap when memory is exhausted, which the callers do not handle: the model is
  of the runs in which they return.
\<close>

definition PhAllocate :: "nat \<Rightarrow> 'a option list" where
  "PhAllocate n = replicate n None"

definition PhReAllocate :: "'a option list \<Rightarrow> nat \<Rightarrow> 'a option list" where
  "PhReAllocate items n = take n items @ replicate (n - length items) None"

definition memmove :: "'a list \<Rightarrow> nat \<Rightarrow> nat \<Rightarrow> nat \<Rightarrow> 'a list option" where
  "memmove m dst src n = Option.bind (mem_read m src n) (mem_write m dst)"

lemma PhReAllocate_length [simp]: "length (PhReAllocate items n) = n"
  by (simp add: PhReAllocate_def)

lemma PhReAllocate_take: "k \<le> n \<Longrightarrow> k \<le> length items \<Longrightarrow> take k (PhReAllocate items n) = take k items"
  by (simp add: PhReAllocate_def)

lemma take_mem_write_end:
  assumes "mem_write m off d = Some m'"
  shows "take (off + length d) m' = take off m @ d"
  using assms by (auto simp: mem_write_def split: if_splits)

lemma mem_write_in_bounds:
  "off + length d \<le> length m \<Longrightarrow> \<exists>m'. mem_write m off d = Some m' \<and> length m' = length m"
  by (simp add: mem_write_def)

lemma memmove_down:
  assumes "i + n \<le> c" "c \<le> length m"
  shows "\<exists>m'. memmove m i (i + n) (c - i - n) = Some m' \<and> length m' = length m
           \<and> take (c - n) m' = take i m @ drop (i + n) (take c m)"
proof -
  let ?d = "take (c - i - n) (drop (i + n) m)"
  have d: "?d = drop (i + n) (take c m)" and len: "length ?d = c - i - n"
    using assms by (simp_all add: drop_take diff_diff_left)
  then have "i + length ?d \<le> length m"
    using assms by linarith
  then obtain m' where m': "mem_write m i ?d = Some m'" "length m' = length m"
    using mem_write_in_bounds by blast
  moreover have "i + length ?d = c - n"
    using len assms by simp
  ultimately have "take (c - n) m' = take i m @ ?d"
    using take_mem_write_end by metis
  moreover have "memmove m i (i + n) (c - i - n) = Some m'"
    using m' assms by (simp add: memmove_def mem_read_def)
  ultimately show ?thesis using m' d by auto
qed

lemma memmove_up:
  assumes "i \<le> c" "c + n \<le> length m"
  shows "\<exists>m'. memmove m (i + n) i (c - i) = Some m' \<and> length m' = length m
           \<and> take i m' = take i m \<and> drop (i + n) (take (c + n) m') = drop i (take c m)"
proof -
  let ?d = "take (c - i) (drop i m)"
  have d: "?d = drop i (take c m)" and len: "length ?d = c - i"
    using assms by (simp_all add: drop_take)
  then have "i + n + length ?d \<le> length m"
    using assms by linarith
  then obtain m' where m': "mem_write m (i + n) ?d = Some m'" "length m' = length m"
    using mem_write_in_bounds by blast
  have "take (c + n) m' = take (i + n) m @ ?d"
    using take_mem_write_end [OF m'(1)] len assms by (simp add: add.commute add.left_commute)
  then have "drop (i + n) (take (c + n) m') = ?d"
    using assms by simp
  moreover have "take i m' = take i m"
    using m'(1) assms by (auto simp: mem_write_def split: if_splits)
  moreover have "memmove m (i + n) i (c - i) = Some m'"
    using m' assms by (simp add: memmove_def mem_read_def)
  ultimately show ?thesis using m' d by auto
qed

lemma memmove_0: "memmove m dst src 0 = Some m' \<Longrightarrow> m' = m"
  by (auto simp: memmove_def mem_read_def mem_write_def split: if_splits)

section \<open>Arrays\<close>

record 'a PH_ARRAY =
  arr_Count :: ulong64
  arr_AllocatedCount :: ulong64
  arr_ItemSize :: ulong64
  arr_Items :: "'a option list"

text \<open>
  The size of a block is computed in bytes, modulo \<open>2 ^ 64\<close>: this is the number of whole items that
  the block then holds.
\<close>

definition item_cells :: "ulong64 \<Rightarrow> ulong64 \<Rightarrow> nat" where
  "item_cells count itemSize = unat (count * itemSize) div unat itemSize"

definition PhInitializeArray :: "ulong64 \<Rightarrow> ulong64 \<Rightarrow> 'a PH_ARRAY" where
  "PhInitializeArray itemSize initialCapacity =
     (let initialCapacity = (if initialCapacity = 0 then 1 else initialCapacity)
      in \<lparr> arr_Count = 0, arr_AllocatedCount = initialCapacity, arr_ItemSize = itemSize,
           arr_Items = PhAllocate (item_cells initialCapacity itemSize) \<rparr>)"

definition PhFinalArrayItems :: "'a PH_ARRAY \<Rightarrow> 'a option list" where
  "PhFinalArrayItems a = arr_Items a"

definition array_realloc :: "'a PH_ARRAY \<Rightarrow> ulong64 \<Rightarrow> 'a PH_ARRAY" where
  "array_realloc a n =
     a\<lparr>arr_AllocatedCount := n, arr_Items := PhReAllocate (arr_Items a) (item_cells n (arr_ItemSize a))\<rparr>"

definition PhResizeArray :: "'a PH_ARRAY \<Rightarrow> ulong64 \<Rightarrow> ntstatus + 'a PH_ARRAY" where
  "PhResizeArray a newCapacity =
     (if arr_Count a > newCapacity then Inl STATUS_INVALID_PARAMETER_2
      else Inr (array_realloc a newCapacity))"

definition PhAddItemArray :: "'a PH_ARRAY \<Rightarrow> 'a \<Rightarrow> 'a PH_ARRAY option" where
  "PhAddItemArray a item =
     (let a = (if arr_Count a = arr_AllocatedCount a then array_realloc a (arr_AllocatedCount a * 2) else a)
      in Option.bind (mem_write (arr_Items a) (unat (arr_Count a)) [Some item])
           (\<lambda>m. Some (a\<lparr>arr_Items := m, arr_Count := arr_Count a + 1\<rparr>)))"

definition array_reserve :: "'a PH_ARRAY \<Rightarrow> ulong64 \<Rightarrow> 'a PH_ARRAY" where
  "array_reserve a count =
     (if arr_AllocatedCount a < arr_Count a + count then
        let n = arr_AllocatedCount a * 2;
            n = (if n < arr_Count a + count then arr_Count a + count else n)
        in array_realloc a n
      else a)"

definition PhAddItemsArray :: "'a PH_ARRAY \<Rightarrow> 'a list \<Rightarrow> 'a PH_ARRAY option" where
  "PhAddItemsArray a items =
     (let count = of_nat (length items);
          a = array_reserve a count
      in Option.bind (mem_write (arr_Items a) (unat (arr_Count a)) (map Some items))
           (\<lambda>m. Some (a\<lparr>arr_Items := m, arr_Count := arr_Count a + count\<rparr>)))"

definition PhClearArray :: "'a PH_ARRAY \<Rightarrow> 'a PH_ARRAY" where
  "PhClearArray a = a\<lparr>arr_Count := 0\<rparr>"

definition PhRemoveItemsArray :: "'a PH_ARRAY \<Rightarrow> ulong64 \<Rightarrow> ulong64 \<Rightarrow> 'a PH_ARRAY option" where
  "PhRemoveItemsArray a startIndex count =
     Option.bind
       (memmove (arr_Items a) (unat startIndex) (unat (startIndex + count))
          (item_cells (arr_Count a - startIndex - count) (arr_ItemSize a)))
       (\<lambda>m. Some (a\<lparr>arr_Items := m, arr_Count := arr_Count a - count\<rparr>))"

definition PhRemoveItemArray :: "'a PH_ARRAY \<Rightarrow> ulong64 \<Rightarrow> 'a PH_ARRAY option" where
  "PhRemoveItemArray a index = PhRemoveItemsArray a index 1"

section \<open>Lists\<close>

record 'a PH_LIST =
  list_Count :: ulong
  list_AllocatedCount :: ulong
  list_Items :: "'a option list"

text \<open>
  Here the block size is the product of a \<open>ULONG\<close> and \<open>sizeof(PVOID)\<close>, a \<open>SIZE_T\<close>: it does not wrap,
  so the block has exactly \<open>AllocatedCount\<close> cells. The arithmetic on the counts is that of \<open>ULONG\<close>.
\<close>

definition PhCreateList :: "ulong \<Rightarrow> 'a PH_LIST" where
  "PhCreateList initialCapacity =
     (let initialCapacity = (if initialCapacity = 0 then 1 else initialCapacity)
      in \<lparr> list_Count = 0, list_AllocatedCount = initialCapacity,
           list_Items = PhAllocate (unat initialCapacity) \<rparr>)"

definition list_realloc :: "'a PH_LIST \<Rightarrow> ulong \<Rightarrow> 'a PH_LIST" where
  "list_realloc l n = l\<lparr>list_AllocatedCount := n, list_Items := PhReAllocate (list_Items l) (unat n)\<rparr>"

definition PhResizeList :: "'a PH_LIST \<Rightarrow> ulong \<Rightarrow> ntstatus + 'a PH_LIST" where
  "PhResizeList l newCapacity =
     (if list_Count l > newCapacity then Inl STATUS_INVALID_PARAMETER_2
      else Inr (list_realloc l newCapacity))"

definition PhAddItemList :: "'a PH_LIST \<Rightarrow> 'a \<Rightarrow> 'a PH_LIST option" where
  "PhAddItemList l item =
     (let l = (if list_Count l = list_AllocatedCount l then list_realloc l (list_AllocatedCount l * 2) else l)
      in Option.bind (mem_write (list_Items l) (unat (list_Count l)) [Some item])
           (\<lambda>m. Some (l\<lparr>list_Items := m, list_Count := list_Count l + 1\<rparr>)))"

definition list_reserve :: "'a PH_LIST \<Rightarrow> ulong \<Rightarrow> 'a PH_LIST" where
  "list_reserve l count =
     (if list_AllocatedCount l < list_Count l + count then
        let n = list_AllocatedCount l * 2;
            n = (if n < list_Count l + count then list_Count l + count else n)
        in list_realloc l n
      else l)"

definition PhAddItemsList :: "'a PH_LIST \<Rightarrow> 'a list \<Rightarrow> 'a PH_LIST option" where
  "PhAddItemsList l items =
     (let count = of_nat (length items);
          l = list_reserve l count
      in Option.bind (mem_write (list_Items l) (unat (list_Count l)) (map Some items))
           (\<lambda>m. Some (l\<lparr>list_Items := m, list_Count := list_Count l + count\<rparr>)))"

definition PhClearList :: "'a PH_LIST \<Rightarrow> 'a PH_LIST" where
  "PhClearList l = l\<lparr>list_Count := 0\<rparr>"

fun find_item_loop :: "'a option list \<Rightarrow> 'a \<Rightarrow> nat \<Rightarrow> nat \<Rightarrow> ulong" where
  "find_item_loop items item i 0 = ULONG_MAX"
| "find_item_loop items item i (Suc n) =
     (if items ! i = Some item then of_nat i else find_item_loop items item (Suc i) n)"

definition PhFindItemList :: "'a PH_LIST \<Rightarrow> 'a \<Rightarrow> ulong" where
  "PhFindItemList l item = find_item_loop (list_Items l) item 0 (unat (list_Count l))"

definition PhInsertItemsList :: "'a PH_LIST \<Rightarrow> ulong \<Rightarrow> 'a list \<Rightarrow> 'a PH_LIST option" where
  "PhInsertItemsList l index items =
     (let count = of_nat (length items);
          l = list_reserve l count
      in Option.bind
           (if index < list_Count l
            then memmove (list_Items l) (unat (index + count)) (unat index) (unat (list_Count l - index))
            else Some (list_Items l))
           (\<lambda>m. Option.bind (mem_write m (unat index) (map Some items))
              (\<lambda>m. Some (l\<lparr>list_Items := m, list_Count := list_Count l + count\<rparr>))))"

definition PhInsertItemList :: "'a PH_LIST \<Rightarrow> ulong \<Rightarrow> 'a \<Rightarrow> 'a PH_LIST option" where
  "PhInsertItemList l index item = PhInsertItemsList l index [item]"

definition PhRemoveItemsList :: "'a PH_LIST \<Rightarrow> ulong \<Rightarrow> ulong \<Rightarrow> 'a PH_LIST option" where
  "PhRemoveItemsList l startIndex count =
     Option.bind
       (memmove (list_Items l) (unat startIndex) (unat (startIndex + count))
          (unat (list_Count l - startIndex - count)))
       (\<lambda>m. Some (l\<lparr>list_Items := m, list_Count := list_Count l - count\<rparr>))"

definition PhRemoveItemList :: "'a PH_LIST \<Rightarrow> ulong \<Rightarrow> 'a PH_LIST option" where
  "PhRemoveItemList l index = PhRemoveItemsList l index 1"

section \<open>Interfaces\<close>

text \<open>
  What a client of a growable container relies on: appending succeeds and extends the contents, as
  long as the total length stays below the container's bound.
\<close>

primrec append_all :: "('s \<Rightarrow> 'a list \<Rightarrow> 's option) \<Rightarrow> 's \<Rightarrow> 'a list list \<Rightarrow> 's option" where
  "append_all app s [] = Some s"
| "append_all app s (xs # xss) = Option.bind (app s xs) (\<lambda>s'. append_all app s' xss)"

locale appendable =
  fixes inv :: "'s \<Rightarrow> bool"
    and contents :: "'s \<Rightarrow> 'a list"
    and append_items :: "'s \<Rightarrow> 'a list \<Rightarrow> 's option"
    and bound :: nat
  assumes append_items:
    "inv s \<Longrightarrow> length (contents s) + length xs < bound \<Longrightarrow>
       \<exists>s'. append_items s xs = Some s' \<and> inv s' \<and> contents s' = contents s @ xs"
begin

lemma append_all_concat:
  assumes "inv s" "length (contents s @ concat xss) < bound"
  shows "\<exists>s'. append_all append_items s xss = Some s' \<and> inv s' \<and> contents s' = contents s @ concat xss"
  using assms
proof (induction xss arbitrary: s)
  case Nil
  then show ?case by simp
next
  case (Cons xs xss)
  then obtain s1 where s1: "append_items s xs = Some s1" "inv s1" "contents s1 = contents s @ xs"
    using append_items [of s xs] by auto
  with Cons.prems have "length (contents s1 @ concat xss) < bound" by simp
  from Cons.IH [OF s1(2) this] s1 show ?case by simp
qed

end

datatype 'a edit = Append "'a list" | Remove nat nat

fun edit_spec :: "'a list \<Rightarrow> 'a edit \<Rightarrow> 'a list option" where
  "edit_spec xs (Append ys) = Some (xs @ ys)"
| "edit_spec xs (Remove i n) = (if i + n \<le> length xs then Some (take i xs @ drop (i + n) xs) else None)"

primrec edits_spec :: "nat \<Rightarrow> 'a list \<Rightarrow> 'a edit list \<Rightarrow> 'a list option" where
  "edits_spec bound xs [] = Some xs"
| "edits_spec bound xs (e # es) =
     Option.bind (edit_spec xs e) (\<lambda>ys. if length ys < bound then edits_spec bound ys es else None)"

fun apply_edit ::
  "('s \<Rightarrow> 'a list \<Rightarrow> 's option) \<Rightarrow> ('s \<Rightarrow> nat \<Rightarrow> nat \<Rightarrow> 's option) \<Rightarrow> 's \<Rightarrow> 'a edit \<Rightarrow> 's option" where
  "apply_edit app rem s (Append ys) = app s ys"
| "apply_edit app rem s (Remove i n) = rem s i n"

primrec apply_edits ::
  "('s \<Rightarrow> 'a list \<Rightarrow> 's option) \<Rightarrow> ('s \<Rightarrow> nat \<Rightarrow> nat \<Rightarrow> 's option) \<Rightarrow> 's \<Rightarrow> 'a edit list \<Rightarrow> 's option" where
  "apply_edits app rem s [] = Some s"
| "apply_edits app rem s (e # es) = Option.bind (apply_edit app rem s e) (\<lambda>s'. apply_edits app rem s' es)"

locale removable = appendable inv contents append_items bound
  for inv :: "'s \<Rightarrow> bool" and contents :: "'s \<Rightarrow> 'a list" and append_items bound +
  fixes remove_items :: "'s \<Rightarrow> nat \<Rightarrow> nat \<Rightarrow> 's option"
  assumes remove_items:
    "inv s \<Longrightarrow> i + n \<le> length (contents s) \<Longrightarrow>
       \<exists>s'. remove_items s i n = Some s' \<and> inv s'
         \<and> contents s' = take i (contents s) @ drop (i + n) (contents s)"
begin

lemma apply_edit_refines:
  assumes "inv s" "edit_spec (contents s) e = Some ys" "length ys < bound"
  shows "\<exists>s'. apply_edit append_items remove_items s e = Some s' \<and> inv s' \<and> contents s' = ys"
  using assms append_items [of s] remove_items [of s]
  by (cases e) (auto split: if_splits)

lemma apply_edits_refine:
  assumes "inv s" "edits_spec bound (contents s) es = Some ys"
  shows "\<exists>s'. apply_edits append_items remove_items s es = Some s' \<and> inv s' \<and> contents s' = ys"
  using assms
proof (induction es arbitrary: s)
  case Nil
  then show ?case by simp
next
  case (Cons e es)
  then obtain zs where zs: "edit_spec (contents s) e = Some zs" "length zs < bound"
    "edits_spec bound zs es = Some ys"
    by (auto split: bind_splits if_splits)
  from apply_edit_refines [OF Cons.prems(1) zs(1,2)] obtain s1 where
    s1: "apply_edit append_items remove_items s e = Some s1" "inv s1" "contents s1 = zs" by blast
  from Cons.IH [OF s1(2)] zs(3) s1 show ?case by simp
qed

end

section \<open>Blocks that hold a sequence\<close>

text \<open>
  \<open>holds c m xs\<close>: the first \<open>c\<close> cells of the block \<open>m\<close> are initialised and are the items \<open>xs\<close>. The four
  lemmas are the four ways in which both containers touch their block.
\<close>

definition holds :: "nat \<Rightarrow> 'a option list \<Rightarrow> 'a list \<Rightarrow> bool" where
  "holds c m xs \<longleftrightarrow> c \<le> length m \<and> take c m = map Some xs"

lemma holds_length: "holds c m xs \<Longrightarrow> length xs = c"
  by (metis holds_def length_map length_take min_absorb2)

lemma holds_contents: "holds c m xs \<Longrightarrow> map the (take c m) = xs"
  by (simp add: holds_def comp_def)

lemma holds_nth: "holds c m xs \<Longrightarrow> i < c \<Longrightarrow> m ! i = Some (xs ! i)"
  by (metis holds_def holds_length nth_map nth_take)

lemma holds_realloc: "holds c m xs \<Longrightarrow> c \<le> n \<Longrightarrow> holds c (PhReAllocate m n) xs"
  by (simp add: holds_def PhReAllocate_take)

lemma holds_append:
  assumes "holds c m xs" "c + length ys \<le> length m"
  shows "\<exists>m'. mem_write m c (map Some ys) = Some m' \<and> length m' = length m
           \<and> holds (c + length ys) m' (xs @ ys)"
proof -
  obtain m' where m': "mem_write m c (map Some ys) = Some m'" "length m' = length m"
    using mem_write_in_bounds [of c "map Some ys" m] assms by auto
  with take_mem_write_end [OF m'(1)] assms have "holds (c + length ys) m' (xs @ ys)"
    by (simp add: holds_def)
  with m' show ?thesis by blast
qed

lemma holds_remove:
  assumes "holds c m xs" "i + n \<le> c"
  shows "\<exists>m'. memmove m i (i + n) (c - i - n) = Some m' \<and> length m' = length m
           \<and> holds (c - n) m' (take i xs @ drop (i + n) xs)"
proof -
  have c: "c \<le> length m" "take c m = map Some xs"
    using assms by (auto simp: holds_def)
  obtain m' where m': "memmove m i (i + n) (c - i - n) = Some m'" "length m' = length m"
    "take (c - n) m' = take i m @ drop (i + n) (take c m)"
    using memmove_down [OF assms(2) c(1)] by blast
  have "take i m = take i (take c m)"
    using assms(2) by simp
  then have "take (c - n) m' = map Some (take i xs @ drop (i + n) xs)"
    using m'(3) c(2) by (simp add: take_map drop_map)
  with m' c(1) show ?thesis by (simp add: holds_def)
qed

lemma holds_insert:
  assumes "holds c m xs" "i \<le> c" "c + length ys \<le> length m"
  shows "\<exists>m1 m2. memmove m (i + length ys) i (c - i) = Some m1
           \<and> mem_write m1 i (map Some ys) = Some m2 \<and> length m1 = length m \<and> length m2 = length m
           \<and> holds (c + length ys) m2 (take i xs @ ys @ drop i xs)"
proof -
  let ?n = "length ys"
  have c: "take c m = map Some xs"
    using assms by (auto simp: holds_def)
  obtain m1 where m1: "memmove m (i + ?n) i (c - i) = Some m1" "length m1 = length m"
    "take i m1 = take i m" "drop (i + ?n) (take (c + ?n) m1) = drop i (take c m)"
    using memmove_up [OF assms(2,3)] by blast
  obtain m2 where m2: "mem_write m1 i (map Some ys) = Some m2" "length m2 = length m1"
    using mem_write_in_bounds [of i "map Some ys" m1] assms m1(2) by auto
  have m2_eq: "m2 = take i m1 @ map Some ys @ drop (i + ?n) m1"
    using m2(1) by (auto simp: mem_write_def split: if_splits)
  have "take i m = take i (take c m)"
    using assms(2) by simp
  then have "take (c + ?n) m2 = take i (take c m) @ map Some ys @ drop i (take c m)"
    using m2_eq m1(2,3,4) assms by (simp add: drop_take)
  then have "take (c + ?n) m2 = map Some (take i xs @ ys @ drop i xs)"
    using c by (simp add: take_map drop_map)
  with m1 m2 assms(3) show ?thesis by (auto simp: holds_def)
qed

lemma grown_capacity:
  fixes a c n :: "'a::len word"
  assumes "unat c + unat n < 2 ^ LENGTH('a)" "a < c + n"
  defines "k \<equiv> (if a * 2 < c + n then c + n else a * 2)"
  shows "unat c + unat n \<le> unat k" and "unat k \<le> 2 * (unat c + unat n)"
proof -
  have cn: "unat (c + n) = unat c + unat n"
    using assms(1) by (rule unat_plus_no_overflow)
  have "unat (a * 2) \<le> 2 * unat a"
    by (metis mult.commute mult_2 unat_word_ariths(1) mod_less_eq_dividend mult_2_right)
  with cn assms(2) show "unat c + unat n \<le> unat k" "unat k \<le> 2 * (unat c + unat n)"
    by (auto simp: k_def word_less_nat_alt)
qed

lemma unat_of_nat_le:
  "n \<le> unat (c :: 'a::len word) \<Longrightarrow> unat (of_nat n :: 'a word) = n"
  by (metis le_less_trans mod_less unat_of_nat unsigned_less)

lemma remove_range:
  fixes c :: "'a::len word"
  assumes "i + n \<le> unat c"
  shows "unat (of_nat i + of_nat n :: 'a word) = i + n"
    and "unat (c - of_nat i - of_nat n) = unat c - i - n"
    and "unat (c - of_nat n) = unat c - n"
proof -
  have i: "unat (of_nat i :: 'a word) = i" and n: "unat (of_nat n :: 'a word) = n"
    and inn: "unat (of_nat (i + n) :: 'a word) = i + n"
    using assms by (simp_all add: unat_of_nat_le [of _ c] del: of_nat_add)
  show "unat (of_nat i + of_nat n :: 'a word) = i + n"
    using inn by simp
  have le: "(of_nat (i + n) :: 'a word) \<le> c" "(of_nat n :: 'a word) \<le> c"
    using inn n assms by (simp_all only: word_le_nat_alt)
  show "unat (c - of_nat n) = unat c - n"
    using n unat_sub [OF le(2)] by simp
  have "unat (c - of_nat (i + n)) = unat c - (i + n)"
    using inn unat_sub [OF le(1)] by (simp only:)
  then show "unat (c - of_nat i - of_nat n) = unat c - i - n"
    by (simp add: diff_diff_eq)
qed

section \<open>Invariant and contents of a list\<close>

definition list_inv :: "'a PH_LIST \<Rightarrow> bool" where
  "list_inv l \<longleftrightarrow>
     length (list_Items l) = unat (list_AllocatedCount l)
     \<and> list_Count l \<le> list_AllocatedCount l
     \<and> None \<notin> set (take (unat (list_Count l)) (list_Items l))"

definition list_contents :: "'a PH_LIST \<Rightarrow> 'a list" where
  "list_contents l = map the (take (unat (list_Count l)) (list_Items l))"

lemma map_the_Some: "map Some (map the xs) = xs \<longleftrightarrow> None \<notin> set xs"
  by (induction xs) auto

lemma list_inv_holds:
  "list_inv l \<longleftrightarrow>
     length (list_Items l) = unat (list_AllocatedCount l)
     \<and> holds (unat (list_Count l)) (list_Items l) (list_contents l)"
  using map_the_Some [of "take (unat (list_Count l)) (list_Items l)"]
  by (auto simp: list_inv_def holds_def list_contents_def word_le_nat_alt simp del: map_map)

lemma list_holdsI:
  assumes "holds (unat (list_Count l)) (list_Items l) xs"
    "length (list_Items l) = unat (list_AllocatedCount l)"
  shows "list_inv l \<and> list_contents l = xs"
  using assms holds_contents [OF assms(1)] by (simp add: list_inv_holds list_contents_def)

lemma list_length: "list_inv l \<Longrightarrow> length (list_contents l) = unat (list_Count l)"
  using holds_length list_inv_holds by blast

lemma list_reserve_room:
  assumes "list_inv l" "unat (list_Count l) + unat n < 2 ^ 32"
  shows "holds (unat (list_Count l)) (list_Items (list_reserve l n)) (list_contents l)"
    and "length (list_Items (list_reserve l n)) = unat (list_AllocatedCount (list_reserve l n))"
    and "list_Count (list_reserve l n) = list_Count l"
    and "unat (list_Count l) + unat n \<le> length (list_Items (list_reserve l n))"
proof -
  let ?k = "if list_AllocatedCount l * 2 < list_Count l + n then list_Count l + n else list_AllocatedCount l * 2"
  have h: "holds (unat (list_Count l)) (list_Items l) (list_contents l)"
    and len: "length (list_Items l) = unat (list_AllocatedCount l)"
    using assms(1) by (auto simp: list_inv_holds)
  have cn: "unat (list_Count l + n) = unat (list_Count l) + unat n"
    using assms(2) by (simp add: unat_plus_no_overflow)
  have k: "unat (list_Count l) + unat n \<le> unat ?k" if "list_AllocatedCount l < list_Count l + n"
    using grown_capacity(1) [OF _ that] assms(2) by simp
  show "holds (unat (list_Count l)) (list_Items (list_reserve l n)) (list_contents l)"
    using h k by (auto simp: list_reserve_def list_realloc_def Let_def intro!: holds_realloc)
  show "length (list_Items (list_reserve l n)) = unat (list_AllocatedCount (list_reserve l n))"
    "list_Count (list_reserve l n) = list_Count l"
    using len by (simp_all add: list_reserve_def list_realloc_def Let_def)
  show "unat (list_Count l) + unat n \<le> length (list_Items (list_reserve l n))"
    using len k cn
    by (auto simp: list_reserve_def list_realloc_def Let_def not_less word_le_nat_alt)
qed

lemma PhCreateList_inv: "list_inv (PhCreateList n) \<and> list_contents (PhCreateList n) = []"
  by (simp add: PhCreateList_def list_inv_def list_contents_def PhAllocate_def Let_def)

lemma count_room:
  fixes c :: ulong
  assumes "unat c + length xs < 2 ^ 32"
  shows "unat (of_nat (length xs) :: ulong) = length xs"
    and "unat (c + of_nat (length xs)) = unat c + length xs"
proof -
  show len: "unat (of_nat (length xs) :: ulong) = length xs"
    using assms by (simp add: unat_of_nat)
  show "unat (c + of_nat (length xs)) = unat c + length xs"
    using unat_plus_no_overflow [of c "of_nat (length xs)"] assms len by simp
qed

lemma PhAddItemsList_appends:
  assumes "list_inv l" "length (list_contents l) + length xs < 2 ^ 32"
  shows "\<exists>l'. PhAddItemsList l xs = Some l' \<and> list_inv l' \<and> list_contents l' = list_contents l @ xs"
proof -
  let ?l = "list_reserve l (of_nat (length xs))"
  have room: "unat (list_Count l) + length xs < 2 ^ 32"
    using assms by (simp add: list_length)
  note n = count_room [OF room]
  note r = list_reserve_room [OF assms(1), of "of_nat (length xs)", unfolded n, OF room]
  obtain m where m: "mem_write (list_Items ?l) (unat (list_Count l)) (map Some xs) = Some m"
    "length m = length (list_Items ?l)" "holds (unat (list_Count l) + length xs) m (list_contents l @ xs)"
    using holds_append [OF r(1,4)] by blast
  let ?l' = "?l\<lparr>list_Items := m, list_Count := list_Count l + of_nat (length xs)\<rparr>"
  have "PhAddItemsList l xs = Some ?l'"
    using m(1) r(3) by (simp add: PhAddItemsList_def Let_def)
  moreover have "list_inv ?l' \<and> list_contents ?l' = list_contents l @ xs"
    by (rule list_holdsI) (use m r(2) n(2) in simp_all)
  ultimately show ?thesis by blast
qed

lemma PhRemoveItemsList_removes:
  assumes "list_inv l" "i + n \<le> length (list_contents l)"
  shows "\<exists>l'. PhRemoveItemsList l (of_nat i) (of_nat n) = Some l' \<and> list_inv l'
           \<and> list_contents l' = take i (list_contents l) @ drop (i + n) (list_contents l)"
proof -
  have h: "holds (unat (list_Count l)) (list_Items l) (list_contents l)"
    and len: "length (list_Items l) = unat (list_AllocatedCount l)"
    using assms(1) by (auto simp: list_inv_holds)
  have b: "i + n \<le> unat (list_Count l)"
    using assms by (simp add: list_length)
  have i: "unat (of_nat i :: ulong) = i"
    using b unat_of_nat_le [of i "list_Count l"] by linarith
  note w = remove_range [OF b]
  obtain m where m: "memmove (list_Items l) i (i + n) (unat (list_Count l) - i - n) = Some m"
    "length m = length (list_Items l)"
    "holds (unat (list_Count l) - n) m (take i (list_contents l) @ drop (i + n) (list_contents l))"
    using holds_remove [OF h b] by blast
  let ?l' = "l\<lparr>list_Items := m, list_Count := list_Count l - of_nat n\<rparr>"
  have "PhRemoveItemsList l (of_nat i) (of_nat n) = Some ?l'"
    using m(1) unfolding PhRemoveItemsList_def w i by simp
  moreover have "list_inv ?l' \<and> list_contents ?l' = take i (list_contents l) @ drop (i + n) (list_contents l)"
    by (rule list_holdsI) (use m len w(3) in simp_all)
  ultimately show ?thesis by blast
qed

interpretation list_seq: removable list_inv list_contents PhAddItemsList "2 ^ 32"
  "\<lambda>l i n. PhRemoveItemsList l (of_nat i) (of_nat n)"
  by unfold_locales (simp_all add: PhAddItemsList_appends PhRemoveItemsList_removes)

section \<open>Invariant and contents of an array\<close>

definition array_inv :: "ulong64 \<Rightarrow> 'a PH_ARRAY \<Rightarrow> bool" where
  "array_inv sz a \<longleftrightarrow>
     arr_ItemSize a = sz \<and> sz \<noteq> 0
     \<and> unat (arr_AllocatedCount a) * unat sz < 2 ^ 64
     \<and> length (arr_Items a) = unat (arr_AllocatedCount a)
     \<and> arr_Count a \<le> arr_AllocatedCount a
     \<and> None \<notin> set (take (unat (arr_Count a)) (arr_Items a))"

definition array_contents :: "'a PH_ARRAY \<Rightarrow> 'a list" where
  "array_contents a = map the (take (unat (arr_Count a)) (arr_Items a))"

text \<open>The number of items for which the size of a doubled block still fits a \<open>SIZE_T\<close>.\<close>

definition array_bound :: "ulong64 \<Rightarrow> nat" where
  "array_bound sz = 2 ^ 63 div unat sz"

lemma item_cells_exact:
  assumes "sz \<noteq> 0" "unat n * unat sz < 2 ^ 64"
  shows "item_cells n sz = unat n"
proof -
  have "unat (n * sz) = unat n * unat sz"
    using assms(2) by (simp add: unat_word_ariths)
  moreover have "unat sz \<noteq> 0"
    using assms(1) by (simp add: unat_eq_0)
  ultimately show ?thesis by (simp add: item_cells_def)
qed

lemma array_inv_holds:
  "array_inv sz a \<longleftrightarrow>
     arr_ItemSize a = sz \<and> sz \<noteq> 0 \<and> unat (arr_AllocatedCount a) * unat sz < 2 ^ 64
     \<and> length (arr_Items a) = unat (arr_AllocatedCount a)
     \<and> holds (unat (arr_Count a)) (arr_Items a) (array_contents a)"
  using map_the_Some [of "take (unat (arr_Count a)) (arr_Items a)"]
  by (auto simp: array_inv_def holds_def array_contents_def word_le_nat_alt simp del: map_map)

lemma array_holdsI:
  assumes "holds (unat (arr_Count a)) (arr_Items a) xs"
    "length (arr_Items a) = unat (arr_AllocatedCount a)"
    "arr_ItemSize a = sz" "sz \<noteq> 0" "unat (arr_AllocatedCount a) * unat sz < 2 ^ 64"
  shows "array_inv sz a \<and> array_contents a = xs"
  using assms holds_contents [OF assms(1)] by (simp add: array_inv_holds array_contents_def)

lemma array_length: "array_inv sz a \<Longrightarrow> length (array_contents a) = unat (arr_Count a)"
  using holds_length array_inv_holds by blast

lemma array_room:
  fixes c :: ulong64
  assumes "sz \<noteq> 0" "unat c + length xs < array_bound sz"
  shows "unat (of_nat (length xs) :: ulong64) = length xs"
    and "unat (c + of_nat (length xs)) = unat c + length xs"
    and "2 * (unat c + length xs) * unat sz < 2 ^ 64"
proof -
  have pos: "0 < unat sz"
    using assms(1) by (simp add: unat_gt_0)
  have "(unat c + length xs) * unat sz < 2 ^ 63"
    using assms(2) pos unfolding array_bound_def
    by (meson div_times_less_eq_dividend less_le_trans mult_less_cancel2)
  moreover have "2 * p < 2 ^ 64" if "p < 2 ^ 63" for p :: nat
    using that by simp
  ultimately have "2 * ((unat c + length xs) * unat sz) < 2 ^ 64"
    by blast
  then show b: "2 * (unat c + length xs) * unat sz < 2 ^ 64"
    by (simp only: mult.assoc)
  have "unat c + length xs \<le> (unat c + length xs) * unat sz"
    using pos by simp
  moreover have "(unat c + length xs) * unat sz < 2 ^ 64"
    using b by (simp only: mult.assoc)
  ultimately have lt: "unat c + length xs < 2 ^ 64"
    by (rule le_less_trans)
  then show len: "unat (of_nat (length xs) :: ulong64) = length xs"
    by (simp add: unat_of_nat)
  show "unat (c + of_nat (length xs)) = unat c + length xs"
    using unat_plus_no_overflow [of c "of_nat (length xs)"] lt len by simp
qed

lemma array_reserve_room:
  assumes inv: "array_inv sz a" and lt: "unat (arr_Count a) + unat n < 2 ^ 64"
    and b: "2 * (unat (arr_Count a) + unat n) * unat sz < 2 ^ 64"
  shows "holds (unat (arr_Count a)) (arr_Items (array_reserve a n)) (array_contents a)"
    and "length (arr_Items (array_reserve a n)) = unat (arr_AllocatedCount (array_reserve a n))"
    and "arr_Count (array_reserve a n) = arr_Count a"
    and "arr_ItemSize (array_reserve a n) = sz"
    and "unat (arr_AllocatedCount (array_reserve a n)) * unat sz < 2 ^ 64"
    and "unat (arr_Count a) + unat n \<le> length (arr_Items (array_reserve a n))"
proof -
  let ?k = "if arr_AllocatedCount a * 2 < arr_Count a + n then arr_Count a + n else arr_AllocatedCount a * 2"
  have h: "holds (unat (arr_Count a)) (arr_Items a) (array_contents a)"
    and len: "length (arr_Items a) = unat (arr_AllocatedCount a)"
    and sz: "arr_ItemSize a = sz" "sz \<noteq> 0" "unat (arr_AllocatedCount a) * unat sz < 2 ^ 64"
    using inv by (auto simp: array_inv_holds)
  have cn: "unat (arr_Count a + n) = unat (arr_Count a) + unat n"
    using lt by (simp add: unat_plus_no_overflow)
  have k: "unat (arr_Count a) + unat n \<le> unat ?k" "unat ?k * unat sz < 2 ^ 64"
    if "arr_AllocatedCount a < arr_Count a + n"
  proof -
    note g = grown_capacity [OF _ that]
    show "unat (arr_Count a) + unat n \<le> unat ?k"
      using g(1) lt by simp
    have "unat ?k * unat sz \<le> 2 * (unat (arr_Count a) + unat n) * unat sz"
      using g(2) lt by (intro mult_le_mono1) simp
    with b show "unat ?k * unat sz < 2 ^ 64" by linarith
  qed
  note cells = item_cells_exact [OF sz(2) k(2)]
  show "holds (unat (arr_Count a)) (arr_Items (array_reserve a n)) (array_contents a)"
    using h k(1) cells sz(1) by (auto simp: array_reserve_def array_realloc_def Let_def intro!: holds_realloc)
  show "length (arr_Items (array_reserve a n)) = unat (arr_AllocatedCount (array_reserve a n))"
    using len cells sz(1) by (auto simp: array_reserve_def array_realloc_def Let_def)
  show "arr_Count (array_reserve a n) = arr_Count a" "arr_ItemSize (array_reserve a n) = sz"
    using sz(1) by (simp_all add: array_reserve_def array_realloc_def Let_def)
  show "unat (arr_AllocatedCount (array_reserve a n)) * unat sz < 2 ^ 64"
    using sz(3) k(2) by (auto simp: array_reserve_def array_realloc_def Let_def)
  show "unat (arr_Count a) + unat n \<le> length (arr_Items (array_reserve a n))"
    using len k(1) cells sz(1) cn
    by (auto simp: array_reserve_def array_realloc_def Let_def not_less word_le_nat_alt)
qed

lemma PhAddItemsArray_appends:
  assumes "array_inv sz a" "length (array_contents a) + length xs < array_bound sz"
  shows "\<exists>a'. PhAddItemsArray a xs = Some a' \<and> array_inv sz a' \<and> array_contents a' = array_contents a @ xs"
proof -
  let ?a = "array_reserve a (of_nat (length xs))"
  have sz: "sz \<noteq> 0"
    using assms(1) by (simp add: array_inv_def)
  have room: "unat (arr_Count a) + length xs < array_bound sz"
    using assms by (simp add: array_length)
  note n = array_room [OF sz room]
  have lt: "unat (arr_Count a) + length xs < 2 ^ 64"
    using n(2) unsigned_less [of "arr_Count a + of_nat (length xs)", where ?'a = nat] by simp
  note r = array_reserve_room [OF assms(1), of "of_nat (length xs)", unfolded n(1), OF lt n(3)]
  obtain m where m: "mem_write (arr_Items ?a) (unat (arr_Count a)) (map Some xs) = Some m"
    "length m = length (arr_Items ?a)" "holds (unat (arr_Count a) + length xs) m (array_contents a @ xs)"
    using holds_append [OF r(1,6)] by blast
  let ?a' = "?a\<lparr>arr_Items := m, arr_Count := arr_Count a + of_nat (length xs)\<rparr>"
  have "PhAddItemsArray a xs = Some ?a'"
    using m(1) r(3) by (simp add: PhAddItemsArray_def Let_def)
  moreover have "array_inv sz ?a' \<and> array_contents ?a' = array_contents a @ xs"
    by (rule array_holdsI) (use m r(2,4,5) n(2) sz in simp_all)
  ultimately show ?thesis by blast
qed

lemma PhRemoveItemsArray_removes:
  assumes "array_inv sz a" "i + n \<le> length (array_contents a)"
  shows "\<exists>a'. PhRemoveItemsArray a (of_nat i) (of_nat n) = Some a' \<and> array_inv sz a'
           \<and> array_contents a' = take i (array_contents a) @ drop (i + n) (array_contents a)"
proof -
  have h: "holds (unat (arr_Count a)) (arr_Items a) (array_contents a)"
    and len: "length (arr_Items a) = unat (arr_AllocatedCount a)"
    and sz: "arr_ItemSize a = sz" "sz \<noteq> 0" "unat (arr_AllocatedCount a) * unat sz < 2 ^ 64"
    and le: "unat (arr_Count a) \<le> unat (arr_AllocatedCount a)"
    using assms(1) by (auto simp: array_inv_holds holds_def)
  have b: "i + n \<le> unat (arr_Count a)"
    using assms by (simp add: array_length)
  have i: "unat (of_nat i :: ulong64) = i"
    using b unat_of_nat_le [of i "arr_Count a"] by linarith
  note w = remove_range [OF b]
  have "unat (arr_Count a - of_nat i - of_nat n) * unat sz \<le> unat (arr_AllocatedCount a) * unat sz"
    using w(2) le by (intro mult_le_mono1) linarith
  then have "unat (arr_Count a - of_nat i - of_nat n) * unat sz < 2 ^ 64"
    using sz(3) by (rule le_less_trans)
  then have cells: "item_cells (arr_Count a - of_nat i - of_nat n) sz = unat (arr_Count a) - i - n"
    using item_cells_exact [OF sz(2)] by (simp only: w(2))
  obtain m where m: "memmove (arr_Items a) i (i + n) (unat (arr_Count a) - i - n) = Some m"
    "length m = length (arr_Items a)"
    "holds (unat (arr_Count a) - n) m (take i (array_contents a) @ drop (i + n) (array_contents a))"
    using holds_remove [OF h b] by blast
  let ?a' = "a\<lparr>arr_Items := m, arr_Count := arr_Count a - of_nat n\<rparr>"
  have "PhRemoveItemsArray a (of_nat i) (of_nat n) = Some ?a'"
    using m(1) unfolding PhRemoveItemsArray_def sz(1) cells w(1) i by simp
  moreover have "array_inv sz ?a' \<and> array_contents ?a' = take i (array_contents a) @ drop (i + n) (array_contents a)"
    by (rule array_holdsI) (use m len w(3) sz in simp_all)
  ultimately show ?thesis by blast
qed

interpretation array_seq: removable "array_inv sz" array_contents PhAddItemsArray "array_bound sz"
  "\<lambda>a i n. PhRemoveItemsArray a (of_nat i) (of_nat n)"
  by unfold_locales (simp_all add: PhAddItemsArray_appends PhRemoveItemsArray_removes)

lemma PhInitializeArray_inv:
  assumes "sz \<noteq> 0" "unat (n :: ulong64) * unat sz < 2 ^ 64"
  shows "array_inv sz (PhInitializeArray sz n) \<and> array_contents (PhInitializeArray sz n) = []"
proof -
  have "unat (if n = 0 then 1 else n) * unat sz < 2 ^ 64"
    using assms unsigned_less [of sz, where ?'a = nat] by simp
  from item_cells_exact [OF assms(1) this] this assms(1) show ?thesis
    by (simp add: PhInitializeArray_def array_inv_def array_contents_def PhAllocate_def Let_def)
qed

section \<open>Insertion and search in a list\<close>

text \<open>The contract of insertion at an index, on top of appending and removing.\<close>

locale insertable = removable inv contents append_items bound remove_items
  for inv :: "'s \<Rightarrow> bool" and contents :: "'s \<Rightarrow> 'a list" and append_items bound remove_items +
  fixes insert_items :: "'s \<Rightarrow> nat \<Rightarrow> 'a list \<Rightarrow> 's option"
  assumes insert_items:
    "inv s \<Longrightarrow> i \<le> length (contents s) \<Longrightarrow> length (contents s) + length xs < bound \<Longrightarrow>
       \<exists>s'. insert_items s i xs = Some s' \<and> inv s'
         \<and> contents s' = take i (contents s) @ xs @ drop i (contents s)"
begin

lemma insert_remove_inverse:
  assumes "inv s" "i \<le> length (contents s)" "length (contents s) + length xs < bound"
  shows "\<exists>s1 s2. insert_items s i xs = Some s1 \<and> remove_items s1 i (length xs) = Some s2
           \<and> inv s2 \<and> contents s2 = contents s"
proof -
  obtain s1 where s1: "insert_items s i xs = Some s1" "inv s1"
    "contents s1 = take i (contents s) @ xs @ drop i (contents s)"
    using insert_items [OF assms] by blast
  with assms(2) have "i + length xs \<le> length (contents s1)" by simp
  from remove_items [OF s1(2) this] s1 assms(2) show ?thesis by auto
qed

lemma insert_at_end:
  assumes "inv s" "length (contents s) + length xs < bound"
  shows "\<exists>s1 s2. insert_items s (length (contents s)) xs = Some s1 \<and> append_items s xs = Some s2
           \<and> contents s1 = contents s2"
  using insert_items [OF assms(1) order_refl assms(2)] append_items [OF assms] by auto

end

lemma PhInsertItemsList_inserts:
  assumes "list_inv l" "i \<le> length (list_contents l)" "length (list_contents l) + length xs < 2 ^ 32"
  shows "\<exists>l'. PhInsertItemsList l (of_nat i) xs = Some l' \<and> list_inv l'
           \<and> list_contents l' = take i (list_contents l) @ xs @ drop i (list_contents l)"
proof -
  let ?l = "list_reserve l (of_nat (length xs))"
  have room: "unat (list_Count l) + length xs < 2 ^ 32" and b: "i \<le> unat (list_Count l)"
    using assms by (simp_all add: list_length)
  note n = count_room [OF room]
  note r = list_reserve_room [OF assms(1), of "of_nat (length xs)", unfolded n, OF room]
  have i: "unat (of_nat i :: ulong) = i"
    using b by (rule unat_of_nat_le)
  have shift: "unat (of_nat i + of_nat (length xs) :: ulong) = i + length xs"
    using unat_plus_no_overflow [of "of_nat i :: ulong" "of_nat (length xs)"] i n(1) b room by simp
  have rest: "unat (list_Count l - of_nat i) = unat (list_Count l) - i"
    using remove_range(3) [of 0 i "list_Count l"] b by simp
  obtain m1 m2 where m: "memmove (list_Items ?l) (i + length xs) i (unat (list_Count l) - i) = Some m1"
    "mem_write m1 i (map Some xs) = Some m2" "length m2 = length (list_Items ?l)"
    "holds (unat (list_Count l) + length xs) m2 (take i (list_contents l) @ xs @ drop i (list_contents l))"
    using holds_insert [OF r(1) b r(4)] by blast
  have noop: "m1 = list_Items ?l" if "i = unat (list_Count l)"
    using m(1) that by (auto dest: memmove_0)
  let ?l' = "?l\<lparr>list_Items := m2, list_Count := list_Count l + of_nat (length xs)\<rparr>"
  have "PhInsertItemsList l (of_nat i) xs = Some ?l'"
    using m(1,2) noop b
    by (auto simp: PhInsertItemsList_def Let_def r(3) i shift rest word_less_nat_alt)
  moreover have "list_inv ?l' \<and> list_contents ?l' = take i (list_contents l) @ xs @ drop i (list_contents l)"
    by (rule list_holdsI) (use m r(2) n(2) in simp_all)
  ultimately show ?thesis by blast
qed

interpretation list_ins: insertable list_inv list_contents PhAddItemsList "2 ^ 32"
  "\<lambda>l i n. PhRemoveItemsList l (of_nat i) (of_nat n)" "\<lambda>l i. PhInsertItemsList l (of_nat i)"
  by unfold_locales (simp add: PhInsertItemsList_inserts)

lemma find_item_loop_eq:
  assumes "\<And>j. i \<le> j \<Longrightarrow> j < i + n \<Longrightarrow> items ! j = Some (xs ! j)"
  shows "find_item_loop items item i n =
           (case find (\<lambda>j. xs ! j = item) [i..<i + n] of None \<Rightarrow> ULONG_MAX | Some j \<Rightarrow> of_nat j)"
  using assms
proof (induction n arbitrary: i)
  case 0
  then show ?case by simp
next
  case (Suc n)
  have "items ! i = Some (xs ! i)"
    using Suc.prems by simp
  moreover have "find_item_loop items item (Suc i) n =
      (case find (\<lambda>j. xs ! j = item) [Suc i..<Suc i + n] of None \<Rightarrow> ULONG_MAX | Some j \<Rightarrow> of_nat j)"
    using Suc.prems by (intro Suc.IH) simp
  ultimately show ?case by (simp add: upt_conv_Cons del: upt_Suc)
qed

lemma PhFindItemList_find:
  assumes "list_inv l"
  shows "PhFindItemList l item =
           (case find (\<lambda>j. list_contents l ! j = item) [0..<length (list_contents l)] of
              None \<Rightarrow> ULONG_MAX | Some j \<Rightarrow> of_nat j)"
  using find_item_loop_eq [of 0 "unat (list_Count l)" "list_Items l" "list_contents l" item] assms
    holds_nth [of "unat (list_Count l)" "list_Items l" "list_contents l"]
  by (simp add: PhFindItemList_def list_length list_inv_holds)

lemma PhAddItemList_single:
  assumes "list_inv l" "0 < list_AllocatedCount l" "unat (list_Count l) < 2 ^ 31"
  shows "PhAddItemList l x = PhAddItemsList l [x]"
proof -
  have le: "list_Count l \<le> list_AllocatedCount l"
    using assms(1) by (simp add: list_inv_def)
  have c1: "unat (list_Count l + 1) = unat (list_Count l) + 1"
    using unat_plus_no_overflow [of "list_Count l" 1] assms(3) by simp
  have "list_AllocatedCount l < list_Count l + 1 \<longleftrightarrow> list_Count l = list_AllocatedCount l"
    using le c1 by (auto simp: word_less_nat_alt word_le_nat_alt word_unat_eq_iff)
  moreover have "\<not> list_AllocatedCount l * 2 < list_Count l + 1" if "list_Count l = list_AllocatedCount l"
  proof -
    have "unat (list_Count l * 2) = unat (list_Count l) * 2"
      using assms(3) by (simp add: unat_word_ariths)
    moreover have "0 < unat (list_Count l)"
      using assms(2) that by (simp add: unat_gt_0)
    ultimately show ?thesis
      using that c1 by (simp add: word_less_nat_alt)
  qed
  ultimately show ?thesis
    by (auto simp: PhAddItemList_def PhAddItemsList_def list_reserve_def Let_def)
qed

lemma PhResizeList_zero:
  assumes "list_Count l = 0"
  shows "\<exists>l0. PhResizeList l 0 = Inr l0 \<and> list_inv l0 \<and> PhAddItemList l0 x = None
           \<and> (\<exists>l'. PhAddItemsList l0 [x] = Some l' \<and> list_inv l' \<and> list_contents l' = [x])"
proof -
  let ?l0 = "list_realloc l 0"
  have "list_inv ?l0" "list_contents ?l0 = []" "PhAddItemList ?l0 x = None"
    using assms by (simp_all add: list_inv_def list_contents_def list_realloc_def PhAddItemList_def
        PhReAllocate_def mem_write_def Let_def)
  moreover have "PhResizeList l 0 = Inr ?l0"
    using assms by (simp add: PhResizeList_def)
  ultimately show ?thesis
    using PhAddItemsList_appends [of ?l0 "[x]"] by auto
qed

definition list_123 :: "nat PH_LIST" where
  "list_123 = \<lparr> list_Count = 3, list_AllocatedCount = 4, list_Items = [Some 1, Some 2, Some 3, None] \<rparr>"

lemma list_123_facts: "list_inv list_123" "list_contents list_123 = [1, 2, 3]"
  by (simp_all add: list_123_def list_inv_def list_contents_def)

section \<open>Properties\<close>

text \<open>
  C19. Any sequence of \<open>PhAddItemsList\<close> and \<open>PhRemoveItemsList\<close> calls that keeps the number of items
  below \<open>2 ^ 32\<close> and removes only ranges inside the list runs without leaving the storage block, keeps
  the list well formed, and leaves in it what the same sequence leaves in a mathematical list.
\<close>

theorem PhList_edits_refine:
  assumes "list_inv l" "edits_spec (2 ^ 32) (list_contents l) es = Some ys"
  shows "\<exists>l'. apply_edits PhAddItemsList (\<lambda>l i n. PhRemoveItemsList l (of_nat i) (of_nat n)) l es = Some l'
           \<and> list_inv l' \<and> list_contents l' = ys"
  using assms by (rule list_seq.apply_edits_refine)

theorem PhList_edits_refine_witness:
  "\<exists>l'. apply_edits PhAddItemsList (\<lambda>l i n. PhRemoveItemsList l (of_nat i) (of_nat n)) (PhCreateList 2)
          [Append [1, 2, 3], Remove 1 1, Append [4::nat]] = Some l'
        \<and> list_inv l' \<and> list_contents l' = [1, 3, 4]"
  by (rule PhList_edits_refine) (simp_all add: PhCreateList_inv)

text \<open>
  The same for the item array, for items of any size \<open>sz\<close>: as long as the doubled block stays
  below \<open>2 ^ 64\<close> bytes, sequences of \<open>PhAddItemsArray\<close> and \<open>PhRemoveItemsArray\<close> implement the sequences
  on mathematical lists.
\<close>

theorem PhArray_edits_refine:
  assumes "array_inv sz a" "edits_spec (array_bound sz) (array_contents a) es = Some ys"
  shows "\<exists>a'. apply_edits PhAddItemsArray (\<lambda>a i n. PhRemoveItemsArray a (of_nat i) (of_nat n)) a es = Some a'
           \<and> array_inv sz a' \<and> array_contents a' = ys"
  using assms by (rule array_seq.apply_edits_refine)

theorem PhArray_edits_refine_witness:
  "\<exists>a'. apply_edits PhAddItemsArray (\<lambda>a i n. PhRemoveItemsArray a (of_nat i) (of_nat n))
          (PhInitializeArray 24 0) [Append [1, 2, 3], Remove 0 2, Append [4::nat]] = Some a'
        \<and> array_inv 24 a' \<and> array_contents a' = [3, 4]"
  by (rule PhArray_edits_refine)
    (simp_all add: PhInitializeArray_inv array_bound_def)

text \<open>
  \<open>PhInsertItemsList\<close> at an index inside the list, or at its end, shifts the items from that index
  on and puts the new ones before them, and \<open>PhRemoveItemsList\<close> of the same range restores the list.
\<close>

theorem PhInsertItemsList_correct:
  assumes "list_inv l" "i \<le> length (list_contents l)" "length (list_contents l) + length xs < 2 ^ 32"
  shows "\<exists>l1 l2. PhInsertItemsList l (of_nat i) xs = Some l1
           \<and> list_inv l1 \<and> list_contents l1 = take i (list_contents l) @ xs @ drop i (list_contents l)
           \<and> PhRemoveItemsList l1 (of_nat i) (of_nat (length xs)) = Some l2
           \<and> list_inv l2 \<and> list_contents l2 = list_contents l"
  using list_ins.insert_items [OF assms] list_ins.insert_remove_inverse [OF assms] by auto

theorem PhInsertItemsList_correct_witness:
  "\<exists>l1. PhInsertItemsList list_123 (of_nat 1) [8, 9] = Some l1 \<and> list_contents l1 = [1, 8, 9, 2, 3]"
  using PhInsertItemsList_correct [of list_123 1 "[8, 9]"] by (auto simp: list_123_facts)

text \<open>
  \<open>PhFindItemList\<close> returns the first index that holds the item, and \<open>ULONG_MAX\<close> exactly when no
  index does, in a list of fewer than \<open>2 ^ 32 - 1\<close> items.
\<close>

theorem PhFindItemList_first:
  assumes "list_inv l" "length (list_contents l) < 2 ^ 32 - 1"
  shows "if item \<in> set (list_contents l)
         then unat (PhFindItemList l item) < length (list_contents l)
           \<and> list_contents l ! unat (PhFindItemList l item) = item
           \<and> (\<forall>j < unat (PhFindItemList l item). list_contents l ! j \<noteq> item)
         else PhFindItemList l item = ULONG_MAX"
proof (cases "find (\<lambda>j. list_contents l ! j = item) [0..<length (list_contents l)]")
  case None
  then have "item \<notin> set (list_contents l)"
    by (auto simp: find_None_iff in_set_conv_nth)
  with None assms(1) show ?thesis by (simp add: PhFindItemList_find)
next
  case (Some j)
  then have j: "j < length (list_contents l)" "list_contents l ! j = item" "\<forall>k<j. list_contents l ! k \<noteq> item"
    by (auto simp: find_Some_iff)
  with assms(2) have "unat (of_nat j :: ulong) = j" by (simp add: unat_of_nat)
  moreover have "item \<in> set (list_contents l)"
    using j(1,2) nth_mem by blast
  ultimately show ?thesis using j Some assms(1) by (simp add: PhFindItemList_find)
qed

theorem PhFindItemList_first_witness:
  "list_contents list_123 ! unat (PhFindItemList list_123 2) = 2 \<and> PhFindItemList list_123 5 = ULONG_MAX"
  using PhFindItemList_first [of list_123 2] PhFindItemList_first [of list_123 5]
  by (simp add: list_123_facts)

text \<open>
  \<open>PhAddItemList\<close> of one item, which only doubles the capacity, is \<open>PhAddItemsList\<close> of that item
  for every well-formed list with a nonzero capacity and fewer than \<open>2 ^ 31\<close> items. The capacity
  condition is needed: a list emptied and resized by \<open>PhResizeList\<close> to capacity 0, which that
  function accepts, stays at capacity 0 when it is doubled, and the next \<open>PhAddItemList\<close> writes
  outside the block, while \<open>PhAddItemsList\<close> grows the block and succeeds.
\<close>

theorem PhAddItemList_capacity:
  assumes "list_inv l" "unat (list_Count l) < 2 ^ 31"
  shows "(0 < list_AllocatedCount l \<longrightarrow>
           PhAddItemList l x = PhAddItemsList l [x]
           \<and> (\<exists>l'. PhAddItemList l x = Some l' \<and> list_inv l' \<and> list_contents l' = list_contents l @ [x]))
         \<and> (list_Count l = 0 \<longrightarrow>
           (\<exists>l0. PhResizeList l 0 = Inr l0 \<and> list_inv l0 \<and> PhAddItemList l0 x = None
             \<and> (\<exists>l'. PhAddItemsList l0 [x] = Some l' \<and> list_inv l' \<and> list_contents l' = [x])))"
  using PhAddItemList_single [OF assms(1) _ assms(2), of x] PhAddItemsList_appends [OF assms(1), of "[x]"]
    PhResizeList_zero [of l x] assms by (auto simp: list_length)

theorem PhAddItemList_capacity_witness:
  "PhAddItemList (PhCreateList 1) (7 :: nat) = PhAddItemsList (PhCreateList 1) [7]
   \<and> (\<exists>l0. PhResizeList (PhCreateList 1) 0 = Inr l0 \<and> list_inv l0 \<and> PhAddItemList l0 (7 :: nat) = None)"
  using PhAddItemList_capacity [of "PhCreateList 1" "7 :: nat"] PhCreateList_inv [of 1]
  by (auto simp: PhCreateList_def Let_def)

end
