(* ===== verification/PhPointerList.thy ===== *)
theory PhPointerList
  imports PhSequence
begin

text \<open>
  The pointer list of \<open>src/phlib/basesup.c\<close>: a table of pointers addressed by handles, in which the
  lowest bit of a cell separates a stored pointer from a free cell and the upper bits of a free cell
  hold the index of the next free one. The interface \<open>handle_table\<close> says what a client of such a table
  relies on, and is interpreted on the model of the code.
\<close>

section \<open>Model\<close>

record PH_POINTER_LIST =
  pl_Count :: ulong
  pl_AllocatedCount :: ulong
  pl_FreeEntry :: ulong
  pl_NextEntry :: ulong
  pl_Items :: "ulong64 option list"

definition PH_IS_LIST_POINTER_VALID :: "ulong64 \<Rightarrow> bool" where
  "PH_IS_LIST_POINTER_VALID p \<longleftrightarrow> p AND 1 = 0"

definition PhCreatePointerList :: "ulong \<Rightarrow> PH_POINTER_LIST" where
  "PhCreatePointerList initialCapacity =
     (let initialCapacity = (if initialCapacity = 0 then 1 else initialCapacity)
      in \<lparr> pl_Count = 0, pl_AllocatedCount = initialCapacity, pl_FreeEntry = ULONG_MAX,
           pl_NextEntry = 0, pl_Items = PhAllocate (unat initialCapacity) \<rparr>)"

text \<open>The right shift of a \<open>LONG_PTR\<close> keeps the sign; the cast to \<open>ULONG\<close> keeps the low 32 bits.\<close>

definition PhpDecodePointerListIndex :: "ulong64 \<Rightarrow> ulong" where
  "PhpDecodePointerListIndex index = ucast (signed_drop_bit 1 index)"

definition PhpEncodePointerListIndex :: "ulong \<Rightarrow> ulong64" where
  "PhpEncodePointerListIndex index = push_bit 1 (ucast index) OR 1"

definition PhpPointerListIndexToHandle :: "ulong \<Rightarrow> ulong64" where
  "PhpPointerListIndexToHandle index = ucast (index + 1)"

definition PhpPointerListHandleToIndex :: "ulong64 \<Rightarrow> ulong" where
  "PhpPointerListHandleToIndex handle = ucast handle - 1"

text \<open>A read of one cell: \<open>None\<close> outside the block and for a cell never written.\<close>

definition cell :: "'a option list \<Rightarrow> nat \<Rightarrow> 'a option" where
  "cell items i = (if i < length items then items ! i else None)"

text \<open>
  The \<open>assert\<close> that the pointer is none of the values that encode a free slot is left out, as in a release build; where
  it matters it is a hypothesis.
\<close>

definition PhAddItemPointerList :: "PH_POINTER_LIST \<Rightarrow> ulong64 \<Rightarrow> (ulong64 \<times> PH_POINTER_LIST) option" where
  "PhAddItemPointerList pl pointer =
     (if pl_FreeEntry pl \<noteq> ULONG_MAX then
        let index = pl_FreeEntry pl
        in Option.bind (cell (pl_Items pl) (unat index)) (\<lambda>oldPointer.
             Some (PhpPointerListIndexToHandle index,
                   pl\<lparr>pl_Items := (pl_Items pl)[unat index := Some pointer],
                      pl_FreeEntry := PhpDecodePointerListIndex oldPointer,
                      pl_Count := pl_Count pl + 1\<rparr>))
      else
        let pl = (if pl_NextEntry pl = pl_AllocatedCount pl then
                    pl\<lparr>pl_AllocatedCount := pl_AllocatedCount pl * 2,
                       pl_Items := PhReAllocate (pl_Items pl) (unat (pl_AllocatedCount pl * 2))\<rparr>
                  else pl);
            index = pl_NextEntry pl
        in Option.bind (mem_write (pl_Items pl) (unat index) [Some pointer]) (\<lambda>m.
             Some (PhpPointerListIndexToHandle index,
                   pl\<lparr>pl_Items := m, pl_NextEntry := index + 1, pl_Count := pl_Count pl + 1\<rparr>)))"

text \<open>
  The loop of \<open>PhEnumPointerListEx\<close> over the remaining keys: the pointer found, its handle and the
  next key, or \<open>None\<close> when the enumeration is over.
\<close>

fun enum_pointer_loop :: "ulong64 option list \<Rightarrow> nat \<Rightarrow> nat \<Rightarrow> (ulong64 \<times> ulong64 \<times> ulong) option" where
  "enum_pointer_loop items index 0 = None"
| "enum_pointer_loop items index (Suc n) =
     (case items ! index of
        Some pointer \<Rightarrow>
          if PH_IS_LIST_POINTER_VALID pointer
          then Some (pointer, PhpPointerListIndexToHandle (of_nat index), of_nat index + 1)
          else enum_pointer_loop items (Suc index) n
      | None \<Rightarrow> enum_pointer_loop items (Suc index) n)"

definition PhEnumPointerListEx :: "PH_POINTER_LIST \<Rightarrow> ulong \<Rightarrow> (ulong64 \<times> ulong64 \<times> ulong) option" where
  "PhEnumPointerListEx pl enumerationKey =
     enum_pointer_loop (pl_Items pl) (unat enumerationKey) (unat (pl_NextEntry pl) - unat enumerationKey)"

fun find_pointer_loop :: "ulong64 option list \<Rightarrow> ulong64 \<Rightarrow> nat \<Rightarrow> nat \<Rightarrow> ulong64" where
  "find_pointer_loop items pointer i 0 = 0"
| "find_pointer_loop items pointer i (Suc n) =
     (if items ! i = Some pointer then PhpPointerListIndexToHandle (of_nat i)
      else find_pointer_loop items pointer (Suc i) n)"

definition PhFindItemPointerList :: "PH_POINTER_LIST \<Rightarrow> ulong64 \<Rightarrow> ulong64" where
  "PhFindItemPointerList pl pointer = find_pointer_loop (pl_Items pl) pointer 0 (unat (pl_NextEntry pl))"

definition PhRemoveItemPointerList :: "PH_POINTER_LIST \<Rightarrow> ulong64 \<Rightarrow> PH_POINTER_LIST option" where
  "PhRemoveItemPointerList pl pointerHandle =
     (let index = PhpPointerListHandleToIndex pointerHandle
      in if unat index < length (pl_Items pl) then
           Some (pl\<lparr>pl_Items := (pl_Items pl)[unat index := Some (PhpEncodePointerListIndex (pl_FreeEntry pl))],
                    pl_FreeEntry := index, pl_Count := pl_Count pl - 1\<rparr>)
         else None)"

section \<open>Tables addressed by handles\<close>

primrec add_pointers :: "('s \<Rightarrow> 'v \<Rightarrow> ('h \<times> 's) option) \<Rightarrow> 's \<Rightarrow> 'v list \<Rightarrow> ('h list \<times> 's) option" where
  "add_pointers add s [] = Some ([], s)"
| "add_pointers add s (v # vs) =
     Option.bind (add s v) (\<lambda>(h, s1). Option.bind (add_pointers add s1 vs) (\<lambda>(hs, s2). Some (h # hs, s2)))"

text \<open>
  An insertion returns a handle that is not in use and maps it to the value; a removal of a handle in
  use removes that handle only.
\<close>

locale handle_table =
  fixes inv :: "'s \<Rightarrow> bool"
    and tbl :: "'s \<Rightarrow> 'h \<Rightarrow> 'v option"
    and ok :: "'v \<Rightarrow> bool"
    and bound :: nat
    and add :: "'s \<Rightarrow> 'v \<Rightarrow> ('h \<times> 's) option"
    and remove :: "'s \<Rightarrow> 'h \<Rightarrow> 's option"
  assumes finite_tbl: "inv s \<Longrightarrow> finite (dom (tbl s))"
    and add: "inv s \<Longrightarrow> ok v \<Longrightarrow> card (dom (tbl s)) < bound \<Longrightarrow>
      \<exists>h s'. add s v = Some (h, s') \<and> inv s' \<and> tbl s h = None \<and> tbl s' = (tbl s)(h \<mapsto> v)"
    and remove: "inv s \<Longrightarrow> tbl s h \<noteq> None \<Longrightarrow>
      \<exists>s'. remove s h = Some s' \<and> inv s' \<and> tbl s' = (tbl s)(h := None)"
begin

lemma add_pointers_table:
  assumes "inv s" "list_all ok vs" "card (dom (tbl s)) + length vs \<le> bound"
  shows "\<exists>hs s'. add_pointers add s vs = Some (hs, s') \<and> inv s' \<and> length hs = length vs \<and> distinct hs
           \<and> (\<forall>h \<in> set hs. tbl s h = None) \<and> tbl s' = (tbl s)(hs [\<mapsto>] vs)"
  using assms
proof (induction vs arbitrary: s)
  case Nil
  then show ?case by simp
next
  case (Cons v vs)
  then obtain h s1 where h: "add s v = Some (h, s1)" "inv s1" "tbl s h = None" "tbl s1 = (tbl s)(h \<mapsto> v)"
    using add [of s v] by auto
  have "card (dom (tbl s1)) = Suc (card (dom (tbl s)))"
    using h(3,4) finite_tbl [OF Cons.prems(1)] by (simp add: domIff)
  with Cons.IH [OF h(2)] Cons.prems obtain hs s2 where
    hs: "add_pointers add s1 vs = Some (hs, s2)" "inv s2" "length hs = length vs" "distinct hs"
      "\<forall>h \<in> set hs. tbl s1 h = None" "tbl s2 = (tbl s1)(hs [\<mapsto>] vs)"
    by auto
  from hs(5) h(4) have "h \<notin> set hs" "\<forall>h \<in> set hs. tbl s h = None"
    by (auto split: if_splits)
  with h hs show ?case by simp
qed

lemma remove_keeps_others:
  assumes "inv s" "tbl s h \<noteq> None"
  shows "\<exists>s'. remove s h = Some s' \<and> (\<forall>h'. h' \<noteq> h \<longrightarrow> tbl s' h' = tbl s h')"
  using remove [OF assms] by auto

end

section \<open>Encoded indices and handles\<close>

lemma PhpDecode_encode [simp]:
  "PhpDecodePointerListIndex (PhpEncodePointerListIndex i) = i"
  unfolding PhpDecodePointerListIndex_def PhpEncodePointerListIndex_def
  by (rule bit_word_eqI)
    (auto simp: bit_simps min_def mult.commute [of _ "2 :: ulong64"] bit_double_iff dest: bit_imp_le_length)

lemma PhpEncode_invalid [simp]: "\<not> PH_IS_LIST_POINTER_VALID (PhpEncodePointerListIndex i)"
  by (simp add: PH_IS_LIST_POINTER_VALID_def PhpEncodePointerListIndex_def and_one_eq mod2_eq_if even_or_iff)

lemma ucast_up_down: "ucast (ucast (x :: ulong) :: ulong64) = x"
  by (rule bit_word_eqI) (auto simp: bit_simps dest: bit_imp_le_length)

lemma PhpHandle_index [simp]:
  "PhpPointerListHandleToIndex (PhpPointerListIndexToHandle i) = i"
  by (simp add: PhpPointerListHandleToIndex_def PhpPointerListIndexToHandle_def ucast_up_down)

lemma PhpPointerListIndexToHandle_eq [simp]:
  "PhpPointerListIndexToHandle i = PhpPointerListIndexToHandle j \<longleftrightarrow> i = j"
  by (metis PhpHandle_index)

lemma PhpPointerListIndexToHandle_null:
  "PhpPointerListIndexToHandle i = 0 \<longleftrightarrow> i = ULONG_MAX"
proof
  assume "PhpPointerListIndexToHandle i = 0"
  then have "i = PhpPointerListHandleToIndex 0"
    by (metis PhpHandle_index)
  then show "i = ULONG_MAX" by (simp add: PhpPointerListHandleToIndex_def)
qed (simp add: PhpPointerListIndexToHandle_def)

section \<open>Invariant\<close>

text \<open>
  The free cells below \<open>NextEntry\<close> form one chain without repetition that starts at \<open>FreeEntry\<close>; every
  other cell below \<open>NextEntry\<close> holds a pointer, and \<open>Count\<close> is their number.
\<close>

definition live :: "ulong64 option list \<Rightarrow> nat \<Rightarrow> bool" where
  "live items i = (case items ! i of Some v \<Rightarrow> PH_IS_LIST_POINTER_VALID v | None \<Rightarrow> False)"

fun free_chain :: "ulong64 option list \<Rightarrow> ulong \<Rightarrow> nat list \<Rightarrow> bool" where
  "free_chain items f [] \<longleftrightarrow> f = ULONG_MAX"
| "free_chain items f (i # gs) \<longleftrightarrow>
     f \<noteq> ULONG_MAX \<and> unat f = i
     \<and> (\<exists>v. items ! i = Some v \<and> free_chain items (PhpDecodePointerListIndex v) gs)"

definition pl_inv :: "PH_POINTER_LIST \<Rightarrow> bool" where
  "pl_inv pl \<longleftrightarrow>
     length (pl_Items pl) = unat (pl_AllocatedCount pl)
     \<and> 0 < pl_AllocatedCount pl
     \<and> pl_NextEntry pl \<le> pl_AllocatedCount pl
     \<and> (\<exists>fs. free_chain (pl_Items pl) (pl_FreeEntry pl) fs \<and> distinct fs
           \<and> set fs = {i. i < unat (pl_NextEntry pl) \<and> \<not> live (pl_Items pl) i})
     \<and> unat (pl_Count pl) = card {i. i < unat (pl_NextEntry pl) \<and> live (pl_Items pl) i}"

definition pl_table :: "PH_POINTER_LIST \<Rightarrow> ulong64 \<Rightarrow> ulong64 option" where
  "pl_table pl h =
     (let i = PhpPointerListHandleToIndex h
      in if h = PhpPointerListIndexToHandle i \<and> i < pl_NextEntry pl \<and> live (pl_Items pl) (unat i)
         then pl_Items pl ! unat i else None)"

lemma free_chain_update:
  "i \<notin> set fs \<Longrightarrow> free_chain (items[i := v]) f fs = free_chain items f fs"
  by (induction fs arbitrary: f) auto

lemma free_chain_append:
  "\<forall>i \<in> set fs. i < length items \<Longrightarrow> free_chain (items @ ys) f fs = free_chain items f fs"
  by (induction fs arbitrary: f) (auto simp: nth_append)

lemma live_update:
  "i < length items \<Longrightarrow>
     live (items[i := Some v]) j = (if j = i then PH_IS_LIST_POINTER_VALID v else live items j)"
  by (simp add: live_def nth_list_update)

lemma pl_table_index:
  "pl_table pl (PhpPointerListIndexToHandle i) =
     (if i < pl_NextEntry pl \<and> live (pl_Items pl) (unat i) then pl_Items pl ! unat i else None)"
  by (simp add: pl_table_def)

lemma pl_table_dom:
  "dom (pl_table pl) =
     (\<lambda>i. PhpPointerListIndexToHandle (of_nat i)) ` {i. i < unat (pl_NextEntry pl) \<and> live (pl_Items pl) i}"
    (is "_ = ?R")
proof
  show "dom (pl_table pl) \<subseteq> ?R"
  proof
    fix h assume "h \<in> dom (pl_table pl)"
    then have "h = PhpPointerListIndexToHandle (of_nat (unat (PhpPointerListHandleToIndex h)))"
      "PhpPointerListHandleToIndex h < pl_NextEntry pl"
      "live (pl_Items pl) (unat (PhpPointerListHandleToIndex h))"
      by (auto simp: pl_table_def Let_def split: if_splits)
    then show "h \<in> ?R"
      by (intro image_eqI [of _ _ "unat (PhpPointerListHandleToIndex h)"]) (auto simp: word_less_nat_alt)
  qed
next
  have "unat (of_nat i :: ulong) = i" if "i < unat (pl_NextEntry pl)" for i
    using that unat_of_nat_le [of i "pl_NextEntry pl"] by simp
  then show "?R \<subseteq> dom (pl_table pl)"
    by (auto simp: pl_table_index word_less_nat_alt live_def split: option.splits)
qed

lemma pl_table_card:
  "card (dom (pl_table pl)) = card {i. i < unat (pl_NextEntry pl) \<and> live (pl_Items pl) i}"
  unfolding pl_table_dom
proof (rule card_image, rule inj_onI, clarsimp)
  fix i j
  assume b: "i < unat (pl_NextEntry pl)" "j < unat (pl_NextEntry pl)"
    and eq: "(of_nat i :: ulong) = of_nat j"
  have "i = unat (of_nat i :: ulong)" "j = unat (of_nat j :: ulong)"
    using b unat_of_nat_le [of _ "pl_NextEntry pl"] by simp_all
  with eq show "i = j" by simp
qed

lemma pl_table_finite: "finite (dom (pl_table pl))"
  unfolding pl_table_dom by simp

lemma PhCreatePointerList_inv:
  "pl_inv (PhCreatePointerList n) \<and> pl_table (PhCreatePointerList n) = Map.empty"
proof -
  have "pl_inv (PhCreatePointerList n)"
    by (auto simp: PhCreatePointerList_def pl_inv_def PhAllocate_def Let_def word_neq_0_conv
        intro!: exI [of _ "[]"])
  moreover have "dom (pl_table (PhCreatePointerList n)) = {}"
    unfolding pl_table_dom by (simp add: PhCreatePointerList_def Let_def)
  ultimately show ?thesis by simp
qed

lemma pl_table_set:
  assumes "h = PhpPointerListIndexToHandle i"
    and "\<And>j. j \<noteq> i \<Longrightarrow> pl_table pl' (PhpPointerListIndexToHandle j) = pl_table pl (PhpPointerListIndexToHandle j)"
    and "pl_table pl' h = v"
  shows "pl_table pl' = (pl_table pl)(h := v)"
proof
  fix k
  show "pl_table pl' k = ((pl_table pl)(h := v)) k"
  proof (cases "k = PhpPointerListIndexToHandle (PhpPointerListHandleToIndex k)")
    case True
    then obtain j where k: "k = PhpPointerListIndexToHandle j" by blast
    then show ?thesis using assms by (cases "j = i") auto
  next
    case False
    then show ?thesis using assms(1) by (auto simp: pl_table_def)
  qed
qed

section \<open>Insertion and removal\<close>

lemma pl_inv_unfold:
  assumes "pl_inv pl"
  obtains fs where
    "length (pl_Items pl) = unat (pl_AllocatedCount pl)" "0 < pl_AllocatedCount pl"
    "unat (pl_NextEntry pl) \<le> unat (pl_AllocatedCount pl)"
    "free_chain (pl_Items pl) (pl_FreeEntry pl) fs" "distinct fs"
    "set fs = {i. i < unat (pl_NextEntry pl) \<and> \<not> live (pl_Items pl) i}"
    "unat (pl_Count pl) = card {i. i < unat (pl_NextEntry pl) \<and> live (pl_Items pl) i}"
  using assms unfolding pl_inv_def word_le_nat_alt by blast

lemma card_live_less:
  "card {i. i < unat (n :: ulong) \<and> P i} < 2 ^ 32"
proof -
  have "card {i. i < unat n \<and> P i} \<le> card {..<unat n}"
    by (rule card_mono) auto
  then show ?thesis
    using unat_ulong_less [of n] by simp
qed

lemma count_incr:
  assumes "unat (c :: ulong) = card {i. i < n \<and> P i}" "k \<notin> {i. i < n \<and> P i}"
    "{i. i < unat (n' :: ulong) \<and> P' i} = insert k {i. i < n \<and> P i}"
  shows "unat (c + 1) = card {i. i < unat n' \<and> P' i}"
proof -
  have "card {i. i < unat n' \<and> P' i} = unat c + 1"
    using assms by simp
  moreover have "card {i. i < unat n' \<and> P' i} < 2 ^ 32"
    by (rule card_live_less)
  ultimately show ?thesis
    using unat_plus_no_overflow [of c 1] by simp
qed

lemma PhAddItemPointerList_reuse:
  assumes inv: "pl_inv pl" and v: "PH_IS_LIST_POINTER_VALID v" and f: "pl_FreeEntry pl \<noteq> ULONG_MAX"
  shows "\<exists>h pl'. PhAddItemPointerList pl v = Some (h, pl') \<and> pl_inv pl' \<and> pl_table pl h = None
           \<and> pl_table pl' = (pl_table pl)(h \<mapsto> v)"
proof -
  from inv obtain fs where
    len: "length (pl_Items pl) = unat (pl_AllocatedCount pl)" and pos: "0 < pl_AllocatedCount pl"
    and le: "unat (pl_NextEntry pl) \<le> unat (pl_AllocatedCount pl)"
    and ch: "free_chain (pl_Items pl) (pl_FreeEntry pl) fs" and d: "distinct fs"
    and fs: "set fs = {i. i < unat (pl_NextEntry pl) \<and> \<not> live (pl_Items pl) i}"
    and cnt: "unat (pl_Count pl) = card {i. i < unat (pl_NextEntry pl) \<and> live (pl_Items pl) i}"
    by (rule pl_inv_unfold)
  define k where "k = unat (pl_FreeEntry pl)"
  from ch f obtain gs w where i: "fs = k # gs" "pl_Items pl ! k = Some w"
    "free_chain (pl_Items pl) (PhpDecodePointerListIndex w) gs"
    by (cases fs) (auto simp: k_def)
  have k: "k < unat (pl_NextEntry pl)" "\<not> live (pl_Items pl) k" "k \<notin> set gs"
    using fs i(1) d by auto
  have kl: "k < length (pl_Items pl)"
    using k(1) len le by simp
  let ?pl = "pl\<lparr>pl_Items := (pl_Items pl)[k := Some v],
                pl_FreeEntry := PhpDecodePointerListIndex w, pl_Count := pl_Count pl + 1\<rparr>"
  let ?h = "PhpPointerListIndexToHandle (pl_FreeEntry pl)"
  note lv = live_update [OF kl]
  have add: "PhAddItemPointerList pl v = Some (?h, ?pl)"
    using f i(2) kl by (simp add: PhAddItemPointerList_def cell_def k_def Let_def)
  have "{i. i < unat (pl_NextEntry pl) \<and> live (pl_Items ?pl) i} =
          insert k {i. i < unat (pl_NextEntry pl) \<and> live (pl_Items pl) i}"
    using v k(1) lv by auto
  from count_incr [OF cnt _ this] k(2)
  have "unat (pl_Count ?pl) = card {i. i < unat (pl_NextEntry ?pl) \<and> live (pl_Items ?pl) i}"
    by simp
  moreover have "set gs = {i. i < unat (pl_NextEntry pl) \<and> \<not> live (pl_Items ?pl) i}"
    using fs i(1) d v lv by auto
  ultimately have "pl_inv ?pl"
    using len pos le d i free_chain_update [OF k(3)] unfolding pl_inv_def
    by (simp add: word_le_nat_alt) metis
  moreover have "pl_table pl ?h = None"
    using k(2) by (simp add: pl_table_index k_def)
  moreover have "pl_table ?pl = (pl_table pl)(?h \<mapsto> v)"
    using k(1) kl v lv
    by (intro pl_table_set [OF refl])
      (auto simp: pl_table_index k_def word_less_nat_alt nth_list_update word_unat_eq_iff)
  ultimately show ?thesis using add by blast
qed

text \<open>The list after the growth step of \<open>PhAddItemPointerList\<close>.\<close>

definition pl_grow :: "PH_POINTER_LIST \<Rightarrow> PH_POINTER_LIST" where
  "pl_grow pl =
     (if pl_NextEntry pl = pl_AllocatedCount pl then
        pl\<lparr>pl_AllocatedCount := pl_AllocatedCount pl * 2,
           pl_Items := PhReAllocate (pl_Items pl) (unat (pl_AllocatedCount pl * 2))\<rparr>
      else pl)"

lemma pl_grow_room:
  assumes len: "length (pl_Items pl) = unat (pl_AllocatedCount pl)" and pos: "0 < pl_AllocatedCount pl"
    and le: "unat (pl_NextEntry pl) \<le> unat (pl_AllocatedCount pl)" and b: "unat (pl_NextEntry pl) < 2 ^ 31"
  shows "length (pl_Items (pl_grow pl)) = unat (pl_AllocatedCount (pl_grow pl))"
    and "0 < pl_AllocatedCount (pl_grow pl)"
    and "unat (pl_NextEntry pl) < unat (pl_AllocatedCount (pl_grow pl))"
    and "\<exists>ys. pl_Items (pl_grow pl) = pl_Items pl @ ys"
    and "pl_NextEntry (pl_grow pl) = pl_NextEntry pl" "pl_Count (pl_grow pl) = pl_Count pl"
      "pl_FreeEntry (pl_grow pl) = pl_FreeEntry pl"
proof -
  have dbl: "unat (pl_AllocatedCount pl * 2) = unat (pl_AllocatedCount pl) * 2"
    if "pl_NextEntry pl = pl_AllocatedCount pl"
    using that b by (simp add: unat_word_ariths)
  have pos': "0 < unat (pl_AllocatedCount pl)"
    using pos by (simp add: unat_gt_0)
  show "length (pl_Items (pl_grow pl)) = unat (pl_AllocatedCount (pl_grow pl))"
    using len by (simp add: pl_grow_def)
  show "0 < pl_AllocatedCount (pl_grow pl)"
    using dbl pos pos' by (auto simp: pl_grow_def word_less_nat_alt)
  show "unat (pl_NextEntry pl) < unat (pl_AllocatedCount (pl_grow pl))"
    using dbl pos' le by (auto simp: pl_grow_def word_unat_eq_iff)
  show "\<exists>ys. pl_Items (pl_grow pl) = pl_Items pl @ ys"
    using dbl len by (auto simp: pl_grow_def PhReAllocate_def)
  show "pl_NextEntry (pl_grow pl) = pl_NextEntry pl" "pl_Count (pl_grow pl) = pl_Count pl"
      "pl_FreeEntry (pl_grow pl) = pl_FreeEntry pl"
    by (simp_all add: pl_grow_def)
qed

lemma PhAddItemPointerList_append:
  assumes inv: "pl_inv pl" and v: "PH_IS_LIST_POINTER_VALID v" and f: "pl_FreeEntry pl = ULONG_MAX"
    and room: "card (dom (pl_table pl)) < 2 ^ 31"
  shows "\<exists>h pl'. PhAddItemPointerList pl v = Some (h, pl') \<and> pl_inv pl' \<and> pl_table pl h = None
           \<and> pl_table pl' = (pl_table pl)(h \<mapsto> v)"
proof -
  from inv obtain fs where
    len: "length (pl_Items pl) = unat (pl_AllocatedCount pl)" and pos: "0 < pl_AllocatedCount pl"
    and le: "unat (pl_NextEntry pl) \<le> unat (pl_AllocatedCount pl)"
    and ch: "free_chain (pl_Items pl) (pl_FreeEntry pl) fs"
    and fs: "set fs = {i. i < unat (pl_NextEntry pl) \<and> \<not> live (pl_Items pl) i}"
    and cnt: "unat (pl_Count pl) = card {i. i < unat (pl_NextEntry pl) \<and> live (pl_Items pl) i}"
    by (rule pl_inv_unfold)
  define k where "k = unat (pl_NextEntry pl)"
  from ch f fs have all: "live (pl_Items pl) i" if "i < k" for i
    using that by (cases fs) (auto simp: k_def)
  then have "{i. i < k \<and> live (pl_Items pl) i} = {..<k}"
    by auto
  with room have "k < 2 ^ 31"
    by (simp add: pl_table_card k_def)
  note g = pl_grow_room [OF len pos le this [unfolded k_def]]
  then obtain ys where ys: "pl_Items (pl_grow pl) = pl_Items pl @ ys" by blast
  have kl: "k < length (pl_Items (pl_grow pl))"
    using g(1,3) by (simp add: k_def)
  let ?m = "(pl_Items (pl_grow pl))[k := Some v]"
  let ?pl = "(pl_grow pl)\<lparr>pl_Items := ?m, pl_NextEntry := pl_NextEntry pl + 1, pl_Count := pl_Count pl + 1\<rparr>"
  let ?h = "PhpPointerListIndexToHandle (pl_NextEntry pl)"
  have next1: "unat (pl_NextEntry pl + 1) = k + 1"
    using unat_plus_no_overflow [of "pl_NextEntry pl" 1] \<open>k < 2 ^ 31\<close> by (simp add: k_def)
  have "mem_write (pl_Items (pl_grow pl)) k [Some v] = Some ?m"
    using kl by (simp add: mem_write_def upd_conv_take_nth_drop)
  then have add: "PhAddItemPointerList pl v = Some (?h, ?pl)"
    using f g(5,6) by (simp add: PhAddItemPointerList_def pl_grow_def [symmetric] k_def Let_def)
  have same: "?m ! i = pl_Items pl ! i" if "i < k" for i
    using that ys len le by (simp add: nth_append k_def)
  have lv: "live ?m i" if "i < k + 1" for i
    using that all same kl v by (cases "i = k") (auto simp: live_def)
  then have "{i. i < unat (pl_NextEntry pl + 1) \<and> live ?m i} = insert k {i. i < k \<and> live (pl_Items pl) i}"
    using all next1 by auto
  from count_incr [OF cnt [folded k_def] _ this]
  have "unat (pl_Count pl + 1) = card {i. i < unat (pl_NextEntry pl + 1) \<and> live ?m i}"
    by simp
  then have "pl_inv ?pl"
    using g lv next1 kl f unfolding pl_inv_def word_le_nat_alt
    by (auto simp: k_def intro!: exI [of _ "[]"])
  moreover have "pl_table pl ?h = None"
    by (simp add: pl_table_index)
  moreover have "pl_table ?pl = (pl_table pl)(?h \<mapsto> v)"
  proof (rule pl_table_set [OF refl])
    show "pl_table ?pl ?h = Some v"
      using kl lv [of k] next1 by (simp add: pl_table_index k_def word_less_nat_alt)
    fix j assume "j \<noteq> pl_NextEntry pl"
    then have "j < pl_NextEntry pl + 1 \<longleftrightarrow> j < pl_NextEntry pl"
      using next1 by (auto simp: word_less_nat_alt word_unat_eq_iff k_def)
    then show "pl_table ?pl (PhpPointerListIndexToHandle j) = pl_table pl (PhpPointerListIndexToHandle j)"
      using all lv same by (auto simp: pl_table_index word_less_nat_alt k_def)
  qed
  ultimately show ?thesis using add by blast
qed

lemma PhRemoveItemPointerList_removes:
  assumes inv: "pl_inv pl" and h: "pl_table pl h \<noteq> None"
  shows "\<exists>pl'. PhRemoveItemPointerList pl h = Some pl' \<and> pl_inv pl' \<and> pl_table pl' = (pl_table pl)(h := None)"
proof -
  from inv obtain fs where
    len: "length (pl_Items pl) = unat (pl_AllocatedCount pl)" and pos: "0 < pl_AllocatedCount pl"
    and le: "unat (pl_NextEntry pl) \<le> unat (pl_AllocatedCount pl)"
    and ch: "free_chain (pl_Items pl) (pl_FreeEntry pl) fs" and d: "distinct fs"
    and fs: "set fs = {i. i < unat (pl_NextEntry pl) \<and> \<not> live (pl_Items pl) i}"
    and cnt: "unat (pl_Count pl) = card {i. i < unat (pl_NextEntry pl) \<and> live (pl_Items pl) i}"
    by (rule pl_inv_unfold)
  define i where "i = PhpPointerListHandleToIndex h"
  from h have hi: "h = PhpPointerListIndexToHandle i" and ib: "unat i < unat (pl_NextEntry pl)"
    and il: "live (pl_Items pl) (unat i)"
    by (auto simp: pl_table_def Let_def i_def word_less_nat_alt split: if_splits)
  have kl: "unat i < length (pl_Items pl)"
    using ib len le by simp
  have imax: "i \<noteq> ULONG_MAX"
    using ib unat_ulong_less [of "pl_NextEntry pl"] by auto
  note lv = live_update [OF kl]
  let ?e = "PhpEncodePointerListIndex (pl_FreeEntry pl)"
  let ?m = "(pl_Items pl)[unat i := Some ?e]"
  let ?pl = "pl\<lparr>pl_Items := ?m, pl_FreeEntry := i, pl_Count := pl_Count pl - 1\<rparr>"
  have rem: "PhRemoveItemPointerList pl h = Some ?pl"
    using kl by (simp add: PhRemoveItemPointerList_def i_def Let_def)
  have ni: "unat i \<notin> set fs"
    using fs il by simp
  have "{j. j < unat (pl_NextEntry pl) \<and> live (pl_Items pl) j} =
          insert (unat i) {j. j < unat (pl_NextEntry pl) \<and> live ?m j}"
    using ib il lv by auto
  then have "card {j. j < unat (pl_NextEntry pl) \<and> live ?m j} + 1 = unat (pl_Count pl)"
    using cnt lv by simp
  then have "unat (pl_Count pl - 1) = card {j. j < unat (pl_NextEntry pl) \<and> live ?m j}"
    using unat_minus_one [of "pl_Count pl"] by fastforce
  moreover have "free_chain ?m i (unat i # fs)"
    using ch ni kl imax by (simp add: free_chain_update)
  moreover have "set (unat i # fs) = {j. j < unat (pl_NextEntry pl) \<and> \<not> live ?m j}"
    using fs ib lv by auto
  moreover have "distinct (unat i # fs)"
    using d ni by simp
  ultimately have "\<exists>gs. free_chain ?m i gs \<and> distinct gs
      \<and> set gs = {j. j < unat (pl_NextEntry pl) \<and> \<not> live ?m j}"
    and "unat (pl_Count pl - 1) = card {j. j < unat (pl_NextEntry pl) \<and> live ?m j}"
    by blast+
  then have "pl_inv ?pl"
    using len pos le by (simp add: pl_inv_def word_le_nat_alt)
  moreover have "pl_table ?pl = (pl_table pl)(h := None)"
    using lv by (intro pl_table_set [OF hi]) (auto simp: hi pl_table_index word_unat_eq_iff)
  ultimately show ?thesis using rem by blast
qed

interpretation pl: handle_table pl_inv pl_table PH_IS_LIST_POINTER_VALID "2 ^ 31"
  PhAddItemPointerList PhRemoveItemPointerList
  using PhAddItemPointerList_reuse PhAddItemPointerList_append PhRemoveItemPointerList_removes
  by unfold_locales (simp_all add: pl_table_finite, blast)

section \<open>Search and enumeration\<close>

text \<open>The stored pointers with their handles, in the order of their indices from \<open>i\<close> on.\<close>

definition pl_pairs :: "PH_POINTER_LIST \<Rightarrow> nat \<Rightarrow> (ulong64 \<times> ulong64) list" where
  "pl_pairs pl i =
     [(PhpPointerListIndexToHandle (of_nat j), the (pl_Items pl ! j)).
        j \<leftarrow> [i..<unat (pl_NextEntry pl)], live (pl_Items pl) j]"

lemma pl_pairs_graph: "set (pl_pairs pl 0) = {(h, p). pl_table pl h = Some p}"
proof -
  have "(h, p) \<in> set (pl_pairs pl 0) \<longleftrightarrow> pl_table pl h = Some p" for h p
  proof
    assume "(h, p) \<in> set (pl_pairs pl 0)"
    then obtain j where j: "j < unat (pl_NextEntry pl)" "live (pl_Items pl) j"
      "h = PhpPointerListIndexToHandle (of_nat j)" "p = the (pl_Items pl ! j)"
      by (auto simp: pl_pairs_def)
    have "unat (of_nat j :: ulong) = j"
      using j(1) unat_of_nat_le [of j "pl_NextEntry pl"] by simp
    with j show "pl_table pl h = Some p"
      by (auto simp: pl_table_index word_less_nat_alt live_def split: option.splits)
  next
    assume t: "pl_table pl h = Some p"
    then have "h \<in> dom (pl_table pl)" by blast
    then obtain j where j: "j < unat (pl_NextEntry pl)" "live (pl_Items pl) j"
      "h = PhpPointerListIndexToHandle (of_nat j)"
      unfolding pl_table_dom by blast
    have "unat (of_nat j :: ulong) = j"
      using j(1) unat_of_nat_le [of j "pl_NextEntry pl"] by simp
    with t j show "(h, p) \<in> set (pl_pairs pl 0)"
      by (auto simp: pl_table_index pl_pairs_def split: if_splits)
  qed
  then show ?thesis by auto
qed

lemma enum_pointer_loop_pairs:
  assumes "i + n = unat (pl_NextEntry pl)"
  shows "case enum_pointer_loop (pl_Items pl) i n of
           None \<Rightarrow> pl_pairs pl i = []
         | Some (p, h, k) \<Rightarrow> pl_pairs pl i = (h, p) # pl_pairs pl (unat k) \<and> i < unat k \<and> unat k \<le> i + n"
  using assms
proof (induction n arbitrary: i)
  case 0
  then show ?case by (simp add: pl_pairs_def)
next
  case (Suc n)
  have up: "[i..<unat (pl_NextEntry pl)] = i # [Suc i..<unat (pl_NextEntry pl)]"
    using Suc.prems by (simp add: upt_conv_Cons)
  have "unat (of_nat i :: ulong) = i" and "Suc i \<le> unat (pl_NextEntry pl)"
    using Suc.prems unat_of_nat_le [of i "pl_NextEntry pl"] by simp_all
  then have k: "unat (of_nat i + 1 :: ulong) = Suc i"
    using unat_plus_no_overflow [of "of_nat i :: ulong" 1] unat_ulong_less [of "pl_NextEntry pl"] by simp
  show ?case
  proof (cases "live (pl_Items pl) i")
    case True
    then obtain v where "pl_Items pl ! i = Some v" "PH_IS_LIST_POINTER_VALID v"
      by (auto simp: live_def split: option.splits)
    with True k show ?thesis by (simp add: pl_pairs_def up)
  next
    case False
    then have "enum_pointer_loop (pl_Items pl) i (Suc n) = enum_pointer_loop (pl_Items pl) (Suc i) n"
      and "pl_pairs pl i = pl_pairs pl (Suc i)"
      by (auto simp: live_def pl_pairs_def up split: option.splits)
    with Suc.IH [of "Suc i"] Suc.prems show ?thesis by (auto split: option.splits)
  qed
qed

text \<open>A caller's enumeration: \<open>PhEnumPointerListEx\<close> from key 0 until it returns \<open>FALSE\<close>.\<close>

function enum_pointers :: "PH_POINTER_LIST \<Rightarrow> ulong \<Rightarrow> (ulong64 \<times> ulong64) list" where
  "enum_pointers pl key =
     (case PhEnumPointerListEx pl key of
        None \<Rightarrow> []
      | Some (p, h, key') \<Rightarrow> if key < key' then (h, p) # enum_pointers pl key' else [])"
  by pat_completeness auto
termination
  by (relation "measure (\<lambda>(pl, key). 2 ^ 32 - unat key)")
    (auto simp: word_less_nat_alt intro!: diff_less_mono2 order.strict_trans1 [OF _ unat_ulong_less])

declare enum_pointers.simps [simp del]

lemma enum_pointers_pairs:
  "enum_pointers pl key = pl_pairs pl (unat key)"
proof (induction pl key rule: enum_pointers.induct)
  case (1 pl key)
  show ?case
  proof (cases "unat key \<le> unat (pl_NextEntry pl)")
    case True
    then show ?thesis
      using enum_pointer_loop_pairs [of "unat key" "unat (pl_NextEntry pl) - unat key" pl] 1
      by (auto simp: PhEnumPointerListEx_def enum_pointers.simps [of pl key] word_less_nat_alt
          split: option.splits)
  next
    case False
    then show ?thesis
      by (simp add: PhEnumPointerListEx_def enum_pointers.simps [of pl key] pl_pairs_def)
  qed
qed

lemma find_pointer_loop_pairs:
  assumes "i + n = unat (pl_NextEntry pl)" "PH_IS_LIST_POINTER_VALID p"
  shows "find_pointer_loop (pl_Items pl) p i n =
           (case find (\<lambda>x. snd x = p) (pl_pairs pl i) of Some (h, q) \<Rightarrow> h | None \<Rightarrow> 0)"
  using assms(1)
proof (induction n arbitrary: i)
  case 0
  then show ?case by (simp add: pl_pairs_def)
next
  case (Suc n)
  then have "[i..<unat (pl_NextEntry pl)] = i # [Suc i..<unat (pl_NextEntry pl)]"
    by (simp add: upt_conv_Cons)
  then have "pl_pairs pl i =
      (if live (pl_Items pl) i then [(PhpPointerListIndexToHandle (of_nat i), the (pl_Items pl ! i))] else [])
      @ pl_pairs pl (Suc i)"
    by (simp add: pl_pairs_def)
  with Suc.IH [of "Suc i"] Suc.prems assms(2) show ?case
    by (auto simp: live_def split: option.splits)
qed

lemma pl_table_null: "pl_table pl 0 = None"
proof -
  have "\<not> ULONG_MAX < pl_NextEntry pl"
    using unat_ulong_less [of "pl_NextEntry pl"] by (simp add: word_less_nat_alt)
  then show ?thesis
    by (simp add: pl_table_def PhpPointerListHandleToIndex_def)
qed

section \<open>Properties\<close>

text \<open>
  Handles of the pointer list: adding any sequence of 2-byte aligned pointers returns handles that
  are distinct, not \<open>NULL\<close> and not in use before, and the resulting table maps each to its pointer and
  every other handle to what it was. The bound is the number of pointers up to which doubling the
  capacity does not wrap.
\<close>

theorem PhAddItemPointerList_handles:
  assumes "pl_inv pl" "list_all PH_IS_LIST_POINTER_VALID ps" "card (dom (pl_table pl)) + length ps \<le> 2 ^ 31"
  shows "\<exists>hs pl'. add_pointers PhAddItemPointerList pl ps = Some (hs, pl') \<and> pl_inv pl'
           \<and> length hs = length ps \<and> distinct hs \<and> (\<forall>h \<in> set hs. pl_table pl h = None) \<and> 0 \<notin> set hs
           \<and> pl_table pl' = (pl_table pl)(hs [\<mapsto>] ps)"
proof -
  obtain hs pl' where r: "add_pointers PhAddItemPointerList pl ps = Some (hs, pl')" "pl_inv pl'"
    "length hs = length ps" "distinct hs" "\<forall>h \<in> set hs. pl_table pl h = None"
    "pl_table pl' = (pl_table pl)(hs [\<mapsto>] ps)"
    using pl.add_pointers_table [OF assms] by blast
  have "0 \<notin> set hs"
  proof
    assume "0 \<in> set hs"
    then have "0 \<in> dom (pl_table pl')" using r(3,6) by (auto simp: dom_map_upds)
    then show False by (simp add: domIff pl_table_null)
  qed
  with r show ?thesis by blast
qed

theorem PhAddItemPointerList_handles_witness:
  "\<exists>hs pl'. add_pointers PhAddItemPointerList (PhCreatePointerList 1) [0x1000, 0x2000, 0x1000] = Some (hs, pl')
     \<and> distinct hs \<and> pl_table pl' (hs ! 1) = Some 0x2000"
proof -
  obtain hs pl' where r: "add_pointers PhAddItemPointerList (PhCreatePointerList 1) [0x1000, 0x2000, 0x1000] = Some (hs, pl')"
    "length hs = 3" "distinct hs" "pl_table pl' = [hs [\<mapsto>] [0x1000, 0x2000, 0x1000]]"
    using PhAddItemPointerList_handles [of "PhCreatePointerList 1" "[0x1000, 0x2000, 0x1000]"]
      PhCreatePointerList_inv [of 1] by (auto simp: PH_IS_LIST_POINTER_VALID_def)
  then obtain a b c where "hs = [a, b, c]" "b \<noteq> c"
    by (auto simp: numeral_3_eq_3 length_Suc_conv)
  with r show ?thesis by auto
qed

text \<open>
  C29. Removing a handle that is in use keeps the free chain and the count consistent, removes exactly
  that handle, and the next addition returns the same handle again.
\<close>

theorem PhRemoveItemPointerList_correct:
  assumes "pl_inv pl" "pl_table pl h = Some p"
  shows "\<exists>pl'. PhRemoveItemPointerList pl h = Some pl' \<and> pl_inv pl' \<and> pl_table pl' = (pl_table pl)(h := None)
           \<and> unat (pl_Count pl') + 1 = unat (pl_Count pl)
           \<and> (\<exists>pl''. PhAddItemPointerList pl' q = Some (h, pl''))"
proof -
  obtain pl' where r: "PhRemoveItemPointerList pl h = Some pl'" "pl_inv pl'"
    "pl_table pl' = (pl_table pl)(h := None)"
    using pl.remove [of pl h] assms by auto
  have i: "h = PhpPointerListIndexToHandle (PhpPointerListHandleToIndex h)"
    "PhpPointerListHandleToIndex h < pl_NextEntry pl"
    using assms(2) by (auto simp: pl_table_def Let_def split: if_splits)
  have "card (dom (pl_table pl)) = card (dom (pl_table pl')) + 1"
    using r(3) assms(2) pl_table_finite [of pl] card_Suc_Diff1 [of "dom (pl_table pl)" h]
    by (auto simp: domIff)
  then have "unat (pl_Count pl') + 1 = unat (pl_Count pl)"
    using r(2) assms(1) by (simp add: pl_inv_def pl_table_card)
  moreover have "PhpPointerListHandleToIndex h \<noteq> ULONG_MAX"
    using i(2) unat_ulong_less [of "pl_NextEntry pl"] by (auto simp: word_less_nat_alt)
  then have "\<exists>pl''. PhAddItemPointerList pl' q = Some (h, pl'')"
    using r(1) i(1) by (auto simp: PhRemoveItemPointerList_def PhAddItemPointerList_def cell_def Let_def
        split: if_splits)
  ultimately show ?thesis using r by blast
qed

definition two_pointers :: PH_POINTER_LIST where
  "two_pointers = \<lparr> pl_Count = 2, pl_AllocatedCount = 4, pl_FreeEntry = 1, pl_NextEntry = 3,
     pl_Items = [Some 0x1000, Some 0x1FFFFFFFF, Some 0x2000, None] \<rparr>"

lemma two_pointers_live: "{i. i < 3 \<and> live (pl_Items two_pointers) i} = {0, 2}"
  and two_pointers_free: "{i. i < 3 \<and> \<not> live (pl_Items two_pointers) i} = {1}"
proof -
  have "live (pl_Items two_pointers) 0" "\<not> live (pl_Items two_pointers) (Suc 0)"
    "live (pl_Items two_pointers) (Suc (Suc 0))"
    by (simp_all add: live_def two_pointers_def PH_IS_LIST_POINTER_VALID_def)
  then show "{i. i < 3 \<and> live (pl_Items two_pointers) i} = {0, 2}"
    "{i. i < 3 \<and> \<not> live (pl_Items two_pointers) i} = {1}"
    by (auto simp: numeral_3_eq_3 numeral_2_eq_2 less_Suc_eq)
qed

lemma two_pointers_inv: "pl_inv two_pointers" "pl_table two_pointers 3 = Some 0x2000"
proof -
  have "free_chain (pl_Items two_pointers) (pl_FreeEntry two_pointers) [1]"
    by (simp add: two_pointers_def PhpDecodePointerListIndex_def)
  moreover have n: "unat (pl_NextEntry two_pointers) = 3"
    by (simp add: two_pointers_def)
  ultimately have "\<exists>fs. free_chain (pl_Items two_pointers) (pl_FreeEntry two_pointers) fs \<and> distinct fs
      \<and> set fs = {i. i < unat (pl_NextEntry two_pointers) \<and> \<not> live (pl_Items two_pointers) i}"
    using two_pointers_free by (intro exI [of _ "[1]"]) simp
  moreover have "unat (pl_Count two_pointers) =
      card {i. i < unat (pl_NextEntry two_pointers) \<and> live (pl_Items two_pointers) i}"
    unfolding n two_pointers_live by (simp add: two_pointers_def)
  ultimately show "pl_inv two_pointers"
    unfolding pl_inv_def by (simp add: two_pointers_def)
  show "pl_table two_pointers 3 = Some 0x2000"
    by code_simp
qed

theorem PhRemoveItemPointerList_correct_witness:
  "\<exists>pl'. PhRemoveItemPointerList two_pointers 3 = Some pl' \<and> pl_table pl' 3 = None
     \<and> (\<exists>pl''. PhAddItemPointerList pl' 0x3000 = Some (3, pl''))"
  using PhRemoveItemPointerList_correct [OF two_pointers_inv, of "0x3000"] by auto

text \<open>
  Searching and enumerating: \<open>PhFindItemPointerList\<close> returns a handle of the pointer, or \<open>NULL\<close>
  exactly when the pointer is not in the list; enumeration with \<open>PhEnumPointerListEx\<close> from key 0 ends
  and delivers exactly the pairs of handle and pointer in the table.
\<close>

theorem PhPointerList_find_enum:
  assumes "pl_inv pl" "PH_IS_LIST_POINTER_VALID p"
  shows "(if p \<in> ran (pl_table pl) then pl_table pl (PhFindItemPointerList pl p) = Some p
          else PhFindItemPointerList pl p = 0)
         \<and> set (enum_pointers pl 0) = {(h, q). pl_table pl h = Some q}"
proof
  have f: "PhFindItemPointerList pl p =
      (case find (\<lambda>x. snd x = p) (pl_pairs pl 0) of Some (h, q) \<Rightarrow> h | None \<Rightarrow> 0)"
    using find_pointer_loop_pairs [of 0 "unat (pl_NextEntry pl)" pl p] assms(2)
    by (simp add: PhFindItemPointerList_def)
  show "if p \<in> ran (pl_table pl) then pl_table pl (PhFindItemPointerList pl p) = Some p
        else PhFindItemPointerList pl p = 0"
  proof (cases "find (\<lambda>x. snd x = p) (pl_pairs pl 0)")
    case None
    then have "p \<notin> ran (pl_table pl)"
      using pl_pairs_graph [of pl] by (auto simp: find_None_iff ran_def)
    with None f show ?thesis by simp
  next
    case (Some hq)
    then have "hq \<in> set (pl_pairs pl 0)" "snd hq = p"
      by (auto simp: find_Some_iff)
    with Some f show ?thesis
      using pl_pairs_graph [of pl] by (auto simp: ran_def split: prod.splits)
  qed
  show "set (enum_pointers pl 0) = {(h, q). pl_table pl h = Some q}"
    by (simp add: enum_pointers_pairs pl_pairs_graph)
qed

theorem PhPointerList_find_enum_witness:
  "pl_table two_pointers (PhFindItemPointerList two_pointers 0x2000) = Some 0x2000
   \<and> (3, 0x2000) \<in> set (enum_pointers two_pointers 0)"
proof -
  have "PH_IS_LIST_POINTER_VALID 0x2000"
    by (simp add: PH_IS_LIST_POINTER_VALID_def)
  moreover have "0x2000 \<in> ran (pl_table two_pointers)"
    using two_pointers_inv(2) by (rule ranI)
  ultimately show ?thesis
    using PhPointerList_find_enum [OF two_pointers_inv(1), of "0x2000"] two_pointers_inv(2) by simp
qed

end
