(* ===== verification/PhString.thy ===== *)
theory PhString
  imports PhPrelude
begin

text \<open>
  Null-terminated strings and string references of \<open>src/phlib/basesup.c\<close>: length, bounded copy,
  comparison, equality, search, splitting and trimming.

  A string reference is the list of its characters; its \<open>Length\<close> field is twice the length of the
  list. Strings in memory are shorter than \<open>2 ^ 63\<close> characters, so the \<open>SIZE_T\<close> arithmetic on lengths
  and indices does not wrap and is done on natural numbers; the result \<open>SIZE_MAX\<close> of a search that
  finds nothing is \<open>None\<close>. The functions with a path for 128-bit vectors take the value of the global
  \<open>PhHasIntrinsics\<close> as a parameter, and \<open>PhUpcaseUnicodeChar\<close>, which calls the operating system's
  case table, is the parameter \<open>up\<close>.
\<close>

section \<open>Vector instructions\<close>

text \<open>
  A 128-bit vector of eight characters or of four pairs of them. A comparison sets every bit of a lane
  in which the operands agree; the mask has one bit per byte, so \<open>k\<close> bits for a lane of \<open>k\<close> bytes.
\<close>

definition PhMoveMaskINT128by8 :: "nat \<Rightarrow> bool list \<Rightarrow> ulong" where
  "PhMoveMaskINT128by8 k lanes = horner_sum of_bool 2 (concat (map (replicate k) lanes))"

definition PhCompareEqINT128by16 :: "wchar list \<Rightarrow> wchar list \<Rightarrow> bool list" where
  "PhCompareEqINT128by16 xs ys = map2 (=) xs ys"

definition PhCompareEqINT128by32 :: "wchar list \<Rightarrow> wchar list \<Rightarrow> bool list" where
  "PhCompareEqINT128by32 xs ys =
     map (\<lambda>i. take 2 (drop (2 * i) xs) = take 2 (drop (2 * i) ys)) [0..<4]"

definition BitScanForward :: "ulong \<Rightarrow> nat option" where
  "BitScanForward bits = find (bit bits) [0..<32]"

definition BitScanReverse :: "ulong \<Rightarrow> nat option" where
  "BitScanReverse bits = find (bit bits) (rev [0..<32])"

section \<open>Null-terminated strings\<close>

text \<open>
  The loop over whole blocks of \<open>PhCountStringZ\<close>. \<open>m\<close> is the memory from the block that contains the
  start of the string on, \<open>p\<close> the position of the current block in it and \<open>start\<close> that of the string;
  \<open>n\<close> is the number of blocks of \<open>m\<close> that are left, and \<open>None\<close> means that the code reads beyond them.
\<close>

fun count_blocks :: "wchar list \<Rightarrow> nat \<Rightarrow> nat \<Rightarrow> nat \<Rightarrow> nat option" where
  "count_blocks m start p 0 = None"
| "count_blocks m start p (Suc n) =
     (case BitScanForward (PhMoveMaskINT128by8 2 (PhCompareEqINT128by16 (take 8 (drop p m)) (replicate 8 0))) of
        Some index \<Rightarrow> Some (p - start + index div 2)
      | None \<Rightarrow> count_blocks m start (p + 8) n)"

fun wcslen :: "wchar list \<Rightarrow> nat option" where
  "wcslen [] = None"
| "wcslen (c # s) = (if c = 0 then Some 0 else map_option Suc (wcslen s))"

text \<open>
  \<open>start\<close> is the distance in characters of the string from the preceding 16-byte boundary, where \<open>m\<close>
  starts: \<open>unaligned\<close> is twice that.
\<close>

definition PhCountStringZ :: "bool \<Rightarrow> wchar list \<Rightarrow> nat \<Rightarrow> nat option" where
  "PhCountStringZ intrinsics m start =
     (if intrinsics then
        if start \<noteq> 0 then
          if length m < 8 then None
          else (case BitScanForward (drop_bit (2 * start)
                  (PhMoveMaskINT128by8 2 (PhCompareEqINT128by16 (take 8 m) (replicate 8 0)))) of
             Some index \<Rightarrow> Some (index div 2)
           | None \<Rightarrow> count_blocks m start 8 (length m div 8 - 1))
        else count_blocks m start 0 (length m div 8)
      else wcslen (drop start m))"

text \<open>
  \<open>PhCopyBytesZ\<close> and \<open>PhCopyStringZ\<close>: the length of the input is bounded by \<open>InputCount\<close> unless that
  is \<open>SIZE_MAX\<close> (\<open>None\<close>). The last argument of the copy is \<open>sizeof\<close> of the terminator, which the code
  adds to a number of characters. The result is whether the string was copied, the output buffer and
  \<open>ReturnCount\<close>; the outer \<open>None\<close> is an access outside a buffer.
\<close>

fun bounded_length :: "'a::zero list \<Rightarrow> nat \<Rightarrow> nat \<Rightarrow> nat option" where
  "bounded_length buf i 0 = Some i"
| "bounded_length buf i (Suc n) =
     (if i < length buf then if buf ! i \<noteq> 0 then bounded_length buf (Suc i) n else Some i else None)"

definition copy_z ::
  "nat \<Rightarrow> nat option \<Rightarrow> 'a::zero list \<Rightarrow> 'a list option \<Rightarrow> nat \<Rightarrow> (bool \<times> 'a list option \<times> nat) option" where
  "copy_z terminator len input output outputCount =
     Option.bind len (\<lambda>i.
       case output of
         None \<Rightarrow> Some (False, None, i + terminator)
       | Some buf \<Rightarrow>
           if outputCount \<ge> i + terminator then
             Option.bind (mem_read input 0 i) (\<lambda>s.
             Option.bind (mem_write buf 0 s) (\<lambda>buf.
             Option.bind (mem_write buf i [0]) (\<lambda>buf.
               Some (True, Some buf, i + terminator))))
           else Some (False, Some buf, i + terminator))"

fun strlen :: "uchar list \<Rightarrow> nat option" where
  "strlen [] = None"
| "strlen (c # s) = (if c = 0 then Some 0 else map_option Suc (strlen s))"

definition PhCopyBytesZ ::
  "uchar list \<Rightarrow> nat option \<Rightarrow> uchar list option \<Rightarrow> nat \<Rightarrow> (bool \<times> uchar list option \<times> nat) option" where
  "PhCopyBytesZ input inputCount output outputCount =
     copy_z 1 (case inputCount of Some n \<Rightarrow> bounded_length input 0 n | None \<Rightarrow> strlen input)
       input output outputCount"

definition PhCopyStringZ ::
  "wchar list \<Rightarrow> nat option \<Rightarrow> wchar list option \<Rightarrow> nat \<Rightarrow> (bool \<times> wchar list option \<times> nat) option" where
  "PhCopyStringZ input inputCount output outputCount =
     copy_z 2 (case inputCount of Some n \<Rightarrow> bounded_length input 0 n | None \<Rightarrow> wcslen input)
       input output outputCount"

section \<open>Comparison and equality\<close>

text \<open>
  The loop of \<open>PhCompareStringRef\<close> over the common length of the two strings, with the result of type
  \<open>LONG\<close>; the final difference is that of the lengths in bytes.
\<close>

fun compare_loop :: "(wchar \<Rightarrow> wchar) \<Rightarrow> bool \<Rightarrow> wchar list \<Rightarrow> wchar list \<Rightarrow> 32 word option" where
  "compare_loop up ignoreCase (c1 # s1) (c2 # s2) =
     (if c1 \<noteq> c2 then
        if ignoreCase then
          if up c1 \<noteq> up c2 then Some (ucast (up c1) - ucast (up c2)) else compare_loop up ignoreCase s1 s2
        else Some (ucast c1 - ucast c2)
      else compare_loop up ignoreCase s1 s2)"
| "compare_loop up ignoreCase _ _ = None"

definition PhCompareStringRef :: "(wchar \<Rightarrow> wchar) \<Rightarrow> wchar list \<Rightarrow> wchar list \<Rightarrow> bool \<Rightarrow> 32 word" where
  "PhCompareStringRef up s1 s2 ignoreCase =
     (case compare_loop up ignoreCase s1 s2 of
        Some d \<Rightarrow> d
      | None \<Rightarrow> ucast (of_nat (2 * length s1) - of_nat (2 * length s2) :: ulong64))"

fun equal_chars :: "(wchar \<Rightarrow> wchar) \<Rightarrow> bool \<Rightarrow> wchar list \<Rightarrow> wchar list \<Rightarrow> nat \<Rightarrow> bool" where
  "equal_chars up ignoreCase s1 s2 0 = True"
| "equal_chars up ignoreCase s1 s2 (Suc n) =
     (if hd s1 \<noteq> hd s2 \<and> (\<not> ignoreCase \<or> up (hd s1) \<noteq> up (hd s2)) then False
      else equal_chars up ignoreCase (tl s1) (tl s2) n)"

text \<open>
  The block loop of \<open>PhEqualStringRef\<close>, for blocks of \<open>w\<close> characters: the blocks left and the rest of
  both strings at the first difference, or the rest of both strings after the last block.
\<close>

fun equal_blocks ::
  "(wchar list \<Rightarrow> wchar list \<Rightarrow> bool) \<Rightarrow> nat \<Rightarrow> wchar list \<Rightarrow> wchar list \<Rightarrow> nat
   \<Rightarrow> nat \<times> wchar list \<times> wchar list + wchar list \<times> wchar list" where
  "equal_blocks eq w s1 s2 0 = Inr (s1, s2)"
| "equal_blocks eq w s1 s2 (Suc n) =
     (if \<not> eq (take w s1) (take w s2) then Inl (Suc n, s1, s2)
      else equal_blocks eq w (drop w s1) (drop w s2) n)"

definition block_eq :: "bool \<Rightarrow> wchar list \<Rightarrow> wchar list \<Rightarrow> bool" where
  "block_eq intrinsics b1 b2 \<longleftrightarrow>
     (if intrinsics then PhMoveMaskINT128by8 4 (PhCompareEqINT128by32 b1 b2) = 0xFFFF else b1 = b2)"

definition PhEqualStringRef :: "(wchar \<Rightarrow> wchar) \<Rightarrow> bool \<Rightarrow> wchar list \<Rightarrow> wchar list \<Rightarrow> bool \<Rightarrow> bool" where
  "PhEqualStringRef up intrinsics s1 s2 ignoreCase =
     (let l1 = 2 * length s1; l2 = 2 * length s2; b = (if intrinsics then 16 else 8)
      in if l1 \<noteq> l2 then False
         else case equal_blocks (block_eq intrinsics) (b div 2) s1 s2 (l1 div b) of
           Inl (n, s1, s2) \<Rightarrow>
             if \<not> ignoreCase then False
             else equal_chars up ignoreCase s1 s2 ((n * b + l1 mod b) div 2)
         | Inr (s1, s2) \<Rightarrow> equal_chars up ignoreCase s1 s2 (l1 mod b div 2))"

section \<open>Search\<close>

fun find_blocks :: "wchar \<Rightarrow> wchar list \<Rightarrow> nat \<Rightarrow> nat \<times> nat + wchar list" where
  "find_blocks c s 0 = Inr s"
| "find_blocks c s (Suc n) =
     (case BitScanForward (PhMoveMaskINT128by8 2 (PhCompareEqINT128by16 (take 8 s) (replicate 8 c))) of
        Some index \<Rightarrow> Inl (Suc n, index)
      | None \<Rightarrow> find_blocks c (drop 8 s) n)"

text \<open>The loop over single characters returns the number of characters left at the match.\<close>

fun find_chars :: "(wchar \<Rightarrow> bool) \<Rightarrow> wchar list \<Rightarrow> nat \<Rightarrow> nat option" where
  "find_chars P s 0 = None"
| "find_chars P s (Suc n) = (if P (hd s) then Some (Suc n) else find_chars P (tl s) n)"

definition PhFindCharInStringRef :: "(wchar \<Rightarrow> wchar) \<Rightarrow> bool \<Rightarrow> wchar list \<Rightarrow> wchar \<Rightarrow> bool \<Rightarrow> nat option" where
  "PhFindCharInStringRef up intrinsics s character ignoreCase =
     (let length_bytes = 2 * length s
      in if \<not> ignoreCase then
           if intrinsics then
             let n = length_bytes div 2 mod 8
             in case find_blocks character s (length_bytes div 16) of
                  Inl (length16, index) \<Rightarrow> Some ((length_bytes - length16 * 16) div 2 - n + index div 2)
                | Inr s' \<Rightarrow> map_option (\<lambda>left. length_bytes div 2 - left) (find_chars (\<lambda>c. c = character) s' n)
           else map_option (\<lambda>left. length_bytes div 2 - left)
                  (find_chars (\<lambda>c. c = character) s (length_bytes div 2))
         else let c = up character
              in map_option (\<lambda>left. length_bytes div 2 - left)
                   (find_chars (\<lambda>b. up b = c) s (length_bytes div 2)))"

text \<open>
  The backward search moves a pointer, here its distance from the start of the buffer, which may
  become negative before the correction that follows the block loop.
\<close>

definition block_at :: "wchar list \<Rightarrow> int \<Rightarrow> wchar list" where
  "block_at s pos = take 8 (drop (nat pos) s)"

fun find_last_blocks :: "wchar \<Rightarrow> wchar list \<Rightarrow> int \<Rightarrow> nat \<Rightarrow> nat \<times> nat + int" where
  "find_last_blocks c s pos 0 = Inr pos"
| "find_last_blocks c s pos (Suc n) =
     (case BitScanReverse (PhMoveMaskINT128by8 2 (PhCompareEqINT128by16 (block_at s pos) (replicate 8 c))) of
        Some index \<Rightarrow> Inl (Suc n, index)
      | None \<Rightarrow> find_last_blocks c s (pos - 8) n)"

fun find_last_chars :: "(wchar \<Rightarrow> bool) \<Rightarrow> wchar list \<Rightarrow> int \<Rightarrow> nat \<Rightarrow> nat option" where
  "find_last_chars P s pos 0 = None"
| "find_last_chars P s pos (Suc n) =
     (if P (s ! nat pos) then Some n else find_last_chars P s (pos - 1) n)"

definition PhFindLastCharInStringRef ::
  "(wchar \<Rightarrow> wchar) \<Rightarrow> bool \<Rightarrow> wchar list \<Rightarrow> wchar \<Rightarrow> bool \<Rightarrow> nat option" where
  "PhFindLastCharInStringRef up intrinsics s character ignoreCase =
     (let length_bytes = 2 * length s; buffer = int (length s)
      in if \<not> ignoreCase then
           if intrinsics then
             let n = length_bytes div 2 mod 8; length16 = length_bytes div 16
             in if length16 \<noteq> 0 then
                  case find_last_blocks character s (buffer - 8) length16 of
                    Inl (length16, index) \<Rightarrow> Some ((length16 - 1) * 16 div 2 + n + index div 2)
                  | Inr buffer \<Rightarrow> find_last_chars (\<lambda>c. c = character) s (buffer + 8 - 1) n
                else find_last_chars (\<lambda>c. c = character) s (buffer - 1) n
           else find_last_chars (\<lambda>c. c = character) s (buffer - 1) (length_bytes div 2)
         else let c = up character
              in find_last_chars (\<lambda>b. up b = c) s (buffer - 1) (length_bytes div 2))"

fun find_string_loop ::
  "(wchar \<Rightarrow> wchar) \<Rightarrow> bool \<Rightarrow> bool \<Rightarrow> wchar list \<Rightarrow> wchar \<Rightarrow> wchar list \<Rightarrow> nat \<Rightarrow> nat \<Rightarrow> nat option" where
  "find_string_loop up intrinsics ignoreCase s c rest pos 0 = None"
| "find_string_loop up intrinsics ignoreCase s c rest pos (Suc i) =
     (if (if ignoreCase then up (s ! pos) else s ! pos) = c
         \<and> PhEqualStringRef up intrinsics (take (length rest) (drop (Suc pos) s)) rest ignoreCase
      then Some pos else find_string_loop up intrinsics ignoreCase s c rest (Suc pos) i)"

definition PhFindStringInStringRef ::
  "(wchar \<Rightarrow> wchar) \<Rightarrow> bool \<Rightarrow> wchar list \<Rightarrow> wchar list \<Rightarrow> bool \<Rightarrow> nat option" where
  "PhFindStringInStringRef up intrinsics s sub ignoreCase =
     (let length1 = length s; length2 = length sub
      in if length2 > length1 then None
         else if length2 = 0 then Some 0
         else find_string_loop up intrinsics ignoreCase s
                (if ignoreCase then up (hd sub) else hd sub) (tl sub) 0 (length1 - length2 + 1))"

section \<open>Splitting\<close>

text \<open>
  A successful split at the character index \<open>i\<close> with a separator of \<open>n\<close> bytes: the parts before, after
  and of the separator. \<open>None\<close> when the parts would not lie inside the input.
\<close>

definition split_parts :: "wchar list \<Rightarrow> nat \<Rightarrow> nat \<Rightarrow> (bool \<times> wchar list \<times> wchar list \<times> wchar list) option" where
  "split_parts input i n =
     (if 2 * i + n \<le> 2 * length input
      then Some (True, take i input, drop (i + n div 2) input, take (n div 2) (drop i input))
      else None)"

definition no_split :: "wchar list \<Rightarrow> (bool \<times> wchar list \<times> wchar list \<times> wchar list) option" where
  "no_split input = Some (False, input, [], [])"

definition split_at_index ::
  "wchar list \<Rightarrow> nat option \<Rightarrow> nat \<Rightarrow> (bool \<times> wchar list \<times> wchar list \<times> wchar list) option" where
  "split_at_index input index n = (case index of None \<Rightarrow> no_split input | Some i \<Rightarrow> split_parts input i n)"

definition PhSplitStringRefAtChar ::
  "(wchar \<Rightarrow> wchar) \<Rightarrow> bool \<Rightarrow> wchar list \<Rightarrow> wchar
   \<Rightarrow> (bool \<times> wchar list \<times> wchar list \<times> wchar list) option" where
  "PhSplitStringRefAtChar up intrinsics input separator =
     split_at_index input (PhFindCharInStringRef up intrinsics input separator False) 2"

definition PhSplitStringRefAtLastChar ::
  "(wchar \<Rightarrow> wchar) \<Rightarrow> bool \<Rightarrow> wchar list \<Rightarrow> wchar
   \<Rightarrow> (bool \<times> wchar list \<times> wchar list \<times> wchar list) option" where
  "PhSplitStringRefAtLastChar up intrinsics input separator =
     split_at_index input (PhFindLastCharInStringRef up intrinsics input separator False) 2"

definition PhSplitStringRefAtString ::
  "(wchar \<Rightarrow> wchar) \<Rightarrow> bool \<Rightarrow> wchar list \<Rightarrow> wchar list \<Rightarrow> bool
   \<Rightarrow> (bool \<times> wchar list \<times> wchar list \<times> wchar list) option" where
  "PhSplitStringRefAtString up intrinsics input separator ignoreCase =
     split_at_index input (PhFindStringInStringRef up intrinsics input separator ignoreCase)
       (2 * length separator)"

abbreviation PH_SPLIT_AT_STRING :: ulong where "PH_SPLIT_AT_STRING \<equiv> 0x1"
abbreviation PH_SPLIT_AT_RANGE :: ulong where "PH_SPLIT_AT_RANGE \<equiv> 0x2"
abbreviation PH_SPLIT_CASE_INSENSITIVE :: ulong where "PH_SPLIT_CASE_INSENSITIVE \<equiv> 0x1000"
abbreviation PH_SPLIT_COMPLEMENT_CHAR_SET :: ulong where "PH_SPLIT_COMPLEMENT_CHAR_SET \<equiv> 0x2000"
abbreviation PH_SPLIT_START_AT_END :: ulong where "PH_SPLIT_START_AT_END \<equiv> 0x4000"
abbreviation PH_SPLIT_CHAR_SET_IS_UPPERCASE :: ulong where "PH_SPLIT_CHAR_SET_IS_UPPERCASE \<equiv> 0x8000"

definition has_flag :: "ulong \<Rightarrow> ulong \<Rightarrow> bool" where
  "has_flag flags f \<longleftrightarrow> flags AND f \<noteq> 0"

text \<open>
  The lookup table of a character set: an entry for the low byte of each character, and whether the
  table is complete, which it is when every character of the set is below 256.
\<close>

fun char_set_table :: "(wchar \<Rightarrow> wchar) \<Rightarrow> wchar list \<Rightarrow> bool list \<times> bool \<Rightarrow> bool list \<times> bool" where
  "char_set_table f [] (table, complete) = (table, complete)"
| "char_set_table f (c # cs) (table, complete) =
     char_set_table f cs
       (table[unat (f c AND 0xFF) := True], if f c \<ge> 256 then False else complete)"

definition empty_table :: "bool list \<times> bool" where
  "empty_table = (replicate 256 False, True)"

text \<open>The test of one character in the search loop of \<open>PhSplitStringRefEx\<close>, on the character after folding.\<close>

definition split_char_found ::
  "(wchar \<Rightarrow> wchar) \<Rightarrow> ulong \<Rightarrow> wchar list \<Rightarrow> bool list \<times> bool \<Rightarrow> wchar \<Rightarrow> bool" where
  "split_char_found up flags charSet tc c =
     (let (table, complete) = tc;
          scan = (if \<not> has_flag flags PH_SPLIT_CASE_INSENSITIVE \<or> has_flag flags PH_SPLIT_CHAR_SET_IS_UPPERCASE
                  then list_ex (\<lambda>x. x = c) charSet else list_ex (\<lambda>x. up x = c) charSet)
      in if c < 256 \<and> complete then
           if \<not> has_flag flags PH_SPLIT_COMPLEMENT_CHAR_SET then table ! unat c else \<not> table ! unat c
         else if \<not> has_flag flags PH_SPLIT_COMPLEMENT_CHAR_SET then table ! unat (c AND 0xFF) \<and> scan
         else if table ! unat (c AND 0xFF) then \<not> scan else True)"

text \<open>The search loop: \<open>pos\<close> is the distance of the pointer \<open>s\<close> from the start of the buffer.\<close>

fun split_search :: "(wchar \<Rightarrow> bool) \<Rightarrow> wchar list \<Rightarrow> int \<Rightarrow> int \<Rightarrow> nat \<Rightarrow> nat option" where
  "split_search P s pos direction 0 = None"
| "split_search P s pos direction (Suc i) =
     (if P (s ! nat pos) then Some (nat pos) else split_search P s (pos + direction) direction i)"

text \<open>
  \<open>sepRange\<close> is the separator read as a range: its \<open>Buffer\<close> field as an index (\<open>None\<close> for \<open>SIZE_MAX\<close>) and
  its \<open>Length\<close> field, which are used with \<open>PH_SPLIT_AT_RANGE\<close> only.
\<close>

definition PhSplitStringRefEx ::
  "(wchar \<Rightarrow> wchar) \<Rightarrow> bool \<Rightarrow> wchar list \<Rightarrow> wchar list \<Rightarrow> nat option \<times> nat \<Rightarrow> ulong
   \<Rightarrow> (bool \<times> wchar list \<times> wchar list \<times> wchar list) option" where
  "PhSplitStringRefEx up intrinsics input separator sepRange flags =
     (if has_flag flags PH_SPLIT_AT_RANGE then split_at_index input (fst sepRange) (snd sepRange)
      else if has_flag flags PH_SPLIT_AT_STRING then
        if has_flag flags PH_SPLIT_START_AT_END then no_split input
        else split_at_index input
          (PhFindStringInStringRef up intrinsics input separator (has_flag flags PH_SPLIT_CASE_INSENSITIVE))
          (2 * length separator)
      else if \<not> has_flag flags PH_SPLIT_COMPLEMENT_CHAR_SET \<and> 2 * length separator = 2 then
        split_at_index input
          (if \<not> has_flag flags PH_SPLIT_START_AT_END
           then PhFindCharInStringRef up intrinsics input (hd separator) (has_flag flags PH_SPLIT_CASE_INSENSITIVE)
           else PhFindLastCharInStringRef up intrinsics input (hd separator) (has_flag flags PH_SPLIT_CASE_INSENSITIVE))
          2
      else if length input = 0 then no_split input
      else
        let fold = (if has_flag flags PH_SPLIT_CASE_INSENSITIVE then up else id);
            tc = char_set_table fold separator empty_table;
            start = (if \<not> has_flag flags PH_SPLIT_START_AT_END then 0 else int (length input) - 1);
            direction = (if \<not> has_flag flags PH_SPLIT_START_AT_END then 1 else - 1)
        in split_at_index input
             (split_search (\<lambda>c. split_char_found up flags separator tc (fold c)) input start direction (length input))
             2)"

section \<open>Trimming\<close>

abbreviation PH_TRIM_START_ONLY :: ulong where "PH_TRIM_START_ONLY \<equiv> 0x1"
abbreviation PH_TRIM_END_ONLY :: ulong where "PH_TRIM_END_ONLY \<equiv> 0x2"

fun trim_count :: "(wchar \<Rightarrow> bool) \<Rightarrow> wchar list \<Rightarrow> nat" where
  "trim_count P [] = 0"
| "trim_count P (c # s) = (if \<not> P c then 0 else Suc (trim_count P s))"

definition trim_char_found :: "wchar list \<Rightarrow> bool list \<times> bool \<Rightarrow> wchar \<Rightarrow> bool" where
  "trim_char_found charSet tc c =
     (let (table, complete) = tc
      in if \<not> table ! unat (c AND 0xFF) then False
         else if \<not> complete then list_ex (\<lambda>x. x = c) charSet
         else True)"

text \<open>The two loops, over the string from its start and over it from its end.\<close>

definition trim_ends :: "(wchar \<Rightarrow> bool) \<Rightarrow> wchar list \<Rightarrow> ulong \<Rightarrow> wchar list" where
  "trim_ends P s flags =
     (let s = (if \<not> has_flag flags PH_TRIM_END_ONLY then drop (trim_count P s) s else s)
      in if \<not> has_flag flags PH_TRIM_START_ONLY then take (length s - trim_count P (rev s)) s else s)"

definition PhTrimStringRef :: "wchar list \<Rightarrow> wchar list \<Rightarrow> ulong \<Rightarrow> wchar list" where
  "PhTrimStringRef s charSet flags =
     (if length s = 0 \<or> length charSet = 0 then s
      else if 2 * length charSet = 2 then trim_ends (\<lambda>c. c = hd charSet) s flags
      else trim_ends (trim_char_found charSet (char_set_table id charSet empty_table)) s flags)"

section \<open>The vector scans\<close>

lemma nth_concat_replicate:
  "i < k * length bs \<Longrightarrow> concat (map (replicate k) bs) ! i = bs ! (i div k)"
proof (induction bs arbitrary: i)
  case Nil
  then show ?case by simp
next
  case (Cons b bs)
  show ?case
  proof (cases "i < k")
    case True
    then show ?thesis by (simp add: nth_append)
  next
    case False
    then have "i div k = Suc ((i - k) div k)" if "0 < k"
      using that by (simp add: le_div_geq)
    with False Cons show ?thesis by (cases k) (auto simp: nth_append)
  qed
qed

lemma bit_mask:
  assumes "k * length bs \<le> 32"
  shows "bit (PhMoveMaskINT128by8 k bs) i \<longleftrightarrow> i < k * length bs \<and> bs ! (i div k)"
proof -
  have "length (concat (map (replicate k) bs)) = k * length bs"
    by (induction bs) simp_all
  then show ?thesis
    using assms nth_concat_replicate [of i k bs]
    by (auto simp: PhMoveMaskINT128by8_def bit_horner_sum_bit_iff)
qed

lemma mask8:
  assumes "length bs = 8"
  shows "map_option (\<lambda>i. i div 2) (BitScanForward (PhMoveMaskINT128by8 2 bs)) = find (\<lambda>i. bs ! i) [0..<8]"
    and "map_option (\<lambda>i. i div 2) (BitScanReverse (PhMoveMaskINT128by8 2 bs)) = find (\<lambda>i. bs ! i) (rev [0..<8])"
proof -
  have b: "bit (PhMoveMaskINT128by8 2 bs) i \<longleftrightarrow> i < 16 \<and> bs ! (i div 2)" for i
    using bit_mask [of 2 bs i] assms by simp
  have u8: "[0..<8] = [0, 1, 2, 3, 4, 5, 6, 7 :: nat]"
    by (simp add: upt_rec)
  have u32: "[0..<32] = [0, 1, 2, 3, 4, 5, 6, 7, 8, 9, 10, 11, 12, 13, 14, 15, 16, 17, 18, 19, 20, 21, 22, 23,
      24, 25, 26, 27, 28, 29, 30, 31 :: nat]"
    by (simp add: upt_rec)
  show "map_option (\<lambda>i. i div 2) (BitScanForward (PhMoveMaskINT128by8 2 bs)) = find (\<lambda>i. bs ! i) [0..<8]"
    unfolding BitScanForward_def u8 u32 by (simp add: b)
  show "map_option (\<lambda>i. i div 2) (BitScanReverse (PhMoveMaskINT128by8 2 bs)) = find (\<lambda>i. bs ! i) (rev [0..<8])"
    unfolding BitScanReverse_def u8 u32 by (simp add: b)
qed

lemma mask4:
  assumes "length bs = 4"
  shows "PhMoveMaskINT128by8 4 bs = 0xFFFF \<longleftrightarrow> list_all id bs"
proof
  assume eq: "PhMoveMaskINT128by8 4 bs = 0xFFFF"
  have "bs ! i" if "i < 4" for i
  proof -
    have "bit (0xFFFF :: ulong) (4 * i)"
      using that by (auto simp: less_Suc_eq numeral_eq_Suc)
    then show ?thesis
      using bit_mask [of 4 bs "4 * i"] assms that eq by simp
  qed
  then show "list_all id bs" using assms by (simp add: list_all_length)
next
  assume "list_all id bs"
  then have "bs = [True, True, True, True]"
    using assms by (auto simp: numeral_eq_Suc length_Suc_conv)
  then show "PhMoveMaskINT128by8 4 bs = 0xFFFF"
    by (simp add: PhMoveMaskINT128by8_def numeral_eq_Suc)
qed

section \<open>Equality\<close>

definition char_eq :: "(wchar \<Rightarrow> wchar) \<Rightarrow> bool \<Rightarrow> wchar \<Rightarrow> wchar \<Rightarrow> bool" where
  "char_eq up ignoreCase c1 c2 \<longleftrightarrow> c1 = c2 \<or> ignoreCase \<and> up c1 = up c2"

lemma char_eq_refl [simp]: "char_eq up ic c c"
  by (simp add: char_eq_def)

lemma list_all2_char_eq:
  "list_all2 (char_eq up ic) s1 s2 \<longleftrightarrow> (if ic then map up s1 = map up s2 else s1 = s2)"
proof (cases ic)
  case True
  then have "char_eq up ic = (\<lambda>c1 c2. up c1 = up c2)"
    by (auto simp: char_eq_def fun_eq_iff)
  then show ?thesis
    using True by (auto simp: list_all2_conv_all_nth list_eq_iff_nth_eq)
next
  case False
  then have "char_eq up ic = (=)"
    by (auto simp: char_eq_def fun_eq_iff)
  with False show ?thesis by (simp add: list.rel_eq)
qed

lemma equal_chars_eq:
  "n = length s1 \<Longrightarrow> length s2 = length s1 \<Longrightarrow> equal_chars up ic s1 s2 n = list_all2 (char_eq up ic) s1 s2"
proof (induction n arbitrary: s1 s2)
  case 0
  then show ?case by simp
next
  case (Suc n)
  then obtain a as b bs where "s1 = a # as" "s2 = b # bs"
    by (metis length_Suc_conv)
  with Suc show ?case by (auto simp: char_eq_def)
qed

lemma block_eq_iff:
  assumes "length b1 = 8" "length b2 = 8"
  shows "block_eq True b1 b2 \<longleftrightarrow> b1 = b2"
proof -
  obtain x0 x1 x2 x3 x4 x5 x6 x7 where x: "b1 = [x0, x1, x2, x3, x4, x5, x6, x7]"
    using assms(1) by (auto simp: numeral_eq_Suc length_Suc_conv)
  obtain y0 y1 y2 y3 y4 y5 y6 y7 where y: "b2 = [y0, y1, y2, y3, y4, y5, y6, y7]"
    using assms(2) by (auto simp: numeral_eq_Suc length_Suc_conv)
  have u4: "[0..<4] = [0, 1, 2, 3 :: nat]"
    by (simp add: upt_rec)
  show ?thesis
    unfolding block_eq_def using mask4 [of "PhCompareEqINT128by32 b1 b2"]
    by (simp add: PhCompareEqINT128by32_def u4 x y)
qed

lemma equal_blocks_result:
  assumes "\<And>b1 b2. length b1 = w \<Longrightarrow> length b2 = w \<Longrightarrow> eq b1 b2 \<longleftrightarrow> b1 = b2"
    and "length s1 = length s2" "n * w \<le> length s1"
  shows "case equal_blocks eq w s1 s2 n of
           Inr (r1, r2) \<Rightarrow> take (n * w) s1 = take (n * w) s2 \<and> r1 = drop (n * w) s1 \<and> r2 = drop (n * w) s2
         | Inl (k, r1, r2) \<Rightarrow> k \<le> n \<and> s1 \<noteq> s2 \<and> take ((n - k) * w) s1 = take ((n - k) * w) s2
             \<and> r1 = drop ((n - k) * w) s1 \<and> r2 = drop ((n - k) * w) s2"
  using assms(2,3)
proof (induction n arbitrary: s1 s2)
  case 0
  then show ?case by simp
next
  case (Suc n)
  have len: "length (take w s1) = w" "length (take w s2) = w"
    using Suc.prems by simp_all
  show ?case
  proof (cases "take w s1 = take w s2")
    case False
    then show ?thesis using assms(1) [OF len] by auto
  next
    case True
    have split: "take (m + w) s1 = take (m + w) s2 \<longleftrightarrow> take m (drop w s1) = take m (drop w s2)" for m
      using True by (simp add: take_add add.commute [of m])
    have ih: "length (drop w s1) = length (drop w s2)" "n * w \<le> length (drop w s1)"
      using Suc.prems by simp_all
    have e: "(Suc n - k) * w = w + (n - k) * w" if "k \<le> n" for k
      using that by (simp add: Suc_diff_le)
    from Suc.IH [OF ih] True assms(1) [OF len] show ?thesis
      by (auto simp: split e add.commute [of w] split: sum.splits)
  qed
qed

lemma PhEqualStringRef_iff:
  "PhEqualStringRef up intrinsics s1 s2 ic \<longleftrightarrow> list_all2 (char_eq up ic) s1 s2"
proof (cases "length s1 = length s2")
  case False
  then show ?thesis
    by (auto simp: PhEqualStringRef_def dest: list_all2_lengthD)
next
  case len: True
  define w :: nat where "w = (if intrinsics then 8 else 4)"
  define n where "n = length s1 div w"
  have w: "(if intrinsics then 16 else 8) = 2 * w" "0 < w"
    by (simp_all add: w_def)
  have eq: "block_eq intrinsics b1 b2 \<longleftrightarrow> b1 = b2" if "length b1 = w" "length b2 = w" for b1 b2
    using that block_eq_iff by (cases intrinsics) (simp_all add: w_def block_eq_def [of False])
  have nw: "n * w \<le> length s1"
    by (simp add: n_def)
  have r: "case equal_blocks (block_eq intrinsics) w s1 s2 n of
           Inr (r1, r2) \<Rightarrow> take (n * w) s1 = take (n * w) s2 \<and> r1 = drop (n * w) s1 \<and> r2 = drop (n * w) s2
         | Inl (k, r1, r2) \<Rightarrow> k \<le> n \<and> s1 \<noteq> s2 \<and> take ((n - k) * w) s1 = take ((n - k) * w) s2
             \<and> r1 = drop ((n - k) * w) s1 \<and> r2 = drop ((n - k) * w) s2"
    by (rule equal_blocks_result [OF _ len nw]) (rule eq)
  have unf: "PhEqualStringRef up intrinsics s1 s2 ic =
      (case equal_blocks (block_eq intrinsics) w s1 s2 n of
         Inl (k, r1, r2) \<Rightarrow> if \<not> ic then False else equal_chars up ic r1 r2 (k * w + length s1 mod w)
       | Inr (r1, r2) \<Rightarrow> equal_chars up ic r1 r2 (length s1 mod w))"
  proof -
    have m: "2 * length s1 mod (2 * w) = 2 * (length s1 mod w)"
      by (rule mult_mod_right [symmetric])
    have a: "(k * (2 * w) + 2 * length s1 mod (2 * w)) div 2 = k * w + length s1 mod w" for k
      unfolding m by simp
    have b: "2 * length s1 mod (2 * w) div 2 = length s1 mod w"
      unfolding m by simp
    show ?thesis
      using len unfolding PhEqualStringRef_def Let_def w(1) a b by (simp add: n_def)
  qed
  have tail: "length (drop ((n - k) * w) s1) = k * w + length s1 mod w" if "k \<le> n" for k
  proof -
    have "length s1 = n * w + length s1 mod w"
      by (simp add: n_def)
    moreover have "n * w = (n - k) * w + k * w"
      using that by (metis add_mult_distrib le_add_diff_inverse2)
    ultimately show ?thesis by simp
  qed
  have app: "list_all2 (char_eq up ic) s1 s2 \<longleftrightarrow> list_all2 (char_eq up ic) (drop m s1) (drop m s2)"
    if "take m s1 = take m s2" for m
  proof -
    have s2: "take m s1 @ drop m s2 = s2"
      unfolding that by (rule append_take_drop_id)
    have "list_all2 (char_eq up ic) (take m s1 @ drop m s1) (take m s1 @ drop m s2)
        \<longleftrightarrow> list_all2 (char_eq up ic) (drop m s1) (drop m s2)"
      unfolding list_all2_append [OF refl] by (simp add: list.rel_refl)
    then show ?thesis
      unfolding s2 append_take_drop_id .
  qed
  show ?thesis
  proof (cases "equal_blocks (block_eq intrinsics) w s1 s2 n")
    case (Inr rr)
    then obtain r1 r2 where rr: "rr = (r1, r2)" by (cases rr)
    with r Inr have k: "take (n * w) s1 = take (n * w) s2" "r1 = drop (n * w) s1" "r2 = drop (n * w) s2"
      by simp_all
    have "equal_chars up ic r1 r2 (length s1 mod w) = list_all2 (char_eq up ic) r1 r2"
      using tail [of 0] len unfolding k(2,3) by (intro equal_chars_eq) simp_all
    with app [OF k(1)] show ?thesis
      unfolding unf Inr rr k(2,3) by simp
  next
    case (Inl rr)
    then obtain k r1 r2 where rr: "rr = (k, r1, r2)" by (cases rr)
    with r Inl have k: "k \<le> n" "s1 \<noteq> s2" "take ((n - k) * w) s1 = take ((n - k) * w) s2"
      "r1 = drop ((n - k) * w) s1" "r2 = drop ((n - k) * w) s2"
      by simp_all
    then have "\<not> list_all2 (char_eq up False) s1 s2"
      by (simp add: list_all2_char_eq)
    moreover have "equal_chars up ic r1 r2 (k * w + length s1 mod w) = list_all2 (char_eq up ic) r1 r2"
      using tail [OF k(1)] len unfolding k(4,5) by (intro equal_chars_eq) simp_all
    ultimately show ?thesis
      using app [OF k(3)] unfolding unf Inl rr k(4,5) by (cases ic) simp_all
  qed
qed

section \<open>Searching for a character\<close>

text \<open>What the searches compute: the first or the last index of a range with the property.\<close>

abbreviation first_in :: "('a \<Rightarrow> bool) \<Rightarrow> 'a list \<Rightarrow> nat \<Rightarrow> nat \<Rightarrow> nat option" where
  "first_in P s a b \<equiv> find (\<lambda>i. P (s ! i)) [a..<b]"

abbreviation last_in :: "('a \<Rightarrow> bool) \<Rightarrow> 'a list \<Rightarrow> nat \<Rightarrow> nat \<Rightarrow> nat option" where
  "last_in P s a b \<equiv> find (\<lambda>i. P (s ! i)) (rev [a..<b])"

lemma find_append:
  "find P (xs @ ys) = (case find P xs of Some x \<Rightarrow> Some x | None \<Rightarrow> find P ys)"
  by (induction xs) auto

lemma find_map: "find P (map f xs) = map_option f (find (\<lambda>x. P (f x)) xs)"
  by (induction xs) auto

lemma upt_split: "a \<le> b \<Longrightarrow> b \<le> c \<Longrightarrow> [a..<c] = [a..<b] @ [b..<c]"
  by (metis le_add_diff_inverse upt_add_eq_append)

lemma find_upt_Some:
  "find P [a..<b] = Some i \<longleftrightarrow> a \<le> i \<and> i < b \<and> P i \<and> (\<forall>j. a \<le> j \<and> j < i \<longrightarrow> \<not> P j)"
proof
  assume "find P [a..<b] = Some i"
  then obtain k where k: "k < b - a" "P (a + k)" "i = a + k" "\<forall>j<k. \<not> P (a + j)"
    by (auto simp: find_Some_iff)
  have "\<not> P j" if "a \<le> j" "j < i" for j
    using k(4) [rule_format, of "j - a"] that k(3) by simp
  with k show "a \<le> i \<and> i < b \<and> P i \<and> (\<forall>j. a \<le> j \<and> j < i \<longrightarrow> \<not> P j)"
    by auto
next
  assume "a \<le> i \<and> i < b \<and> P i \<and> (\<forall>j. a \<le> j \<and> j < i \<longrightarrow> \<not> P j)"
  then show "find P [a..<b] = Some i"
    by (auto simp: find_Some_iff intro!: exI [of _ "i - a"])
qed

lemma first_in_Some:
  "first_in P s a b = Some i \<longleftrightarrow> a \<le> i \<and> i < b \<and> P (s ! i) \<and> (\<forall>j. a \<le> j \<and> j < i \<longrightarrow> \<not> P (s ! j))"
  by (rule find_upt_Some)

lemma first_in_None: "first_in P s a b = None \<longleftrightarrow> (\<forall>i. a \<le> i \<and> i < b \<longrightarrow> \<not> P (s ! i))"
  by (auto simp: find_None_iff)

lemma last_in_Some:
  "last_in P s a b = Some i \<longleftrightarrow> a \<le> i \<and> i < b \<and> P (s ! i) \<and> (\<forall>j. i < j \<and> j < b \<longrightarrow> \<not> P (s ! j))"
proof (induction b)
  case 0
  then show ?case by simp
next
  case (Suc b)
  then show ?case by (auto simp: less_Suc_eq)
qed

lemma last_in_None: "last_in P s a b = None \<longleftrightarrow> (\<forall>i. a \<le> i \<and> i < b \<longrightarrow> \<not> P (s ! i))"
  by (auto simp: find_None_iff)

lemma find_chars_eq:
  "p + n = length s \<Longrightarrow>
     find_chars P (drop p s) n = map_option (\<lambda>i. length s - i) (first_in P s p (length s))"
proof (induction n arbitrary: p)
  case 0
  then show ?case by simp
next
  case (Suc n)
  then have "[p..<length s] = p # [Suc p..<length s]" "hd (drop p s) = s ! p" "tl (drop p s) = drop (Suc p) s"
    by (simp_all add: upt_conv_Cons hd_drop_conv_nth drop_Suc tl_drop)
  moreover have "length s - p = Suc n"
    using Suc.prems by simp
  ultimately show ?case
    using Suc.IH [of "Suc p"] Suc.prems by (simp del: upt_Suc)
qed

lemma find_chars_left:
  assumes "p \<le> length s"
  shows "map_option (\<lambda>left. length s - left) (find_chars P (drop p s) (length s - p)) = first_in P s p (length s)"
proof (cases "first_in P s p (length s)")
  case None
  with assms show ?thesis by (simp add: find_chars_eq)
next
  case (Some i)
  then have "i < length s" by (simp add: first_in_Some)
  with assms Some show ?thesis by (simp add: find_chars_eq)
qed

lemma compare_block:
  assumes "p + 8 \<le> length s"
  shows "map_option (\<lambda>i. p + i div 2)
             (BitScanForward (PhMoveMaskINT128by8 2 (PhCompareEqINT128by16 (take 8 (drop p s)) (replicate 8 c))))
           = first_in (\<lambda>x. x = c) s p (p + 8)"
    and "map_option (\<lambda>i. p + i div 2)
             (BitScanReverse (PhMoveMaskINT128by8 2 (PhCompareEqINT128by16 (take 8 (drop p s)) (replicate 8 c))))
           = last_in (\<lambda>x. x = c) s p (p + 8)"
proof -
  let ?bs = "PhCompareEqINT128by16 (take 8 (drop p s)) (replicate 8 c)"
  have len: "length ?bs = 8"
    using assms by (simp add: PhCompareEqINT128by16_def)
  have nth: "?bs ! i \<longleftrightarrow> s ! (p + i) = c" if "i < 8" for i
    using that assms by (simp add: PhCompareEqINT128by16_def)
  have up: "[p..<p + 8] = map (\<lambda>i. p + i) [0..<8]"
    using map_add_upt [of p 8] by (simp only: add.commute)
  have "find (\<lambda>i. ?bs ! i) [0..<8] = find (\<lambda>i. s ! (p + i) = c) [0..<8]"
    and "find (\<lambda>i. ?bs ! i) (rev [0..<8]) = find (\<lambda>i. s ! (p + i) = c) (rev [0..<8])"
    by (rule find_cong; use nth in auto)+
  with mask8 [OF len]
  have "map_option (\<lambda>i. p + i) (map_option (\<lambda>i. i div 2) (BitScanForward (PhMoveMaskINT128by8 2 ?bs)))
      = map_option (\<lambda>i. p + i) (find (\<lambda>i. s ! (p + i) = c) [0..<8])"
    and "map_option (\<lambda>i. p + i) (map_option (\<lambda>i. i div 2) (BitScanReverse (PhMoveMaskINT128by8 2 ?bs)))
      = map_option (\<lambda>i. p + i) (find (\<lambda>i. s ! (p + i) = c) (rev [0..<8]))"
    by simp_all
  then show "map_option (\<lambda>i. p + i div 2) (BitScanForward (PhMoveMaskINT128by8 2 ?bs)) = first_in (\<lambda>x. x = c) s p (p + 8)"
    and "map_option (\<lambda>i. p + i div 2) (BitScanReverse (PhMoveMaskINT128by8 2 ?bs)) = last_in (\<lambda>x. x = c) s p (p + 8)"
    unfolding up by (simp_all only: option.map_comp comp_def find_map rev_map)
qed

lemma find_blocks_result:
  assumes "p + 8 * n \<le> length s"
  shows "case find_blocks c (drop p s) n of
           Inr r \<Rightarrow> first_in (\<lambda>x. x = c) s p (p + 8 * n) = None \<and> r = drop (p + 8 * n) s
         | Inl (k, index) \<Rightarrow> 0 < k \<and> k \<le> n
             \<and> first_in (\<lambda>x. x = c) s p (p + 8 * n) = Some (p + 8 * (n - k) + index div 2)"
  using assms
proof (induction n arbitrary: p)
  case 0
  then show ?case by simp
next
  case (Suc n)
  have "p + 8 \<le> length s"
    using Suc.prems by simp
  note blk = compare_block(1) [OF this, of c]
  have up: "[p..<p + 8 * Suc n] = [p..<p + 8] @ [p + 8..<(p + 8) + 8 * n]"
    using upt_split [of p "p + 8" "p + 8 * Suc n"] by (simp add: add.assoc)
  show ?case
  proof (cases "BitScanForward (PhMoveMaskINT128by8 2 (PhCompareEqINT128by16 (take 8 (drop p s)) (replicate 8 c)))")
    case (Some index)
    with blk have "first_in (\<lambda>x. x = c) s p (p + 8) = Some (p + index div 2)"
      by simp
    then show ?thesis unfolding up find_append using Some by simp
  next
    case None
    with blk have "first_in (\<lambda>x. x = c) s p (p + 8) = None"
      by simp
    then have "first_in (\<lambda>x. x = c) s p (p + 8 * Suc n) = first_in (\<lambda>x. x = c) s (p + 8) ((p + 8) + 8 * n)"
      unfolding up find_append by simp
    moreover have "(p + 8) + 8 * (n - k) = p + 8 * (Suc n - k)" if "k \<le> n" for k
      using that by simp
    ultimately show ?thesis
      using Suc.IH [of "p + 8"] Suc.prems None
      by (auto simp: ac_simps split: sum.splits)
  qed
qed

lemma PhFindCharInStringRef_first:
  "PhFindCharInStringRef up intrinsics s c ic = first_in (\<lambda>x. if ic then up x = up c else x = c) s 0 (length s)"
proof (cases "ic \<or> \<not> intrinsics")
  case True
  then show ?thesis
    using find_chars_left [of 0 s] by (auto simp: PhFindCharInStringRef_def Let_def)
next
  case False
  define n where "n = length s div 8"
  define r where "r = length s mod 8"
  have len: "length s = 8 * n + r" and r: "r < 8"
    by (simp_all add: n_def r_def)
  have unf: "PhFindCharInStringRef up intrinsics s c ic =
      (case find_blocks c s n of
         Inl (k, index) \<Rightarrow> Some ((2 * length s - k * 16) div 2 - r + index div 2)
       | Inr s' \<Rightarrow> map_option (\<lambda>left. length s - left) (find_chars (\<lambda>x. x = c) s' r))"
  proof -
    have "2 * length s div 16 = n" "2 * length s div 2 mod 8 = r" "2 * length s div 2 = length s"
      by (simp_all add: n_def r_def)
    then show ?thesis
      using False by (simp only: PhFindCharInStringRef_def Let_def not_False_eq_True if_True de_Morgan_disj) simp
  qed
  have up: "[0..<length s] = [0..<8 * n] @ [8 * n..<length s]"
    using upt_split [of 0 "8 * n" "length s"] len by simp
  have blocks: "case find_blocks c s n of
      Inr rest \<Rightarrow> first_in (\<lambda>x. x = c) s 0 (8 * n) = None \<and> rest = drop (8 * n) s
    | Inl (k, index) \<Rightarrow> 0 < k \<and> k \<le> n \<and> first_in (\<lambda>x. x = c) s 0 (8 * n) = Some (8 * (n - k) + index div 2)"
    using find_blocks_result [of 0 n s c, unfolded add_0 drop_0] len by linarith
  show ?thesis
  proof (cases "find_blocks c s n")
    case (Inl ki)
    then obtain k index where ki: "ki = (k, index)" by (cases ki)
    with blocks Inl have k: "k \<le> n" "first_in (\<lambda>x. x = c) s 0 (8 * n) = Some (8 * (n - k) + index div 2)"
      by simp_all
    have "(2 * length s - k * 16) div 2 - r = 8 * (n - k)"
      using k(1) by (simp add: len)
    then show ?thesis
      unfolding unf up find_append using Inl ki k(2) False by simp
  next
    case (Inr rest)
    with blocks have k: "first_in (\<lambda>x. x = c) s 0 (8 * n) = None" "rest = drop (8 * n) s"
      by simp_all
    have "map_option (\<lambda>left. length s - left) (find_chars (\<lambda>x. x = c) (drop (8 * n) s) r)
        = first_in (\<lambda>x. x = c) s (8 * n) (length s)"
      using find_chars_left [of "8 * n" s "\<lambda>x. x = c"] len by simp
    then show ?thesis
      unfolding unf up find_append using Inr k False by simp
  qed
qed

lemma find_last_chars_eq:
  "find_last_chars P s (int n - 1) n = last_in P s 0 n"
  by (induction n) auto

lemma find_last_blocks_result:
  assumes "r + 8 * n \<le> length s"
  shows "case find_last_blocks c s (int (r + 8 * n) - 8) n of
           Inr pos \<Rightarrow> last_in (\<lambda>x. x = c) s r (r + 8 * n) = None \<and> pos = int r - 8
         | Inl (k, index) \<Rightarrow> 0 < k \<and> last_in (\<lambda>x. x = c) s r (r + 8 * n) = Some (r + 8 * (k - 1) + index div 2)"
  using assms
proof (induction n)
  case 0
  then show ?case by simp
next
  case (Suc n)
  let ?p = "r + 8 * n"
  have pos: "int (r + 8 * Suc n) - 8 = int ?p" and "?p + 8 \<le> length s"
    using Suc.prems by simp_all
  note blk = compare_block(2) [OF this(2), of c]
  have up: "rev [r..<r + 8 * Suc n] = rev [?p..<?p + 8] @ rev [r..<?p]"
    using upt_split [of r ?p "?p + 8"] by (simp add: ac_simps)
  have at: "block_at s (int ?p) = take 8 (drop ?p s)"
    unfolding block_at_def nat_int ..
  show ?case
  proof (cases "BitScanReverse (PhMoveMaskINT128by8 2 (PhCompareEqINT128by16 (take 8 (drop ?p s)) (replicate 8 c)))")
    case (Some index)
    with blk have "last_in (\<lambda>x. x = c) s ?p (?p + 8) = Some (?p + index div 2)"
      by simp
    then show ?thesis unfolding up find_append pos using Some at by simp
  next
    case None
    with blk have "last_in (\<lambda>x. x = c) s ?p (?p + 8) = None"
      by simp
    then have "last_in (\<lambda>x. x = c) s r (r + 8 * Suc n) = last_in (\<lambda>x. x = c) s r ?p"
      unfolding up find_append by simp
    then show ?thesis
      using Suc.IH Suc.prems None at unfolding pos by (auto split: sum.splits)
  qed
qed

lemma PhFindLastCharInStringRef_last:
  "PhFindLastCharInStringRef up intrinsics s c ic = last_in (\<lambda>x. if ic then up x = up c else x = c) s 0 (length s)"
proof (cases "ic \<or> \<not> intrinsics")
  case True
  then show ?thesis
    using find_last_chars_eq [of _ s "length s"] by (auto simp: PhFindLastCharInStringRef_def Let_def)
next
  case False
  define n where "n = length s div 8"
  define r where "r = length s mod 8"
  have len: "length s = r + 8 * n"
    by (simp add: n_def r_def)
  have unf: "PhFindLastCharInStringRef up intrinsics s c ic =
      (case find_last_blocks c s (int (length s) - 8) n of
         Inl (k, index) \<Rightarrow> Some ((k - 1) * 16 div 2 + r + index div 2)
       | Inr pos \<Rightarrow> find_last_chars (\<lambda>x. x = c) s (pos + 8 - 1) r)"
  proof -
    have e: "2 * length s div 16 = n" "2 * length s div 2 mod 8 = r"
      by (simp_all add: n_def r_def)
    show ?thesis
      using False len unfolding PhFindLastCharInStringRef_def Let_def e by auto
  qed
  have up: "rev [0..<length s] = rev [r..<r + 8 * n] @ rev [0..<r]"
    using upt_split [of 0 r "length s"] len by simp
  have blocks: "case find_last_blocks c s (int (length s) - 8) n of
      Inr pos \<Rightarrow> last_in (\<lambda>x. x = c) s r (r + 8 * n) = None \<and> pos = int r - 8
    | Inl (k, index) \<Rightarrow> 0 < k \<and> last_in (\<lambda>x. x = c) s r (r + 8 * n) = Some (r + 8 * (k - 1) + index div 2)"
    using find_last_blocks_result [of r n s c] len by simp
  have half: "(k - 1) * 16 div 2 + r + j = r + 8 * (k - 1) + j" for k j :: nat
    by simp
  show ?thesis
  proof (cases "find_last_blocks c s (int (length s) - 8) n")
    case (Inl ki)
    then obtain k index where ki: "ki = (k, index)" by (cases ki)
    with blocks Inl have "last_in (\<lambda>x. x = c) s r (r + 8 * n) = Some (r + 8 * (k - 1) + index div 2)"
      by simp
    then show ?thesis
      unfolding unf up find_append half using Inl ki False by simp
  next
    case (Inr pos)
    with blocks have k: "last_in (\<lambda>x. x = c) s r (r + 8 * n) = None" and pos: "pos = int r - 8"
      by simp_all
    have e: "int r - 8 + 8 - 1 = int r - 1"
      by simp
    show ?thesis
      unfolding unf up find_append Inr sum.case pos e find_last_chars_eq using k False by simp
  qed
qed

section \<open>Searching for a string\<close>

definition occurs_at :: "(wchar \<Rightarrow> wchar) \<Rightarrow> bool \<Rightarrow> wchar list \<Rightarrow> wchar list \<Rightarrow> nat \<Rightarrow> bool" where
  "occurs_at up ic sub s i \<longleftrightarrow> list_all2 (char_eq up ic) (take (length sub) (drop i s)) sub"

lemma find_string_loop_eq:
  assumes "pos + i + length rest \<le> length s"
  shows "find_string_loop up intrinsics ic s (if ic then up c else c) rest pos i =
           find (occurs_at up ic (c # rest) s) [pos..<pos + i]"
  using assms
proof (induction i arbitrary: pos)
  case 0
  then show ?case by simp
next
  case (Suc i)
  have "take (length (c # rest)) (drop pos s) = s ! pos # take (length rest) (drop (Suc pos) s)"
    using Suc.prems by (simp add: Cons_nth_drop_Suc [symmetric])
  then have "occurs_at up ic (c # rest) s pos \<longleftrightarrow>
      (if ic then up (s ! pos) else s ! pos) = (if ic then up c else c)
      \<and> PhEqualStringRef up intrinsics (take (length rest) (drop (Suc pos) s)) rest ic"
    unfolding occurs_at_def by (auto simp: PhEqualStringRef_iff char_eq_def)
  moreover have "[pos..<pos + Suc i] = pos # [Suc pos..<Suc pos + i]"
    by (simp add: upt_conv_Cons del: upt_Suc)
  ultimately show ?case
    using Suc.IH [of "Suc pos"] Suc.prems by (simp del: upt_Suc)
qed

lemma occurs_at_bound: "occurs_at up ic sub s i \<Longrightarrow> sub \<noteq> [] \<Longrightarrow> i + length sub \<le> length s"
  by (cases sub) (auto simp: occurs_at_def min_def dest!: list_all2_lengthD split: if_splits)

lemma PhFindStringInStringRef_find:
  "PhFindStringInStringRef up intrinsics s sub ic =
     (if length sub \<le> length s then find (occurs_at up ic sub s) [0..<length s - length sub + 1] else None)"
proof (cases sub)
  case Nil
  then show ?thesis
    by (simp add: PhFindStringInStringRef_def occurs_at_def upt_conv_Cons del: upt_Suc)
next
  case (Cons c rest)
  show ?thesis
  proof (cases "length sub \<le> length s")
    case False
    then show ?thesis by (simp add: PhFindStringInStringRef_def Let_def)
  next
    case True
    then have "0 + (length s - length sub + 1) + length rest \<le> length s"
      using Cons by simp
    from find_string_loop_eq [OF this, of up intrinsics ic c] show ?thesis
      using True Cons by (auto simp: PhFindStringInStringRef_def Let_def)
  qed
qed

section \<open>Character sets\<close>

lemma low_byte_less: "unat (c AND 0xFF :: wchar) < 256"
proof -
  have "c AND 0xFF = take_bit 8 c"
    by (simp add: take_bit_eq_mask mask_eq_exp_minus_1)
  then show ?thesis
    by (simp add: unsigned_take_bit_eq take_bit_nat_less_exp [of 8, simplified])
qed

lemma char_set_table_entries:
  assumes "length t = 256"
  shows "length (fst (char_set_table f cs (t, complete))) = 256"
    and "k < 256 \<Longrightarrow> fst (char_set_table f cs (t, complete)) ! k \<longleftrightarrow>
           t ! k \<or> (\<exists>c \<in> set cs. unat (f c AND 0xFF) = k)"
    and "snd (char_set_table f cs (t, complete)) \<longleftrightarrow> complete \<and> (\<forall>c \<in> set cs. f c < 256)"
  using assms
  by (induction cs arbitrary: t complete) (auto simp: nth_list_update low_byte_less not_less)

lemma low_byte_id: "c < 256 \<Longrightarrow> c AND 0xFF = (c :: wchar)"
proof -
  assume "c < 256"
  then have "unat c < 2 ^ 8"
    by (simp add: word_less_nat_alt)
  moreover have "c AND 0xFF = take_bit 8 c"
    by (simp add: take_bit_eq_mask mask_eq_exp_minus_1)
  ultimately show ?thesis
    by (metis take_bit_nat_eq_self unsigned_take_bit_eq word_unat_eq_iff)
qed

lemma table_lookup:
  fixes f cs
  defines "tc \<equiv> char_set_table f cs empty_table"
  shows "fst tc ! unat (c AND 0xFF) \<longleftrightarrow> (\<exists>x \<in> set cs. f x AND 0xFF = c AND 0xFF)"
    and "snd tc \<longleftrightarrow> (\<forall>x \<in> set cs. f x < 256)"
    and "snd tc \<Longrightarrow> c < 256 \<Longrightarrow> fst tc ! unat c \<longleftrightarrow> c \<in> f ` set cs"
proof -
  note e = char_set_table_entries [where t = "replicate 256 False" and f = f and cs = cs and complete = True, folded empty_table_def, folded tc_def]
  show t: "fst tc ! unat (c AND 0xFF) \<longleftrightarrow> (\<exists>x \<in> set cs. f x AND 0xFF = c AND 0xFF)"
    using e(2) [OF _ low_byte_less] low_byte_less [of c] by (simp add: word_unat_eq_iff)
  show "snd tc \<longleftrightarrow> (\<forall>x \<in> set cs. f x < 256)"
    using e(3) by simp
  then show "fst tc ! unat c \<longleftrightarrow> c \<in> f ` set cs" if "snd tc" "c < 256"
    using t low_byte_id that by (metis image_iff)
qed

lemma split_char_found_iff:
  assumes "has_flag flags PH_SPLIT_CASE_INSENSITIVE \<Longrightarrow> has_flag flags PH_SPLIT_CHAR_SET_IS_UPPERCASE
             \<Longrightarrow> \<forall>x \<in> set cs. up x = x"
  defines "f \<equiv> (if has_flag flags PH_SPLIT_CASE_INSENSITIVE then up else id)"
  shows "split_char_found up flags cs (char_set_table f cs empty_table) c \<longleftrightarrow>
           (c \<in> f ` set cs) \<noteq> has_flag flags PH_SPLIT_COMPLEMENT_CHAR_SET"
proof -
  obtain t complete where tc: "char_set_table f cs empty_table = (t, complete)"
    by (cases "char_set_table f cs empty_table")
  note e = table_lookup(1) [where f = f and cs = cs and c = c, unfolded tc, simplified]
    table_lookup(2) [where f = f and cs = cs, unfolded tc, simplified]
    table_lookup(3) [where f = f and cs = cs and c = c, unfolded tc, simplified]
  have scan: "(if \<not> has_flag flags PH_SPLIT_CASE_INSENSITIVE \<or> has_flag flags PH_SPLIT_CHAR_SET_IS_UPPERCASE
               then list_ex (\<lambda>x. x = c) cs else list_ex (\<lambda>x. up x = c) cs) \<longleftrightarrow> c \<in> f ` set cs"
    using assms(1) by (auto simp: f_def list_ex_iff)
  have entry: "t ! unat (c AND 0xFF)" if "c \<in> f ` set cs"
    using e(1) that by auto
  have "split_char_found up flags cs (t, complete) c \<longleftrightarrow>
      (if c < 256 \<and> complete then
         if \<not> has_flag flags PH_SPLIT_COMPLEMENT_CHAR_SET then t ! unat c else \<not> t ! unat c
       else if \<not> has_flag flags PH_SPLIT_COMPLEMENT_CHAR_SET then t ! unat (c AND 0xFF) \<and> c \<in> f ` set cs
       else if t ! unat (c AND 0xFF) then c \<notin> f ` set cs else True)"
    unfolding split_char_found_def scan Let_def by simp
  then show ?thesis
    unfolding tc using e(2,3) entry by auto
qed

lemma trim_char_found_iff:
  assumes "c < 256 \<or> (\<exists>x \<in> set cs. 256 \<le> x)"
  shows "trim_char_found cs (char_set_table id cs empty_table) c \<longleftrightarrow> c \<in> set cs"
proof -
  obtain t complete where tc: "char_set_table id cs empty_table = (t, complete)"
    by (cases "char_set_table id cs empty_table")
  note e = table_lookup(1) [where f = id and cs = cs and c = c, unfolded tc, simplified]
    table_lookup(2) [where f = id and cs = cs, unfolded tc, simplified]
    table_lookup(3) [where f = id and cs = cs and c = c, unfolded tc, simplified]
  have "complete \<Longrightarrow> c < 256"
    using e(2) assms by (auto simp: not_le [symmetric])
  then show ?thesis
    using e low_byte_id [of c] unfolding tc trim_char_found_def by (auto simp: list_ex_iff)
qed

lemma split_search_forward:
  "split_search P s (int p) 1 n = first_in P s p (p + n)"
proof (induction n arbitrary: p)
  case 0
  then show ?case by simp
next
  case (Suc n)
  have "[p..<p + Suc n] = p # [Suc p..<Suc p + n]"
    by (simp add: upt_conv_Cons del: upt_Suc)
  with Suc [of "Suc p"] show ?case by (simp add: add.commute del: upt_Suc)
qed

lemma split_search_backward:
  "split_search P s (int n - 1) (- 1) n = last_in P s 0 n"
  by (induction n) auto

section \<open>Trimming with a character set\<close>

lemma trim_count_dropWhile: "drop (trim_count P s) s = dropWhile P s"
  by (induction s) simp_all

lemma trim_count_cong: "(\<And>c. c \<in> set s \<Longrightarrow> P c = Q c) \<Longrightarrow> trim_count P s = trim_count Q s"
  by (induction s) simp_all

lemma trim_back: "take (length s - trim_count P (rev s)) s = rev (dropWhile P (rev s))"
  by (metis length_rev rev_rev_ident rev_drop trim_count_dropWhile)

definition trimmed :: "(wchar \<Rightarrow> bool) \<Rightarrow> wchar list \<Rightarrow> ulong \<Rightarrow> wchar list" where
  "trimmed P s flags =
     (let s = (if has_flag flags PH_TRIM_END_ONLY then s else dropWhile P s)
      in if has_flag flags PH_TRIM_START_ONLY then s else rev (dropWhile P (rev s)))"

lemma trim_ends_trimmed:
  assumes "\<And>c. c \<in> set s \<Longrightarrow> P c = Q c"
  shows "trim_ends P s flags = trimmed Q s flags"
proof -
  have 1: "trim_count P s = trim_count Q s"
    using assms by (rule trim_count_cong)
  have 2: "trim_count P (rev t) = trim_count Q (rev t)" if "set t \<subseteq> set s" for t
    using assms that by (intro trim_count_cong) auto
  have "set (drop (trim_count Q s) s) \<subseteq> set s"
    by (rule set_drop_subset)
  then show ?thesis
    using 1 2 [of s] 2 [of "drop (trim_count Q s) s"]
    by (auto simp: trim_ends_def trimmed_def Let_def trim_back trim_count_dropWhile
        simp flip: trim_back)
qed

section \<open>Lexicographic comparison\<close>

definition wchar_order :: "(wchar \<times> wchar) set" where
  "wchar_order = {(a, b). a < b}"

lemma sint_small:
  "- (2 ^ 31) \<le> k \<Longrightarrow> k < 2 ^ 31 \<Longrightarrow> sint (word_of_int k :: 32 word) = k"
  by (simp add: sint_sbintrunc' signed_take_bit_int_eq_self)

lemma ucast_diff: "(ucast (c1 :: wchar) - ucast (c2 :: wchar) :: 32 word) = word_of_int (uint c1 - uint c2)"
  unfolding ucast_eq by simp

lemma power2_31: "2 ^ 31 = (2147483648 :: int)"
  by simp

lemma sint_ucast_diff: "sint (ucast (c1 :: wchar) - ucast (c2 :: wchar) :: 32 word) = uint c1 - uint c2"
proof -
  have "0 \<le> uint c1" "uint c1 < 65536" "0 \<le> uint c2" "uint c2 < 65536"
    using uint_lt2p [of c1] uint_lt2p [of c2] by simp_all
  then have "- (2 ^ 31) \<le> uint c1 - uint c2" "uint c1 - uint c2 < 2 ^ 31"
    unfolding power2_31 by linarith+
  then show ?thesis
    unfolding ucast_diff by (rule sint_small)
qed

lemma sint_length_diff:
  assumes "a < 2 ^ 31" "b < 2 ^ 31"
  shows "sint (ucast (of_nat a - of_nat b :: ulong64) :: 32 word) = int a - int b"
proof -
  have down: "(ucast (word_of_int x :: ulong64) :: 32 word) = word_of_int x" for x
    by (rule bit_word_eqI) (simp add: bit_simps bit_word_of_int_iff)
  have "(of_nat a - of_nat b :: ulong64) = word_of_int (int a - int b)"
    by simp
  then have "(ucast (of_nat a - of_nat b :: ulong64) :: 32 word) = word_of_int (int a - int b)"
    by (simp only: down)
  moreover have "- (2 ^ 31) \<le> int a - int b" "int a - int b < 2 ^ 31"
    using assms by simp_all
  ultimately show ?thesis
    by (simp only: sint_small)
qed

definition fold_case :: "bool \<Rightarrow> (wchar \<Rightarrow> wchar) \<Rightarrow> wchar \<Rightarrow> wchar" where
  "fold_case ic up = (if ic then up else id)"

lemma compare_loop_lex:
  "case compare_loop up ic s1 s2 of
           Some d \<Rightarrow> sint d \<noteq> 0 \<and> map (fold_case ic up) s1 \<noteq> map (fold_case ic up) s2
             \<and> (sint d < 0 \<longleftrightarrow> (map (fold_case ic up) s1, map (fold_case ic up) s2) \<in> lexord wchar_order)
         | None \<Rightarrow> (length s1 < length s2 \<longleftrightarrow> (map (fold_case ic up) s1, map (fold_case ic up) s2) \<in> lexord wchar_order)
             \<and> (length s1 = length s2 \<longleftrightarrow> map (fold_case ic up) s1 = map (fold_case ic up) s2)"
proof (induction up ic s1 s2 rule: compare_loop.induct)
  case (1 up ic c1 s1 c2 s2)
  have eqf: "fold_case ic up c1 = fold_case ic up c2" if "c1 = c2 \<or> ic \<and> up c1 = up c2"
    using that by (auto simp: fold_case_def)
  show ?case
  proof (cases "c1 = c2 \<or> ic \<and> up c1 = up c2")
    case True
    then have "compare_loop up ic (c1 # s1) (c2 # s2) = compare_loop up ic s1 s2"
      by auto
    moreover have "case compare_loop up ic s1 s2 of
           Some d \<Rightarrow> sint d \<noteq> 0 \<and> map (fold_case ic up) s1 \<noteq> map (fold_case ic up) s2
             \<and> (sint d < 0 \<longleftrightarrow> (map (fold_case ic up) s1, map (fold_case ic up) s2) \<in> lexord wchar_order)
         | None \<Rightarrow> (length s1 < length s2 \<longleftrightarrow> (map (fold_case ic up) s1, map (fold_case ic up) s2) \<in> lexord wchar_order)
             \<and> (length s1 = length s2 \<longleftrightarrow> map (fold_case ic up) s1 = map (fold_case ic up) s2)"
    proof (cases "c1 = c2")
      case True
      then show ?thesis by (intro 1(2)) simp
    next
      case False
      with True show ?thesis by (intro 1(1)) simp_all
    qed
    ultimately show ?thesis
      using eqf [OF True] by (auto simp: wchar_order_def split: option.splits)
  next
    case False
    then have "compare_loop up ic (c1 # s1) (c2 # s2) = Some (ucast (fold_case ic up c1) - ucast (fold_case ic up c2))"
      and "fold_case ic up c1 \<noteq> fold_case ic up c2"
      by (auto simp: fold_case_def)
    then show ?thesis
      by (auto simp: sint_ucast_diff word_less_def wchar_order_def word_uint_eq_iff)
  qed
qed (auto simp: neq_Nil_conv)

section \<open>Length of a null-terminated string\<close>

lemma wcslen_first:
  "wcslen s = first_in (\<lambda>c. c = 0) s 0 (length s)"
proof (induction s)
  case Nil
  then show ?case by simp
next
  case (Cons c s)
  have "[0..<length (c # s)] = 0 # map Suc [0..<length s]"
    by (simp add: upt_conv_Cons map_Suc_upt del: upt_Suc)
  with Cons show ?case by (simp add: find_map del: upt_Suc)
qed

lemma first_in_prefix:
  "first_in P s a b = Some i \<Longrightarrow> b \<le> c \<Longrightarrow> first_in P s a c = Some i"
  unfolding first_in_Some by auto

lemma count_blocks_first:
  assumes "p + 8 * n = length m" "start \<le> p" "first_in (\<lambda>c. c = 0) m p (length m) = Some i"
  shows "count_blocks m start p n = Some (i - start)"
  using assms
proof (induction n arbitrary: p)
  case 0
  then show ?case by simp
next
  case (Suc n)
  have b: "p + 8 \<le> length m"
    using Suc.prems by simp
  note blk = compare_block(1) [OF b, of 0]
  show ?case
  proof (cases "BitScanForward (PhMoveMaskINT128by8 2 (PhCompareEqINT128by16 (take 8 (drop p m)) (replicate 8 0)))")
    case (Some index)
    with blk have "first_in (\<lambda>c. c = 0) m p (p + 8) = Some (p + index div 2)"
      by simp
    then have "i = p + index div 2"
      using first_in_prefix [where P = "\<lambda>c. c = 0" and s = m, OF _ b] Suc.prems(3) by simp
    then show ?thesis using Some Suc.prems(2) by simp
  next
    case None
    with blk have "first_in (\<lambda>c. c = 0) m p (p + 8) = None"
      by simp
    moreover have "[p..<length m] = [p..<p + 8] @ [p + 8..<length m]"
      using upt_split [of p "p + 8" "length m"] b by simp
    ultimately have "first_in (\<lambda>c. c = 0) m (p + 8) (length m) = Some i"
      using Suc.prems(3) by (simp add: find_append)
    with Suc.IH [of "p + 8"] Suc.prems None show ?thesis by simp
  qed
qed

text \<open>The partial first block: shifting the mask drops the lanes before the start of the string.\<close>

lemma shifted_mask:
  assumes "length bs = 8" "start < 8"
  shows "map_option (\<lambda>i. start + i div 2) (BitScanForward (drop_bit (2 * start) (PhMoveMaskINT128by8 2 bs)))
           = find (\<lambda>i. bs ! i) [start..<8]"
proof -
  have b: "bit (drop_bit (2 * start) (PhMoveMaskINT128by8 2 bs)) i \<longleftrightarrow>
      i < 16 - 2 * start \<and> bs ! (start + i div 2)" for i
    using bit_mask [of 2 bs "2 * start + i"] assms by (auto simp: bit_drop_bit_eq)
  show ?thesis
  proof (cases "find (\<lambda>i. bs ! i) [start..<8]")
    case None
    then have "\<not> bit (drop_bit (2 * start) (PhMoveMaskINT128by8 2 bs)) i" for i
      unfolding b using assms(2) by (auto simp: find_None_iff)
    then have "BitScanForward (drop_bit (2 * start) (PhMoveMaskINT128by8 2 bs)) = None"
      by (simp add: BitScanForward_def find_None_iff)
    with None show ?thesis by simp
  next
    case (Some k)
    then have k: "start \<le> k" "k < 8" "bs ! k" "\<And>j. start \<le> j \<Longrightarrow> j < k \<Longrightarrow> \<not> bs ! j"
      unfolding find_upt_Some by auto
    have "\<not> bs ! (start + j div 2)" if "j < 2 * (k - start)" for j
      using that k(1) by (intro k(4)) linarith+
    then have "BitScanForward (drop_bit (2 * start) (PhMoveMaskINT128by8 2 bs)) = Some (2 * (k - start))"
      unfolding BitScanForward_def find_upt_Some b using k(1,2,3) by auto
    with Some k(1) show ?thesis by simp
  qed
qed

lemma PhCountStringZ_first:
  assumes "start < 8" "8 dvd length m" "first_in (\<lambda>c. c = 0) m start (length m) = Some i"
  shows "PhCountStringZ True m start = Some (i - start)"
proof -
  from assms(2) obtain n where n: "length m = 8 * n" by blast
  from assms(3) have "start < length m"
    unfolding find_upt_Some by simp
  with n have n0: "n \<noteq> 0" and m8: "8 \<le> length m"
    by (cases n; simp)+
  show ?thesis
  proof (cases "start = 0")
    case True
    then show ?thesis
      using count_blocks_first [of 0 n m 0 i] n assms(3) by (simp add: PhCountStringZ_def)
  next
    case False
    let ?bs = "PhCompareEqINT128by16 (take 8 m) (replicate 8 0)"
    have len: "length ?bs = 8"
      using m8 by (simp add: PhCompareEqINT128by16_def)
    have "?bs ! j \<longleftrightarrow> m ! j = 0" if "j < 8" for j
      using that m8 by (simp add: PhCompareEqINT128by16_def)
    then have "find (\<lambda>j. ?bs ! j) [start..<8] = first_in (\<lambda>c. c = 0) m start 8"
      by (intro find_cong) auto
    note head = shifted_mask [OF len assms(1), unfolded this]
    show ?thesis
    proof (cases "BitScanForward (drop_bit (2 * start) (PhMoveMaskINT128by8 2 ?bs))")
      case (Some index)
      with head have "first_in (\<lambda>c. c = 0) m start 8 = Some (start + index div 2)"
        by simp
      then have "i = start + index div 2"
        using first_in_prefix [where P = "\<lambda>c. c = 0" and s = m, OF _ m8] assms(3) by simp
      then show ?thesis
        using False m8 Some by (simp add: PhCountStringZ_def)
    next
      case None
      with head have "first_in (\<lambda>c. c = 0) m start 8 = None"
        by simp
      moreover have "[start..<length m] = [start..<8] @ [8..<length m]"
        using upt_split [of start 8 "length m"] m8 assms(1) by simp
      ultimately have "first_in (\<lambda>c. c = 0) m 8 (length m) = Some i"
        using assms(3) by (simp add: find_append)
      then have "count_blocks m start 8 (n - 1) = Some (i - start)"
        using n n0 assms(1) by (intro count_blocks_first) (auto simp: not_less)
      then show ?thesis
        using False m8 None n by (simp add: PhCountStringZ_def)
    qed
  qed
qed

section \<open>Properties\<close>

text \<open>
  C32. \<open>PhEqualStringRef\<close>, on both its vector path and its machine-word path, with its switch to single
  characters in the middle of a string, decides equality of the strings, or of the upcased strings
  when case is ignored.
\<close>

theorem PhEqualStringRef_correct:
  "PhEqualStringRef up intrinsics s1 s2 ignoreCase \<longleftrightarrow>
     (if ignoreCase then map up s1 = map up s2 else s1 = s2)"
  by (simp add: PhEqualStringRef_iff list_all2_char_eq)

text \<open>
  \<open>PhFindCharInStringRef\<close> returns the first and \<open>PhFindLastCharInStringRef\<close> the last index at which
  the string has the character (up to case when case is ignored), and \<open>SIZE_MAX\<close> exactly when there is
  none; the block-wise paths agree with the character-wise ones.
\<close>

theorem PhFindCharInStringRef_correct:
  "PhFindCharInStringRef up intrinsics s c ic =
     find (\<lambda>i. if ic then up (s ! i) = up c else s ! i = c) [0..<length s]
   \<and> PhFindLastCharInStringRef up intrinsics s c ic =
     find (\<lambda>i. if ic then up (s ! i) = up c else s ! i = c) (rev [0..<length s])"
  by (simp add: PhFindCharInStringRef_first PhFindLastCharInStringRef_last)

text \<open>
  \<open>PhFindStringInStringRef\<close> returns the first index at which the substring occurs, up to case when
  case is ignored.
\<close>

theorem PhFindStringInStringRef_correct:
  "PhFindStringInStringRef up intrinsics s sub ic =
     find (\<lambda>i. i + length sub \<le> length s
              \<and> (if ic then map up (take (length sub) (drop i s)) = map up sub
                 else take (length sub) (drop i s) = sub)) [0..<length s + 1]"
proof -
  have occ: "occurs_at up ic sub s i \<longleftrightarrow>
      (if ic then map up (take (length sub) (drop i s)) = map up sub else take (length sub) (drop i s) = sub)" for i
    by (simp add: occurs_at_def list_all2_char_eq)
  show ?thesis
  proof (cases "length sub \<le> length s")
    case True
    have "find (\<lambda>i. i + length sub \<le> length s \<and> occurs_at up ic sub s i) [length s - length sub + 1..<length s + 1] = None"
      using True by (auto simp: find_None_iff)
    moreover have "find (\<lambda>i. i + length sub \<le> length s \<and> occurs_at up ic sub s i) [0..<length s - length sub + 1]
        = find (occurs_at up ic sub s) [0..<length s - length sub + 1]"
      using True by (intro find_cong) auto
    moreover have "[0..<length s + 1] = [0..<length s - length sub + 1] @ [length s - length sub + 1..<length s + 1]"
      by (rule upt_split) simp_all
    ultimately show ?thesis
      using True unfolding PhFindStringInStringRef_find occ [symmetric]
      by (simp add: find_append del: upt_Suc split: option.splits)
  next
    case False
    then show ?thesis
      by (auto simp: PhFindStringInStringRef_find find_None_iff intro!: sym [of _ None] simp del: upt_Suc)
  qed
qed

text \<open>
  C33. \<open>PhSplitStringRefEx\<close> with a character set: the separator is the first character, or the last one
  with \<open>PH_SPLIT_START_AT_END\<close>, that is in the set, or not in it with \<open>PH_SPLIT_COMPLEMENT_CHAR_SET\<close>,
  up to case with \<open>PH_SPLIT_CASE_INSENSITIVE\<close>; the parts are those before and after it. The lookup table
  with its incomplete mode never changes the result. With \<open>PH_SPLIT_CHAR_SET_IS_UPPERCASE\<close> the set must
  be upcased, as documented.
\<close>

theorem PhSplitStringRefEx_char_set:
  assumes "\<not> has_flag flags PH_SPLIT_AT_RANGE" "\<not> has_flag flags PH_SPLIT_AT_STRING"
    "has_flag flags PH_SPLIT_CHAR_SET_IS_UPPERCASE \<Longrightarrow> map up charSet = charSet"
  shows "PhSplitStringRefEx up intrinsics s charSet sepRange flags =
     (let f = (if has_flag flags PH_SPLIT_CASE_INSENSITIVE then up else id);
          is_separator = (\<lambda>c. (f c \<in> f ` set charSet) \<noteq> has_flag flags PH_SPLIT_COMPLEMENT_CHAR_SET);
          order = (if has_flag flags PH_SPLIT_START_AT_END then rev else id)
      in case find (\<lambda>i. is_separator (s ! i)) (order [0..<length s]) of
           None \<Rightarrow> Some (False, s, [], [])
         | Some i \<Rightarrow> Some (True, take i s, drop (Suc i) s, [s ! i]))"
proof -
  define f where "f = (if has_flag flags PH_SPLIT_CASE_INSENSITIVE then up else id)"
  define P where "P = (\<lambda>c. (f c \<in> f ` set charSet) \<noteq> has_flag flags PH_SPLIT_COMPLEMENT_CHAR_SET)"
  define ind where "ind = find (\<lambda>i. P (s ! i)) ((if has_flag flags PH_SPLIT_START_AT_END then rev else id) [0..<length s])"
  have parts: "split_at_index s ind 2 =
      (case ind of None \<Rightarrow> Some (False, s, [], []) | Some i \<Rightarrow> Some (True, take i s, drop (Suc i) s, [s ! i]))"
  proof (cases ind)
    case None
    then show ?thesis by (simp add: split_at_index_def no_split_def)
  next
    case (Some i)
    then have "i < length s"
      by (auto simp: ind_def find_Some_iff rev_nth split: if_splits)
    then have "take (Suc 0) (drop i s) = [s ! i]"
      by (simp add: take_Suc hd_drop_conv_nth)
    with Some \<open>i < length s\<close> show ?thesis
      by (simp add: split_at_index_def split_parts_def)
  qed
  have "PhSplitStringRefEx up intrinsics s charSet sepRange flags = split_at_index s ind 2"
  proof (cases "\<not> has_flag flags PH_SPLIT_COMPLEMENT_CHAR_SET \<and> length charSet = 1")
    case True
    then obtain x where "charSet = [x]" by (auto simp: length_Suc_conv)
    with True assms(1,2) show ?thesis
      by (auto simp: PhSplitStringRefEx_def PhFindCharInStringRef_first PhFindLastCharInStringRef_last
          ind_def P_def f_def)
  next
    case False
    have "\<forall>x \<in> set charSet. up x = x" if "has_flag flags PH_SPLIT_CHAR_SET_IS_UPPERCASE"
      using assms(3) [OF that] by (metis (no_types, lifting) map_eq_conv map_ident)
    then have found: "split_char_found up flags charSet (char_set_table f charSet empty_table) (f c) \<longleftrightarrow> P c" for c
      unfolding f_def P_def by (intro split_char_found_iff) simp
    have "split_search P s (int (length s) - 1) (- 1) (length s) = last_in P s 0 (length s)"
      "split_search P s 0 1 (length s) = first_in P s 0 (length s)"
      using split_search_backward [of P s "length s"] split_search_forward [of P s 0 "length s"] by simp_all
    with False assms(1,2) show ?thesis
      unfolding PhSplitStringRefEx_def Let_def f_def [symmetric] found
      by (auto simp: ind_def split_at_index_def)
  qed
  then show ?thesis
    unfolding parts by (simp add: Let_def ind_def P_def f_def)
qed

theorem PhSplitStringRefEx_char_set_witness:
  "PhSplitStringRefEx id True [97, 58, 98, 44, 99] [44, 58] (None, 0) PH_SPLIT_START_AT_END
     = Some (True, [97, 58, 98], [99], [44])"
  by (subst PhSplitStringRefEx_char_set) (simp_all add: has_flag_def upt_rec)

text \<open>
  \<open>PhTrimStringRef\<close> removes the longest prefix and suffix of characters of the set (each unless the
  flags exclude it), provided the characters of the string are below 256 or the set has a character
  that is not, or has at most one character. Without the proviso it is wrong: when the set has several
  characters, all below 256, a character whose low byte is in the set is removed too, although it is
  not in the set.
\<close>

theorem PhTrimStringRef_correct:
  "((\<forall>c \<in> set s. c < 256) \<or> (\<exists>c \<in> set charSet. 256 \<le> c) \<or> length charSet \<le> 1 \<longrightarrow>
      PhTrimStringRef s charSet flags = trimmed (\<lambda>c. c \<in> set charSet) s flags)
   \<and> (2 \<le> length charSet \<and> (\<forall>x \<in> set charSet. x < 256) \<and> 256 \<le> c \<and> c AND 0xFF \<in> set charSet \<longrightarrow>
      c \<notin> set charSet \<and> PhTrimStringRef (replicate n c) charSet 0 = [])"
proof (intro conjI impI; (elim conjE)?)
  assume ok: "(\<forall>c \<in> set s. c < 256) \<or> (\<exists>c \<in> set charSet. 256 \<le> c) \<or> length charSet \<le> 1"
  consider "charSet = []" | x where "charSet = [x]" | "1 < length charSet"
    by (cases charSet rule: list.exhaust; cases "tl charSet") auto
  then show "PhTrimStringRef s charSet flags = trimmed (\<lambda>c. c \<in> set charSet) s flags"
  proof cases
    case 1
    have "dropWhile (\<lambda>c. False) t = t" for t :: "wchar list"
      by (cases t) simp_all
    with 1 show ?thesis by (simp add: PhTrimStringRef_def trimmed_def Let_def)
  next
    case 2
    then show ?thesis
      using trim_ends_trimmed [of s "\<lambda>c. c = x" "\<lambda>c. c = x" flags]
      by (auto simp: PhTrimStringRef_def trimmed_def Let_def)
  next
    case 3
    then have "trim_ends (trim_char_found charSet (char_set_table id charSet empty_table)) s flags
        = trimmed (\<lambda>c. c \<in> set charSet) s flags"
      using ok by (intro trim_ends_trimmed trim_char_found_iff) auto
    with 3 show ?thesis
      by (auto simp: PhTrimStringRef_def trimmed_def Let_def)
  qed
next
  assume "\<forall>x \<in> set charSet. x < 256" "256 \<le> c"
  then show "c \<notin> set charSet" by (auto simp: not_le [symmetric])
next
  assume a: "2 \<le> length charSet" "\<forall>x \<in> set charSet. x < 256" "c AND 0xFF \<in> set charSet"
  obtain t complete where tc: "char_set_table id charSet empty_table = (t, complete)"
    by (cases "char_set_table id charSet empty_table")
  have "t ! unat (c AND 0xFF)" "complete"
    using table_lookup(1) [where f = id and cs = charSet and c = c, unfolded tc]
      table_lookup(2) [where f = id and cs = charSet, unfolded tc] a(2,3) low_byte_id by auto
  then have found: "trim_char_found charSet (t, complete) c"
    by (simp add: trim_char_found_def)
  have "trim_ends (trim_char_found charSet (t, complete)) (replicate n c) 0 = trimmed (\<lambda>x. True) (replicate n c) 0"
    using found by (intro trim_ends_trimmed) (auto split: if_splits)
  also have "\<dots> = []"
    by (simp add: trimmed_def has_flag_def)
  finally show "PhTrimStringRef (replicate n c) charSet 0 = []"
    using a(1) by (auto simp: PhTrimStringRef_def tc)
qed

theorem PhTrimStringRef_correct_witness:
  "PhTrimStringRef [32, 9, 65, 32] [32, 9] 0 = [65] \<and> PhTrimStringRef [0x120, 0x120] [32, 9] 0 = []"
  using PhTrimStringRef_correct [where s = "[32, 9, 65, 32]" and charSet = "[32, 9]" and flags = 0 and c = "0x120" and n = "Suc (Suc 0)"]
  by (simp add: trimmed_def has_flag_def)

text \<open>
  \<open>PhCompareStringRef\<close> is the lexicographic comparison by character code (of the upcased strings
  when case is ignored): the sign of its result is negative exactly when the first string is the
  smaller one and zero exactly when they are equal. The strings are shorter than \<open>2 ^ 30\<close> characters, so
  that the difference of the lengths in bytes fits a \<open>LONG\<close>, as the code assumes.
\<close>

theorem PhCompareStringRef_lexicographic:
  assumes "length s1 < 2 ^ 30" "length s2 < 2 ^ 30"
  shows "(sint (PhCompareStringRef up s1 s2 ic) < 0 \<longleftrightarrow>
            (map (fold_case ic up) s1, map (fold_case ic up) s2) \<in> lexord {(a, b). a < b})
         \<and> (PhCompareStringRef up s1 s2 ic = 0 \<longleftrightarrow> map (fold_case ic up) s1 = map (fold_case ic up) s2)"
proof (cases "compare_loop up ic s1 s2")
  case None
  have "sint (PhCompareStringRef up s1 s2 ic) = int (2 * length s1) - int (2 * length s2)"
    using sint_length_diff [of "2 * length s1" "2 * length s2"] assms None
    by (simp add: PhCompareStringRef_def)
  then show ?thesis
    using compare_loop_lex [where up = up and ic = ic and ?s1.0 = s1 and ?s2.0 = s2] None signed_eq_0_iff [of "PhCompareStringRef up s1 s2 ic"]
    by (auto simp: wchar_order_def)
next
  case (Some d)
  then show ?thesis
    using compare_loop_lex [where up = up and ic = ic and ?s1.0 = s1 and ?s2.0 = s2] signed_eq_0_iff [of d]
    by (auto simp: PhCompareStringRef_def wchar_order_def)
qed

theorem PhCompareStringRef_lexicographic_witness:
  "sint (PhCompareStringRef id [97, 98] [97, 99] False) < 0"
  using PhCompareStringRef_lexicographic [of "[97, 98]" "[97, 99]" id False]
  by (simp add: fold_case_def)

text \<open>
  \<open>PhCountStringZ\<close> with vector instructions, which starts at the 16-byte boundary before the string
  and reads whole blocks, returns what \<open>wcslen\<close> returns on the other path, for every alignment of the
  string and every memory of whole blocks that holds a terminator, and it reads no block beyond the
  one with the terminator.
\<close>

theorem PhCountStringZ_paths_agree:
  assumes "start < 8" "8 dvd length m" "0 \<in> set (drop start m)"
  shows "PhCountStringZ True m start = PhCountStringZ False m start \<and> PhCountStringZ True m start \<noteq> None"
proof -
  obtain i where i: "first_in (\<lambda>c. c = 0) (drop start m) 0 (length (drop start m)) = Some i"
  proof (cases "first_in (\<lambda>c. c = 0) (drop start m) 0 (length (drop start m))")
    case None
    with assms(3) show ?thesis by (auto simp: find_None_iff in_set_conv_nth)
  qed auto
  have "[start..<length m] = map (\<lambda>i. start + i) [0..<length (drop start m)]"
    using i map_add_upt [of start "length m - start"] by (cases "start \<le> length m") (simp_all add: add.commute)
  then have "first_in (\<lambda>c. c = 0) m start (length m) = Some (start + i)"
    using i by (simp add: find_map) (subst find_cong [where Q = "\<lambda>i. drop start m ! i = 0"]; auto)
  from PhCountStringZ_first [OF assms(1,2) this] i show ?thesis
    by (simp add: PhCountStringZ_def wcslen_first)
qed

theorem PhCountStringZ_paths_agree_witness:
  "PhCountStringZ True [1, 2, 3, 65, 66, 67, 68, 69, 70, 0, 9, 9, 9, 9, 9, 9] 3 = Some 6"
proof -
  have "8 dvd length [1, 2, 3, 65, 66, 67, 68, 69, 70, 0, 9, 9, 9, 9, 9, 9 :: wchar]"
    by (rule dvdI [of _ _ 2]) simp
  moreover have "PhCountStringZ False [1, 2, 3, 65, 66, 67, 68, 69, 70, 0, 9, 9, 9, 9, 9, 9] 3 = Some 6"
    by code_simp
  ultimately show ?thesis
    using PhCountStringZ_paths_agree [of 3 "[1, 2, 3, 65, 66, 67, 68, 69, 70, 0, 9, 9, 9, 9, 9, 9]"]
    by (simp del: list.size)
qed

text \<open>
  \<open>PhCopyStringZ\<close> adds the size of the terminator in bytes to a number of characters: an output
  buffer with room for the string and its terminator exactly is refused, although the same call of
  \<open>PhCopyBytesZ\<close> for a byte string succeeds, and the count that it returns is one more than the
  number of characters that the string and its terminator take.
\<close>

theorem PhCopyStringZ_room:
  assumes "0 \<notin> set s" "0 \<notin> set b" "length out = length s + 1" "length bout = length b + 1"
  shows "PhCopyStringZ (s @ [0]) None (Some out) (length s + 1) = Some (False, Some out, length s + 2)
       \<and> PhCopyBytesZ (b @ [0]) None (Some bout) (length b + 1) = Some (True, Some (b @ [0]), length b + 1)"
proof -
  have "wcslen (s @ [0]) = Some (length s)"
    using assms(1) by (induction s) auto
  moreover have "strlen (b @ [0]) = Some (length b)"
    using assms(2) by (induction b) auto
  ultimately show ?thesis
    using assms(3,4)
    by (simp add: PhCopyStringZ_def PhCopyBytesZ_def copy_z_def mem_read_def mem_write_def)
qed

theorem PhCopyStringZ_room_witness:
  "PhCopyStringZ [72, 105, 0] None (Some [1, 1, 1]) 3 = Some (False, Some [1, 1, 1], 4)"
  using PhCopyStringZ_room [of "[72, 105]" "[72, 105]" "[1, 1, 1]" "[1, 1, 1]"] by (simp flip: One_nat_def)

end
