(* ===== verification/PhBuilder.thy ===== *)
theory PhBuilder
  imports PhSequence PhString
begin

text \<open>
  The string builder and the byte string builder of \<open>src/phlib/basesup.c\<close>, with the string objects
  that they grow. Lengths are kept in bytes, as in the code; the buffer of a string is the list of its
  16-bit cells, so that a byte offset is halved to address it. The assertions that lengths of strings
  are even are checks of the model, which returns \<open>None\<close> when one fails, as it does for an access
  outside the buffer. The interfaces for growable containers are interpreted on both builders.
\<close>

section \<open>String objects\<close>

record PH_STRING =
  str_Length :: ulong64
  str_Buffer :: "wchar option list"

text \<open>
  The buffer has one cell more than the length asks for, for the null terminator. The allocation succeeds: a length
  within 20 bytes of \<open>2 ^ 64\<close>, for which the sum of header, length and terminator would wrap, fits in no address space.
\<close>

definition PhCreateStringEx :: "wchar list option \<Rightarrow> ulong64 \<Rightarrow> PH_STRING option" where
  "PhCreateStringEx buffer len =
     (if odd (unat len) then None
      else
        let n = unat len div 2; m = (PhAllocate (n + 1))[n := Some 0]
        in case buffer of
             None \<Rightarrow> Some \<lparr> str_Length = len, str_Buffer = m \<rparr>
           | Some b \<Rightarrow>
               Option.bind (mem_read b 0 n) (\<lambda>d.
               Option.bind (mem_write m 0 (map Some d)) (\<lambda>m.
                 Some \<lparr> str_Length = len, str_Buffer = m \<rparr>)))"

section \<open>The string builder\<close>

record PH_STRING_BUILDER =
  sb_AllocatedLength :: ulong64
  sb_String :: PH_STRING

abbreviation sb_Length :: "PH_STRING_BUILDER \<Rightarrow> ulong64" where
  "sb_Length sb \<equiv> str_Length (sb_String sb)"

abbreviation sb_Buffer :: "PH_STRING_BUILDER \<Rightarrow> wchar option list" where
  "sb_Buffer sb \<equiv> str_Buffer (sb_String sb)"

definition PhInitializeStringBuilder :: "ulong64 \<Rightarrow> PH_STRING_BUILDER option" where
  "PhInitializeStringBuilder initialCapacity =
     (let initialCapacity = (if initialCapacity AND 1 \<noteq> 0 then initialCapacity + 1 else initialCapacity)
      in Option.bind (PhCreateStringEx None initialCapacity) (\<lambda>s.
         Option.bind (mem_write (str_Buffer s) 0 [Some 0]) (\<lambda>m.
           Some \<lparr> sb_AllocatedLength = initialCapacity,
                  sb_String = \<lparr> str_Length = 0, str_Buffer = m \<rparr> \<rparr>)))"

definition PhFinalStringBuilderString :: "PH_STRING_BUILDER \<Rightarrow> PH_STRING" where
  "PhFinalStringBuilderString sb = sb_String sb"

definition PhpResizeStringBuilder :: "PH_STRING_BUILDER \<Rightarrow> ulong64 \<Rightarrow> PH_STRING_BUILDER option" where
  "PhpResizeStringBuilder sb newCapacity =
     (let n = sb_AllocatedLength sb * 2;
          n = (if n < newCapacity then newCapacity else n)
      in Option.bind (PhCreateStringEx None n) (\<lambda>newString.
         Option.bind (mem_read (sb_Buffer sb) 0 (unat (sb_Length sb + 2) div 2)) (\<lambda>d.
         Option.bind (mem_write (str_Buffer newString) 0 d) (\<lambda>m.
           Some \<lparr> sb_AllocatedLength = n,
                  sb_String = \<lparr> str_Length = sb_Length sb, str_Buffer = m \<rparr> \<rparr>))))"

text \<open>The growth check that every appending operation makes for \<open>len\<close> more bytes.\<close>

definition sb_reserve :: "PH_STRING_BUILDER \<Rightarrow> ulong64 \<Rightarrow> PH_STRING_BUILDER option" where
  "sb_reserve sb len =
     (if sb_AllocatedLength sb < sb_Length sb + len then PhpResizeStringBuilder sb (sb_Length sb + len)
      else Some sb)"

definition PhpWriteNullTerminatorStringBuilder :: "PH_STRING_BUILDER \<Rightarrow> PH_STRING_BUILDER option" where
  "PhpWriteNullTerminatorStringBuilder sb =
     (if odd (unat (sb_Length sb)) then None
      else map_option (\<lambda>m. sb\<lparr>sb_String := (sb_String sb)\<lparr>str_Buffer := m\<rparr>\<rparr>)
             (mem_write (sb_Buffer sb) (unat (sb_Length sb) div 2) [Some 0]))"

text \<open>The new buffer contents and length, followed by the terminator.\<close>

definition sb_finish :: "PH_STRING_BUILDER \<Rightarrow> wchar option list \<Rightarrow> ulong64 \<Rightarrow> PH_STRING_BUILDER option" where
  "sb_finish sb m len =
     PhpWriteNullTerminatorStringBuilder (sb\<lparr>sb_String := \<lparr> str_Length = len, str_Buffer = m \<rparr>\<rparr>)"

definition PhAppendStringBuilderEx ::
  "PH_STRING_BUILDER \<Rightarrow> wchar list option \<Rightarrow> ulong64 \<Rightarrow> PH_STRING_BUILDER option" where
  "PhAppendStringBuilderEx sb s len =
     (if len = 0 then Some sb
      else Option.bind (sb_reserve sb len) (\<lambda>sb.
           Option.bind
             (case s of
                Some s \<Rightarrow> Option.bind (mem_read s 0 (unat len div 2))
                  (\<lambda>d. mem_write (sb_Buffer sb) (unat (sb_Length sb) div 2) (map Some d))
              | None \<Rightarrow> Some (sb_Buffer sb))
             (\<lambda>m. sb_finish sb m (sb_Length sb + len))))"

definition bytes_of :: "'a list \<Rightarrow> ulong64" where
  "bytes_of s = of_nat (2 * length s)"

definition PhAppendStringBuilder :: "PH_STRING_BUILDER \<Rightarrow> wchar list \<Rightarrow> PH_STRING_BUILDER option" where
  "PhAppendStringBuilder sb s = PhAppendStringBuilderEx sb (Some s) (bytes_of s)"

definition PhAppendCharStringBuilder :: "PH_STRING_BUILDER \<Rightarrow> wchar \<Rightarrow> PH_STRING_BUILDER option" where
  "PhAppendCharStringBuilder sb character =
     Option.bind (sb_reserve sb 2) (\<lambda>sb.
     Option.bind (mem_write (sb_Buffer sb) (unat (sb_Length sb) div 2) [Some character])
       (\<lambda>m. sb_finish sb m (sb_Length sb + 2)))"

definition PhAppendCharStringBuilder2 :: "PH_STRING_BUILDER \<Rightarrow> wchar \<Rightarrow> ulong64 \<Rightarrow> PH_STRING_BUILDER option" where
  "PhAppendCharStringBuilder2 sb character count =
     (if count = 0 then Some sb
      else Option.bind (sb_reserve sb (count * 2)) (\<lambda>sb.
           Option.bind (mem_write (sb_Buffer sb) (unat (sb_Length sb) div 2)
               (replicate (unat count) (Some character)))
             (\<lambda>m. sb_finish sb m (sb_Length sb + count * 2))))"

text \<open>
  \<open>formatted\<close> is the text that the C library's formatting produces, \<open>None\<close> when \<open>_vscwprintf\<close> fails.
\<close>

definition PhAppendFormatStringBuilder_V ::
  "PH_STRING_BUILDER \<Rightarrow> wchar list option \<Rightarrow> PH_STRING_BUILDER option" where
  "PhAppendFormatStringBuilder_V sb formatted =
     (case formatted of
        None \<Rightarrow> Some sb
      | Some s \<Rightarrow>
          if length s = 0 then Some sb
          else Option.bind (sb_reserve sb (bytes_of s)) (\<lambda>sb.
               Option.bind (mem_write (sb_Buffer sb) (unat (sb_Length sb) div 2) (map Some s))
                 (\<lambda>m. sb_finish sb m (sb_Length sb + bytes_of s))))"

definition PhInsertStringBuilderEx ::
  "PH_STRING_BUILDER \<Rightarrow> ulong64 \<Rightarrow> wchar list option \<Rightarrow> ulong64 \<Rightarrow> PH_STRING_BUILDER option" where
  "PhInsertStringBuilderEx sb index s len =
     (if len = 0 then Some sb
      else Option.bind (sb_reserve sb len) (\<lambda>sb.
           Option.bind
             (if index * 2 < sb_Length sb
              then memmove (sb_Buffer sb) (unat (index + len div 2)) (unat index)
                     (unat (sb_Length sb - index * 2) div 2)
              else Some (sb_Buffer sb))
             (\<lambda>m. Option.bind
               (case s of
                  Some s \<Rightarrow> Option.bind (mem_read s 0 (unat len div 2)) (\<lambda>d. mem_write m (unat index) (map Some d))
                | None \<Rightarrow> Some m)
               (\<lambda>m. sb_finish sb m (sb_Length sb + len)))))"

definition PhInsertStringBuilder ::
  "PH_STRING_BUILDER \<Rightarrow> ulong64 \<Rightarrow> wchar list \<Rightarrow> PH_STRING_BUILDER option" where
  "PhInsertStringBuilder sb index s = PhInsertStringBuilderEx sb index (Some s) (bytes_of s)"

text \<open>The string is null-terminated and starts at the beginning of a 16-byte block of memory.\<close>

definition PhInsertStringBuilder2 ::
  "bool \<Rightarrow> PH_STRING_BUILDER \<Rightarrow> ulong64 \<Rightarrow> wchar list \<Rightarrow> PH_STRING_BUILDER option" where
  "PhInsertStringBuilder2 intrinsics sb index s =
     Option.bind (PhCountStringZ intrinsics s 0)
       (\<lambda>n. PhInsertStringBuilderEx sb index (Some s) (of_nat n * 2))"

definition PhRemoveStringBuilder :: "PH_STRING_BUILDER \<Rightarrow> ulong64 \<Rightarrow> ulong64 \<Rightarrow> PH_STRING_BUILDER option" where
  "PhRemoveStringBuilder sb startIndex count =
     Option.bind
       (memmove (sb_Buffer sb) (unat startIndex) (unat (startIndex + count))
          (unat (sb_Length sb - (count + startIndex) * 2) div 2))
       (\<lambda>m. sb_finish sb m (sb_Length sb - count * 2))"

definition PhRemoveEndStringBuilder :: "PH_STRING_BUILDER \<Rightarrow> ulong64 \<Rightarrow> PH_STRING_BUILDER option" where
  "PhRemoveEndStringBuilder sb count = PhRemoveStringBuilder sb (sb_Length sb div 2 - count) count"

section \<open>The byte string builder\<close>

record PH_BYTES_BUILDER =
  bb_AllocatedLength :: ulong64
  bb_Length :: ulong64
  bb_Buffer :: "uchar option list"

definition PhCreateBytesEx :: "uchar list option \<Rightarrow> ulong64 \<Rightarrow> (ulong64 \<times> uchar option list) option" where
  "PhCreateBytesEx buffer len =
     (let n = unat len; m = (PhAllocate (n + 1))[n := Some 0]
      in case buffer of
           None \<Rightarrow> Some (len, m)
         | Some b \<Rightarrow>
             Option.bind (mem_read b 0 n) (\<lambda>d.
             Option.bind (mem_write m 0 (map Some d)) (\<lambda>m. Some (len, m))))"

definition PhInitializeBytesBuilder :: "ulong64 \<Rightarrow> PH_BYTES_BUILDER option" where
  "PhInitializeBytesBuilder initialCapacity =
     Option.bind (PhCreateBytesEx None initialCapacity) (\<lambda>(_, m).
     Option.bind (mem_write m 0 [Some 0]) (\<lambda>m.
       Some \<lparr> bb_AllocatedLength = initialCapacity, bb_Length = 0, bb_Buffer = m \<rparr>))"

definition PhFinalBytesBuilderBytes :: "PH_BYTES_BUILDER \<Rightarrow> ulong64 \<times> uchar option list" where
  "PhFinalBytesBuilderBytes bb = (bb_Length bb, bb_Buffer bb)"

definition PhpResizeBytesBuilder :: "PH_BYTES_BUILDER \<Rightarrow> ulong64 \<Rightarrow> PH_BYTES_BUILDER option" where
  "PhpResizeBytesBuilder bb newCapacity =
     (let n = bb_AllocatedLength bb * 2;
          n = (if n < newCapacity then newCapacity else n)
      in Option.bind (PhCreateBytesEx None n) (\<lambda>(_, m).
         Option.bind (mem_read (bb_Buffer bb) 0 (unat (bb_Length bb + 1))) (\<lambda>d.
         Option.bind (mem_write m 0 d) (\<lambda>m.
           Some \<lparr> bb_AllocatedLength = n, bb_Length = bb_Length bb, bb_Buffer = m \<rparr>))))"

definition PhpWriteNullTerminatorBytesBuilder :: "PH_BYTES_BUILDER \<Rightarrow> PH_BYTES_BUILDER option" where
  "PhpWriteNullTerminatorBytesBuilder bb =
     map_option (\<lambda>m. bb\<lparr>bb_Buffer := m\<rparr>) (mem_write (bb_Buffer bb) (unat (bb_Length bb)) [Some 0])"

definition ALIGN_UP_BY :: "ulong64 \<Rightarrow> ulong64 \<Rightarrow> ulong64" where
  "ALIGN_UP_BY address align = (address + align - 1) AND NOT (align - 1)"

text \<open>The builder and the value of \<open>Offset\<close>, which is also where the returned pointer points.\<close>

definition PhAppendBytesBuilderEx ::
  "PH_BYTES_BUILDER \<Rightarrow> uchar list option \<Rightarrow> ulong64 \<Rightarrow> ulong64 \<Rightarrow> (PH_BYTES_BUILDER \<times> ulong64) option" where
  "PhAppendBytesBuilderEx bb buffer len alignment =
     (let currentLength = bb_Length bb
      in if len = 0 then Some (bb, currentLength)
         else
           let currentLength = (if alignment \<noteq> 0 then ALIGN_UP_BY currentLength alignment else currentLength)
           in Option.bind
                (if bb_AllocatedLength bb < currentLength + len
                 then PhpResizeBytesBuilder bb (currentLength + len) else Some bb)
                (\<lambda>bb. Option.bind
                  (case buffer of
                     Some b \<Rightarrow> Option.bind (mem_read b 0 (unat len))
                       (\<lambda>d. mem_write (bb_Buffer bb) (unat currentLength) (map Some d))
                   | None \<Rightarrow> Some (bb_Buffer bb))
                  (\<lambda>m. map_option (\<lambda>bb. (bb, currentLength))
                    (PhpWriteNullTerminatorBytesBuilder
                       (bb\<lparr>bb_Buffer := m, bb_Length := currentLength + len\<rparr>)))))"

definition PhAppendBytesBuilder :: "PH_BYTES_BUILDER \<Rightarrow> uchar list \<Rightarrow> PH_BYTES_BUILDER option" where
  "PhAppendBytesBuilder bb bytes =
     map_option fst (PhAppendBytesBuilderEx bb (Some bytes) (of_nat (length bytes)) 0)"

definition PhAppendBytesBuilder2 :: "PH_BYTES_BUILDER \<Rightarrow> uchar list \<Rightarrow> PH_BYTES_BUILDER option" where
  "PhAppendBytesBuilder2 bb bytes =
     Option.bind (strlen bytes)
       (\<lambda>n. map_option fst (PhAppendBytesBuilderEx bb (Some bytes) (of_nat n) 0))"

section \<open>Invariant of the string builder\<close>

text \<open>
  The buffer holds the text and its terminator; both lengths are even, and the buffer has a cell for
  the terminator beyond the allocated length.
\<close>

definition sb_holds :: "PH_STRING_BUILDER \<Rightarrow> wchar list \<Rightarrow> bool" where
  "sb_holds sb xs \<longleftrightarrow>
     even (unat (sb_AllocatedLength sb)) \<and> unat (sb_Length sb) = 2 * length xs
     \<and> length (sb_Buffer sb) = unat (sb_AllocatedLength sb) div 2 + 1
     \<and> holds (length xs + 1) (sb_Buffer sb) (xs @ [0])"

definition sb_contents :: "PH_STRING_BUILDER \<Rightarrow> wchar list" where
  "sb_contents sb = map the (take (unat (sb_Length sb) div 2) (sb_Buffer sb))"

definition sb_inv :: "PH_STRING_BUILDER \<Rightarrow> bool" where
  "sb_inv sb \<longleftrightarrow> sb_holds sb (sb_contents sb)"

text \<open>Below this number of characters the length in bytes, with the terminator, fits a \<open>SIZE_T\<close>.\<close>

abbreviation sb_bound :: nat where
  "sb_bound \<equiv> 2 ^ 63 - 1"

lemma holds_prefix: "holds (length xs + n) m (xs @ ys) \<Longrightarrow> holds (length xs) m xs"
  by (simp add: holds_def) (metis append_eq_append_conv_if length_map min.absorb1 min_def take_map take_take le_add1 append_take_drop_id append_eq_conv_conj)

lemma sb_holds_contents: "sb_holds sb xs \<Longrightarrow> sb_contents sb = xs"
  using holds_contents [OF holds_prefix [of xs 1 "sb_Buffer sb" "[0]"]]
  by (simp add: sb_holds_def sb_contents_def)

lemma sb_holdsD: "sb_holds sb xs \<Longrightarrow> sb_inv sb \<and> sb_contents sb = xs"
  using sb_holds_contents by (auto simp: sb_inv_def)

lemma sb_finish_holds:
  assumes "holds (length ys) m ys" "unat len = 2 * length ys" "length ys < length m"
    "even (unat (sb_AllocatedLength sb))" "length m = unat (sb_AllocatedLength sb) div 2 + 1"
  shows "\<exists>sb'. sb_finish sb m len = Some sb' \<and> sb_holds sb' ys"
proof -
  obtain m' where m': "mem_write m (length ys) (map Some [0]) = Some m'" "length m' = length m"
    "holds (length ys + length [0 :: wchar]) m' (ys @ [0])"
    using holds_append [OF assms(1), of "[0]"] assms(3) by auto
  then show ?thesis
    using assms by (simp add: sb_finish_def PhpWriteNullTerminatorStringBuilder_def sb_holds_def)
qed

lemma PhCreateStringEx_reserve:
  assumes "even (unat n)"
  shows "\<exists>s. PhCreateStringEx None n = Some s \<and> length (str_Buffer s) = unat n div 2 + 1"
  using assms unfolding PhCreateStringEx_def Let_def by (simp add: PhAllocate_def del: replicate_Suc)

lemma sb_reserve_holds:
  assumes sb: "sb_holds sb xs" and n: "unat n = 2 * k" and room: "length xs + k < sb_bound"
  shows "\<exists>sb'. sb_reserve sb n = Some sb' \<and> sb_holds sb' xs \<and> length xs + k < length (sb_Buffer sb')"
proof -
  have len: "unat (sb_Length sb) = 2 * length xs" and ev: "even (unat (sb_AllocatedLength sb))"
    and buf: "length (sb_Buffer sb) = unat (sb_AllocatedLength sb) div 2 + 1"
    and h: "holds (length xs + 1) (sb_Buffer sb) (xs @ [0])"
    using sb by (auto simp: sb_holds_def)
  have total: "unat (sb_Length sb + n) = 2 * (length xs + k)"
    using unat_plus_no_overflow [of "sb_Length sb" n] len n room by simp
  have copy: "unat (sb_Length sb + 2) div 2 = length xs + 1"
    using unat_plus_no_overflow [of "sb_Length sb" 2] len room by simp
  show ?thesis
  proof (cases "sb_AllocatedLength sb < sb_Length sb + n")
    case False
    then have "length xs + k < length (sb_Buffer sb)"
      using total buf ev by (simp add: not_less word_le_nat_alt)
    with False sb show ?thesis by (simp add: sb_reserve_def)
  next
    case True
    let ?a = "if sb_AllocatedLength sb * 2 < sb_Length sb + n then sb_Length sb + n else sb_AllocatedLength sb * 2"
    have "even (unat (sb_AllocatedLength sb * 2))"
      by (simp add: unat_word_ariths dvd_mod)
    then have eva: "even (unat ?a)"
      using total by auto
    have big: "2 * (length xs + k) \<le> unat ?a"
      using total by (auto simp: not_less word_le_nat_alt)
    obtain s where s: "PhCreateStringEx None ?a = Some s" "length (str_Buffer s) = unat ?a div 2 + 1"
      using PhCreateStringEx_reserve [OF eva] by blast
    have d: "mem_read (sb_Buffer sb) 0 (length xs + 1) = Some (map Some (xs @ [0]))"
      using h by (simp add: mem_read_def holds_def)
    have "0 + length (map Some (xs @ [0])) \<le> length (str_Buffer s)"
      using s(2) big by simp
    from mem_write_in_bounds [OF this] obtain m where
      m: "mem_write (str_Buffer s) 0 (map Some (xs @ [0])) = Some m" "length m = length (str_Buffer s)"
      by blast
    let ?sb = "\<lparr> sb_AllocatedLength = ?a, sb_String = \<lparr> str_Length = sb_Length sb, str_Buffer = m \<rparr> \<rparr>"
    have "sb_reserve sb n = Some ?sb"
      using True s(1) d m(1) copy by (simp add: sb_reserve_def PhpResizeStringBuilder_def Let_def)
    moreover have "holds (length xs + 1) m (xs @ [0])"
      using take_mem_write_end [OF m(1)] m(2) s(2) big by (simp add: holds_def)
    then have "sb_holds ?sb xs"
      using eva len m(2) s(2) by (simp add: sb_holds_def)
    moreover have "length xs + k < length (sb_Buffer ?sb)"
      using m(2) s(2) big by simp
    ultimately show ?thesis by blast
  qed
qed

lemma bytes_of_unat: "length s < 2 ^ 63 \<Longrightarrow> unat (bytes_of s) = 2 * length s"
  unfolding bytes_of_def unat_of_nat by simp

lemma bytes_of_0: "length s < 2 ^ 63 \<Longrightarrow> bytes_of s = 0 \<longleftrightarrow> s = []"
  using bytes_of_unat [of s] by (auto simp: unat_eq_0 bytes_of_def)

lemma PhAppendStringBuilder_appends:
  assumes "sb_inv sb" "length (sb_contents sb) + length s < sb_bound"
  shows "\<exists>sb'. PhAppendStringBuilder sb s = Some sb' \<and> sb_inv sb' \<and> sb_contents sb' = sb_contents sb @ s"
proof (cases "s = []")
  case True
  with assms(1) show ?thesis by (simp add: PhAppendStringBuilder_def PhAppendStringBuilderEx_def bytes_of_def)
next
  case False
  let ?xs = "sb_contents sb"
  have sb: "sb_holds sb ?xs" and b: "length s < 2 ^ 63"
    using assms by (simp_all add: sb_inv_def)
  note n = bytes_of_unat [OF b]
  obtain sb1 where sb1: "sb_reserve sb (bytes_of s) = Some sb1" "sb_holds sb1 ?xs"
    "length ?xs + length s < length (sb_Buffer sb1)"
    using sb_reserve_holds [OF sb n assms(2)] by blast
  have len: "unat (sb_Length sb1) = 2 * length ?xs" and h: "holds (length ?xs + 1) (sb_Buffer sb1) (?xs @ [0])"
    and a: "even (unat (sb_AllocatedLength sb1))"
      "length (sb_Buffer sb1) = unat (sb_AllocatedLength sb1) div 2 + 1"
    using sb1(2) by (auto simp: sb_holds_def)
  obtain m where m: "mem_write (sb_Buffer sb1) (length ?xs) (map Some s) = Some m"
    "length m = length (sb_Buffer sb1)" "holds (length ?xs + length s) m (?xs @ s)"
    using holds_append [OF holds_prefix [OF h]] sb1(3) by (meson less_imp_le)
  have "unat (sb_Length sb1 + bytes_of s) = 2 * length (?xs @ s)"
    using unat_plus_no_overflow [of "sb_Length sb1" "bytes_of s"] len n assms(2) by simp
  then obtain sb' where "sb_finish sb1 m (sb_Length sb1 + bytes_of s) = Some sb'" "sb_holds sb' (?xs @ s)"
    using sb_finish_holds [of "?xs @ s" m] m(2,3) sb1(3) a by auto
  moreover have "PhAppendStringBuilder sb s = sb_finish sb1 m (sb_Length sb1 + bytes_of s)"
    using sb1(1) m(1) len n bytes_of_0 [OF b] False
    by (simp add: PhAppendStringBuilder_def PhAppendStringBuilderEx_def mem_read_def)
  ultimately show ?thesis using sb_holdsD by auto
qed

lemma half_words:
  fixes c i n :: nat and len :: ulong64
  assumes "unat len = 2 * c" "i + n \<le> c"
  shows "unat (of_nat i :: ulong64) = i" "unat (of_nat n :: ulong64) = n"
    "unat (of_nat i + of_nat n :: ulong64) = i + n"
    "unat (len - (of_nat n + of_nat i) * 2) div 2 = c - i - n"
    "unat (len - of_nat n * 2) = 2 * (c - n)"
proof -
  have b: "2 * i + 2 * n \<le> unat len"
    using assms by simp
  then show i: "unat (of_nat i :: ulong64) = i" and n: "unat (of_nat n :: ulong64) = n"
    by (intro unat_of_nat_le [of _ len]; simp)+
  show "unat (of_nat i + of_nat n :: ulong64) = i + n"
    using unat_of_nat_le [of "i + n" len] assms by simp
  have "unat (len - of_nat (2 * i) - of_nat (2 * n)) = unat len - 2 * i - 2 * n"
    and "unat (len - of_nat (2 * n)) = unat len - 2 * n"
    using remove_range [OF b] by blast+
  moreover have e: "len - (of_nat n + of_nat i) * 2 = len - of_nat (2 * i) - of_nat (2 * n)"
    "len - of_nat n * 2 = len - of_nat (2 * n)"
    by (simp_all add: algebra_simps)
  ultimately show "unat (len - (of_nat n + of_nat i) * 2) div 2 = c - i - n"
    "unat (len - of_nat n * 2) = 2 * (c - n)"
    unfolding e using assms(1) by simp_all
qed

lemma PhRemoveStringBuilder_removes:
  assumes "sb_inv sb" "i + n \<le> length (sb_contents sb)"
  shows "\<exists>sb'. PhRemoveStringBuilder sb (of_nat i) (of_nat n) = Some sb' \<and> sb_inv sb'
           \<and> sb_contents sb' = take i (sb_contents sb) @ drop (i + n) (sb_contents sb)"
proof -
  let ?xs = "sb_contents sb"
  let ?ys = "take i ?xs @ drop (i + n) ?xs"
  have len: "unat (sb_Length sb) = 2 * length ?xs" and h: "holds (length ?xs + 1) (sb_Buffer sb) (?xs @ [0])"
    and a: "even (unat (sb_AllocatedLength sb))"
      "length (sb_Buffer sb) = unat (sb_AllocatedLength sb) div 2 + 1"
    using assms(1) by (auto simp: sb_inv_def sb_holds_def)
  note w = half_words [OF len assms(2)]
  obtain m where m: "memmove (sb_Buffer sb) i (i + n) (length ?xs - i - n) = Some m"
    "length m = length (sb_Buffer sb)" "holds (length ?xs - n) m ?ys"
    using holds_remove [OF holds_prefix [OF h] assms(2)] by blast
  have l: "length ?ys = length ?xs - n"
    using assms(2) by simp
  have "length ?xs < length (sb_Buffer sb)"
    using h by (simp add: holds_def)
  then have "length ?ys < length m"
    unfolding l m(2) by simp
  moreover have "unat (sb_Length sb - of_nat n * 2) = 2 * length ?ys"
    unfolding l by (rule w(5))
  ultimately obtain sb' where "sb_finish sb m (sb_Length sb - of_nat n * 2) = Some sb'" "sb_holds sb' ?ys"
    using sb_finish_holds [of ?ys m "sb_Length sb - of_nat n * 2" sb] m(2,3) a unfolding l by auto
  moreover have "PhRemoveStringBuilder sb (of_nat i) (of_nat n) = sb_finish sb m (sb_Length sb - of_nat n * 2)"
    unfolding PhRemoveStringBuilder_def w(1,3,4) m(1) by simp
  ultimately show ?thesis using sb_holdsD by auto
qed

lemma PhInsertStringBuilder_inserts:
  assumes "sb_inv sb" "i \<le> length (sb_contents sb)" "length (sb_contents sb) + length s < sb_bound"
  shows "\<exists>sb'. PhInsertStringBuilder sb (of_nat i) s = Some sb' \<and> sb_inv sb'
           \<and> sb_contents sb' = take i (sb_contents sb) @ s @ drop i (sb_contents sb)"
proof (cases "s = []")
  case True
  with assms(1) show ?thesis by (simp add: PhInsertStringBuilder_def PhInsertStringBuilderEx_def bytes_of_def)
next
  case False
  let ?xs = "sb_contents sb"
  let ?ys = "take i ?xs @ s @ drop i ?xs"
  have sb: "sb_holds sb ?xs" and b: "length s < 2 ^ 63"
    using assms by (simp_all add: sb_inv_def)
  note n = bytes_of_unat [OF b]
  obtain sb1 where sb1: "sb_reserve sb (bytes_of s) = Some sb1" "sb_holds sb1 ?xs"
    "length ?xs + length s < length (sb_Buffer sb1)"
    using sb_reserve_holds [OF sb n assms(3)] by blast
  have len: "unat (sb_Length sb1) = 2 * length ?xs" and h: "holds (length ?xs + 1) (sb_Buffer sb1) (?xs @ [0])"
    and a: "even (unat (sb_AllocatedLength sb1))"
      "length (sb_Buffer sb1) = unat (sb_AllocatedLength sb1) div 2 + 1"
    using sb1(2) by (auto simp: sb_holds_def)
  obtain m1 m2 where m: "memmove (sb_Buffer sb1) (i + length s) i (length ?xs - i) = Some m1"
    "mem_write m1 i (map Some s) = Some m2" "length m2 = length (sb_Buffer sb1)"
    "holds (length ?xs + length s) m2 ?ys"
    using holds_insert [OF holds_prefix [OF h] assms(2) less_imp_le [OF sb1(3)]] by blast
  have i: "unat (of_nat i :: ulong64) = i" "unat (of_nat i * 2 :: ulong64) = 2 * i"
    "unat (sb_Length sb1 - of_nat i * 2) div 2 = length ?xs - i"
    using half_words(1) [OF len, of i 0] half_words(5) [OF len, of 0 i] assms(2)
      unat_of_nat_le [of "2 * i" "sb_Length sb1"] len by (simp_all add: mult.commute)
  have "unat (of_nat i + bytes_of s div 2) = i + length s"
    using unat_plus_no_overflow [of "of_nat i" "bytes_of s div 2"] i(1) n assms(2,3) by (simp add: unat_div)
  then have shift: "(if of_nat i * 2 < sb_Length sb1
      then memmove (sb_Buffer sb1) (unat (of_nat i + bytes_of s div 2)) (unat (of_nat i :: ulong64))
             (unat (sb_Length sb1 - of_nat i * 2) div 2)
      else Some (sb_Buffer sb1)) = Some m1"
    using m(1) i len assms(2) by (auto simp: word_less_nat_alt not_less dest: memmove_0)
  have l: "length ?ys = length ?xs + length s"
    using assms(2) by simp
  have "unat (sb_Length sb1 + bytes_of s) = 2 * (length ?xs + length s)"
    using unat_plus_no_overflow [of "sb_Length sb1" "bytes_of s"] len n assms(3) by simp
  then obtain sb' where "sb_finish sb1 m2 (sb_Length sb1 + bytes_of s) = Some sb'" "sb_holds sb' ?ys"
    using sb_finish_holds [of ?ys m2 "sb_Length sb1 + bytes_of s" sb1, unfolded l] m(3,4) sb1(3) a by auto
  moreover have "PhInsertStringBuilder sb (of_nat i) s = sb_finish sb1 m2 (sb_Length sb1 + bytes_of s)"
    using sb1(1) m(2) shift i(1) n bytes_of_0 [OF b] False
    by (simp add: PhInsertStringBuilder_def PhInsertStringBuilderEx_def mem_read_def)
  ultimately show ?thesis using sb_holdsD by auto
qed

interpretation string_builder: insertable sb_inv sb_contents PhAppendStringBuilder sb_bound
  "\<lambda>sb i n. PhRemoveStringBuilder sb (of_nat i) (of_nat n)" "\<lambda>sb i. PhInsertStringBuilder sb (of_nat i)"
  by unfold_locales
    (simp_all add: PhAppendStringBuilder_appends PhRemoveStringBuilder_removes PhInsertStringBuilder_inserts)

section \<open>Invariant of the byte string builder\<close>

definition bb_wf :: "PH_BYTES_BUILDER \<Rightarrow> bool" where
  "bb_wf bb \<longleftrightarrow>
     bb_Length bb \<le> bb_AllocatedLength bb
     \<and> length (bb_Buffer bb) = unat (bb_AllocatedLength bb) + 1
     \<and> bb_Buffer bb ! unat (bb_Length bb) = Some 0"

definition bb_contents :: "PH_BYTES_BUILDER \<Rightarrow> uchar list" where
  "bb_contents bb = map the (take (unat (bb_Length bb)) (bb_Buffer bb))"

definition bb_inv :: "PH_BYTES_BUILDER \<Rightarrow> bool" where
  "bb_inv bb \<longleftrightarrow> bb_wf bb \<and> None \<notin> set (take (unat (bb_Length bb)) (bb_Buffer bb))"

lemma PhpResizeBytesBuilder_wf:
  assumes wf: "bb_wf bb" and n: "bb_AllocatedLength bb < n" and l: "unat (bb_Length bb) + 1 < 2 ^ 64"
  shows "\<exists>bb'. PhpResizeBytesBuilder bb n = Some bb' \<and> bb_wf bb' \<and> n \<le> bb_AllocatedLength bb'
           \<and> bb_Length bb' = bb_Length bb
           \<and> take (unat (bb_Length bb)) (bb_Buffer bb') = take (unat (bb_Length bb)) (bb_Buffer bb)"
proof -
  let ?a = "if bb_AllocatedLength bb * 2 < n then n else bb_AllocatedLength bb * 2"
  let ?l = "unat (bb_Length bb)"
  let ?d = "take (?l + 1) (bb_Buffer bb)"
  have a: "n \<le> ?a"
    by (simp add: not_less)
  have le: "?l \<le> unat (bb_AllocatedLength bb)" and buf: "length (bb_Buffer bb) = unat (bb_AllocatedLength bb) + 1"
    and nul: "bb_Buffer bb ! ?l = Some 0"
    using wf by (auto simp: bb_wf_def word_le_nat_alt)
  have lt: "?l < unat ?a"
    using a n le by (simp add: word_le_nat_alt word_less_nat_alt)
  have l1: "unat (bb_Length bb + 1) = ?l + 1"
    using unat_plus_no_overflow [of "bb_Length bb" 1] l by simp
  let ?m = "(PhAllocate (unat ?a + 1))[unat ?a := Some 0] :: uchar option list"
  have len: "length ?m = unat ?a + 1"
    unfolding PhAllocate_def length_list_update length_replicate ..
  have d: "length ?d = ?l + 1"
    using le buf by simp
  have "0 + length ?d \<le> length ?m"
    unfolding len d using lt by simp
  from mem_write_in_bounds [OF this] obtain m where
    m: "mem_write ?m 0 ?d = Some m" "length m = length ?m" by blast
  have head: "take (?l + 1) m = ?d"
    using take_mem_write_end [OF m(1)] unfolding d by simp
  let ?bb = "\<lparr> bb_AllocatedLength = ?a, bb_Length = bb_Length bb, bb_Buffer = m \<rparr>"
  have "mem_read (bb_Buffer bb) 0 (?l + 1) = Some ?d"
    using le buf by (simp add: mem_read_def)
  then have "PhpResizeBytesBuilder bb n = Some ?bb"
    unfolding PhpResizeBytesBuilder_def PhCreateBytesEx_def Let_def l1 using m(1) by simp
  moreover have "m ! ?l = ?d ! ?l"
    by (metis head less_add_one nth_take)
  then have "bb_wf ?bb"
    using lt m(2) len nul unfolding bb_wf_def by (simp add: word_le_nat_alt)
  moreover have "take ?l m = take ?l (bb_Buffer bb)"
    using arg_cong [OF head, of "take ?l"] by (simp add: min_def)
  ultimately show ?thesis using a by auto
qed

lemma PhAppendBytesBuilderEx_appends:
  fixes bb len alignment
  defines "cur \<equiv> (if alignment = 0 then bb_Length bb else ALIGN_UP_BY (bb_Length bb) alignment)"
  assumes wf: "bb_wf bb" and data: "len = of_nat (length data)" "data \<noteq> []"
    and cur: "bb_Length bb \<le> cur" "unat cur + length data + 1 < 2 ^ 64"
  shows "\<exists>bb'. PhAppendBytesBuilderEx bb (Some data) len alignment = Some (bb', cur) \<and> bb_wf bb'
           \<and> unat (bb_Length bb') = unat cur + length data
           \<and> take (unat (bb_Length bb)) (bb_Buffer bb') = take (unat (bb_Length bb)) (bb_Buffer bb)
           \<and> take (length data) (drop (unat cur) (bb_Buffer bb')) = map Some data"
proof -
  let ?l = "unat (bb_Length bb)"
  have n: "unat len = length data"
    using cur(2) data(1) by (simp add: unat_of_nat)
  then have n0: "len \<noteq> 0"
    using data(2) by auto
  have total: "unat (cur + len) = unat cur + length data"
    using unat_plus_no_overflow [of cur len] cur(2) n by simp
  have cur': "(if alignment \<noteq> 0 then ALIGN_UP_BY (bb_Length bb) alignment else bb_Length bb) = cur"
    by (simp add: cur_def)
  have lc: "?l \<le> unat cur"
    using cur(1) by (simp add: word_le_nat_alt)
  obtain bb1 where bb1: "(if bb_AllocatedLength bb < cur + len then PhpResizeBytesBuilder bb (cur + len) else Some bb) = Some bb1"
    "bb_wf bb1" "cur + len \<le> bb_AllocatedLength bb1" "bb_Length bb1 = bb_Length bb"
    "take ?l (bb_Buffer bb1) = take ?l (bb_Buffer bb)"
  proof (cases "bb_AllocatedLength bb < cur + len")
    case True
    then show ?thesis
      using PhpResizeBytesBuilder_wf [OF wf True] lc cur(2) that by auto
  next
    case False
    then show ?thesis using wf that by auto
  qed
  have buf: "unat cur + length data < length (bb_Buffer bb1)"
    using bb1(2,3) total by (simp add: bb_wf_def word_le_nat_alt)
  obtain m where m: "mem_write (bb_Buffer bb1) (unat cur) (map Some data) = Some m" "length m = length (bb_Buffer bb1)"
    using mem_write_in_bounds [of "unat cur" "map Some data" "bb_Buffer bb1"] buf by auto
  obtain m' where m': "mem_write m (unat (cur + len)) [Some 0] = Some m'" "length m' = length m"
    using mem_write_in_bounds [of "unat (cur + len)" "[Some 0]" m] buf m(2) total by auto
  let ?bb = "bb1\<lparr>bb_Buffer := m', bb_Length := cur + len\<rparr>"
  have "PhAppendBytesBuilderEx bb (Some data) len alignment = Some (?bb, cur)"
    unfolding PhAppendBytesBuilderEx_def Let_def cur' bb1(1) using n0 m(1) m'(1) n
    by (simp add: mem_read_def PhpWriteNullTerminatorBytesBuilder_def)
  moreover have "bb_wf ?bb"
    using bb1(2,3) m'(1,2) m(2) total buf
    by (auto simp: bb_wf_def mem_write_def nth_append split: if_splits)
  moreover have head: "take (unat cur + length data) m' = take (unat cur) (bb_Buffer bb1) @ map Some data"
    using take_mem_write_end [OF m(1)] m'(1) m(2) buf total
    by (auto simp: mem_write_def split: if_splits)
  have "take ?l m' = take ?l (bb_Buffer bb1)"
    using arg_cong [OF head, of "take ?l"] lc buf by (simp add: min_def)
  moreover have "take (length data) (drop (unat cur) m') = map Some data"
    using arg_cong [OF head, of "drop (unat cur)"] buf by (simp add: drop_take)
  ultimately show ?thesis
    using bb1(5) total by auto
qed

lemma bb_contents_append:
  assumes "take l b' = take l b" "take n (drop l b') = map Some data" "None \<notin> set (take l b)" "n = length data"
  shows "None \<notin> set (take (l + n) b')" "map the (take (l + n) b') = map the (take l b) @ data"
  using assms by (auto simp: take_add comp_def)

lemma PhAppendBytesBuilder_appends:
  assumes "bb_inv bb" "length (bb_contents bb) + length data < 2 ^ 64 - 1"
  shows "\<exists>bb'. PhAppendBytesBuilder bb data = Some bb' \<and> bb_inv bb' \<and> bb_contents bb' = bb_contents bb @ data"
proof (cases "data = []")
  case True
  with assms(1) show ?thesis by (simp add: PhAppendBytesBuilder_def PhAppendBytesBuilderEx_def)
next
  case False
  have wf: "bb_wf bb" and init: "None \<notin> set (take (unat (bb_Length bb)) (bb_Buffer bb))"
    using assms(1) by (simp_all add: bb_inv_def)
  then have "length (bb_contents bb) = unat (bb_Length bb)"
    by (simp add: bb_contents_def bb_wf_def word_le_nat_alt)
  then have "unat (bb_Length bb) + length data + 1 < 2 ^ 64"
    using assms(2) by simp
  from PhAppendBytesBuilderEx_appends [OF wf refl False, of 0] this obtain bb' where
    r: "PhAppendBytesBuilderEx bb (Some data) (of_nat (length data)) 0 = Some (bb', bb_Length bb)" "bb_wf bb'"
      "unat (bb_Length bb') = unat (bb_Length bb) + length data"
      "take (unat (bb_Length bb)) (bb_Buffer bb') = take (unat (bb_Length bb)) (bb_Buffer bb)"
      "take (length data) (drop (unat (bb_Length bb)) (bb_Buffer bb')) = map Some data"
    by auto
  have "bb_inv bb'" "bb_contents bb' = bb_contents bb @ data"
    using bb_contents_append [OF r(4,5) init refl] r(2) by (simp_all add: bb_inv_def bb_contents_def r(3))
  then show ?thesis using r(1) by (simp add: PhAppendBytesBuilder_def)
qed

interpretation bytes_builder: appendable bb_inv bb_contents PhAppendBytesBuilder "2 ^ 64 - 1"
  by unfold_locales (rule PhAppendBytesBuilder_appends)

lemma ALIGN_UP_BY_power:
  assumes "unat x + 2 ^ k < 2 ^ 64"
  shows "unat (ALIGN_UP_BY x (2 ^ k)) = (unat x + 2 ^ k - 1) div 2 ^ k * 2 ^ k"
proof -
  have "(2 :: nat) ^ k < 2 ^ 64"
    using assms by linarith
  then have k: "k < 64"
    by (rule power_less_imp_less_exp [rotated]) simp
  have "(2 :: ulong64) ^ k - 1 = mask k"
    by (simp add: mask_eq_exp_minus_1)
  moreover have "y AND NOT (mask k) = push_bit k (drop_bit k y)" for y :: ulong64
    by (rule bit_word_eqI) (auto simp: bit_simps)
  ultimately have al: "ALIGN_UP_BY x (2 ^ k) = push_bit k (drop_bit k (x + 2 ^ k - 1))"
    by (simp add: ALIGN_UP_BY_def)
  have p: "unat ((2 :: ulong64) ^ k) = 2 ^ k"
    using k by (simp add: unat_2_power)
  have "unat (x + 2 ^ k) = unat x + 2 ^ k"
    using unat_plus_no_overflow [of x "2 ^ k"] assms p by simp
  moreover have "x + 2 ^ k \<noteq> 0"
    using calculation by (metis add_is_0 power_not_zero unat_0 zero_neq_numeral)
  ultimately have y: "unat (x + 2 ^ k - 1) = unat x + 2 ^ k - 1"
    by (simp add: unat_minus_one)
  have "unat (push_bit k (drop_bit k (x + 2 ^ k - 1))) = take_bit 64 ((unat x + 2 ^ k - 1) div 2 ^ k * 2 ^ k)"
    unfolding unsigned_push_bit_eq unat_drop_bit_eq y by (simp add: push_bit_eq_mult drop_bit_eq_div)
  also have "(unat x + 2 ^ k - 1) div 2 ^ k * 2 ^ k < 2 ^ 64"
    using assms div_times_less_eq_dividend [of "unat x + 2 ^ k - 1" "2 ^ k"] by linarith
  then have "take_bit 64 ((unat x + 2 ^ k - 1) div 2 ^ k * 2 ^ k) = (unat x + 2 ^ k - 1) div 2 ^ k * 2 ^ k"
    by (simp add: take_bit_nat_eq_self)
  finally show ?thesis
    unfolding al .
qed

lemma round_up_bounds:
  fixes l n :: nat
  assumes "0 < n"
  shows "l \<le> (l + n - 1) div n * n" "(l + n - 1) div n * n < l + n"
proof -
  have "(l + n - 1) div n * n + (l + n - 1) mod n = l + n - 1" "(l + n - 1) mod n < n"
    using assms by simp_all
  with assms show "l \<le> (l + n - 1) div n * n" "(l + n - 1) div n * n < l + n"
    by linarith+
qed

lemma PhInitializeStringBuilder_inv:
  assumes "n < 2 ^ 62"
  shows "\<exists>sb. PhInitializeStringBuilder (of_nat n) = Some sb \<and> sb_inv sb \<and> sb_contents sb = []"
proof -
  let ?c = "if (of_nat n :: ulong64) AND 1 \<noteq> 0 then of_nat n + 1 else of_nat n :: ulong64"
  have u: "unat (of_nat n :: ulong64) = n"
    using assms by (simp add: unat_of_nat)
  have odd: "(of_nat n :: ulong64) AND 1 \<noteq> 0 \<longleftrightarrow> odd n"
    using u by (simp add: and_one_eq mod2_eq_if)
  have "unat (of_nat n + 1 :: ulong64) = n + 1"
    using unat_plus_no_overflow [of "of_nat n :: ulong64" 1] u assms by simp
  then have ev: "even (unat ?c)"
    using u odd by auto
  from PhCreateStringEx_reserve [OF ev] obtain s where
    s: "PhCreateStringEx None ?c = Some s" "length (str_Buffer s) = unat ?c div 2 + 1" by blast
  obtain m where m: "mem_write (str_Buffer s) 0 (map Some [0]) = Some m" "length m = length (str_Buffer s)"
    using mem_write_in_bounds [of 0 "map Some [0]" "str_Buffer s"] s(2) by auto
  have "holds 1 m [0]"
    using take_mem_write_end [OF m(1)] m(2) s(2) by (simp add: holds_def)
  then have "sb_holds \<lparr> sb_AllocatedLength = ?c, sb_String = \<lparr> str_Length = 0, str_Buffer = m \<rparr> \<rparr> []"
    using ev m(2) s(2) by (simp add: sb_holds_def)
  then show ?thesis
    using s(1) m(1) sb_holdsD by (fastforce simp: PhInitializeStringBuilder_def Let_def)
qed

lemma PhAppendCharStringBuilder_eq: "PhAppendCharStringBuilder sb c = PhAppendStringBuilder sb [c]"
  by (simp add: PhAppendCharStringBuilder_def PhAppendStringBuilder_def PhAppendStringBuilderEx_def
      bytes_of_def mem_read_def)

lemma PhAppendCharStringBuilder2_eq:
  assumes "n < 2 ^ 63"
  shows "PhAppendCharStringBuilder2 sb c (of_nat n) = PhAppendStringBuilder sb (replicate n c)"
proof -
  have len: "bytes_of (replicate n c) = of_nat n * 2" and n: "unat (of_nat n :: ulong64) = n"
    using assms by (simp_all add: bytes_of_def unat_of_nat mult.commute)
  have u: "unat (of_nat n * 2 :: ulong64) = 2 * n"
    using bytes_of_unat [of "replicate n c"] assms len by simp
  then have "(of_nat n * 2 :: ulong64) = 0 \<longleftrightarrow> (of_nat n :: ulong64) = 0"
    using n by (metis mult_is_0 unat_eq_0 zero_neq_numeral)
  then show ?thesis
    unfolding PhAppendCharStringBuilder2_def PhAppendStringBuilder_def PhAppendStringBuilderEx_def len
    using n u by (simp add: mem_read_def)
qed

section \<open>Properties\<close>

text \<open>
  C20. Any sequence of \<open>PhAppendStringBuilder\<close> and \<open>PhRemoveStringBuilder\<close> calls whose text stays below
  \<open>2 ^ 63 - 1\<close> characters and whose removals lie inside the text stays inside the buffers it grows and
  leaves the string builder with the text that the same edits give, null-terminated at every moment;
  the two functions that append characters are the appending of the corresponding string.
\<close>

theorem PhStringBuilder_edits_refine:
  assumes "sb_inv sb" "edits_spec sb_bound (sb_contents sb) es = Some ys"
  shows "\<exists>sb'. apply_edits PhAppendStringBuilder (\<lambda>sb i n. PhRemoveStringBuilder sb (of_nat i) (of_nat n)) sb es
               = Some sb'
           \<and> sb_inv sb' \<and> sb_contents sb' = ys
           \<and> take (length ys + 1) (str_Buffer (PhFinalStringBuilderString sb')) = map Some (ys @ [0])
           \<and> PhAppendCharStringBuilder sb' c = PhAppendStringBuilder sb' [c]
           \<and> PhAppendCharStringBuilder2 sb' c (of_nat (n mod 2 ^ 63))
               = PhAppendStringBuilder sb' (replicate (n mod 2 ^ 63) c)"
proof -
  obtain sb' where sb': "apply_edits PhAppendStringBuilder
      (\<lambda>sb i n. PhRemoveStringBuilder sb (of_nat i) (of_nat n)) sb es = Some sb'"
    "sb_inv sb'" "sb_contents sb' = ys"
    using string_builder.apply_edits_refine [OF assms] by blast
  then have "take (length ys + 1) (sb_Buffer sb') = map Some (ys @ [0])"
    by (simp add: sb_inv_def sb_holds_def holds_def)
  moreover have "PhAppendCharStringBuilder2 sb' c (of_nat (n mod 2 ^ 63))
      = PhAppendStringBuilder sb' (replicate (n mod 2 ^ 63) c)"
    by (rule PhAppendCharStringBuilder2_eq) simp
  ultimately show ?thesis
    using sb' by (simp add: PhFinalStringBuilderString_def PhAppendCharStringBuilder_eq)
qed

theorem PhStringBuilder_edits_refine_witness:
  "\<exists>sb sb'. PhInitializeStringBuilder (of_nat 3) = Some sb
     \<and> apply_edits PhAppendStringBuilder (\<lambda>sb i n. PhRemoveStringBuilder sb (of_nat i) (of_nat n)) sb
         [Append [72, 105, 33], Remove 2 1, Append [46]] = Some sb'
     \<and> sb_contents sb' = [72, 105, 46]"
proof -
  obtain sb where sb: "PhInitializeStringBuilder (of_nat 3) = Some sb" "sb_inv sb" "sb_contents sb = []"
    using PhInitializeStringBuilder_inv [of 3] by auto
  then show ?thesis
    using PhStringBuilder_edits_refine [of sb "[Append [72, 105, 33], Remove 2 1, Append [46]]" "[72, 105, 46]"]
    by auto
qed

text \<open>
  \<open>PhInsertStringBuilder\<close> at an index inside the text puts the string before the character at that
  index, and \<open>PhRemoveStringBuilder\<close> of the same range restores the text.
\<close>

theorem PhInsertStringBuilder_correct:
  assumes "sb_inv sb" "i \<le> length (sb_contents sb)" "length (sb_contents sb) + length s < sb_bound"
  shows "\<exists>sb1 sb2. PhInsertStringBuilder sb (of_nat i) s = Some sb1
           \<and> sb_inv sb1 \<and> sb_contents sb1 = take i (sb_contents sb) @ s @ drop i (sb_contents sb)
           \<and> PhRemoveStringBuilder sb1 (of_nat i) (of_nat (length s)) = Some sb2
           \<and> sb_inv sb2 \<and> sb_contents sb2 = sb_contents sb"
  using string_builder.insert_items [OF assms] string_builder.insert_remove_inverse [OF assms] by auto

theorem PhInsertStringBuilder_correct_witness:
  "\<exists>sb sb1. PhInitializeStringBuilder (of_nat 0) = Some sb
     \<and> PhInsertStringBuilder sb (of_nat 0) [65, 66] = Some sb1 \<and> sb_contents sb1 = [65, 66]"
proof -
  obtain sb where sb: "PhInitializeStringBuilder (of_nat 0) = Some sb" "sb_inv sb" "sb_contents sb = []"
    using PhInitializeStringBuilder_inv [of 0] by auto
  then show ?thesis
    using PhInsertStringBuilder_correct [of sb 0 "[65, 66]"] by auto
qed

text \<open>
  \<open>PhAppendBytesBuilderEx\<close> with an alignment of 1, 2, 4 or 8 puts the bytes at the first multiple of
  the alignment that is not below the current length, returns that offset, keeps the bytes that were
  there and stays inside the buffer it grows, for lengths up to the point where the \<open>SIZE_T\<close> sums wrap.
\<close>

theorem PhAppendBytesBuilderEx_aligned:
  assumes "bb_wf bb" "data \<noteq> []" "k \<le> 3" "unat (bb_Length bb) + 2 ^ k + length data < 2 ^ 64"
  shows "\<exists>bb' off. PhAppendBytesBuilderEx bb (Some data) (of_nat (length data)) (2 ^ k) = Some (bb', off)
           \<and> bb_wf bb' \<and> 2 ^ k dvd unat off \<and> unat (bb_Length bb) \<le> unat off \<and> unat off < unat (bb_Length bb) + 2 ^ k
           \<and> unat (bb_Length bb') = unat off + length data
           \<and> take (unat (bb_Length bb)) (bb_Buffer bb') = take (unat (bb_Length bb)) (bb_Buffer bb)
           \<and> take (length data) (drop (unat off) (bb_Buffer bb')) = map Some data"
proof -
  let ?off = "ALIGN_UP_BY (bb_Length bb) (2 ^ k)"
  have u: "unat ?off = (unat (bb_Length bb) + 2 ^ k - 1) div 2 ^ k * 2 ^ k"
    using assms(4) by (intro ALIGN_UP_BY_power) linarith
  have b: "unat (bb_Length bb) \<le> unat ?off" "unat ?off < unat (bb_Length bb) + 2 ^ k"
    unfolding u by (rule round_up_bounds, simp)+
  have "unat ((2 :: ulong64) ^ k) = 2 ^ k"
    using assms(3) by (simp add: unat_2_power)
  then have nz: "(2 :: ulong64) ^ k \<noteq> 0"
    by (metis power_not_zero unat_0 zero_neq_numeral)
  have "bb_Length bb \<le> ?off"
    using b by (simp add: word_le_nat_alt)
  moreover have "unat ?off + length data + 1 < 2 ^ 64"
    using b(2) assms(4) by linarith
  ultimately obtain bb' where r: "PhAppendBytesBuilderEx bb (Some data) (of_nat (length data)) (2 ^ k) = Some (bb', ?off)"
    "bb_wf bb'" "unat (bb_Length bb') = unat ?off + length data"
    "take (unat (bb_Length bb)) (bb_Buffer bb') = take (unat (bb_Length bb)) (bb_Buffer bb)"
    "take (length data) (drop (unat ?off) (bb_Buffer bb')) = map Some data"
    using PhAppendBytesBuilderEx_appends [OF assms(1) refl assms(2), of "2 ^ k"] nz by auto
  moreover have "2 ^ k dvd unat ?off"
    unfolding u by simp
  ultimately show ?thesis using b by blast
qed

theorem PhAppendBytesBuilderEx_aligned_witness:
  "\<exists>bb' off. PhAppendBytesBuilderEx
       \<lparr> bb_AllocatedLength = 4, bb_Length = 1, bb_Buffer = [Some 7, Some 0, None, None, None] \<rparr>
       (Some [9]) 1 4 = Some (bb', off)
     \<and> 4 dvd unat off \<and> take (Suc 0) (drop (unat off) (bb_Buffer bb')) = [Some 9]"
  using PhAppendBytesBuilderEx_aligned [of
      "\<lparr> bb_AllocatedLength = 4, bb_Length = 1, bb_Buffer = [Some 7, Some 0, None, None, None] \<rparr>" "[9]" 2]
  by (auto simp: bb_wf_def)

end
