(* ===== verification/PhAvlTree.thy ===== *)
theory PhAvlTree
  imports PhPrelude
begin

text \<open>
  The AVL tree of \<open>src/phlib/avltree.c\<close>, with its pointers. The links of all elements are a heap with
  one function per field, from addresses to values; address 0 is \<open>NULL\<close>, and the links in the tree
  structure itself, whose \<open>Right\<close> field is the root element, are the links at the address \<open>R\<close> (that of
  \<open>Tree->Root\<close>). Reads at \<open>NULL\<close> give an unspecified value of the heap, so that no result proved for
  every heap depends on one. The loops are partial functions, \<open>None\<close> when they do not end.
\<close>

section \<open>The heap of links\<close>

type_synonym ptr = ulong64

record avl_heap =
  Parent :: "ptr \<Rightarrow> ptr"
  Left :: "ptr \<Rightarrow> ptr"
  Right :: "ptr \<Rightarrow> ptr"
  Balance :: "ptr \<Rightarrow> int"

definition set_Parent :: "avl_heap \<Rightarrow> ptr \<Rightarrow> ptr \<Rightarrow> avl_heap" where
  "set_Parent h p v = h\<lparr>Parent := (Parent h)(p := v)\<rparr>"

definition set_Left :: "avl_heap \<Rightarrow> ptr \<Rightarrow> ptr \<Rightarrow> avl_heap" where
  "set_Left h p v = h\<lparr>Left := (Left h)(p := v)\<rparr>"

definition set_Right :: "avl_heap \<Rightarrow> ptr \<Rightarrow> ptr \<Rightarrow> avl_heap" where
  "set_Right h p v = h\<lparr>Right := (Right h)(p := v)\<rparr>"

definition set_Balance :: "avl_heap \<Rightarrow> ptr \<Rightarrow> int \<Rightarrow> avl_heap" where
  "set_Balance h p v = h\<lparr>Balance := (Balance h)(p := v)\<rparr>"

text \<open>A pointer to a child field, \<open>PPH_AVL_LINKS *\<close>.\<close>

datatype child_ref = LeftOf ptr | RightOf ptr

fun deref :: "avl_heap \<Rightarrow> child_ref \<Rightarrow> ptr" where
  "deref h (LeftOf p) = Left h p"
| "deref h (RightOf p) = Right h p"

fun assign :: "avl_heap \<Rightarrow> child_ref \<Rightarrow> ptr \<Rightarrow> avl_heap" where
  "assign h (LeftOf p) v = set_Left h p v"
| "assign h (RightOf p) v = set_Right h p v"

definition fix_parent :: "avl_heap \<Rightarrow> ptr \<Rightarrow> ptr \<Rightarrow> avl_heap" where
  "fix_parent h child p = (if child \<noteq> 0 then set_Parent h child p else h)"

lemma set_Parent_fields [simp]:
  "Parent (set_Parent h p v) = (Parent h)(p := v)" "Left (set_Parent h p v) = Left h"
  "Right (set_Parent h p v) = Right h" "Balance (set_Parent h p v) = Balance h"
  by (simp_all add: set_Parent_def)

lemma set_Left_fields [simp]:
  "Parent (set_Left h p v) = Parent h" "Left (set_Left h p v) = (Left h)(p := v)"
  "Right (set_Left h p v) = Right h" "Balance (set_Left h p v) = Balance h"
  by (simp_all add: set_Left_def)

lemma set_Right_fields [simp]:
  "Parent (set_Right h p v) = Parent h" "Left (set_Right h p v) = Left h"
  "Right (set_Right h p v) = (Right h)(p := v)" "Balance (set_Right h p v) = Balance h"
  by (simp_all add: set_Right_def)

lemma set_Balance_fields [simp]:
  "Parent (set_Balance h p v) = Parent h" "Left (set_Balance h p v) = Left h"
  "Right (set_Balance h p v) = Right h" "Balance (set_Balance h p v) = (Balance h)(p := v)"
  by (simp_all add: set_Balance_def)

lemma assign_fields [simp]:
  "Parent (assign h ref v) = Parent h" "Balance (assign h ref v) = Balance h"
  "deref (assign h ref v) ref = v"
  by (cases ref; simp)+

lemma assign_child:
  "Left (assign h ref v) y = (if ref = LeftOf y then v else Left h y)"
  "Right (assign h ref v) y = (if ref = RightOf y then v else Right h y)"
  by (cases ref; simp)+

lemma fix_parent_fields [simp]:
  "Parent (fix_parent h child p) = (if child \<noteq> 0 then (Parent h)(child := p) else Parent h)"
  "Left (fix_parent h child p) = Left h" "Right (fix_parent h child p) = Right h"
  "Balance (fix_parent h child p) = Balance h"
  by (simp_all add: fix_parent_def)

text \<open>The tree: the address of its own links and the number of elements.\<close>

record PH_AVL_TREE =
  tree_Root :: ptr
  tree_Count :: ulong

definition PhInitializeAvlTree :: "avl_heap \<Rightarrow> ptr \<Rightarrow> avl_heap \<times> PH_AVL_TREE" where
  "PhInitializeAvlTree h R =
     (set_Balance (set_Right (set_Left (set_Parent h R 0) R 0) R 0) R 0,
      \<lparr> tree_Root = R, tree_Count = 0 \<rparr>)"

definition PhRootElementAvlTree :: "avl_heap \<Rightarrow> PH_AVL_TREE \<Rightarrow> ptr" where
  "PhRootElementAvlTree h T = Right h (tree_Root T)"

section \<open>Finding an element\<close>

partial_function (option) avl_find_loop ::
  "(ptr \<Rightarrow> ptr \<Rightarrow> int) \<Rightarrow> avl_heap \<Rightarrow> ptr \<Rightarrow> ptr \<Rightarrow> (ptr \<times> int) option" where
  "avl_find_loop cmp h element links =
     (let result = cmp element links
      in if result = 0 then Some (links, 0)
         else if result < 0 then
           if Left h links \<noteq> 0 then avl_find_loop cmp h element (Left h links) else Some (links, - 1)
         else
           if Right h links \<noteq> 0 then avl_find_loop cmp h element (Right h links) else Some (links, 1))"

definition PhpFindElementAvlTree ::
  "(ptr \<Rightarrow> ptr \<Rightarrow> int) \<Rightarrow> avl_heap \<Rightarrow> PH_AVL_TREE \<Rightarrow> ptr \<Rightarrow> (ptr \<times> int) option" where
  "PhpFindElementAvlTree cmp h T element =
     (let links = PhRootElementAvlTree h T
      in if links = 0 then Some (tree_Root T, 1) else avl_find_loop cmp h element links)"

definition PhFindElementAvlTree ::
  "(ptr \<Rightarrow> ptr \<Rightarrow> int) \<Rightarrow> avl_heap \<Rightarrow> PH_AVL_TREE \<Rightarrow> ptr \<Rightarrow> ptr option" where
  "PhFindElementAvlTree cmp h T element =
     Option.bind (PhpFindElementAvlTree cmp h T element)
       (\<lambda>(links, result). Some (if result = 0 then links else 0))"

section \<open>Rotations\<close>

definition PhpRotateLeftAvlLinks :: "avl_heap \<Rightarrow> child_ref \<Rightarrow> avl_heap" where
  "PhpRotateLeftAvlLinks h root =
     (let P = deref h root; Q = Right h P;
          h = assign h root Q;
          h = set_Parent h Q (Parent h P);
          h = set_Right h P (Left h Q);
          h = fix_parent h (Right h P) P;
          h = set_Left h Q P;
          h = set_Parent h P Q
      in h)"

definition PhpRotateLeftTwiceAvlLinks :: "avl_heap \<Rightarrow> child_ref \<Rightarrow> avl_heap" where
  "PhpRotateLeftTwiceAvlLinks h root =
     (let P = deref h root; Q = Right h P; R = Left h Q;
          h = assign h root R;
          h = set_Parent h R (Parent h P);
          h = set_Left h Q (Right h R);
          h = fix_parent h (Left h Q) Q;
          h = set_Right h R Q;
          h = set_Parent h Q R;
          h = set_Right h P (Left h R);
          h = fix_parent h (Right h P) P;
          h = set_Left h R P;
          h = set_Parent h P R
      in h)"

definition PhpRotateRightAvlLinks :: "avl_heap \<Rightarrow> child_ref \<Rightarrow> avl_heap" where
  "PhpRotateRightAvlLinks h root =
     (let Q = deref h root; P = Left h Q;
          h = assign h root P;
          h = set_Parent h P (Parent h Q);
          h = set_Left h Q (Right h P);
          h = fix_parent h (Left h Q) Q;
          h = set_Right h P Q;
          h = set_Parent h Q P
      in h)"

definition PhpRotateRightTwiceAvlLinks :: "avl_heap \<Rightarrow> child_ref \<Rightarrow> avl_heap" where
  "PhpRotateRightTwiceAvlLinks h root =
     (let P = deref h root; Q = Left h P; R = Right h Q;
          h = assign h root R;
          h = set_Parent h R (Parent h P);
          h = set_Right h Q (Left h R);
          h = fix_parent h (Right h Q) Q;
          h = set_Left h R Q;
          h = set_Parent h Q R;
          h = set_Left h P (Right h R);
          h = fix_parent h (Left h P) P;
          h = set_Right h R P;
          h = set_Parent h P R
      in h)"

text \<open>The return value tells the kind of rotation; 3 is the one that only a removal causes.\<close>

definition PhpRebalanceAvlLinks :: "avl_heap \<Rightarrow> child_ref \<Rightarrow> nat \<times> avl_heap" where
  "PhpRebalanceAvlLinks h root =
     (let P = deref h root
      in if Balance h P = - 1 then
           let Q = Left h P
           in if Balance h Q = - 1 then
                let h = PhpRotateRightAvlLinks h root;
                    h = set_Balance h P 0;
                    h = set_Balance h Q 0
                in (1, h)
              else if Balance h Q = 1 then
                let R = Right h Q;
                    h = PhpRotateRightTwiceAvlLinks h root;
                    h = (if Balance h R = - 1 then set_Balance (set_Balance h P 1) Q 0
                         else if Balance h R = 1 then set_Balance (set_Balance h P 0) Q (- 1)
                         else set_Balance (set_Balance h P 0) Q 0);
                    h = set_Balance h R 0
                in (2, h)
              else
                let h = PhpRotateRightAvlLinks h root;
                    h = set_Balance h Q 1
                in (3, h)
         else
           let Q = Right h P
           in if Balance h Q = 1 then
                let h = PhpRotateLeftAvlLinks h root;
                    h = set_Balance h P 0;
                    h = set_Balance h Q 0
                in (1, h)
              else if Balance h Q = - 1 then
                let R = Left h Q;
                    h = PhpRotateLeftTwiceAvlLinks h root;
                    h = (if Balance h R = - 1 then set_Balance (set_Balance h P 0) Q 1
                         else if Balance h R = 1 then set_Balance (set_Balance h P (- 1)) Q 0
                         else set_Balance (set_Balance h P 0) Q 0);
                    h = set_Balance h R 0
                in (2, h)
              else
                let h = PhpRotateLeftAvlLinks h root;
                    h = set_Balance h Q (- 1)
                in (3, h))"

text \<open>The child field of its parent through which a node is reached.\<close>

definition parent_ref :: "avl_heap \<Rightarrow> ptr \<Rightarrow> child_ref" where
  "parent_ref h P = (if Left h (Parent h P) = P then LeftOf (Parent h P) else RightOf (Parent h P))"

section \<open>Adding an element\<close>

partial_function (option) add_loop :: "ptr \<Rightarrow> avl_heap \<Rightarrow> ptr \<Rightarrow> avl_heap option" where
  "add_loop root h P =
     (if P = root then Some h
      else
        let balance = (if Left h (Parent h P) = P then - 1 else 1);
            P = Parent h P
        in if Balance h P = 0 then add_loop root (set_Balance h P balance) P
           else if Balance h P \<noteq> balance then Some (set_Balance h P 0)
           else Some (snd (PhpRebalanceAvlLinks h (parent_ref h P))))"

definition link_element :: "avl_heap \<Rightarrow> ptr \<Rightarrow> int \<Rightarrow> ptr \<Rightarrow> avl_heap" where
  "link_element h P result element =
     (let h = (if result < 0 then set_Left h P element else set_Right h P element);
          h = set_Parent h element P;
          h = set_Left h element 0;
          h = set_Right h element 0;
          h = set_Balance h element 0
      in h)"

text \<open>The result is \<open>NULL\<close> if the element was added, and the equal element otherwise.\<close>

definition PhAddElementAvlTree ::
  "(ptr \<Rightarrow> ptr \<Rightarrow> int) \<Rightarrow> avl_heap \<Rightarrow> PH_AVL_TREE \<Rightarrow> ptr \<Rightarrow> (ptr \<times> avl_heap \<times> PH_AVL_TREE) option" where
  "PhAddElementAvlTree cmp h T element =
     Option.bind (PhpFindElementAvlTree cmp h T element) (\<lambda>(P, result).
       if result = 0 then Some (P, h, T)
       else
         let h = link_element h P result element
         in Option.bind (add_loop (PhRootElementAvlTree h T) h element)
              (\<lambda>h. Some (0, h, T\<lparr>tree_Count := tree_Count T + 1\<rparr>)))"

section \<open>Removing an element\<close>

partial_function (option) leftmost :: "avl_heap \<Rightarrow> ptr \<Rightarrow> ptr option" where
  "leftmost h links = (if Left h links \<noteq> 0 then leftmost h (Left h links) else Some links)"

partial_function (option) rightmost :: "avl_heap \<Rightarrow> ptr \<Rightarrow> ptr option" where
  "rightmost h links = (if Right h links \<noteq> 0 then rightmost h (Right h links) else Some links)"

partial_function (option) avl_remove_loop :: "ptr \<Rightarrow> avl_heap \<Rightarrow> ptr \<Rightarrow> int \<Rightarrow> avl_heap option" where
  "avl_remove_loop root h P balance =
     (if P = root then Some h
      else if Balance h P = balance then
        let h = set_Balance h P 0
        in avl_remove_loop root h (Parent h P) (if Left h (Parent h P) = P then - 1 else 1)
      else if Balance h P = 0 then Some (set_Balance h P (- balance))
      else
        let (kind, h) = PhpRebalanceAvlLinks h (parent_ref h P)
        in if kind = 3 then Some h
           else
             let P = Parent h P
             in avl_remove_loop root h (Parent h P) (if Left h (Parent h P) = P then - 1 else 1))"

text \<open>The last step: the node unlinked takes the place of the element.\<close>

definition replace_element :: "avl_heap \<Rightarrow> ptr \<Rightarrow> ptr \<Rightarrow> avl_heap" where
  "replace_element h element newElement =
     (let h = set_Parent h newElement (Parent h element);
          h = set_Left h newElement (Left h element);
          h = set_Right h newElement (Right h element);
          h = set_Balance h newElement (Balance h element);
          h = (if Left h (Parent h element) = element then set_Left h (Parent h newElement) newElement
               else set_Right h (Parent h newElement) newElement);
          h = fix_parent h (Left h newElement) newElement;
          h = fix_parent h (Right h newElement) newElement
      in h)"

definition unlink_element :: "avl_heap \<Rightarrow> ptr \<Rightarrow> avl_heap" where
  "unlink_element h newElement =
     (let replace = parent_ref h newElement
      in if Right h newElement = 0
         then let h = assign h replace (Left h newElement)
              in fix_parent h (Left h newElement) (Parent h newElement)
         else let h = assign h replace (Right h newElement)
              in set_Parent h (Right h newElement) (Parent h newElement))"

text \<open>The element itself if it has at most one child, and its neighbour on the higher side otherwise.\<close>

definition element_to_unlink :: "avl_heap \<Rightarrow> ptr \<Rightarrow> ptr option" where
  "element_to_unlink h element =
     (if Left h element = 0 \<or> Right h element = 0 then Some element
      else if Balance h element \<ge> 0 then leftmost h (Right h element)
      else rightmost h (Left h element))"

definition PhRemoveElementAvlTree ::
  "avl_heap \<Rightarrow> PH_AVL_TREE \<Rightarrow> ptr \<Rightarrow> (avl_heap \<times> PH_AVL_TREE) option" where
  "PhRemoveElementAvlTree h T element =
     Option.bind (element_to_unlink h element) (\<lambda>newElement.
       let balance = (if Left h (Parent h newElement) = newElement then - 1 else 1);
           h = unlink_element h newElement
       in Option.bind (avl_remove_loop (tree_Root T) h (Parent h newElement) balance)
            (\<lambda>h. Some (if newElement \<noteq> element then replace_element h element newElement else h,
                       T\<lparr>tree_Count := tree_Count T - 1\<rparr>)))"

section \<open>Bounds, extremes and neighbours\<close>

text \<open>
  The four bound searches share one loop: \<open>right\<close> decides on the sign of the comparison whether the
  search goes right, and \<open>keep\<close> whether the current element becomes the closest one.
\<close>

partial_function (option) bound_loop ::
  "(ptr \<Rightarrow> ptr \<Rightarrow> int) \<Rightarrow> (int \<Rightarrow> bool) \<Rightarrow> (int \<Rightarrow> bool) \<Rightarrow> avl_heap \<Rightarrow> ptr \<Rightarrow> ptr \<Rightarrow> ptr \<Rightarrow> ptr option" where
  "bound_loop cmp right keep h element links closest =
     (if links = 0 then Some closest
      else
        let result = cmp element links;
            closest = (if keep result then links else closest)
        in bound_loop cmp right keep h element (if right result then Right h links else Left h links) closest)"

definition PhLowerBoundElementAvlTree ::
  "(ptr \<Rightarrow> ptr \<Rightarrow> int) \<Rightarrow> avl_heap \<Rightarrow> PH_AVL_TREE \<Rightarrow> ptr \<Rightarrow> ptr option" where
  "PhLowerBoundElementAvlTree cmp h T element =
     bound_loop cmp (\<lambda>result. result > 0) (\<lambda>result. \<not> result > 0) h element (PhRootElementAvlTree h T) 0"

definition PhUpperBoundElementAvlTree ::
  "(ptr \<Rightarrow> ptr \<Rightarrow> int) \<Rightarrow> avl_heap \<Rightarrow> PH_AVL_TREE \<Rightarrow> ptr \<Rightarrow> ptr option" where
  "PhUpperBoundElementAvlTree cmp h T element =
     bound_loop cmp (\<lambda>result. result \<ge> 0) (\<lambda>result. \<not> result \<ge> 0) h element (PhRootElementAvlTree h T) 0"

definition PhLowerDualBoundElementAvlTree ::
  "(ptr \<Rightarrow> ptr \<Rightarrow> int) \<Rightarrow> avl_heap \<Rightarrow> PH_AVL_TREE \<Rightarrow> ptr \<Rightarrow> ptr option" where
  "PhLowerDualBoundElementAvlTree cmp h T element =
     bound_loop cmp (\<lambda>result. result > 0) (\<lambda>result. result > 0) h element (PhRootElementAvlTree h T) 0"

definition PhUpperDualBoundElementAvlTree ::
  "(ptr \<Rightarrow> ptr \<Rightarrow> int) \<Rightarrow> avl_heap \<Rightarrow> PH_AVL_TREE \<Rightarrow> ptr \<Rightarrow> ptr option" where
  "PhUpperDualBoundElementAvlTree cmp h T element =
     bound_loop cmp (\<lambda>result. result \<ge> 0) (\<lambda>result. result \<ge> 0) h element (PhRootElementAvlTree h T) 0"

definition PhMinimumElementAvlTree :: "avl_heap \<Rightarrow> PH_AVL_TREE \<Rightarrow> ptr option" where
  "PhMinimumElementAvlTree h T =
     (let links = PhRootElementAvlTree h T in if links = 0 then Some 0 else leftmost h links)"

definition PhMaximumElementAvlTree :: "avl_heap \<Rightarrow> PH_AVL_TREE \<Rightarrow> ptr option" where
  "PhMaximumElementAvlTree h T =
     (let links = PhRootElementAvlTree h T in if links = 0 then Some 0 else rightmost h links)"

partial_function (option) climb_from_right :: "avl_heap \<Rightarrow> ptr \<Rightarrow> ptr \<Rightarrow> ptr option" where
  "climb_from_right h element links =
     (if links \<noteq> 0 \<and> Right h links = element then climb_from_right h links (Parent h links) else Some links)"

definition PhSuccessorElementAvlTree :: "avl_heap \<Rightarrow> ptr \<Rightarrow> ptr option" where
  "PhSuccessorElementAvlTree h element =
     (if Right h element \<noteq> 0 then leftmost h (Right h element)
      else climb_from_right h element (Parent h element))"

partial_function (option) climb_from_left :: "avl_heap \<Rightarrow> ptr \<Rightarrow> ptr \<Rightarrow> ptr option" where
  "climb_from_left h element links =
     (if links \<noteq> 0 \<and> Left h links = element then climb_from_left h links (Parent h links) else Some links)"

definition PhPredecessorElementAvlTree :: "avl_heap \<Rightarrow> ptr \<Rightarrow> ptr option" where
  "PhPredecessorElementAvlTree h element =
     (if Left h element \<noteq> 0 then rightmost h (Left h element)
      else Option.bind (climb_from_left h element (Parent h element))
             (\<lambda>links. Some (if links \<noteq> 0 \<and> Parent h links = 0 then 0 else links)))"

section \<open>Enumeration\<close>

text \<open>
  The stack has 47 entries; a push beyond them is a write outside the array, \<open>None\<close>. \<open>down\<close> is the
  field followed when pushing and \<open>next\<close> the one taken after an element was visited. The callback sees
  and changes the caller's context and returns whether to go on.
\<close>

definition stack_size :: nat where
  "stack_size = 47"

partial_function (option) push_all :: "(ptr \<Rightarrow> ptr) \<Rightarrow> ptr list \<Rightarrow> ptr \<Rightarrow> ptr list option" where
  "push_all down stack links =
     (if links = 0 then Some stack
      else if length stack < stack_size then push_all down (links # stack) (down links)
      else None)"

partial_function (option) enum_stack ::
  "(ptr \<Rightarrow> ptr) \<Rightarrow> (ptr \<Rightarrow> ptr) \<Rightarrow> ('c \<Rightarrow> ptr \<Rightarrow> bool \<times> 'c) \<Rightarrow> ptr list \<Rightarrow> 'c \<Rightarrow> 'c option" where
  "enum_stack down next callback stack context =
     (case stack of
        [] \<Rightarrow> Some context
      | links # stack \<Rightarrow>
          (case callback context links of
             (continue, context) \<Rightarrow>
               if \<not> continue then Some context
               else Option.bind (push_all down stack (next links))
                      (\<lambda>stack. enum_stack down next callback stack context)))"

text \<open>The callback works on a context of its own and leaves the tree as it is.\<close>

datatype PH_TREE_ENUMERATION_ORDER = TreeEnumerateInOrder | TreeEnumerateInReverseOrder

definition PhEnumAvlTree ::
  "avl_heap \<Rightarrow> PH_AVL_TREE \<Rightarrow> PH_TREE_ENUMERATION_ORDER \<Rightarrow> ('c \<Rightarrow> ptr \<Rightarrow> bool \<times> 'c) \<Rightarrow> 'c \<Rightarrow> 'c option" where
  "PhEnumAvlTree h T order callback context =
     (let (down, next) = (case order of
            TreeEnumerateInOrder \<Rightarrow> (Left h, Right h)
          | TreeEnumerateInReverseOrder \<Rightarrow> (Right h, Left h))
      in Option.bind (push_all down [] (PhRootElementAvlTree h T))
           (\<lambda>stack. enum_stack down next callback stack context))"

end
