(* ===== verification/PhAvlShape.thy ===== *)
theory PhAvlShape
  imports PhAvlTree
begin

text \<open>
  The abstract trees that the heap of links represents: balance factors, AVL shape, in-order sequence
  of the elements, and the functional counterparts of rebalancing and of the two upward loops, on a
  subtree together with the path from it to the root.
\<close>

section \<open>Trees and paths\<close>

datatype avl_tree = Leaf | Node avl_tree ptr int avl_tree

fun height :: "avl_tree \<Rightarrow> nat" where
  "height Leaf = 0"
| "height (Node l p b r) = Suc (max (height l) (height r))"

fun inorder :: "avl_tree \<Rightarrow> ptr list" where
  "inorder Leaf = []"
| "inorder (Node l p b r) = inorder l @ p # inorder r"

fun root :: "avl_tree \<Rightarrow> ptr" where
  "root Leaf = 0"
| "root (Node l p b r) = p"

fun avl :: "avl_tree \<Rightarrow> bool" where
  "avl Leaf = True"
| "avl (Node l p b r) \<longleftrightarrow>
     b = int (height r) - int (height l) \<and> - 1 \<le> b \<and> b \<le> 1 \<and> avl l \<and> avl r"

text \<open>A step of a path, innermost first: the subtree is the left or the right one of this node.\<close>

datatype path_step = InL ptr int avl_tree | InR avl_tree ptr int

type_synonym path = "path_step list"

fun plug :: "avl_tree \<Rightarrow> path \<Rightarrow> avl_tree" where
  "plug t [] = t"
| "plug t (InL p b r # c) = plug (Node t p b r) c"
| "plug t (InR l p b # c) = plug (Node l p b t) c"

fun before :: "path \<Rightarrow> ptr list" where
  "before [] = []"
| "before (InL p b r # c) = before c"
| "before (InR l p b # c) = before c @ inorder l @ [p]"

fun after :: "path \<Rightarrow> ptr list" where
  "after [] = []"
| "after (InL p b r # c) = p # inorder r @ after c"
| "after (InR l p b # c) = after c"

lemma inorder_plug: "inorder (plug t c) = before c @ inorder t @ after c"
  by (induction t c rule: plug.induct) auto

lemma plug_append: "plug t (c @ d) = plug (plug t c) d"
  by (induction t c rule: plug.induct) auto

text \<open>A path that keeps the AVL shape around a subtree of height \<open>n\<close>.\<close>

fun path_ok :: "nat \<Rightarrow> path \<Rightarrow> bool" where
  "path_ok n [] = True"
| "path_ok n (InL p b r # c) \<longleftrightarrow>
     avl r \<and> b = int (height r) - int n \<and> - 1 \<le> b \<and> b \<le> 1 \<and> path_ok (Suc (max n (height r))) c"
| "path_ok n (InR l p b # c) \<longleftrightarrow>
     avl l \<and> b = int n - int (height l) \<and> - 1 \<le> b \<and> b \<le> 1 \<and> path_ok (Suc (max (height l) n)) c"

lemma avl_plug: "avl (plug t c) \<longleftrightarrow> avl t \<and> path_ok (height t) c"
  by (induction t c rule: plug.induct) auto

section \<open>Rebalancing\<close>

fun rebalance :: "avl_tree \<Rightarrow> nat \<times> avl_tree" where
  "rebalance Leaf = (0, Leaf)"
| "rebalance (Node l p b r) =
     (if b = - 1 then
        (case l of
           Leaf \<Rightarrow> (0, Node l p b r)
         | Node A q bq B \<Rightarrow>
             if bq = - 1 then (1, Node A q 0 (Node B p 0 r))
             else if bq = 1 then
               (case B of
                  Leaf \<Rightarrow> (0, Node l p b r)
                | Node B1 s bs B2 \<Rightarrow>
                    (2, Node (Node A q (if bs = 1 then - 1 else 0) B1) s 0
                          (Node B2 p (if bs = - 1 then 1 else 0) r)))
             else (3, Node A q 1 (Node B p b r)))
      else
        (case r of
           Leaf \<Rightarrow> (0, Node l p b r)
         | Node B q bq C \<Rightarrow>
             if bq = 1 then (1, Node (Node l p 0 B) q 0 C)
             else if bq = - 1 then
               (case B of
                  Leaf \<Rightarrow> (0, Node l p b r)
                | Node B1 s bs B2 \<Rightarrow>
                    (2, Node (Node l p (if bs = 1 then - 1 else 0) B1) s 0
                          (Node B2 q (if bs = - 1 then 1 else 0) C)))
             else (3, Node (Node l p b B) q (- 1) C)))"

lemma inorder_rebalance: "inorder (snd (rebalance t)) = inorder t"
  by (cases t) (auto split: avl_tree.splits)

lemma rebalance_left:
  assumes "avl l" "avl r" "height l = height r + 2" "rebalance (Node l p (- 1) r) = (k, t)"
  shows "avl t \<and> height t = (if k = 3 then height l + 1 else height l) \<and> t \<noteq> Leaf \<and> k \<noteq> 0
         \<and> (k = 3 \<longleftrightarrow> (\<exists>A q B. l = Node A q 0 B))"
  using assms by (auto split: avl_tree.splits if_splits)

lemma rebalance_right:
  assumes "avl l" "avl r" "height r = height l + 2" "rebalance (Node l p 1 r) = (k, t)"
  shows "avl t \<and> height t = (if k = 3 then height r + 1 else height r) \<and> t \<noteq> Leaf \<and> k \<noteq> 0
         \<and> (k = 3 \<longleftrightarrow> (\<exists>A q B. r = Node A q 0 B))"
  using assms by (auto split: avl_tree.splits if_splits)

section \<open>The upward loops\<close>

fun insert_up :: "avl_tree \<Rightarrow> path \<Rightarrow> avl_tree" where
  "insert_up t [] = t"
| "insert_up t (InL p b r # c) =
     (if b = 0 then insert_up (Node t p (- 1) r) c
      else if b \<noteq> - 1 then plug (Node t p 0 r) c
      else plug (snd (rebalance (Node t p b r))) c)"
| "insert_up t (InR l p b # c) =
     (if b = 0 then insert_up (Node l p 1 t) c
      else if b \<noteq> 1 then plug (Node l p 0 t) c
      else plug (snd (rebalance (Node l p b t))) c)"

fun remove_up :: "avl_tree \<Rightarrow> path \<Rightarrow> avl_tree" where
  "remove_up t [] = t"
| "remove_up t (InL p b r # c) =
     (if b = - 1 then remove_up (Node t p 0 r) c
      else if b = 0 then plug (Node t p 1 r) c
      else (case rebalance (Node t p b r) of (k, t') \<Rightarrow> if k = 3 then plug t' c else remove_up t' c))"
| "remove_up t (InR l p b # c) =
     (if b = 1 then remove_up (Node l p 0 t) c
      else if b = 0 then plug (Node l p (- 1) t) c
      else (case rebalance (Node l p b t) of (k, t') \<Rightarrow> if k = 3 then plug t' c else remove_up t' c))"

lemma inorder_insert_up: "inorder (insert_up t c) = inorder (plug t c)"
  by (induction t c rule: insert_up.induct) (simp_all add: inorder_plug inorder_rebalance del: rebalance.simps)

lemma inorder_remove_up: "inorder (remove_up t c) = inorder (plug t c)"
proof (induction t c rule: remove_up.induct)
  case (2 t p b r c)
  show ?case
    using 2 inorder_rebalance [of "Node t p b r"]
    by (auto simp: inorder_plug simp del: rebalance.simps split: prod.splits)
next
  case (3 t l p b c)
  show ?case
    using 3 inorder_rebalance [of "Node l p b t"]
    by (auto simp: inorder_plug simp del: rebalance.simps split: prod.splits)
qed simp

text \<open>
  A subtree that has just grown by one is a new leaf or has a balance other than 0, so that the special
  rotation does not occur.
\<close>

lemma avl_insert_up:
  assumes "avl t" "path_ok n c" "height t = Suc n" "n = 0 \<or> (\<forall>l p r. t \<noteq> Node l p 0 r)"
  shows "avl (insert_up t c)"
  using assms
proof (induction t c arbitrary: n rule: insert_up.induct)
  case (1 t)
  then show ?case by simp
next
  case (2 t p b r c)
  consider "b = 0" | "b = 1" | "b = - 1"
    using 2(3) by force
  then show ?case
  proof cases
    case 1
    then show ?thesis
      using 2(1) [of "Suc n"] 2(2-4) by (auto simp: max_def)
  next
    case 2
    then show ?thesis
      using "2.prems" by (auto simp: avl_plug max_def split: if_splits)
  next
    case 3
    obtain k t' where k: "rebalance (Node t p b r) = (k, t')"
      by (cases "rebalance (Node t p b r)")
    have "height t = height r + 2" "n \<noteq> 0"
      using "2.prems" 3 by auto
    then have "avl t' \<and> height t' = height t"
      using rebalance_left [of t r p k t'] "2.prems" k 3 by auto
    then show ?thesis
      using "2.prems" 3 k by (auto simp: avl_plug max_def simp del: rebalance.simps split: if_splits)
  qed
next
  case (3 t l p b c)
  consider "b = 0" | "b = - 1" | "b = 1"
    using 3(3) by force
  then show ?case
  proof cases
    case 1
    then show ?thesis
      using 3(1) [of "Suc n"] 3(2-4) by (auto simp: max_def)
  next
    case 2
    then have "height l = Suc n"
      using "3.prems" by simp
    then show ?thesis
      using "3.prems" 2 by (simp add: avl_plug)
  next
    case 3
    obtain k t' where k: "rebalance (Node l p b t) = (k, t')"
      by (cases "rebalance (Node l p b t)")
    have "height t = height l + 2" "n \<noteq> 0"
      using "3.prems" 3 by auto
    then have "avl t' \<and> height t' = height t"
      using rebalance_right [of l t p k t'] "3.prems" k 3 by auto
    then show ?thesis
      using "3.prems" 3 k by (auto simp: avl_plug max_def simp del: rebalance.simps split: if_splits)
  qed
qed

lemma avl_remove_up:
  assumes "avl t" "path_ok (Suc (height t)) c"
  shows "avl (remove_up t c)"
  using assms
proof (induction t c rule: remove_up.induct)
  case (1 t)
  then show ?case by simp
next
  case (2 t p b r c)
  consider "b = 0" | "b = - 1" | "b = 1"
    using "2.prems" by force
  then show ?case
  proof cases
    case 1
    then show ?thesis using "2.prems" by (auto simp: avl_plug max_def split: if_splits)
  next
    case b: 2
    then show ?thesis using 2(1) "2.prems" by (auto simp: max_def split: if_splits)
  next
    case b: 3
    obtain k t' where k: "rebalance (Node t p b r) = (k, t')"
      by (cases "rebalance (Node t p b r)")
    have h: "height r = height t + 2"
      using "2.prems" b by auto
    then have t': "avl t'" "height t' = (if k = 3 then height r + 1 else height r)"
      using rebalance_right [of t r p k t'] "2.prems" k b by auto
    have "path_ok (height r + 1) c"
      using "2.prems" h by (auto simp: max_def split: if_splits)
    then show ?thesis
      using 2(2) [OF _ _ k [symmetric]] t' k b by (auto simp: avl_plug simp del: rebalance.simps)
  qed
next
  case (3 t l p b c)
  consider "b = 0" | "b = 1" | "b = - 1"
    using "3.prems" by force
  then show ?case
  proof cases
    case 1
    then have "height l = Suc (height t)"
      using "3.prems" by simp
    then show ?thesis using "3.prems" 1 by (simp add: avl_plug)
  next
    case b: 2
    then show ?thesis using 3(1) "3.prems" by (auto simp: max_def split: if_splits)
  next
    case b: 3
    obtain k t' where k: "rebalance (Node l p b t) = (k, t')"
      by (cases "rebalance (Node l p b t)")
    have h: "height l = height t + 2"
      using "3.prems" b by auto
    then have t': "avl t'" "height t' = (if k = 3 then height l + 1 else height l)"
      using rebalance_left [of l t p k t'] "3.prems" k b by auto
    have "path_ok (height l + 1) c"
      using "3.prems" h by (auto simp: max_def split: if_splits)
    then show ?thesis
      using 3(2) [OF _ _ k [symmetric]] t' k b by (auto simp: avl_plug simp del: rebalance.simps)
  qed
qed

section \<open>Height and number of elements\<close>

text \<open>The least numbers of elements of AVL trees of two successive heights.\<close>

fun least_sizes :: "nat \<Rightarrow> int \<times> int" where
  "least_sizes 0 = (0, 1)"
| "least_sizes (Suc n) = (case least_sizes n of (a, b) \<Rightarrow> (b, a + b + 1))"

lemma least_sizes_snd: "snd (least_sizes n) = fst (least_sizes (Suc n))"
  by (simp split: prod.splits)

lemma least_sizes_nonneg: "0 \<le> fst (least_sizes n) \<and> 0 \<le> snd (least_sizes n)"
  by (induction n) (auto split: prod.splits)

lemma least_sizes_Suc: "fst (least_sizes n) \<le> fst (least_sizes (Suc n))"
proof (cases n)
  case (Suc m)
  then show ?thesis
    using least_sizes_nonneg [of m] by (auto split: prod.splits)
qed simp

lemma avl_least_size: "avl t \<Longrightarrow> fst (least_sizes (height t)) \<le> int (length (inorder t))"
proof (induction t)
  case Leaf
  then show ?case by simp
next
  case (Node l p b r)
  have two: "fst (least_sizes (Suc (Suc n))) = fst (least_sizes n) + fst (least_sizes (Suc n)) + 1" for n
    by (simp split: prod.splits)
  consider "height l = height r" | "height l = Suc (height r)" | "height r = Suc (height l)"
    using Node.prems by force
  then show ?case
  proof cases
    case 1
    have "fst (least_sizes (Suc (height r))) \<le> 2 * fst (least_sizes (height r)) + 1"
    proof (cases "height r")
      case (Suc m)
      with two [of m] least_sizes_Suc [of m] show ?thesis by simp
    qed simp
    with 1 Node show ?thesis by simp
  qed (use Node two in simp_all)
qed

lemma avl_height_bound:
  assumes "avl t" "length (inorder t) < 2 ^ 32"
  shows "height t \<le> 45"
proof (rule ccontr)
  assume "\<not> height t \<le> 45"
  then have "46 \<le> height t"
    by linarith
  then have "fst (least_sizes 46) \<le> fst (least_sizes (height t))"
    by (rule lift_Suc_mono_le [of "\<lambda>n. fst (least_sizes n)", OF least_sizes_Suc])
  also have "\<dots> \<le> int (length (inorder t))"
    by (rule avl_least_size [OF assms(1)])
  finally have lt: "fst (least_sizes 46) < 4294967296"
    using assms(2) by simp
  have eq: "fst (least_sizes 46) = 4807526975"
    by code_simp
  show False
    using lt unfolding eq by simp
qed

end
