(* ===== verification/PhAvlRep.thy ===== *)
theory PhAvlRep
  imports PhAvlShape
begin

text \<open>
  How a heap of links represents an abstract tree, and the proof that the pointer operations of
  \<open>avltree.c\<close> implement the operations on abstract trees: rotations, rebalancing, the two upward loops,
  unlinking a node and putting it in the place of another.
\<close>

section \<open>Representation\<close>

fun rep :: "avl_heap \<Rightarrow> ptr \<Rightarrow> avl_tree \<Rightarrow> bool" where
  "rep h q Leaf = True"
| "rep h q (Node l p b r) \<longleftrightarrow>
     p \<noteq> 0 \<and> Parent h p = q \<and> Left h p = root l \<and> Right h p = root r \<and> Balance h p = b
     \<and> rep h p l \<and> rep h p r"

text \<open>The node above the hole of a path, and the child field of it that the hole is.\<close>

fun up :: "ptr \<Rightarrow> path \<Rightarrow> ptr" where
  "up R [] = R"
| "up R (InL p b r # c) = p"
| "up R (InR l p b # c) = p"

fun hole_ref :: "ptr \<Rightarrow> path \<Rightarrow> child_ref" where
  "hole_ref R [] = RightOf R"
| "hole_ref R (InL p b r # c) = LeftOf p"
| "hole_ref R (InR l p b # c) = RightOf p"

fun side :: "path \<Rightarrow> int" where
  "side [] = 1"
| "side (InL p b r # c) = - 1"
| "side (InR l p b # c) = 1"

text \<open>\<open>rep_path h R x c\<close>: the path \<open>c\<close> is in the heap, with \<open>x\<close> in its hole.\<close>

fun rep_path :: "avl_heap \<Rightarrow> ptr \<Rightarrow> ptr \<Rightarrow> path \<Rightarrow> bool" where
  "rep_path h R x [] \<longleftrightarrow> Right h R = x \<and> Left h R = 0 \<and> Parent h R = 0"
| "rep_path h R x (InL p b r # c) \<longleftrightarrow>
     p \<noteq> 0 \<and> Parent h p = up R c \<and> Left h p = x \<and> Right h p = root r \<and> Balance h p = b
     \<and> rep h p r \<and> rep_path h R p c"
| "rep_path h R x (InR l p b # c) \<longleftrightarrow>
     p \<noteq> 0 \<and> Parent h p = up R c \<and> Left h p = root l \<and> Right h p = x \<and> Balance h p = b
     \<and> rep h p l \<and> rep_path h R p c"

definition rep_at :: "avl_heap \<Rightarrow> ptr \<Rightarrow> avl_tree \<Rightarrow> path \<Rightarrow> bool" where
  "rep_at h R t c \<longleftrightarrow>
     R \<noteq> 0 \<and> distinct (R # inorder (plug t c)) \<and> rep h (up R c) t \<and> rep_path h R (root t) c"

abbreviation tree_rep :: "avl_heap \<Rightarrow> ptr \<Rightarrow> avl_tree \<Rightarrow> bool" where
  "tree_rep h R t \<equiv> rep_at h R t []"

lemma rep_nonzero: "rep h q t \<Longrightarrow> 0 \<notin> set (inorder t)"
  by (induction t arbitrary: q) auto

lemma rep_plug:
  "rep h R (plug t c) \<and> rep_path h R (root (plug t c)) [] \<longleftrightarrow> rep h (up R c) t \<and> rep_path h R (root t) c"
proof (induction t c rule: plug.induct)
  case (1 t)
  show ?case by (simp only: plug.simps up.simps)
next
  case (2 t p b r c)
  show ?case unfolding plug.simps 2 by auto
next
  case (3 t l p b c)
  show ?case unfolding plug.simps 3 by auto
qed

lemma rep_at_plug: "rep_at h R (plug t c) d \<longleftrightarrow> rep_at h R t (c @ d)"
proof -
  have "tree_rep h R (plug (plug t c) d) \<longleftrightarrow> rep_at h R (plug t c) d"
    using rep_plug [of h R "plug t c" d] by (simp only: rep_at_def plug.simps up.simps)
  moreover have "tree_rep h R (plug t (c @ d)) \<longleftrightarrow> rep_at h R t (c @ d)"
    using rep_plug [of h R t "c @ d"] by (simp only: rep_at_def plug.simps up.simps)
  ultimately show ?thesis by (simp only: plug_append)
qed

lemma tree_rep_plug: "tree_rep h R (plug t c) \<longleftrightarrow> rep_at h R t c"
  using rep_at_plug [of h R t c "[]"] by simp

lemma root_in: "t \<noteq> Leaf \<Longrightarrow> root t \<in> set (inorder t)"
  by (cases t) auto

lemma root_zero_iff: "rep h q t \<Longrightarrow> root t = 0 \<longleftrightarrow> t = Leaf"
  by (cases t) auto

section \<open>Frame rules\<close>

definition same_links :: "avl_heap \<Rightarrow> avl_heap \<Rightarrow> ptr \<Rightarrow> bool" where
  "same_links h h' y \<longleftrightarrow>
     Parent h' y = Parent h y \<and> Left h' y = Left h y \<and> Right h' y = Right h y \<and> Balance h' y = Balance h y"

lemma rep_same: "rep h q t \<Longrightarrow> (\<And>y. y \<in> set (inorder t) \<Longrightarrow> same_links h h' y) \<Longrightarrow> rep h' q t"
  by (induction t arbitrary: q) (auto simp: same_links_def)

lemma rep_move:
  assumes "rep h q t" "distinct (inorder t)" "t \<noteq> Leaf \<Longrightarrow> Parent h' (root t) = q'"
    and "\<And>y. y \<in> set (inorder t) \<Longrightarrow> y \<noteq> root t \<Longrightarrow> same_links h h' y"
    and "t \<noteq> Leaf \<Longrightarrow> Left h' (root t) = Left h (root t) \<and> Right h' (root t) = Right h (root t)
           \<and> Balance h' (root t) = Balance h (root t)"
  shows "rep h' q' t"
proof (cases t)
  case Leaf
  then show ?thesis by simp
next
  case (Node l p b r)
  have "rep h' p l" "rep h' p r"
    by (rule rep_same [of h]; use Node assms in auto)+
  with Node assms show ?thesis by auto
qed

lemma rep_path_same:
  assumes "rep_path h R x c"
    and "\<And>y. y \<in> set (before c) \<union> set (after c) \<union> {R} \<Longrightarrow> same_links h h' y"
  shows "rep_path h' R x c"
  using assms
proof (induction h R x c rule: rep_path.induct)
  case (1 h R x)
  then show ?case by (simp add: same_links_def)
next
  case (2 h R x p b r c)
  have "rep h' p r"
    by (rule rep_same [of h]) (use 2 in auto)
  moreover have "rep_path h' R p c"
    by (rule 2(1)) (use 2 in auto)
  ultimately show ?case
    using 2(2,3) by (simp add: same_links_def)
next
  case (3 h R x l p b c)
  have "rep h' p l"
    by (rule rep_same [of h]) (use 3 in auto)
  moreover have "rep_path h' R p c"
    by (rule 3(1)) (use 3 in auto)
  ultimately show ?case
    using 3(2,3) by (simp add: same_links_def)
qed

text \<open>
  What an operation on the subtree in a hole may change: the links of the nodes \<open>S\<close> and the child field
  that is the hole.
\<close>

definition changes_only :: "avl_heap \<Rightarrow> avl_heap \<Rightarrow> child_ref \<Rightarrow> ptr set \<Rightarrow> bool" where
  "changes_only h h' ref S \<longleftrightarrow>
     (\<forall>y. y \<notin> S \<longrightarrow> Parent h' y = Parent h y \<and> Balance h' y = Balance h y
        \<and> (ref \<noteq> LeftOf y \<longrightarrow> Left h' y = Left h y) \<and> (ref \<noteq> RightOf y \<longrightarrow> Right h' y = Right h y))"

lemma changes_only_same:
  "changes_only h h' ref S \<Longrightarrow> y \<notin> S \<Longrightarrow> ref \<noteq> LeftOf y \<Longrightarrow> ref \<noteq> RightOf y \<Longrightarrow> same_links h h' y"
  by (simp add: changes_only_def same_links_def)

lemma rep_path_change:
  assumes "rep_path h R x c" "changes_only h h' (hole_ref R c) S" "deref h' (hole_ref R c) = x'"
    and "S \<inter> (set (before c) \<union> set (after c) \<union> {R}) = {}"
    and "distinct (R # before c @ after c)"
  shows "rep_path h' R x' c"
proof (cases c)
  case Nil
  with assms show ?thesis by (auto simp: changes_only_def)
next
  case (Cons s c')
  show ?thesis
  proof (cases s)
    case (InL p b r)
    note same = changes_only_same [OF assms(2)]
    have "rep h' p r"
      by (rule rep_same [of h]; use assms(1,4,5) Cons InL same in auto)
    moreover have "rep_path h' R p c'"
      by (rule rep_path_same [of h]; use assms(1,4,5) Cons InL same in auto)
    ultimately show ?thesis
      using assms Cons InL by (auto simp: changes_only_def)
  next
    case (InR l p b)
    note same = changes_only_same [OF assms(2)]
    have "rep h' p l"
      by (rule rep_same [of h]; use assms(1,4,5) Cons InR same in auto)
    moreover have "rep_path h' R p c'"
      by (rule rep_path_same [of h]; use assms(1,4,5) Cons InR same in auto)
    ultimately show ?thesis
      using assms Cons InR by (auto simp: changes_only_def)
  qed
qed

text \<open>An operation on the subtree in the hole that keeps its set of nodes.\<close>

lemma rep_at_change:
  assumes "rep_at h R t c" "rep h' (up R c) t'" "deref h' (hole_ref R c) = root t'"
    "changes_only h h' (hole_ref R c) (set (inorder t))" "inorder t' = inorder t"
  shows "rep_at h' R t' c"
proof -
  have d: "distinct (R # before c @ inorder t @ after c)"
    using assms(1) by (simp add: rep_at_def inorder_plug)
  have "rep_path h' R (root t') c"
    by (rule rep_path_change [OF _ assms(4,3)]) (use assms(1) d in \<open>auto simp: rep_at_def\<close>)
  with assms d show ?thesis by (simp add: rep_at_def inorder_plug)
qed

section \<open>Rotations\<close>

lemma rotate_left_rep:
  assumes "rep h q (Node A p b (Node B x bx C))" "deref h ref = p"
    and "distinct (inorder (Node A p b (Node B x bx C)))"
    and "\<forall>y \<in> set (inorder (Node A p b (Node B x bx C))). ref \<noteq> LeftOf y \<and> ref \<noteq> RightOf y"
  defines "h' \<equiv> PhpRotateLeftAvlLinks h ref"
  shows "rep h' q (Node (Node A p b B) x bx C)" "deref h' ref = x" "Balance h' = Balance h"
    "changes_only h h' ref (set (inorder (Node A p b (Node B x bx C))))"
proof -
  have r: "rep h p A" "rep h x B" "rep h x C" "Parent h p = q" "Left h p = root A" "Right h p = x"
      "Balance h p = b" "Left h x = root B" "Right h x = root C" "Balance h x = bx" "p \<noteq> 0" "x \<noteq> 0"
    using assms(1) by simp_all
  have ne: "p \<noteq> x" "root B \<noteq> p" "root B \<noteq> x"
    using assms(3) r(2,11,12) by (cases B; auto)+
  have z: "root B = 0 \<longleftrightarrow> B = Leaf"
    using r(2) by (rule root_zero_iff)
  have P: "deref h ref = p" "Right h p = x"
    using assms(2) r by simp_all
  have f: "Parent h' = (\<lambda>y. if y = p then x else if y = x then q else if B \<noteq> Leaf \<and> y = root B then p else Parent h y)"
    "Balance h' = Balance h" "deref h' ref = x"
    "y \<noteq> p \<Longrightarrow> y \<noteq> x \<Longrightarrow> ref \<noteq> LeftOf y \<Longrightarrow> Left h' y = Left h y"
    "y \<noteq> p \<Longrightarrow> y \<noteq> x \<Longrightarrow> ref \<noteq> RightOf y \<Longrightarrow> Right h' y = Right h y"
    "Left h' p = root A" "Right h' p = root B" "Left h' x = p" "Right h' x = root C" for y
    using assms(2,4) r ne z unfolding h'_def PhpRotateLeftAvlLinks_def Let_def
    by (cases ref; auto simp: fun_eq_iff)+
  have "rep h' p A"
    by (rule rep_same [OF r(1)]) (use assms(3,4) root_in [of B] in \<open>auto simp: same_links_def f\<close>)
  moreover have "rep h' x C"
    by (rule rep_same [OF r(3)]) (use assms(3,4) root_in [of B] in \<open>auto simp: same_links_def f\<close>)
  moreover have "rep h' p B"
    by (rule rep_move [OF r(2)]) (use assms(3,4) ne root_in [of B] in \<open>auto simp: same_links_def f\<close>)
  ultimately show "rep h' q (Node (Node A p b B) x bx C)"
    using r ne by (simp add: f)
  show "deref h' ref = x" "Balance h' = Balance h"
    by (simp_all add: f)
  show "changes_only h h' ref (set (inorder (Node A p b (Node B x bx C))))"
    using root_in [of B] by (auto simp: changes_only_def f)
qed

lemma rotate_right_rep:
  assumes "rep h q (Node (Node A x bx B) p b C)" "deref h ref = p"
    and "distinct (inorder (Node (Node A x bx B) p b C))"
    and "\<forall>y \<in> set (inorder (Node (Node A x bx B) p b C)). ref \<noteq> LeftOf y \<and> ref \<noteq> RightOf y"
  defines "h' \<equiv> PhpRotateRightAvlLinks h ref"
  shows "rep h' q (Node A x bx (Node B p b C))" "deref h' ref = x" "Balance h' = Balance h"
    "changes_only h h' ref (set (inorder (Node (Node A x bx B) p b C)))"
proof -
  have r: "rep h x A" "rep h x B" "rep h p C" "Parent h p = q" "Left h p = x" "Right h p = root C"
      "Balance h p = b" "Left h x = root A" "Right h x = root B" "Balance h x = bx" "p \<noteq> 0" "x \<noteq> 0"
    using assms(1) by simp_all
  have ne: "p \<noteq> x" "root B \<noteq> p" "root B \<noteq> x"
    using assms(3) r(2,11,12) by (cases B; auto)+
  have z: "root B = 0 \<longleftrightarrow> B = Leaf"
    using r(2) by (rule root_zero_iff)
  have P: "deref h ref = p" "Left h p = x"
    using assms(2) r by simp_all
  have f: "Parent h' = (\<lambda>y. if y = p then x else if y = x then q else if B \<noteq> Leaf \<and> y = root B then p else Parent h y)"
    "Balance h' = Balance h" "deref h' ref = x"
    "y \<noteq> p \<Longrightarrow> y \<noteq> x \<Longrightarrow> ref \<noteq> LeftOf y \<Longrightarrow> Left h' y = Left h y"
    "y \<noteq> p \<Longrightarrow> y \<noteq> x \<Longrightarrow> ref \<noteq> RightOf y \<Longrightarrow> Right h' y = Right h y"
    "Right h' p = root C" "Left h' p = root B" "Right h' x = p" "Left h' x = root A" for y
    using assms(2,4) r ne z unfolding h'_def PhpRotateRightAvlLinks_def Let_def
    by (cases ref; auto simp: fun_eq_iff)+
  have "rep h' p C"
    by (rule rep_same [OF r(3)]) (use assms(3,4) root_in [of B] in \<open>auto simp: same_links_def f\<close>)
  moreover have "rep h' x A"
    by (rule rep_same [OF r(1)]) (use assms(3,4) root_in [of B] in \<open>auto simp: same_links_def f\<close>)
  moreover have "rep h' p B"
    by (rule rep_move [OF r(2)]) (use assms(3,4) ne root_in [of B] in \<open>auto simp: same_links_def f\<close>)
  ultimately show "rep h' q (Node A x bx (Node B p b C))"
    using r ne by (simp add: f)
  show "deref h' ref = x" "Balance h' = Balance h"
    by (simp_all add: f)
  show "changes_only h h' ref (set (inorder (Node (Node A x bx B) p b C)))"
    using root_in [of B] by (auto simp: changes_only_def f)
qed

lemma rotate_left_twice_rep:
  fixes A p b B1 s bs B2 x bx C
  defines "t \<equiv> Node A p b (Node (Node B1 s bs B2) x bx C)"
  assumes "rep h q t" "deref h ref = p" "distinct (inorder t)"
    and "\<forall>y \<in> set (inorder t). ref \<noteq> LeftOf y \<and> ref \<noteq> RightOf y"
  defines "h' \<equiv> PhpRotateLeftTwiceAvlLinks h ref"
  shows "rep h' q (Node (Node A p b B1) s bs (Node B2 x bx C))" "deref h' ref = s" "Balance h' = Balance h"
    "changes_only h h' ref (set (inorder t))"
proof -
  have r: "rep h p A" "rep h s B1" "rep h s B2" "rep h x C" "Parent h p = q" "Left h p = root A" "Right h p = x"
      "Left h x = s" "Right h x = root C" "Left h s = root B1" "Right h s = root B2"
      "Balance h p = b" "Balance h x = bx" "Balance h s = bs" "p \<noteq> 0" "x \<noteq> 0" "s \<noteq> 0"
    using assms(2) by (simp_all add: t_def)
  have d: "distinct (inorder A @ p # inorder B1 @ s # inorder B2 @ x # inorder C)"
    using assms(4) by (simp add: t_def)
  have notin: "\<forall>y \<in> set (inorder A @ p # inorder B1 @ s # inorder B2 @ x # inorder C). ref \<noteq> LeftOf y \<and> ref \<noteq> RightOf y"
    using assms(5) by (simp add: t_def)
  have ne: "p \<noteq> x" "p \<noteq> s" "x \<noteq> s" "root B1 \<noteq> p" "root B1 \<noteq> x" "root B1 \<noteq> s" "root B2 \<noteq> p" "root B2 \<noteq> x" "root B2 \<noteq> s"
    using d r(15-17) by (cases B1; cases B2; auto)+
  have z: "root B1 = 0 \<longleftrightarrow> B1 = Leaf" "root B2 = 0 \<longleftrightarrow> B2 = Leaf"
    using r(2,3) by (simp_all add: root_zero_iff)
  have ne2: "B1 \<noteq> Leaf \<Longrightarrow> root B1 \<noteq> root B2"
    using d r(2) z root_in [of B1] root_in [of B2] by (cases "B2 = Leaf") auto
  have cmp: "Left h p = root A" "Right h p = x" "Left h x = s" "Right h x = root C" "deref h ref = p"
    using assms(3) r by simp_all
  have sym: "x \<noteq> p" "s \<noteq> p" "s \<noteq> x" "p \<noteq> root B1" "x \<noteq> root B1" "s \<noteq> root B1" "p \<noteq> root B2" "x \<noteq> root B2" "s \<noteq> root B2"
    using ne by simp_all
  have nr: "ref \<noteq> LeftOf p" "ref \<noteq> RightOf p" "ref \<noteq> LeftOf s" "ref \<noteq> RightOf s" "ref \<noteq> LeftOf x" "ref \<noteq> RightOf x"
    using notin by simp_all
  define roots where "roots = (if B1 = Leaf then {} else {root B1}) \<union> (if B2 = Leaf then {} else {root B2})"
  have f: "Balance h' = Balance h" "deref h' ref = s"
    "y \<notin> {p, s, x} \<Longrightarrow> ref \<noteq> LeftOf y \<Longrightarrow> Left h' y = Left h y"
    "y \<notin> {p, s, x} \<Longrightarrow> ref \<noteq> RightOf y \<Longrightarrow> Right h' y = Right h y"
    "Left h' p = root A" "Right h' p = root B1" "Left h' s = p" "Right h' s = x" "Left h' x = root B2" "Right h' x = root C"
    "Parent h' p = s" "Parent h' x = s" "Parent h' s = q" 
    "B1 \<noteq> Leaf \<Longrightarrow> Parent h' (root B1) = p" "B2 \<noteq> Leaf \<Longrightarrow> Parent h' (root B2) = x"
    "y \<notin> {p, s, x} \<Longrightarrow> y \<notin> roots \<Longrightarrow> Parent h' y = Parent h y" for y
    using ne2 unfolding roots_def h'_def PhpRotateLeftTwiceAvlLinks_def Let_def
    by (simp_all add: assign_child r cmp ne z nr sym) ((cases ref; use nr in auto)[1] | metis)+
  have same: "same_links h h' y" if "y \<in> set (inorder t)" "y \<notin> {p, s, x}" "y \<notin> roots" for y
    using assms(5) that by (simp add: same_links_def f)
  have roots: "roots \<subseteq> set (inorder B1) \<union> set (inorder B2)"
    using root_in [of B1] root_in [of B2] by (auto simp: roots_def)
  have outer: "y \<notin> roots" if "y \<in> set (inorder A) \<union> set (inorder C)" for y
    using that roots d by auto
  have inner: "y \<notin> roots" if "y \<in> set (inorder B1) \<and> y \<noteq> root B1 \<or> y \<in> set (inorder B2) \<and> y \<noteq> root B2" for y
    using that d root_in [of B1] root_in [of B2] by (auto simp: roots_def)
  have "rep h' p A" "rep h' x C"
    by (rule rep_same [OF r(1)] rep_same [OF r(4)]; rule same; use outer d t_def in auto)+
  moreover have "rep h' p B1" "rep h' x B2"
    by (rule rep_move [OF r(2)] rep_move [OF r(3)]; (rule same)?; use inner d notin ne t_def root_in [of B1] root_in [of B2] f in auto)+
  ultimately show "rep h' q (Node (Node A p b B1) s bs (Node B2 x bx C))"
    using r ne by (simp add: f)
  show "deref h' ref = s" "Balance h' = Balance h"
    by (simp_all add: f)
  show "changes_only h h' ref (set (inorder t))"
    using subsetD [OF roots] by (auto simp: changes_only_def t_def f(1) intro!: f)
qed

lemma rotate_right_twice_rep:
  fixes A p b B1 s bs B2 x bx C
  defines "t \<equiv> Node (Node A x bx (Node B1 s bs B2)) p b C"
  assumes "rep h q t" "deref h ref = p" "distinct (inorder t)"
    and "\<forall>y \<in> set (inorder t). ref \<noteq> LeftOf y \<and> ref \<noteq> RightOf y"
  defines "h' \<equiv> PhpRotateRightTwiceAvlLinks h ref"
  shows "rep h' q (Node (Node A x bx B1) s bs (Node B2 p b C))" "deref h' ref = s" "Balance h' = Balance h"
    "changes_only h h' ref (set (inorder t))"
proof -
  have r: "rep h x A" "rep h s B1" "rep h s B2" "rep h p C" "Parent h p = q" "Right h p = root C" "Left h p = x"
      "Right h x = s" "Left h x = root A" "Left h s = root B1" "Right h s = root B2"
      "Balance h p = b" "Balance h x = bx" "Balance h s = bs" "p \<noteq> 0" "x \<noteq> 0" "s \<noteq> 0"
    using assms(2) by (simp_all add: t_def)
  have d: "distinct (inorder A @ x # inorder B1 @ s # inorder B2 @ p # inorder C)"
    using assms(4) by (simp add: t_def)
  have notin: "\<forall>y \<in> set (inorder A @ x # inorder B1 @ s # inorder B2 @ p # inorder C). ref \<noteq> LeftOf y \<and> ref \<noteq> RightOf y"
    using assms(5) by (simp add: t_def)
  have ne: "p \<noteq> x" "p \<noteq> s" "x \<noteq> s" "root B1 \<noteq> p" "root B1 \<noteq> x" "root B1 \<noteq> s" "root B2 \<noteq> p" "root B2 \<noteq> x" "root B2 \<noteq> s"
    using d r(15-17) by (cases B1; cases B2; auto)+
  have z: "root B1 = 0 \<longleftrightarrow> B1 = Leaf" "root B2 = 0 \<longleftrightarrow> B2 = Leaf"
    using r(2,3) by (simp_all add: root_zero_iff)
  have ne2: "B1 \<noteq> Leaf \<Longrightarrow> root B1 \<noteq> root B2"
    using d r(2) z root_in [of B1] root_in [of B2] by (cases "B2 = Leaf") auto
  have cmp: "Left h p = x" "Right h p = root C" "Left h x = root A" "Right h x = s" "deref h ref = p"
    using assms(3) r by simp_all
  have sym: "x \<noteq> p" "s \<noteq> p" "s \<noteq> x" "p \<noteq> root B1" "x \<noteq> root B1" "s \<noteq> root B1" "p \<noteq> root B2" "x \<noteq> root B2" "s \<noteq> root B2"
    using ne by simp_all
  have nr: "ref \<noteq> LeftOf p" "ref \<noteq> RightOf p" "ref \<noteq> LeftOf s" "ref \<noteq> RightOf s" "ref \<noteq> LeftOf x" "ref \<noteq> RightOf x"
    using notin by simp_all
  define roots where "roots = (if B1 = Leaf then {} else {root B1}) \<union> (if B2 = Leaf then {} else {root B2})"
  have f: "Balance h' = Balance h" "deref h' ref = s"
    "y \<notin> {p, s, x} \<Longrightarrow> ref \<noteq> LeftOf y \<Longrightarrow> Left h' y = Left h y"
    "y \<notin> {p, s, x} \<Longrightarrow> ref \<noteq> RightOf y \<Longrightarrow> Right h' y = Right h y"
    "Right h' p = root C" "Left h' p = root B2" "Left h' s = x" "Right h' s = p" "Left h' x = root A" "Right h' x = root B1"
    "Parent h' p = s" "Parent h' x = s" "Parent h' s = q" 
    "B1 \<noteq> Leaf \<Longrightarrow> Parent h' (root B1) = x" "B2 \<noteq> Leaf \<Longrightarrow> Parent h' (root B2) = p"
    "y \<notin> {p, s, x} \<Longrightarrow> y \<notin> roots \<Longrightarrow> Parent h' y = Parent h y" for y
    using ne2 unfolding roots_def h'_def PhpRotateRightTwiceAvlLinks_def Let_def
    by (simp_all add: assign_child r cmp ne z nr sym) ((cases ref; use nr in auto)[1] | metis)+
  have same: "same_links h h' y" if "y \<in> set (inorder t)" "y \<notin> {p, s, x}" "y \<notin> roots" for y
    using assms(5) that by (simp add: same_links_def f)
  have roots: "roots \<subseteq> set (inorder B1) \<union> set (inorder B2)"
    using root_in [of B1] root_in [of B2] by (auto simp: roots_def)
  have outer: "y \<notin> roots" if "y \<in> set (inorder A) \<union> set (inorder C)" for y
    using that roots d by auto
  have inner: "y \<notin> roots" if "y \<in> set (inorder B1) \<and> y \<noteq> root B1 \<or> y \<in> set (inorder B2) \<and> y \<noteq> root B2" for y
    using that d root_in [of B1] root_in [of B2] by (auto simp: roots_def)
  have "rep h' x A" "rep h' p C"
    by (rule rep_same [OF r(1)] rep_same [OF r(4)]; rule same; use outer d t_def in auto)+
  moreover have "rep h' x B1" "rep h' p B2"
    by (rule rep_move [OF r(2)] rep_move [OF r(3)]; (rule same)?; use inner d notin ne t_def root_in [of B1] root_in [of B2] f in auto)+
  ultimately show "rep h' q (Node (Node A x bx B1) s bs (Node B2 p b C))"
    using r ne by (simp add: f)
  show "deref h' ref = s" "Balance h' = Balance h"
    by (simp_all add: f)
  show "changes_only h h' ref (set (inorder t))"
    using subsetD [OF roots] by (auto simp: changes_only_def t_def f(1) intro!: f)
qed

section \<open>Rebalancing\<close>

lemma rep_set_Balance [simp]: "p \<notin> set (inorder t) \<Longrightarrow> rep (set_Balance h p v) q t \<longleftrightarrow> rep h q t"
  by (induction t arbitrary: q) auto

lemma deref_set_Balance [simp]: "deref (set_Balance h p v) ref = deref h ref"
  by (cases ref) simp_all

lemma changes_only_set_Balance:
  "changes_only h h' ref S \<Longrightarrow> p \<in> S \<Longrightarrow> changes_only h (set_Balance h' p v) ref S"
  by (simp add: changes_only_def)

definition rebalanced :: "avl_heap \<Rightarrow> child_ref \<Rightarrow> ptr \<Rightarrow> avl_tree \<Rightarrow> nat \<Rightarrow> avl_tree \<Rightarrow> avl_heap \<Rightarrow> bool" where
  "rebalanced h ref q t k t' h' \<longleftrightarrow>
     PhpRebalanceAvlLinks h ref = (k, h') \<and> rep h' q t' \<and> deref h' ref = root t'
     \<and> changes_only h h' ref (set (inorder t)) \<and> (k \<noteq> 3 \<longrightarrow> Parent h' (root t) = root t')"

lemma rebalance_rep_left:
  fixes A x bx B p r
  defines "t \<equiv> Node (Node A x bx B) p (- 1) r"
  assumes "rep h q t" "deref h ref = root t" "distinct (inorder t)"
    and "\<forall>y \<in> set (inorder t). ref \<noteq> LeftOf y \<and> ref \<noteq> RightOf y"
    and "rebalance t = (k, t')" "k \<noteq> 0"
  shows "\<exists>h'. rebalanced h ref q t k t' h'"
proof -
  have r: "rep h q (Node (Node A x bx B) p (- 1) r)" "deref h ref = p"
    "distinct (inorder (Node (Node A x bx B) p (- 1) r))"
    "\<forall>y \<in> set (inorder (Node (Node A x bx B) p (- 1) r)). ref \<noteq> LeftOf y \<and> ref \<noteq> RightOf y"
    using assms by simp_all
  have f: "Balance h p = - 1" "Left h p = x" "Balance h x = bx" "Right h x = root B"
    using r(1) by simp_all
  note d = r(3)
  consider "bx = - 1" | "bx = 1" | "bx \<noteq> - 1" "bx \<noteq> 1"
    by blast
  then show ?thesis
  proof cases
    case 1
    define h1 where "h1 = PhpRotateRightAvlLinks h ref"
    note rot = rotate_right_rep [OF r, folded h1_def]
    have e: "PhpRebalanceAvlLinks h ref = (1, set_Balance (set_Balance h1 p 0) x 0)"
      by (simp add: PhpRebalanceAvlLinks_def f r(2) 1 h1_def)
    have "k = 1" "t' = Node A x 0 (Node B p 0 r)"
      using assms(6) 1 by (simp_all add: t_def)
    moreover have "rep (set_Balance (set_Balance h1 p 0) x 0) q (Node A x 0 (Node B p 0 r))"
      using rot(1) d by auto
    moreover have "changes_only h (set_Balance (set_Balance h1 p 0) x 0) ref (set (inorder t))"
      using rot(4) by (intro changes_only_set_Balance) (simp_all add: t_def)
    ultimately show ?thesis
      using rot(1,2) e by (auto simp: rebalanced_def t_def)
  next
    case 2
    then obtain B1 s bs B2 where B: "B = Node B1 s bs B2"
      using assms(6,7) t_def by (cases B) auto
    define h1 where "h1 = PhpRotateRightTwiceAvlLinks h ref"
    define h2 where "h2 = set_Balance (set_Balance (set_Balance h1 p (if bs = - 1 then 1 else 0)) x (if bs = 1 then - 1 else 0)) s 0"
    note rot = rotate_right_twice_rep [OF r [unfolded B], folded h1_def]
    have "Balance h s = bs" "Right h x = s"
      using r(1) B by simp_all
    then have e: "PhpRebalanceAvlLinks h ref = (2, h2)"
      using f r(2) 2 rot(3) by (simp add: PhpRebalanceAvlLinks_def h1_def h2_def)
    have "k = 2" "t' = Node (Node A x (if bs = 1 then - 1 else 0) B1) s 0 (Node B2 p (if bs = - 1 then 1 else 0) r)"
      using assms(6) 2 B by (simp_all add: t_def)
    moreover have "rep h2 q (Node (Node A x (if bs = 1 then - 1 else 0) B1) s 0 (Node B2 p (if bs = - 1 then 1 else 0) r))"
      using rot(1) d B by (simp add: h2_def) auto
    moreover have "changes_only h h2 ref (set (inorder t))"
      unfolding h2_def using rot(4) by (intro changes_only_set_Balance) (simp_all add: t_def B)
    ultimately show ?thesis
      using rot(1,2) e by (auto simp: rebalanced_def t_def h2_def)
  next
    case 3
    define h1 where "h1 = PhpRotateRightAvlLinks h ref"
    note rot = rotate_right_rep [OF r, folded h1_def]
    have e: "PhpRebalanceAvlLinks h ref = (3, set_Balance h1 x 1)"
      using 3 by (simp add: PhpRebalanceAvlLinks_def f r(2) h1_def)
    have "k = 3" "t' = Node A x 1 (Node B p (- 1) r)"
      using assms(6) 3 by (simp_all add: t_def)
    moreover have "rep (set_Balance h1 x 1) q (Node A x 1 (Node B p (- 1) r))"
      using rot(1) d by auto
    moreover have "changes_only h (set_Balance h1 x 1) ref (set (inorder t))"
      using rot(4) by (intro changes_only_set_Balance) (simp_all add: t_def)
    ultimately show ?thesis
      using rot(1,2) e by (auto simp: rebalanced_def t_def)
  qed
qed

lemma rebalance_rep_right:
  fixes l p B x bx C
  defines "t \<equiv> Node l p 1 (Node B x bx C)"
  assumes "rep h q t" "deref h ref = root t" "distinct (inorder t)"
    and "\<forall>y \<in> set (inorder t). ref \<noteq> LeftOf y \<and> ref \<noteq> RightOf y"
    and "rebalance t = (k, t')" "k \<noteq> 0"
  shows "\<exists>h'. rebalanced h ref q t k t' h'"
proof -
  have r: "rep h q (Node l p 1 (Node B x bx C))" "deref h ref = p"
    "distinct (inorder (Node l p 1 (Node B x bx C)))"
    "\<forall>y \<in> set (inorder (Node l p 1 (Node B x bx C))). ref \<noteq> LeftOf y \<and> ref \<noteq> RightOf y"
    using assms by simp_all
  have f: "Balance h p = 1" "Right h p = x" "Balance h x = bx" "Left h x = root B"
    using r(1) by simp_all
  note d = r(3)
  consider "bx = 1" | "bx = - 1" | "bx \<noteq> 1" "bx \<noteq> - 1"
    by blast
  then show ?thesis
  proof cases
    case 1
    define h1 where "h1 = PhpRotateLeftAvlLinks h ref"
    note rot = rotate_left_rep [OF r, folded h1_def]
    have e: "PhpRebalanceAvlLinks h ref = (1, set_Balance (set_Balance h1 p 0) x 0)"
      by (simp add: PhpRebalanceAvlLinks_def f r(2) 1 h1_def)
    have "k = 1" "t' = Node (Node l p 0 B) x 0 C"
      using assms(6) 1 by (simp_all add: t_def)
    moreover have "rep (set_Balance (set_Balance h1 p 0) x 0) q (Node (Node l p 0 B) x 0 C)"
      using rot(1) d by auto
    moreover have "changes_only h (set_Balance (set_Balance h1 p 0) x 0) ref (set (inorder t))"
      using rot(4) by (intro changes_only_set_Balance) (simp_all add: t_def)
    ultimately show ?thesis
      using rot(1,2) e by (auto simp: rebalanced_def t_def)
  next
    case 2
    then obtain B1 s bs B2 where B: "B = Node B1 s bs B2"
      using assms(6,7) t_def by (cases B) auto
    define h1 where "h1 = PhpRotateLeftTwiceAvlLinks h ref"
    define h2 where "h2 = set_Balance (set_Balance (set_Balance h1 p (if bs = 1 then - 1 else 0)) x (if bs = - 1 then 1 else 0)) s 0"
    note rot = rotate_left_twice_rep [OF r [unfolded B], folded h1_def]
    have "Balance h s = bs" "Left h x = s"
      using r(1) B by simp_all
    then have e: "PhpRebalanceAvlLinks h ref = (2, h2)"
      using f r(2) 2 rot(3) by (simp add: PhpRebalanceAvlLinks_def h1_def h2_def)
    have "k = 2" "t' = Node (Node l p (if bs = 1 then - 1 else 0) B1) s 0 (Node B2 x (if bs = - 1 then 1 else 0) C)"
      using assms(6) 2 B by (simp_all add: t_def)
    moreover have "rep h2 q (Node (Node l p (if bs = 1 then - 1 else 0) B1) s 0 (Node B2 x (if bs = - 1 then 1 else 0) C))"
      using rot(1) d B by (simp add: h2_def) auto
    moreover have "changes_only h h2 ref (set (inorder t))"
      unfolding h2_def using rot(4) by (intro changes_only_set_Balance) (simp_all add: t_def B)
    ultimately show ?thesis
      using rot(1,2) e by (auto simp: rebalanced_def t_def h2_def)
  next
    case 3
    define h1 where "h1 = PhpRotateLeftAvlLinks h ref"
    note rot = rotate_left_rep [OF r, folded h1_def]
    have e: "PhpRebalanceAvlLinks h ref = (3, set_Balance h1 x (- 1))"
      using 3 by (simp add: PhpRebalanceAvlLinks_def f r(2) h1_def)
    have "k = 3" "t' = Node (Node l p 1 B) x (- 1) C"
      using assms(6) 3 by (simp_all add: t_def)
    moreover have "rep (set_Balance h1 x (- 1)) q (Node (Node l p 1 B) x (- 1) C)"
      using rot(1) d by auto
    moreover have "changes_only h (set_Balance h1 x (- 1)) ref (set (inorder t))"
      using rot(4) by (intro changes_only_set_Balance) (simp_all add: t_def)
    ultimately show ?thesis
      using rot(1,2) e by (auto simp: rebalanced_def t_def)
  qed
qed

text \<open>The general case; the balance of the node tells on which side its subtree is too high.\<close>

lemma rebalance_rep:
  assumes "rep h q t" "deref h ref = root t" "distinct (inorder t)"
    and "\<forall>y \<in> set (inorder t). ref \<noteq> LeftOf y \<and> ref \<noteq> RightOf y"
    and "rebalance t = (k, t')" "k \<noteq> 0" "\<And>l p b r. t = Node l p b r \<Longrightarrow> b = - 1 \<or> b = 1"
  obtains h' where "rebalanced h ref q t k t' h'"
proof -
  obtain l p b r where t: "t = Node l p b r"
    using assms(5,6) by (cases t) auto
  consider (left) A x bx B where "b = - 1" "l = Node A x bx B" | (right) B x bx C where "b = 1" "r = Node B x bx C"
    using assms(5-7) t by (cases l; cases r) auto
  then show ?thesis
  proof cases
    case left
    then show ?thesis
      using rebalance_rep_left [of h q A x bx B p r ref k t'] assms(1-6) t that by (simp only:) blast
  next
    case right
    then show ?thesis
      using rebalance_rep_right [of h q l p B x bx C ref k t'] assms(1-6) t that by (simp only:) blast
  qed
qed

end
