(* ===== verification/PhAvlUpdate.thy ===== *)
theory PhAvlUpdate
  imports PhAvlRep
begin

text \<open>
  The updates of the tree in the heap: the two loops that go up from the place of an insertion or of a
  removal implement \<open>insert_up\<close> and \<open>remove_up\<close>, and a node can be unlinked and put in the place of
  another.
\<close>

section \<open>A subtree in its place\<close>

lemma rep_atD:
  assumes "rep_at h R t c"
  shows "R \<noteq> 0" "distinct (R # before c @ inorder t @ after c)" "rep h (up R c) t" "rep_path h R (root t) c"
  using assms by (simp_all add: rep_at_def inorder_plug)

lemma up_notin: "rep_at h R t c \<Longrightarrow> up R c \<notin> set (inorder t)"
  using rep_atD(2) [of h R t c] by (cases "(R, c)" rule: up.cases) auto

lemma up_eq_iff: "rep_at h R t c \<Longrightarrow> up R c = R \<longleftrightarrow> c = []"
  using rep_atD(2) [of h R t c] by (cases "(R, c)" rule: up.cases) auto

lemma side_eq: "rep_at h R t c \<Longrightarrow> t \<noteq> Leaf \<Longrightarrow> (if Left h (up R c) = root t then - 1 else 1) = side c"
proof (cases c rule: side.cases)
  case 1
  assume "rep_at h R t c" "t \<noteq> Leaf"
  with 1 rep_atD(3,4) [of h R t c] show ?thesis
    by (cases t) auto
next
  case (3 l p b c')
  assume a: "rep_at h R t c" "t \<noteq> Leaf"
  then have "root t \<in> set (inorder t)" "root t \<noteq> 0"
    using root_in rep_atD(3) [OF a(1)] root_zero_iff by blast+
  moreover have "root l \<noteq> root t"
  proof (cases "l = Leaf")
    case False
    then show ?thesis
      using root_in [of l] rep_atD(2) [OF a(1)] \<open>root t \<in> _\<close> 3 by auto
  qed (use \<open>root t \<noteq> 0\<close> in simp)
  ultimately show ?thesis
    using rep_atD(4) [OF a(1)] 3 by simp
qed (use rep_atD(4) in force)

lemma parent_ref_eq:
  assumes "rep_at h R t c" "t \<noteq> Leaf"
  shows "parent_ref h (root t) = hole_ref R c"
proof -
  have "Parent h (root t) = up R c"
    using rep_atD(3) [OF assms(1)] assms(2) by (cases t) auto
  then show ?thesis
    using side_eq [OF assms] by (cases c rule: side.cases) (auto simp: parent_ref_def split: if_splits)
qed

lemma deref_hole: "rep_at h R t c \<Longrightarrow> deref h (hole_ref R c) = root t"
  using rep_atD(4) [of h R t c] by (cases "(R, c)" rule: up.cases) auto

lemma hole_notin:
  "rep_at h R t c \<Longrightarrow> \<forall>y \<in> set (inorder t). hole_ref R c \<noteq> LeftOf y \<and> hole_ref R c \<noteq> RightOf y"
  using up_notin [of h R t c] by (cases "(R, c)" rule: up.cases) auto

lemma set_Balance_at:
  assumes "rep_at h R (Node l p b r) c"
  shows "rep_at (set_Balance h p v) R (Node l p v r) c"
  by (rule rep_at_change [OF assms])
    (use assms rep_atD(2,3) [OF assms] deref_hole [OF assms] in \<open>auto simp: changes_only_def\<close>)

lemma rebalance_at:
  assumes "rep_at h R t c" "rebalance t = (k, t')" "k \<noteq> 0" "\<And>l p b r. t = Node l p b r \<Longrightarrow> b = - 1 \<or> b = 1"
  obtains h' where "PhpRebalanceAvlLinks h (parent_ref h (root t)) = (k, h')" "rep_at h' R t' c"
    "k \<noteq> 3 \<Longrightarrow> Parent h' (root t) = root t'"
proof -
  have "t \<noteq> Leaf"
    using assms(2,3) by auto
  note pr = parent_ref_eq [OF assms(1) this]
  have d: "distinct (inorder t)"
    using rep_atD(2) [OF assms(1)] by simp
  obtain h' where h': "rebalanced h (hole_ref R c) (up R c) t k t' h'"
    using rebalance_rep [OF rep_atD(3) [OF assms(1)] deref_hole [OF assms(1)] d hole_notin [OF assms(1)] assms(2,3)]
      assms(4) by blast
  have "inorder t' = inorder t"
    using inorder_rebalance [of t] assms(2) by simp
  then have "rep_at h' R t' c"
    using h' by (auto simp: rebalanced_def intro: rep_at_change [OF assms(1)])
  with h' show ?thesis
    using that by (auto simp: rebalanced_def pr)
qed

section \<open>The loop of the insertion\<close>

lemma root_plug: "c \<noteq> [] \<Longrightarrow> root (plug t c) \<in> set (before c) \<union> set (after c)"
  by (induction t c rule: plug.induct) (case_tac c; auto)+

lemma root_plug_eq_iff: "rep_at h R t c \<Longrightarrow> t \<noteq> Leaf \<Longrightarrow> root t = root (plug t c) \<longleftrightarrow> c = []"
  using rep_atD(2) [of h R t c] root_in [of t] root_plug [of c t] by (cases "c = []") auto

lemma root_plug_Node: "root (plug (Node l p b r) c) = root (plug (Node l' p b' r') c)"
  by (induction "Node l p b r" c arbitrary: l p b r l' b' r' rule: plug.induct) simp_all

lemma add_loop_step:
  assumes "rep_at h R t (s # c)" "t \<noteq> Leaf" "plug t [s] = Node l p b r"
  defines "rt \<equiv> root (plug t (s # c))"
  shows "rep_at h R (Node l p b r) c \<and> add_loop rt h (root t) =
    (if b = 0 then add_loop rt (set_Balance h p (side [s])) p
     else if b \<noteq> side [s] then Some (set_Balance h p 0)
     else Some (snd (PhpRebalanceAvlLinks h (parent_ref h p))))"
proof -
  have at: "rep_at h R (Node l p b r) c"
    using assms(1,3) rep_at_plug [of h R t "[s]" c] by simp
  have ne: "root t \<noteq> rt"
    using root_plug_eq_iff [OF assms(1,2)] by (simp add: rt_def)
  have "Parent h (root t) = p" "Balance h p = b" "side (s # c) = side [s]" "up R (s # c) = p"
    using rep_atD(3,4) [OF assms(1)] assms(2,3) by (cases t; cases s; simp)+
  then show ?thesis
    using at ne side_eq [OF assms(1,2)] by (subst add_loop.simps) (simp add: Let_def)
qed

lemma add_loop_rep:
  assumes "rep_at h R t c" "avl t" "path_ok n c" "height t = Suc n" "n = 0 \<or> (\<forall>l p r. t \<noteq> Node l p 0 r)"
  shows "\<exists>h'. add_loop (root (plug t c)) h (root t) = Some h' \<and> tree_rep h' R (insert_up t c)"
  using assms
proof (induction t c arbitrary: h n rule: insert_up.induct)
  case (1 t)
  then show ?case by (auto simp: add_loop.simps)
next
  case (2 t p b r c)
  have t: "t \<noteq> Leaf"
    using 2(5) by auto
  obtain k t' where k: "rebalance (Node t p b r) = (k, t')"
    by fastforce
  note step = add_loop_step [OF 2(2) t, of t p b r]
  consider "b = 0" | "b = 1" | "b = - 1"
    using 2(4) by force
  then show ?case
  proof cases
    case b: 1
    have "rep_at (set_Balance h p (- 1)) R (Node t p (- 1) r) c"
      using step by (auto intro: set_Balance_at)
    then have "\<exists>h'. add_loop (root (plug (Node t p (- 1) r) c)) (set_Balance h p (- 1)) p = Some h'
        \<and> tree_rep h' R (insert_up (Node t p (- 1) r) c)"
      using 2(1) [OF b, of _ "Suc n"] 2(3-5) b by (auto simp: max_def)
    then show ?thesis
      using step b root_plug_Node [of t p 0 r c t "- 1" r] by auto
  next
    case b: 2
    then show ?thesis
      using step set_Balance_at [of h R t p b r c 0] by (auto simp: tree_rep_plug)
  next
    case b: 3
    have "height t = height r + 2" "n \<noteq> 0"
      using 2(4,5) b by auto
    then have "k \<noteq> 0"
      using rebalance_left [of t r p k t'] 2(3,4) k b by (auto simp del: rebalance.simps)
    then obtain h' where "PhpRebalanceAvlLinks h (parent_ref h p) = (k, h')" "rep_at h' R t' c"
      using rebalance_at [of h R "Node t p b r" c k t'] step k b by (auto simp del: rebalance.simps)
    then show ?thesis
      using step b k by (simp add: tree_rep_plug del: rebalance.simps)
  qed
next
  case (3 t l p b c)
  have t: "t \<noteq> Leaf"
    using 3(5) by auto
  obtain k t' where k: "rebalance (Node l p b t) = (k, t')"
    by fastforce
  note step = add_loop_step [OF 3(2) t, of l p b t]
  consider "b = 0" | "b = - 1" | "b = 1"
    using 3(4) by force
  then show ?case
  proof cases
    case b: 1
    have "rep_at (set_Balance h p 1) R (Node l p 1 t) c"
      using step by (auto intro: set_Balance_at)
    then have "\<exists>h'. add_loop (root (plug (Node l p 1 t) c)) (set_Balance h p 1) p = Some h'
        \<and> tree_rep h' R (insert_up (Node l p 1 t) c)"
      using 3(1) [OF b, of _ "Suc n"] 3(3-5) b by (auto simp: max_def)
    then show ?thesis
      using step b root_plug_Node [of l p 0 t c l 1 t] by auto
  next
    case b: 2
    then show ?thesis
      using step set_Balance_at [of h R l p b t c 0] by (auto simp: tree_rep_plug)
  next
    case b: 3
    have "height t = height l + 2" "n \<noteq> 0"
      using 3(4,5) b by auto
    then have "k \<noteq> 0"
      using rebalance_right [of l t p k t'] 3(3,4) k b by (auto simp del: rebalance.simps)
    then obtain h' where "PhpRebalanceAvlLinks h (parent_ref h p) = (k, h')" "rep_at h' R t' c"
      using rebalance_at [of h R "Node l p b t" c k t'] step k b by (auto simp del: rebalance.simps)
    then show ?thesis
      using step b k by (simp add: tree_rep_plug del: rebalance.simps)
  qed
qed

section \<open>The loop of the removal\<close>

lemma next_up:
  assumes "rep_at h R t c" "t \<noteq> Leaf"
  shows "Parent h (root t) = up R c \<and> (if Left h (Parent h (root t)) = root t then - 1 else 1) = side c"
  using rep_atD(3) [OF assms(1)] assms(2) side_eq [OF assms] by (cases t) auto

lemma remove_loop_step:
  assumes "rep_at h R t (s # c)" "plug t [s] = Node l p b r"
  shows "rep_at h R (Node l p b r) c \<and> avl_remove_loop R h (up R (s # c)) (side (s # c)) =
    (if b = side [s] then avl_remove_loop R (set_Balance h p 0) (up R c) (side c)
     else if b = 0 then Some (set_Balance h p (- side [s]))
     else case PhpRebalanceAvlLinks h (parent_ref h p) of (k, h) \<Rightarrow>
       if k = 3 then Some h
       else avl_remove_loop R h (Parent h (Parent h p))
              (if Left h (Parent h (Parent h p)) = Parent h p then - 1 else 1))"
proof -
  have at: "rep_at h R (Node l p b r) c"
    using assms rep_at_plug [of h R t "[s]" c] by simp
  have "up R (s # c) \<noteq> R"
    using up_eq_iff [OF assms(1)] by simp
  moreover have "Balance h p = b" "side (s # c) = side [s]" "up R (s # c) = p"
    using rep_atD(3,4) [OF assms(1)] assms(2) by (cases s; simp)+
  moreover have "Parent h p = up R c" "(if Left h (up R c) = p then - 1 else 1) = side c"
    using next_up [OF at] by (auto split: if_splits)
  ultimately show ?thesis
    using at by (subst avl_remove_loop.simps) (simp add: Let_def split: prod.split)
qed

lemma remove_loop_rep:
  assumes "rep_at h R t c" "avl t" "path_ok (Suc (height t)) c"
  shows "\<exists>h'. avl_remove_loop R h (up R c) (side c) = Some h' \<and> tree_rep h' R (remove_up t c)"
  using assms
proof (induction t c arbitrary: h rule: remove_up.induct)
  case (1 t)
  then show ?case by (auto simp: avl_remove_loop.simps)
next
  case (2 t p b r c)
  obtain k t' where k: "rebalance (Node t p b r) = (k, t')"
    by fastforce
  note step = remove_loop_step [OF 2(3), of t p b r]
  consider "b = - 1" | "b = 0" | "b = 1"
    using 2(5) by force
  then show ?case
  proof cases
    case b: 1
    have "rep_at (set_Balance h p 0) R (Node t p 0 r) c"
      using step by (auto intro: set_Balance_at)
    then show ?thesis
      using 2(1) [OF b, of "set_Balance h p 0"] 2(4,5) step b by (auto simp: max_def)
  next
    case b: 2
    then show ?thesis
      using step set_Balance_at [of h R t p b r c 1] by (auto simp: tree_rep_plug)
  next
    case b: 3
    have hr: "height r = height t + 2"
      using 2(5) b by auto
    then have t': "avl t'" "height t' = (if k = 3 then height r + 1 else height r)" "t' \<noteq> Leaf" "k \<noteq> 0"
      using rebalance_right [of t r p k t'] 2(4,5) k b by (auto simp del: rebalance.simps)
    obtain h' where h': "PhpRebalanceAvlLinks h (parent_ref h p) = (k, h')" "rep_at h' R t' c"
        "k \<noteq> 3 \<Longrightarrow> Parent h' p = root t'"
      using rebalance_at [of h R "Node t p b r" c k t'] step k b t'(4) by (auto simp del: rebalance.simps)
    have "path_ok (Suc (height r)) c"
      using 2(5) hr by (auto simp: max_def split: if_splits)
    then show ?thesis
      using 2(2) [OF _ _ k [symmetric], of h'] step b k h' t' next_up [OF h'(2) t'(3)]
      by (auto simp: tree_rep_plug simp del: rebalance.simps)
  qed
next
  case (3 t l p b c)
  obtain k t' where k: "rebalance (Node l p b t) = (k, t')"
    by fastforce
  note step = remove_loop_step [OF 3(3), of l p b t]
  consider "b = 1" | "b = 0" | "b = - 1"
    using 3(5) by force
  then show ?case
  proof cases
    case b: 1
    have "rep_at (set_Balance h p 0) R (Node l p 0 t) c"
      using step by (auto intro: set_Balance_at)
    then show ?thesis
      using 3(1) [OF b, of "set_Balance h p 0"] 3(4,5) step b by (auto simp: max_def)
  next
    case b: 2
    then show ?thesis
      using step set_Balance_at [of h R l p b t c "- 1"] by (auto simp: tree_rep_plug)
  next
    case b: 3
    have hr: "height l = height t + 2"
      using 3(5) b by auto
    then have t': "avl t'" "height t' = (if k = 3 then height l + 1 else height l)" "t' \<noteq> Leaf" "k \<noteq> 0"
      using rebalance_left [of l t p k t'] 3(4,5) k b by (auto simp del: rebalance.simps)
    obtain h' where h': "PhpRebalanceAvlLinks h (parent_ref h p) = (k, h')" "rep_at h' R t' c"
        "k \<noteq> 3 \<Longrightarrow> Parent h' p = root t'"
      using rebalance_at [of h R "Node l p b t" c k t'] step k b t'(4) by (auto simp del: rebalance.simps)
    have "path_ok (Suc (height l)) c"
      using 3(5) hr by (auto simp: max_def split: if_splits)
    then show ?thesis
      using 3(2) [OF _ _ k [symmetric], of h'] step b k h' t' next_up [OF h'(2) t'(3)]
      by (auto simp: tree_rep_plug simp del: rebalance.simps)
  qed
qed

lemma before_append: "before (c @ d) = before d @ before c"
  by (induction c rule: before.induct) auto

lemma after_append: "after (c @ d) = after c @ after d"
  by (induction c rule: after.induct) auto

section \<open>Unlinking and replacing a node\<close>

lemma unlink_rep:
  assumes "rep_at h R (Node l n b r) c" "l = Leaf \<or> r = Leaf"
  defines "h' \<equiv> unlink_element h n"
  shows "rep_at h' R (if r = Leaf then l else r) c \<and> Parent h' n = up R c"
proof -
  let ?x = "if r = Leaf then l else r"
  have d: "distinct (R # before c @ inorder (Node l n b r) @ after c)"
    and r: "n \<noteq> 0" "Parent h n = up R c" "Left h n = root l" "Right h n = root r" "rep h n l" "rep h n r"
    using rep_atD(2,3) [OF assms(1)] by simp_all
  have pr: "parent_ref h n = hole_ref R c"
    using parent_ref_eq [OF assms(1)] by simp
  have z: "root l = 0 \<longleftrightarrow> l = Leaf" "root r = 0 \<longleftrightarrow> r = Leaf"
    using r(5,6) by (simp_all add: root_zero_iff)
  have nr: "hole_ref R c \<noteq> LeftOf n" "hole_ref R c \<noteq> RightOf n"
    using hole_notin [OF assms(1)] by simp_all
  have f: "Left h' y = (if hole_ref R c = LeftOf y then root ?x else Left h y)"
    "Right h' y = (if hole_ref R c = RightOf y then root ?x else Right h y)"
    "Parent h' y = (if ?x \<noteq> Leaf \<and> y = root ?x then up R c else Parent h y)"
    "Balance h' = Balance h" "deref h' (hole_ref R c) = root ?x" for y
    unfolding h'_def unlink_element_def Let_def
    by (simp_all add: pr z r nr assign_child) (cases "hole_ref R c"; simp add: assign_child)
  have x: "set (inorder ?x) \<subseteq> set (inorder (Node l n b r))" "distinct (inorder ?x)" "n \<notin> set (inorder ?x)"
    using d by auto
  have same: "same_links h h' y" if "y \<in> set (inorder ?x)" "y \<noteq> root ?x" for y
    using that hole_notin [OF assms(1)] x(1) by (auto simp: same_links_def f simp del: if_split)
  have "rep h n ?x"
    using r by simp
  moreover have "hole_ref R c \<noteq> LeftOf (root ?x) \<and> hole_ref R c \<noteq> RightOf (root ?x)" if "?x \<noteq> Leaf"
    using root_in [OF that] x(1) hole_notin [OF assms(1)] by blast
  ultimately have "rep h' (up R c) ?x"
    using x(2) same by (intro rep_move [of h n ?x h']) (simp_all add: f del: if_split)
  moreover have "rep_path h' R (root ?x) c"
  proof (rule rep_path_change [of h R n c h' "set (inorder (Node l n b r))"])
    show "rep_path h R n c"
      using rep_atD(4) [OF assms(1)] by simp
    show "changes_only h h' (hole_ref R c) (set (inorder (Node l n b r)))"
      using root_in [of ?x] x(1) by (auto simp: changes_only_def f simp del: if_split inorder.simps)
  qed (use d f in auto)
  moreover have "Parent h' n = up R c"
    using root_in [of ?x] x(3) r(2) by (auto simp: f simp del: if_split)
  moreover have "R \<noteq> 0" "distinct (R # before c @ inorder ?x @ after c)"
    using d rep_atD(1) [OF assms(1)] by auto
  ultimately show ?thesis
    by (simp add: rep_at_def inorder_plug del: if_split)
qed

text \<open>Reading \<open>Left\<close> and \<open>Right\<close> to the left and to the right ends a subtree.\<close>

lemma leftmost_rep:
  "rep h q t \<Longrightarrow> t \<noteq> Leaf \<Longrightarrow>
     \<exists>n b r d. t = plug (Node Leaf n b r) d \<and> before d = [] \<and> leftmost h (root t) = Some n"
proof (induction t arbitrary: q)
  case (Node l p b r)
  show ?case
  proof (cases "l = Leaf")
    case True
    then have "leftmost h p = Some p"
      using Node.prems by (simp add: leftmost.simps)
    with True show ?thesis
      by (intro exI [of _ p] exI [of _ b] exI [of _ r] exI [of _ "[]"]) simp
  next
    case False
    then obtain n b' r' d where IH: "l = plug (Node Leaf n b' r') d" "before d = []" "leftmost h (root l) = Some n"
      using Node by fastforce
    have "leftmost h p = leftmost h (root l)"
      using Node.prems False root_zero_iff [of h p l] by (subst leftmost.simps) simp
    then show ?thesis
      using IH by (intro exI [of _ n] exI [of _ b'] exI [of _ r'] exI [of _ "d @ [InL p b r]"])
        (simp add: plug_append before_append)
  qed
qed simp

lemma rightmost_rep:
  "rep h q t \<Longrightarrow> t \<noteq> Leaf \<Longrightarrow>
     \<exists>n b l d. t = plug (Node l n b Leaf) d \<and> after d = [] \<and> rightmost h (root t) = Some n"
proof (induction t arbitrary: q)
  case (Node l p b r)
  show ?case
  proof (cases "r = Leaf")
    case True
    then have "rightmost h p = Some p"
      using Node.prems by (simp add: rightmost.simps)
    with True show ?thesis
      by (intro exI [of _ p] exI [of _ b] exI [of _ l] exI [of _ "[]"]) simp
  next
    case False
    then obtain n b' l' d where IH: "r = plug (Node l' n b' Leaf) d" "after d = []" "rightmost h (root r) = Some n"
      using Node by fastforce
    have "rightmost h p = rightmost h (root r)"
      using Node.prems False root_zero_iff [of h p r] by (subst rightmost.simps) simp
    then show ?thesis
      using IH by (intro exI [of _ n] exI [of _ b'] exI [of _ l'] exI [of _ "d @ [InR l p b]"])
        (simp add: plug_append after_append)
  qed
qed simp

lemma split_tree: "p \<in> set (inorder t) \<Longrightarrow> \<exists>l b r c. t = plug (Node l p b r) c"
proof (induction t)
  case (Node l q b r)
  consider "p = q" | "p \<in> set (inorder l)" | "p \<in> set (inorder r)"
    using Node.prems by auto
  then show ?case
  proof cases
    case 1
    then show ?thesis by (metis plug.simps(1))
  next
    case 2
    then obtain l' b' r' c where "l = plug (Node l' p b' r') c"
      using Node.IH by blast
    then have "Node l q b r = plug (Node l' p b' r') (c @ [InL q b r])"
      by (simp add: plug_append)
    then show ?thesis by blast
  next
    case 3
    then obtain l' b' r' c where "r = plug (Node l' p b' r') c"
      using Node.IH by blast
    then have "Node l q b r = plug (Node l' p b' r') (c @ [InR l q b])"
      by (simp add: plug_append)
    then show ?thesis by blast
  qed
qed simp

lemma replace_rep:
  assumes "rep_at h R (Node l e b r) c" "n \<noteq> 0" "n \<noteq> R" "n \<notin> set (inorder (plug (Node l e b r) c))"
  defines "h' \<equiv> replace_element h e n"
  shows "rep_at h' R (Node l n b r) c"
proof -
  have d: "distinct (R # before c @ inorder (Node l e b r) @ after c)"
    and r: "e \<noteq> 0" "Parent h e = up R c" "Left h e = root l" "Right h e = root r" "Balance h e = b"
      "rep h e l" "rep h e r"
    using rep_atD(2,3) [OF assms(1)] by simp_all
  have n: "n \<notin> set (before c)" "n \<notin> set (after c)" "n \<notin> set (inorder l)" "n \<notin> set (inorder r)" "n \<noteq> e"
    using assms(4) by (simp_all add: inorder_plug)
  have z: "root l = 0 \<longleftrightarrow> l = Leaf" "root r = 0 \<longleftrightarrow> r = Leaf"
    using r(6,7) by (simp_all add: root_zero_iff)
  have up: "up R c \<noteq> n" "up R c \<noteq> e"
    using up_notin [OF assms(1)] n assms(3) by (cases "(R, c)" rule: up.cases; auto)+
  have pr: "parent_ref h e = hole_ref R c"
    using parent_ref_eq [OF assms(1)] by simp
  have hole: "hole_ref R c = (if Left h (up R c) = e then LeftOf (up R c) else RightOf (up R c))"
    using pr [symmetric] by (simp only: parent_ref_def r)
  have f: "Left h' y = (if y = n then root l else if hole_ref R c = LeftOf y then n else Left h y)"
    "Right h' y = (if y = n then root r else if hole_ref R c = RightOf y then n else Right h y)"
    "Parent h' y = (if r \<noteq> Leaf \<and> y = root r \<or> l \<noteq> Leaf \<and> y = root l then n else if y = n then up R c else Parent h y)"
    "Balance h' y = (if y = n then b else Balance h y)" for y
    unfolding h'_def replace_element_def Let_def using n(5) up
    by (auto simp: r hole z)
  have child: "rep h' n t" if "rep h e t" "t = l \<or> t = r" for t
  proof (rule rep_move [OF that(1)])
    have y: "y \<noteq> n \<and> hole_ref R c \<noteq> LeftOf y \<and> hole_ref R c \<noteq> RightOf y" if "y \<in> set (inorder t)" for y
      using that \<open>t = l \<or> t = r\<close> n hole_notin [OF assms(1)] by auto
    show "distinct (inorder t)"
      using that(2) d by auto
    show "same_links h h' y" if "y \<in> set (inorder t)" "y \<noteq> root t" for y
      using y [OF that(1)] that root_in [of l] root_in [of r] d \<open>t = l \<or> t = r\<close> by (auto simp: same_links_def f)
    show "t \<noteq> Leaf \<Longrightarrow> Left h' (root t) = Left h (root t) \<and> Right h' (root t) = Right h (root t)
        \<and> Balance h' (root t) = Balance h (root t)"
      using y [OF root_in] by (simp add: f)
    show "t \<noteq> Leaf \<Longrightarrow> Parent h' (root t) = n"
      using that(2) by (auto simp: f)
  qed
  have "rep h' (up R c) (Node l n b r)"
    using child r n root_in [of l] root_in [of r] assms(2) by (auto simp: f)
  moreover have "rep_path h' R n c"
  proof (rule rep_path_change [of h R e c h' "insert n (set (inorder (Node l e b r)))"])
    show "rep_path h R e c"
      using rep_atD(4) [OF assms(1)] by simp
    show "changes_only h h' (hole_ref R c) (insert n (set (inorder (Node l e b r))))"
      using root_in [of l] root_in [of r] by (auto simp: changes_only_def f)
    show "deref h' (hole_ref R c) = n"
      using up by (cases "(R, c)" rule: up.cases) (auto simp: f)
  qed (use d n assms(3) in auto)
  moreover have "R \<noteq> 0" "distinct (R # before c @ inorder (Node l n b r) @ after c)"
    using d n assms(3) rep_atD(1) [OF assms(1)] by auto
  ultimately show ?thesis
    by (simp add: rep_at_def inorder_plug)
qed

end
