(* ===== verification/PhAvlWalk.thy ===== *)
theory PhAvlWalk
  imports PhAvlUpdate
begin

text \<open>
  Reading the tree in the heap: the neighbours of an element found through the parent links, and the
  enumeration of all elements in both orders with its stack of fixed size.
\<close>

section \<open>One step of a path\<close>

lemma rep_at_step:
  "rep_at h R t (InL p b r # c) \<longleftrightarrow> rep_at h R (Node t p b r) c"
  "rep_at h R t (InR l p b # c) \<longleftrightarrow> rep_at h R (Node l p b t) c"
  using rep_at_plug [of h R t "[InL p b r]" c] rep_at_plug [of h R t "[InR l p b]" c] by simp_all

section \<open>Neighbours\<close>

lemma climb_from_right_rep:
  "rep_at h R t c \<Longrightarrow> t \<noteq> Leaf \<Longrightarrow>
     climb_from_right h (root t) (up R c) = Some (case after c of [] \<Rightarrow> 0 | z # _ \<Rightarrow> z)"
proof (induction t c rule: plug.induct)
  case (1 t)
  have "R \<noteq> 0" "Right h R = root t" "Parent h R = 0"
    using rep_atD(1,4) [OF 1(1)] by simp_all
  then show ?case
    by (simp add: climb_from_right.simps)
next
  case (2 t p b r c)
  have "root t \<noteq> 0" "root t \<in> set (inorder t)"
    using rep_atD(3) [OF 2(2)] 2(3) root_zero_iff root_in by auto
  then have "root r \<noteq> root t"
    using root_in [of r] rep_atD(2) [OF 2(2)] by (cases "r = Leaf") auto
  then show ?case
    using rep_atD(4) [OF 2(2)] by (subst climb_from_right.simps) simp
next
  case (3 t l p b c)
  have "rep_at h R (Node l p b t) c"
    using 3(2) by (simp add: rep_at_step)
  then have "climb_from_right h p (up R c) = Some (case after c of [] \<Rightarrow> 0 | z # _ \<Rightarrow> z)"
    using 3(1) by simp
  then show ?case
    using rep_atD(4) [OF 3(2)] by (subst climb_from_right.simps) simp
qed

lemma climb_from_left_rep:
  "rep_at h R t c \<Longrightarrow> t \<noteq> Leaf \<Longrightarrow>
     climb_from_left h (root t) (up R c) = Some (if before c = [] then R else last (before c))"
proof (induction t c rule: plug.induct)
  case (1 t)
  have "root t \<noteq> 0" "Left h R = 0"
    using rep_atD(3,4) [OF 1(1)] 1(2) root_zero_iff by auto
  then show ?case
    by (subst climb_from_left.simps) simp
next
  case (2 t p b r c)
  have "rep_at h R (Node t p b r) c"
    using 2(2) by (simp add: rep_at_step)
  then have "climb_from_left h p (up R c) = Some (if before c = [] then R else last (before c))"
    using 2(1) by simp
  then show ?case
    using rep_atD(4) [OF 2(2)] by (subst climb_from_left.simps) simp
next
  case (3 t l p b c)
  have "root t \<noteq> 0" "root t \<in> set (inorder t)"
    using rep_atD(3) [OF 3(2)] 3(3) root_zero_iff root_in by auto
  then have "root l \<noteq> root t"
    using root_in [of l] rep_atD(2) [OF 3(2)] by (cases "l = Leaf") auto
  then show ?case
    using rep_atD(4) [OF 3(2)] by (subst climb_from_left.simps) simp
qed

lemma leftmost_hd: "rep h q t \<Longrightarrow> t \<noteq> Leaf \<Longrightarrow> leftmost h (root t) = Some (hd (inorder t))"
  using leftmost_rep [of h q t] by (auto simp: inorder_plug)

lemma rightmost_last: "rep h q t \<Longrightarrow> t \<noteq> Leaf \<Longrightarrow> rightmost h (root t) = Some (last (inorder t))"
  using rightmost_rep [of h q t] by (auto simp: inorder_plug)

lemma successor_rep:
  assumes "rep_at h R (Node l e b r) c"
  shows "PhSuccessorElementAvlTree h e = Some (case inorder r @ after c of [] \<Rightarrow> 0 | z # _ \<Rightarrow> z)"
proof -
  have f: "Right h e = root r" "Parent h e = up R c" "rep h e r"
    using rep_atD(3) [OF assms] by simp_all
  show ?thesis
  proof (cases "r = Leaf")
    case True
    then show ?thesis
      using climb_from_right_rep [OF assms] f by (simp add: PhSuccessorElementAvlTree_def)
  next
    case False
    then show ?thesis
      using leftmost_hd [OF f(3) False] f root_zero_iff [OF f(3)]
      by (cases "inorder r") (auto simp: PhSuccessorElementAvlTree_def dest: root_in)
  qed
qed

lemma up_nonzero: "rep_at h R t c \<Longrightarrow> up R c \<noteq> 0"
  using rep_atD(1,4) [of h R t c] by (cases "(R, c)" rule: up.cases) auto

lemma parent_nonzero:
  assumes "rep_at h R t c" "y \<in> set (inorder (plug t c))"
  shows "Parent h y \<noteq> 0"
proof -
  obtain l b r d where s: "plug t c = plug (Node l y b r) d"
    using split_tree [OF assms(2)] by blast
  then have "rep_at h R (Node l y b r) d"
    using assms(1) by (metis tree_rep_plug)
  then show ?thesis
    using up_nonzero rep_atD(3) by fastforce
qed

lemma predecessor_rep:
  assumes "rep_at h R (Node l e b r) c"
  shows "PhPredecessorElementAvlTree h e =
    Some (if before c @ inorder l = [] then 0 else last (before c @ inorder l))"
proof -
  have f: "Left h e = root l" "Parent h e = up R c" "rep h e l"
    using rep_atD(3) [OF assms] by simp_all
  show ?thesis
  proof (cases "l = Leaf")
    case True
    have root: "R \<noteq> 0" "Parent h R = 0"
      using rep_atD(1,4) [of h R "plug (Node l e b r) c" "[]"] assms by (simp_all add: tree_rep_plug)
    have "last (before c) \<in> set (inorder (plug (Node l e b r) c))" if "before c \<noteq> []"
      using that by (simp add: inorder_plug)
    then have "Parent h (last (before c)) \<noteq> 0" if "before c \<noteq> []"
      using parent_nonzero [OF assms] that by blast
    then show ?thesis
      using climb_from_left_rep [OF assms] f True root by (auto simp: PhPredecessorElementAvlTree_def)
  next
    case False
    then have "inorder l \<noteq> []"
      by (cases l) auto
    with False show ?thesis
      using rightmost_last [OF f(3) False] f root_zero_iff [OF f(3)]
      by (simp add: PhPredecessorElementAvlTree_def)
  qed
qed

section \<open>Enumeration\<close>

text \<open>
  A tree read through two child fields: with \<open>Left\<close> and \<open>Right\<close> it is the tree itself, with \<open>Right\<close> and
  \<open>Left\<close> its mirror image, so that both orders of enumeration are one.
\<close>

fun linked :: "(ptr \<Rightarrow> ptr) \<Rightarrow> (ptr \<Rightarrow> ptr) \<Rightarrow> avl_tree \<Rightarrow> bool" where
  "linked down next Leaf = True"
| "linked down next (Node l p b r) \<longleftrightarrow>
     p \<noteq> 0 \<and> down p = root l \<and> next p = root r \<and> linked down next l \<and> linked down next r"

fun mirror :: "avl_tree \<Rightarrow> avl_tree" where
  "mirror Leaf = Leaf"
| "mirror (Node l p b r) = Node (mirror r) p b (mirror l)"

lemma root_mirror [simp]: "root (mirror t) = root t"
  by (cases t) simp_all

lemma height_mirror [simp]: "height (mirror t) = height t"
  by (induction t) (simp_all add: max.commute)

lemma inorder_mirror [simp]: "inorder (mirror t) = rev (inorder t)"
  by (induction t) simp_all

lemma rep_linked: "rep h q t \<Longrightarrow> linked (Left h) (Right h) t"
  by (induction t arbitrary: q) auto

lemma rep_linked_mirror: "rep h q t \<Longrightarrow> linked (Right h) (Left h) (mirror t)"
  by (induction t arbitrary: q) auto

text \<open>The calls of the callback, until it returns \<open>FALSE\<close>.\<close>

fun visit :: "('c \<Rightarrow> ptr \<Rightarrow> bool \<times> 'c) \<Rightarrow> ptr list \<Rightarrow> 'c \<Rightarrow> 'c" where
  "visit callback [] context = context"
| "visit callback (x # xs) context =
     (case callback context x of (continue, context) \<Rightarrow> if continue then visit callback xs context else context)"

text \<open>What a stack still has to visit: each entry and the subtree at its \<open>next\<close> field.\<close>

fun pending :: "(ptr \<times> avl_tree) list \<Rightarrow> ptr list" where
  "pending [] = []"
| "pending ((p, t) # S) = p # inorder t @ pending S"

fun stack_ok :: "(ptr \<Rightarrow> ptr) \<Rightarrow> (ptr \<Rightarrow> ptr) \<Rightarrow> (ptr \<times> avl_tree) list \<Rightarrow> bool" where
  "stack_ok down next [] = True"
| "stack_ok down next ((p, t) # S) \<longleftrightarrow>
     next p = root t \<and> linked down next t \<and> length S + height t \<le> stack_size \<and> length S < stack_size
     \<and> stack_ok down next S"

lemma root_zero_linked: "linked down next t \<Longrightarrow> root t = 0 \<longleftrightarrow> t = Leaf"
  by (cases t) auto

lemma push_all_rep:
  assumes "linked down next t" "stack_ok down next S" "length S + height t \<le> stack_size"
  shows "\<exists>S'. push_all down (map fst S) (root t) = Some (map fst S') \<and> stack_ok down next S'
    \<and> pending S' = inorder t @ pending S"
  using assms
proof (induction t arbitrary: S)
  case Leaf
  then show ?case
    by (auto simp: push_all.simps)
next
  case (Node l p b r)
  have "length S + height r \<le> stack_size" "Suc (length S + height l) \<le> stack_size"
    using Node.prems(3) by simp_all
  with Node obtain S' where "push_all down (map fst ((p, r) # S)) (root l) = Some (map fst S')" "stack_ok down next S'"
      "pending S' = inorder l @ pending ((p, r) # S)"
    using Node.IH(1) [of "(p, r) # S"] by auto
  then show ?case
    using Node.prems by (subst push_all.simps) auto
qed

lemma enum_stack_rep:
  "stack_ok down next S \<Longrightarrow>
     enum_stack down next callback (map fst S) ctx = Some (visit callback (pending S) ctx)"
proof (induction "length (pending S)" arbitrary: S ctx rule: less_induct)
  case less
  show ?case
  proof (cases S)
    case Nil
    then show ?thesis by (simp add: enum_stack.simps)
  next
    case (Cons a S1)
    obtain p t where a: "a = (p, t)"
      by fastforce
    have ok: "next p = root t" "linked down next t" "stack_ok down next S1" "length S1 + height t \<le> stack_size"
      using less.prems Cons a by simp_all
    obtain S' where S': "push_all down (map fst S1) (root t) = Some (map fst S')" "stack_ok down next S'"
        "pending S' = inorder t @ pending S1"
      using push_all_rep [OF ok(2,3,4)] by blast
    have "enum_stack down next callback (map fst S') ctx2 = Some (visit callback (pending S') ctx2)" for ctx2
      using less.hyps [of S' ctx2] S' Cons a by simp
    then show ?thesis
      using Cons a ok(1) S'(1,3) by (subst enum_stack.simps) (simp split: prod.split)
  qed
qed

lemma enum_rep:
  assumes "tree_rep h (tree_Root T) t" "height t \<le> stack_size"
  shows "PhEnumAvlTree h T order callback ctx =
    Some (visit callback (case order of TreeEnumerateInOrder \<Rightarrow> inorder t | TreeEnumerateInReverseOrder \<Rightarrow> rev (inorder t)) ctx)"
proof -
  have t: "Right h (tree_Root T) = root t" "rep h (tree_Root T) t"
    using rep_atD(3,4) [OF assms(1)] by simp_all
  have e: "Option.bind (push_all down [] (root u)) (\<lambda>stack. enum_stack down next callback stack ctx)
      = Some (visit callback (inorder u) ctx)"
    if "linked down next u" "height u \<le> stack_size" for down "next" u
    using push_all_rep [of down "next" u "[]"] that enum_stack_rep [of down "next" _ callback ctx] by auto
  show ?thesis
    using e [OF rep_linked [OF t(2)]] e [OF rep_linked_mirror [OF t(2)]] assms(2)
    by (cases order) (simp_all add: PhEnumAvlTree_def PhRootElementAvlTree_def t(1))
qed

end
