(* ===== verification/PhAvlCorrect.thy ===== *)
theory PhAvlCorrect
  imports PhAvlWalk
begin

text \<open>
  The AVL tree as an ordered set of elements. A comparison function is what \<open>PPH_AVL_TREE_COMPARE_FUNCTION\<close>
  asks for: its sign orders the elements by a key. The laws hold for every comparison of 64-bit keys with
  \<open>uint64cmp\<close>, which is what the trees of views, symbol modules and memory items are created with.
\<close>

section \<open>Linking a new element\<close>

lemma link_element_rep:
  assumes "rep_at h R Leaf c" "e \<noteq> 0" "e \<noteq> R" "e \<notin> set (before c @ after c)"
  shows "rep_at (link_element h (up R c) (side c) e) R (Node Leaf e 0 Leaf) c"
proof -
  define h' where "h' = link_element h (up R c) (side c) e"
  note d = rep_atD [OF assms(1)]
  have up: "up R c \<noteq> e"
    using assms(3,4) by (cases "(R, c)" rule: up.cases) auto
  have "rep_path h' R e c"
  proof (rule rep_path_change [of h R 0 c h' "{e}"])
    show "rep_path h R 0 c"
      using d(4) by simp
    show "changes_only h h' (hole_ref R c) {e}"
      by (cases "(R, c)" rule: up.cases) (auto simp: h'_def link_element_def changes_only_def)
    show "deref h' (hole_ref R c) = e"
      using up by (cases "(R, c)" rule: up.cases) (auto simp: h'_def link_element_def)
  qed (use d(2) assms(3,4) in auto)
  then show ?thesis
    unfolding h'_def [symmetric]
    using d(1,2) assms up by (auto simp: rep_at_def inorder_plug h'_def link_element_def)
qed

section \<open>Taking an element out\<close>

lemma unlink_step:
  assumes "rep_at h R (Node l n b r) c" "l = Leaf \<or> r = Leaf" "avl (plug (Node l n b r) c)"
  shows "\<exists>h' t'. avl_remove_loop R (unlink_element h n) (Parent (unlink_element h n) n) (side c) = Some h'
    \<and> tree_rep h' R t' \<and> avl t' \<and> inorder t' = before c @ inorder l @ inorder r @ after c"
proof -
  let ?x = "if r = Leaf then l else r"
  have u: "rep_at (unlink_element h n) R ?x c" "Parent (unlink_element h n) n = up R c"
    using unlink_rep [OF assms(1,2)] by simp_all
  have "avl ?x" "path_ok (Suc (height ?x)) c"
    using assms(2,3) by (auto simp: avl_plug split: if_splits)
  then obtain h' where "avl_remove_loop R (unlink_element h n) (up R c) (side c) = Some h'"
      "tree_rep h' R (remove_up ?x c)" "avl (remove_up ?x c)"
    using remove_loop_rep [OF u(1)] avl_remove_up by blast
  moreover have "inorder (remove_up ?x c) = before c @ inorder l @ inorder r @ after c"
    using assms(2) by (auto simp: inorder_remove_up inorder_plug)
  ultimately show ?thesis
    using u(2) by auto
qed

lemma split_unique:
  assumes "rep_at h R (Node l e b r) c" "inorder (plug (Node l e b r) c) = xs @ e # ys"
  shows "before c @ inorder l = xs \<and> inorder r @ after c = ys"
proof -
  have "e \<notin> set (before c @ inorder l)" "e \<notin> set (inorder r @ after c)"
    using rep_atD(2) [OF assms(1)] by auto
  then show ?thesis
    using assms(2) append_Cons_eq_iff [of e "before c @ inorder l" "inorder r @ after c" xs ys]
    by (simp add: inorder_plug)
qed

lemma replace_step:
  assumes "tree_rep h R t" "avl t" "inorder t = xs @ e # ys" "n \<noteq> 0" "n \<noteq> R" "n \<notin> set (inorder t)"
  shows "\<exists>t'. tree_rep (replace_element h e n) R t' \<and> avl t' \<and> inorder t' = xs @ n # ys"
proof -
  obtain l b r c where t: "t = plug (Node l e b r) c"
    using split_tree [of e t] assms(3) by auto
  then have at: "rep_at h R (Node l e b r) c"
    using assms(1) by (simp add: tree_rep_plug)
  then have "tree_rep (replace_element h e n) R (plug (Node l n b r) c)"
    using replace_rep assms(4-6) t by (simp add: tree_rep_plug)
  moreover have "avl (plug (Node l n b r) c)"
    using assms(2) t by (simp add: avl_plug)
  moreover have "before c @ inorder l = xs \<and> inorder r @ after c = ys"
    using split_unique [OF at] assms(3) t by simp
  ultimately show ?thesis
    by (auto simp: inorder_plug)
qed

lemma remove_rep:
  assumes "tree_rep h (tree_Root T) t" "avl t" "inorder t = xs @ e # ys"
  shows "\<exists>h' t'. PhRemoveElementAvlTree h T e = Some (h', T\<lparr>tree_Count := tree_Count T - 1\<rparr>)
    \<and> tree_rep h' (tree_Root T) t' \<and> avl t' \<and> inorder t' = xs @ ys"
proof -
  let ?R = "tree_Root T"
  obtain l b r c where t: "t = plug (Node l e b r) c"
    using split_tree [of e t] assms(3) by auto
  then have at: "rep_at h ?R (Node l e b r) c"
    using assms(1) by (simp add: tree_rep_plug)
  note d = rep_atD [OF at]
  have parts: "before c @ inorder l = xs \<and> inorder r @ after c = ys"
    using split_unique [OF at] assms(3) t by simp
  have links: "Left h e = root l" "Right h e = root r" "root l = 0 \<longleftrightarrow> l = Leaf" "root r = 0 \<longleftrightarrow> r = Leaf"
      "rep h e l" "rep h e r"
    using d(3) by (auto simp: root_zero_iff)
  show ?thesis
  proof (cases "l = Leaf \<or> r = Leaf")
    case True
    have "element_to_unlink h e = Some e"
      using True links by (simp add: element_to_unlink_def)
    moreover have "(if Left h (Parent h e) = e then - 1 else 1) = side c"
      using next_up [OF at] by (auto split: if_splits)
    ultimately show ?thesis
      using unlink_step [OF at True] assms(2) t parts
      by (auto simp: PhRemoveElementAvlTree_def Let_def)
  next
    case False
    obtain n bn ln rn cn where n: "element_to_unlink h e = Some n" "t = plug (Node ln n bn rn) cn"
      "ln = Leaf \<or> rn = Leaf" and
      pos: "before cn @ inorder ln @ inorder rn @ after cn = xs @ e # tl ys \<and> ys = n # tl ys
        \<or> before cn @ inorder ln @ inorder rn @ after cn = butlast xs @ e # ys \<and> xs = butlast xs @ [n]"
    proof (cases "Balance h e \<ge> 0")
      case True
      obtain n bn rn cn where m: "r = plug (Node Leaf n bn rn) cn" "before cn = []" "leftmost h (root r) = Some n"
        using leftmost_rep [OF links(6)] False by blast
      moreover have "t = plug (Node Leaf n bn rn) (cn @ InR l e b # c)"
        using t m(1) by (simp add: plug_append)
      ultimately show ?thesis
        using that [of n Leaf bn rn "cn @ InR l e b # c"] True False links parts
        by (auto simp: element_to_unlink_def before_append after_append inorder_plug)
    next
      case neg: False
      obtain n bn ln cn where m: "l = plug (Node ln n bn Leaf) cn" "after cn = []" "rightmost h (root l) = Some n"
        using rightmost_rep [OF links(5)] False by blast
      moreover have "t = plug (Node ln n bn Leaf) (cn @ InL e b r # c)"
        using t m(1) by (simp add: plug_append)
      ultimately show ?thesis
        using that [of n ln bn Leaf "cn @ InL e b r # c"] neg False links parts
        by (auto simp: element_to_unlink_def before_append after_append inorder_plug butlast_append)
    qed
    have at': "rep_at h ?R (Node ln n bn rn) cn"
      using assms(1) n(2) by (simp add: tree_rep_plug)
    obtain h1 t1 where h1: "avl_remove_loop ?R (unlink_element h n) (Parent (unlink_element h n) n) (side cn) = Some h1"
        "tree_rep h1 ?R t1" "avl t1" "inorder t1 = before cn @ inorder ln @ inorder rn @ after cn"
      using unlink_step [OF at' n(3)] assms(2) n(2) by auto
    have "e \<in> set (inorder t1)"
      using pos unfolding h1(4) [symmetric] by (elim disjE conjE) simp_all
    moreover have "n \<noteq> 0" "n \<noteq> ?R" "n \<notin> set (inorder t1)"
      using rep_atD(2,3) [OF at'] h1(4) by auto
    ultimately have fresh: "n \<noteq> 0" "n \<noteq> ?R" "n \<notin> set (inorder t1)" "n \<noteq> e"
      by auto
    have "(if Left h (Parent h n) = n then - 1 else 1) = side cn"
      using next_up [OF at'] by (auto split: if_splits)
    then have "PhRemoveElementAvlTree h T e = Some (replace_element h1 e n, T\<lparr>tree_Count := tree_Count T - 1\<rparr>)"
      using n(1) h1(1) fresh(4) by (simp add: PhRemoveElementAvlTree_def Let_def)
    moreover have "\<exists>t'. tree_rep (replace_element h1 e n) ?R t' \<and> avl t' \<and> inorder t' = xs @ ys"
      using pos
    proof
      assume a: "before cn @ inorder ln @ inorder rn @ after cn = xs @ e # tl ys \<and> ys = n # tl ys"
      then show ?thesis
        using replace_step [OF h1(2,3) _ fresh(1-3), of xs e "tl ys"] h1(4) by metis
    next
      assume a: "before cn @ inorder ln @ inorder rn @ after cn = butlast xs @ e # ys \<and> xs = butlast xs @ [n]"
      then show ?thesis
        using replace_step [OF h1(2,3) _ fresh(1-3), of "butlast xs" e ys] h1(4) by (metis append.assoc append_Cons append_Nil)
    qed
    ultimately show ?thesis by blast
  qed
qed

section \<open>Ordered sets of elements\<close>

definition ordered :: "(ptr \<Rightarrow> 'k::linorder) \<Rightarrow> ptr list \<Rightarrow> bool" where
  "ordered key xs \<longleftrightarrow> sorted_wrt (<) (map key xs)"

lemma ordered_simps [simp]:
  "ordered key []" "ordered key (x # xs) \<longleftrightarrow> (\<forall>y \<in> set xs. key x < key y) \<and> ordered key xs"
  "ordered key (xs @ ys) \<longleftrightarrow> ordered key xs \<and> ordered key ys \<and> (\<forall>x \<in> set xs. \<forall>y \<in> set ys. key x < key y)"
  by (auto simp: ordered_def sorted_wrt_append)

text \<open>The tree holds the elements \<open>xs\<close>, in their order.\<close>

definition avl_holds :: "(ptr \<Rightarrow> 'k::linorder) \<Rightarrow> avl_heap \<Rightarrow> PH_AVL_TREE \<Rightarrow> ptr list \<Rightarrow> bool" where
  "avl_holds key h T xs \<longleftrightarrow>
     (\<exists>t. tree_rep h (tree_Root T) t \<and> avl t \<and> inorder t = xs) \<and> ordered key xs
     \<and> tree_Count T = of_nat (length xs)"

definition first_or_null :: "ptr list \<Rightarrow> ptr" where
  "first_or_null xs = (case xs of [] \<Rightarrow> 0 | x # _ \<Rightarrow> x)"

definition last_or_null :: "ptr list \<Rightarrow> ptr" where
  "last_or_null xs = (if xs = [] then 0 else last xs)"

section \<open>Comparison functions\<close>

locale element_order =
  fixes cmp :: "ptr \<Rightarrow> ptr \<Rightarrow> int"
    and key :: "ptr \<Rightarrow> 'k::linorder"
  assumes cmp_less: "cmp a b < 0 \<longleftrightarrow> key a < key b"
    and cmp_greater: "0 < cmp a b \<longleftrightarrow> key b < key a"
begin

lemma cmp_equal: "cmp a b = 0 \<longleftrightarrow> key a = key b"
  using cmp_less [of a b] cmp_greater [of a b] by (cases "cmp a b" "0 :: int" rule: linorder_cases) auto

text \<open>The place of an element: the path to it, or to the empty subtree where it belongs.\<close>

definition place :: "ptr \<Rightarrow> avl_tree \<Rightarrow> avl_tree \<Rightarrow> path \<Rightarrow> bool" where
  "place e t s c \<longleftrightarrow>
     t = plug s c \<and> (\<forall>x \<in> set (before c). key x < key e) \<and> (\<forall>x \<in> set (after c). key e < key x)
     \<and> (s = Leaf \<or> (\<exists>l n b r. s = Node l n b r \<and> key n = key e))"

lemma place_left: "place e l s c \<Longrightarrow> key e < key p \<Longrightarrow> ordered key (inorder (Node l p b r)) \<Longrightarrow>
    place e (Node l p b r) s (c @ [InL p b r])"
  by (fastforce simp: place_def plug_append before_append after_append)

lemma place_right: "place e r s c \<Longrightarrow> key p < key e \<Longrightarrow> ordered key (inorder (Node l p b r)) \<Longrightarrow>
    place e (Node l p b r) s (c @ [InR l p b])"
  by (fastforce simp: place_def plug_append before_append after_append)

lemma up_append: "c \<noteq> [] \<Longrightarrow> up R (c @ d) = up 0 c"
  by (cases "(R, c)" rule: up.cases) auto

lemma side_append: "c \<noteq> [] \<Longrightarrow> side (c @ d) = side c"
  by (cases c rule: side.cases) auto

lemma find_loop_rep:
  assumes "rep h q t" "t \<noteq> Leaf" "ordered key (inorder t)"
  shows "\<exists>s c. place e t s c \<and>
    avl_find_loop cmp h e (root t) = Some (if s = Leaf then (up 0 c, side c) else (root s, 0)) \<and> (s = Leaf \<longrightarrow> c \<noteq> [])"
  using assms
proof (induction t arbitrary: q)
  case (Node l p b r)
  consider "key e = key p" | "key e < key p" | "key p < key e"
    by fastforce
  then show ?case
  proof cases
    case 1
    then have "avl_find_loop cmp h e p = Some (p, 0)"
      by (subst avl_find_loop.simps) (simp add: cmp_equal)
    with 1 show ?thesis
      by (intro exI [of _ "Node l p b r"] exI [of _ "[]"]) (simp add: place_def)
  next
    case 2
    then have cmp: "cmp e p \<noteq> 0" "cmp e p < 0"
      by (auto simp: cmp_equal cmp_less)
    show ?thesis
    proof (cases "l = Leaf")
      case True
      then have "avl_find_loop cmp h e p = Some (p, - 1)"
        using Node.prems cmp by (subst avl_find_loop.simps) (simp add: Let_def)
      moreover have "place e (Node l p b r) Leaf [InL p b r]"
        using place_left [of e l Leaf "[]" p b r] 2 Node.prems True by (simp add: place_def)
      ultimately show ?thesis
        by (intro exI [of _ Leaf] exI [of _ "[InL p b r]"]) simp
    next
      case False
      have "avl_find_loop cmp h e p = avl_find_loop cmp h e (root l)"
        using Node.prems cmp False root_zero_iff [of h p l] by (subst avl_find_loop.simps) (simp add: Let_def)
      moreover obtain s c where "place e l s c" "s = Leaf \<longrightarrow> c \<noteq> []"
          "avl_find_loop cmp h e (root l) = Some (if s = Leaf then (up 0 c, side c) else (root s, 0))"
        using Node.IH(1) [of p] Node.prems False by auto
      ultimately show ?thesis
        using place_left [of e l s c p b r] 2 Node.prems
        by (intro exI [of _ s] exI [of _ "c @ [InL p b r]"]) (simp add: up_append side_append)
    qed
  next
    case 3
    then have cmp: "cmp e p \<noteq> 0" "\<not> cmp e p < 0"
      by (auto simp: cmp_equal cmp_less)
    show ?thesis
    proof (cases "r = Leaf")
      case True
      then have "avl_find_loop cmp h e p = Some (p, 1)"
        using Node.prems cmp by (subst avl_find_loop.simps) (simp add: Let_def)
      moreover have "place e (Node l p b r) Leaf [InR l p b]"
        using place_right [of e r Leaf "[]" p l b] 3 Node.prems True by (simp add: place_def)
      ultimately show ?thesis
        by (intro exI [of _ Leaf] exI [of _ "[InR l p b]"]) simp
    next
      case False
      have "avl_find_loop cmp h e p = avl_find_loop cmp h e (root r)"
        using Node.prems cmp False root_zero_iff [of h p r] by (subst avl_find_loop.simps) (simp add: Let_def)
      moreover obtain s c where "place e r s c" "s = Leaf \<longrightarrow> c \<noteq> []"
          "avl_find_loop cmp h e (root r) = Some (if s = Leaf then (up 0 c, side c) else (root s, 0))"
        using Node.IH(2) [of p] Node.prems False by auto
      ultimately show ?thesis
        using place_right [of e r s c p l b] 3 Node.prems
        by (intro exI [of _ s] exI [of _ "c @ [InR l p b]"]) (simp add: up_append side_append)
    qed
  qed
qed simp

lemma find_rep:
  assumes "tree_rep h (tree_Root T) t" "ordered key (inorder t)"
  shows "\<exists>s c. place e t s c \<and>
    PhpFindElementAvlTree cmp h T e = Some (if s = Leaf then (up (tree_Root T) c, side c) else (root s, 0))"
proof (cases "t = Leaf")
  case True
  then show ?thesis
    using rep_atD(4) [OF assms(1)]
    by (intro exI [of _ Leaf] exI [of _ "[]"])
      (simp add: place_def PhpFindElementAvlTree_def PhRootElementAvlTree_def)
next
  case False
  obtain s c where f: "place e t s c" "s = Leaf \<longrightarrow> c \<noteq> []"
    "avl_find_loop cmp h e (root t) = Some (if s = Leaf then (up 0 c, side c) else (root s, 0))"
    using find_loop_rep [OF rep_atD(3) [OF assms(1)] False assms(2)] by blast
  have "Right h (tree_Root T) = root t" "root t \<noteq> 0"
    using rep_atD(3,4) [OF assms(1)] False root_zero_iff by auto
  then show ?thesis
    using f up_append [of c "tree_Root T" "[]"]
    by (intro exI [of _ s] exI [of _ c]) (simp add: PhpFindElementAvlTree_def PhRootElementAvlTree_def)
qed

lemma place_elements:
  assumes "place e t s c" "ordered key (inorder t)"
  shows "s = Leaf \<Longrightarrow> \<forall>x \<in> set (inorder t). key x \<noteq> key e"
    and "s \<noteq> Leaf \<Longrightarrow> root s \<in> set (inorder t) \<and> key (root s) = key e"
    and "filter (\<lambda>x. key x < key e) (inorder t) = before c @ filter (\<lambda>x. key x < key e) (inorder s)"
    and "filter (\<lambda>x. key e < key x) (inorder t) = filter (\<lambda>x. key e < key x) (inorder s) @ after c"
  using assms by (auto simp: place_def inorder_plug filter_empty_conv filter_id_conv dest: order.asym)

lemma count_Suc: "tree_Count T = of_nat n \<Longrightarrow> tree_Count T + 1 = of_nat (Suc n)"
  by simp

lemma add_correct:
  assumes "avl_holds key h T xs" "e \<noteq> 0" "e \<noteq> tree_Root T" "e \<notin> set xs"
  shows "if \<exists>x \<in> set xs. key x = key e
    then \<exists>x \<in> set xs. key x = key e \<and> PhAddElementAvlTree cmp h T e = Some (x, h, T)
    else \<exists>h' T'. PhAddElementAvlTree cmp h T e = Some (0, h', T') \<and> tree_Root T' = tree_Root T
      \<and> avl_holds key h' T' (filter (\<lambda>x. key x < key e) xs @ e # filter (\<lambda>x. key e < key x) xs)"
proof -
  obtain t where t: "tree_rep h (tree_Root T) t" "avl t" "inorder t = xs" "ordered key (inorder t)"
      and count: "tree_Count T = of_nat (length xs)"
    using assms(1) by (auto simp: avl_holds_def)
  obtain s c where p: "place e t s c" and
    f: "PhpFindElementAvlTree cmp h T e = Some (if s = Leaf then (up (tree_Root T) c, side c) else (root s, 0))"
    using find_rep [OF t(1,4)] by blast
  note pe = place_elements [OF p t(4), unfolded t(3)]
  show ?thesis
  proof (cases "s = Leaf")
    case False
    have "PhAddElementAvlTree cmp h T e = Some (root s, h, T)"
      using f False by (simp add: PhAddElementAvlTree_def)
    then show ?thesis
      using pe(2) [OF False] by auto
  next
    case True
    have tc: "t = plug Leaf c" and xs: "xs = before c @ after c"
      using p True t(3) by (auto simp: place_def inorder_plug)
    define h2 where "h2 = link_element h (up (tree_Root T) c) (side c) e"
    have at: "rep_at h2 (tree_Root T) (Node Leaf e 0 Leaf) c"
      unfolding h2_def
      by (rule link_element_rep) (use t(1) tc assms xs in \<open>simp_all add: tree_rep_plug\<close>)
    have "root (plug (Node Leaf e 0 Leaf) c) = Right h2 (tree_Root T)"
      using at rep_atD(4) [of h2 "tree_Root T" "plug (Node Leaf e 0 Leaf) c" "[]"] by (simp add: tree_rep_plug)
    moreover have "path_ok 0 c"
      using t(2) tc by (simp add: avl_plug)
    ultimately obtain h' where h': "add_loop (Right h2 (tree_Root T)) h2 e = Some h'"
        "tree_rep h' (tree_Root T) (insert_up (Node Leaf e 0 Leaf) c)"
      using add_loop_rep [OF at, of 0] by auto
    have "PhAddElementAvlTree cmp h T e = Some (0, h', T\<lparr>tree_Count := tree_Count T + 1\<rparr>)"
      using f True h'(1)
      by (cases c rule: side.cases) (simp_all add: PhAddElementAvlTree_def h2_def PhRootElementAvlTree_def)
    moreover have "avl_holds key h' (T\<lparr>tree_Count := tree_Count T + 1\<rparr>) (before c @ e # after c)"
      using h'(2) count xs avl_insert_up [of "Node Leaf e 0 Leaf" 0 c] \<open>path_ok 0 c\<close> p t(3,4)
      by (auto simp: avl_holds_def inorder_insert_up inorder_plug place_def)
    moreover have "\<not> (\<exists>x \<in> set xs. key x = key e)"
      using pe(1) [OF True] by simp
    ultimately show ?thesis
      using pe(3,4) True by (simp del: filter_append)
  qed
qed

lemma remove_correct:
  assumes "avl_holds key h T xs" "e \<in> set xs"
  shows "\<exists>h' T'. PhRemoveElementAvlTree h T e = Some (h', T') \<and> tree_Root T' = tree_Root T \<and> avl_holds key h' T' (remove1 e xs)"
proof -
  obtain t where t: "tree_rep h (tree_Root T) t" "avl t" "inorder t = xs" and o: "ordered key xs"
      and count: "tree_Count T = of_nat (length xs)"
    using assms(1) by (auto simp: avl_holds_def)
  obtain ys zs where split: "xs = ys @ e # zs"
    using assms(2) by (meson split_list)
  obtain h' t' where h': "PhRemoveElementAvlTree h T e = Some (h', T\<lparr>tree_Count := tree_Count T - 1\<rparr>)"
      "tree_rep h' (tree_Root T) t'" "avl t'" "inorder t' = ys @ zs"
    using remove_rep [OF t(1,2)] t(3) split by blast
  moreover have "e \<notin> set ys"
    using o split by auto
  ultimately have "avl_holds key h' (T\<lparr>tree_Count := tree_Count T - 1\<rparr>) (remove1 e xs)"
    using o count split by (auto simp: avl_holds_def remove1_append)
  with h'(1) show ?thesis by auto
qed

lemma find_correct:
  assumes "avl_holds key h T xs"
  shows "if \<exists>x \<in> set xs. key x = key e
    then \<exists>x \<in> set xs. key x = key e \<and> PhFindElementAvlTree cmp h T e = Some x
    else PhFindElementAvlTree cmp h T e = Some 0"
proof -
  obtain t where t: "tree_rep h (tree_Root T) t" "avl t" "inorder t = xs" "ordered key (inorder t)"
    using assms(1) by (auto simp: avl_holds_def)
  obtain s c where p: "place e t s c" and
    f: "PhpFindElementAvlTree cmp h T e = Some (if s = Leaf then (up (tree_Root T) c, side c) else (root s, 0))"
    using find_rep [OF t(1,4)] by blast
  note pe = place_elements [OF p t(4), unfolded t(3)]
  have "side c \<noteq> 0"
    by (cases c rule: side.cases) auto
  then show ?thesis
    using f pe(1,2) by (cases "s = Leaf") (auto simp: PhFindElementAvlTree_def)
qed

text \<open>
  The searches for a bound: the elements that send the search to the right come first in the order, so
  the closest element kept is the first of the others, or the last of them.
\<close>

lemma bound_loop_first:
  assumes "rep h q t" "ordered key (inorder t)" "\<And>x y. key x < key y \<Longrightarrow> right (cmp e y) \<Longrightarrow> right (cmp e x)"
  shows "bound_loop cmp right (\<lambda>result. \<not> right result) h e (root t) closest =
    Some (case filter (\<lambda>x. \<not> right (cmp e x)) (inorder t) of [] \<Rightarrow> closest | x # _ \<Rightarrow> x)"
  using assms(1,2)
proof (induction t arbitrary: q closest)
  case Leaf
  then show ?case by (simp add: bound_loop.simps)
next
  case (Node l p b r)
  show ?case
  proof (cases "right (cmp e p)")
    case True
    then have "filter (\<lambda>x. \<not> right (cmp e x)) (inorder l) = []"
      using Node.prems(2) assms(3) by (force simp: filter_empty_conv)
    then show ?thesis
      using Node.prems Node.IH(2) [of p] True by (subst bound_loop.simps) simp
  next
    case False
    then show ?thesis
      using Node.prems Node.IH(1) [of p p]
      by (subst bound_loop.simps) (auto split: list.split)
  qed
qed

lemma bound_loop_last:
  assumes "rep h q t" "ordered key (inorder t)" "\<And>x y. key x < key y \<Longrightarrow> right (cmp e y) \<Longrightarrow> right (cmp e x)"
  shows "bound_loop cmp right right h e (root t) closest =
    Some (if filter (\<lambda>x. right (cmp e x)) (inorder t) = [] then closest
          else last (filter (\<lambda>x. right (cmp e x)) (inorder t)))"
  using assms(1,2)
proof (induction t arbitrary: q closest)
  case Leaf
  then show ?case by (simp add: bound_loop.simps)
next
  case (Node l p b r)
  show ?case
  proof (cases "right (cmp e p)")
    case True
    then show ?thesis
      using Node.prems Node.IH(2) [of p p] by (subst bound_loop.simps) simp
  next
    case False
    have "\<forall>y \<in> set (inorder r). \<not> right (cmp e y)"
      using Node.prems(2) assms(3) False by auto
    then have "filter (\<lambda>x. right (cmp e x)) (inorder r) = []"
      by (simp add: filter_empty_conv)
    then show ?thesis
      using Node.prems Node.IH(1) [of p] False by (subst bound_loop.simps) simp
  qed
qed

lemma bounds_correct:
  assumes "avl_holds key h T xs"
  shows "PhLowerBoundElementAvlTree cmp h T e = Some (first_or_null (filter (\<lambda>x. key e \<le> key x) xs))
    \<and> PhUpperBoundElementAvlTree cmp h T e = Some (first_or_null (filter (\<lambda>x. key e < key x) xs))
    \<and> PhLowerDualBoundElementAvlTree cmp h T e = Some (last_or_null (filter (\<lambda>x. key x < key e) xs))
    \<and> PhUpperDualBoundElementAvlTree cmp h T e = Some (last_or_null (filter (\<lambda>x. key x \<le> key e) xs))"
proof -
  obtain t where t: "tree_rep h (tree_Root T) t" "inorder t = xs" "ordered key (inorder t)"
    using assms(1) by (auto simp: avl_holds_def)
  have r: "Right h (tree_Root T) = root t" "rep h (tree_Root T) t"
    using rep_atD(3,4) [OF t(1)] by simp_all
  have c: "0 < cmp e x \<longleftrightarrow> key x < key e" "0 \<le> cmp e x \<longleftrightarrow> key x \<le> key e" for x
    using cmp_less [of e x] cmp_greater [of e x] by auto
  have mono: "\<And>x y. key x < key y \<Longrightarrow> 0 < cmp e y \<Longrightarrow> 0 < cmp e x"
      "\<And>x y. key x < key y \<Longrightarrow> 0 \<le> cmp e y \<Longrightarrow> 0 \<le> cmp e x"
    by (auto simp: c)
  note first = bound_loop_first [OF r(2) t(3), where e = e and closest = 0]
    and last = bound_loop_last [OF r(2) t(3), where e = e and closest = 0]
  show ?thesis
    unfolding PhLowerBoundElementAvlTree_def PhUpperBoundElementAvlTree_def PhLowerDualBoundElementAvlTree_def
      PhUpperDualBoundElementAvlTree_def PhRootElementAvlTree_def r(1) first_or_null_def last_or_null_def
    using first [of "\<lambda>result. 0 < result", OF mono(1)] first [of "\<lambda>result. 0 \<le> result", OF mono(2)]
      last [of "\<lambda>result. 0 < result", OF mono(1)] last [of "\<lambda>result. 0 \<le> result", OF mono(2)]
    by (simp only: c t(2) not_less not_le)
qed

end

section \<open>Neighbours, extremes and enumeration of an ordered set\<close>

lemma avl_holds_split:
  assumes "avl_holds key h T (ys @ e # zs)"
  obtains l b r c where "rep_at h (tree_Root T) (Node l e b r) c" "ys = before c @ inorder l" "zs = inorder r @ after c"
proof -
  obtain t where t: "tree_rep h (tree_Root T) t" "inorder t = ys @ e # zs"
    using assms by (auto simp: avl_holds_def)
  moreover obtain l b r c where "t = plug (Node l e b r) c"
    using split_tree [of e t] t(2) by auto
  ultimately show ?thesis
    using that split_unique [of h "tree_Root T" l e b r c ys zs] by (simp add: tree_rep_plug)
qed

lemma extremes:
  assumes "avl_holds key h T xs"
  shows "PhMinimumElementAvlTree h T = Some (first_or_null xs) \<and> PhMaximumElementAvlTree h T = Some (last_or_null xs)"
proof -
  obtain t where t: "tree_rep h (tree_Root T) t" "inorder t = xs"
    using assms by (auto simp: avl_holds_def)
  then show ?thesis
    using rep_atD(3,4) [OF t(1)] leftmost_hd [of h _ t] rightmost_last [of h _ t] root_zero_iff [of h _ t]
    by (cases t)
      (auto simp: PhMinimumElementAvlTree_def PhMaximumElementAvlTree_def PhRootElementAvlTree_def
        first_or_null_def last_or_null_def split: list.split)
qed

section \<open>Trees ordered by a 64-bit key\<close>

definition uint64cmp :: "ulong64 \<Rightarrow> ulong64 \<Rightarrow> int" where
  "uint64cmp value1 value2 = (if value1 > value2 then 1 else if value1 < value2 then - 1 else 0)"

text \<open>
  The comparison of symbol modules by \<open>BaseAddress\<close> and of mapped views by \<open>Base\<close>; the argument is the
  field of the structure around the links.
\<close>

definition PhpSymbolModuleCompareFunction :: "(ptr \<Rightarrow> ulong64) \<Rightarrow> ptr \<Rightarrow> ptr \<Rightarrow> int" where
  "PhpSymbolModuleCompareFunction BaseAddress Links1 Links2 = uint64cmp (BaseAddress Links1) (BaseAddress Links2)"

definition PhpFilePoolViewByBaseCompareFunction :: "(ptr \<Rightarrow> ulong64) \<Rightarrow> ptr \<Rightarrow> ptr \<Rightarrow> int" where
  "PhpFilePoolViewByBaseCompareFunction Base Links1 Links2 = uint64cmp (Base Links1) (Base Links2)"

interpretation module: element_order "PhpSymbolModuleCompareFunction BaseAddress" BaseAddress
  for BaseAddress :: "ptr \<Rightarrow> ulong64"
  by unfold_locales (auto simp: PhpSymbolModuleCompareFunction_def uint64cmp_def)

interpretation view: element_order "PhpFilePoolViewByBaseCompareFunction Base" Base
  for Base :: "ptr \<Rightarrow> ulong64"
  by unfold_locales (auto simp: PhpFilePoolViewByBaseCompareFunction_def uint64cmp_def)

lemma init_holds:
  "R \<noteq> 0 \<Longrightarrow> case PhInitializeAvlTree h R of (h, T) \<Rightarrow> avl_holds key h T []"
  by (auto simp: PhInitializeAvlTree_def avl_holds_def rep_at_def intro!: exI [of _ Leaf])

text \<open>
  C15. Adding a symbol module, a node that is not in the tree yet, to any tree: if an element has an equal key, it is
  returned and nothing changes; otherwise \<open>NULL\<close> is returned and the tree, still an AVL tree with all its links, has
  the element at its place in the order.
\<close>

theorem PhAddElementAvlTree_correct:
  assumes "avl_holds BaseAddress h T xs" "e \<noteq> 0" "e \<noteq> tree_Root T" "e \<notin> set xs"
  shows "if \<exists>x \<in> set xs. BaseAddress x = BaseAddress e
    then \<exists>x \<in> set xs. BaseAddress x = BaseAddress e
      \<and> PhAddElementAvlTree (PhpSymbolModuleCompareFunction BaseAddress) h T e = Some (x, h, T)
    else \<exists>h' T'. PhAddElementAvlTree (PhpSymbolModuleCompareFunction BaseAddress) h T e = Some (0, h', T')
      \<and> tree_Root T' = tree_Root T
      \<and> avl_holds BaseAddress h' T'
          (filter (\<lambda>x. BaseAddress x < BaseAddress e) xs @ e # filter (\<lambda>x. BaseAddress e < BaseAddress x) xs)"
  by (rule module.add_correct [OF assms])

definition two_elements :: avl_heap where
  "two_elements =
     \<lparr> Parent = (\<lambda>p. if p = 2 then 1 else if p = 3 then 2 else 0), Left = (\<lambda>p. 0),
       Right = (\<lambda>p. if p = 1 then 2 else if p = 2 then 3 else 0), Balance = (\<lambda>p. if p = 2 then 1 else 0) \<rparr>"

lemma two_elements_hold: "avl_holds (\<lambda>p. p) two_elements \<lparr> tree_Root = 1, tree_Count = 2 \<rparr> [2, 3]"
  by (auto simp: avl_holds_def two_elements_def rep_at_def intro!: exI [of _ "Node Leaf 2 1 (Node Leaf 3 0 Leaf)"])

theorem PhAddElementAvlTree_correct_witness:
  "\<exists>h' T'. PhAddElementAvlTree (PhpSymbolModuleCompareFunction (\<lambda>p. p)) two_elements \<lparr> tree_Root = 1, tree_Count = 2 \<rparr> 4
      = Some (0, h', T') \<and> tree_Root T' = 1 \<and> avl_holds (\<lambda>p. p) h' T' [2, 3, 4]"
  using PhAddElementAvlTree_correct [OF two_elements_hold, of 4] by simp

text \<open>
  C16. Removing an element that is in the tree leaves an AVL tree with all its links that has the other elements in the
  same order.
\<close>

theorem PhRemoveElementAvlTree_correct:
  assumes "avl_holds BaseAddress h T xs" "e \<in> set xs"
  shows "\<exists>h' T'. PhRemoveElementAvlTree h T e = Some (h', T') \<and> tree_Root T' = tree_Root T
    \<and> avl_holds (BaseAddress :: ptr \<Rightarrow> ulong64) h' T' (remove1 e xs)"
  by (rule module.remove_correct [OF assms])

theorem PhRemoveElementAvlTree_correct_witness:
  "\<exists>h' T'. PhRemoveElementAvlTree two_elements \<lparr> tree_Root = 1, tree_Count = 2 \<rparr> 2 = Some (h', T')
      \<and> tree_Root T' = 1 \<and> avl_holds (\<lambda>p. p) h' T' [3]"
  using PhRemoveElementAvlTree_correct [OF two_elements_hold, of 2] by simp

text \<open>
  C27. The exact search returns an element with the key if there is one; the four bounds return the first element that is
  not below the key and the first above it, the last below it and the last not above it; all return \<open>NULL\<close> if there
  is no such element.
\<close>

theorem avl_searches_correct:
  assumes "avl_holds Base h T xs"
  shows "(if \<exists>x \<in> set xs. Base x = Base e
      then \<exists>x \<in> set xs. Base x = Base e \<and> PhFindElementAvlTree (PhpFilePoolViewByBaseCompareFunction Base) h T e = Some x
      else PhFindElementAvlTree (PhpFilePoolViewByBaseCompareFunction Base) h T e = Some 0)
    \<and> PhLowerBoundElementAvlTree (PhpFilePoolViewByBaseCompareFunction Base) h T e
        = Some (first_or_null (filter (\<lambda>x. Base e \<le> Base x) xs))
    \<and> PhUpperBoundElementAvlTree (PhpFilePoolViewByBaseCompareFunction Base) h T e
        = Some (first_or_null (filter (\<lambda>x. Base e < Base x) xs))
    \<and> PhLowerDualBoundElementAvlTree (PhpFilePoolViewByBaseCompareFunction Base) h T e
        = Some (last_or_null (filter (\<lambda>x. Base x < Base e) xs))
    \<and> PhUpperDualBoundElementAvlTree (PhpFilePoolViewByBaseCompareFunction Base) h T e
        = Some (last_or_null (filter (\<lambda>x. Base x \<le> Base e) xs))"
  using view.find_correct [OF assms] view.bounds_correct [OF assms] by blast

theorem avl_searches_correct_witness:
  "PhUpperDualBoundElementAvlTree (PhpFilePoolViewByBaseCompareFunction (\<lambda>p. p)) two_elements
     \<lparr> tree_Root = 1, tree_Count = 2 \<rparr> 7 = Some 3"
  using avl_searches_correct [OF two_elements_hold, of 7] by (simp add: last_or_null_def)

text \<open>Neighbours and extremes.\<close>

theorem avl_neighbours_correct:
  assumes "avl_holds (Base :: ptr \<Rightarrow> ulong64) h T (ys @ e # zs)"
  shows "PhSuccessorElementAvlTree h e = Some (first_or_null zs)
    \<and> PhPredecessorElementAvlTree h e = Some (last_or_null ys)
    \<and> PhMinimumElementAvlTree h T = Some (first_or_null (ys @ [e]))
    \<and> PhMaximumElementAvlTree h T = Some (last_or_null (e # zs))"
proof -
  obtain l b r c where at: "rep_at h (tree_Root T) (Node l e b r) c" "ys = before c @ inorder l" "zs = inorder r @ after c"
    using avl_holds_split [OF assms] .
  show ?thesis
    using successor_rep [OF at(1)] predecessor_rep [OF at(1)] extremes [OF assms]
    by (cases ys) (auto simp: at(2,3) [symmetric] first_or_null_def last_or_null_def)
qed

theorem avl_neighbours_correct_witness:
  "PhSuccessorElementAvlTree two_elements 2 = Some 3 \<and> PhPredecessorElementAvlTree two_elements 2 = Some 0"
  using avl_neighbours_correct [of "\<lambda>p. p" two_elements "\<lparr> tree_Root = 1, tree_Count = 2 \<rparr>" "[]" 2 "[3]"] two_elements_hold
  by (simp add: first_or_null_def last_or_null_def)

text \<open>
  C28. With fewer than \<open>2 ^ 32\<close> elements the enumeration stays in its stack of 47 entries and calls back for the elements
  in ascending or descending order, until the callback, which leaves the tree alone, says stop.
\<close>

theorem PhEnumAvlTree_correct:
  assumes "avl_holds (Base :: ptr \<Rightarrow> ulong64) h T xs" "length xs < 2 ^ 32"
  shows "PhEnumAvlTree h T order callback s =
    Some (visit callback (case order of TreeEnumerateInOrder \<Rightarrow> xs | TreeEnumerateInReverseOrder \<Rightarrow> rev xs) s)"
proof -
  obtain t where t: "tree_rep h (tree_Root T) t" "avl t" "inorder t = xs"
    using assms(1) by (auto simp: avl_holds_def)
  have "height t \<le> stack_size"
    using avl_height_bound [OF t(2)] assms(2) t(3) by (simp add: stack_size_def)
  then show ?thesis
    unfolding t(3) [symmetric] by (rule enum_rep [OF t(1)])
qed

theorem PhEnumAvlTree_correct_witness:
  "PhEnumAvlTree two_elements \<lparr> tree_Root = 1, tree_Count = 2 \<rparr> TreeEnumerateInReverseOrder (\<lambda>s p. (True, s @ [p])) []
     = Some [3, 2]"
  using PhEnumAvlTree_correct [OF two_elements_hold,
      where order = TreeEnumerateInReverseOrder and callback = "\<lambda>s p. (True, s @ [p])" and s = "[]"] by simp

section \<open>Histories of a tree\<close>

datatype tree_op = AddElement ptr | RemoveElement ptr

fun apply_tree_op :: "(ptr \<Rightarrow> ulong64) \<Rightarrow> avl_heap \<times> PH_AVL_TREE \<Rightarrow> tree_op \<Rightarrow> (avl_heap \<times> PH_AVL_TREE) option" where
  "apply_tree_op Base (h, T) (AddElement e) =
     Option.bind (PhAddElementAvlTree (PhpFilePoolViewByBaseCompareFunction Base) h T e) (\<lambda>(_, h, T). Some (h, T))"
| "apply_tree_op Base (h, T) (RemoveElement e) = PhRemoveElementAvlTree h T e"

fun run_tree_ops :: "(ptr \<Rightarrow> ulong64) \<Rightarrow> avl_heap \<times> PH_AVL_TREE \<Rightarrow> tree_op list \<Rightarrow> (avl_heap \<times> PH_AVL_TREE) option" where
  "run_tree_ops Base s [] = Some s"
| "run_tree_ops Base s (a # ops) = Option.bind (apply_tree_op Base s a) (\<lambda>s. run_tree_ops Base s ops)"

text \<open>The same on the sorted list of the elements, and what a caller has to obey.\<close>

fun spec_tree_op :: "(ptr \<Rightarrow> ulong64) \<Rightarrow> ptr list \<Rightarrow> tree_op \<Rightarrow> ptr list" where
  "spec_tree_op Base xs (AddElement e) =
     (if \<exists>x \<in> set xs. Base x = Base e then xs
      else filter (\<lambda>x. Base x < Base e) xs @ e # filter (\<lambda>x. Base e < Base x) xs)"
| "spec_tree_op Base xs (RemoveElement e) = remove1 e xs"

fun legal_tree_ops :: "(ptr \<Rightarrow> ulong64) \<Rightarrow> ptr \<Rightarrow> ptr list \<Rightarrow> tree_op list \<Rightarrow> bool" where
  "legal_tree_ops Base R xs [] = True"
| "legal_tree_ops Base R xs (a # ops) \<longleftrightarrow>
     (case a of AddElement e \<Rightarrow> e \<noteq> 0 \<and> e \<noteq> R \<and> e \<notin> set xs | RemoveElement e \<Rightarrow> e \<in> set xs)
     \<and> legal_tree_ops Base R (spec_tree_op Base xs a) ops"

lemma apply_tree_op_correct:
  assumes "avl_holds Base h T xs" "legal_tree_ops Base (tree_Root T) xs [a]"
  shows "\<exists>h' T'. apply_tree_op Base (h, T) a = Some (h', T') \<and> tree_Root T' = tree_Root T
    \<and> avl_holds Base h' T' (spec_tree_op Base xs a)"
proof (cases a)
  case (AddElement e)
  then show ?thesis
    using view.add_correct [OF assms(1), of e] assms by (auto split: if_splits)
next
  case (RemoveElement e)
  then show ?thesis
    using view.remove_correct [OF assms(1), of e] assms by auto
qed

lemma run_tree_ops_correct:
  "avl_holds Base h T xs \<Longrightarrow> legal_tree_ops Base (tree_Root T) xs ops \<Longrightarrow>
     \<exists>h' T'. run_tree_ops Base (h, T) ops = Some (h', T') \<and> tree_Root T' = tree_Root T
       \<and> avl_holds Base h' T' (foldl (spec_tree_op Base) xs ops)"
proof (induction ops arbitrary: h T xs)
  case Nil
  then show ?case by simp
next
  case (Cons a ops)
  obtain h1 T1 where 1: "apply_tree_op Base (h, T) a = Some (h1, T1)" "tree_Root T1 = tree_Root T"
      "avl_holds Base h1 T1 (spec_tree_op Base xs a)"
    using apply_tree_op_correct [OF Cons.prems(1), of a] Cons.prems(2) by auto
  then show ?case
    using Cons.IH [OF 1(3)] Cons.prems(2) by simp
qed

text \<open>
  C4. From \<open>PhInitializeAvlTree\<close> on, any sequence of additions of nodes that are not \<open>NULL\<close>, not the root field of
  the tree and not in the tree, and of removals of nodes that are in it, terminates and leaves a search tree with
  consistent links, parent pointers and balance factors whose in-order sequence is what the same operations leave in
  a sorted list without equal keys, and whose count is its length modulo \<open>2 ^ 32\<close>.
\<close>

theorem avl_tree_history:
  assumes "R \<noteq> 0" "legal_tree_ops Base R [] ops"
  shows "\<exists>h' T'. run_tree_ops Base (PhInitializeAvlTree h R) ops = Some (h', T')
    \<and> avl_holds Base h' T' (foldl (spec_tree_op Base) [] ops)"
proof -
  obtain h0 T0 where i: "PhInitializeAvlTree h R = (h0, T0)"
    by fastforce
  then have "avl_holds Base h0 T0 []" "tree_Root T0 = R"
    using init_holds [OF assms(1), where h = h and key = Base] by (auto simp: PhInitializeAvlTree_def)
  then show ?thesis
    using run_tree_ops_correct [of Base h0 T0 "[]" ops] assms(2) i by auto
qed

theorem avl_tree_history_witness:
  "\<exists>h' T'. run_tree_ops (\<lambda>p. p) (PhInitializeAvlTree two_elements 1) [AddElement 5, AddElement 3, AddElement 9, RemoveElement 5]
      = Some (h', T') \<and> avl_holds (\<lambda>p. p) h' T' [3, 9]"
  using avl_tree_history [where R = 1 and Base = "\<lambda>p. p" and h = two_elements and
      ops = "[AddElement 5, AddElement 3, AddElement 9, RemoveElement 5]"] by simp

end
