(* ===== verification/PhRundown.thy ===== *)
theory PhRundown
  imports PhPrelude
begin

text \<open>
  Rundown protection, from \<open>src/phlib/sync.c\<close> and the inline functions of \<open>phbasesup.h\<close>, as a system of
  threads that interleave at every access to shared memory. A thread is a number below \<open>N\<close>; each thread
  acquires and releases one reference at a time, so that a thread of the program that holds several is
  several of the model. The threads of \<open>W\<close> may wait for the rundown; the wait block of a thread \<open>t\<close>, on its
  stack, has the address \<open>blk t\<close>. The event of a wait block is taken as one bit here.
\<close>

section \<open>State\<close>

abbreviation PH_RUNDOWN_ACTIVE :: ulong64 where
  "PH_RUNDOWN_ACTIVE \<equiv> 1"

abbreviation PH_RUNDOWN_REF_INC :: ulong64 where
  "PH_RUNDOWN_REF_INC \<equiv> 2"

text \<open>
  The next action of a thread, with the value it has read. \<open>Acq\<close> and \<open>Rel\<close> are inside
  \<open>PhAcquireRundownProtection\<close> and \<open>PhReleaseRundownProtection\<close>, \<open>Wait\<close> inside \<open>PhWaitForRundownProtection\<close>;
  a thread that is \<open>Holding\<close> has acquired the protection.
\<close>

datatype rd_pc =
    Idle
  | AcqFast ulong64 | AcqSlow | AcqCas ulong64
  | Holding
  | RelFast ulong64 | RelSlow | RelCas ulong64 | RelDec ulong64 | RelSet ulong64
  | WaitFast | WaitLoop | WaitCas ulong64 | WaitEvent
  | WaitDone

record rd_state =
  rd_Value :: ulong64
  wb_Count :: "ulong64 \<Rightarrow> ulong64"
  wb_Set :: "ulong64 \<Rightarrow> bool"
  pc :: "nat \<Rightarrow> rd_pc"

abbreviation goto :: "rd_state \<Rightarrow> nat \<Rightarrow> rd_pc \<Rightarrow> rd_state" where
  "goto s t p \<equiv> s\<lparr>pc := (pc s)(t := p)\<rparr>"

definition PhInitializeRundownProtection :: "rd_state \<Rightarrow> rd_state" where
  "PhInitializeRundownProtection s = s\<lparr>rd_Value := 0\<rparr>"

section \<open>Steps\<close>

text \<open>\<open>_InterlockedCompareExchangePointer\<close> on the value: continue at \<open>yes\<close> if it was \<open>old\<close>, at \<open>no\<close> otherwise.\<close>

definition cas :: "rd_state \<Rightarrow> nat \<Rightarrow> ulong64 \<Rightarrow> ulong64 \<Rightarrow> rd_pc \<Rightarrow> rd_pc \<Rightarrow> rd_state" where
  "cas s t old new yes no = (if rd_Value s = old then goto (s\<lparr>rd_Value := new\<rparr>) t yes else goto s t no)"

text \<open>The first action of the three calls.\<close>

definition PhAcquireRundownProtection :: "rd_state \<Rightarrow> nat \<Rightarrow> rd_state" where
  "PhAcquireRundownProtection s t = goto s t (AcqFast (rd_Value s AND NOT PH_RUNDOWN_ACTIVE))"

definition PhReleaseRundownProtection :: "rd_state \<Rightarrow> nat \<Rightarrow> rd_state" where
  "PhReleaseRundownProtection s t = goto s t (RelFast (rd_Value s AND NOT PH_RUNDOWN_ACTIVE))"

text \<open>\<open>PhWaitForRundownProtection\<close> and the fast path of \<open>PhfWaitForRundownProtection\<close> are the same exchange.\<close>

definition wait_fast :: "rd_state \<Rightarrow> nat \<Rightarrow> rd_pc \<Rightarrow> rd_state" where
  "wait_fast s t slow =
     cas s t 0 PH_RUNDOWN_ACTIVE WaitDone (if rd_Value s = PH_RUNDOWN_ACTIVE then WaitDone else slow)"

definition PhWaitForRundownProtection :: "rd_state \<Rightarrow> nat \<Rightarrow> rd_state" where
  "PhWaitForRundownProtection s t = wait_fast s t WaitFast"

text \<open>The next action of a thread inside a call; \<open>None\<close> if it is outside, or blocked.\<close>

definition PhfAcquireRundownProtection :: "rd_state \<Rightarrow> nat \<Rightarrow> rd_state option" where
  "PhfAcquireRundownProtection s t =
     (case pc s t of
        AcqSlow \<Rightarrow>
          let value = rd_Value s
          in Some (goto s t (if value AND PH_RUNDOWN_ACTIVE \<noteq> 0 then Idle else AcqCas value))
      | AcqCas value \<Rightarrow> Some (cas s t value (value + PH_RUNDOWN_REF_INC) Holding AcqSlow)
      | _ \<Rightarrow> None)"

definition PhfReleaseRundownProtection :: "rd_state \<Rightarrow> nat \<Rightarrow> rd_state option" where
  "PhfReleaseRundownProtection s t =
     (case pc s t of
        RelSlow \<Rightarrow>
          let value = rd_Value s
          in Some (goto s t (if value AND PH_RUNDOWN_ACTIVE \<noteq> 0 then RelDec (value AND NOT PH_RUNDOWN_ACTIVE)
                             else RelCas value))
      | RelDec waitBlock \<Rightarrow>
          let count = wb_Count s waitBlock - 1
          in Some (goto (s\<lparr>wb_Count := (wb_Count s)(waitBlock := count)\<rparr>) t
                     (if count = 0 then RelSet waitBlock else Idle))
      | RelSet waitBlock \<Rightarrow> Some (goto (s\<lparr>wb_Set := (wb_Set s)(waitBlock := True)\<rparr>) t Idle)
      | RelCas value \<Rightarrow> Some (cas s t value (value - PH_RUNDOWN_REF_INC) Idle RelSlow)
      | _ \<Rightarrow> None)"

text \<open>
  The wait block is written before its address is published. Its event is initialised whenever the count
  is not zero, and it stays unset as long as the block is private, so that doing it once is the same.
\<close>

definition PhfWaitForRundownProtection :: "(nat \<Rightarrow> ulong64) \<Rightarrow> rd_state \<Rightarrow> nat \<Rightarrow> rd_state option" where
  "PhfWaitForRundownProtection blk s t =
     (case pc s t of
        WaitFast \<Rightarrow> Some (wait_fast s t WaitLoop)
      | WaitLoop \<Rightarrow>
          let value = rd_Value s;
              count = drop_bit 1 value
          in Some (goto (s\<lparr>wb_Count := (wb_Count s)(blk t := count),
                           wb_Set := (if count \<noteq> 0 then (wb_Set s)(blk t := False) else wb_Set s)\<rparr>) t (WaitCas value))
      | WaitCas value \<Rightarrow>
          Some (cas s t value (blk t OR PH_RUNDOWN_ACTIVE)
                  (if wb_Count s (blk t) \<noteq> 0 then WaitEvent else WaitDone) WaitLoop)
      | WaitEvent \<Rightarrow> if wb_Set s (blk t) then Some (goto s t WaitDone) else None
      | _ \<Rightarrow> None)"

definition rd_next :: "(nat \<Rightarrow> ulong64) \<Rightarrow> rd_state \<Rightarrow> nat \<Rightarrow> rd_state option" where
  "rd_next blk s t =
     (case pc s t of
        Idle \<Rightarrow> None
      | Holding \<Rightarrow> None
      | WaitDone \<Rightarrow> None
      | AcqFast value \<Rightarrow> Some (cas s t value (value + PH_RUNDOWN_REF_INC) Holding AcqSlow)
      | RelFast value \<Rightarrow> Some (cas s t value (value - PH_RUNDOWN_REF_INC) Idle RelSlow)
      | AcqSlow \<Rightarrow> PhfAcquireRundownProtection s t
      | AcqCas _ \<Rightarrow> PhfAcquireRundownProtection s t
      | RelSlow \<Rightarrow> PhfReleaseRundownProtection s t
      | RelCas _ \<Rightarrow> PhfReleaseRundownProtection s t
      | RelDec _ \<Rightarrow> PhfReleaseRundownProtection s t
      | RelSet _ \<Rightarrow> PhfReleaseRundownProtection s t
      | _ \<Rightarrow> PhfWaitForRundownProtection blk s t)"

inductive rd_step :: "(nat \<Rightarrow> ulong64) \<Rightarrow> nat \<Rightarrow> nat set \<Rightarrow> rd_state \<Rightarrow> rd_state \<Rightarrow> bool"
  for blk :: "nat \<Rightarrow> ulong64" and N :: nat and W :: "nat set" where
  acquire: "t < N \<Longrightarrow> pc s t = Idle \<Longrightarrow> rd_step blk N W s (PhAcquireRundownProtection s t)"
| release: "t < N \<Longrightarrow> pc s t = Holding \<Longrightarrow> rd_step blk N W s (PhReleaseRundownProtection s t)"
| wait: "t < N \<Longrightarrow> t \<in> W \<Longrightarrow> pc s t = Idle \<Longrightarrow> rd_step blk N W s (PhWaitForRundownProtection s t)"
| run: "t < N \<Longrightarrow> rd_next blk s t = Some s' \<Longrightarrow> rd_step blk N W s s'"

abbreviation rd_steps :: "(nat \<Rightarrow> ulong64) \<Rightarrow> nat \<Rightarrow> nat set \<Rightarrow> rd_state \<Rightarrow> rd_state \<Rightarrow> bool" where
  "rd_steps blk N W \<equiv> (rd_step blk N W)\<^sup>*\<^sup>*"

definition rd_start :: "rd_state \<Rightarrow> bool" where
  "rd_start s \<longleftrightarrow> rd_Value s = 0 \<and> (\<forall>t. pc s t = Idle)"

section \<open>Bits of the value\<close>

lemma even_and_not_one [simp]: "even (x AND - (2 :: ulong64))"
  by (simp add: even_and_iff)

lemma odd_and_one: "x AND (1 :: ulong64) \<noteq> 0 \<longleftrightarrow> odd x"
  by (simp add: and_one_eq odd_iff_mod_2_eq_one)

lemma or_one_and_not_one:
  assumes "even (b :: ulong64)"
  shows "(b OR 1) AND - 2 = b"
proof -
  have "(b OR 1) AND NOT 1 = b"
    using assms by (intro bit_word_eqI) (auto simp: bit_simps bit_0)
  then show ?thesis by simp
qed

lemma drop_bit_double: "n < 2 ^ 62 \<Longrightarrow> drop_bit 1 (2 * of_nat n :: ulong64) = of_nat n"
  by (simp add: word_unat_eq_iff unat_drop_bit_eq unat_word_ariths unat_of_nat drop_bit_eq_div)

lemma double_neq_one [simp]: "2 * x \<noteq> (1 :: ulong64)"
  by (metis dvd_triv_left odd_one)

lemma double_of_nat_inj: "m < 2 ^ 62 \<Longrightarrow> n < 2 ^ 62 \<Longrightarrow> 2 * of_nat m = (2 * of_nat n :: ulong64) \<longleftrightarrow> m = n"
proof
  assume "m < 2 ^ 62" "n < 2 ^ 62" "2 * of_nat m = (2 * of_nat n :: ulong64)"
  then have "unat (of_nat m :: ulong64) = unat (of_nat n :: ulong64)"
    using drop_bit_double [of m] drop_bit_double [of n] by simp
  with \<open>m < 2 ^ 62\<close> \<open>n < 2 ^ 62\<close> show "m = n"
    by (simp add: unat_of_nat)
qed simp

section \<open>Invariant\<close>

fun owns :: "rd_pc \<Rightarrow> bool" where
  "owns Holding = True"
| "owns (RelFast _) = True"
| "owns RelSlow = True"
| "owns (RelCas _) = True"
| "owns (RelDec _) = True"
| "owns _ = False"

fun waits :: "rd_pc \<Rightarrow> bool" where
  "waits WaitFast = True"
| "waits WaitLoop = True"
| "waits (WaitCas _) = True"
| "waits WaitEvent = True"
| "waits WaitDone = True"
| "waits _ = False"

text \<open>Values read are even unless the rundown had started, and a block found is the one of the waiter.\<close>

fun local_ok :: "ulong64 \<Rightarrow> rd_pc \<Rightarrow> bool" where
  "local_ok b (AcqFast v) = even v"
| "local_ok b (AcqCas v) = even v"
| "local_ok b (RelFast v) = even v"
| "local_ok b (RelCas v) = even v"
| "local_ok b (WaitCas v) = even v"
| "local_ok b (RelDec x) = (x = b)"
| "local_ok b (RelSet x) = (x = b)"
| "local_ok b _ = True"

fun leaving :: "rd_pc \<Rightarrow> bool" where
  "leaving (RelDec _) = True"
| "leaving (RelSet _) = True"
| "leaving _ = False"

definition owners :: "rd_state \<Rightarrow> nat" where
  "owners s = card {t. owns (pc s t)}"

definition others :: "rd_state \<Rightarrow> nat \<Rightarrow> nat" where
  "others s t = card ({u. owns (pc s u)} - {t})"

definition threads_ok :: "(nat \<Rightarrow> ulong64) \<Rightarrow> nat \<Rightarrow> nat \<Rightarrow> rd_state \<Rightarrow> bool" where
  "threads_ok blk N w s \<longleftrightarrow>
     (\<forall>t. (N \<le> t \<longrightarrow> pc s t = Idle) \<and> (waits (pc s t) \<longrightarrow> t = w) \<and> local_ok (blk w) (pc s t))"

definition rd_open :: "(nat \<Rightarrow> ulong64) \<Rightarrow> nat \<Rightarrow> rd_state \<Rightarrow> bool" where
  "rd_open blk w s \<longleftrightarrow>
     rd_Value s = 2 * of_nat (owners s) \<and> (\<forall>t. \<not> leaving (pc s t)) \<and> pc s w \<noteq> WaitEvent \<and> pc s w \<noteq> WaitDone
     \<and> (\<forall>v. pc s w = WaitCas v \<longrightarrow>
           wb_Count s (blk w) = drop_bit 1 v \<and> (drop_bit 1 v \<noteq> 0 \<longrightarrow> \<not> wb_Set s (blk w)))"

definition rd_closed :: "nat \<Rightarrow> rd_state \<Rightarrow> bool" where
  "rd_closed w s \<longleftrightarrow> rd_Value s = PH_RUNDOWN_ACTIVE \<and> owners s = 0 \<and> (\<forall>t. \<not> leaving (pc s t)) \<and> pc s w = WaitDone"

definition rd_draining :: "(nat \<Rightarrow> ulong64) \<Rightarrow> nat \<Rightarrow> rd_state \<Rightarrow> bool" where
  "rd_draining blk w s \<longleftrightarrow>
     rd_Value s = (blk w OR PH_RUNDOWN_ACTIVE) \<and> wb_Count s (blk w) = of_nat (owners s)
     \<and> ((\<exists>t. pc s t = RelSet (blk w)) \<longrightarrow> owners s = 0)
     \<and> (pc s w = WaitDone \<and> owners s = 0
        \<or> pc s w = WaitEvent \<and> (wb_Set s (blk w) \<longrightarrow> owners s = 0)
          \<and> (owners s = 0 \<longrightarrow> wb_Set s (blk w) \<or> (\<exists>t. pc s t = RelSet (blk w))))"

definition rd_inv :: "(nat \<Rightarrow> ulong64) \<Rightarrow> nat \<Rightarrow> nat \<Rightarrow> rd_state \<Rightarrow> bool" where
  "rd_inv blk N w s \<longleftrightarrow> threads_ok blk N w s \<and> (rd_open blk w s \<or> rd_closed w s \<or> rd_draining blk w s)"

lemma finite_owners: "threads_ok blk N w s \<Longrightarrow> {t. owns (pc s t)} \<subseteq> {..<N}"
proof
  fix t
  assume "threads_ok blk N w s" "t \<in> {t. owns (pc s t)}"
  then show "t \<in> {..<N}"
    by (cases "N \<le> t") (auto simp: threads_ok_def)
qed

lemma finite_owners': "threads_ok blk N w s \<Longrightarrow> finite {t. owns (pc s t)}"
  by (rule finite_subset [OF finite_owners finite_lessThan])

lemma owners_split:
  assumes "threads_ok blk N w s"
  shows "owners s = others s t + of_bool (owns (pc s t))"
proof (cases "owns (pc s t)")
  case True
  then show ?thesis
    using card.remove [OF finite_owners' [OF assms], of t] by (simp add: owners_def others_def)
next
  case False
  then have "{u. owns (pc s u)} - {t} = {u. owns (pc s u)}"
    by auto
  with False show ?thesis by (simp add: owners_def others_def)
qed

lemma others_upd: "others (s\<lparr>pc := (pc s)(t := p)\<rparr>) t = others s t"
  "others (s\<lparr>rd_Value := v\<rparr>) t = others s t" 
  "others (s\<lparr>wb_Count := c\<rparr>) t = others s t" "others (s\<lparr>wb_Set := e\<rparr>) t = others s t"
  by (auto simp: others_def intro!: arg_cong [of _ _ card])

lemma owners_le: "threads_ok blk N w s \<Longrightarrow> owners s \<le> N"
  using card_mono [OF finite_lessThan finite_owners] by (simp add: owners_def)


section \<open>Preservation\<close>

lemma threads_ok_goto:
  assumes "threads_ok blk N w s" "t < N" "waits p \<longrightarrow> t = w" "local_ok (blk w) p"
  shows "threads_ok blk N w (s\<lparr>pc := (pc s)(t := p)\<rparr>)"
  using assms by (auto simp: threads_ok_def)

lemma threads_ok_data [simp]:
  "threads_ok blk N w (s\<lparr>rd_Value := v\<rparr>) = threads_ok blk N w s"
  "threads_ok blk N w (s\<lparr>wb_Count := c\<rparr>) = threads_ok blk N w s"
  "threads_ok blk N w (s\<lparr>wb_Set := e\<rparr>) = threads_ok blk N w s"
  by (simp_all add: threads_ok_def)

lemma cas_threads_ok:
  assumes "threads_ok blk N w s" "t < N" "waits yes \<longrightarrow> t = w" "local_ok (blk w) yes" "waits no \<longrightarrow> t = w" "local_ok (blk w) no"
  shows "threads_ok blk N w (cas s t old new yes no)"
  using assms by (auto simp: cas_def threads_ok_def)

lemma threads_ok_step:
  assumes "threads_ok blk N w s" "rd_step blk N {w} s s'" "even (blk w)"
    "odd (rd_Value s) \<longrightarrow> rd_Value s = 1 \<and> owners s = 0 \<or> rd_Value s = blk w OR 1"
    "\<forall>v. pc s w = WaitLoop \<longrightarrow> even (rd_Value s)"
  shows "threads_ok blk N w s'"
  using assms(2)
proof cases
  case (acquire t)
  then show ?thesis
    using assms(1) by (auto simp: PhAcquireRundownProtection_def intro!: threads_ok_goto simp: even_and_not_one)
next
  case (release t)
  then show ?thesis
    using assms(1) by (auto simp: PhReleaseRundownProtection_def intro!: threads_ok_goto simp: even_and_not_one)
next
  case (wait t)
  then show ?thesis
    using assms(1) by (auto simp: PhWaitForRundownProtection_def wait_fast_def intro!: cas_threads_ok)
next
  case (run t)
  have ok: "waits (pc s t) \<longrightarrow> t = w" "local_ok (blk w) (pc s t)"
    using assms(1) by (auto simp: threads_ok_def)
  have rel: "pc s t = RelSlow \<Longrightarrow> odd (rd_Value s) \<Longrightarrow> rd_Value s AND - 2 = blk w"
    using assms(3,4) owners_split [OF assms(1), of t] or_one_and_not_one by auto
  show ?thesis
    using run ok assms(1,3,5) rel
    by (cases "pc s t")
      (auto simp: rd_next_def PhfAcquireRundownProtection_def PhfReleaseRundownProtection_def
        PhfWaitForRundownProtection_def wait_fast_def odd_and_one Let_def threads_ok_def cas_def split: if_splits)
qed


lemma owners_step:
  assumes "threads_ok blk N w s" "threads_ok blk N w s'" "\<And>u. u \<noteq> t \<Longrightarrow> pc s' u = pc s u"
  shows "owners s' + of_bool (owns (pc s t)) = owners s + of_bool (owns (pc s' t))"
proof -
  have "{u. owns (pc s' u)} - {t} = {u. owns (pc s u)} - {t}"
    using assms(3) by auto
  then have "others s' t = others s t"
    by (simp add: others_def)
  then show ?thesis
    using owners_split [OF assms(1), of t] owners_split [OF assms(2), of t] by simp
qed

lemma owners_step_word:
  assumes "threads_ok blk N w s" "threads_ok blk N w s'" "\<And>u. u \<noteq> t \<Longrightarrow> pc s' u = pc s u"
  shows "(of_nat (owners s') :: ulong64) = of_nat (owners s) + of_bool (owns (pc s' t)) - of_bool (owns (pc s t))"
proof -
  have "owners s' + of_bool (owns (pc s t)) = owners s + of_bool (owns (pc s' t))"
    by (rule owners_step [OF assms])
  then show ?thesis
    by (metis (no_types, opaque_lifting) add_diff_cancel_right' of_nat_add of_nat_of_bool)
qed

text \<open>An action that moves a thread and changes neither memory nor what the thread owns keeps each phase.\<close>

lemma phase_goto:
  assumes "threads_ok blk N w s" "threads_ok blk N w (goto s t p)" "owns p = owns (pc s t)"
    "\<not> waits (pc s t)" "\<not> waits p" "\<not> leaving (pc s t)"
  shows "rd_open blk w s \<Longrightarrow> \<not> leaving p \<Longrightarrow> rd_open blk w (goto s t p)"
    and "rd_closed w s \<Longrightarrow> \<not> leaving p \<Longrightarrow> rd_closed w (goto s t p)"
    and "rd_draining blk w s \<Longrightarrow> p \<noteq> RelSet (blk w) \<Longrightarrow> rd_draining blk w (goto s t p)"
proof -
  have o: "owners (goto s t p) = owners s"
    using owners_step [OF assms(1,2), of t] assms(3) by simp
  show "rd_open blk w s \<Longrightarrow> \<not> leaving p \<Longrightarrow> rd_open blk w (goto s t p)"
    using o assms(5) by (auto simp: rd_open_def)
  show "rd_closed w s \<Longrightarrow> \<not> leaving p \<Longrightarrow> rd_closed w (goto s t p)"
    using o assms(4) by (auto simp: rd_closed_def)
  have r: "p \<noteq> RelSet (blk w) \<Longrightarrow> (\<exists>u. pc (goto s t p) u = RelSet (blk w)) \<longleftrightarrow> (\<exists>u. pc s u = RelSet (blk w))"
    using assms(6) by (metis fun_upd_apply leaving.simps(2) rd_state.select_convs(4) rd_state.surjective rd_state.update_convs(4))
  show "rd_draining blk w (goto s t p)" if "rd_draining blk w s" "p \<noteq> RelSet (blk w)"
  proof -
    have "t \<noteq> w"
      using that(1) assms(4) by (auto simp: rd_draining_def)
    then show ?thesis
      using that(1) unfolding rd_draining_def o r [OF that(2)] by simp
  qed
qed

lemmas rd_next_defs = rd_next_def PhfAcquireRundownProtection_def PhfReleaseRundownProtection_def
  PhfWaitForRundownProtection_def wait_fast_def cas_def Let_def odd_and_one

text \<open>A thread changes only its own program counter.\<close>

lemma step_thread:
  assumes "rd_step blk N W s s'"
  obtains t where "t < N" "\<And>u. u \<noteq> t \<Longrightarrow> pc s' u = pc s u"
  using assms
proof cases
  case (run t)
  then show ?thesis
    using that [of t] by (cases "pc s t") (auto simp: rd_next_defs split: if_splits)
qed (use that in \<open>auto simp: PhAcquireRundownProtection_def PhReleaseRundownProtection_def
  PhWaitForRundownProtection_def wait_fast_def cas_def\<close>)

lemma open_run:
  assumes "threads_ok blk N w s" "threads_ok blk N w s'" "rd_open blk w s" "t < N" "rd_next blk s t = Some s'"
    "N < 2 ^ 62" "even (blk w)"
  shows "rd_open blk w s' \<or> rd_closed w s' \<or> rd_draining blk w s'"
proof -
  note o = assms(3) [unfolded rd_open_def]
  have le: "owners s < 2 ^ 62"
    using owners_le [OF assms(1)] assms(6) by simp
  have z: "(2 * of_nat (owners s) :: ulong64) = 0 \<longleftrightarrow> owners s = 0" "(of_nat (owners s) :: ulong64) = 0 \<longleftrightarrow> owners s = 0"
    using double_of_nat_inj [OF le, of 0] le by (auto simp: word_of_nat_eq_0_iff dvd_def)
  have own: "owners s' + of_bool (owns (pc s t)) = owners s + of_bool (owns (pc s' t))" if "\<And>u. u \<noteq> t \<Longrightarrow> pc s' u = pc s u"
    by (rule owners_step [OF assms(1,2) that])
  have ownw: "(of_nat (owners s') :: ulong64) = of_nat (owners s) + of_bool (owns (pc s' t)) - of_bool (owns (pc s t))"
    if "\<And>u. u \<noteq> t \<Longrightarrow> pc s' u = pc s u"
    by (rule owners_step_word [OF assms(1,2) that])
  have w: "waits (pc s t) \<Longrightarrow> t = w" "\<not> leaving (pc s t)"
    using assms(1) o by (auto simp: threads_ok_def)
  show ?thesis
  proof (cases "pc s t")
    case (AcqFast v)
    then show ?thesis
      using assms(5) ownw o by (auto simp: rd_next_defs rd_open_def split: if_splits)
  next
    case AcqSlow
    then show ?thesis
      using assms(5) own o by (auto simp: rd_next_defs rd_open_def split: if_splits)
  next
    case (AcqCas v)
    then show ?thesis
      using assms(5) ownw o by (auto simp: rd_next_defs rd_open_def split: if_splits)
  next
    case (RelFast v)
    then show ?thesis
      using assms(5) ownw o by (auto simp: rd_next_defs rd_open_def split: if_splits)
  next
    case RelSlow
    then show ?thesis
      using assms(5) own o by (auto simp: rd_next_defs rd_open_def split: if_splits)
  next
    case (RelCas v)
    then show ?thesis
      using assms(5) ownw o by (auto simp: rd_next_defs rd_open_def split: if_splits)
  next
    case WaitFast
    then show ?thesis
      using assms(5) own o w z by (auto simp: rd_next_defs rd_open_def rd_closed_def split: if_splits)
  next
    case WaitLoop
    then show ?thesis
      using assms(5) own o w by (auto simp: rd_next_defs rd_open_def split: if_splits)
  next
    case (WaitCas v)
    have tw: "t = w"
      using w(1) WaitCas by simp
    have c: "wb_Count s (blk w) = drop_bit 1 v" "drop_bit 1 v \<noteq> 0 \<longrightarrow> \<not> wb_Set s (blk w)"
      using o WaitCas tw by auto
    show ?thesis
    proof (cases "rd_Value s = v")
      case True
      have count: "wb_Count s (blk w) = of_nat (owners s)"
        using c(1) True o drop_bit_double [OF le] by metis
      have s': "s' = goto (s\<lparr>rd_Value := blk w OR 1\<rparr>) w (if owners s \<noteq> 0 then WaitEvent else WaitDone)"
        using assms(5) WaitCas tw True z(2) count by (simp add: rd_next_defs)
      then have "owners s' = owners s"
        using own WaitCas tw by (simp split: if_splits)
      moreover have "owners s \<noteq> 0 \<longrightarrow> \<not> wb_Set s (blk w)"
        using c count z(2) by auto
      moreover have "pc s u \<noteq> RelSet (blk w)" for u
        using o by (metis leaving.simps(2))
      ultimately have "rd_draining blk w s'"
        unfolding rd_draining_def using s' count by (cases "owners s = 0") simp_all
      then show ?thesis by simp
    next
      case False
      then have "s' = goto s w WaitLoop"
        using assms(5) WaitCas tw by (simp add: rd_next_defs)
      then show ?thesis
        using own WaitCas tw o by (simp add: rd_open_def)
    qed
  qed (use w assms(5) o in \<open>auto simp: rd_next_defs\<close>)
qed


lemma closed_run:
  assumes "threads_ok blk N w s" "rd_closed w s" "rd_next blk s t = Some s'"
    "threads_ok blk N w s'"
  shows "rd_closed w s'"
proof -
  have own: "owners s' + of_bool (owns (pc s t)) = owners s + of_bool (owns (pc s' t))" if "\<And>u. u \<noteq> t \<Longrightarrow> pc s' u = pc s u"
    by (rule owners_step [OF assms(1,4) that])
  have no: "\<not> owns (pc s t)" "\<not> leaving (pc s t)" "waits (pc s t) \<Longrightarrow> t = w" "local_ok (blk w) (pc s t)"
    using assms(1,2) owners_split [OF assms(1), of t] by (auto simp: rd_closed_def threads_ok_def)
  then show ?thesis
    using assms(2,3) own by (cases "pc s t") (auto simp: rd_next_defs rd_closed_def split: if_splits)
qed

lemma draining_run:
  assumes "threads_ok blk N w s" "rd_draining blk w s" "rd_next blk s t = Some s'"
    "threads_ok blk N w s'" "even (blk w)" "N < 2 ^ 62"
  shows "rd_draining blk w s'"
proof -
  note d = assms(2) [unfolded rd_draining_def]
  have le: "owners s < 2 ^ 62" "owners s' < 2 ^ 62"
    using owners_le [OF assms(1)] owners_le [OF assms(4)] assms(6) by simp_all
  have z: "(of_nat (owners s) :: ulong64) = 1 \<longleftrightarrow> owners s = 1"
  proof -
    have "unat (of_nat (owners s) :: ulong64) = owners s"
      using le(1) by (simp add: unat_of_nat)
    then show ?thesis by (metis of_nat_1 unat_1)
  qed
  have own: "owners s' + of_bool (owns (pc s t)) = owners s + of_bool (owns (pc s' t))" if "\<And>u. u \<noteq> t \<Longrightarrow> pc s' u = pc s u"
    by (rule owners_step [OF assms(1,4) that])
  have ownw: "(of_nat (owners s') :: ulong64) = of_nat (owners s) + of_bool (owns (pc s' t)) - of_bool (owns (pc s t))"
    if "\<And>u. u \<noteq> t \<Longrightarrow> pc s' u = pc s u"
    by (rule owners_step_word [OF assms(1,4) that])
  have no: "waits (pc s t) \<Longrightarrow> t = w" "local_ok (blk w) (pc s t)"
    using assms(1) by (auto simp: threads_ok_def)
  have odd: "odd (rd_Value s)"
    using d assms(5) by (simp add: even_or_iff)
  have rs: "pc s u = RelSet (blk w) \<Longrightarrow> pc s v = RelDec x \<Longrightarrow> False" for u v x
    using d owners_split [OF assms(1), of v] by auto
  have keep: "rd_draining blk w s'"
    if "s' = goto s t p" "owns p = owns (pc s t)" "\<not> waits (pc s t)" "\<not> waits p" "\<not> leaving (pc s t)" "p \<noteq> RelSet (blk w)" for p
    using phase_goto(3) [OF assms(1) _ that(2-5) assms(2) that(6)] assms(4) that(1) by simp
  show ?thesis
  proof (cases "pc s t")
    case (RelDec x)
    have "owners s \<noteq> 0"
      using RelDec owners_split [OF assms(1), of t] by simp
    then show ?thesis
      using RelDec assms(3) no own ownw d z by (auto simp: rd_next_defs rd_draining_def split: if_splits)
  next
    case (RelSet x)
    then show ?thesis
      using assms(3) no own d by (auto simp: rd_next_defs rd_draining_def split: if_splits)
  next
    case WaitEvent
    then have "s' = goto s w WaitDone" "wb_Set s (blk w)" "t = w"
      using assms(3) no(1) by (auto simp: rd_next_defs split: if_splits)
    moreover have "owners s = 0"
      using calculation WaitEvent d by auto
    ultimately show ?thesis
      using d own WaitEvent by (auto simp: rd_draining_def)
  next
    case WaitFast
    then show ?thesis using d no(1) by auto
  next
    case WaitLoop
    then show ?thesis using d no(1) by auto
  next
    case (WaitCas v)
    then show ?thesis using d no(1) by auto
  next
    case RelSlow
    moreover have "rd_Value s AND - 2 = blk w"
      using d or_one_and_not_one [OF assms(5)] by simp
    ultimately show ?thesis
      using assms(3) odd keep [of "RelDec (blk w)"] by (auto simp: rd_next_defs)
  qed (use assms(3) no(2) odd keep [of AcqSlow] keep [of Idle] keep [of RelSlow] in
      \<open>auto simp: rd_next_defs split: if_splits\<close>)
qed


lemma call_inv:
  assumes "rd_inv blk N w s" "t < N" "even (blk w)"
    and "pc s t = Idle \<and> s' = PhAcquireRundownProtection s t \<or> pc s t = Holding \<and> s' = PhReleaseRundownProtection s t
      \<or> pc s t = Idle \<and> t = w \<and> s' = PhWaitForRundownProtection s t"
    and "N < 2 ^ 62" "threads_ok blk N w s'"
  shows "rd_open blk w s' \<or> rd_closed w s' \<or> rd_draining blk w s'"
proof -
  have ok: "threads_ok blk N w s" and ph: "rd_open blk w s \<or> rd_closed w s \<or> rd_draining blk w s"
    using assms(1) by (simp_all add: rd_inv_def)
  have own: "owners s' + of_bool (owns (pc s t)) = owners s + of_bool (owns (pc s' t))" if "\<And>u. u \<noteq> t \<Longrightarrow> pc s' u = pc s u"
    by (rule owners_step [OF ok assms(6) that])
  have le: "owners s < 2 ^ 62"
    using owners_le [OF ok] assms(5) by simp
  have z: "(2 * of_nat (owners s) :: ulong64) = 0 \<longleftrightarrow> owners s = 0"
    using double_of_nat_inj [OF le, of 0] by simp
  have keep: "rd_open blk w s' \<or> rd_closed w s' \<or> rd_draining blk w s'"
    if "s' = goto s t p" "owns p = owns (pc s t)" "\<not> waits (pc s t)" "\<not> waits p" "\<not> leaving (pc s t)" "\<not> leaving p" for p
    using phase_goto [OF ok _ that(2-5)] assms(6) that(1,6) ph leaving.simps(2) by metis
  from assms(4) show ?thesis
  proof (elim disjE)
    assume a: "pc s t = Idle \<and> s' = PhAcquireRundownProtection s t"
    show ?thesis
      by (rule keep) (use a in \<open>auto simp: PhAcquireRundownProtection_def\<close>)
  next
    assume a: "pc s t = Holding \<and> s' = PhReleaseRundownProtection s t"
    show ?thesis
      by (rule keep) (use a in \<open>auto simp: PhReleaseRundownProtection_def\<close>)
  next
    assume a: "pc s t = Idle \<and> t = w \<and> s' = PhWaitForRundownProtection s t"
    then have op: "rd_open blk w s"
      using ph by (auto simp: rd_closed_def rd_draining_def)
    show ?thesis
    proof (cases "owners s = 0")
      case True
      then have s': "s' = goto (s\<lparr>rd_Value := 1\<rparr>) w WaitDone"
        using a op by (auto simp: PhWaitForRundownProtection_def wait_fast_def cas_def rd_open_def)
      then show ?thesis
        using True own a op by (auto simp: rd_closed_def rd_open_def)
    next
      case False
      then have s': "s' = goto s w WaitFast"
        using a op z by (auto simp: PhWaitForRundownProtection_def wait_fast_def cas_def rd_open_def)
      then show ?thesis
        using own a op by (auto simp: rd_open_def)
    qed
  qed
qed

lemma rd_inv_step:
  assumes "rd_inv blk N w s" "rd_step blk N {w} s s'" "even (blk w)" "N < 2 ^ 62"
  shows "rd_inv blk N w s'"
proof -
  have ok: "threads_ok blk N w s" and ph: "rd_open blk w s \<or> rd_closed w s \<or> rd_draining blk w s"
    using assms(1) by (simp_all add: rd_inv_def)
  have "odd (rd_Value s) \<longrightarrow> rd_Value s = 1 \<and> owners s = 0 \<or> rd_Value s = blk w OR 1"
      "\<forall>v. pc s w = WaitLoop \<longrightarrow> even (rd_Value s)"
    using ph by (auto simp: rd_open_def rd_closed_def rd_draining_def)
  then have ok': "threads_ok blk N w s'"
    using threads_ok_step [OF ok assms(2,3)] by blast
  from assms(2) have "rd_open blk w s' \<or> rd_closed w s' \<or> rd_draining blk w s'"
  proof cases
    case (run t)
    then show ?thesis
      using ph open_run [OF ok ok' _ _ _ assms(4,3)] closed_run [OF ok _ _ ok'] draining_run [OF ok _ _ ok' assms(3,4)] by blast
  qed (use call_inv [OF assms(1) _ assms(3) _ assms(4) ok'] in blast)+
  with ok' show ?thesis by (simp add: rd_inv_def)
qed

lemma rd_inv_start: "rd_start s \<Longrightarrow> rd_inv blk N w s"
  by (auto simp: rd_start_def rd_inv_def threads_ok_def rd_open_def owners_def)

lemma rd_inv_steps:
  assumes "rd_steps blk N {w} s s'" "rd_inv blk N w s" "even (blk w)" "N < 2 ^ 62"
  shows "rd_inv blk N w s'"
  using assms(1,2) by (induction rule: rtranclp_induct) (auto intro: rd_inv_step assms(3,4))

section \<open>Completion\<close>

text \<open>A thread that does not wait can finish its call, and release what it owns, on its own.\<close>

definition finishes :: "(nat \<Rightarrow> ulong64) \<Rightarrow> nat \<Rightarrow> nat set \<Rightarrow> nat \<Rightarrow> rd_state \<Rightarrow> bool" where
  "finishes blk N W t s \<longleftrightarrow> (\<exists>s'. rd_steps blk N W s s' \<and> pc s' = (pc s)(t := Idle))"

lemma rd_next_pc: "rd_next blk s t = Some s1 \<Longrightarrow> pc s1 = (pc s)(t := pc s1 t)"
  by (cases "pc s t") (auto simp: rd_next_defs split: if_splits)

lemma finishes_run:
  assumes "t < N" "rd_next blk s t = Some s1" "finishes blk N W t s1"
  shows "finishes blk N W t s"
  using assms rd_next_pc [OF assms(2)] rd_step.run [OF assms(1,2)] unfolding finishes_def
  by (metis converse_rtranclp_into_rtranclp fun_upd_upd)

lemma finishes_Idle: "pc s t = Idle \<Longrightarrow> finishes blk N W t s"
  by (auto simp: finishes_def fun_upd_idem)

text \<open>The call goes from one point to another whatever the other threads did before.\<close>

lemma next_cases:
  assumes "pc s t = p"
  shows "(case p of
      AcqFast v \<Rightarrow> \<exists>s1. rd_next blk s t = Some s1 \<and> pc s1 t \<in> {Holding, AcqSlow}
    | AcqSlow \<Rightarrow> \<exists>s1. rd_next blk s t = Some s1 \<and> (pc s1 t = Idle \<or> pc s1 t = AcqCas (rd_Value s1))
    | AcqCas v \<Rightarrow> \<exists>s1. rd_next blk s t = Some s1 \<and> pc s1 t = (if rd_Value s = v then Holding else AcqSlow)
    | RelFast v \<Rightarrow> \<exists>s1. rd_next blk s t = Some s1 \<and> pc s1 t \<in> {Idle, RelSlow}
    | RelSlow \<Rightarrow> \<exists>s1. rd_next blk s t = Some s1 \<and> ((\<exists>b. pc s1 t = RelDec b) \<or> pc s1 t = RelCas (rd_Value s1))
    | RelCas v \<Rightarrow> \<exists>s1. rd_next blk s t = Some s1 \<and> pc s1 t = (if rd_Value s = v then Idle else RelSlow)
    | RelDec b \<Rightarrow> \<exists>s1. rd_next blk s t = Some s1 \<and> pc s1 t \<in> {Idle, RelSet b}
    | RelSet b \<Rightarrow> \<exists>s1. rd_next blk s t = Some s1 \<and> pc s1 t = Idle
    | _ \<Rightarrow> True)"
  using assms by (cases p) (auto simp: rd_next_defs)

lemma finishes_release:
  assumes "t < N"
  shows "pc s t = RelSet b \<Longrightarrow> finishes blk N W t s"
    and "pc s t = RelDec b \<Longrightarrow> finishes blk N W t s"
    and "pc s t = RelSlow \<Longrightarrow> finishes blk N W t s"
    and "pc s t = RelCas v \<Longrightarrow> finishes blk N W t s"
    and "pc s t = RelFast v \<Longrightarrow> finishes blk N W t s"
    and "pc s t = Holding \<Longrightarrow> finishes blk N W t s"
proof -
  note run = finishes_run [OF assms]
  have set: "finishes blk N W t s" if "pc s t = RelSet b" for s b
    using next_cases [OF that, of blk] run finishes_Idle by auto
  then have dec: "finishes blk N W t s" if "pc s t = RelDec b" for s b
    using next_cases [OF that, of blk] run finishes_Idle by auto
  have cas0: "finishes blk N W t s" if "pc s t = RelCas (rd_Value s)" for s
    using next_cases [OF that, of blk] run finishes_Idle by auto
  have slow: "finishes blk N W t s" if "pc s t = RelSlow" for s
    using next_cases [OF that, of blk] run dec cas0 by auto
  have cas: "finishes blk N W t s" if "pc s t = RelCas v" for s v
    using next_cases [OF that, of blk] run finishes_Idle slow by (auto split: if_splits)
  have fast: "finishes blk N W t s" if "pc s t = RelFast v" for s v
    using next_cases [OF that, of blk] run finishes_Idle slow by auto
  have hold: "finishes blk N W t s" if "pc s t = Holding" for s
  proof -
    have "finishes blk N W t (PhReleaseRundownProtection s t)"
      by (rule fast) (auto simp: PhReleaseRundownProtection_def)
    then show ?thesis
      using rd_step.release [OF assms that, of blk W] unfolding finishes_def PhReleaseRundownProtection_def
      by (auto intro: converse_rtranclp_into_rtranclp)
  qed
  show "pc s t = RelSet b \<Longrightarrow> finishes blk N W t s" "pc s t = RelDec b \<Longrightarrow> finishes blk N W t s"
    "pc s t = RelSlow \<Longrightarrow> finishes blk N W t s" "pc s t = RelCas v \<Longrightarrow> finishes blk N W t s"
    "pc s t = RelFast v \<Longrightarrow> finishes blk N W t s" "pc s t = Holding \<Longrightarrow> finishes blk N W t s"
    by (rule set dec slow cas fast hold; assumption)+
qed

lemma finishes_all:
  assumes "t < N" "\<not> waits (pc s t)"
  shows "finishes blk N W t s"
proof -
  note run = finishes_run [OF assms(1)] and rel = finishes_release [OF assms(1)]
  have cas0: "finishes blk N W t s" if "pc s t = AcqCas (rd_Value s)" for s
    using next_cases [OF that, of blk] run rel(6) by auto
  have slow: "finishes blk N W t s" if "pc s t = AcqSlow" for s
    using next_cases [OF that, of blk] run finishes_Idle cas0 by auto
  have cas: "finishes blk N W t s" if "pc s t = AcqCas v" for s v
    using next_cases [OF that, of blk] run rel(6) slow by (auto split: if_splits)
  have fast: "finishes blk N W t s" if "pc s t = AcqFast v" for s v
    using next_cases [OF that, of blk] run rel(6) slow by auto
  show ?thesis
    using assms(2) finishes_Idle fast slow cas rel by (cases "pc s t") auto
qed

text \<open>All other threads can be run until they are idle.\<close>

lemma others_finish:
  assumes "\<forall>t. waits (pc s t) \<longrightarrow> t = w" "k \<le> N"
  shows "\<exists>s'. rd_steps blk N W s s' \<and> (\<forall>t < k. t \<noteq> w \<longrightarrow> pc s' t = Idle) \<and> (\<forall>t. k \<le> t \<longrightarrow> pc s' t = pc s t) \<and> pc s' w = pc s w"
  using assms(2)
proof (induction k)
  case 0
  then show ?case by auto
next
  case (Suc k)
  then obtain s1 where s1: "rd_steps blk N W s s1" "\<forall>t < k. t \<noteq> w \<longrightarrow> pc s1 t = Idle"
      "\<forall>t. k \<le> t \<longrightarrow> pc s1 t = pc s t" "pc s1 w = pc s w"
    by auto
  show ?case
  proof (cases "k = w")
    case True
    with s1 show ?thesis by (intro exI [of _ s1]) (auto simp: less_Suc_eq)
  next
    case False
    then have "finishes blk N W k s1"
      using s1(3) assms(1) Suc.prems by (intro finishes_all) auto
    then obtain s2 where "rd_steps blk N W s1 s2" "pc s2 = (pc s1)(k := Idle)"
      by (auto simp: finishes_def)
    with s1 False show ?thesis
      by (intro exI [of _ s2]) (auto simp: less_Suc_eq)
  qed
qed

text \<open>With all other threads idle, the waiter returns.\<close>

lemma waiter_finishes:
  assumes "rd_inv blk N w s" "w < N" "N < 2 ^ 62" "even (blk w)" "waits (pc s w)" "\<And>t. t \<noteq> w \<Longrightarrow> pc s t = Idle"
  shows "\<exists>s'. rd_steps blk N {w} s s' \<and> pc s' w = WaitDone"
proof -
  have ok: "threads_ok blk N w s" and ph: "rd_open blk w s \<or> rd_closed w s \<or> rd_draining blk w s"
    using assms(1) by (simp_all add: rd_inv_def)
  have "\<not> owns (pc s t)" for t
    using assms(5,6) by (cases "t = w"; cases "pc s w") auto
  then have own: "owners s = 0"
    by (simp add: owners_def)
  have run: "\<exists>s'. rd_steps blk N {w} u s' \<and> pc s' w = WaitDone"
    if "rd_next blk u w = Some u1" "\<exists>s'. rd_steps blk N {w} u1 s' \<and> pc s' w = WaitDone" for u u1
    using that rd_step.run [OF assms(2) that(1)] by (meson converse_rtranclp_into_rtranclp)
  have fin: "\<exists>s'. rd_steps blk N {w} u s' \<and> pc s' w = WaitDone" if "pc u w = WaitDone" for u
    using that by blast
  have loop: "\<exists>s'. rd_steps blk N {w} u s' \<and> pc s' w = WaitDone" if "pc u w = WaitLoop" "rd_Value u = 0" for u
  proof -
    define u1 where "u1 = u\<lparr>wb_Count := (wb_Count u)(blk w := 0), pc := (pc u)(w := WaitCas 0)\<rparr>"
    have "rd_next blk u w = Some u1"
      using that by (simp add: rd_next_defs u1_def)
    moreover have "\<exists>s'. rd_steps blk N {w} u1 s' \<and> pc s' w = WaitDone"
      by (rule run) (use that in \<open>auto simp: rd_next_defs u1_def intro!: fin\<close>)
    ultimately show ?thesis by (rule run)
  qed
  from ph show ?thesis
  proof (elim disjE)
    assume "rd_open blk w s"
    then have o: "rd_Value s = 0" "pc s w \<noteq> WaitEvent" "\<And>v. pc s w = WaitCas v \<Longrightarrow> wb_Count s (blk w) = drop_bit 1 v"
      by (auto simp: rd_open_def own)
    show ?thesis
    proof (cases "pc s w")
      case WaitFast
      show ?thesis
        by (rule run) (use WaitFast o in \<open>auto simp: rd_next_defs intro!: fin\<close>)
    next
      case (WaitCas v)
      show ?thesis
      proof (cases "v = 0")
        case True
        show ?thesis
          by (rule run) (use WaitCas True o in \<open>auto simp: rd_next_defs intro!: fin\<close>)
      next
        case False
        show ?thesis
          by (rule run) (use WaitCas False o in \<open>auto simp: rd_next_defs intro!: loop\<close>)
      qed
    qed (use assms(5) o loop fin in auto)
  next
    assume "rd_closed w s"
    then show ?thesis
      using fin by (simp add: rd_closed_def)
  next
    assume d: "rd_draining blk w s"
    have "pc s t \<noteq> RelSet (blk w)" for t
      using assms(5,6) by (cases "t = w") auto
    then consider "pc s w = WaitDone" | "pc s w = WaitEvent" "wb_Set s (blk w)"
      using d own by (auto simp: rd_draining_def)
    then show ?thesis
    proof cases
      case 2
      show ?thesis
        by (rule run) (use 2 in \<open>auto simp: rd_next_defs intro!: fin\<close>)
    qed (rule fin)
  qed
qed

section \<open>Schedules\<close>

text \<open>Schedules that can be computed.\<close>

datatype rd_action = Acquire nat | Release nat | Wait nat | Run nat

fun rd_act :: "(nat \<Rightarrow> ulong64) \<Rightarrow> rd_state \<Rightarrow> rd_action \<Rightarrow> rd_state option" where
  "rd_act blk s (Acquire t) = (if pc s t = Idle then Some (PhAcquireRundownProtection s t) else None)"
| "rd_act blk s (Release t) = (if pc s t = Holding then Some (PhReleaseRundownProtection s t) else None)"
| "rd_act blk s (Wait t) = (if pc s t = Idle then Some (PhWaitForRundownProtection s t) else None)"
| "rd_act blk s (Run t) = rd_next blk s t"

fun rd_schedule :: "(nat \<Rightarrow> ulong64) \<Rightarrow> rd_state \<Rightarrow> rd_action list \<Rightarrow> rd_state option" where
  "rd_schedule blk s [] = Some s"
| "rd_schedule blk s (a # as) = Option.bind (rd_act blk s a) (\<lambda>s. rd_schedule blk s as)"

fun allowed :: "nat \<Rightarrow> nat set \<Rightarrow> rd_action \<Rightarrow> bool" where
  "allowed N W (Acquire t) \<longleftrightarrow> t < N"
| "allowed N W (Release t) \<longleftrightarrow> t < N"
| "allowed N W (Wait t) \<longleftrightarrow> t < N \<and> t \<in> W"
| "allowed N W (Run t) \<longleftrightarrow> t < N"

lemma rd_act_step: "allowed N W a \<Longrightarrow> rd_act blk s a = Some s' \<Longrightarrow> rd_step blk N W s s'"
  by (cases a) (auto intro: rd_step.intros split: if_splits)

lemma rd_schedule_steps:
  "rd_schedule blk s as = Some s' \<Longrightarrow> list_all (allowed N W) as \<Longrightarrow> rd_steps blk N W s s'"
proof (induction as arbitrary: s)
  case (Cons a as)
  then obtain s1 where "rd_act blk s a = Some s1" "rd_schedule blk s1 as = Some s'"
    by (auto simp: bind_eq_Some_conv)
  with Cons show ?case
    using rd_act_step [of N W a blk s s1] by (auto intro: converse_rtranclp_into_rtranclp)
qed simp

definition rd_init :: rd_state where
  "rd_init = PhInitializeRundownProtection
     \<lparr> rd_Value = 5, wb_Count = (\<lambda>_. 7), wb_Set = (\<lambda>_. False), pc = (\<lambda>_. Idle) \<rparr>"

definition stack_blk :: "nat \<Rightarrow> ulong64" where
  "stack_blk t = of_nat (t + 1) * 0x1000"

text \<open>Thread 2 uses the protection, thread 0 waits for the rundown and returns, then thread 1 waits.\<close>

definition second_wait :: "rd_action list" where
  "second_wait =
     [Acquire 2, Run 2, Wait 0, Run 0, Run 0, Run 0, Release 2, Run 2, Run 2, Run 2, Run 2, Run 0,
      Wait 1, Run 1, Run 1, Run 1]"

lemma second_wait_result:
  "\<exists>s. rd_schedule stack_blk rd_init second_wait = Some s \<and> pc s 0 = WaitDone \<and> pc s 1 = WaitEvent
     \<and> rd_Value s = 0x2001 \<and> \<not> wb_Set s 0x2000 \<and> (\<forall>t. t \<notin> {0, 1} \<longrightarrow> pc s t = Idle)"
  by (simp add: second_wait_def rd_init_def PhInitializeRundownProtection_def PhAcquireRundownProtection_def
      PhReleaseRundownProtection_def PhWaitForRundownProtection_def rd_next_defs stack_blk_def)

lemma rd_init_start: "rd_start rd_init"
  by (simp add: rd_start_def rd_init_def PhInitializeRundownProtection_def)

text \<open>What keeps the second waiter where it is.\<close>

definition second_stuck :: "rd_state \<Rightarrow> bool" where
  "second_stuck s \<longleftrightarrow>
     rd_Value s = 0x2001 \<and> \<not> wb_Set s 0x2000 \<and> pc s 0 = WaitDone \<and> pc s 1 = WaitEvent
     \<and> (\<forall>t. t \<notin> {0, 1} \<longrightarrow> pc s t = Idle \<or> pc s t = AcqSlow \<or> (\<exists>v. pc s t = AcqFast v \<and> even v))"

lemma second_stuck_step:
  assumes "second_stuck s" "rd_step stack_blk N {0, 1} s s'"
  shows "second_stuck s'"
  using assms(2)
proof cases
  case (acquire t)
  then show ?thesis
    using assms(1) by (auto simp: second_stuck_def PhAcquireRundownProtection_def)
next
  case (release t)
  then have "t \<notin> {0, 1}" "pc s t = Holding"
    using assms(1) by (auto simp: second_stuck_def)
  then show ?thesis
    using assms(1) by (auto simp: second_stuck_def)
next
  case (wait t)
  then show ?thesis
    using assms(1) by (auto simp: second_stuck_def)
next
  case (run t)
  have "\<forall>t. t \<notin> {0, 1} \<longrightarrow> pc s t = Idle \<or> pc s t = AcqSlow \<or> (\<exists>v. pc s t = AcqFast v \<and> even v)"
    using assms(1) unfolding second_stuck_def by (elim conjE)
  from spec [OF this, of t]
  consider "t = 0" | "t = 1" | "t \<notin> {0, 1}" "pc s t = Idle" | "t \<notin> {0, 1}" "pc s t = AcqSlow"
    | v where "t \<notin> {0, 1}" "pc s t = AcqFast v" "even v"
    by blast
  then show ?thesis
  proof cases
    case 1
    then show ?thesis using assms(1) run(2) by (simp add: second_stuck_def rd_next_def)
  next
    case 2
    then show ?thesis
      using assms(1) run(2) by (simp add: second_stuck_def rd_next_defs stack_blk_def)
  next
    case 3
    then show ?thesis using run(2) by (simp add: rd_next_def)
  next
    case 4
    then have "s' = goto s t Idle"
      using assms(1) run(2) by (simp add: second_stuck_def rd_next_defs)
    with 4 assms(1) show ?thesis by (simp add: second_stuck_def)
  next
    case 5
    have "v \<noteq> 0x2001"
      using 5(3) by auto
    then have "s' = goto s t AcqSlow"
      using assms(1) run(2) 5 by (simp add: second_stuck_def rd_next_defs)
    with 5 assms(1) show ?thesis by (simp add: second_stuck_def)
  qed
qed

section \<open>Properties\<close>

text \<open>
  C5. For one waiter among fewer than \<open>2 ^ 62\<close> threads: when the waiter of a rundown has returned, no thread holds the protection or is about to give it
  up, and since this is so in every later state too, none can acquire it again.
\<close>

theorem PhWaitForRundownProtection_safe:
  assumes "rd_start s0" "rd_steps blk N {w} s0 s" "even (blk w)" "N < 2 ^ 62" "pc s w = WaitDone"
  shows "\<forall>s' t. rd_steps blk N {w} s s' \<longrightarrow> pc s' w = WaitDone \<and> \<not> owns (pc s' t)"
proof (intro allI impI)
  fix s' t
  assume st: "rd_steps blk N {w} s s'"
  have inv: "rd_inv blk N w s"
    by (rule rd_inv_steps [OF assms(2) rd_inv_start [OF assms(1)] assms(3,4)])
  have "pc s' w = WaitDone"
    using st
  proof (induction rule: rtranclp_induct)
    case (step y z)
    from step(2) show ?case
    proof cases
      case (run t)
      show ?thesis
      proof (cases "t = w")
        case True
        then show ?thesis
          using run step(3) by (simp add: rd_next_def)
      next
        case False
        have "pc z w = ((pc y)(t := pc z t)) w"
          by (rule fun_cong [OF rd_next_pc [OF run(2)]])
        also have "\<dots> = pc y w"
          using False by (simp only: fun_upd_other)
        finally have "pc z w = pc y w" .
        then show ?thesis
          using step(3) by simp
      qed
    qed (use step(3) in \<open>auto simp: PhAcquireRundownProtection_def PhReleaseRundownProtection_def
        PhWaitForRundownProtection_def wait_fast_def cas_def\<close>)
  qed (rule assms(5))
  moreover have inv': "rd_inv blk N w s'"
    by (rule rd_inv_steps [OF st inv assms(3,4)])
  ultimately have "owners s' = 0"
    by (auto simp: rd_inv_def rd_open_def rd_closed_def rd_draining_def)
  then have "\<not> owns (pc s' t)"
    using owners_split [of blk N w s' t] inv' by (auto simp: rd_inv_def)
  with \<open>pc s' w = WaitDone\<close> show "pc s' w = WaitDone \<and> \<not> owns (pc s' t)" ..
qed

text \<open>Thread 2 holds the protection, thread 0 blocks until it is released; afterwards thread 2 does not get it.\<close>

theorem PhWaitForRundownProtection_safe_witness:
  "\<exists>s s'. rd_schedule stack_blk rd_init [Acquire 2, Run 2, Wait 0, Run 0, Run 0, Run 0, Release 2, Run 2, Run 2, Run 2, Run 2,
       Run 0] = Some s \<and> pc s 0 = WaitDone
     \<and> rd_schedule stack_blk s [Acquire 2, Run 2] = Some s' \<and> (\<forall>t. \<not> owns (pc s' t))"
proof -
  obtain s s' where s: "rd_schedule stack_blk rd_init [Acquire 2, Run 2, Wait 0, Run 0, Run 0, Run 0, Release 2, Run 2, Run 2,
        Run 2, Run 2, Run 0] = Some s" "pc s 0 = WaitDone"
      and s': "rd_schedule stack_blk s [Acquire 2, Run 2] = Some s'"
    by (simp add: rd_init_def PhInitializeRundownProtection_def PhAcquireRundownProtection_def
        PhReleaseRundownProtection_def PhWaitForRundownProtection_def rd_next_defs stack_blk_def)
  have "rd_steps stack_blk 3 {0} rd_init s" "rd_steps stack_blk 3 {0} s s'"
    by (rule rd_schedule_steps [OF s(1)], simp) (rule rd_schedule_steps [OF s'], simp)
  with PhWaitForRundownProtection_safe [OF rd_init_start this(1)] s(2) have "\<not> owns (pc s' t)" for t
    by (simp add: stack_blk_def)
  with s s' show ?thesis by blast
qed

text \<open>
  C18. For one waiter among fewer than \<open>2 ^ 62\<close> threads a wait for the rundown can always be completed: from every state
  that is reached, some schedule of the threads makes the waiter return. In particular no wake-up is lost.
\<close>

theorem PhWaitForRundownProtection_completes:
  assumes "rd_start s0" "rd_steps blk N {w} s0 s" "even (blk w)" "N < 2 ^ 62" "w < N" "waits (pc s w)"
  shows "\<exists>s'. rd_steps blk N {w} s s' \<and> pc s' w = WaitDone"
proof -
  have inv: "rd_inv blk N w s"
    by (rule rd_inv_steps [OF assms(2) rd_inv_start [OF assms(1)] assms(3,4)])
  then have ok: "threads_ok blk N w s"
    by (simp add: rd_inv_def)
  then obtain s1 where s1: "rd_steps blk N {w} s s1" "\<forall>t < N. t \<noteq> w \<longrightarrow> pc s1 t = Idle" "pc s1 w = pc s w"
    using others_finish [of s w N N blk "{w}"] by (auto simp: threads_ok_def)
  have inv1: "rd_inv blk N w s1"
    by (rule rd_inv_steps [OF s1(1) inv assms(3,4)])
  have idle: "pc s1 t = Idle" if "t \<noteq> w" for t
  proof (cases "t < N")
    case False
    have "threads_ok blk N w s1"
      using inv1 by (simp add: rd_inv_def)
    with False show ?thesis by (simp add: threads_ok_def)
  qed (use s1(2) that in simp)
  have "waits (pc s1 w)"
    using s1(3) assms(6) by simp
  from waiter_finishes [OF inv1 assms(5,4,3) this idle]
  obtain s2 where "rd_steps blk N {w} s1 s2" "pc s2 w = WaitDone"
    by blast
  with s1(1) show ?thesis by (meson rtranclp_trans)
qed


theorem PhWaitForRundownProtection_completes_witness:
  "\<exists>s s'. rd_schedule stack_blk rd_init [Acquire 2, Run 2, Wait 0, Run 0, Run 0, Run 0] = Some s \<and> pc s 0 = WaitEvent
     \<and> rd_steps stack_blk 3 {0} s s' \<and> pc s' 0 = WaitDone"
proof -
  obtain s where s: "rd_schedule stack_blk rd_init [Acquire 2, Run 2, Wait 0, Run 0, Run 0, Run 0] = Some s" "pc s 0 = WaitEvent"
    by (simp add: rd_init_def PhInitializeRundownProtection_def PhAcquireRundownProtection_def
        PhReleaseRundownProtection_def PhWaitForRundownProtection_def rd_next_defs stack_blk_def)
  have "rd_steps stack_blk 3 {0} rd_init s"
    by (rule rd_schedule_steps [OF s(1)]) simp
  from PhWaitForRundownProtection_completes [OF rd_init_start this]
  have "\<exists>s'. rd_steps stack_blk 3 {0} s s' \<and> pc s' 0 = WaitDone"
    using s(2) by (simp add: stack_blk_def)
  with s show ?thesis by blast
qed

text \<open>
  A second wait for the same rundown never returns if the first one had to block: it takes the
  address of the first wait block, which is still in the value, for a reference count.
\<close>

theorem PhfWaitForRundownProtection_second_wait:
  "\<exists>s. rd_steps stack_blk 3 {0, 1} rd_init s \<and> pc s 0 = WaitDone
     \<and> (\<forall>s'. rd_steps stack_blk 3 {0, 1} s s' \<longrightarrow> pc s' 1 = WaitEvent)"
proof -
  obtain s where s: "rd_schedule stack_blk rd_init second_wait = Some s" "second_stuck s"
    using second_wait_result by (auto simp: second_stuck_def)
  have "rd_steps stack_blk 3 {0, 1} rd_init s"
    by (rule rd_schedule_steps [OF s(1)]) (simp add: second_wait_def)
  moreover have "second_stuck s'" if "rd_steps stack_blk 3 {0, 1} s s'" for s'
    using that s(2) by (induction rule: rtranclp_induct) (auto intro: second_stuck_step)
  ultimately show ?thesis
    using s(2) by (auto simp: second_stuck_def)
qed

theorem PhfWaitForRundownProtection_second_wait_witness:
  "\<exists>s. rd_steps stack_blk 3 {0, 1} rd_init s \<and> pc s 0 = WaitDone \<and> pc s 1 = WaitEvent"
  using PhfWaitForRundownProtection_second_wait by blast

end
