(* ===== verification/PhEvent.thy ===== *)
theory PhEvent
  imports PhPrelude
begin

text \<open>
  The event object of \<open>src/phlib/sync.c\<close>, as a system of threads that interleave at every access to the
  event. The kernel events behind it are a table of open handles with their signals; \<open>NtCreateEvent\<close> may
  return any handle that is not open, also one that was closed before. A close of a handle that is not
  open is recorded.
\<close>

section \<open>State\<close>

abbreviation PH_EVENT_SET :: ulong64 where
  "PH_EVENT_SET \<equiv> 1"

abbreviation PH_EVENT_REFCOUNT_INC :: ulong64 where
  "PH_EVENT_REFCOUNT_INC \<equiv> 2"

definition PH_EVENT_REFCOUNT_MASK :: ulong64 where
  "PH_EVENT_REFCOUNT_MASK = push_bit 15 1 - 1"

text \<open>A timeout is absent, zero, or positive.\<close>

datatype timeout = NoTimeout | ZeroTimeout | SomeTimeout

text \<open>The next action of a thread: \<open>Set\<close> inside \<open>PhfSetEvent\<close>, \<open>Wait\<close> inside \<open>PhfWaitForEvent\<close>.\<close>

datatype ev_pc =
    EvIdle
  | SetRead | SetSignal ulong64
  | WaitTest timeout | WaitRef timeout | WaitRead timeout | WaitCreate timeout | WaitCas timeout ulong64
  | WaitDrop timeout ulong64 | WaitReread timeout | WaitCheck timeout ulong64 | WaitBlock timeout ulong64
  | SetDeref ulong64 | WaitDeref ulong64 bool
  | CloseHandle ulong64 bool | ClearHandle bool
  | Returned bool

record ev_state =
  ev_Value :: ulong64
  EventHandle :: ulong64
  opened :: "ulong64 \<Rightarrow> bool"
  signalled :: "ulong64 \<Rightarrow> bool"
  bad_close :: bool
  ev_pc :: "nat \<Rightarrow> ev_pc"

abbreviation ev_goto :: "ev_state \<Rightarrow> nat \<Rightarrow> ev_pc \<Rightarrow> ev_state" where
  "ev_goto s t p \<equiv> s\<lparr>ev_pc := (ev_pc s)(t := p)\<rparr>"

abbreviation is_set :: "ev_state \<Rightarrow> bool" where
  "is_set s \<equiv> ev_Value s AND PH_EVENT_SET \<noteq> 0"

definition NtClose :: "ev_state \<Rightarrow> ulong64 \<Rightarrow> ev_state" where
  "NtClose s h = s\<lparr>opened := (opened s)(h := False), bad_close := bad_close s \<or> \<not> opened s h\<rparr>"

definition PhInitializeEvent :: "ev_state \<Rightarrow> ev_state" where
  "PhInitializeEvent s = s\<lparr>ev_Value := PH_EVENT_REFCOUNT_INC, EventHandle := 0\<rparr>"

text \<open>Not safe with other threads using the event.\<close>

definition PhfResetEvent :: "ev_state \<Rightarrow> ev_state" where
  "PhfResetEvent s = (if is_set s then s\<lparr>ev_Value := PH_EVENT_REFCOUNT_INC\<rparr> else s)"

section \<open>Steps\<close>

text \<open>\<open>PhpDereferenceEvent\<close>, up to the close of the handle; \<open>result\<close> is what the call will return.\<close>

definition PhpDereferenceEvent :: "ev_state \<Rightarrow> nat \<Rightarrow> ulong64 \<Rightarrow> bool \<Rightarrow> ev_state" where
  "PhpDereferenceEvent s t eventHandle result =
     (let value = ev_Value s;
          s = s\<lparr>ev_Value := value - PH_EVENT_REFCOUNT_INC\<rparr>
      in if (drop_bit 1 value AND PH_EVENT_REFCOUNT_MASK) - 1 = 0 \<and> eventHandle \<noteq> 0
         then ev_goto s t (CloseHandle eventHandle result)
         else ev_goto s t (Returned result))"

definition PhpReferenceEvent :: "ev_state \<Rightarrow> nat \<Rightarrow> ev_pc \<Rightarrow> ev_state" where
  "PhpReferenceEvent s t p = ev_goto (s\<lparr>ev_Value := ev_Value s + PH_EVENT_REFCOUNT_INC\<rparr>) t p"

text \<open>The first action of a call: the bit test and set, and the inline test of \<open>PhWaitForEvent\<close>.\<close>

definition PhSetEvent :: "ev_state \<Rightarrow> nat \<Rightarrow> ev_state" where
  "PhSetEvent s t =
     ev_goto (s\<lparr>ev_Value := ev_Value s OR PH_EVENT_SET\<rparr>) t (if is_set s then Returned True else SetRead)"

definition PhWaitForEvent :: "ev_state \<Rightarrow> nat \<Rightarrow> timeout \<Rightarrow> ev_state" where
  "PhWaitForEvent s t timeout = ev_goto s t (if is_set s then Returned True else WaitTest timeout)"

text \<open>The rest of \<open>PhfSetEvent\<close>.\<close>

fun PhfSetEvent :: "ev_state \<Rightarrow> nat \<Rightarrow> ev_pc \<Rightarrow> ev_state option" where
  "PhfSetEvent s t SetRead =
     Some (ev_goto s t (if EventHandle s \<noteq> 0 then SetSignal (EventHandle s) else SetDeref (EventHandle s)))"
| "PhfSetEvent s t (SetSignal eventHandle) =
     Some (ev_goto (s\<lparr>signalled := (signalled s)(eventHandle := True)\<rparr>) t (SetDeref eventHandle))"
| "PhfSetEvent s t (SetDeref eventHandle) = Some (PhpDereferenceEvent s t eventHandle True)"
| "PhfSetEvent s t _ = None"

text \<open>
  \<open>PhfWaitForEvent\<close>. The creation of the kernel event takes the handle it returns, and the blocking wait
  ends by the signal; that it can also end by the timeout is a step of its own below.
\<close>

fun PhfWaitForEvent :: "ev_state \<Rightarrow> nat \<Rightarrow> ulong64 \<Rightarrow> ev_pc \<Rightarrow> ev_state option" where
  "PhfWaitForEvent s t new (WaitTest timeout) =
     Some (ev_goto s t (if is_set s then Returned True
                        else if timeout = ZeroTimeout then Returned False else WaitRef timeout))"
| "PhfWaitForEvent s t new (WaitRef timeout) = Some (PhpReferenceEvent s t (WaitRead timeout))"
| "PhfWaitForEvent s t new (WaitRead timeout) =
     Some (ev_goto s t (if EventHandle s = 0 then WaitCreate timeout else WaitCheck timeout (EventHandle s)))"
| "PhfWaitForEvent s t new (WaitCreate timeout) =
     (if new \<noteq> 0 \<and> \<not> opened s new
      then Some (ev_goto (s\<lparr>opened := (opened s)(new := True), signalled := (signalled s)(new := False)\<rparr>) t
                   (WaitCas timeout new))
      else None)"
| "PhfWaitForEvent s t new (WaitCas timeout eventHandle) =
     Some (if EventHandle s = 0 then ev_goto (s\<lparr>EventHandle := eventHandle\<rparr>) t (WaitCheck timeout eventHandle)
           else ev_goto s t (WaitDrop timeout eventHandle))"
| "PhfWaitForEvent s t new (WaitDrop timeout eventHandle) =
     Some (ev_goto (NtClose s eventHandle) t (WaitReread timeout))"
| "PhfWaitForEvent s t new (WaitReread timeout) = Some (ev_goto s t (WaitCheck timeout (EventHandle s)))"
| "PhfWaitForEvent s t new (WaitCheck timeout eventHandle) =
     Some (ev_goto s t (if \<not> is_set s then WaitBlock timeout eventHandle else WaitDeref eventHandle True))"
| "PhfWaitForEvent s t new (WaitBlock timeout eventHandle) =
     (if signalled s eventHandle then Some (ev_goto s t (WaitDeref eventHandle True)) else None)"
| "PhfWaitForEvent s t new (WaitDeref eventHandle result) = Some (PhpDereferenceEvent s t eventHandle result)"
| "PhfWaitForEvent s t new _ = None"

text \<open>The end of \<open>PhpDereferenceEvent\<close>.\<close>

fun close_event :: "ev_state \<Rightarrow> nat \<Rightarrow> ev_pc \<Rightarrow> ev_state option" where
  "close_event s t (CloseHandle eventHandle result) = Some (ev_goto (NtClose s eventHandle) t (ClearHandle result))"
| "close_event s t (ClearHandle result) = Some (ev_goto (s\<lparr>EventHandle := 0\<rparr>) t (Returned result))"
| "close_event s t _ = None"

definition outside :: "ev_pc \<Rightarrow> bool" where
  "outside p \<longleftrightarrow> p = EvIdle \<or> p = Returned True \<or> p = Returned False"

inductive ev_step :: "nat \<Rightarrow> ev_state \<Rightarrow> ev_state \<Rightarrow> bool" for N :: nat where
  set_call: "t < N \<Longrightarrow> outside (ev_pc s t) \<Longrightarrow> ev_step N s (PhSetEvent s t)"
| wait_call: "t < N \<Longrightarrow> outside (ev_pc s t) \<Longrightarrow> ev_step N s (PhWaitForEvent s t timeout)"
| set_run: "t < N \<Longrightarrow> PhfSetEvent s t (ev_pc s t) = Some s' \<Longrightarrow> ev_step N s s'"
| wait_run: "t < N \<Longrightarrow> PhfWaitForEvent s t new (ev_pc s t) = Some s' \<Longrightarrow> ev_step N s s'"
| timed_out: "t < N \<Longrightarrow> ev_pc s t = WaitBlock SomeTimeout eventHandle \<Longrightarrow>
    ev_step N s (ev_goto s t (WaitDeref eventHandle False))"
| close_run: "t < N \<Longrightarrow> close_event s t (ev_pc s t) = Some s' \<Longrightarrow> ev_step N s s'"

abbreviation ev_steps :: "nat \<Rightarrow> ev_state \<Rightarrow> ev_state \<Rightarrow> bool" where
  "ev_steps N \<equiv> (ev_step N)\<^sup>*\<^sup>*"

definition ev_start :: "ev_state \<Rightarrow> bool" where
  "ev_start s \<longleftrightarrow> ev_Value s = PH_EVENT_REFCOUNT_INC \<and> EventHandle s = 0 \<and> \<not> bad_close s \<and> (\<forall>t. ev_pc s t = EvIdle)"

section \<open>Bits of the value\<close>

lemma is_set_odd [simp]: "x AND (1 :: ulong64) = 0 \<longleftrightarrow> even x"
  by (simp add: and_one_eq even_iff_mod_2_eq_zero)

lemma refcount_one:
  assumes "r < 2 ^ 15"
  shows "(drop_bit 1 (of_bool b + 2 * of_nat r :: ulong64) AND PH_EVENT_REFCOUNT_MASK) - 1 = 0 \<longleftrightarrow> r = 1"
proof -
  have u: "unat (of_bool b + 2 * of_nat r :: ulong64) = of_bool b + 2 * r"
    using assms by (simp add: unat_word_ariths unat_of_nat)
  have "unat (drop_bit 1 (of_bool b + 2 * of_nat r :: ulong64)) = r"
    unfolding unat_drop_bit_eq u by (simp add: drop_bit_eq_div)
  then have d: "drop_bit 1 (of_bool b + 2 * of_nat r :: ulong64) = of_nat r"
    using assms by (simp only: word_unat_eq_iff unat_of_nat) (simp add: take_bit_eq_mod)
  have m: "PH_EVENT_REFCOUNT_MASK = mask 15"
    by (simp add: PH_EVENT_REFCOUNT_MASK_def mask_eq_exp_minus_1 push_bit_of_1)
  have "drop_bit 1 (of_bool b + 2 * of_nat r :: ulong64) AND PH_EVENT_REFCOUNT_MASK = of_nat r"
    unfolding d m using assms by (simp add: take_bit_of_nat take_bit_nat_eq_self flip: take_bit_eq_mask)
  then have "(drop_bit 1 (of_bool b + 2 * of_nat r :: ulong64) AND PH_EVENT_REFCOUNT_MASK) - 1 = 0 \<longleftrightarrow> (of_nat r :: ulong64) = of_nat 1"
    by simp
  also have "\<dots> \<longleftrightarrow> r = 1"
    using assms by (simp add: word_unat_eq_iff unat_of_nat)
  finally show ?thesis .
qed

section \<open>Invariant\<close>

fun setting :: "ev_pc \<Rightarrow> bool" where
  "setting SetRead = True"
| "setting (SetSignal _) = True"
| "setting (SetDeref _) = True"
| "setting _ = False"

fun blocked :: "ev_pc \<Rightarrow> bool" where
  "blocked (WaitBlock _ _) = True"
| "blocked _ = False"

fun referencing :: "ev_pc \<Rightarrow> bool" where
  "referencing (WaitRead _) = True"
| "referencing (WaitCreate _) = True"
| "referencing (WaitCas _ _) = True"
| "referencing (WaitDrop _ _) = True"
| "referencing (WaitReread _) = True"
| "referencing (WaitCheck _ _) = True"
| "referencing (WaitBlock _ _) = True"
| "referencing (WaitDeref _ _) = True"
| "referencing p = setting p"

text \<open>A handle that a thread has created and not yet published.\<close>

fun unpublished :: "ev_pc \<Rightarrow> ulong64 option" where
  "unpublished (WaitCas _ h) = Some h"
| "unpublished (WaitDrop _ h) = Some h"
| "unpublished _ = None"

fun result_true :: "ev_pc \<Rightarrow> bool" where
  "result_true (WaitDeref _ r) = r"
| "result_true (CloseHandle _ r) = r"
| "result_true (ClearHandle r) = r"
| "result_true (Returned r) = r"
| "result_true _ = False"

definition refs :: "ev_state \<Rightarrow> nat" where
  "refs s = card {t. referencing (ev_pc s t)} + (if is_set s then 0 else 1)"

definition live :: "ev_state \<Rightarrow> bool" where
  "live s \<longleftrightarrow> \<not> is_set s \<or> (\<exists>t. setting (ev_pc s t) \<or> blocked (ev_pc s t))"

text \<open>What holds of a thread while the event is live; the handle of the event does not change then.\<close>

fun live_pc :: "ev_state \<Rightarrow> ev_pc \<Rightarrow> bool" where
  "live_pc s (CloseHandle _ _) = False"
| "live_pc s (ClearHandle _) = False"
| "live_pc s (WaitCas _ h) \<longleftrightarrow> opened s h \<and> h \<noteq> 0 \<and> h \<noteq> EventHandle s \<and> \<not> signalled s h"
| "live_pc s (WaitDrop _ h) \<longleftrightarrow> opened s h \<and> h \<noteq> 0 \<and> h \<noteq> EventHandle s \<and> EventHandle s \<noteq> 0"
| "live_pc s (WaitReread _) \<longleftrightarrow> EventHandle s \<noteq> 0"
| "live_pc s (WaitCheck _ h) \<longleftrightarrow> h = EventHandle s \<and> h \<noteq> 0"
| "live_pc s (WaitBlock _ h) \<longleftrightarrow> h = EventHandle s \<and> h \<noteq> 0"
| "live_pc s (SetSignal h) \<longleftrightarrow> h = EventHandle s \<and> h \<noteq> 0"
| "live_pc s _ = True"

definition live_ok :: "ev_state \<Rightarrow> bool" where
  "live_ok s \<longleftrightarrow>
     (\<forall>t. live_pc s (ev_pc s t)) \<and> (EventHandle s \<noteq> 0 \<longrightarrow> opened s (EventHandle s) \<and> (signalled s (EventHandle s) \<longrightarrow> is_set s))
     \<and> (\<forall>t u h. t \<noteq> u \<longrightarrow> unpublished (ev_pc s t) = Some h \<longrightarrow> unpublished (ev_pc s u) \<noteq> Some h)"

definition count_ok :: "nat \<Rightarrow> ev_state \<Rightarrow> bool" where
  "count_ok N s \<longleftrightarrow>
     (\<forall>t. N \<le> t \<longrightarrow> ev_pc s t = EvIdle) \<and> ev_Value s = of_bool (is_set s) + 2 * of_nat (refs s)
     \<and> (\<forall>t. setting (ev_pc s t) \<or> result_true (ev_pc s t) \<longrightarrow> is_set s)"

text \<open>Nobody is left waiting: a set event has been signalled or is about to be.\<close>

definition wake_ok :: "ev_state \<Rightarrow> bool" where
  "wake_ok s \<longleftrightarrow>
     (\<forall>t timeout h. ev_pc s t = WaitBlock timeout h \<longrightarrow>
        \<not> is_set s \<or> signalled s h \<or> (\<exists>u. ev_pc s u = SetRead \<or> ev_pc s u = SetSignal h))"

definition ev_inv :: "nat \<Rightarrow> ev_state \<Rightarrow> bool" where
  "ev_inv N s \<longleftrightarrow> count_ok N s \<and> (live s \<longrightarrow> live_ok s) \<and> wake_ok s"


section \<open>Preservation\<close>

lemma card_fun_upd:
  assumes "finite {u. P (f u)}"
  shows "card {u. P ((f(t := p)) u)} + of_bool (P (f t)) = card {u. P (f u)} + (of_bool (P p) :: nat)"
proof -
  define A where "A = {u. P (f u)} - {t}"
  have A: "finite A" "t \<notin> A"
    using assms by (auto simp: A_def)
  have "{u. P ((f(t := p)) u)} = (if P p then insert t A else A)" "{u. P (f u)} = (if P (f t) then insert t A else A)"
    by (auto simp: A_def)
  then show ?thesis
    using A by (simp only:) simp
qed

lemma referencing_below: "\<forall>t. N \<le> t \<longrightarrow> ev_pc s t = EvIdle \<Longrightarrow> {t. referencing (ev_pc s t)} \<subseteq> {..<N}"
proof
  fix t
  assume "\<forall>t. N \<le> t \<longrightarrow> ev_pc s t = EvIdle" "t \<in> {t. referencing (ev_pc s t)}"
  then show "t \<in> {..<N}" by (cases "N \<le> t") auto
qed

lemma refs_le: "count_ok N s \<Longrightarrow> refs s \<le> Suc N"
  using card_mono [OF finite_lessThan referencing_below, of N s] by (simp add: refs_def count_ok_def)

text \<open>The effect of an action of one thread on the count: its new position, and whether it sets the event.\<close>

lemma value_arith:
  fixes x :: ulong64
  assumes "x' + 2 * old + B + 2 * n = x + 2 * new + B' + 2 * n'" "x = B + 2 * r"
  shows "x' = B' + 2 * (r + new + n' - old - n)"
proof -
  have "x' = (x + 2 * new + B' + 2 * n') - (2 * old + B + 2 * n)"
    using assms(1) by (simp add: eq_diff_eq algebra_simps)
  then show ?thesis
    unfolding assms(2) by (simp add: algebra_simps)
qed

lemma count_ok_upd:
  assumes "count_ok N s" "t < N" "\<forall>u. u \<noteq> t \<longrightarrow> ev_pc s' u = ev_pc s u"
    "is_set s \<longrightarrow> is_set s'" "setting (ev_pc s' t) \<or> result_true (ev_pc s' t) \<longrightarrow> is_set s'"
    "ev_Value s' + 2 * of_bool (referencing (ev_pc s t)) + of_bool (is_set s) + 2 * of_bool (\<not> is_set s)
      = ev_Value s + 2 * of_bool (referencing (ev_pc s' t)) + of_bool (is_set s') + 2 * of_bool (\<not> is_set s')"
  shows "count_ok N s'"
proof -
  have pc: "ev_pc s' = (ev_pc s)(t := ev_pc s' t)"
    using assms(3) by auto
  have fin: "finite {u. referencing (ev_pc s u)}"
    by (rule finite_subset [OF referencing_below [of N] finite_lessThan]) (use assms(1) in \<open>simp add: count_ok_def\<close>)
  have "card {u. referencing (ev_pc s' u)} + of_bool (referencing (ev_pc s t)) = card {u. referencing (ev_pc s u)} + of_bool (referencing (ev_pc s' t))"
    using card_fun_upd [where P = referencing and f = "ev_pc s" and t = t and p = "ev_pc s' t", OF fin] pc by metis
  then have "refs s' + of_bool (referencing (ev_pc s t)) + of_bool (\<not> is_set s) = refs s + of_bool (referencing (ev_pc s' t)) + of_bool (\<not> is_set s')"
    by (simp add: refs_def)
  then have "(of_nat (refs s' + of_bool (referencing (ev_pc s t)) + of_bool (\<not> is_set s)) :: ulong64)
      = of_nat (refs s + of_bool (referencing (ev_pc s' t)) + of_bool (\<not> is_set s'))"
    by simp
  then have r: "(of_nat (refs s') :: ulong64) = of_nat (refs s) + of_bool (referencing (ev_pc s' t)) + of_bool (\<not> is_set s')
      - of_bool (referencing (ev_pc s t)) - of_bool (\<not> is_set s)"
    by (simp add: algebra_simps)
  have "ev_Value s = of_bool (is_set s) + 2 * of_nat (refs s)"
    using assms(1) unfolding count_ok_def by blast
  from value_arith [OF assms(6) this] have "ev_Value s' = of_bool (is_set s') + 2 * of_nat (refs s')"
    unfolding r .
  moreover have "\<forall>u. N \<le> u \<longrightarrow> ev_pc s' u = EvIdle"
    using assms(1-3) by (auto simp: count_ok_def)
  moreover have "\<forall>u. setting (ev_pc s' u) \<or> result_true (ev_pc s' u) \<longrightarrow> is_set s'"
    using assms(1,3-5) unfolding count_ok_def by metis
  ultimately show ?thesis
    unfolding count_ok_def by blast
qed

lemma deref_count:
  assumes "count_ok N s" "N < 2 ^ 15 - 1"
  shows "(drop_bit 1 (ev_Value s) AND PH_EVENT_REFCOUNT_MASK) - 1 = 0 \<longleftrightarrow> refs s = 1"
proof -
  have "refs s < 2 ^ 15"
    using refs_le [OF assms(1)] assms(2) by simp
  moreover have "ev_Value s = of_bool (is_set s) + 2 * of_nat (refs s)"
    using assms(1) by (simp add: count_ok_def)
  ultimately show ?thesis
    using refcount_one by metis
qed

lemma count_ok_step:
  assumes "count_ok N s" "ev_step N s s'" "live s \<longrightarrow> live_ok s" "N < 2 ^ 15 - 1"
  shows "count_ok N s'"
  using assms(2)
proof cases
  case (set_call t)
  show ?thesis
    by (rule count_ok_upd [OF assms(1) set_call(2)])
      (use set_call in \<open>auto simp: PhSetEvent_def outside_def or_one_eq split: if_splits\<close>)
next
  case (wait_call t timeout)
  show ?thesis
    by (rule count_ok_upd [OF assms(1) wait_call(2)])
      (use wait_call in \<open>auto simp: PhWaitForEvent_def outside_def split: if_splits\<close>)
next
  case (set_run t)
  have "setting (ev_pc s t) \<longrightarrow> is_set s"
    using assms(1) by (simp add: count_ok_def)
  with set_run show ?thesis
    by (intro count_ok_upd [OF assms(1) set_run(1)]; cases "ev_pc s t")
      (auto simp: PhpDereferenceEvent_def Let_def split: if_splits)
next
  case (wait_run t new)
  have res: "result_true (ev_pc s t) \<longrightarrow> is_set s"
    using assms(1) by (simp add: count_ok_def)
  have sig: "is_set s" if "ev_pc s t = WaitBlock timeout h" "signalled s h" for timeout h
  proof (rule ccontr)
    assume "\<not> is_set s"
    then have l: "live_ok s"
      using assms(3) by (simp add: live_def)
    then have "live_pc s (ev_pc s t)"
      unfolding live_ok_def by blast
    with that l \<open>\<not> is_set s\<close> show False
      by (auto simp: live_ok_def)
  qed
  show ?thesis
    using wait_run res sig
    by (intro count_ok_upd [OF assms(1) wait_run(1)]; cases "ev_pc s t")
      (auto simp: PhpDereferenceEvent_def PhpReferenceEvent_def NtClose_def Let_def split: if_splits)
next
  case (timed_out t eventHandle)
  show ?thesis
    by (rule count_ok_upd [OF assms(1) timed_out(2)])
      (use timed_out in \<open>auto\<close>)
next
  case (close_run t)
  have res: "result_true (ev_pc s t) \<longrightarrow> is_set s"
    using assms(1) by (simp add: count_ok_def)
  then show ?thesis
    using close_run
    by (intro count_ok_upd [OF assms(1) close_run(1)]; cases "ev_pc s t")
      (auto simp: NtClose_def split: if_splits)
qed


text \<open>The end of the live time: the last reference goes only when no thread sets or blocks.\<close>

lemma not_live:
  assumes "count_ok N s" "refs s = 1" "referencing (ev_pc s t)"
  shows "is_set s" "u \<noteq> t \<Longrightarrow> \<not> setting (ev_pc s u) \<and> \<not> blocked (ev_pc s u)"
proof -
  let ?R = "{t. referencing (ev_pc s t)}"
  have fin: "finite ?R"
    by (rule finite_subset [OF referencing_below [of N] finite_lessThan]) (use assms(1) in \<open>simp add: count_ok_def\<close>)
  then have pos: "0 < card ?R"
    using assms(3) by (auto simp: card_gt_0_iff)
  then have one: "is_set s \<and> card ?R = 1"
    using assms(2) by (auto simp: refs_def split: if_splits)
  then show "is_set s" ..
  obtain x where x: "?R = {x}"
    using one card_1_singletonE by blast
  show "\<not> setting (ev_pc s u) \<and> \<not> blocked (ev_pc s u)" if "u \<noteq> t"
  proof -
    have "t \<in> ?R" using assms(3) by simp
    then have "u \<notin> ?R" using x that by auto
    then show ?thesis
      by (cases "ev_pc s u") auto
  qed
qed

lemma live_mono:
  assumes "count_ok N s" "ev_step N s s'" "live s'" "live s \<longrightarrow> live_ok s" "N < 2 ^ 15 - 1"
  shows "live s"
proof (rule ccontr)
  assume "\<not> live s"
  then have d: "is_set s" "\<And>t. \<not> setting (ev_pc s t) \<and> \<not> blocked (ev_pc s t)"
    by (auto simp: live_def)
  from assms(2) have "is_set s' \<and> (\<forall>t. \<not> setting (ev_pc s' t) \<and> \<not> blocked (ev_pc s' t))"
  proof cases
    case (set_call t)
    then show ?thesis using d by (auto simp: PhSetEvent_def or_one_eq)
  next
    case (wait_call t timeout)
    then show ?thesis using d by (auto simp: PhWaitForEvent_def)
  next
    case (set_run t)
    then show ?thesis using d(2) [of t] by (cases "ev_pc s t") auto
  next
    case (wait_run t new)
    then show ?thesis
      using d(1) d(2) [of t] d(2)
      by (cases "ev_pc s t")
        (auto simp: PhpDereferenceEvent_def PhpReferenceEvent_def NtClose_def Let_def split: if_splits)
  next
    case (timed_out t eventHandle)
    then show ?thesis using d by auto
  next
    case (close_run t)
    then show ?thesis
      using d by (cases "ev_pc s t") (auto simp: NtClose_def split: if_splits)
  qed
  then show False
    using assms(3) by (auto simp: live_def)
qed


lemma live_pc_data:
  "EventHandle s' = EventHandle s \<Longrightarrow> opened s' = opened s \<Longrightarrow> signalled s' = signalled s \<Longrightarrow> live_pc s' p = live_pc s p"
  by (cases p) auto

lemma live_ok_upd:
  assumes "live_ok s" "\<forall>u. u \<noteq> t \<longrightarrow> ev_pc s' u = ev_pc s u"
    "\<forall>u. u \<noteq> t \<longrightarrow> live_pc s (ev_pc s u) \<longrightarrow> live_pc s' (ev_pc s u)" "live_pc s' (ev_pc s' t)"
    "EventHandle s' \<noteq> 0 \<longrightarrow> opened s' (EventHandle s') \<and> (signalled s' (EventHandle s') \<longrightarrow> is_set s')"
    "\<forall>u h. u \<noteq> t \<longrightarrow> unpublished (ev_pc s' t) = Some h \<longrightarrow> unpublished (ev_pc s u) \<noteq> Some h"
  shows "live_ok s'"
proof -
  have lpc: "live_pc s' (ev_pc s' u)" for u
    using assms(1-4) by (cases "u = t") (auto simp: live_ok_def)
  have inj: "\<forall>u v h. u \<noteq> v \<longrightarrow> unpublished (ev_pc s u) = Some h \<longrightarrow> unpublished (ev_pc s v) \<noteq> Some h"
    using assms(1) unfolding live_ok_def by (elim conjE)
  have unp: "unpublished (ev_pc s' v) \<noteq> Some h" if "unpublished (ev_pc s' u) = Some h" "u \<noteq> v" for u v h
  proof (cases "u = t")
    case True
    then show ?thesis using that assms(2,6) by metis
  next
    case False
    then have u: "unpublished (ev_pc s u) = Some h"
      using that(1) assms(2) by simp
    show ?thesis
    proof (cases "v = t")
      case True
      then show ?thesis using u False assms(6) by metis
    next
      case v: False
      then show ?thesis using u that(2) inj assms(2) by metis
    qed
  qed
  show ?thesis
    unfolding live_ok_def
  proof (intro conjI allI)
    show "live_pc s' (ev_pc s' u)" for u
      by (rule lpc)
    show "EventHandle s' \<noteq> 0 \<longrightarrow> opened s' (EventHandle s') \<and> (signalled s' (EventHandle s') \<longrightarrow> is_set s')"
      by (rule assms(5))
    show "u \<noteq> v \<longrightarrow> unpublished (ev_pc s' u) = Some h \<longrightarrow> unpublished (ev_pc s' v) \<noteq> Some h" for u v h
      using unp by blast
  qed
qed

text \<open>An action that changes neither the handle nor the kernel events.\<close>

lemma live_ok_goto:
  assumes "live_ok s" "\<forall>u. u \<noteq> t \<longrightarrow> ev_pc s' u = ev_pc s u"
    "EventHandle s' = EventHandle s" "opened s' = opened s" "signalled s' = signalled s" "is_set s \<longrightarrow> is_set s'"
    "live_pc s (ev_pc s' t)" "unpublished (ev_pc s' t) = None \<or> unpublished (ev_pc s' t) = unpublished (ev_pc s t)"
  shows "live_ok s'"
proof (rule live_ok_upd [OF assms(1,2)])
  show "\<forall>u. u \<noteq> t \<longrightarrow> live_pc s (ev_pc s u) \<longrightarrow> live_pc s' (ev_pc s u)" "live_pc s' (ev_pc s' t)"
    using live_pc_data [OF assms(3-5)] assms(7) by simp_all
  show "EventHandle s' \<noteq> 0 \<longrightarrow> opened s' (EventHandle s') \<and> (signalled s' (EventHandle s') \<longrightarrow> is_set s')"
    using assms(1,3-6) by (simp add: live_ok_def)
  show "\<forall>u h. u \<noteq> t \<longrightarrow> unpublished (ev_pc s' t) = Some h \<longrightarrow> unpublished (ev_pc s u) \<noteq> Some h"
    using assms(1,8) unfolding live_ok_def by (metis option.discI)
qed

lemma deref_live_ok:
  assumes "count_ok N s" "live_ok s" "referencing (ev_pc s t)" "live (PhpDereferenceEvent s t h r)" "N < 2 ^ 15 - 1"
  shows "live_ok (PhpDereferenceEvent s t h r)"
proof (cases "refs s = 1")
  case True
  have "\<not> live (PhpDereferenceEvent s t h r)"
    using not_live [OF assms(1) True assms(3)] by (auto simp: live_def PhpDereferenceEvent_def Let_def)
  with assms(4) show ?thesis by simp
next
  case False
  then have "PhpDereferenceEvent s t h r = ev_goto (s\<lparr>ev_Value := ev_Value s - 2\<rparr>) t (Returned r)"
    using deref_count [OF assms(1,5)] by (simp add: PhpDereferenceEvent_def Let_def)
  then show ?thesis
    by (intro live_ok_goto [OF assms(2), of t]) simp_all
qed

lemma live_ok_step:
  assumes "count_ok N s" "ev_step N s s'" "live s'" "live_ok s" "N < 2 ^ 15 - 1"
  shows "live_ok s'"
  using assms(2)
proof cases
  case (set_call t)
  then show ?thesis
    by (intro live_ok_goto [OF assms(4), of t]) (auto simp: PhSetEvent_def or_one_eq)
next
  case (wait_call t timeout)
  then show ?thesis
    by (intro live_ok_goto [OF assms(4), of t]) (auto simp: PhWaitForEvent_def)
next
  case (timed_out t eventHandle)
  then show ?thesis
    by (intro live_ok_goto [OF assms(4), of t]) auto
next
  case (close_run t)
  have "live_pc s (ev_pc s t)"
    using assms(4) by (simp add: live_ok_def)
  then show ?thesis
    using close_run by (cases "ev_pc s t") auto
next
  case (set_run t)
  have lp: "live_pc s (ev_pc s t)" "setting (ev_pc s t) \<longrightarrow> is_set s"
    using assms(1,4) by (simp_all add: live_ok_def count_ok_def)
  show ?thesis
  proof (cases "ev_pc s t")
    case SetRead
    then show ?thesis
      using set_run by (intro live_ok_goto [OF assms(4), of t]) auto
  next
    case (SetSignal h)
    then have s': "s' = ev_goto (s\<lparr>signalled := (signalled s)(h := True)\<rparr>) t (SetDeref h)"
      using set_run by simp
    have h: "h = EventHandle s" "is_set s"
      using lp SetSignal by simp_all
    have "live_pc s p \<longrightarrow> live_pc s' p" for p
      using s' h by (cases p) auto
    then show ?thesis
      using s' h assms(4) by (intro live_ok_upd [OF assms(4), of t]) (auto simp: live_ok_def)
  next
    case (SetDeref h)
    then show ?thesis
      using set_run deref_live_ok [OF assms(1,4), of t h True] assms(3,5) by simp
  qed (use set_run in auto)
next
  case (wait_run t new)
  have lp: "live_pc s (ev_pc s t)"
    and eh: "EventHandle s \<noteq> 0 \<longrightarrow> opened s (EventHandle s) \<and> (signalled s (EventHandle s) \<longrightarrow> is_set s)"
    and inj: "unpublished (ev_pc s t) = Some h \<Longrightarrow> u \<noteq> t \<Longrightarrow> unpublished (ev_pc s u) \<noteq> Some h" for u h
    using assms(4) unfolding live_ok_def by blast+
  have others: "live_pc s (ev_pc s u)" for u
    using assms(4) by (simp add: live_ok_def)
  show ?thesis
  proof (cases "ev_pc s t")
    case (WaitTest timeout)
    then show ?thesis
      using wait_run by (intro live_ok_goto [OF assms(4), of t]) auto
  next
    case (WaitRef timeout)
    then show ?thesis
      using wait_run by (intro live_ok_goto [OF assms(4), of t]) (auto simp: PhpReferenceEvent_def)
  next
    case (WaitRead timeout)
    then show ?thesis
      using wait_run by (intro live_ok_goto [OF assms(4), of t]) auto
  next
    case (WaitCreate timeout)
    then have new: "new \<noteq> 0" "\<not> opened s new" and
      s': "s' = ev_goto (s\<lparr>opened := (opened s)(new := True), signalled := (signalled s)(new := False)\<rparr>) t (WaitCas timeout new)"
      using wait_run by (auto split: if_splits)
    have ne: "EventHandle s \<noteq> new"
      using eh new by auto
    have "live_pc s p \<longrightarrow> live_pc s' p" for p
      using s' by (cases p) auto
    moreover have "unpublished (ev_pc s u) \<noteq> Some new" for u
      using others [of u] new by (cases "ev_pc s u") auto
    ultimately show ?thesis
      using s' eh ne new by (intro live_ok_upd [OF assms(4), of t]) auto
  next
    case (WaitCas timeout h)
    show ?thesis
    proof (cases "EventHandle s = 0")
      case True
      then have s': "s' = ev_goto (s\<lparr>EventHandle := h\<rparr>) t (WaitCheck timeout h)"
        using wait_run WaitCas by simp
      have "live_pc s' (ev_pc s u)" if "u \<noteq> t" for u
        using s' others [of u] inj [of h u] that True WaitCas by (cases "ev_pc s u") auto
      then show ?thesis
        using s' lp WaitCas by (intro live_ok_upd [OF assms(4), of t]) auto
    next
      case False
      then show ?thesis
        using wait_run WaitCas lp by (intro live_ok_goto [OF assms(4), of t]) auto
    qed
  next
    case (WaitDrop timeout h)
    then have s': "s' = ev_goto (NtClose s h) t (WaitReread timeout)"
      using wait_run by simp
    have "live_pc s' (ev_pc s u)" if "u \<noteq> t" for u
      using s' others [of u] inj [of h u] that WaitDrop by (cases "ev_pc s u") (auto simp: NtClose_def)
    then show ?thesis
      using s' lp eh WaitDrop by (intro live_ok_upd [OF assms(4), of t]) (auto simp: NtClose_def)
  next
    case (WaitReread timeout)
    then show ?thesis
      using wait_run lp by (intro live_ok_goto [OF assms(4), of t]) auto
  next
    case (WaitCheck timeout h)
    then show ?thesis
      using wait_run lp by (intro live_ok_goto [OF assms(4), of t]) auto
  next
    case (WaitBlock timeout h)
    then show ?thesis
      using wait_run lp by (intro live_ok_goto [OF assms(4), of t]) (auto split: if_splits)
  next
    case (WaitDeref h r)
    then show ?thesis
      using wait_run deref_live_ok [OF assms(1,4), of t h r] assms(3,5) by simp
  qed (use wait_run in auto)
qed


lemma wake_ok_upd:
  assumes "wake_ok s" "\<forall>u. u \<noteq> t \<longrightarrow> ev_pc s' u = ev_pc s u" "is_set s' \<longrightarrow> is_set s \<or> ev_pc s' t = SetRead"
    "\<forall>u timeout h. ev_pc s u = WaitBlock timeout h \<longrightarrow> signalled s h \<longrightarrow> signalled s' h"
    "ev_pc s t = SetRead \<longrightarrow> (\<forall>u timeout h. ev_pc s u = WaitBlock timeout h \<longrightarrow> ev_pc s' t = SetSignal h)"
    "\<forall>h. ev_pc s t = SetSignal h \<longrightarrow> signalled s' h"
    "\<forall>timeout h. ev_pc s' t = WaitBlock timeout h \<longrightarrow> \<not> is_set s'"
  shows "wake_ok s'"
  unfolding wake_ok_def
proof (intro allI impI)
  fix v timeout h
  assume b: "ev_pc s' v = WaitBlock timeout h"
  show "\<not> is_set s' \<or> signalled s' h \<or> (\<exists>u. ev_pc s' u = SetRead \<or> ev_pc s' u = SetSignal h)"
  proof (cases "v = t")
    case True
    then show ?thesis using b assms(7) by blast
  next
    case False
    then have bv: "ev_pc s v = WaitBlock timeout h"
      using b assms(2) by simp
    consider "\<not> is_set s" | "signalled s h" | u where "ev_pc s u = SetRead \<or> ev_pc s u = SetSignal h"
      using assms(1) bv unfolding wake_ok_def by blast
    then show ?thesis
    proof cases
      case 1
      then show ?thesis using assms(3) by blast
    next
      case 2
      then show ?thesis using assms(4) bv by blast
    next
      case 3
      then show ?thesis using assms(2,5,6) bv by (cases "u = t") metis+
    qed
  qed
qed

lemma wait_block_open:
  assumes "live s \<longrightarrow> live_ok s" "ev_pc s u = WaitBlock timeout h"
  shows "h = EventHandle s \<and> h \<noteq> 0 \<and> opened s h"
proof -
  have "live s" unfolding live_def using assms(2) by (metis blocked.simps(1))
  then have l: "live_ok s" using assms(1) by blast
  then have "live_pc s (ev_pc s u)" by (simp add: live_ok_def)
  moreover have "EventHandle s \<noteq> 0 \<longrightarrow> opened s (EventHandle s)"
    using l unfolding live_ok_def by blast
  ultimately show ?thesis using assms(2) by auto
qed

lemma wake_ok_step:
  assumes "wake_ok s" "ev_step N s s'" "live s \<longrightarrow> live_ok s"
  shows "wake_ok s'"
proof -
  note blk = wait_block_open [OF assms(3)]
  from assms(2) show ?thesis
  proof cases
    case (set_call t)
    then show ?thesis
      by (intro wake_ok_upd [OF assms(1), of t]) (auto simp: PhSetEvent_def outside_def or_one_eq)
  next
    case (wait_call t timeout)
    then show ?thesis
      by (intro wake_ok_upd [OF assms(1), of t]) (auto simp: PhWaitForEvent_def outside_def)
  next
    case (timed_out t eventHandle)
    then show ?thesis
      by (intro wake_ok_upd [OF assms(1), of t]) auto
  next
    case (close_run t)
    then show ?thesis
      by (intro wake_ok_upd [OF assms(1), of t]; cases "ev_pc s t") (auto simp: NtClose_def)
  next
    case (set_run t)
    show ?thesis
    proof (cases "ev_pc s t")
      case SetRead
      then show ?thesis
        using set_run blk by (intro wake_ok_upd [OF assms(1), of t]) (auto split: if_splits)
    next
      case (SetSignal h)
      then show ?thesis
        using set_run by (intro wake_ok_upd [OF assms(1), of t]) auto
    next
      case (SetDeref h)
      then show ?thesis
        using set_run by (intro wake_ok_upd [OF assms(1), of t]) (auto simp: PhpDereferenceEvent_def Let_def split: if_splits)
    qed (use set_run in auto)
  next
    case (wait_run t new)
    have new: "ev_pc s t = WaitCreate timeout \<Longrightarrow> ev_pc s u = WaitBlock timeout' h \<Longrightarrow> h \<noteq> new" for timeout timeout' u h
      using wait_run blk [of u] by (auto split: if_splits)
    then show ?thesis
      using wait_run
      by (intro wake_ok_upd [OF assms(1), of t]; cases "ev_pc s t")
        (auto simp: PhpDereferenceEvent_def PhpReferenceEvent_def NtClose_def Let_def split: if_splits)
  qed
qed

lemma ev_inv_step:
  assumes "ev_inv N s" "ev_step N s s'" "N < 2 ^ 15 - 1"
  shows "ev_inv N s'"
  using assms count_ok_step live_ok_step live_mono wake_ok_step unfolding ev_inv_def by metis

lemma ev_inv_start: "ev_start s \<Longrightarrow> ev_inv N s"
  by (auto simp: ev_start_def ev_inv_def count_ok_def live_ok_def wake_ok_def refs_def)

lemma ev_inv_steps: "ev_steps N s s' \<Longrightarrow> ev_inv N s \<Longrightarrow> N < 2 ^ 15 - 1 \<Longrightarrow> ev_inv N s'"
  by (induction rule: rtranclp_induct) (auto intro: ev_inv_step)


section \<open>Schedules\<close>

datatype ev_action = SetCall nat | WaitCall nat timeout | SetRun nat | WaitRun nat ulong64 | CloseRun nat

fun ev_act :: "ev_state \<Rightarrow> ev_action \<Rightarrow> ev_state option" where
  "ev_act s (SetCall t) = (if outside (ev_pc s t) then Some (PhSetEvent s t) else None)"
| "ev_act s (WaitCall t timeout) = (if outside (ev_pc s t) then Some (PhWaitForEvent s t timeout) else None)"
| "ev_act s (SetRun t) = PhfSetEvent s t (ev_pc s t)"
| "ev_act s (WaitRun t new) = PhfWaitForEvent s t new (ev_pc s t)"
| "ev_act s (CloseRun t) = close_event s t (ev_pc s t)"

fun ev_thread :: "ev_action \<Rightarrow> nat" where
  "ev_thread (SetCall t) = t"
| "ev_thread (WaitCall t _) = t"
| "ev_thread (SetRun t) = t"
| "ev_thread (WaitRun t _) = t"
| "ev_thread (CloseRun t) = t"

fun ev_schedule :: "ev_state \<Rightarrow> ev_action list \<Rightarrow> ev_state option" where
  "ev_schedule s [] = Some s"
| "ev_schedule s (a # as) = Option.bind (ev_act s a) (\<lambda>s. ev_schedule s as)"

lemma ev_act_step: "ev_thread a < N \<Longrightarrow> ev_act s a = Some s' \<Longrightarrow> ev_step N s s'"
  by (cases a) (auto intro: ev_step.intros split: if_splits)

lemma ev_schedule_steps:
  "ev_schedule s as = Some s' \<Longrightarrow> list_all (\<lambda>a. ev_thread a < N) as \<Longrightarrow> ev_steps N s s'"
proof (induction as arbitrary: s)
  case (Cons a as)
  then obtain s1 where "ev_act s a = Some s1" "ev_schedule s1 as = Some s'"
    by (auto simp: bind_eq_Some_conv)
  with Cons show ?case
    using ev_act_step [of a N s s1] by (auto intro: converse_rtranclp_into_rtranclp)
qed simp

definition ev_init :: ev_state where
  "ev_init = PhInitializeEvent
     \<lparr> ev_Value = 0, EventHandle = 9, opened = (\<lambda>_. False), signalled = (\<lambda>_. False), bad_close = False, ev_pc = (\<lambda>_. EvIdle) \<rparr>"

lemma ev_init_start: "ev_start ev_init"
  by (simp add: ev_start_def ev_init_def PhInitializeEvent_def)

lemmas ev_compute = ev_init_def PhInitializeEvent_def PhSetEvent_def PhWaitForEvent_def PhpReferenceEvent_def
  PhpDereferenceEvent_def PH_EVENT_REFCOUNT_MASK_def NtClose_def outside_def

text \<open>
  Two waiters pass the first test before the event is set. The first of them creates a handle and drops
  the last reference; the second one takes a reference and reads the handle before it is cleared.
\<close>

definition double_close :: "ev_action list" where
  "double_close =
     [WaitCall 1 NoTimeout, WaitCall 2 NoTimeout, WaitRun 1 0, WaitRun 2 0, SetCall 0, SetRun 0, SetRun 0,
      WaitRun 1 0, WaitRun 1 0, WaitRun 1 8, WaitRun 1 0, WaitRun 1 0, WaitRun 1 0,
      WaitRun 2 0, WaitRun 2 0, CloseRun 1, WaitRun 2 0, WaitRun 2 0, CloseRun 2]"

lemma double_close_result: "\<exists>s. ev_schedule ev_init double_close = Some s \<and> bad_close s"
  by (simp add: double_close_def ev_compute)

text \<open>A waiter returns while the thread that set the event has still to read and to dereference it.\<close>

definition early_return :: "ev_action list" where
  "early_return = [SetCall 0, WaitCall 1 NoTimeout]"

lemma early_return_result:
  "\<exists>s. ev_schedule ev_init early_return = Some s \<and> ev_pc s 1 = Returned True \<and> ev_pc s 0 = SetRead"
  by (simp add: early_return_def ev_compute)

section \<open>Properties\<close>

text \<open>
  C17. A wait never blocks on a set event: when a thread is about to wait for the kernel event, the handle
  is open, and once the event is set and the thread that set it has passed the signal, it is signalled.
  A wait that returns \<open>TRUE\<close> has seen the event set. For fewer than \<open>2 ^ 15 - 1\<close> threads, the range of the
  reference count.
\<close>

theorem PhfWaitForEvent_no_lost_wakeup:
  assumes "ev_start s0" "ev_steps N s0 s" "N < 2 ^ 15 - 1"
  shows "(\<forall>t timeout h. ev_pc s t = WaitBlock timeout h \<longrightarrow>
      h \<noteq> 0 \<and> h = EventHandle s \<and> opened s h
      \<and> (is_set s \<longrightarrow> signalled s h \<or> (\<exists>u. ev_pc s u = SetRead \<or> ev_pc s u = SetSignal h)))
    \<and> (\<forall>t. ev_pc s t = Returned True \<longrightarrow> is_set s)"
proof -
  have inv: "count_ok N s" "live s \<longrightarrow> live_ok s" "wake_ok s"
    using ev_inv_steps [OF assms(2) ev_inv_start [OF assms(1)] assms(3)] by (simp_all add: ev_inv_def)
  have "h \<noteq> 0 \<and> h = EventHandle s \<and> opened s h" if "ev_pc s t = WaitBlock timeout h" for t timeout h
    using wait_block_open [OF inv(2) that] by blast
  moreover have "is_set s \<longrightarrow> signalled s h \<or> (\<exists>u. ev_pc s u = SetRead \<or> ev_pc s u = SetSignal h)"
    if "ev_pc s t = WaitBlock timeout h" for t timeout h
    using inv(3) that unfolding wake_ok_def by blast
  moreover have "is_set s" if "ev_pc s t = Returned True" for t
    using inv(1) that unfolding count_ok_def by (metis result_true.simps(4))
  ultimately show ?thesis by blast
qed

theorem PhfWaitForEvent_no_lost_wakeup_witness:
  "\<exists>s. ev_schedule ev_init [WaitCall 1 NoTimeout, WaitRun 1 0, WaitRun 1 0, WaitRun 1 0, WaitRun 1 8, WaitRun 1 0, WaitRun 1 0] = Some s
     \<and> ev_pc s 1 = WaitBlock NoTimeout 8 \<and> opened s 8"
proof -
  obtain s where s: "ev_schedule ev_init [WaitCall 1 NoTimeout, WaitRun 1 0, WaitRun 1 0, WaitRun 1 0, WaitRun 1 8, WaitRun 1 0, WaitRun 1 0] = Some s"
      "ev_pc s 1 = WaitBlock NoTimeout 8"
    by (simp add: ev_compute)
  have "ev_steps 2 ev_init s"
    by (rule ev_schedule_steps [OF s(1)]) simp
  from PhfWaitForEvent_no_lost_wakeup [OF ev_init_start this] s show ?thesis
    by auto
qed

text \<open>
  C34. Two races. With two waiters a handle can be closed twice, the second time when it is no longer open
  and perhaps stands for another object. And a waiter can return, and give up the memory of the event,
  while the thread that set it has not yet finished its accesses to the event.
\<close>

theorem PhpDereferenceEvent_races:
  "(\<exists>s. ev_steps 3 ev_init s \<and> bad_close s)
   \<and> (\<exists>s. ev_steps 3 ev_init s \<and> ev_pc s 1 = Returned True \<and> ev_pc s 0 = SetRead)"
proof -
  obtain s where s: "ev_schedule ev_init double_close = Some s" "bad_close s"
    using double_close_result by blast
  obtain u where u: "ev_schedule ev_init early_return = Some u" "ev_pc u 1 = Returned True" "ev_pc u 0 = SetRead"
    using early_return_result by blast
  have "ev_steps 3 ev_init s" "ev_steps 3 ev_init u"
    by (rule ev_schedule_steps [OF s(1)] ev_schedule_steps [OF u(1)];
      simp add: double_close_def early_return_def)+
  with s(2) u(2,3) show ?thesis by blast
qed

end
