(* ===== verification/PhCircularBuffer.thy ===== *)
theory PhCircularBuffer
  imports PhNumeric PhSequence
begin

text \<open>
  The circular buffers of \<open>phlib/circbuf_i.h\<close> and \<open>phlib/include/circbuf_h.h\<close>, which keep the samples
  of the graphs. \<open>circbuf.h\<close> defines \<open>PH_CIRCULAR_BUFFER_POWER_OF_TWO_SIZE\<close>, so that an index is
  reduced with a mask; the template parameter \<open>T\<close> is the type variable. \<open>Index\<close> is the position of the
  newest item and older items follow it, modulo the size. The data block is a list of cells as in the
  other containers, \<open>None\<close> for a cell never written.
\<close>

section \<open>The operations\<close>

record 'a PH_CIRCULAR_BUFFER =
  cb_Size :: ulong
  cb_SizeMinusOne :: ulong
  cb_Count :: ulong
  cb_Index :: ulong
  cb_Data :: "'a option list"

definition PhInitializeCircularBuffer :: "ulong \<Rightarrow> 'a PH_CIRCULAR_BUFFER" where
  "PhInitializeCircularBuffer sz =
     (let sz = PhRoundUpToPowerOfTwo sz
      in \<lparr> cb_Size = sz, cb_SizeMinusOne = sz - 1, cb_Count = 0, cb_Index = 0,
           cb_Data = PhAllocate (unat sz) \<rparr>)"

definition memcpy :: "'a list \<Rightarrow> nat \<Rightarrow> 'a list \<Rightarrow> nat \<Rightarrow> nat \<Rightarrow> 'a list option" where
  "memcpy dst doff src soff n = Option.bind (mem_read src soff n) (mem_write dst doff)"

definition PhResizeCircularBuffer :: "'a PH_CIRCULAR_BUFFER \<Rightarrow> ulong \<Rightarrow> 'a PH_CIRCULAR_BUFFER option" where
  "PhResizeCircularBuffer b newSize =
     (let newSize = PhRoundUpToPowerOfTwo newSize
      in if newSize = cb_Size b then Some b
         else
           let newData = PhAllocate (unat newSize);
               tailSize = cb_Size b - cb_Index b;
               headSize = cb_Count b - tailSize
           in Option.bind
                (if newSize > cb_Size b then
                   Option.bind (memcpy newData 0 (cb_Data b) (unat (cb_Index b)) (unat tailSize)) (\<lambda>newData.
                   Option.bind (memcpy newData (unat tailSize) (cb_Data b) 0 (unat headSize)) (\<lambda>newData.
                   Some (newData, cb_Count b)))
                 else
                   Option.bind
                     (if tailSize \<ge> newSize then
                        memcpy newData 0 (cb_Data b) (unat (cb_Index b)) (unat newSize)
                      else
                        Option.bind (memcpy newData 0 (cb_Data b) (unat (cb_Index b)) (unat tailSize)) (\<lambda>newData.
                        memcpy newData (unat tailSize) (cb_Data b) 0 (unat (newSize - tailSize))))
                     (\<lambda>newData. Some (newData, if cb_Count b > newSize then newSize else cb_Count b)))
                (\<lambda>(newData, count).
                   Some (b\<lparr>cb_Index := 0, cb_Count := count, cb_Data := newData, cb_Size := newSize,
                           cb_SizeMinusOne := newSize - 1\<rparr>)))"

definition PhClearCircularBuffer :: "'a PH_CIRCULAR_BUFFER \<Rightarrow> 'a PH_CIRCULAR_BUFFER" where
  "PhClearCircularBuffer b = b\<lparr>cb_Count := 0, cb_Index := 0\<rparr>"

definition PhCopyCircularBuffer ::
    "'a PH_CIRCULAR_BUFFER \<Rightarrow> 'a option list \<Rightarrow> ulong \<Rightarrow> 'a option list option" where
  "PhCopyCircularBuffer b destination count =
     (let tailSize = cb_Size b - cb_Index b;
          count = (if count > cb_Count b then cb_Count b else count)
      in if tailSize \<ge> count then
           memcpy destination 0 (cb_Data b) (unat (cb_Index b)) (unat count)
         else
           Option.bind (memcpy destination 0 (cb_Data b) (unat (cb_Index b)) (unat tailSize)) (\<lambda>destination.
           memcpy destination (unat tailSize) (cb_Data b) 0 (unat (count - tailSize))))"

text \<open>\<open>Data[i]\<close>, read or written; \<open>None\<close> when the index leaves the block.\<close>

definition cell_at :: "'a option list \<Rightarrow> nat \<Rightarrow> 'a option option" where
  "cell_at d i = (if i < length d then Some (d ! i) else None)"

definition set_cell :: "'a option list \<Rightarrow> nat \<Rightarrow> 'a \<Rightarrow> 'a option list option" where
  "set_cell d i v = (if i < length d then Some (d[i := Some v]) else None)"

definition PhGetItemCircularBuffer :: "'a PH_CIRCULAR_BUFFER \<Rightarrow> ulong \<Rightarrow> 'a option option" where
  "PhGetItemCircularBuffer b index =
     cell_at (cb_Data b) (unat ((cb_Index b + index) AND cb_SizeMinusOne b))"

definition PhSetItemCircularBuffer ::
    "'a PH_CIRCULAR_BUFFER \<Rightarrow> ulong \<Rightarrow> 'a \<Rightarrow> 'a PH_CIRCULAR_BUFFER option" where
  "PhSetItemCircularBuffer b index v =
     Option.bind (set_cell (cb_Data b) (unat ((cb_Index b + index) AND cb_SizeMinusOne b)) v) (\<lambda>d.
     Some (b\<lparr>cb_Data := d\<rparr>))"

definition PhAddItemCircularBuffer :: "'a PH_CIRCULAR_BUFFER \<Rightarrow> 'a \<Rightarrow> 'a PH_CIRCULAR_BUFFER option" where
  "PhAddItemCircularBuffer b v =
     (let index = (cb_Index b - 1) AND cb_SizeMinusOne b
      in Option.bind (set_cell (cb_Data b) (unat index) v) (\<lambda>d.
         Some (b\<lparr>cb_Index := index, cb_Data := d,
                 cb_Count := (if cb_Count b < cb_Size b then cb_Count b + 1 else cb_Count b)\<rparr>)))"

definition PhAddItemCircularBuffer2 ::
    "'a PH_CIRCULAR_BUFFER \<Rightarrow> 'a \<Rightarrow> ('a option \<times> 'a PH_CIRCULAR_BUFFER) option" where
  "PhAddItemCircularBuffer2 b v =
     (let index = (cb_Index b - 1) AND cb_SizeMinusOne b
      in Option.bind (cell_at (cb_Data b) (unat index)) (\<lambda>oldValue.
         Option.bind (set_cell (cb_Data b) (unat index) v) (\<lambda>d.
         Some (oldValue, b\<lparr>cb_Index := index, cb_Data := d,
                 cb_Count := (if cb_Count b < cb_Size b then cb_Count b + 1 else cb_Count b)\<rparr>))))"

section \<open>The items of a buffer\<close>

text \<open>
  The invariant: the size is a power of two and that of the block, the mask matches it, and index and
  count are in range. The items, from the newest to the oldest, are the cells behind the index.
\<close>

definition cb_ok :: "'a PH_CIRCULAR_BUFFER \<Rightarrow> bool" where
  "cb_ok b \<longleftrightarrow> (\<exists>k\<le>31. cb_Size b = 2 ^ k) \<and> cb_SizeMinusOne b = cb_Size b - 1
     \<and> length (cb_Data b) = unat (cb_Size b) \<and> cb_Index b < cb_Size b \<and> cb_Count b \<le> cb_Size b"

definition cyclic :: "'a list \<Rightarrow> nat \<Rightarrow> nat \<Rightarrow> 'a list" where
  "cyclic d i n = map (\<lambda>j. d ! ((i + j) mod length d)) [0..<n]"

definition cb_items :: "'a PH_CIRCULAR_BUFFER \<Rightarrow> 'a option list" where
  "cb_items b = cyclic (cb_Data b) (unat (cb_Index b)) (unat (cb_Count b))"

lemma cyclic_length [simp]: "length (cyclic d i n) = n"
  by (simp add: cyclic_def)

lemma cyclic_nth: "j < n \<Longrightarrow> cyclic d i n ! j = d ! ((i + j) mod length d)"
  by (simp add: cyclic_def)

lemma cyclic_take: "take m (cyclic d i n) = cyclic d i (min m n)"
  by (cases "m \<le> n") (simp_all add: cyclic_def take_map)

text \<open>The first items are the tail of the block, the next ones its head.\<close>

lemma cyclic_tail: "i + n \<le> length d \<Longrightarrow> cyclic d i n = take n (drop i d)"
  by (rule nth_equalityI) (auto simp: cyclic_nth)

lemma cyclic_split:
  assumes "i < length d" "length d - i \<le> n" "n \<le> length d"
  shows "cyclic d i n = drop i d @ take (n - (length d - i)) d"
proof (rule nth_equalityI)
  show "length (cyclic d i n) = length (drop i d @ take (n - (length d - i)) d)"
    using assms by simp
next
  fix j assume j: "j < length (cyclic d i n)"
  show "cyclic d i n ! j = (drop i d @ take (n - (length d - i)) d) ! j"
  proof (cases "i + j < length d")
    case True
    moreover from True have "j < length d - i" using assms by linarith
    ultimately show ?thesis using j by (simp add: cyclic_nth nth_append)
  next
    case False
    then have "(i + j) mod length d = i + j - length d"
      using j assms by (simp add: mod_if)
    with False j assms show ?thesis
      by (auto simp: cyclic_nth nth_append intro!: arg_cong [where f = "nth d"])
  qed
qed

lemma mod_double: "a < 2 * s \<Longrightarrow> a mod s = (if a < s then a else a - (s :: nat))"
  by (simp add: mod_if)

lemma cyclic_add:
  assumes "i < length d" "n \<le> length d"
  shows "cyclic (d[(i + length d - 1) mod length d := x]) ((i + length d - 1) mod length d)
           (if n < length d then n + 1 else n)
         = take (length d) (x # cyclic d i n)"
    (is "cyclic (d[?p := x]) ?p ?n = _")
proof (rule nth_equalityI)
  show "length (cyclic (d[?p := x]) ?p ?n) = length (take (length d) (x # cyclic d i n))"
    using assms by (auto simp: min_def)
next
  fix j assume "j < length (cyclic (d[?p := x]) ?p ?n)"
  then have j: "j < ?n" "j < length d" using assms by (auto split: if_splits)
  have p: "?p < length d" "?p = (if i = 0 then length d - 1 else i - 1)"
    using assms by (auto simp: mod_double)
  show "cyclic (d[?p := x]) ?p ?n ! j = take (length d) (x # cyclic d i n) ! j"
  proof (cases j)
    case 0
    with j p(1) show ?thesis by (simp add: cyclic_nth)
  next
    case (Suc m)
    have m: "m < n" "Suc m < length d" using j Suc assms by (auto split: if_splits)
    have e: "(?p + Suc m) mod length d = (i + m) mod length d"
      using assms m unfolding p(2) by (cases i) (auto simp: mod_double)
    have "(i + m) mod length d \<noteq> ?p"
      using assms m unfolding p(2) by (cases i) (auto simp: mod_double)
    then show ?thesis
      using m j e Suc by (simp add: cyclic_nth nth_list_update_neq)
  qed
qed

lemma cyclic_set:
  assumes "j < n" "n \<le> length d" "i < length d"
  shows "cyclic (d[(i + j) mod length d := x]) i n = (cyclic d i n)[j := x]"
proof (rule nth_equalityI)
  fix m assume "m < length (cyclic (d[(i + j) mod length d := x]) i n)"
  then have m: "m < n" by simp
  have "(i + m) mod length d = (i + j) mod length d \<longleftrightarrow> m = j"
    using assms m by (auto simp: mod_double)
  moreover have "(i + j) mod length d < length d" using assms by (intro mod_less_divisor) linarith
  ultimately show "cyclic (d[(i + j) mod length d := x]) i n ! m = (cyclic d i n)[j := x] ! m"
    using assms m by (auto simp: cyclic_nth nth_list_update)
qed simp

section \<open>Words\<close>

text \<open>Under the invariant the masked index is the sum modulo the size.\<close>

lemma cb_ok_size:
  assumes "cb_ok b"
  obtains k where "k \<le> 31" "cb_Size b = 2 ^ k" "unat (cb_Size b) = 2 ^ k" "cb_SizeMinusOne b = mask k"
    "length (cb_Data b) = 2 ^ k"
proof -
  from assms obtain k where k: "k \<le> 31" "cb_Size b = 2 ^ k"
    unfolding cb_ok_def by blast
  then have "unat (cb_Size b) = 2 ^ k" by (simp add: word_nat)
  with k assms show thesis
    using that by (simp add: cb_ok_def mask_eq_exp_minus_1)
qed

lemma mod_2_32: "k \<le> 31 \<Longrightarrow> (x :: nat) mod 4294967296 mod 2 ^ k = x mod 2 ^ k"
  using le_imp_power_dvd [of k 32 "2 :: nat"] by (simp add: mod_mod_cancel)

lemma masked_index:
  assumes "cb_ok b"
  shows "unat ((cb_Index b + i) AND cb_SizeMinusOne b) = (unat (cb_Index b) + unat i) mod length (cb_Data b)"
proof -
  from assms obtain k where k: "k \<le> 31" "cb_SizeMinusOne b = mask k" "length (cb_Data b) = 2 ^ k"
    by (rule cb_ok_size)
  have "unat ((cb_Index b + i) AND mask k) = unat (cb_Index b + i) mod 2 ^ k"
    by (rule unat_and_mask)
  also have "\<dots> = (unat (cb_Index b) + unat i) mod 2 ^ k"
    using k(1) by (simp add: unat_word_ariths mod_2_32)
  finally show ?thesis using k by simp
qed

lemma masked_pred:
  assumes "cb_ok b"
  shows "unat ((cb_Index b - 1) AND cb_SizeMinusOne b)
         = (unat (cb_Index b) + length (cb_Data b) - 1) mod length (cb_Data b)"
proof -
  from assms obtain k where k: "k \<le> 31" "cb_SizeMinusOne b = mask k" "length (cb_Data b) = 2 ^ k"
    by (rule cb_ok_size)
  have "unat ((cb_Index b - 1) AND mask k) = unat (cb_Index b + (- 1)) mod 2 ^ k"
    unfolding diff_conv_add_uminus by (rule unat_and_mask)
  also have "unat (cb_Index b + (- 1)) = (unat (cb_Index b) + unat (- 1 :: ulong)) mod 4294967296"
    by (simp only: unat_word_ariths) simp
  also have "\<dots> mod 2 ^ k = (unat (cb_Index b) + (2 ^ 32 - 1)) mod 2 ^ k"
    using k(1) unsigned_minus_1_eq_mask [where ?'a = nat and ?'b = 32]
    by (simp add: mod_2_32 mask_eq_exp_minus_1)
  also have "(2 :: nat) ^ 32 - 1 = (2 ^ (32 - k) - 1) * 2 ^ k + (2 ^ k - 1)"
  proof -
    have "(2 :: nat) ^ 32 = 2 ^ (32 - k) * 2 ^ k"
      using k(1) by (simp only: power_add [symmetric] le_add_diff_inverse2)
    then show ?thesis
      by (cases "(2 :: nat) ^ (32 - k)") (simp_all del: power_eq_0_iff)
  qed
  also have "unat (cb_Index b) + \<dots> = unat (cb_Index b) + 2 ^ k - 1 + (2 ^ (32 - k) - 1) * 2 ^ k"
    using one_le_power [of "2 :: nat" k] by linarith
  also have "\<dots> mod 2 ^ k = (unat (cb_Index b) + 2 ^ k - 1) mod 2 ^ k"
    by (rule mod_mult_self1)
  finally show ?thesis using k by simp
qed

section \<open>Copying\<close>

lemma memcpy_eq:
  "memcpy dst doff src soff n =
     (if soff + n \<le> length src \<and> doff + n \<le> length dst
      then Some (take doff dst @ take n (drop soff src) @ drop (doff + n) dst) else None)"
  by (auto simp: memcpy_def mem_read_def mem_write_def)

lemma copy_cyclic_tail:
  assumes "i + n \<le> length d" "n \<le> length dst"
  shows "memcpy dst 0 d i n = Some (cyclic d i n @ drop n dst)"
  using assms by (simp add: memcpy_eq cyclic_tail)

lemma copy_cyclic_split:
  assumes "i < length d" "length d - i \<le> n" "n \<le> length d" "n \<le> length dst"
  shows "Option.bind (memcpy dst 0 d i (length d - i)) (\<lambda>dst. memcpy dst (length d - i) d 0 (n - (length d - i)))
         = Some (cyclic d i n @ drop n dst)"
proof -
  have "memcpy dst 0 d i (length d - i) = Some (drop i d @ drop (length d - i) dst)"
    using assms by (simp add: memcpy_eq)
  moreover have "memcpy (drop i d @ drop (length d - i) dst) (length d - i) d 0 (n - (length d - i))
      = Some (drop i d @ take (n - (length d - i)) d @ drop n dst)"
    using assms by (simp add: memcpy_eq)
  ultimately show ?thesis
    using assms by (simp add: cyclic_split)
qed

lemma cb_ok_bounds:
  assumes "cb_ok b"
  shows "unat (cb_Size b) = length (cb_Data b)" "unat (cb_Index b) < length (cb_Data b)"
    "unat (cb_Count b) \<le> length (cb_Data b)" "0 < length (cb_Data b)" "length (cb_Data b) \<le> 2 ^ 31"
    "unat (cb_Size b - cb_Index b) = length (cb_Data b) - unat (cb_Index b)"
proof -
  obtain k where k: "k \<le> 31" "unat (cb_Size b) = 2 ^ k" "length (cb_Data b) = 2 ^ k"
    using assms by (rule cb_ok_size)
  show "unat (cb_Size b) = length (cb_Data b)" "0 < length (cb_Data b)"
    using k by simp_all
  show "unat (cb_Index b) < length (cb_Data b)" "unat (cb_Count b) \<le> length (cb_Data b)"
    using assms by (simp_all add: cb_ok_def word_less_nat_alt word_le_nat_alt)
  show "length (cb_Data b) \<le> 2 ^ 31"
    unfolding k(3) using k(1) by (rule power_increasing) simp
  have "cb_Index b \<le> cb_Size b"
    using assms by (simp add: cb_ok_def order_less_imp_le)
  then show "unat (cb_Size b - cb_Index b) = length (cb_Data b) - unat (cb_Index b)"
    using \<open>unat (cb_Size b) = length (cb_Data b)\<close> by (simp add: unat_sub)
qed

lemma PhCopyCircularBuffer_items:
  assumes "cb_ok b" and "min (unat count) (unat (cb_Count b)) \<le> length dst"
  shows "PhCopyCircularBuffer b dst count
         = Some (take (unat count) (cb_items b) @ drop (min (unat count) (unat (cb_Count b))) dst)"
proof -
  let ?c = "if count > cb_Count b then cb_Count b else count"
  let ?i = "unat (cb_Index b)" and ?d = "cb_Data b" and ?t = "cb_Size b - cb_Index b"
  note b = cb_ok_bounds [OF assms(1)]
  have c: "unat ?c = min (unat count) (unat (cb_Count b))"
    by (auto simp: min_def word_less_nat_alt)
  then have i: "take (unat count) (cb_items b) = cyclic ?d ?i (unat ?c)"
    by (simp add: cb_items_def cyclic_take)
  show ?thesis
  proof (cases "?t \<ge> ?c")
    case True
    then have "?i + unat ?c \<le> length ?d"
      using b(2,6) by (simp add: word_le_nat_alt)
    then show ?thesis
      using True assms(2) c i
      by (simp add: PhCopyCircularBuffer_def Let_def copy_cyclic_tail del: if_split)
  next
    case False
    then have l: "length ?d - ?i \<le> unat ?c"
      using b(6) by (simp add: word_le_nat_alt)
    then have "unat (?c - ?t) = unat ?c - (length ?d - ?i)"
      using b(6) by (simp add: unat_sub word_le_nat_alt)
    moreover have "unat ?c \<le> length ?d" using c b(3) by simp
    ultimately show ?thesis
      using False assms(2) c i l b(2,6) copy_cyclic_split [of ?i ?d "unat ?c" dst]
      by (simp add: PhCopyCircularBuffer_def Let_def del: if_split)
  qed
qed

section \<open>Correctness of the operations\<close>

lemma PhInitializeCircularBuffer_ok:
  assumes "0 < unat n" "unat n \<le> 2 ^ 31"
  shows "cb_ok (PhInitializeCircularBuffer n)" "cb_items (PhInitializeCircularBuffer n) = []"
    "cb_Size (PhInitializeCircularBuffer n) = PhRoundUpToPowerOfTwo n"
proof -
  obtain k where k: "k \<le> 31" "PhRoundUpToPowerOfTwo n = 2 ^ k"
    using PhRoundUpToPowerOfTwo_cases [OF assms] by blast
  then have "unat (2 ^ k :: ulong) = 2 ^ k" by (simp add: word_nat)
  then have "(0 :: ulong) < 2 ^ k" by (simp add: word_less_nat_alt)
  with k show "cb_ok (PhInitializeCircularBuffer n)"
    by (auto simp: cb_ok_def PhInitializeCircularBuffer_def PhAllocate_def Let_def)
qed (simp_all add: PhInitializeCircularBuffer_def cb_items_def cyclic_def Let_def)

lemma PhClearCircularBuffer_ok:
  assumes "cb_ok b"
  shows "cb_ok (PhClearCircularBuffer b)" "cb_items (PhClearCircularBuffer b) = []"
    "cb_Size (PhClearCircularBuffer b) = cb_Size b"
proof -
  have "cb_Size b > 0"
    using cb_ok_bounds(1,4) [OF assms] by (simp add: word_less_nat_alt)
  then show "cb_ok (PhClearCircularBuffer b)"
    using assms by (simp add: cb_ok_def PhClearCircularBuffer_def)
qed (simp_all add: PhClearCircularBuffer_def cb_items_def cyclic_def)

lemma PhGetItemCircularBuffer_items:
  assumes "cb_ok b" "i < cb_Count b"
  shows "PhGetItemCircularBuffer b i = Some (cb_items b ! unat i)"
  using assms cb_ok_bounds [OF assms(1)]
  by (simp add: PhGetItemCircularBuffer_def cell_at_def masked_index cb_items_def cyclic_nth word_less_nat_alt)

lemma PhSetItemCircularBuffer_items:
  assumes "cb_ok b" "i < cb_Count b"
  shows "\<exists>b'. PhSetItemCircularBuffer b i v = Some b' \<and> cb_ok b' \<and> cb_Size b' = cb_Size b
           \<and> cb_items b' = (cb_items b)[unat i := Some v]"
proof -
  note b = cb_ok_bounds [OF assms(1)]
  let ?p = "(unat (cb_Index b) + unat i) mod length (cb_Data b)"
  have "?p < length (cb_Data b)" using b(4) by (rule mod_less_divisor)
  then have "PhSetItemCircularBuffer b i v = Some (b\<lparr>cb_Data := (cb_Data b)[?p := Some v]\<rparr>)"
    using assms(1) by (simp add: PhSetItemCircularBuffer_def set_cell_def masked_index)
  moreover have "cb_items (b\<lparr>cb_Data := (cb_Data b)[?p := Some v]\<rparr>) = (cb_items b)[unat i := Some v]"
    using assms(2) b by (simp add: cb_items_def cyclic_set word_less_nat_alt)
  ultimately show ?thesis
    using assms(1) by (simp add: cb_ok_def)
qed

lemma unat_saturated_count:
  assumes "c \<le> (s :: ulong)"
  shows "unat (if c < s then c + 1 else c) = (if unat c < unat s then unat c + 1 else unat c)"
  using assms unat_ulong_less [of s] by (auto simp: word_less_nat_alt word_nat)

lemma PhAddItemCircularBuffer_items:
  assumes "cb_ok b"
  shows "\<exists>b'. PhAddItemCircularBuffer b v = Some b' \<and> cb_ok b' \<and> cb_Size b' = cb_Size b
           \<and> cb_items b' = take (unat (cb_Size b)) (Some v # cb_items b)"
proof -
  let ?p = "(unat (cb_Index b) + length (cb_Data b) - 1) mod length (cb_Data b)"
  let ?c = "if cb_Count b < cb_Size b then cb_Count b + 1 else cb_Count b"
  note b = cb_ok_bounds [OF assms]
  have p: "unat ((cb_Index b - 1) AND cb_SizeMinusOne b) = ?p" "?p < length (cb_Data b)"
    using masked_pred [OF assms] b(4) by simp_all
  have c: "unat ?c = (if unat (cb_Count b) < length (cb_Data b) then unat (cb_Count b) + 1 else unat (cb_Count b))"
    using unat_saturated_count assms b(1) by (simp add: cb_ok_def)
  let ?b = "b\<lparr>cb_Index := (cb_Index b - 1) AND cb_SizeMinusOne b, cb_Data := (cb_Data b)[?p := Some v], cb_Count := ?c\<rparr>"
  have "PhAddItemCircularBuffer b v = Some ?b"
    using p by (simp add: PhAddItemCircularBuffer_def set_cell_def Let_def)
  moreover have "cb_ok ?b"
    using assms p b c by (auto simp: cb_ok_def word_less_nat_alt word_le_nat_alt)
  moreover have "cb_items ?b = take (unat (cb_Size b)) (Some v # cb_items b)"
    using cyclic_add [OF b(2,3), of "Some v"] p c b(1) by (simp add: cb_items_def)
  ultimately show ?thesis by auto
qed

lemma PhAddItemCircularBuffer2_items:
  assumes "cb_ok b"
  shows "\<exists>old b'. PhAddItemCircularBuffer2 b v = Some (old, b') \<and> PhAddItemCircularBuffer b v = Some b'
           \<and> (cb_Count b = cb_Size b \<longrightarrow> old = last (cb_items b))"
proof -
  let ?p = "(unat (cb_Index b) + length (cb_Data b) - 1) mod length (cb_Data b)"
  note b = cb_ok_bounds [OF assms]
  have p: "unat ((cb_Index b - 1) AND cb_SizeMinusOne b) = ?p" "?p < length (cb_Data b)"
    using masked_pred [OF assms] b(4) by simp_all
  have "last (cb_items b) = cb_Data b ! ?p" if "cb_Count b = cb_Size b"
    using that b by (simp add: cb_items_def last_conv_nth cyclic_nth flip: length_greater_0_conv)
  with p show ?thesis
    by (simp add: PhAddItemCircularBuffer2_def PhAddItemCircularBuffer_def set_cell_def cell_at_def Let_def)
qed

lemma PhResizeCircularBuffer_items:
  assumes ok: "cb_ok b" and n: "0 < unat n" "unat n \<le> 2 ^ 31"
    and fits: "PhRoundUpToPowerOfTwo n \<le> cb_Size b \<or> cb_Size b - cb_Index b \<le> cb_Count b"
  shows "\<exists>b'. PhResizeCircularBuffer b n = Some b' \<and> cb_ok b' \<and> cb_Size b' = PhRoundUpToPowerOfTwo n
           \<and> cb_items b' = take (unat (PhRoundUpToPowerOfTwo n)) (cb_items b)"
proof (cases "PhRoundUpToPowerOfTwo n = cb_Size b")
  case True
  with ok cb_ok_bounds [OF ok] show ?thesis
    by (simp add: PhResizeCircularBuffer_def cb_items_def)
next
  case False
  let ?s = "PhRoundUpToPowerOfTwo n" let ?i = "unat (cb_Index b)" and ?d = "cb_Data b"
  let ?t = "cb_Size b - cb_Index b" and ?new = "replicate (unat ?s) None :: 'a option list"
  note b = cb_ok_bounds [OF ok]
  obtain k where k: "k \<le> 31" "?s = 2 ^ k"
    using PhRoundUpToPowerOfTwo_cases [OF n] by blast
  then have s: "unat ?s = 2 ^ k" by (simp add: word_nat)
  have result: "?thesis"
    if r: "PhResizeCircularBuffer b n = Some (b\<lparr>cb_Index := 0, cb_Count := c, cb_Data := cyclic ?d ?i m @ drop m ?new,
             cb_Size := ?s, cb_SizeMinusOne := ?s - 1\<rparr>)"
      and m: "unat c = min (unat ?s) (unat (cb_Count b))" "unat c \<le> m" "m \<le> unat ?s" for c m
  proof -
    let ?b = "b\<lparr>cb_Index := 0, cb_Count := c, cb_Data := cyclic ?d ?i m @ drop m ?new,
             cb_Size := ?s, cb_SizeMinusOne := ?s - 1\<rparr>"
    have "cb_ok ?b"
      using k m s by (auto simp: cb_ok_def word_less_nat_alt word_le_nat_alt)
    moreover have "cb_items ?b = cyclic ?d ?i (unat c)"
      using m s by (simp add: cb_items_def cyclic_tail cyclic_take min_def)
    then have "cb_items ?b = take (unat ?s) (cb_items b)"
      using m(1) by (simp add: cb_items_def cyclic_take)
    ultimately show ?thesis using r by simp
  qed
  show ?thesis
  proof (cases "?s > cb_Size b")
    case True
    then have t: "length ?d - ?i \<le> unat (cb_Count b)" "unat (cb_Count b) \<le> unat ?s"
      using fits b by (auto simp: word_le_nat_alt word_less_nat_alt)
    then have "unat (cb_Count b - ?t) = unat (cb_Count b) - (length ?d - ?i)"
      using b(6) by (simp add: unat_sub word_le_nat_alt)
    with copy_cyclic_split [OF b(2) t(1) b(3), of ?new] t b True False show ?thesis
      by (intro result [where c = "cb_Count b" and m = "unat (cb_Count b)"])
        (auto simp: PhResizeCircularBuffer_def PhAllocate_def Let_def bind_eq_Some_conv)
  next
    case smaller: False
    then have s': "unat ?s < length ?d" using False b(1) by (auto simp: word_less_nat_alt word_le_nat_alt word_unat_eq_iff)
    let ?c = "if cb_Count b > ?s then ?s else cb_Count b"
    have c: "unat ?c = min (unat ?s) (unat (cb_Count b))"
      by (auto simp: word_less_nat_alt min_def)
    show ?thesis
    proof (cases "?t \<ge> ?s")
      case True
      then have "?i + unat ?s \<le> length ?d" using b(2,6) by (simp add: word_le_nat_alt)
      then show ?thesis
        using c smaller False True
        by (intro result [where c = ?c and m = "unat ?s"])
          (simp_all add: PhResizeCircularBuffer_def PhAllocate_def Let_def copy_cyclic_tail)
    next
      case t: False
      then have l: "length ?d - ?i \<le> unat ?s" using b(6) by (simp add: word_le_nat_alt)
      then have "unat (?s - ?t) = unat ?s - (length ?d - ?i)"
        using b(6) by (simp add: unat_sub word_le_nat_alt)
      then show ?thesis
        using copy_cyclic_split [OF b(2) l, of ?new] s' b(6) c smaller False t
        by (intro result [where c = ?c and m = "unat ?s"])
          (auto simp: PhResizeCircularBuffer_def PhAllocate_def Let_def bind_eq_Some_conv)
    qed
  qed
qed

lemma PhResizeCircularBuffer_overrun:
  assumes ok: "cb_ok b" and n: "0 < unat n" "unat n \<le> 2 ^ 31"
    and grow: "cb_Size b < PhRoundUpToPowerOfTwo n" and few: "cb_Count b < cb_Size b - cb_Index b"
  shows "PhResizeCircularBuffer b n = None"
proof -
  let ?t = "cb_Size b - cb_Index b"
  note b = cb_ok_bounds [OF ok]
  obtain k where k: "k \<le> 31" "PhRoundUpToPowerOfTwo n = 2 ^ k"
    using PhRoundUpToPowerOfTwo_cases [OF n] by blast
  then have "unat (PhRoundUpToPowerOfTwo n) \<le> 2 ^ 31"
    using power_increasing [of k 31 "2 :: nat"] by (simp add: word_nat)
  with grow b(1) have s: "length (cb_Data b) < 2 ^ 31" by (simp add: word_less_nat_alt)
  have "unat (cb_Count b - ?t) = 2 ^ 32 + unat (cb_Count b) - unat ?t"
    using few by (simp add: unat_sub_if_size word_less_nat_alt word_size)
  then have "length (cb_Data b) < unat (cb_Count b - ?t)"
    using s b(6) by simp
  with grow show ?thesis
    by (auto simp: PhResizeCircularBuffer_def Let_def memcpy_eq bind_eq_None_conv)
qed

section \<open>Histories of a buffer\<close>

datatype 'a cb_op = CbAddItem 'a | CbSetItem ulong 'a | CbClear | CbResize ulong

primrec cb_apply :: "'a cb_op \<Rightarrow> 'a PH_CIRCULAR_BUFFER \<Rightarrow> 'a PH_CIRCULAR_BUFFER option" where
  "cb_apply (CbAddItem v) b = PhAddItemCircularBuffer b v"
| "cb_apply (CbSetItem i v) b = PhSetItemCircularBuffer b i v"
| "cb_apply CbClear b = Some (PhClearCircularBuffer b)"
| "cb_apply (CbResize n) b = PhResizeCircularBuffer b n"

primrec cb_run :: "'a cb_op list \<Rightarrow> 'a PH_CIRCULAR_BUFFER \<Rightarrow> 'a PH_CIRCULAR_BUFFER option" where
  "cb_run [] b = Some b"
| "cb_run (x # xs) b = Option.bind (cb_apply x b) (cb_run xs)"

text \<open>The specification: the capacity and the items from the newest to the oldest.\<close>

primrec cb_spec :: "'a cb_op \<Rightarrow> nat \<times> 'a list \<Rightarrow> nat \<times> 'a list" where
  "cb_spec (CbAddItem v) s = (fst s, take (fst s) (v # snd s))"
| "cb_spec (CbSetItem i v) s = (fst s, (snd s)[unat i := v])"
| "cb_spec CbClear s = (fst s, [])"
| "cb_spec (CbResize n) s =
     (unat (PhRoundUpToPowerOfTwo n), take (unat (PhRoundUpToPowerOfTwo n)) (snd s))"

text \<open>
  An item that is set exists; a new size is one that can be rounded up, and only a full buffer is
  enlarged.
\<close>

primrec cb_legal :: "'a cb_op \<Rightarrow> nat \<times> 'a list \<Rightarrow> bool" where
  "cb_legal (CbAddItem v) s = True"
| "cb_legal (CbSetItem i v) s = (unat i < length (snd s))"
| "cb_legal CbClear s = True"
| "cb_legal (CbResize n) s = (0 < unat n \<and> unat n \<le> 2 ^ 31
     \<and> (unat (PhRoundUpToPowerOfTwo n) \<le> fst s \<or> length (snd s) = fst s))"

primrec cb_legal_run :: "'a cb_op list \<Rightarrow> nat \<times> 'a list \<Rightarrow> bool" where
  "cb_legal_run [] s = True"
| "cb_legal_run (x # xs) s = (cb_legal x s \<and> cb_legal_run xs (cb_spec x s))"

definition cb_rel :: "'a PH_CIRCULAR_BUFFER \<Rightarrow> nat \<times> 'a list \<Rightarrow> bool" where
  "cb_rel b s \<longleftrightarrow> cb_ok b \<and> unat (cb_Size b) = fst s \<and> cb_items b = map Some (snd s)"

lemma cb_rel_Count: "cb_rel b s \<Longrightarrow> unat (cb_Count b) = length (snd s)"
  unfolding cb_rel_def cb_items_def by (metis cyclic_length length_map)

lemma cb_apply_refines:
  assumes rel: "cb_rel b s" and legal: "cb_legal x s"
  shows "\<exists>b'. cb_apply x b = Some b' \<and> cb_rel b' (cb_spec x s)"
proof -
  have ok: "cb_ok b" and items: "cb_items b = map Some (snd s)" and size: "unat (cb_Size b) = fst s"
    and count: "unat (cb_Count b) = length (snd s)"
    using rel cb_rel_Count [OF rel] by (simp_all add: cb_rel_def)
  show ?thesis
  proof (cases x)
    case (CbAddItem v)
    have "take (fst s) (Some v # map Some (snd s)) = map Some (take (fst s) (v # snd s))"
      by (simp add: take_map [of "fst s" Some "v # snd s", simplified])
    with PhAddItemCircularBuffer_items [OF ok, of v] CbAddItem items size show ?thesis
      by (auto simp: cb_rel_def)
  next
    case (CbSetItem i v)
    then have "i < cb_Count b" using legal count by (simp add: word_less_nat_alt)
    with PhSetItemCircularBuffer_items [OF ok, of i v] CbSetItem items size show ?thesis
      by (auto simp: cb_rel_def map_update)
  next
    case CbClear
    with PhClearCircularBuffer_ok [OF ok] size show ?thesis by (simp add: cb_rel_def)
  next
    case (CbResize n)
    have "cb_Size b - cb_Index b \<le> cb_Count b" if "length (snd s) = fst s"
      using that count size cb_ok_bounds(1,6) [OF ok] by (simp add: word_le_nat_alt)
    then have "PhRoundUpToPowerOfTwo n \<le> cb_Size b \<or> cb_Size b - cb_Index b \<le> cb_Count b"
      using legal CbResize size by (auto simp: word_le_nat_alt)
    with PhResizeCircularBuffer_items [OF ok, of n] legal CbResize items show ?thesis
      by (auto simp: cb_rel_def take_map)
  qed
qed

lemma cb_run_refines:
  "cb_rel b s \<Longrightarrow> cb_legal_run ops s \<Longrightarrow> \<exists>b'. cb_run ops b = Some b' \<and> cb_rel b' (fold cb_spec ops s)"
proof (induction ops arbitrary: b s)
  case (Cons x ops)
  then obtain b1 where "cb_apply x b = Some b1" "cb_rel b1 (cb_spec x s)"
    using cb_apply_refines [of b s x] by auto
  with Cons show ?case by auto
qed auto

text \<open>
  C12. For every sequence of operations on a new circular buffer of 1 to \<open>2 ^ 31\<close> items in which items are set only
  below the count and the buffer is enlarged only when it is full (\<open>cb_legal_run\<close>; enlarging any other buffer whose
  items do not reach the end of the block leaves it, as shown below), no access leaves the data block, and the buffer then
  holds the most recent items, newest first, up to its size: reading an index and copying a number of items deliver them.
\<close>

theorem PhCircularBuffer_history:
  fixes ops :: "'a cb_op list"
  assumes "0 < unat n" "unat n \<le> 2 ^ 31"
    and "cb_legal_run ops (unat (PhRoundUpToPowerOfTwo n), [])"
  shows "\<exists>b cap xs. cb_run ops (PhInitializeCircularBuffer n) = Some b
     \<and> fold cb_spec ops (unat (PhRoundUpToPowerOfTwo n), []) = (cap, xs)
     \<and> unat (cb_Size b) = cap \<and> unat (cb_Count b) = length xs
     \<and> (\<forall>i. unat i < length xs \<longrightarrow> PhGetItemCircularBuffer b i = Some (Some (xs ! unat i)))
     \<and> (\<forall>dst count. length xs \<le> length dst \<longrightarrow>
          PhCopyCircularBuffer b dst count
          = Some (map Some (take (unat count) xs) @ drop (min (unat count) (length xs)) dst))"
proof -
  let ?s = "(unat (PhRoundUpToPowerOfTwo n), [] :: 'a list)"
  have "cb_rel (PhInitializeCircularBuffer n) ?s"
    using assms(1,2) by (simp add: cb_rel_def PhInitializeCircularBuffer_ok)
  then obtain b where b: "cb_run ops (PhInitializeCircularBuffer n) = Some b" "cb_rel b (fold cb_spec ops ?s)"
    using cb_run_refines assms(3) by blast
  obtain cap xs where s: "fold cb_spec ops ?s = (cap, xs)" by fastforce
  have r: "cb_ok b" "cb_items b = map Some xs" "unat (cb_Size b) = cap" "unat (cb_Count b) = length xs"
    using b(2) cb_rel_Count [OF b(2)] s by (auto simp: cb_rel_def)
  then show ?thesis
    using b(1) s PhGetItemCircularBuffer_items [OF r(1)] PhCopyCircularBuffer_items [OF r(1)]
    by (auto simp: word_less_nat_alt take_map min.coboundedI2)
qed

theorem PhCircularBuffer_history_witness:
  "\<exists>b cap xs. cb_run [CbAddItem (10 :: nat), CbAddItem 20, CbAddItem 30, CbResize 8, CbSetItem 1 40, CbResize 1]
        (PhInitializeCircularBuffer 2) = Some b
     \<and> fold cb_spec [CbAddItem (10 :: nat), CbAddItem 20, CbAddItem 30, CbResize 8, CbSetItem 1 40, CbResize 1]
        (unat (PhRoundUpToPowerOfTwo 2), []) = (cap, xs)
     \<and> unat (cb_Size b) = cap \<and> unat (cb_Count b) = length xs
     \<and> (\<forall>i. unat i < length xs \<longrightarrow> PhGetItemCircularBuffer b i = Some (Some (xs ! unat i)))
     \<and> (\<forall>dst count. length xs \<le> length dst \<longrightarrow>
          PhCopyCircularBuffer b dst count
          = Some (map Some (take (unat count) xs) @ drop (min (unat count) (length xs)) dst))"
  by (rule PhCircularBuffer_history) (simp_all add: PhRoundUpToPowerOfTwo_def)

text \<open>
  C35. Enlarging a well-formed buffer, to at most \<open>2 ^ 31\<close> items, runs over the data block exactly when its items do not reach
  the end of the block: the
  length of the part at the head is computed as the difference of two unsigned numbers and wraps.
  Every buffer without items is such a buffer, and so is one that has just been enlarged.
\<close>

theorem PhResizeCircularBuffer_grow:
  assumes "cb_ok b" "0 < unat n" "unat n \<le> 2 ^ 31" "cb_Size b < PhRoundUpToPowerOfTwo n"
  shows "PhResizeCircularBuffer b n = None \<longleftrightarrow> cb_Count b < cb_Size b - cb_Index b"
  using PhResizeCircularBuffer_overrun [OF assms] PhResizeCircularBuffer_items [OF assms(1-3)]
  by (metis not_le option.distinct(1))

theorem PhResizeCircularBuffer_grow_witness:
  "PhResizeCircularBuffer (PhInitializeCircularBuffer 4 :: nat PH_CIRCULAR_BUFFER) 8 = None"
proof -
  have r: "PhRoundUpToPowerOfTwo 4 = 4" "PhRoundUpToPowerOfTwo 8 = 8"
    by (simp_all add: PhRoundUpToPowerOfTwo_def)
  have "cb_ok (PhInitializeCircularBuffer 4 :: nat PH_CIRCULAR_BUFFER)"
    by (rule PhInitializeCircularBuffer_ok) simp_all
  from PhResizeCircularBuffer_grow [OF this, of 8] show ?thesis
    by (simp add: PhInitializeCircularBuffer_def r)
qed

end
