(* ===== verification/PhUnicode.thy ===== *)
theory PhUnicode
  imports PhBuilder
begin

text \<open>
  The Unicode encoder and decoder of \<open>phlib/basesup.c\<close> for UTF-8, UTF-16 and UTF-32. The decoder is fed
  code unit by code unit; it keeps the units that were read ahead in a small queue. The members of its
  union are fields of their own: the encoding of a decoder never changes, and each operation accesses
  only the member of the encoding. A value \<open>None\<close> of an operation stands for \<open>PhRaiseStatus\<close>.

  The theory \<open>PhConvert\<close> has the conversions of strings that are built on them.
\<close>

section \<open>The decoder\<close>

abbreviation (input) "PH_UNICODE_UTF8 \<equiv> (0 :: uchar)"
abbreviation (input) "PH_UNICODE_UTF16 \<equiv> (1 :: uchar)"
abbreviation (input) "PH_UNICODE_UTF32 \<equiv> (2 :: uchar)"
abbreviation (input) "PH_UNICODE_MAX_CODE_POINT \<equiv> (0x10ffff :: ulong)"

definition PH_UNICODE_UTF16_TO_HIGH_SURROGATE :: "ulong \<Rightarrow> ushort" where
  "PH_UNICODE_UTF16_TO_HIGH_SURROGATE codePoint = ucast (drop_bit 10 codePoint) + 0xd7c0"

definition PH_UNICODE_UTF16_TO_LOW_SURROGATE :: "ulong \<Rightarrow> ushort" where
  "PH_UNICODE_UTF16_TO_LOW_SURROGATE codePoint = ucast (codePoint AND 0x3ff) + 0xdc00"

definition PH_UNICODE_UTF16_IS_HIGH_SURROGATE :: "ulong \<Rightarrow> bool" where
  "PH_UNICODE_UTF16_IS_HIGH_SURROGATE codeUnit \<longleftrightarrow> codeUnit \<ge> 0xd800 \<and> codeUnit \<le> 0xdbff"

definition PH_UNICODE_UTF16_IS_LOW_SURROGATE :: "ulong \<Rightarrow> bool" where
  "PH_UNICODE_UTF16_IS_LOW_SURROGATE codeUnit \<longleftrightarrow> codeUnit \<ge> 0xdc00 \<and> codeUnit \<le> 0xdfff"

definition PH_UNICODE_UTF16_TO_CODE_POINT :: "ushort \<Rightarrow> ulong \<Rightarrow> ulong" where
  "PH_UNICODE_UTF16_TO_CODE_POINT highSurrogate lowSurrogate =
     push_bit 10 (ucast highSurrogate) + lowSurrogate - 0x35fdc00"

record PH_UNICODE_DECODER =
  Encoding :: uchar
  State :: uchar
  InputCount :: uchar
  Utf8_Input :: "uchar list"
  CodeUnit1 :: uchar
  CodeUnit2 :: uchar
  CodeUnit3 :: uchar
  CodeUnit4 :: uchar
  Utf16_Input :: "ushort list"
  Utf16_CodeUnit :: ushort
  Utf32_Input :: ulong

definition PhInitializeUnicodeDecoder :: "uchar \<Rightarrow> PH_UNICODE_DECODER" where
  "PhInitializeUnicodeDecoder encoding =
     \<lparr> Encoding = encoding, State = 0, InputCount = 0, Utf8_Input = replicate 4 0, CodeUnit1 = 0,
       CodeUnit2 = 0, CodeUnit3 = 0, CodeUnit4 = 0, Utf16_Input = replicate 2 0, Utf16_CodeUnit = 0,
       Utf32_Input = 0 \<rparr>"

definition PhWriteUnicodeDecoder :: "PH_UNICODE_DECODER \<Rightarrow> ulong \<Rightarrow> (bool \<times> PH_UNICODE_DECODER) option" where
  "PhWriteUnicodeDecoder d codeUnit =
     (if Encoding d = PH_UNICODE_UTF8 then
        if InputCount d \<ge> 4 then Some (False, d)
        else Some (True, d\<lparr>Utf8_Input := (Utf8_Input d)[unat (InputCount d) := ucast codeUnit],
                           InputCount := InputCount d + 1\<rparr>)
      else if Encoding d = PH_UNICODE_UTF16 then
        if InputCount d \<ge> 2 then Some (False, d)
        else Some (True, d\<lparr>Utf16_Input := (Utf16_Input d)[unat (InputCount d) := ucast codeUnit],
                           InputCount := InputCount d + 1\<rparr>)
      else if Encoding d = PH_UNICODE_UTF32 then
        if InputCount d \<ge> 1 then Some (False, d)
        else Some (True, d\<lparr>Utf32_Input := codeUnit, InputCount := 1\<rparr>)
      else None)"

text \<open>The code unit that was read, if any.\<close>

definition PhpReadUnicodeDecoder :: "PH_UNICODE_DECODER \<Rightarrow> (ulong option \<times> PH_UNICODE_DECODER) option" where
  "PhpReadUnicodeDecoder d =
     (if Encoding d = PH_UNICODE_UTF8 then
        if InputCount d = 0 then Some (None, d)
        else
          let codeUnit = ucast (Utf8_Input d ! 0);
              input = (Utf8_Input d)[0 := Utf8_Input d ! 1];
              input = input[1 := input ! 2];
              input = input[2 := input ! 3]
          in Some (Some codeUnit, d\<lparr>Utf8_Input := input, InputCount := InputCount d - 1\<rparr>)
      else if Encoding d = PH_UNICODE_UTF16 then
        if InputCount d = 0 then Some (None, d)
        else Some (Some (ucast (Utf16_Input d ! 0)),
                   d\<lparr>Utf16_Input := (Utf16_Input d)[0 := Utf16_Input d ! 1], InputCount := InputCount d - 1\<rparr>)
      else if Encoding d = PH_UNICODE_UTF32 then
        if InputCount d = 0 then Some (None, d)
        else Some (Some (Utf32_Input d), d\<lparr>InputCount := InputCount d - 1\<rparr>)
      else None)"

definition PhpUnreadUnicodeDecoder :: "PH_UNICODE_DECODER \<Rightarrow> ulong \<Rightarrow> PH_UNICODE_DECODER option" where
  "PhpUnreadUnicodeDecoder d codeUnit =
     (if Encoding d = PH_UNICODE_UTF8 then
        if InputCount d \<ge> 4 then None
        else
          let input = (Utf8_Input d)[3 := Utf8_Input d ! 2];
              input = input[2 := input ! 1];
              input = input[1 := input ! 0];
              input = input[0 := ucast codeUnit]
          in Some (d\<lparr>Utf8_Input := input, InputCount := InputCount d + 1\<rparr>)
      else if Encoding d = PH_UNICODE_UTF16 then
        if InputCount d \<ge> 2 then None
        else
          let input = (Utf16_Input d)[1 := Utf16_Input d ! 0];
              input = input[0 := ucast codeUnit]
          in Some (d\<lparr>Utf16_Input := input, InputCount := InputCount d + 1\<rparr>)
      else if Encoding d = PH_UNICODE_UTF32 then
        if InputCount d \<ge> 1 then None
        else Some (d\<lparr>Utf32_Input := codeUnit, InputCount := 1\<rparr>)
      else None)"

text \<open>What one round of the loop of \<open>PhDecodeUnicodeDecoder\<close> does: \<open>continue\<close>, or return.\<close>

datatype decode_step = Continue PH_UNICODE_DECODER | Return "ulong option" PH_UNICODE_DECODER

definition PhpDecodeUtf8Error :: "PH_UNICODE_DECODER \<Rightarrow> nat \<Rightarrow> decode_step option" where
  "PhpDecodeUtf8Error d which =
     Option.bind (if which \<ge> 4 then PhpUnreadUnicodeDecoder d (ucast (CodeUnit4 d)) else Some d) (\<lambda>d.
     Option.bind (if which \<ge> 3 then PhpUnreadUnicodeDecoder d (ucast (CodeUnit3 d)) else Some d) (\<lambda>d.
     Option.bind (if which \<ge> 2 then PhpUnreadUnicodeDecoder d (ucast (CodeUnit2 d)) else Some d) (\<lambda>d.
     Some (Return (Some (ucast (CodeUnit1 d) + 0xdc00)) (d\<lparr>State := 0\<rparr>)))))"

definition utf8_step :: "ulong \<Rightarrow> PH_UNICODE_DECODER \<Rightarrow> decode_step option" where
  "utf8_step codeUnit d =
     (if State d = 0 then
        let d = d\<lparr>CodeUnit1 := ucast codeUnit\<rparr>
        in if codeUnit < 0x80 then Some (Return (Some codeUnit) d)
           else if codeUnit < 0xc2 then PhpDecodeUtf8Error d 1
           else if codeUnit < 0xe0 then Some (Continue (d\<lparr>State := 1\<rparr>))
           else if codeUnit < 0xf0 then Some (Continue (d\<lparr>State := 2\<rparr>))
           else if codeUnit < 0xf5 then Some (Continue (d\<lparr>State := 3\<rparr>))
           else PhpDecodeUtf8Error d 1
      else if State d = 1 then
        let d = d\<lparr>CodeUnit2 := ucast codeUnit\<rparr>
        in if codeUnit AND 0xc0 = 0x80
           then Some (Return (Some (push_bit 6 (ucast (CodeUnit1 d)) + codeUnit - 0x3080)) (d\<lparr>State := 0\<rparr>))
           else PhpDecodeUtf8Error d 2
      else if State d = 2 then
        let d = d\<lparr>CodeUnit2 := ucast codeUnit\<rparr>
        in if codeUnit AND 0xc0 = 0x80 \<and> (CodeUnit1 d \<noteq> 0xe0 \<or> codeUnit \<ge> 0xa0)
           then Some (Continue (d\<lparr>State := 4\<rparr>))
           else PhpDecodeUtf8Error d 2
      else if State d = 3 then
        let d = d\<lparr>CodeUnit2 := ucast codeUnit\<rparr>
        in if codeUnit AND 0xc0 = 0x80 \<and> (CodeUnit1 d \<noteq> 0xf0 \<or> codeUnit \<ge> 0x90)
              \<and> (CodeUnit1 d \<noteq> 0xf4 \<or> codeUnit < 0x90)
           then Some (Continue (d\<lparr>State := 5\<rparr>))
           else PhpDecodeUtf8Error d 2
      else if State d = 4 then
        let d = d\<lparr>CodeUnit3 := ucast codeUnit\<rparr>
        in if codeUnit AND 0xc0 = 0x80
           then Some (Return (Some (push_bit 12 (ucast (CodeUnit1 d)) + push_bit 6 (ucast (CodeUnit2 d))
                        + codeUnit - 0xe2080)) (d\<lparr>State := 0\<rparr>))
           else PhpDecodeUtf8Error d 3
      else if State d = 5 then
        let d = d\<lparr>CodeUnit3 := ucast codeUnit\<rparr>
        in if codeUnit AND 0xc0 = 0x80
           then Some (Continue (d\<lparr>State := 6\<rparr>))
           else PhpDecodeUtf8Error d 3
      else if State d = 6 then
        let d = d\<lparr>CodeUnit4 := ucast codeUnit\<rparr>
        in if codeUnit AND 0xc0 = 0x80
           then Some (Return (Some (push_bit 18 (ucast (CodeUnit1 d)) + push_bit 12 (ucast (CodeUnit2 d))
                        + push_bit 6 (ucast (CodeUnit3 d)) + codeUnit - 0x3c82080)) (d\<lparr>State := 0\<rparr>))
           else PhpDecodeUtf8Error d 4
      else Some (Return None d))"

definition utf16_step :: "ulong \<Rightarrow> PH_UNICODE_DECODER \<Rightarrow> decode_step option" where
  "utf16_step codeUnit d =
     (if State d = 0 then
        if PH_UNICODE_UTF16_IS_HIGH_SURROGATE codeUnit
        then Some (Continue (d\<lparr>Utf16_CodeUnit := ucast codeUnit, State := 1\<rparr>))
        else Some (Return (Some codeUnit) d)
      else if State d = 1 then
        if PH_UNICODE_UTF16_IS_LOW_SURROGATE codeUnit
        then Some (Return (Some (PH_UNICODE_UTF16_TO_CODE_POINT (Utf16_CodeUnit d) codeUnit)) (d\<lparr>State := 0\<rparr>))
        else Option.bind (PhpUnreadUnicodeDecoder d codeUnit) (\<lambda>d'.
             Some (Return (Some (ucast (Utf16_CodeUnit d))) (d'\<lparr>State := 0\<rparr>)))
      else Some (Return None d))"

lemma PhpDecodeUtf8Error_not_Continue [simp]: "PhpDecodeUtf8Error d which \<noteq> Some (Continue d')"
  by (simp add: PhpDecodeUtf8Error_def bind_eq_Some_conv split: if_splits)

lemma utf8_step_InputCount: "utf8_step c d = Some (Continue d') \<Longrightarrow> InputCount d' = InputCount d"
  by (auto simp: utf8_step_def Let_def split: if_splits)

lemma utf16_step_InputCount: "utf16_step c d = Some (Continue d') \<Longrightarrow> InputCount d' = InputCount d"
  by (auto simp: utf16_step_def Let_def bind_eq_Some_conv split: if_splits)

lemma PhpReadUnicodeDecoder_InputCount:
  "PhpReadUnicodeDecoder d = Some (Some c, d') \<Longrightarrow> unat (InputCount d') < unat (InputCount d)"
  by (auto simp: PhpReadUnicodeDecoder_def Let_def unat_minus_one unat_gt_0 split: if_splits)

function PhDecodeUnicodeDecoder :: "PH_UNICODE_DECODER \<Rightarrow> (ulong option \<times> PH_UNICODE_DECODER) option" where
  "PhDecodeUnicodeDecoder d =
     (if Encoding d = PH_UNICODE_UTF8 then
        (case PhpReadUnicodeDecoder d of
           None \<Rightarrow> None
         | Some (None, d) \<Rightarrow> Some (None, d)
         | Some (Some codeUnit, d) \<Rightarrow>
             (case utf8_step codeUnit d of
                None \<Rightarrow> None
              | Some (Continue d) \<Rightarrow> PhDecodeUnicodeDecoder d
              | Some (Return codePoint d) \<Rightarrow> Some (codePoint, d)))
      else if Encoding d = PH_UNICODE_UTF16 then
        (case PhpReadUnicodeDecoder d of
           None \<Rightarrow> None
         | Some (None, d) \<Rightarrow> Some (None, d)
         | Some (Some codeUnit, d) \<Rightarrow>
             (case utf16_step codeUnit d of
                None \<Rightarrow> None
              | Some (Continue d) \<Rightarrow> PhDecodeUnicodeDecoder d
              | Some (Return codePoint d) \<Rightarrow> Some (codePoint, d)))
      else if Encoding d = PH_UNICODE_UTF32 then PhpReadUnicodeDecoder d
      else Some (None, d))"
  by pat_completeness auto

termination
  by (relation "measure (\<lambda>d. unat (InputCount d))")
    (auto dest!: utf8_step_InputCount utf16_step_InputCount PhpReadUnicodeDecoder_InputCount)

declare PhDecodeUnicodeDecoder.simps [simp del]

section \<open>The encoder\<close>

text \<open>
  \<open>CodeUnits\<close> points to an array of the type of the encoding; the result is what the encoder writes
  there, its length is \<open>NumberOfCodeUnits\<close>, and \<open>None\<close> is the result \<open>FALSE\<close>.
\<close>

definition encode_utf8 :: "ulong \<Rightarrow> uchar list option" where
  "encode_utf8 codePoint =
     (if codePoint < 0x80 then Some [ucast codePoint]
      else if codePoint \<le> 0x7ff then
        Some [ucast (drop_bit 6 codePoint) + 0xc0, ucast (codePoint AND 0x3f) + 0x80]
      else if codePoint \<le> 0xffff then
        Some [ucast (drop_bit 12 codePoint) + 0xe0, ucast (drop_bit 6 codePoint AND 0x3f) + 0x80,
              ucast (codePoint AND 0x3f) + 0x80]
      else if codePoint \<le> PH_UNICODE_MAX_CODE_POINT then
        Some [ucast (drop_bit 18 codePoint) + 0xf0, ucast (drop_bit 12 codePoint AND 0x3f) + 0x80,
              ucast (drop_bit 6 codePoint AND 0x3f) + 0x80, ucast (codePoint AND 0x3f) + 0x80]
      else None)"

definition encode_utf16 :: "ulong \<Rightarrow> ushort list option" where
  "encode_utf16 codePoint =
     (if codePoint < 0x10000 then Some [ucast codePoint]
      else if codePoint \<le> PH_UNICODE_MAX_CODE_POINT then
        Some [PH_UNICODE_UTF16_TO_HIGH_SURROGATE codePoint, PH_UNICODE_UTF16_TO_LOW_SURROGATE codePoint]
      else None)"

datatype code_units = Utf8 "uchar list" | Utf16 "ushort list" | Utf32 "ulong list"

definition PhEncodeUnicode :: "uchar \<Rightarrow> ulong \<Rightarrow> code_units option" where
  "PhEncodeUnicode encoding codePoint =
     (if encoding = PH_UNICODE_UTF8 then map_option Utf8 (encode_utf8 codePoint)
      else if encoding = PH_UNICODE_UTF16 then map_option Utf16 (encode_utf16 codePoint)
      else if encoding = PH_UNICODE_UTF32 then Some (Utf32 [codePoint])
      else None)"

section \<open>Bytes and code units as numbers\<close>

lemma and_high_bits: "(n :: nat) AND 192 = 64 * (n div 64 mod 4)"
proof -
  have "n AND push_bit 6 (mask 2) = push_bit 6 (drop_bit 6 n AND mask 2)"
    by (rule bit_eqI) (auto simp: bit_simps)
  moreover have "drop_bit 6 n AND mask 2 = n div 64 mod 4"
    by (simp only: take_bit_eq_mask [symmetric] take_bit_eq_mod drop_bit_eq_div) simp
  ultimately show ?thesis
    by (simp add: push_bit_eq_mult mask_eq_exp_minus_1)
qed

lemma and_c0_eq_80: "(n :: nat) < 256 \<Longrightarrow> n AND 192 = 128 \<longleftrightarrow> 128 \<le> n \<and> n < 192"
proof -
  assume "n < 256"
  then have "n div 64 mod 4 = n div 64" by (simp add: less_mult_imp_div_less)
  then have "n AND 192 = 128 \<longleftrightarrow> n div 64 = 2" by (simp add: and_high_bits)
  also have "\<dots> \<longleftrightarrow> 128 \<le> n \<and> n < 192" by linarith
  finally show ?thesis .
qed

definition continuation :: "uchar \<Rightarrow> bool" where
  "continuation b \<longleftrightarrow> 0x80 \<le> b \<and> b < 0xc0"

lemma continuation_bits: "(ucast b :: ulong) AND 0xc0 = 0x80 \<longleftrightarrow> continuation b"
proof -
  have "(ucast b :: ulong) AND 0xc0 = 0x80 \<longleftrightarrow> unat b AND 192 = 128"
    by (simp add: word_unat_eq_iff unsigned_and_eq unsigned_ucast_eq take_bit_nat_eq_self unat_uchar_less
        order_less_trans [OF unat_uchar_less])
  then show ?thesis
    by (simp add: and_c0_eq_80 [OF unat_uchar_less] continuation_def word_le_nat_alt word_less_nat_alt)
qed

lemma unat_ucast_byte [simp]: "unat (ucast (b :: uchar) :: ulong) = unat b"
  by (simp add: unsigned_ucast_eq take_bit_nat_eq_self order_less_trans [OF unat_uchar_less])

lemma unat_ucast_unit [simp]: "unat (ucast (u :: ushort) :: ulong) = unat u"
  by (simp add: unsigned_ucast_eq take_bit_nat_eq_self order_less_trans [OF unat_ushort_less])

lemma ucast_ucast_byte [simp]: "ucast (ucast (b :: uchar) :: ulong) = b"
  by (simp add: word_unat_eq_iff unsigned_ucast_eq [where 'b = 32] take_bit_nat_eq_self unat_uchar_less)

lemma ucast_ucast_unit [simp]: "ucast (ucast (u :: ushort) :: ulong) = u"
  by (simp add: word_unat_eq_iff unsigned_ucast_eq [where 'b = 32] take_bit_nat_eq_self unat_ushort_less)

lemma ucast_byte_less: "(ucast (b :: uchar) :: ulong) < n \<longleftrightarrow> unat b < unat n"
  by (simp add: word_less_nat_alt)

lemma ucast_byte_le: "n \<le> (ucast (b :: uchar) :: ulong) \<longleftrightarrow> unat n \<le> unat b"
  by (simp add: word_le_nat_alt)


section \<open>Feeding a decoder\<close>

text \<open>
  The two nested loops that every conversion of the library has: a code unit is written to the decoder,
  then every code point that it delivers is handled by the body, a function on the state of the
  conversion that gives \<open>None\<close> for an access out of bounds.
\<close>

partial_function (option) decode_loop ::
    "(ulong \<Rightarrow> 's \<Rightarrow> 's option) \<Rightarrow> PH_UNICODE_DECODER \<Rightarrow> 's \<Rightarrow> (PH_UNICODE_DECODER \<times> 's) option" where
  "decode_loop body d st =
     Option.bind (PhDecodeUnicodeDecoder d) (\<lambda>(codePoint, d).
       case codePoint of
         None \<Rightarrow> Some (d, st)
       | Some codePoint \<Rightarrow> Option.bind (body codePoint st) (\<lambda>st. decode_loop body d st))"

primrec convert_loop ::
    "(ulong \<Rightarrow> 's \<Rightarrow> 's option) \<Rightarrow> ulong list \<Rightarrow> PH_UNICODE_DECODER \<Rightarrow> 's \<Rightarrow> (PH_UNICODE_DECODER \<times> 's) option"
where
  "convert_loop body [] d st = Some (d, st)"
| "convert_loop body (u # us) d st =
     Option.bind (PhWriteUnicodeDecoder d u) (\<lambda>(_, d).
     Option.bind (decode_loop body d st) (\<lambda>(d, st). convert_loop body us d st))"

primrec each :: "(ulong \<Rightarrow> 's \<Rightarrow> 's option) \<Rightarrow> ulong list \<Rightarrow> 's \<Rightarrow> 's option" where
  "each body [] st = Some st"
| "each body (cp # cps) st = Option.bind (body cp st) (each body cps)"

lemma each_append: "each body (xs @ ys) st = Option.bind (each body xs st) (each body ys)"
  by (induction xs arbitrary: st) (simp_all add: Option.bind_assoc cong: Option.bind_cong)

text \<open>
  A reference decoder is given by its parser, which takes one code point from the front of the code
  units or says that more are needed: all code points, and the code units left at the end.
\<close>

datatype parse = Incomplete | Decoded ulong nat

function decode_units :: "('u list \<Rightarrow> parse) \<Rightarrow> 'u list \<Rightarrow> ulong list \<times> 'u list" where
  "decode_units parse us =
     (case parse us of
        Incomplete \<Rightarrow> ([], us)
      | Decoded cp n \<Rightarrow>
          if n = 0 \<or> length us < n then ([], us)
          else (cp # fst (decode_units parse (drop n us)), snd (decode_units parse (drop n us))))"
  by pat_completeness auto

termination
  by (relation "measure (\<lambda>(parse, us). length us)") auto

declare decode_units.simps [simp del]

section \<open>Histories of a decoder\<close>

text \<open>The calls of a client, and what they return.\<close>

datatype 'u decoder_op = WriteUnit 'u | DecodePoint

datatype decoder_event = Written bool | Delivered "ulong option"

fun run_decoder ::
  "ulong decoder_op list \<Rightarrow> PH_UNICODE_DECODER \<Rightarrow> (decoder_event list \<times> PH_UNICODE_DECODER) option"
where
  "run_decoder [] d = Some ([], d)"
| "run_decoder (WriteUnit u # ops) d =
     Option.bind (PhWriteUnicodeDecoder d u) (\<lambda>(b, d).
     map_option (\<lambda>(es, d). (Written b # es, d)) (run_decoder ops d))"
| "run_decoder (DecodePoint # ops) d =
     Option.bind (PhDecodeUnicodeDecoder d) (\<lambda>(cp, d).
     map_option (\<lambda>(es, d). (Delivered cp # es, d)) (run_decoder ops d))"

text \<open>
  The same with the code units that are under way: the ones \<open>p\<close> that have been read and begin a sequence, and the ones
  \<open>q\<close> in the queue. A full queue takes no code unit; \<open>decoder_legal\<close> limits how many are under way.
\<close>

fun decoder_spec :: "('u list \<Rightarrow> parse) \<Rightarrow> nat \<Rightarrow> 'u decoder_op list \<Rightarrow> 'u list \<Rightarrow> 'u list \<Rightarrow> decoder_event list" where
  "decoder_spec parse capacity [] p q = []"
| "decoder_spec parse capacity (WriteUnit u # ops) p q =
     (if length q < capacity then Written True # decoder_spec parse capacity ops p (q @ [u])
      else Written False # decoder_spec parse capacity ops p q)"
| "decoder_spec parse capacity (DecodePoint # ops) p q =
     (case parse (p @ q) of
        Incomplete \<Rightarrow> Delivered None # decoder_spec parse capacity ops (p @ q) []
      | Decoded cp n \<Rightarrow> Delivered (Some cp) # decoder_spec parse capacity ops [] (drop n (p @ q)))"

fun decoder_legal :: "('u list \<Rightarrow> parse) \<Rightarrow> nat \<Rightarrow> nat \<Rightarrow> 'u decoder_op list \<Rightarrow> 'u list \<Rightarrow> 'u list \<Rightarrow> bool" where
  "decoder_legal parse capacity limit [] p q \<longleftrightarrow> True"
| "decoder_legal parse capacity limit (WriteUnit u # ops) p q \<longleftrightarrow>
     (if length q < capacity
      then length p + length q < limit \<and> decoder_legal parse capacity limit ops p (q @ [u])
      else decoder_legal parse capacity limit ops p q)"
| "decoder_legal parse capacity limit (DecodePoint # ops) p q \<longleftrightarrow>
     (case parse (p @ q) of
        Incomplete \<Rightarrow> decoder_legal parse capacity limit ops (p @ q) []
      | Decoded cp n \<Rightarrow> decoder_legal parse capacity limit ops [] (drop n (p @ q)))"

section \<open>The contract of a decoder\<close>

text \<open>
  What a decoder of one encoding has to do: the units \<open>p\<close> of a sequence that has been begun and the
  units \<open>q\<close> of its queue stand for the input \<open>p @ q\<close>. The queue holds \<open>capacity\<close> units, and a unit may be written
  while fewer than \<open>limit\<close> are under way.
\<close>

locale unit_decoder =
  fixes parse :: "'u list \<Rightarrow> parse" and widen :: "'u \<Rightarrow> ulong"
    and rep :: "PH_UNICODE_DECODER \<Rightarrow> 'u list \<Rightarrow> 'u list \<Rightarrow> bool" and capacity :: nat and limit :: nat
  assumes parse_bounds: "parse us = Decoded cp n \<Longrightarrow> 0 < n \<and> n \<le> length us"
    and parse_append: "parse us = Decoded cp n \<Longrightarrow> parse (us @ vs) = Decoded cp n"
    and pending_incomplete: "rep d p [] \<Longrightarrow> parse p = Incomplete"
    and room: "0 < capacity" "rep d p [] \<Longrightarrow> length p < limit"
    and write_room: "rep d p q \<Longrightarrow> length q < capacity \<Longrightarrow> length p + length q < limit
          \<Longrightarrow> \<exists>d'. PhWriteUnicodeDecoder d (widen u) = Some (True, d') \<and> rep d' p (q @ [u])"
    and write_full: "rep d p q \<Longrightarrow> capacity \<le> length q \<Longrightarrow> PhWriteUnicodeDecoder d (widen u) = Some (False, d)"
    and decode_incomplete: "rep d p q \<Longrightarrow> parse (p @ q) = Incomplete
          \<Longrightarrow> \<exists>d'. PhDecodeUnicodeDecoder d = Some (None, d') \<and> rep d' (p @ q) []"
    and decode_point: "rep d p q \<Longrightarrow> parse (p @ q) = Decoded cp n
          \<Longrightarrow> \<exists>d'. PhDecodeUnicodeDecoder d = Some (Some cp, d') \<and> rep d' [] (drop n (p @ q))"
begin

lemma write_unit: "rep d p [] \<Longrightarrow> \<exists>d'. PhWriteUnicodeDecoder d (widen u) = Some (True, d') \<and> rep d' p [u]"
  using write_room [of d p "[]"] room by simp

lemma decode_units_incomplete: "parse us = Incomplete \<Longrightarrow> decode_units parse us = ([], us)"
  by (simp add: decode_units.simps)

lemma decode_units_point:
  "parse us = Decoded cp n \<Longrightarrow> decode_units parse us
     = (cp # fst (decode_units parse (drop n us)), snd (decode_units parse (drop n us)))"
  using parse_bounds [of us cp n] by (subst decode_units.simps) simp

text \<open>Reading more input does not change what has been decoded.\<close>

lemma decode_units_append:
  "decode_units parse (us @ vs)
   = (fst (decode_units parse us) @ fst (decode_units parse (snd (decode_units parse us) @ vs)),
      snd (decode_units parse (snd (decode_units parse us) @ vs)))"
proof (induction "length us" arbitrary: us rule: less_induct)
  case less
  show ?case
  proof (cases "parse us")
    case Incomplete
    then show ?thesis by (simp add: decode_units_incomplete)
  next
    case (Decoded cp n)
    note b = parse_bounds [OF Decoded]
    have "decode_units parse (drop n us @ vs)
        = (fst (decode_units parse (drop n us)) @ fst (decode_units parse (snd (decode_units parse (drop n us)) @ vs)),
           snd (decode_units parse (snd (decode_units parse (drop n us)) @ vs)))"
      using b by (intro less) auto
    then show ?thesis
      using b by (simp add: decode_units_point [OF parse_append [OF Decoded]] decode_units_point [OF Decoded])
  qed
qed

lemma decode_units_length:
  "length (fst (decode_units parse us)) + length (snd (decode_units parse us)) \<le> length us"
proof (induction "length us" arbitrary: us rule: less_induct)
  case less
  show ?case
  proof (cases "parse us")
    case Incomplete
    then show ?thesis by (simp add: decode_units_incomplete)
  next
    case (Decoded x n)
    then have "length (drop n us) < length us" using parse_bounds [OF Decoded] by auto
    from less.hyps [OF this] this show ?thesis
      by (simp add: decode_units_point [OF Decoded])
  qed
qed

lemma decode_units_all:
  assumes "\<And>us cp n. parse us = Decoded cp n \<Longrightarrow> P cp"
  shows "cp \<in> set (fst (decode_units parse us)) \<Longrightarrow> P cp"
proof (induction "length us" arbitrary: us rule: less_induct)
  case less
  show ?case
  proof (cases "parse us")
    case Incomplete
    with less.prems show ?thesis by (simp add: decode_units_incomplete)
  next
    case (Decoded x n)
    then have "length (drop n us) < length us" using parse_bounds [OF Decoded] by auto
    from less.hyps [OF this] less.prems assms [OF Decoded] show ?thesis
      by (auto simp: decode_units_point [OF Decoded])
  qed
qed

lemma decode_loop_units:
  "rep d p q \<Longrightarrow> \<exists>d'. decode_loop body d st = map_option (Pair d') (each body (fst (decode_units parse (p @ q))) st)
     \<and> rep d' (snd (decode_units parse (p @ q))) []"
proof (induction "length (p @ q)" arbitrary: d p q st rule: less_induct)
  case less
  show ?case
  proof (cases "parse (p @ q)")
    case Incomplete
    then obtain d' where "PhDecodeUnicodeDecoder d = Some (None, d')" "rep d' (p @ q) []"
      using decode_incomplete less.prems by blast
    with Incomplete show ?thesis
      by (intro exI [of _ d']) (simp add: decode_units_incomplete decode_loop.simps)
  next
    case (Decoded cp n)
    then obtain d1 where d1: "PhDecodeUnicodeDecoder d = Some (Some cp, d1)" "rep d1 [] (drop n (p @ q))"
      using decode_point less.prems by blast
    let ?us = "drop n (p @ q)"
    have "length ([] @ ?us) < length (p @ q)" using parse_bounds [OF Decoded] by auto
    then have IH: "\<exists>d'. decode_loop body d1 st = map_option (Pair d') (each body (fst (decode_units parse ?us)) st)
       \<and> rep d' (snd (decode_units parse ?us)) []" for st
      using less.hyps [of "[]" ?us d1 st] d1(2) by (simp only: append_Nil)
    then obtain f where f: "decode_loop body d1 st = map_option (Pair (f st)) (each body (fst (decode_units parse ?us)) st)"
      "rep (f st) (snd (decode_units parse ?us)) []" for st
      by metis
    show ?thesis
    proof (cases "body cp st")
      case None
      with d1 f(2) Decoded show ?thesis
        by (intro exI [of _ "f st"]) (simp add: decode_units_point [OF Decoded] decode_loop.simps [of body d])
    next
      case (Some st1)
      with d1 f Decoded show ?thesis
        by (intro exI [of _ "f st1"]) (simp add: decode_units_point [OF Decoded] decode_loop.simps [of body d])
    qed
  qed
qed

lemma convert_loop_units:
  "rep d p [] \<Longrightarrow> \<exists>d'. convert_loop body (map widen us) d st
       = map_option (Pair d') (each body (fst (decode_units parse (p @ us))) st)
     \<and> rep d' (snd (decode_units parse (p @ us))) []"
proof (induction us arbitrary: d p st)
  case Nil
  then have "decode_units parse p = ([], p)"
    by (intro decode_units_incomplete pending_incomplete)
  with Nil show ?case by (intro exI [of _ d]) simp
next
  case (Cons u us)
  obtain d1 where d1: "PhWriteUnicodeDecoder d (widen u) = Some (True, d1)" "rep d1 p [u]"
    using write_unit [OF Cons.prems] by blast
  obtain d2 where d2: "decode_loop body d1 st = map_option (Pair d2) (each body (fst (decode_units parse (p @ [u]))) st)"
    "rep d2 (snd (decode_units parse (p @ [u]))) []"
    using decode_loop_units [OF d1(2), of body st] by auto
  note IH = Cons.IH [OF d2(2)]
  have split: "decode_units parse (p @ u # us)
    = (fst (decode_units parse (p @ [u])) @ fst (decode_units parse (snd (decode_units parse (p @ [u])) @ us)),
       snd (decode_units parse (snd (decode_units parse (p @ [u])) @ us)))"
    using decode_units_append [of "p @ [u]" us] by simp
  show ?case
  proof (cases "each body (fst (decode_units parse (p @ [u]))) st")
    case None
    from IH [of st] obtain d3 where
      "rep d3 (snd (decode_units parse (snd (decode_units parse (p @ [u])) @ us))) []"
      by blast
    with None d1(1) d2(1) show ?thesis
      by (intro exI [of _ d3]) (simp add: split each_append)
  next
    case (Some st1)
    from IH [of st1] obtain d3 where
      "convert_loop body (map widen us) d2 st1
        = map_option (Pair d3) (each body (fst (decode_units parse (snd (decode_units parse (p @ [u])) @ us))) st1)"
      "rep d3 (snd (decode_units parse (snd (decode_units parse (p @ [u])) @ us))) []"
      by blast
    with Some d1(1) d2(1) show ?thesis
      by (intro exI [of _ d3]) (simp add: split each_append)
  qed
qed

text \<open>Any sequence of calls, as long as too many code units are never under way, does what the specification says.\<close>

lemma run_decoder_units:
  assumes "rep d p q"
    and "decoder_legal parse capacity limit ops p q
      \<or> (\<forall>d p q. rep d p q \<and> length q < capacity \<longrightarrow> length p + length q < limit)"
  shows "\<exists>d'. run_decoder (map (map_decoder_op widen) ops) d = Some (decoder_spec parse capacity ops p q, d')"
  using assms
proof (induction ops arbitrary: d p q)
  case (Cons op ops)
  show ?case
  proof (cases op)
    case (WriteUnit u)
    show ?thesis
    proof (cases "length q < capacity")
      case True
      then have "length p + length q < limit" using Cons.prems WriteUnit by auto
      then obtain d1 where "PhWriteUnicodeDecoder d (widen u) = Some (True, d1)" "rep d1 p (q @ [u])"
        using write_room [OF Cons.prems(1) True] by blast
      then show ?thesis using Cons.IH [of d1 p "q @ [u]"] Cons.prems(2) WriteUnit True by auto
    next
      case False
      then have "PhWriteUnicodeDecoder d (widen u) = Some (False, d)" using write_full [OF Cons.prems(1)] by simp
      then show ?thesis using Cons.IH [OF Cons.prems(1)] Cons.prems(2) WriteUnit False by auto
    qed
  next
    case DecodePoint
    show ?thesis
    proof (cases "parse (p @ q)")
      case Incomplete
      then obtain d1 where "PhDecodeUnicodeDecoder d = Some (None, d1)" "rep d1 (p @ q) []"
        using decode_incomplete [OF Cons.prems(1)] by blast
      then show ?thesis using Cons.IH [of d1 "p @ q" "[]"] Cons.prems(2) DecodePoint Incomplete by auto
    next
      case (Decoded cp n)
      then obtain d1 where "PhDecodeUnicodeDecoder d = Some (Some cp, d1)" "rep d1 [] (drop n (p @ q))"
        using decode_point [OF Cons.prems(1)] by blast
      then show ?thesis using Cons.IH [of d1 "[]" "drop n (p @ q)"] Cons.prems(2) DecodePoint Decoded by auto
    qed
  qed
qed simp

end

section \<open>The reference decoder for UTF-8\<close>

text \<open>
  The well-formed sequences of the Unicode standard: a lead byte, and the range of the second byte that
  it allows. A byte that does not start one, and cannot with the bytes that follow, is decoded by itself
  as \<open>0xdc00\<close> plus its value. The reference parses one code point and says how many bytes it took.
\<close>

definition second_byte :: "uchar \<Rightarrow> uchar \<Rightarrow> bool" where
  "second_byte b1 b2 \<longleftrightarrow> continuation b2 \<and> (b1 = 0xe0 \<longrightarrow> 0xa0 \<le> b2) \<and> (b1 = 0xf0 \<longrightarrow> 0x90 \<le> b2)
     \<and> (b1 = 0xf4 \<longrightarrow> b2 < 0x90)"

definition low6 :: "uchar \<Rightarrow> nat" where
  "low6 b = unat b - 0x80"

definition parse_utf8 :: "uchar list \<Rightarrow> parse" where
  "parse_utf8 bs =
     (case bs of
        [] \<Rightarrow> Incomplete
      | b1 # bs \<Rightarrow>
          (let error = Decoded (of_nat (0xdc00 + unat b1)) 1 in
           if b1 < 0x80 then Decoded (of_nat (unat b1)) 1
           else if b1 < 0xc2 \<or> 0xf5 \<le> b1 then error
           else
             (case bs of
                [] \<Rightarrow> Incomplete
              | b2 # bs \<Rightarrow>
                  if \<not> second_byte b1 b2 then error
                  else if b1 < 0xe0 then Decoded (of_nat ((unat b1 - 0xc0) * 64 + low6 b2)) 2
                  else
                    (case bs of
                       [] \<Rightarrow> Incomplete
                     | b3 # bs \<Rightarrow>
                         if \<not> continuation b3 then error
                         else if b1 < 0xf0
                           then Decoded (of_nat (((unat b1 - 0xe0) * 64 + low6 b2) * 64 + low6 b3)) 3
                         else
                           (case bs of
                              [] \<Rightarrow> Incomplete
                            | b4 # bs \<Rightarrow>
                                if \<not> continuation b4 then error
                                else Decoded (of_nat ((((unat b1 - 0xf0) * 64 + low6 b2) * 64 + low6 b3) * 64
                                       + low6 b4)) 4)))))"

lemma parse_utf8_Nil [simp]: "parse_utf8 [] = Incomplete"
  by (simp add: parse_utf8_def)

lemma parse_utf8_positive: "parse_utf8 bs = Decoded cp n \<Longrightarrow> 0 < n \<and> n \<le> length bs"
  by (auto simp: parse_utf8_def Let_def split: list.splits if_splits)

section \<open>The queue of the decoder\<close>

definition queue :: "PH_UNICODE_DECODER \<Rightarrow> uchar list \<Rightarrow> bool" where
  "queue d q \<longleftrightarrow> Encoding d = PH_UNICODE_UTF8 \<and> length (Utf8_Input d) = 4 \<and> length q \<le> 4
     \<and> InputCount d = of_nat (length q) \<and> take (length q) (Utf8_Input d) = q"

lemma small_count: "n \<le> 4 \<Longrightarrow> unat (of_nat n :: uchar) = n"
  by (simp add: unat_of_nat)

lemma list4: "length xs = 4 \<longleftrightarrow> (\<exists>a b c d. xs = [a, b, c, d])"
  by (auto simp: numeral_eq_Suc length_Suc_conv)

lemma list2: "length xs = 2 \<longleftrightarrow> (\<exists>a b. xs = [a, b])"
  by (auto simp: numeral_eq_Suc length_Suc_conv)

lemma read_queue:
  assumes "queue d (c # q)"
  obtains i where "PhpReadUnicodeDecoder d = Some (Some (ucast c), d\<lparr>Utf8_Input := i, InputCount := of_nat (length q)\<rparr>)"
    "queue (d\<lparr>Utf8_Input := i, InputCount := of_nat (length q)\<rparr>) q"
proof -
  obtain a b x y where i: "Utf8_Input d = [a, b, x, y]"
    using assms by (auto simp: queue_def list4)
  have c: "a = c" "take (length q) [b, x, y] = q" "length q \<le> 3" "InputCount d = of_nat (Suc (length q))"
    "Encoding d = 0"
    using assms i by (auto simp: queue_def)
  have n: "InputCount d \<noteq> 0" "InputCount d - 1 = of_nat (length q)"
    using c(3) by (simp_all add: c(4) word_unat_eq_iff small_count [of "Suc _"] del: of_nat_Suc) simp
  have t: "take (length q) [b, x, y, y] = q"
    using c(2,3) take_Cons
    by (metis append_Cons append_Nil butlast.simps(2) length_Cons list.size(3) numeral_3_eq_3 take_append diff_is_0_eq append_Nil2 take0)
  have "PhpReadUnicodeDecoder d = Some (Some (ucast c), d\<lparr>Utf8_Input := [b, x, y, y], InputCount := of_nat (length q)\<rparr>)"
    using c n i by (simp add: PhpReadUnicodeDecoder_def)
  moreover have "queue (d\<lparr>Utf8_Input := [b, x, y, y], InputCount := of_nat (length q)\<rparr>) q"
    using c t by (simp add: queue_def)
  ultimately show thesis by (rule that)
qed

lemma unread_queue:
  assumes "queue d q" "length q < 4"
  obtains i where
    "PhpUnreadUnicodeDecoder d (ucast c) = Some (d\<lparr>Utf8_Input := i, InputCount := of_nat (length (c # q))\<rparr>)"
    "queue (d\<lparr>Utf8_Input := i, InputCount := of_nat (length (c # q))\<rparr>) (c # q)"
proof -
  obtain a b x y where i: "Utf8_Input d = [a, b, x, y]"
    using assms by (auto simp: queue_def list4)
  have q: "take (length q) [a, b, x, y] = q" "InputCount d = of_nat (length q)" "Encoding d = 0"
    using assms i by (auto simp: queue_def)
  have n: "\<not> InputCount d \<ge> 4"
    using assms(2) by (simp add: q(2) word_le_nat_alt small_count)
  have t: "take (length q) [a, b, x] = q"
    using q(1) assms(2) by (auto simp: take_Cons' less_Suc_eq numeral_eq_Suc split: if_splits)
  have "PhpUnreadUnicodeDecoder d (ucast c)
      = Some (d\<lparr>Utf8_Input := [c, a, b, x], InputCount := of_nat (length (c # q))\<rparr>)"
    using n q(3) i by (simp add: PhpUnreadUnicodeDecoder_def q(2))
  moreover have "queue (d\<lparr>Utf8_Input := [c, a, b, x], InputCount := of_nat (length (c # q))\<rparr>) (c # q)"
    using q(3) t assms(2) by (simp add: queue_def)
  ultimately show thesis by (rule that)
qed

text \<open>The bytes of a sequence that has been begun, in the state and the code units of the decoder.\<close>

definition pending :: "PH_UNICODE_DECODER \<Rightarrow> uchar list \<Rightarrow> bool" where
  "pending d p \<longleftrightarrow>
     State d = 0 \<and> p = []
   \<or> State d = 1 \<and> p = [CodeUnit1 d] \<and> 0xc2 \<le> CodeUnit1 d \<and> CodeUnit1 d < 0xe0
   \<or> State d = 2 \<and> p = [CodeUnit1 d] \<and> 0xe0 \<le> CodeUnit1 d \<and> CodeUnit1 d < 0xf0
   \<or> State d = 3 \<and> p = [CodeUnit1 d] \<and> 0xf0 \<le> CodeUnit1 d \<and> CodeUnit1 d < 0xf5
   \<or> State d = 4 \<and> p = [CodeUnit1 d, CodeUnit2 d] \<and> 0xe0 \<le> CodeUnit1 d \<and> CodeUnit1 d < 0xf0
       \<and> second_byte (CodeUnit1 d) (CodeUnit2 d)
   \<or> State d = 5 \<and> p = [CodeUnit1 d, CodeUnit2 d] \<and> 0xf0 \<le> CodeUnit1 d \<and> CodeUnit1 d < 0xf5
       \<and> second_byte (CodeUnit1 d) (CodeUnit2 d)
   \<or> State d = 6 \<and> p = [CodeUnit1 d, CodeUnit2 d, CodeUnit3 d] \<and> 0xf0 \<le> CodeUnit1 d \<and> CodeUnit1 d < 0xf5
       \<and> second_byte (CodeUnit1 d) (CodeUnit2 d) \<and> continuation (CodeUnit3 d)"

lemma queue_update [simp]:
  "queue (d\<lparr>State := s\<rparr>) q = queue d q" "queue (d\<lparr>CodeUnit1 := b\<rparr>) q = queue d q"
  "queue (d\<lparr>CodeUnit2 := b\<rparr>) q = queue d q" "queue (d\<lparr>CodeUnit3 := b\<rparr>) q = queue d q"
  "queue (d\<lparr>CodeUnit4 := b\<rparr>) q = queue d q"
  by (simp_all add: queue_def)

lemma pending_update [simp]:
  "pending (d\<lparr>Utf8_Input := i, InputCount := n\<rparr>) p = pending d p"
  by (simp add: pending_def)

lemma pending_start [simp]: "pending (d\<lparr>State := 0\<rparr>) p \<longleftrightarrow> p = []"
  by (auto simp: pending_def)

lemma pending_length: "pending d p \<Longrightarrow> length p \<le> 3"
  by (auto simp: pending_def)

lemma pending_incomplete:
  assumes "pending d p"
  shows "parse_utf8 p = Incomplete"
proof -
  have "b1 < 0xc2 \<longrightarrow> \<not> 0xe0 \<le> b1" "0xe0 \<le> b1 \<longrightarrow> \<not> b1 < 0xc2" for b1 :: uchar
    by (simp_all add: word_less_nat_alt word_le_nat_alt)
  with assms show ?thesis
    by (auto simp: pending_def parse_utf8_def Let_def word_less_nat_alt word_le_nat_alt)
qed

text \<open>A malformed sequence: its first byte is decoded, the bytes behind it go back into the queue.\<close>

lemma utf8_error:
  assumes "queue d q" "length q \<le> 3"
  shows "\<exists>d'. PhpDecodeUtf8Error d 1 = Some (Return (Some (ucast (CodeUnit1 d) + 0xdc00)) d') \<and> queue d' q \<and> pending d' []"
    "\<exists>d'. PhpDecodeUtf8Error d 2 = Some (Return (Some (ucast (CodeUnit1 d) + 0xdc00)) d')
       \<and> queue d' (CodeUnit2 d # q) \<and> pending d' []"
proof -
  show "\<exists>d'. PhpDecodeUtf8Error d 1 = Some (Return (Some (ucast (CodeUnit1 d) + 0xdc00)) d') \<and> queue d' q \<and> pending d' []"
    using assms(1) by (simp add: PhpDecodeUtf8Error_def)
  obtain i where "PhpUnreadUnicodeDecoder d (ucast (CodeUnit2 d))
      = Some (d\<lparr>Utf8_Input := i, InputCount := of_nat (length (CodeUnit2 d # q))\<rparr>)"
    "queue (d\<lparr>Utf8_Input := i, InputCount := of_nat (length (CodeUnit2 d # q))\<rparr>) (CodeUnit2 d # q)"
    using assms by (elim unread_queue [of d q "CodeUnit2 d"]) simp
  then show "\<exists>d'. PhpDecodeUtf8Error d 2 = Some (Return (Some (ucast (CodeUnit1 d) + 0xdc00)) d')
       \<and> queue d' (CodeUnit2 d # q) \<and> pending d' []"
    by (simp add: PhpDecodeUtf8Error_def)
qed

lemma utf8_error_3:
  assumes "queue d q" "length q \<le> 2"
  shows "\<exists>d'. PhpDecodeUtf8Error d 3 = Some (Return (Some (ucast (CodeUnit1 d) + 0xdc00)) d')
       \<and> queue d' (CodeUnit2 d # CodeUnit3 d # q) \<and> pending d' []"
proof -
  obtain i where i: "PhpUnreadUnicodeDecoder d (ucast (CodeUnit3 d))
      = Some (d\<lparr>Utf8_Input := i, InputCount := of_nat (length (CodeUnit3 d # q))\<rparr>)"
    "queue (d\<lparr>Utf8_Input := i, InputCount := of_nat (length (CodeUnit3 d # q))\<rparr>) (CodeUnit3 d # q)"
    using assms by (elim unread_queue [of d q "CodeUnit3 d"]) simp
  from utf8_error(2) [OF i(2)] assms(2) i(1) show ?thesis
    by (simp add: PhpDecodeUtf8Error_def)
qed

lemma utf8_error_4:
  assumes "queue d q" "length q \<le> 1"
  shows "\<exists>d'. PhpDecodeUtf8Error d 4 = Some (Return (Some (ucast (CodeUnit1 d) + 0xdc00)) d')
       \<and> queue d' (CodeUnit2 d # CodeUnit3 d # CodeUnit4 d # q) \<and> pending d' []"
proof -
  obtain i where i: "PhpUnreadUnicodeDecoder d (ucast (CodeUnit4 d))
      = Some (d\<lparr>Utf8_Input := i, InputCount := of_nat (length (CodeUnit4 d # q))\<rparr>)"
    "queue (d\<lparr>Utf8_Input := i, InputCount := of_nat (length (CodeUnit4 d # q))\<rparr>) (CodeUnit4 d # q)"
    using assms by (elim unread_queue [of d q "CodeUnit4 d"]) simp
  from utf8_error_3 [OF i(2)] assms(2) i(1) show ?thesis
    by (simp add: PhpDecodeUtf8Error_def)
qed

text \<open>The constants that the code subtracts are the sums of the marks of the bytes.\<close>

lemma ucast_byte_split: "unat (b :: uchar) = k + m \<Longrightarrow> (ucast b :: ulong) = of_nat k + of_nat m"
  by (metis of_nat_add of_nat_unat)

lemma sequence_value:
  fixes b1 b2 :: uchar
  assumes "0xc0 \<le> unat b1" "0x80 \<le> unat b2"
  shows "push_bit 6 (ucast b1) + ucast b2 - 0x3080 = (of_nat ((unat b1 - 0xc0) * 64 + low6 b2) :: ulong)"
proof -
  obtain m1 m2 where "unat b1 = 0xc0 + m1" "unat b2 = 0x80 + m2"
    using assms by (auto simp: le_iff_add)
  then show ?thesis
    using ucast_byte_split [of b1 "0xc0" m1] ucast_byte_split [of b2 "0x80" m2]
    by (simp add: low6_def push_bit_eq_mult)
qed

lemma sequence_value_3:
  fixes b1 b2 b3 :: uchar
  assumes "0xe0 \<le> unat b1" "0x80 \<le> unat b2" "0x80 \<le> unat b3"
  shows "push_bit 12 (ucast b1) + push_bit 6 (ucast b2) + ucast b3 - 0xe2080
         = (of_nat (((unat b1 - 0xe0) * 64 + low6 b2) * 64 + low6 b3) :: ulong)"
proof -
  obtain m1 m2 m3 where "unat b1 = 0xe0 + m1" "unat b2 = 0x80 + m2" "unat b3 = 0x80 + m3"
    using assms by (auto simp: le_iff_add)
  then show ?thesis
    using ucast_byte_split [of b1 "0xe0" m1] ucast_byte_split [of b2 "0x80" m2] ucast_byte_split [of b3 "0x80" m3]
    by (simp add: low6_def push_bit_eq_mult)
qed

lemma sequence_value_4:
  fixes b1 b2 b3 b4 :: uchar
  assumes "0xf0 \<le> unat b1" "0x80 \<le> unat b2" "0x80 \<le> unat b3" "0x80 \<le> unat b4"
  shows "push_bit 18 (ucast b1) + push_bit 12 (ucast b2) + push_bit 6 (ucast b3) + ucast b4 - 0x3c82080
         = (of_nat ((((unat b1 - 0xf0) * 64 + low6 b2) * 64 + low6 b3) * 64 + low6 b4) :: ulong)"
proof -
  obtain m1 m2 m3 m4 where "unat b1 = 0xf0 + m1" "unat b2 = 0x80 + m2" "unat b3 = 0x80 + m3" "unat b4 = 0x80 + m4"
    using assms by (auto simp: le_iff_add)
  then show ?thesis
    using ucast_byte_split [of b1 "0xf0" m1] ucast_byte_split [of b2 "0x80" m2] ucast_byte_split [of b3 "0x80" m3]
      ucast_byte_split [of b4 "0x80" m4]
    by (simp add: low6_def push_bit_eq_mult)
qed

lemma continuation_bound: "continuation b \<Longrightarrow> 0x80 \<le> unat b"
  by (simp add: continuation_def word_le_nat_alt)

text \<open>
  One round of the loop on the next byte: either it extends the sequence, or it ends it with the code
  point that the reference parses, and what the reference leaves stands in the queue.
\<close>

definition step_ok :: "PH_UNICODE_DECODER \<Rightarrow> uchar list \<Rightarrow> uchar \<Rightarrow> uchar list \<Rightarrow> bool" where
  "step_ok d p c q \<longleftrightarrow>
     (\<exists>d'. utf8_step (ucast c) d = Some (Continue d') \<and> queue d' q \<and> pending d' (p @ [c]))
   \<or> (\<exists>cp n d'. utf8_step (ucast c) d = Some (Return (Some cp) d') \<and> parse_utf8 (p @ c # q) = Decoded cp n
        \<and> queue d' (drop n (p @ c # q)) \<and> pending d' [])"

lemma step_ok_continue:
  "utf8_step (ucast c) d = Some (Continue d') \<Longrightarrow> queue d' q \<Longrightarrow> pending d' (p @ [c]) \<Longrightarrow> step_ok d p c q"
  by (auto simp: step_ok_def)

lemma step_ok_return:
  "utf8_step (ucast c) d = Some (Return (Some cp) (d1\<lparr>State := 0\<rparr>)) \<Longrightarrow> parse_utf8 (p @ c # q) = Decoded cp n
    \<Longrightarrow> queue d1 (drop n (p @ c # q)) \<Longrightarrow> step_ok d p c q"
  unfolding step_ok_def
  by (rule disjI2, rule exI [of _ cp], rule exI [of _ n], rule exI [of _ "d1\<lparr>State := 0\<rparr>"]) simp

lemma step_ok_error:
  assumes "utf8_step (ucast c) d = PhpDecodeUtf8Error d1 k"
    and "\<exists>d'. PhpDecodeUtf8Error d1 k = Some (Return (Some (ucast (CodeUnit1 d1) + 0xdc00)) d') \<and> queue d' q' \<and> pending d' []"
    and "parse_utf8 (p @ c # q) = Decoded (ucast (CodeUnit1 d1) + 0xdc00) 1" "q' = drop 1 (p @ c # q)"
  shows "step_ok d p c q"
proof -
  from assms(2) obtain d' where "PhpDecodeUtf8Error d1 k = Some (Return (Some (ucast (CodeUnit1 d1) + 0xdc00)) d')"
    "queue d' q'" "pending d' []"
    by blast
  with assms(1,3,4) show ?thesis
    unfolding step_ok_def
    by (intro disjI2 exI [of _ "ucast (CodeUnit1 d1) + 0xdc00"] exI [of _ "1 :: nat"] exI [of _ d']) simp
qed

lemma step_ok_0:
  assumes q: "queue d q" "length q \<le> 3" and p: "State d = 0"
  shows "step_ok d [] c q"
proof -
  note v = word_less_nat_alt word_le_nat_alt
  consider "unat c < 0x80" | "0x80 \<le> unat c \<and> unat c < 0xc2 \<or> 0xf5 \<le> unat c" | "0xc2 \<le> unat c" "unat c < 0xf5"
    by linarith
  then show ?thesis
  proof cases
    case 1
    then have u: "utf8_step (ucast c) d = Some (Return (Some (ucast c)) (d\<lparr>CodeUnit1 := c, State := 0\<rparr>))"
      using p by (simp add: utf8_step_def Let_def v)
    moreover have "parse_utf8 (c # q) = Decoded (ucast c) 1"
      using 1 by (simp add: parse_utf8_def Let_def v)
    ultimately show ?thesis using q by (intro step_ok_return [where n = 1, OF u]) simp_all
  next
    case 2
    then have u: "utf8_step (ucast c) d = PhpDecodeUtf8Error (d\<lparr>CodeUnit1 := c\<rparr>) 1"
      using p by (auto simp: utf8_step_def Let_def v)
    moreover have "parse_utf8 (c # q) = Decoded (ucast c + 0xdc00) 1"
      using 2 by (auto simp: parse_utf8_def Let_def v)
    ultimately show ?thesis using q by (intro step_ok_error [OF u utf8_error(1)]) simp_all
  next
    case 3
    then show ?thesis
      using q p by (auto simp: step_ok_def utf8_step_def Let_def v pending_def)
  qed
qed

lemma step_ok_1:
  assumes q: "queue d q" "length q \<le> 3" and p: "State d = 1" "0xc2 \<le> CodeUnit1 d" "CodeUnit1 d < 0xe0"
  shows "step_ok d [CodeUnit1 d] c q"
proof -
  let ?b = "CodeUnit1 d"
  note v = word_less_nat_alt word_le_nat_alt
  have b: "0xc2 \<le> unat ?b" "unat ?b < 0xe0" using p(2,3) by (simp_all add: v)
  then have s: "second_byte ?b c = continuation c" by (auto simp: second_byte_def)
  show ?thesis
  proof (cases "continuation c")
    case True
    then have u: "utf8_step (ucast c) d = Some (Return (Some (of_nat ((unat ?b - 0xc0) * 64 + low6 c)))
        (d\<lparr>CodeUnit2 := c, State := 0\<rparr>))"
      using p(1) sequence_value [of ?b c] b by (simp add: utf8_step_def Let_def continuation_bits continuation_bound)
    moreover have "parse_utf8 (?b # c # q) = Decoded (of_nat ((unat ?b - 0xc0) * 64 + low6 c)) 2"
      using True s b by (simp add: parse_utf8_def Let_def v)
    ultimately show ?thesis using q by (intro step_ok_return [where n = 2, OF u]) simp_all
  next
    case False
    then have u: "utf8_step (ucast c) d = PhpDecodeUtf8Error (d\<lparr>CodeUnit2 := c\<rparr>) 2"
      using p(1) by (simp add: utf8_step_def Let_def continuation_bits)
    moreover have "parse_utf8 (?b # c # q) = Decoded (ucast ?b + 0xdc00) 1"
      using False s b by (simp add: parse_utf8_def Let_def v)
    ultimately show ?thesis using q by (intro step_ok_error [OF u utf8_error(2)]) simp_all
  qed
qed

lemma step_ok_2:
  assumes q: "queue d q" "length q \<le> 3" and p: "State d = 2" "0xe0 \<le> CodeUnit1 d" "CodeUnit1 d < 0xf0"
  shows "step_ok d [CodeUnit1 d] c q"
proof -
  let ?b = "CodeUnit1 d"
  note v = word_less_nat_alt word_le_nat_alt
  have b: "0xe0 \<le> unat ?b" "unat ?b < 0xf0" using p(2,3) by (simp_all add: v)
  then have s: "second_byte ?b c \<longleftrightarrow> continuation c \<and> (?b \<noteq> 0xe0 \<or> 0xa0 \<le> unat c)"
    by (auto simp: second_byte_def v)
  show ?thesis
  proof (cases "second_byte ?b c")
    case True
    then have u: "utf8_step (ucast c) d = Some (Continue (d\<lparr>CodeUnit2 := c, State := 4\<rparr>))"
      using p(1) s by (auto simp: utf8_step_def Let_def continuation_bits v)
    with True p(2,3) q show ?thesis by (intro step_ok_continue [OF u]) (simp_all add: pending_def)
  next
    case False
    then have u: "utf8_step (ucast c) d = PhpDecodeUtf8Error (d\<lparr>CodeUnit2 := c\<rparr>) 2"
      using p(1) s by (auto simp: utf8_step_def Let_def continuation_bits v)
    moreover have "parse_utf8 (?b # c # q) = Decoded (ucast ?b + 0xdc00) 1"
      using False b by (simp add: parse_utf8_def Let_def v)
    ultimately show ?thesis using q by (intro step_ok_error [OF u utf8_error(2)]) simp_all
  qed
qed

lemma step_ok_3:
  assumes q: "queue d q" "length q \<le> 3" and p: "State d = 3" "0xf0 \<le> CodeUnit1 d" "CodeUnit1 d < 0xf5"
  shows "step_ok d [CodeUnit1 d] c q"
proof -
  let ?b = "CodeUnit1 d"
  note v = word_less_nat_alt word_le_nat_alt
  have b: "0xf0 \<le> unat ?b" "unat ?b < 0xf5" using p(2,3) by (simp_all add: v)
  then have s: "second_byte ?b c \<longleftrightarrow>
      continuation c \<and> (?b \<noteq> 0xf0 \<or> 0x90 \<le> unat c) \<and> (?b \<noteq> 0xf4 \<or> unat c < 0x90)"
    by (auto simp: second_byte_def v)
  show ?thesis
  proof (cases "second_byte ?b c")
    case True
    then have u: "utf8_step (ucast c) d = Some (Continue (d\<lparr>CodeUnit2 := c, State := 5\<rparr>))"
      using p(1) s by (auto simp: utf8_step_def Let_def continuation_bits v)
    with True p(2,3) q show ?thesis by (intro step_ok_continue [OF u]) (simp_all add: pending_def)
  next
    case False
    then have u: "utf8_step (ucast c) d = PhpDecodeUtf8Error (d\<lparr>CodeUnit2 := c\<rparr>) 2"
      using p(1) s by (auto simp: utf8_step_def Let_def continuation_bits v)
    moreover have "parse_utf8 (?b # c # q) = Decoded (ucast ?b + 0xdc00) 1"
      using False b by (simp add: parse_utf8_def Let_def v)
    ultimately show ?thesis using q by (intro step_ok_error [OF u utf8_error(2)]) simp_all
  qed
qed

lemma second_byte_bound: "second_byte b1 b2 \<Longrightarrow> 0x80 \<le> unat b2"
  by (simp add: second_byte_def continuation_bound)

lemma step_ok_4:
  assumes q: "queue d q" "length q \<le> 2"
    and p: "State d = 4" "0xe0 \<le> CodeUnit1 d" "CodeUnit1 d < 0xf0" "second_byte (CodeUnit1 d) (CodeUnit2 d)"
  shows "step_ok d [CodeUnit1 d, CodeUnit2 d] c q"
proof -
  let ?b = "CodeUnit1 d" and ?b2 = "CodeUnit2 d"
  let ?v = "((unat ?b - 0xe0) * 64 + low6 ?b2) * 64 + low6 c"
  note v = word_less_nat_alt word_le_nat_alt
  have b: "0xe0 \<le> unat ?b" "unat ?b < 0xf0" using p(2,3) by (simp_all add: v)
  show ?thesis
  proof (cases "continuation c")
    case True
    then have u: "utf8_step (ucast c) d = Some (Return (Some (of_nat ?v)) (d\<lparr>CodeUnit3 := c, State := 0\<rparr>))"
      using p(1,4) b sequence_value_3 [of ?b ?b2 c]
      by (simp add: utf8_step_def Let_def continuation_bits continuation_bound second_byte_bound)
    moreover have "parse_utf8 (?b # ?b2 # c # q) = Decoded (of_nat ?v) 3"
      using True b p(4) by (simp add: parse_utf8_def Let_def v)
    ultimately show ?thesis using q by (intro step_ok_return [where n = 3, OF u]) simp_all
  next
    case False
    then have u: "utf8_step (ucast c) d = PhpDecodeUtf8Error (d\<lparr>CodeUnit3 := c\<rparr>) 3"
      using p(1) by (simp add: utf8_step_def Let_def continuation_bits)
    moreover have "parse_utf8 (?b # ?b2 # c # q) = Decoded (ucast ?b + 0xdc00) 1"
      using False b p(4) by (simp add: parse_utf8_def Let_def v)
    ultimately show ?thesis using q by (intro step_ok_error [OF u utf8_error_3]) simp_all
  qed
qed

lemma step_ok_5:
  assumes q: "queue d q" "length q \<le> 2"
    and p: "State d = 5" "0xf0 \<le> CodeUnit1 d" "CodeUnit1 d < 0xf5" "second_byte (CodeUnit1 d) (CodeUnit2 d)"
  shows "step_ok d [CodeUnit1 d, CodeUnit2 d] c q"
proof -
  let ?b = "CodeUnit1 d" and ?b2 = "CodeUnit2 d"
  note v = word_less_nat_alt word_le_nat_alt
  have b: "0xf0 \<le> unat ?b" "unat ?b < 0xf5" using p(2,3) by (simp_all add: v)
  show ?thesis
  proof (cases "continuation c")
    case True
    then have u: "utf8_step (ucast c) d = Some (Continue (d\<lparr>CodeUnit3 := c, State := 6\<rparr>))"
      using p(1) by (simp add: utf8_step_def Let_def continuation_bits)
    with True p(2-) q show ?thesis by (intro step_ok_continue [OF u]) (simp_all add: pending_def)
  next
    case False
    then have u: "utf8_step (ucast c) d = PhpDecodeUtf8Error (d\<lparr>CodeUnit3 := c\<rparr>) 3"
      using p(1) by (simp add: utf8_step_def Let_def continuation_bits)
    moreover have "parse_utf8 (?b # ?b2 # c # q) = Decoded (ucast ?b + 0xdc00) 1"
      using False b p(4) by (simp add: parse_utf8_def Let_def v)
    ultimately show ?thesis using q by (intro step_ok_error [OF u utf8_error_3]) simp_all
  qed
qed

lemma step_ok_6:
  assumes q: "queue d q" "length q \<le> 1"
    and p: "State d = 6" "0xf0 \<le> CodeUnit1 d" "CodeUnit1 d < 0xf5" "second_byte (CodeUnit1 d) (CodeUnit2 d)"
      "continuation (CodeUnit3 d)"
  shows "step_ok d [CodeUnit1 d, CodeUnit2 d, CodeUnit3 d] c q"
proof -
  let ?b = "CodeUnit1 d" and ?b2 = "CodeUnit2 d" and ?b3 = "CodeUnit3 d"
  let ?v = "(((unat ?b - 0xf0) * 64 + low6 ?b2) * 64 + low6 ?b3) * 64 + low6 c"
  note v = word_less_nat_alt word_le_nat_alt
  have b: "0xf0 \<le> unat ?b" "unat ?b < 0xf5" using p(2,3) by (simp_all add: v)
  show ?thesis
  proof (cases "continuation c")
    case True
    then have u: "utf8_step (ucast c) d = Some (Return (Some (of_nat ?v)) (d\<lparr>CodeUnit4 := c, State := 0\<rparr>))"
      using p(1,4,5) b sequence_value_4 [of ?b ?b2 ?b3 c]
      by (simp add: utf8_step_def Let_def continuation_bits continuation_bound second_byte_bound)
    moreover have "parse_utf8 (?b # ?b2 # ?b3 # c # q) = Decoded (of_nat ?v) 4"
      using True b p(4,5) by (simp add: parse_utf8_def Let_def v)
    ultimately show ?thesis using q by (intro step_ok_return [where n = 4, OF u]) simp_all
  next
    case False
    then have u: "utf8_step (ucast c) d = PhpDecodeUtf8Error (d\<lparr>CodeUnit4 := c\<rparr>) 4"
      using p(1) by (simp add: utf8_step_def Let_def continuation_bits)
    moreover have "parse_utf8 (?b # ?b2 # ?b3 # c # q) = Decoded (ucast ?b + 0xdc00) 1"
      using False b p(4,5) by (simp add: parse_utf8_def Let_def v)
    ultimately show ?thesis using q by (intro step_ok_error [OF u utf8_error_4]) simp_all
  qed
qed

lemma utf8_step_ok:
  assumes "queue d q" "pending d p" "length p + length q \<le> 4" "length q \<le> 3"
  shows "step_ok d p c q"
  using assms step_ok_0 step_ok_1 step_ok_2 step_ok_3 step_ok_4 step_ok_5 step_ok_6
  unfolding pending_def by (elim disjE conjE) simp_all

lemma decode_pending:
  assumes "queue d q" "pending d p" "length p + length q \<le> 5"
  shows "case parse_utf8 (p @ q) of
           Incomplete \<Rightarrow> \<exists>d'. PhDecodeUnicodeDecoder d = Some (None, d') \<and> queue d' [] \<and> pending d' (p @ q)
         | Decoded cp n \<Rightarrow> \<exists>d'. PhDecodeUnicodeDecoder d = Some (Some cp, d') \<and> queue d' (drop n (p @ q)) \<and> pending d' []"
  using assms
proof (induction q arbitrary: d p)
  case Nil
  then have "PhDecodeUnicodeDecoder d = Some (None, d)"
    by (subst PhDecodeUnicodeDecoder.simps) (simp add: queue_def PhpReadUnicodeDecoder_def)
  with Nil pending_incomplete show ?case by simp
next
  case (Cons c q)
  obtain i where r: "PhpReadUnicodeDecoder d = Some (Some (ucast c), d\<lparr>Utf8_Input := i, InputCount := of_nat (length q)\<rparr>)"
    "queue (d\<lparr>Utf8_Input := i, InputCount := of_nat (length q)\<rparr>) q" (is "queue ?d q")
    using Cons.prems(1) by (rule read_queue)
  have E: "Encoding d = PH_UNICODE_UTF8" using Cons.prems(1) by (simp add: queue_def)
  have "step_ok ?d p c q"
    using r(2) Cons.prems by (intro utf8_step_ok) (simp_all add: queue_def)
  then show ?case
    unfolding step_ok_def
  proof (elim disjE exE conjE)
    fix d' assume s: "utf8_step (ucast c) ?d = Some (Continue d')" and d': "queue d' q" "pending d' (p @ [c])"
    have "PhDecodeUnicodeDecoder d = PhDecodeUnicodeDecoder d'"
      by (subst PhDecodeUnicodeDecoder.simps) (simp add: E r(1) s)
    with Cons.IH [OF d'] Cons.prems(3) show ?thesis by (cases "parse_utf8 (p @ c # q)") simp_all
  next
    fix cp n d' assume s: "utf8_step (ucast c) ?d = Some (Return (Some cp) d')"
      "parse_utf8 (p @ c # q) = Decoded cp n" and d': "queue d' (drop n (p @ c # q))" "pending d' []"
    have "PhDecodeUnicodeDecoder d = Some (Some cp, d')"
      by (subst PhDecodeUnicodeDecoder.simps) (simp add: E r(1) s)
    with s(2) d' show ?thesis by simp
  qed
qed

text \<open>
  With at most 5 bytes under way the bytes that a malformed sequence gives back fit in the queue: the first byte is
  delivered.
\<close>

definition utf8_rep :: "PH_UNICODE_DECODER \<Rightarrow> uchar list \<Rightarrow> uchar list \<Rightarrow> bool" where
  "utf8_rep d p q \<longleftrightarrow> queue d q \<and> pending d p \<and> length p + length q \<le> 5"

lemma write_queue:
  assumes "queue d q" "length q < 4"
  shows "\<exists>i. PhWriteUnicodeDecoder d (ucast b) = Some (True, d\<lparr>Utf8_Input := i, InputCount := of_nat (length (q @ [b]))\<rparr>)
           \<and> queue (d\<lparr>Utf8_Input := i, InputCount := of_nat (length (q @ [b]))\<rparr>) (q @ [b])"
proof -
  let ?i = "(Utf8_Input d)[length q := b]"
  have d: "Encoding d = 0" "length (Utf8_Input d) = 4" "InputCount d = of_nat (length q)" "take (length q) (Utf8_Input d) = q"
    using assms(1) by (simp_all add: queue_def)
  have n: "unat (of_nat (length q) :: uchar) = length q" using assms(2) by (simp add: small_count)
  then have "\<not> InputCount d \<ge> 4" using assms(2) by (simp add: d(3) word_le_nat_alt)
  then have "PhWriteUnicodeDecoder d (ucast b) = Some (True, d\<lparr>Utf8_Input := ?i, InputCount := of_nat (length (q @ [b]))\<rparr>)"
    by (simp add: PhWriteUnicodeDecoder_def d(1,3) n add.commute)
  moreover have "take (length (q @ [b])) ?i = q @ [b]"
    using assms(2) d(2,4) by (simp add: take_Suc_conv_app_nth)
  ultimately show ?thesis using assms d(1,2) by (intro exI [of _ ?i]) (simp add: queue_def)
qed

lemma write_full_queue: "queue d q \<Longrightarrow> 4 \<le> length q \<Longrightarrow> PhWriteUnicodeDecoder d u = Some (False, d)"
  by (simp add: queue_def PhWriteUnicodeDecoder_def)

lemma parse_utf8_append: "parse_utf8 us = Decoded cp n \<Longrightarrow> parse_utf8 (us @ vs) = Decoded cp n"
  by (cases us; cases "tl us"; cases "tl (tl us)"; cases "tl (tl (tl us))")
    (simp_all add: parse_utf8_def Let_def split: if_split_asm, blast+)

interpretation utf8: unit_decoder parse_utf8 ucast utf8_rep 4 5
proof
  fix us vs cp n assume "parse_utf8 us = Decoded cp n"
  then show "0 < n \<and> n \<le> length us" "parse_utf8 (us @ vs) = Decoded cp n"
    by (fact parse_utf8_positive, fact parse_utf8_append)
next
  fix d p assume "utf8_rep d p []"
  then show "parse_utf8 p = Incomplete" by (auto simp: utf8_rep_def intro: pending_incomplete)
next
  fix d p assume "utf8_rep d p []"
  then show "length p < 5" using pending_length [of d p] by (simp add: utf8_rep_def)
next
  fix d p q u assume "utf8_rep d p q" "length q < 4" "length p + length q < 5"
  then show "\<exists>d'. PhWriteUnicodeDecoder d (ucast u) = Some (True, d') \<and> utf8_rep d' p (q @ [u])"
    using write_queue [of d q u] by (auto simp: utf8_rep_def)
next
  fix d p q and u :: uchar assume "utf8_rep d p q" "4 \<le> length q"
  then show "PhWriteUnicodeDecoder d (ucast u) = Some (False, d)"
    using write_full_queue [of d q "ucast u"] by (simp add: utf8_rep_def)
next
  fix d p q assume rep: "utf8_rep d p q" and "parse_utf8 (p @ q) = Incomplete"
  then obtain d' where "PhDecodeUnicodeDecoder d = Some (None, d')" "queue d' []" "pending d' (p @ q)"
    using decode_pending [of d q p] by (auto simp: utf8_rep_def)
  then show "\<exists>d'. PhDecodeUnicodeDecoder d = Some (None, d') \<and> utf8_rep d' (p @ q) []"
    using rep by (auto simp: utf8_rep_def)
next
  fix d p q cp n assume rep: "utf8_rep d p q" and "parse_utf8 (p @ q) = Decoded cp n"
  then obtain d' where "PhDecodeUnicodeDecoder d = Some (Some cp, d')" "queue d' (drop n (p @ q))" "pending d' []"
    using decode_pending [of d q p] by (auto simp: utf8_rep_def)
  then show "\<exists>d'. PhDecodeUnicodeDecoder d = Some (Some cp, d') \<and> utf8_rep d' [] (drop n (p @ q))"
    by (auto simp: utf8_rep_def queue_def)
qed simp

section \<open>UTF-16 and UTF-32\<close>

definition is_high :: "ushort \<Rightarrow> bool" where
  "is_high u \<longleftrightarrow> 0xd800 \<le> u \<and> u \<le> 0xdbff"

definition is_low :: "ushort \<Rightarrow> bool" where
  "is_low u \<longleftrightarrow> 0xdc00 \<le> u \<and> u \<le> 0xdfff"

text \<open>A surrogate without its partner stands for itself.\<close>

definition parse_utf16 :: "ushort list \<Rightarrow> parse" where
  "parse_utf16 us =
     (case us of
        [] \<Rightarrow> Incomplete
      | u # us \<Rightarrow>
          if is_high u then
            (case us of
               [] \<Rightarrow> Incomplete
             | v # us \<Rightarrow>
                 if is_low v
                 then Decoded (of_nat (0x10000 + (unat u - 0xd800) * 0x400 + (unat v - 0xdc00))) 2
                 else Decoded (of_nat (unat u)) 1)
          else Decoded (of_nat (unat u)) 1)"

definition utf16_rep :: "PH_UNICODE_DECODER \<Rightarrow> ushort list \<Rightarrow> ushort list \<Rightarrow> bool" where
  "utf16_rep d p q \<longleftrightarrow> Encoding d = PH_UNICODE_UTF16 \<and> length (Utf16_Input d) = 2
     \<and> InputCount d = of_nat (length q) \<and> take (length q) (Utf16_Input d) = q \<and> length q \<le> 2
     \<and> (State d = 0 \<and> p = [] \<or> State d = 1 \<and> p = [Utf16_CodeUnit d] \<and> is_high (Utf16_CodeUnit d))"

lemma surrogate_bits [simp]:
  "PH_UNICODE_UTF16_IS_HIGH_SURROGATE (ucast u) = is_high u"
  "PH_UNICODE_UTF16_IS_LOW_SURROGATE (ucast u) = is_low u"
  by (simp_all add: PH_UNICODE_UTF16_IS_HIGH_SURROGATE_def PH_UNICODE_UTF16_IS_LOW_SURROGATE_def is_high_def
      is_low_def word_le_nat_alt)

lemma surrogate_value:
  assumes "is_high u" "is_low v"
  shows "PH_UNICODE_UTF16_TO_CODE_POINT u (ucast v)
         = of_nat (0x10000 + (unat u - 0xd800) * 0x400 + (unat v - 0xdc00))"
proof -
  have "0xd800 \<le> unat u" "0xdc00 \<le> unat v"
    using assms by (simp_all add: is_high_def is_low_def word_le_nat_alt)
  then obtain m n where m: "unat u = 0xd800 + m" "unat v = 0xdc00 + n"
    by (auto simp: le_iff_add)
  then have "(ucast u :: ulong) = of_nat 0xd800 + of_nat m" "(ucast v :: ulong) = of_nat 0xdc00 + of_nat n"
    by (metis of_nat_add of_nat_unat)+
  with m show ?thesis
    by (simp add: PH_UNICODE_UTF16_TO_CODE_POINT_def push_bit_eq_mult)
qed

lemma utf16_begun:
  assumes "utf16_rep d [h] []"
  shows "PhDecodeUnicodeDecoder d = Some (None, d)"
  using assms by (subst PhDecodeUnicodeDecoder.simps) (simp add: utf16_rep_def PhpReadUnicodeDecoder_def)

lemma utf16_read:
  assumes "utf16_rep d p (u # q)"
  obtains b where "PhpReadUnicodeDecoder d =
      Some (Some (ucast u), d\<lparr>Utf16_Input := [b, b], InputCount := of_nat (length q)\<rparr>)" "take (length q) [b] = q"
proof -
  obtain b where i: "Utf16_Input d = [u, b]" "take (length q) [b] = q"
    and r: "Encoding d = 1" "InputCount d = of_nat (Suc (length q))" "length q \<le> 1"
    using assms by (auto simp: utf16_rep_def list2)
  have "InputCount d \<noteq> 0" "InputCount d - 1 = of_nat (length q)"
    using r(3) by (simp_all add: r(2) word_unat_eq_iff small_count [of "Suc _"] del: of_nat_Suc) simp
  then show thesis using i r(1) that by (simp add: PhpReadUnicodeDecoder_def)
qed

lemma utf16_pair:
  assumes "utf16_rep d [h] (u # q)"
  shows "\<exists>d'. PhDecodeUnicodeDecoder d = Some (Some (case parse_utf16 (h # u # q) of Decoded cp n \<Rightarrow> cp), d')
     \<and> utf16_rep d' [] (if is_low u then q else u # q)"
proof -
  have r: "Encoding d = 1" "State d = 1" "h = Utf16_CodeUnit d" "is_high h" "length q \<le> 1"
    using assms by (auto simp: utf16_rep_def)
  obtain b where b: "PhpReadUnicodeDecoder d =
      Some (Some (ucast u), d\<lparr>Utf16_Input := [b, b], InputCount := of_nat (length q)\<rparr>)" (is "_ = Some (_, ?d)")
      "take (length q) [b] = q"
    using utf16_read [OF assms] by blast
  have t: "take (length q) [b, b] = q" "take (length (u # q)) [u, b] = u # q"
    using b(2) r(5) by (cases q; simp)+
  show ?thesis
  proof (cases "is_low u")
    case True
    then have "PhDecodeUnicodeDecoder d = Some (Some (PH_UNICODE_UTF16_TO_CODE_POINT h (ucast u)), ?d\<lparr>State := 0\<rparr>)"
      using r by (subst PhDecodeUnicodeDecoder.simps) (simp add: b(1) utf16_step_def)
    moreover have "utf16_rep (?d\<lparr>State := 0\<rparr>) [] q" using r t by (simp add: utf16_rep_def)
    ultimately show ?thesis
      using True r(4) surrogate_value [of h u] by (auto simp: parse_utf16_def)
  next
    case False
    let ?d' = "d\<lparr>Utf16_Input := [u, b], InputCount := of_nat (length (u # q)), State := 0\<rparr>"
    have "\<not> 2 \<le> InputCount ?d"
      using r(5) by (simp add: word_le_nat_alt small_count)
    then have "PhDecodeUnicodeDecoder d = Some (Some (ucast h), ?d')"
      using r False by (subst PhDecodeUnicodeDecoder.simps) (simp add: b(1) utf16_step_def PhpUnreadUnicodeDecoder_def)
    moreover have "utf16_rep ?d' [] (u # q)" using r t by (simp add: utf16_rep_def)
    ultimately show ?thesis
      using False r(4) by (auto simp: parse_utf16_def)
  qed
qed

lemma utf16_first:
  assumes "utf16_rep d [] (u # q)"
  shows "if is_high u then \<exists>d'. PhDecodeUnicodeDecoder d = PhDecodeUnicodeDecoder d' \<and> utf16_rep d' [u] q
         else \<exists>d'. PhDecodeUnicodeDecoder d = Some (Some (ucast u), d') \<and> utf16_rep d' [] q"
proof -
  have r: "Encoding d = 1" "State d = 0" "length q \<le> 1"
    using assms by (auto simp: utf16_rep_def)
  obtain b where read: "PhpReadUnicodeDecoder d =
      Some (Some (ucast u), d\<lparr>Utf16_Input := [b, b], InputCount := of_nat (length q)\<rparr>)" (is "_ = Some (_, ?d)")
      "take (length q) [b] = q"
    using utf16_read [OF assms] by blast
  have t: "take (length q) [b, b] = q"
    using read(2) r(3) by (cases q) auto
  show ?thesis
  proof (cases "is_high u")
    case True
    then have "PhDecodeUnicodeDecoder d = PhDecodeUnicodeDecoder (?d\<lparr>Utf16_CodeUnit := u, State := 1\<rparr>)"
      using r(1,2) by (subst PhDecodeUnicodeDecoder.simps) (simp add: read(1) utf16_step_def)
    moreover have "utf16_rep (?d\<lparr>Utf16_CodeUnit := u, State := 1\<rparr>) [u] q"
      using r t True by (simp add: utf16_rep_def)
    ultimately show ?thesis using True by auto
  next
    case False
    then have "PhDecodeUnicodeDecoder d = Some (Some (ucast u), ?d)"
      using r(1,2) by (subst PhDecodeUnicodeDecoder.simps) (simp add: read(1) utf16_step_def)
    moreover have "utf16_rep ?d [] q" using r t by (simp add: utf16_rep_def)
    ultimately show ?thesis using False by auto
  qed
qed

lemma utf16_rep_cases:
  assumes "utf16_rep d p q"
  obtains "p = []" "q = []" | h where "p = [h]" "q = []" "is_high h" | h u q' where "p = [h]" "q = u # q'" "is_high h"
    | u q' where "p = []" "q = u # q'" "length q' \<le> 1"
  using assms by (cases q; cases "tl q") (auto simp: utf16_rep_def)

lemma utf16_empty: "utf16_rep d [] [] \<Longrightarrow> PhDecodeUnicodeDecoder d = Some (None, d)"
  by (subst PhDecodeUnicodeDecoder.simps) (simp add: utf16_rep_def PhpReadUnicodeDecoder_def)

lemma utf16_decode:
  assumes "utf16_rep d p q"
  shows "case parse_utf16 (p @ q) of
           Incomplete \<Rightarrow> \<exists>d'. PhDecodeUnicodeDecoder d = Some (None, d') \<and> utf16_rep d' (p @ q) []
         | Decoded cp n \<Rightarrow> \<exists>d'. PhDecodeUnicodeDecoder d = Some (Some cp, d') \<and> utf16_rep d' [] (drop n (p @ q))"
  using assms
proof (cases rule: utf16_rep_cases)
  case 1
  with assms utf16_empty show ?thesis by (auto simp: parse_utf16_def)
next
  case (2 h)
  with assms utf16_begun show ?thesis by (auto simp: parse_utf16_def)
next
  case (3 h u q')
  with assms utf16_pair [of d h u q'] show ?thesis by (auto simp: parse_utf16_def split: if_splits)
next
  case (4 u q')
  show ?thesis
  proof (cases "is_high u")
    case False
    with assms 4 utf16_first [of d u q'] show ?thesis by (auto simp: parse_utf16_def)
  next
    case True
    with assms 4 utf16_first [of d u q'] obtain d' where
      d': "PhDecodeUnicodeDecoder d = PhDecodeUnicodeDecoder d'" "utf16_rep d' [u] q'"
      by auto
    show ?thesis
    proof (cases q')
      case Nil
      with True d' 4 utf16_begun [of d' u] show ?thesis by (auto simp: parse_utf16_def)
    next
      case (Cons v r)
      with 4 have "q' = [v]" by simp
      with True d' 4 utf16_pair [of d' u v "[]"] show ?thesis by (auto simp: parse_utf16_def split: if_splits)
    qed
  qed
qed

lemma utf16_write:
  assumes "utf16_rep d p q"
  shows "if length q < 2 then \<exists>d'. PhWriteUnicodeDecoder d (ucast u) = Some (True, d') \<and> utf16_rep d' p (q @ [u])
         else PhWriteUnicodeDecoder d (ucast u) = Some (False, d)"
proof -
  have d: "Encoding d = 1" "length (Utf16_Input d) = 2" "InputCount d = of_nat (length q)"
      "take (length q) (Utf16_Input d) = q" "length q \<le> 2"
    using assms by (simp_all add: utf16_rep_def)
  have n: "unat (of_nat (length q) :: uchar) = length q" using d(5) by (simp add: small_count)
  show ?thesis
  proof (cases "length q < 2")
    case True
    let ?i = "(Utf16_Input d)[length q := u]"
    have "\<not> InputCount d \<ge> 2" using True n by (simp add: d(3) word_le_nat_alt)
    then have "PhWriteUnicodeDecoder d (ucast u) = Some (True, d\<lparr>Utf16_Input := ?i, InputCount := of_nat (length (q @ [u]))\<rparr>)"
      by (simp add: PhWriteUnicodeDecoder_def d(1,3) n add.commute)
    moreover have "take (length (q @ [u])) ?i = q @ [u]"
      using True d(2,4) by (simp add: take_Suc_conv_app_nth)
    ultimately show ?thesis using True assms by (auto simp: utf16_rep_def)
  next
    case False
    then have "InputCount d \<ge> 2" using n by (simp add: d(3) word_le_nat_alt)
    then show ?thesis using False by (simp add: PhWriteUnicodeDecoder_def d(1))
  qed
qed

interpretation utf16: unit_decoder parse_utf16 ucast utf16_rep 2 3
proof
  fix us vs cp n assume "parse_utf16 us = Decoded cp n"
  then show "0 < n \<and> n \<le> length us" "parse_utf16 (us @ vs) = Decoded cp n"
    by (auto simp: parse_utf16_def split: list.splits if_splits)
next
  fix d p assume "utf16_rep d p []"
  then show "parse_utf16 p = Incomplete" "length p < 3" by (auto simp: utf16_rep_def parse_utf16_def)
next
  fix d p q u assume "utf16_rep d p q" "length q < 2" "length p + length q < 3"
  then show "\<exists>d'. PhWriteUnicodeDecoder d (ucast u) = Some (True, d') \<and> utf16_rep d' p (q @ [u])"
    using utf16_write [of d p q u] by simp
next
  fix d p q and u :: ushort assume "utf16_rep d p q" "2 \<le> length q"
  then show "PhWriteUnicodeDecoder d (ucast u) = Some (False, d)"
    using utf16_write [of d p q u] by simp
next
  fix d p q assume "utf16_rep d p q" "parse_utf16 (p @ q) = Incomplete"
  then show "\<exists>d'. PhDecodeUnicodeDecoder d = Some (None, d') \<and> utf16_rep d' (p @ q) []"
    using utf16_decode [of d p q] by simp
next
  fix d p q cp n assume "utf16_rep d p q" "parse_utf16 (p @ q) = Decoded cp n"
  then show "\<exists>d'. PhDecodeUnicodeDecoder d = Some (Some cp, d') \<and> utf16_rep d' [] (drop n (p @ q))"
    using utf16_decode [of d p q] by simp
qed simp

definition parse_utf32 :: "ulong list \<Rightarrow> parse" where
  "parse_utf32 us = (case us of [] \<Rightarrow> Incomplete | u # us \<Rightarrow> Decoded u 1)"

definition utf32_rep :: "PH_UNICODE_DECODER \<Rightarrow> ulong list \<Rightarrow> ulong list \<Rightarrow> bool" where
  "utf32_rep d p q \<longleftrightarrow> Encoding d = PH_UNICODE_UTF32 \<and> p = []
     \<and> (q = [] \<and> InputCount d = 0 \<or> q = [Utf32_Input d] \<and> InputCount d = 1)"

interpretation utf32: unit_decoder parse_utf32 "\<lambda>u. u" utf32_rep 1 1
  by unfold_locales
    (auto simp: utf32_rep_def parse_utf32_def PhWriteUnicodeDecoder_def PhDecodeUnicodeDecoder.simps
      PhpReadUnicodeDecoder_def split: list.splits)

text \<open>In the last two encodings any number of units that fits in the queue can be under way.\<close>

lemma no_limit:
  "utf16_rep d p q \<and> length q < 2 \<Longrightarrow> length p + length q < 3"
  "utf32_rep d r t \<and> length t < 1 \<Longrightarrow> length r + length t < 1"
  by (auto simp: utf16_rep_def utf32_rep_def)

lemma initial_decoders:
  "utf8_rep (PhInitializeUnicodeDecoder PH_UNICODE_UTF8) [] []"
  "utf16_rep (PhInitializeUnicodeDecoder PH_UNICODE_UTF16) [] []"
  "utf32_rep (PhInitializeUnicodeDecoder PH_UNICODE_UTF32) [] []"
  by (simp_all add: PhInitializeUnicodeDecoder_def utf8_rep_def queue_def pending_def utf16_rep_def utf32_rep_def)

section \<open>What the decoder computes\<close>

abbreviation "decode_utf8 \<equiv> decode_units parse_utf8"
abbreviation "decode_utf16 \<equiv> decode_units parse_utf16"

definition decoded_points :: "uchar \<Rightarrow> ulong list \<Rightarrow> ulong list option" where
  "decoded_points encoding us =
     map_option snd (convert_loop (\<lambda>cp cps. Some (cps @ [cp])) us (PhInitializeUnicodeDecoder encoding) [])"

lemma each_collect: "each (\<lambda>cp cps. Some (cps @ [cp])) xs ys = Some (ys @ xs)"
  by (induction xs arbitrary: ys) simp_all

lemma decode_utf32: "decode_units parse_utf32 us = (us, [])"
proof (induction us)
  case Nil
  show ?case by (intro utf32.decode_units_incomplete) (simp add: parse_utf32_def)
next
  case (Cons u us)
  have "parse_utf32 (u # us) = Decoded u 1" by (simp add: parse_utf32_def)
  with Cons show ?case by (simp add: utf32.decode_units_point)
qed

lemma decoded_points_correct:
  "decoded_points PH_UNICODE_UTF8 (map ucast bs) = Some (fst (decode_utf8 bs))"
  "decoded_points PH_UNICODE_UTF16 (map ucast us) = Some (fst (decode_utf16 us))"
  "decoded_points PH_UNICODE_UTF32 ws = Some ws"
  using utf8.convert_loop_units [OF initial_decoders(1), of "\<lambda>cp cps. Some (cps @ [cp])" bs "[]"]
    utf16.convert_loop_units [OF initial_decoders(2), of "\<lambda>cp cps. Some (cps @ [cp])" us "[]"]
    utf32.convert_loop_units [OF initial_decoders(3), of "\<lambda>cp cps. Some (cps @ [cp])" ws "[]"]
  by (auto simp: decoded_points_def each_collect decode_utf32)

text \<open>
  What is left when the loop of a conversion ends: the code units of an incomplete sequence, which stay in the
  decoder.
\<close>

definition left_over :: "uchar \<Rightarrow> ulong list \<Rightarrow> PH_UNICODE_DECODER option" where
  "left_over encoding us =
     map_option fst (convert_loop (\<lambda>cp cps. Some (cps @ [cp])) us (PhInitializeUnicodeDecoder encoding) [])"

lemma left_over_utf8: "\<exists>d. left_over PH_UNICODE_UTF8 (map ucast bs) = Some d \<and> utf8_rep d (snd (decode_utf8 bs)) []"
  using utf8.convert_loop_units [OF initial_decoders(1), of "\<lambda>cp cps. Some (cps @ [cp])" bs "[]"]
  by (auto simp: left_over_def each_collect)

lemma left_over_utf16: "\<exists>d. left_over PH_UNICODE_UTF16 (map ucast us) = Some d \<and> utf16_rep d (snd (decode_utf16 us)) []"
  using utf16.convert_loop_units [OF initial_decoders(2), of "\<lambda>cp cps. Some (cps @ [cp])" us "[]"]
  by (auto simp: left_over_def each_collect)

text \<open>Six bytes under way: the second of two bytes that go back does not fit in the queue.\<close>

definition six_under_way :: "ulong decoder_op list" where
  "six_under_way = [WriteUnit 0xf0, WriteUnit 0x90, DecodePoint, WriteUnit 0x41, WriteUnit 0x42, WriteUnit 0x43,
     WriteUnit 0x44, DecodePoint]"

lemma six_under_way_raises: "run_decoder six_under_way (PhInitializeUnicodeDecoder PH_UNICODE_UTF8) = None"
  by (simp add: six_under_way_def PhInitializeUnicodeDecoder_def PhWriteUnicodeDecoder_def PhDecodeUnicodeDecoder.simps
      PhpReadUnicodeDecoder_def PhpUnreadUnicodeDecoder_def utf8_step_def PhpDecodeUtf8Error_def Let_def word_le_nat_alt)

text \<open>
  C2. For every sequence of writes and decodes on a new decoder, a write returns whether the queue had room, and a decode
  returns what the reference parser takes from the code units that are under way, which are the ones that were
  written and are not part of a code point delivered yet; nothing else is dropped. In UTF-8 this needs that no byte is
  written while 5 are under way: with six, a malformed sequence can make the decoder raise an exception. In UTF-16 and
  UTF-32 there is no such condition. So the loop of the conversions, which decodes all it can after each unit,
  delivers the code points of the reference decoder for every input; the units of an incomplete sequence at
  the end stay in the decoder and are not delivered.
\<close>

theorem PhDecodeUnicodeDecoder_correct:
  "(decoder_legal parse_utf8 4 5 ops8 [] [] \<longrightarrow>
     (\<exists>d. run_decoder (map (map_decoder_op ucast) ops8) (PhInitializeUnicodeDecoder PH_UNICODE_UTF8) =
       Some (decoder_spec parse_utf8 4 ops8 [] [], d)))
   \<and> run_decoder six_under_way (PhInitializeUnicodeDecoder PH_UNICODE_UTF8) = None
   \<and> (\<exists>d. run_decoder (map (map_decoder_op ucast) ops16) (PhInitializeUnicodeDecoder PH_UNICODE_UTF16) =
       Some (decoder_spec parse_utf16 2 ops16 [] [], d))
   \<and> (\<exists>d. run_decoder ops32 (PhInitializeUnicodeDecoder PH_UNICODE_UTF32) =
       Some (decoder_spec parse_utf32 1 ops32 [] [], d))
   \<and> decoded_points PH_UNICODE_UTF8 (map ucast bs) = Some (fst (decode_utf8 bs))
   \<and> decoded_points PH_UNICODE_UTF16 (map ucast us) = Some (fst (decode_utf16 us))
   \<and> decoded_points PH_UNICODE_UTF32 ws = Some ws
   \<and> (\<exists>d. left_over PH_UNICODE_UTF8 (map ucast bs) = Some d \<and> utf8_rep d (snd (decode_utf8 bs)) [])
   \<and> (\<exists>d. left_over PH_UNICODE_UTF16 (map ucast us) = Some d \<and> utf16_rep d (snd (decode_utf16 us)) [])"
proof -
  have "\<exists>d. run_decoder (map (map_decoder_op ucast) ops16) (PhInitializeUnicodeDecoder PH_UNICODE_UTF16) =
      Some (decoder_spec parse_utf16 2 ops16 [] [], d)"
    using no_limit(1) by (intro utf16.run_decoder_units [OF initial_decoders(2)]) blast
  moreover have "\<exists>d. run_decoder (map (map_decoder_op (\<lambda>u. u)) ops32) (PhInitializeUnicodeDecoder PH_UNICODE_UTF32) =
      Some (decoder_spec parse_utf32 1 ops32 [] [], d)"
    using no_limit(2) by (intro utf32.run_decoder_units [OF initial_decoders(3)]) blast
  moreover have "map (map_decoder_op (\<lambda>u. u)) ops32 = ops32" by (simp add: decoder_op.map_ident map_idI)
  ultimately show ?thesis
    using utf8.run_decoder_units [OF initial_decoders(1), of ops8] six_under_way_raises left_over_utf8 left_over_utf16
    by (simp add: decoded_points_correct)
qed

text \<open>A euro sign in three bytes, written with a letter in two portions.\<close>

theorem PhDecodeUnicodeDecoder_correct_witness:
  "\<exists>d. run_decoder [WriteUnit 0xe2, WriteUnit 0x82, DecodePoint, WriteUnit 0xac, WriteUnit 0x41, DecodePoint, DecodePoint,
         DecodePoint] (PhInitializeUnicodeDecoder PH_UNICODE_UTF8) =
     Some ([Written True, Written True, Delivered None, Written True, Written True, Delivered (Some 0x20ac),
       Delivered (Some 0x41), Delivered None], d)"
  using PhDecodeUnicodeDecoder_correct [of "[WriteUnit 0xe2, WriteUnit 0x82, DecodePoint, WriteUnit 0xac, WriteUnit 0x41,
      DecodePoint, DecodePoint, DecodePoint]" "[]" "[]" "[]" "[]" "[]"]
  by (simp add: parse_utf8_def Let_def second_byte_def continuation_def low6_def)

section \<open>Encoding and decoding\<close>

lemma unat_marked_byte: "unat x + unat k < 256 \<Longrightarrow> unat (ucast (x :: ulong) + k :: uchar) = unat x + unat k"
  by (simp add: unat_word_ariths unsigned_ucast_eq take_bit_nat_eq_self)

lemma unat_low_bits: "unat ((x :: ulong) AND 0x3f) = unat x mod 64"
  using unat_and_mask [of x 6] by (simp add: mask_eq_exp_minus_1)

lemma unat_high_bits: "unat (drop_bit k (x :: ulong)) = unat x div 2 ^ k"
  unfolding unat_drop_bit_eq by (simp add: drop_bit_eq_div)

lemma mod_of_quotient: "(m :: nat) div 64 = k \<Longrightarrow> m mod 64 = m - 64 * k"
  by (simp add: minus_mult_div_eq_mod [symmetric])

lemma ulong_of_unat: "unat (x :: ulong) = n \<Longrightarrow> of_nat n = x"
  by auto

lemma encode_utf8_2:
  assumes "0x80 \<le> unat cp" "unat cp \<le> 0x7ff"
  shows "parse_utf8 ((ucast (drop_bit 6 cp) + 0xc0) # (ucast (cp AND 0x3f) + 0x80) # bs) = Decoded cp 2"
proof -
  let ?b1 = "ucast (drop_bit 6 cp) + 0xc0 :: uchar" and ?b2 = "ucast (cp AND 0x3f) + 0x80 :: uchar"
  let ?n = "unat cp"
  have d: "2 \<le> ?n div 64" "?n div 64 < 32" "?n mod 64 < 64" using assms by auto
  have b: "unat ?b1 = ?n div 64 + 0xc0" "unat ?b2 = ?n mod 64 + 0x80"
    using d by (simp_all add: unat_marked_byte unat_low_bits unat_high_bits)
  then have "of_nat ((unat ?b1 - 0xc0) * 64 + low6 ?b2) = cp"
    by (intro ulong_of_unat) (simp add: low6_def)
  then show ?thesis
    using b d by (simp add: parse_utf8_def Let_def second_byte_def continuation_def word_less_nat_alt word_le_nat_alt
        word_unat_eq_iff)
qed

lemma encode_utf8_3:
  assumes "0x800 \<le> unat cp" "unat cp \<le> 0xffff"
  shows "parse_utf8 ((ucast (drop_bit 12 cp) + 0xe0) # (ucast (drop_bit 6 cp AND 0x3f) + 0x80)
           # (ucast (cp AND 0x3f) + 0x80) # bs) = Decoded cp 3"
proof -
  let ?b1 = "ucast (drop_bit 12 cp) + 0xe0 :: uchar" and ?b2 = "ucast (drop_bit 6 cp AND 0x3f) + 0x80 :: uchar"
    and ?b3 = "ucast (cp AND 0x3f) + 0x80 :: uchar"
  let ?n = "unat cp"
  have d: "?n div 4096 < 16" "?n div 64 mod 64 < 64" "?n mod 64 < 64"
    and e: "?n div 4096 = 0 \<Longrightarrow> 32 \<le> ?n div 64 mod 64"
    using assms by (auto simp: div_eq_0_iff less_mult_imp_div_less)
  have b: "unat ?b1 = ?n div 4096 + 0xe0" "unat ?b2 = ?n div 64 mod 64 + 0x80" "unat ?b3 = ?n mod 64 + 0x80"
    using d by (simp_all add: unat_marked_byte unat_low_bits unat_high_bits)
  have "?n div 4096 * 64 + ?n div 64 mod 64 = ?n div 64"
    by (simp add: div_mult2_eq [of ?n 64 64, simplified])
  then have "of_nat (((unat ?b1 - 0xe0) * 64 + low6 ?b2) * 64 + low6 ?b3) = cp"
    using b by (intro ulong_of_unat) (simp add: low6_def)
  then show ?thesis
    using b d e by (simp add: parse_utf8_def Let_def second_byte_def continuation_def word_less_nat_alt word_le_nat_alt
        word_unat_eq_iff)
qed

lemma encode_utf8_4:
  assumes "0x10000 \<le> unat cp" "unat cp \<le> 0x10ffff"
  shows "parse_utf8 ((ucast (drop_bit 18 cp) + 0xf0) # (ucast (drop_bit 12 cp AND 0x3f) + 0x80)
           # (ucast (drop_bit 6 cp AND 0x3f) + 0x80) # (ucast (cp AND 0x3f) + 0x80) # bs) = Decoded cp 4"
proof -
  let ?b1 = "ucast (drop_bit 18 cp) + 0xf0 :: uchar" and ?b2 = "ucast (drop_bit 12 cp AND 0x3f) + 0x80 :: uchar"
    and ?b3 = "ucast (drop_bit 6 cp AND 0x3f) + 0x80 :: uchar" and ?b4 = "ucast (cp AND 0x3f) + 0x80 :: uchar"
  let ?n = "unat cp"
  have d: "?n div 262144 < 5" "?n div 4096 mod 64 < 64" "?n div 64 mod 64 < 64" "?n mod 64 < 64"
    using assms by (auto simp: less_mult_imp_div_less)
  have "?n div 4096 div 64 = ?n div 262144" "16 \<le> ?n div 4096" "?n div 4096 \<le> 271"
    using assms by (simp_all flip: div_mult2_eq)
  then have e: "?n div 262144 = 0 \<Longrightarrow> 16 \<le> ?n div 4096 mod 64" "?n div 262144 = 4 \<Longrightarrow> ?n div 4096 mod 64 < 16"
    by (simp_all add: mod_of_quotient)
  have b: "unat ?b1 = ?n div 262144 + 0xf0" "unat ?b2 = ?n div 4096 mod 64 + 0x80"
    "unat ?b3 = ?n div 64 mod 64 + 0x80" "unat ?b4 = ?n mod 64 + 0x80"
    using d by (simp_all add: unat_marked_byte unat_low_bits unat_high_bits)
  have "?n div 262144 * 64 + ?n div 4096 mod 64 = ?n div 4096" "?n div 4096 * 64 + ?n div 64 mod 64 = ?n div 64"
    by (simp_all add: div_mult2_eq [of ?n 4096 64, simplified] div_mult2_eq [of ?n 64 64, simplified])
  then have "of_nat ((((unat ?b1 - 0xf0) * 64 + low6 ?b2) * 64 + low6 ?b3) * 64 + low6 ?b4) = cp"
    using b by (intro ulong_of_unat) (simp add: low6_def)
  then show ?thesis
    using b d e by (simp add: parse_utf8_def Let_def second_byte_def continuation_def word_less_nat_alt word_le_nat_alt
        word_unat_eq_iff)
qed

lemma encode_utf8_Some: "(\<exists>bs. encode_utf8 cp = Some bs) \<longleftrightarrow> cp \<le> PH_UNICODE_MAX_CODE_POINT"
  by (auto simp: encode_utf8_def word_le_nat_alt word_less_nat_alt)

lemma parse_encode_utf8:
  assumes "encode_utf8 cp = Some bs"
  shows "parse_utf8 (bs @ rest) = Decoded cp (length bs)"
proof -
  consider "unat cp < 0x80" "bs = [ucast cp]"
    | "0x80 \<le> unat cp" "unat cp \<le> 0x7ff" "bs = [ucast (drop_bit 6 cp) + 0xc0, ucast (cp AND 0x3f) + 0x80]"
    | "0x800 \<le> unat cp" "unat cp \<le> 0xffff"
      "bs = [ucast (drop_bit 12 cp) + 0xe0, ucast (drop_bit 6 cp AND 0x3f) + 0x80, ucast (cp AND 0x3f) + 0x80]"
    | "0x10000 \<le> unat cp" "unat cp \<le> 0x10ffff"
      "bs = [ucast (drop_bit 18 cp) + 0xf0, ucast (drop_bit 12 cp AND 0x3f) + 0x80,
             ucast (drop_bit 6 cp AND 0x3f) + 0x80, ucast (cp AND 0x3f) + 0x80]"
    using assms by (auto simp: encode_utf8_def word_less_nat_alt word_le_nat_alt split: if_splits)
  then show ?thesis
  proof cases
    case 1
    have "unat (ucast cp :: uchar) = unat cp" using 1(1) unat_marked_byte [of cp 0] by simp
    then have "(ucast cp :: uchar) < 0x80" "of_nat (unat (ucast cp :: uchar)) = cp"
      using 1(1) by (simp_all add: word_less_nat_alt ulong_of_unat del: of_nat_unat)
    with 1(2) show ?thesis by (simp add: parse_utf8_def Let_def)
  next
    case 2
    with encode_utf8_2 show ?thesis by simp
  next
    case 3
    with encode_utf8_3 show ?thesis by simp
  next
    case 4
    with encode_utf8_4 show ?thesis by simp
  qed
qed

lemma encode_utf8_nonempty: "encode_utf8 cp = Some bs \<Longrightarrow> bs \<noteq> []"
  by (auto simp: encode_utf8_def split: if_splits)

text \<open>The code units of a list of code points.\<close>

definition encode_all :: "(ulong \<Rightarrow> 'u list option) \<Rightarrow> ulong list \<Rightarrow> 'u list" where
  "encode_all enc cps = concat (map (\<lambda>cp. the (enc cp)) cps)"

lemma encode_all_simps [simp]:
  "encode_all enc [] = []" "encode_all enc (cp # cps) = the (enc cp) @ encode_all enc cps"
  by (simp_all add: encode_all_def)

lemma decode_encode_utf8:
  assumes "\<forall>cp \<in> set cps. cp \<le> PH_UNICODE_MAX_CODE_POINT"
  shows "decode_utf8 (encode_all encode_utf8 cps) = (cps, [])"
  using assms
proof (induction cps)
  case Nil
  show ?case by (simp add: utf8.decode_units_incomplete)
next
  case (Cons cp cps)
  then obtain bs where "encode_utf8 cp = Some bs" using encode_utf8_Some [of cp] by auto
  with Cons utf8.decode_units_point [OF parse_encode_utf8] show ?case by simp
qed

text \<open>UTF-16: the encoder is a left inverse of the decoder, and of the code points that are no surrogates a right inverse.\<close>

lemma encode_utf16_Some: "(\<exists>us. encode_utf16 cp = Some us) \<longleftrightarrow> cp \<le> PH_UNICODE_MAX_CODE_POINT"
  by (auto simp: encode_utf16_def word_le_nat_alt word_less_nat_alt)

lemma unat_unit_of: "unat (x :: ulong) < 65536 \<Longrightarrow> unat (ucast x :: ushort) = unat x"
  by (simp add: unsigned_ucast_eq take_bit_nat_eq_self)

lemma unat_low10: "unat ((x :: ulong) AND 0x3ff) = unat x mod 1024"
  using unat_and_mask [of x 10] by (simp add: mask_eq_exp_minus_1)

lemma surrogate_units:
  assumes "0x10000 \<le> unat cp" "unat cp \<le> 0x10ffff"
  shows "unat (PH_UNICODE_UTF16_TO_HIGH_SURROGATE cp) = 0xd800 + (unat cp - 0x10000) div 1024"
    "unat (PH_UNICODE_UTF16_TO_LOW_SURROGATE cp) = 0xdc00 + unat cp mod 1024"
proof -
  obtain m where m: "unat cp = 0x10000 + m" using assms(1) by (auto simp: le_iff_add)
  then have "unat cp div 1024 = 64 + m div 1024" "m div 1024 < 1024" using assms(2) by auto
  with m show "unat (PH_UNICODE_UTF16_TO_HIGH_SURROGATE cp) = 0xd800 + (unat cp - 0x10000) div 1024"
    by (simp add: PH_UNICODE_UTF16_TO_HIGH_SURROGATE_def unat_word_ariths unat_unit_of unat_high_bits)
  show "unat (PH_UNICODE_UTF16_TO_LOW_SURROGATE cp) = 0xdc00 + unat cp mod 1024"
    by (simp add: PH_UNICODE_UTF16_TO_LOW_SURROGATE_def unat_word_ariths unat_unit_of unat_low10)
qed

lemma parse_utf16_encode:
  assumes "parse_utf16 us = Decoded cp n"
  shows "encode_utf16 cp = Some (take n us)"
proof -
  have unit: "encode_utf16 (ucast u) = Some [u]" for u :: ushort
    using unat_ushort_less [of u] by (simp add: encode_utf16_def word_less_nat_alt)
  have pair: "encode_utf16 (of_nat (0x10000 + (unat u - 0xd800) * 0x400 + (unat v - 0xdc00))) = Some [u, v]"
    if "is_high u" "is_low v" for u v
  proof -
    let ?n = "0x10000 + (unat u - 0xd800) * 0x400 + (unat v - 0xdc00)"
    have b: "0xd800 \<le> unat u" "unat u \<le> 0xdbff" "0xdc00 \<le> unat v" "unat v \<le> 0xdfff"
      using that by (simp_all add: is_high_def is_low_def word_le_nat_alt)
    then have le: "?n \<le> 0x10ffff" by linarith
    then have u: "unat (of_nat ?n :: ulong) = ?n" by (simp only: unat_of_nat) simp
    obtain h l where hl: "unat u = 0xd800 + h" "unat v = 0xdc00 + l" "l < 1024"
      using b by (auto simp: le_iff_add)
    have "unat (PH_UNICODE_UTF16_TO_HIGH_SURROGATE (of_nat ?n)) = unat u"
      "unat (PH_UNICODE_UTF16_TO_LOW_SURROGATE (of_nat ?n)) = unat v"
      using surrogate_units [of "of_nat ?n"] le hl unfolding u by (simp_all add: mod_add_eq [symmetric])
    then show ?thesis
      using le unfolding encode_utf16_def word_less_nat_alt word_le_nat_alt u
      by (simp add: word_unat_eq_iff)
  qed
  show ?thesis
    using assms unit pair by (auto simp: parse_utf16_def split: list.splits if_splits)
qed

lemma parse_utf16_Nil [simp]: "parse_utf16 [] = Incomplete"
  by (simp add: parse_utf16_def)

lemma encode_decode_utf16: "encode_all encode_utf16 (fst (decode_utf16 us)) @ snd (decode_utf16 us) = us"
proof (induction "length us" arbitrary: us rule: less_induct)
  case less
  show ?case
  proof (cases "parse_utf16 us")
    case Incomplete
    then show ?thesis by (simp add: utf16.decode_units_incomplete)
  next
    case (Decoded cp n)
    then have "length (drop n us) < length us" using utf16.parse_bounds [OF Decoded] by auto
    from less [OF this] show ?thesis
      using parse_utf16_encode [OF Decoded] by (simp add: utf16.decode_units_point [OF Decoded])
  qed
qed

lemma of_nat_max: "v \<le> 0x10ffff \<Longrightarrow> (of_nat v :: ulong) \<le> PH_UNICODE_MAX_CODE_POINT"
  by (simp add: word_le_nat_alt unat_of_nat)

lemma low6_bounds:
  "continuation b \<Longrightarrow> low6 b \<le> 63" "second_byte b1 b \<Longrightarrow> low6 b \<le> 63"
  "second_byte b1 b \<Longrightarrow> unat b1 = 0xf4 \<Longrightarrow> low6 b \<le> 15"
  by (auto simp: second_byte_def continuation_def low6_def word_less_nat_alt word_le_nat_alt word_unat_eq_iff)

lemma three_digits: "a \<le> k \<Longrightarrow> x \<le> 63 \<Longrightarrow> y \<le> 63 \<Longrightarrow> (a * 64 + x) * 64 + y \<le> k * 4096 + (4095 :: nat)"
  by (simp add: add_mult_distrib)

lemma four_digits:
  "a \<le> k \<Longrightarrow> x \<le> l \<Longrightarrow> y \<le> 63 \<Longrightarrow> z \<le> 63
    \<Longrightarrow> ((a * 64 + x) * 64 + y) * 64 + z \<le> k * 262144 + l * 4096 + (4095 :: nat)"
  by (simp add: add_mult_distrib)

lemma four_byte_bound:
  assumes "b1 < 0xf5" "second_byte b1 b2" "continuation b3" "continuation b4"
  shows "(((unat b1 - 0xf0) * 64 + low6 b2) * 64 + low6 b3) * 64 + low6 b4 \<le> 0x10ffff"
proof -
  have b: "low6 b2 \<le> 63" "low6 b3 \<le> 63" "low6 b4 \<le> 63" "unat b1 \<le> 0xf4"
    using assms low6_bounds by (auto simp: word_less_nat_alt)
  show ?thesis
  proof (cases "unat b1 = 0xf4")
    case True
    with low6_bounds(3) [OF assms(2)] b four_digits [of "unat b1 - 0xf0" 4 "low6 b2" 15 "low6 b3" "low6 b4"]
    show ?thesis by simp
  next
    case False
    with b(4) have "unat b1 - 0xf0 \<le> 3" by linarith
    with b four_digits [of "unat b1 - 0xf0" 3 "low6 b2" 63 "low6 b3" "low6 b4"] show ?thesis by simp
  qed
qed

lemma parse_utf8_max:
  assumes "parse_utf8 bs = Decoded cp n"
  shows "cp \<le> PH_UNICODE_MAX_CODE_POINT"
proof -
  have one: "unat b1 \<le> 0x10ffff" "0xdc00 + unat b1 \<le> 0x10ffff" for b1 :: uchar
    using unat_uchar_less [of b1] by linarith+
  have two: "(unat b1 - 0xc0) * 64 + low6 b2 \<le> 0x10ffff" if "second_byte b1 b2" for b1 b2
    using unat_uchar_less [of b1] low6_bounds(2) [OF that] by linarith
  have three: "((unat b1 - 0xe0) * 64 + low6 b2) * 64 + low6 b3 \<le> 0x10ffff"
    if "second_byte b1 b2" "continuation b3" for b1 b2 b3
    using unat_uchar_less [of b1] low6_bounds(2) [OF that(1)] low6_bounds(1) [OF that(2)]
      three_digits [of "unat b1 - 0xe0" 31 "low6 b2" "low6 b3"] by simp
  note bounds = one two three [simplified] four_byte_bound [simplified]
  show ?thesis
    using assms
    by (auto simp: parse_utf8_def Let_def not_le simp del: of_nat_add of_nat_mult of_nat_unat
        split: list.split_asm if_split_asm intro!: of_nat_max bounds)
qed

lemma decoded_max:
  "cp \<in> set (fst (decode_utf8 bs)) \<Longrightarrow> cp \<le> PH_UNICODE_MAX_CODE_POINT"
  "cp \<in> set (fst (decode_utf16 us)) \<Longrightarrow> cp \<le> PH_UNICODE_MAX_CODE_POINT"
proof -
  show "cp \<in> set (fst (decode_utf8 bs)) \<Longrightarrow> cp \<le> PH_UNICODE_MAX_CODE_POINT"
    by (rule utf8.decode_units_all [where P = "\<lambda>cp. cp \<le> PH_UNICODE_MAX_CODE_POINT"]) (rule parse_utf8_max)
  have m: "cp \<le> PH_UNICODE_MAX_CODE_POINT" if "parse_utf16 us = Decoded cp n" for us cp n
    using parse_utf16_encode [OF that] encode_utf16_Some [of cp] by blast
  show "cp \<in> set (fst (decode_utf16 us)) \<Longrightarrow> cp \<le> PH_UNICODE_MAX_CODE_POINT"
    by (rule utf16.decode_units_all [where P = "\<lambda>cp. cp \<le> PH_UNICODE_MAX_CODE_POINT"]) (rule m)
qed

definition surrogate :: "ulong \<Rightarrow> bool" where
  "surrogate cp \<longleftrightarrow> 0xd800 \<le> cp \<and> cp \<le> 0xdfff"

lemma parse_encode_utf16:
  assumes "encode_utf16 cp = Some us" "\<not> surrogate cp"
  shows "parse_utf16 (us @ rest) = Decoded cp (length us)"
proof (cases "unat cp < 0x10000")
  case True
  then have "unat (ucast cp :: ushort) = unat cp" by (simp add: unat_unit_of)
  then have "\<not> is_high (ucast cp)" "of_nat (unat (ucast cp :: ushort)) = cp"
    using assms(2) by (auto simp: is_high_def surrogate_def word_le_nat_alt ulong_of_unat simp del: of_nat_unat)
  then show ?thesis
    using assms(1) True by (auto simp: encode_utf16_def parse_utf16_def word_less_nat_alt)
next
  case False
  let ?h = "PH_UNICODE_UTF16_TO_HIGH_SURROGATE cp" and ?l = "PH_UNICODE_UTF16_TO_LOW_SURROGATE cp"
  have le: "unat cp \<le> 0x10ffff" "us = [?h, ?l]"
    using assms(1) False by (auto simp: encode_utf16_def word_less_nat_alt word_le_nat_alt split: if_splits)
  obtain m where m: "unat cp = 0x10000 + m" using False by (auto simp: le_iff_add not_less)
  have u: "unat ?h = 0xd800 + m div 1024" "unat ?l = 0xdc00 + m mod 1024"
    using surrogate_units [of cp] False le(1) m by (simp_all add: mod_add_eq [symmetric])
  have "m div 1024 < 1024" using le(1) m by simp
  then have "is_high ?h" "is_low ?l"
    using u by (simp_all add: is_high_def is_low_def word_le_nat_alt)
  moreover have "of_nat (0x10000 + (unat ?h - 0xd800) * 0x400 + (unat ?l - 0xdc00)) = cp"
    using m by (intro ulong_of_unat) (simp add: u)
  ultimately show ?thesis using le(2) by (simp add: parse_utf16_def)
qed

lemma decode_encode_utf16:
  assumes "\<forall>cp \<in> set cps. cp \<le> PH_UNICODE_MAX_CODE_POINT \<and> \<not> surrogate cp"
  shows "decode_utf16 (encode_all encode_utf16 cps) = (cps, [])"
  using assms
proof (induction cps)
  case Nil
  show ?case by (simp add: utf16.decode_units_incomplete)
next
  case (Cons cp cps)
  then obtain us where "encode_utf16 cp = Some us" using encode_utf16_Some [of cp] by auto
  with Cons utf16.decode_units_point [OF parse_encode_utf16] show ?case by simp
qed

text \<open>
  Encoding and decoding: the encoder accepts exactly the code points up to \<open>0x10ffff\<close>, for UTF-32 all.
  Feeding the decoder with what the encoder makes of a list of code points gives the list back: in UTF-8
  and UTF-32 for all of them, in UTF-16 when none is a surrogate.
\<close>

theorem PhEncodeUnicode_roundtrip:
  assumes "\<forall>cp \<in> set cps. cp \<le> PH_UNICODE_MAX_CODE_POINT"
  shows "\<exists>bss uss wss.
      list_all2 (\<lambda>cp bs. PhEncodeUnicode PH_UNICODE_UTF8 cp = Some (Utf8 bs)) cps bss
    \<and> list_all2 (\<lambda>cp us. PhEncodeUnicode PH_UNICODE_UTF16 cp = Some (Utf16 us)) cps uss
    \<and> list_all2 (\<lambda>cp ws. PhEncodeUnicode PH_UNICODE_UTF32 cp = Some (Utf32 ws)) cps wss
    \<and> decoded_points PH_UNICODE_UTF8 (map ucast (concat bss)) = Some cps
    \<and> ((\<forall>cp \<in> set cps. \<not> surrogate cp) \<longrightarrow>
         decoded_points PH_UNICODE_UTF16 (map ucast (concat uss)) = Some cps)
    \<and> decoded_points PH_UNICODE_UTF32 (concat wss) = Some cps"
proof -
  have e: "\<exists>bs. encode_utf8 cp = Some bs" "\<exists>us. encode_utf16 cp = Some us" if "cp \<in> set cps" for cp
    using assms that by (simp_all add: encode_utf8_Some encode_utf16_Some)
  have "list_all2 (\<lambda>cp bs. PhEncodeUnicode PH_UNICODE_UTF8 cp = Some (Utf8 bs)) cps (map (\<lambda>cp. the (encode_utf8 cp)) cps)"
    "list_all2 (\<lambda>cp us. PhEncodeUnicode PH_UNICODE_UTF16 cp = Some (Utf16 us)) cps (map (\<lambda>cp. the (encode_utf16 cp)) cps)"
    "list_all2 (\<lambda>cp ws. PhEncodeUnicode PH_UNICODE_UTF32 cp = Some (Utf32 ws)) cps (map (\<lambda>cp. [cp]) cps)"
    using e by (auto simp: list_all2_conv_all_nth PhEncodeUnicode_def)
  moreover have "concat (map (\<lambda>cp. [cp]) cps) = cps" by simp
  ultimately show ?thesis
    using assms decode_encode_utf8 [of cps] decode_encode_utf16 [of cps]
    by (intro exI conjI) (auto simp: decoded_points_correct encode_all_def)
qed

theorem PhEncodeUnicode_roundtrip_witness:
  "\<exists>bss uss wss.
      list_all2 (\<lambda>cp bs. PhEncodeUnicode PH_UNICODE_UTF8 cp = Some (Utf8 bs)) [0x41, 0xe9, 0x20ac, 0x1f600] bss
    \<and> list_all2 (\<lambda>cp us. PhEncodeUnicode PH_UNICODE_UTF16 cp = Some (Utf16 us)) [0x41, 0xe9, 0x20ac, 0x1f600] uss
    \<and> list_all2 (\<lambda>cp ws. PhEncodeUnicode PH_UNICODE_UTF32 cp = Some (Utf32 ws)) [0x41, 0xe9, 0x20ac, 0x1f600] wss
    \<and> decoded_points PH_UNICODE_UTF8 (map ucast (concat bss)) = Some [0x41, 0xe9, 0x20ac, 0x1f600]
    \<and> ((\<forall>cp \<in> set [0x41, 0xe9, 0x20ac, 0x1f600 :: ulong]. \<not> surrogate cp) \<longrightarrow>
         decoded_points PH_UNICODE_UTF16 (map ucast (concat uss)) = Some [0x41, 0xe9, 0x20ac, 0x1f600])
    \<and> decoded_points PH_UNICODE_UTF32 (concat wss) = Some [0x41, 0xe9, 0x20ac, 0x1f600]"
  by (rule PhEncodeUnicode_roundtrip) simp

end
