(* ===== verification/PhConvert.thy ===== *)
theory PhConvert
  imports PhUnicode
begin

text \<open>
  The conversions of strings in \<open>phlib/basesup.c\<close>: zero extension of bytes, UTF-16 to ASCII, and UTF-8
  to UTF-16 and back with their size computations (the code that is compiled without
  \<open>PH_NATIVE_STRING_CONVERSION\<close>, which nothing defines). The multi-byte conversions call the run-time
  library of the operating system. The result \<open>None\<close> is an access outside a buffer; a function that can
  return \<open>NULL\<close> has a second option.
\<close>

section \<open>Zero extension\<close>

definition C_1uTo2 :: "uchar \<Rightarrow> wchar" where
  "C_1uTo2 x = ucast x"

partial_function (option) zero_extend_blocks ::
    "uchar list \<Rightarrow> nat \<Rightarrow> ulong64 \<Rightarrow> wchar option list \<Rightarrow> (nat \<times> wchar option list) option" where
  "zero_extend_blocks input pos inputLength output =
     Option.bind (mem_read input pos 4) (\<lambda>d.
     Option.bind (mem_write output pos (map (\<lambda>b. Some (C_1uTo2 b)) d)) (\<lambda>output.
       let inputLength = inputLength - 4
       in if inputLength \<noteq> 0 then zero_extend_blocks input (pos + 4) inputLength output
          else Some (pos + 4, output)))"

definition zero_extend_one :: "uchar list \<Rightarrow> nat \<times> wchar option list \<Rightarrow> (nat \<times> wchar option list) option" where
  "zero_extend_one input s =
     Option.bind (mem_read input (fst s) 1) (\<lambda>d.
     Option.bind (mem_write (snd s) (fst s) (map (\<lambda>b. Some (C_1uTo2 b)) d)) (\<lambda>output.
     Some (fst s + 1, output)))"

definition PhZeroExtendToUtf16Buffer ::
    "uchar list \<Rightarrow> ulong64 \<Rightarrow> wchar option list \<Rightarrow> wchar option list option" where
  "PhZeroExtendToUtf16Buffer input inputLength output =
     Option.bind
       (if inputLength AND - 4 \<noteq> 0 then zero_extend_blocks input 0 (inputLength AND - 4) output
        else Some (0, output)) (\<lambda>s.
     let rest = inputLength AND 3 in
     Option.bind (if rest = 3 then zero_extend_one input s else Some s) (\<lambda>s.
     Option.bind (if rest = 3 \<or> rest = 2 then zero_extend_one input s else Some s) (\<lambda>s.
     Option.bind (if rest = 3 \<or> rest = 2 \<or> rest = 1 then zero_extend_one input s else Some s) (\<lambda>s.
     Some (snd s)))))"

definition PhZeroExtendToUtf16Ex :: "uchar list \<Rightarrow> ulong64 \<Rightarrow> PH_STRING option" where
  "PhZeroExtendToUtf16Ex input inputLength =
     Option.bind (PhCreateStringEx None (inputLength * 2)) (\<lambda>string.
     Option.bind (PhZeroExtendToUtf16Buffer input inputLength (str_Buffer string)) (\<lambda>m.
     Some (string\<lparr>str_Buffer := m\<rparr>)))"

section \<open>UTF-16 to ASCII\<close>

text \<open>The state of the loop is the output buffer and \<open>outLength\<close>; the result is a \<open>PH_BYTES\<close>.\<close>

definition ascii_body ::
    "uchar \<Rightarrow> ulong \<Rightarrow> uchar option list \<times> ulong64 \<Rightarrow> (uchar option list \<times> ulong64) option" where
  "ascii_body replacement codePoint s =
     (if codePoint < 0x80 then
        Option.bind (mem_write (fst s) (unat (snd s)) [Some (ucast codePoint)]) (\<lambda>m. Some (m, snd s + 1))
      else if replacement \<noteq> 0 then
        Option.bind (mem_write (fst s) (unat (snd s)) [Some replacement]) (\<lambda>m. Some (m, snd s + 1))
      else Some s)"

definition PhConvertUtf16ToAsciiEx ::
    "wchar list \<Rightarrow> ulong64 \<Rightarrow> uchar \<Rightarrow> (ulong64 \<times> uchar option list) option" where
  "PhConvertUtf16ToAsciiEx buffer len replacement =
     Option.bind (PhCreateBytesEx None (len div 2)) (\<lambda>bytes.
     Option.bind (mem_read buffer 0 (unat (len div 2))) (\<lambda>units.
     Option.bind (convert_loop (ascii_body replacement) (map ucast units)
                    (PhInitializeUnicodeDecoder PH_UNICODE_UTF16) (snd bytes, 0)) (\<lambda>(_, m, outLength).
     Option.bind (mem_write m (unat outLength) [Some 0]) (\<lambda>m.
     Some (outLength, m)))))"

section \<open>UTF-8 and UTF-16\<close>

definition utf8_units :: "ulong \<Rightarrow> uchar list option" where
  "utf8_units codePoint =
     (case PhEncodeUnicode PH_UNICODE_UTF8 codePoint of Some (Utf8 codeUnits) \<Rightarrow> Some codeUnits | _ \<Rightarrow> None)"

definition utf16_units :: "ulong \<Rightarrow> ushort list option" where
  "utf16_units codePoint =
     (case PhEncodeUnicode PH_UNICODE_UTF16 codePoint of Some (Utf16 codeUnits) \<Rightarrow> Some codeUnits | _ \<Rightarrow> None)"

text \<open>
  The bodies of the loops, the same for both directions but for the encoder and the size of a code
  unit. The state of a size computation is \<open>result\<close> and the number of bytes.
\<close>

definition size_body :: "(ulong \<Rightarrow> 'u list option) \<Rightarrow> ulong64 \<Rightarrow> ulong \<Rightarrow> bool \<times> ulong64 \<Rightarrow> (bool \<times> ulong64) option" where
  "size_body encode unitSize codePoint s =
     (case encode codePoint of
        Some codeUnits \<Rightarrow> Some (fst s, snd s + of_nat (length codeUnits) * unitSize)
      | None \<Rightarrow> Some (False, snd s))"

record 'u conversion =
  cv_result :: bool
  cv_out :: "'u option list"
  cv_position :: nat
  cv_outRemaining :: ulong64
  cv_bytes :: ulong64

definition buffer_body ::
    "(ulong \<Rightarrow> 'u list option) \<Rightarrow> ulong64 \<Rightarrow> ulong \<Rightarrow> 'u conversion \<Rightarrow> 'u conversion option" where
  "buffer_body encode unitSize codePoint s =
     (case encode codePoint of
        Some codeUnits \<Rightarrow>
          (let numberOfCodeUnits = of_nat (length codeUnits);
               s = s\<lparr>cv_bytes := cv_bytes s + numberOfCodeUnits * unitSize\<rparr>
           in if cv_outRemaining s \<ge> numberOfCodeUnits then
                Option.bind (mem_write (cv_out s) (cv_position s) (map Some codeUnits)) (\<lambda>m.
                Some (s\<lparr>cv_out := m, cv_position := cv_position s + length codeUnits,
                        cv_outRemaining := cv_outRemaining s - numberOfCodeUnits\<rparr>))
              else Some (s\<lparr>cv_result := False\<rparr>))
      | None \<Rightarrow> Some (s\<lparr>cv_result := False\<rparr>))"

definition PhConvertUtf8ToUtf16Size :: "uchar list \<Rightarrow> ulong64 \<Rightarrow> (bool \<times> ulong64) option" where
  "PhConvertUtf8ToUtf16Size utf8String bytesInUtf8String =
     Option.bind (mem_read utf8String 0 (unat bytesInUtf8String)) (\<lambda>units.
     Option.bind (convert_loop (size_body utf16_units 2) (map ucast units)
                    (PhInitializeUnicodeDecoder PH_UNICODE_UTF8) (True, 0)) (\<lambda>(_, s). Some s))"

definition PhConvertUtf8ToUtf16Buffer ::
    "wchar option list \<Rightarrow> ulong64 \<Rightarrow> uchar list \<Rightarrow> ulong64 \<Rightarrow> (bool \<times> ulong64 \<times> wchar option list) option" where
  "PhConvertUtf8ToUtf16Buffer utf16String maxBytes utf8String bytesInUtf8String =
     Option.bind (mem_read utf8String 0 (unat bytesInUtf8String)) (\<lambda>units.
     Option.bind (convert_loop (buffer_body utf16_units 2) (map ucast units)
                    (PhInitializeUnicodeDecoder PH_UNICODE_UTF8)
                    \<lparr> cv_result = True, cv_out = utf16String, cv_position = 0,
                      cv_outRemaining = maxBytes div 2, cv_bytes = 0 \<rparr>) (\<lambda>(_, s).
     Some (cv_result s, cv_bytes s, cv_out s)))"

definition PhConvertUtf8ToUtf16Ex :: "uchar list \<Rightarrow> ulong64 \<Rightarrow> PH_STRING option option" where
  "PhConvertUtf8ToUtf16Ex buffer len =
     Option.bind (PhConvertUtf8ToUtf16Size buffer len) (\<lambda>(result, utf16Bytes).
     if \<not> result then Some None
     else Option.bind (PhCreateStringEx None utf16Bytes) (\<lambda>string.
          Option.bind (PhConvertUtf8ToUtf16Buffer (str_Buffer string) (str_Length string) buffer len)
            (\<lambda>(result, _, m).
          if \<not> result then Some None else Some (Some (string\<lparr>str_Buffer := m\<rparr>)))))"

definition PhConvertUtf16ToUtf8Size :: "wchar list \<Rightarrow> ulong64 \<Rightarrow> (bool \<times> ulong64) option" where
  "PhConvertUtf16ToUtf8Size utf16String bytesInUtf16String =
     Option.bind (mem_read utf16String 0 (unat (bytesInUtf16String div 2))) (\<lambda>units.
     Option.bind (convert_loop (size_body utf8_units 1) (map ucast units)
                    (PhInitializeUnicodeDecoder PH_UNICODE_UTF16) (True, 0)) (\<lambda>(_, s). Some s))"

definition PhConvertUtf16ToUtf8Buffer ::
    "uchar option list \<Rightarrow> ulong64 \<Rightarrow> wchar list \<Rightarrow> ulong64 \<Rightarrow> (bool \<times> ulong64 \<times> uchar option list) option" where
  "PhConvertUtf16ToUtf8Buffer utf8String maxBytes utf16String bytesInUtf16String =
     Option.bind (mem_read utf16String 0 (unat (bytesInUtf16String div 2))) (\<lambda>units.
     Option.bind (convert_loop (buffer_body utf8_units 1) (map ucast units)
                    (PhInitializeUnicodeDecoder PH_UNICODE_UTF16)
                    \<lparr> cv_result = True, cv_out = utf8String, cv_position = 0,
                      cv_outRemaining = maxBytes, cv_bytes = 0 \<rparr>) (\<lambda>(_, s).
     Some (cv_result s, cv_bytes s, cv_out s)))"

text \<open>The \<open>PH_BYTES\<close> that is returned: its length and its buffer.\<close>

definition PhConvertUtf16ToUtf8Ex :: "wchar list \<Rightarrow> ulong64 \<Rightarrow> (ulong64 \<times> uchar option list) option option" where
  "PhConvertUtf16ToUtf8Ex buffer len =
     Option.bind (PhConvertUtf16ToUtf8Size buffer len) (\<lambda>(result, utf8Bytes).
     if \<not> result then Some None
     else Option.bind (PhCreateBytesEx None utf8Bytes) (\<lambda>(length, m).
          Option.bind (PhConvertUtf16ToUtf8Buffer m length buffer len) (\<lambda>(result, _, m).
          if \<not> result then Some None else Some (Some (length, m)))))"

section \<open>Null-terminated strings\<close>

text \<open>The memory from the string on; \<open>PhCountStringZ\<close> also sees the memory before it, up to \<open>start\<close>.\<close>

fun strlen :: "uchar list \<Rightarrow> nat option" where
  "strlen [] = None"
| "strlen (c # s) = (if c = 0 then Some 0 else map_option Suc (strlen s))"

definition PhZeroExtendToUtf16 :: "uchar list \<Rightarrow> PH_STRING option" where
  "PhZeroExtendToUtf16 input = Option.bind (strlen input) (\<lambda>n. PhZeroExtendToUtf16Ex input (of_nat n))"

definition PhConvertUtf16ToAscii :: "bool \<Rightarrow> wchar list \<Rightarrow> nat \<Rightarrow> uchar \<Rightarrow> (ulong64 \<times> uchar option list) option" where
  "PhConvertUtf16ToAscii intrinsics m start replacement =
     Option.bind (PhCountStringZ intrinsics m start) (\<lambda>n.
     PhConvertUtf16ToAsciiEx (drop start m) (of_nat n * 2) replacement)"

definition PhConvertUtf8ToUtf16 :: "uchar list \<Rightarrow> PH_STRING option option" where
  "PhConvertUtf8ToUtf16 buffer = Option.bind (strlen buffer) (\<lambda>n. PhConvertUtf8ToUtf16Ex buffer (of_nat n))"

definition PhConvertUtf16ToUtf8 :: "bool \<Rightarrow> wchar list \<Rightarrow> nat \<Rightarrow> (ulong64 \<times> uchar option list) option option" where
  "PhConvertUtf16ToUtf8 intrinsics m start =
     Option.bind (PhCountStringZ intrinsics m start) (\<lambda>n. PhConvertUtf16ToUtf8Ex (drop start m) (of_nat n * 2))"

lemma strlen_terminated: "0 \<notin> set s \<Longrightarrow> strlen (s @ 0 # rest) = Some (length s)"
  by (induction s) auto

section \<open>The loops on all code points\<close>

lemma utf8_units_eq: "utf8_units = encode_utf8"
  by (rule ext) (simp add: utf8_units_def PhEncodeUnicode_def split: option.splits)

lemma utf16_units_eq: "utf16_units = encode_utf16"
  by (rule ext) (simp add: utf16_units_def PhEncodeUnicode_def split: option.splits)

definition encodable :: "(ulong \<Rightarrow> 'u list option) \<Rightarrow> ulong list \<Rightarrow> bool" where
  "encodable encode cps \<longleftrightarrow> (\<forall>cp \<in> set cps. encode cp \<noteq> None)"

lemma size_all:
  assumes "encodable encode cps"
  shows "each (size_body encode k) cps s
         = Some (fst s, snd s + of_nat (length (encode_all encode cps)) * k)"
  using assms
proof (induction cps arbitrary: s)
  case (Cons cp cps)
  then obtain us where us: "encode cp = Some us" by (auto simp: encodable_def)
  from Cons have "encodable encode cps" by (simp add: encodable_def)
  with us Cons.IH [of "(fst s, snd s + of_nat (length us) * k)"] show ?case
    by (simp add: size_body_def algebra_simps)
qed simp

text \<open>
  The buffer: with room for \<open>r\<close> units behind the position, the loop never writes elsewhere, counts the
  bytes of all code points, and succeeds exactly when they fit; then it has written them in order.
\<close>

lemma buffer_all:
  assumes "encodable encode cps" and "unat (cv_outRemaining s) = r" and "cv_position s + r \<le> length (cv_out s)"
    and "\<And>cp us. encode cp = Some us \<Longrightarrow> length us \<le> 4"
  shows "\<exists>s'. each (buffer_body encode k) cps s = Some s'
     \<and> cv_bytes s' = cv_bytes s + of_nat (length (encode_all encode cps)) * k
     \<and> (cv_result s' \<longleftrightarrow> cv_result s \<and> length (encode_all encode cps) \<le> r)
     \<and> length (cv_out s') = length (cv_out s)
     \<and> take (cv_position s) (cv_out s') = take (cv_position s) (cv_out s)
     \<and> drop (cv_position s + r) (cv_out s') = drop (cv_position s + r) (cv_out s)
     \<and> (length (encode_all encode cps) \<le> r \<longrightarrow>
          cv_out s' = take (cv_position s) (cv_out s) @ map Some (encode_all encode cps)
            @ drop (cv_position s + length (encode_all encode cps)) (cv_out s))"
  using assms(1-3)
proof (induction cps arbitrary: s r)
  case Nil
  then show ?case by simp
next
  case (Cons cp cps)
  then obtain us where us: "encode cp = Some us" by (auto simp: encodable_def)
  from Cons.prems(1) have e: "encodable encode cps" by (simp add: encodable_def)
  let ?n = "length us" and ?N = "length (encode_all encode cps)" and ?p = "cv_position s"
  have "?n \<le> 4" using assms(4) [OF us] .
  then have n: "unat (of_nat ?n :: ulong64) = ?n" by (simp add: unat_of_nat)
  show ?case
  proof (cases "?n \<le> r")
    case True
    let ?m = "take ?p (cv_out s) @ map Some us @ drop (?p + ?n) (cv_out s)"
    let ?s = "s\<lparr>cv_bytes := cv_bytes s + of_nat ?n * k, cv_out := ?m, cv_position := ?p + ?n,
                cv_outRemaining := cv_outRemaining s - of_nat ?n\<rparr>"
    have le: "of_nat ?n \<le> cv_outRemaining s" using True n Cons.prems(2) by (simp add: word_le_nat_alt)
    have b: "buffer_body encode k cp s = Some ?s"
      using us le True Cons.prems(3) by (simp add: buffer_body_def Let_def mem_write_def)
    have "unat (cv_outRemaining ?s) = r - ?n"
      using le n Cons.prems(2) by (simp add: unat_sub)
    then obtain s' where s': "each (buffer_body encode k) cps ?s = Some s'"
      "cv_bytes s' = cv_bytes ?s + of_nat ?N * k" "cv_result s' \<longleftrightarrow> cv_result ?s \<and> ?N \<le> r - ?n"
      "length (cv_out s') = length (cv_out ?s)"
      "take (cv_position ?s) (cv_out s') = take (cv_position ?s) (cv_out ?s)"
      "drop (cv_position ?s + (r - ?n)) (cv_out s') = drop (cv_position ?s + (r - ?n)) (cv_out ?s)"
      "?N \<le> r - ?n \<longrightarrow> cv_out s' = take (cv_position ?s) (cv_out ?s) @ map Some (encode_all encode cps)
            @ drop (cv_position ?s + ?N) (cv_out ?s)"
      using Cons.IH [OF e, of ?s "r - ?n"] True Cons.prems(3) by auto
    have len: "length ?m = length (cv_out s)" using True Cons.prems(3) by simp
    have "take ?p (cv_out s') = take ?p (take (?p + ?n) (cv_out s'))" by simp
    also have "\<dots> = take ?p (cv_out s)" using s'(5) True Cons.prems(3) by simp
    finally have t: "take ?p (cv_out s') = take ?p (cv_out s)" .
    have d: "drop (?p + r) (cv_out s') = drop (?p + r) (cv_out s)"
      using s'(6) True Cons.prems(3) by (simp add: add.commute)
    have o: "cv_out s' = take ?p (cv_out s) @ map Some (us @ encode_all encode cps) @ drop (?p + (?n + ?N)) (cv_out s)"
      if "?n + ?N \<le> r"
      using s'(7) that True Cons.prems(3) by (simp add: ac_simps)
    have "each (buffer_body encode k) (cp # cps) s = Some s'" using b s'(1) by simp
    moreover have "cv_bytes s' = cv_bytes s + of_nat (length (encode_all encode (cp # cps))) * k"
      using s'(2) us by (simp add: algebra_simps)
    moreover have "cv_result s' \<longleftrightarrow> cv_result s \<and> length (encode_all encode (cp # cps)) \<le> r"
      using s'(3) us True by auto
    moreover have "length (cv_out s') = length (cv_out s)" using s'(4) len by simp
    moreover have "length (encode_all encode (cp # cps)) \<le> r \<longrightarrow>
        cv_out s' = take ?p (cv_out s) @ map Some (encode_all encode (cp # cps))
          @ drop (?p + length (encode_all encode (cp # cps))) (cv_out s)"
      using o us by simp
    ultimately show ?thesis using t d by blast
  next
    case False
    let ?s = "s\<lparr>cv_bytes := cv_bytes s + of_nat ?n * k, cv_result := False\<rparr>"
    have le: "\<not> of_nat ?n \<le> cv_outRemaining s" using False n Cons.prems(2) by (simp add: word_le_nat_alt)
    have b: "buffer_body encode k cp s = Some ?s"
      using us le by (simp add: buffer_body_def Let_def)
    obtain s' where s': "each (buffer_body encode k) cps ?s = Some s'"
      "cv_bytes s' = cv_bytes s + of_nat ?n * k + of_nat ?N * k" "\<not> cv_result s'"
      "length (cv_out s') = length (cv_out s)" "take ?p (cv_out s') = take ?p (cv_out s)"
      "drop (?p + r) (cv_out s') = drop (?p + r) (cv_out s)"
      using Cons.IH [OF e, of ?s r] Cons.prems(2,3) by auto
    have "each (buffer_body encode k) (cp # cps) s = Some s'" using b s'(1) by simp
    moreover have "cv_bytes s' = cv_bytes s + of_nat (length (encode_all encode (cp # cps))) * k"
      using s'(2) us by (simp add: algebra_simps)
    moreover have "\<not> length (encode_all encode (cp # cps)) \<le> r" using us False by simp
    ultimately show ?thesis using s' by blast
  qed
qed

section \<open>UTF-8 and UTF-16: the results\<close>

lemma encode_utf8_length: "encode_utf8 cp = Some bs \<Longrightarrow> length bs \<le> 4"
  by (auto simp: encode_utf8_def split: if_splits)

lemma encode_utf16_length: "encode_utf16 cp = Some us \<Longrightarrow> length us \<le> 2"
  by (auto simp: encode_utf16_def split: if_splits)

lemma encode_all_length:
  assumes "\<And>cp us. encode cp = Some us \<Longrightarrow> length us \<le> n" "encodable encode cps"
  shows "length (encode_all encode cps) \<le> n * length cps"
  using assms(2)
proof (induction cps)
  case (Cons cp cps)
  then obtain us where "encode cp = Some us" "encodable encode cps" by (auto simp: encodable_def)
  with Cons.IH assms(1) [of cp us] show ?case by simp
qed simp

lemma decoded_encodable:
  "encodable encode_utf16 (fst (decode_utf8 bs))" "encodable encode_utf8 (fst (decode_utf16 us))"
  using decoded_max(1) [of _ bs] decoded_max(2) [of _ us] encode_utf8_Some encode_utf16_Some
  by (auto simp: encodable_def)

abbreviation utf16_of_utf8 :: "uchar list \<Rightarrow> ushort list" where
  "utf16_of_utf8 bs \<equiv> encode_all encode_utf16 (fst (decode_utf8 bs))"

abbreviation utf8_of_utf16 :: "ushort list \<Rightarrow> uchar list" where
  "utf8_of_utf16 us \<equiv> encode_all encode_utf8 (fst (decode_utf16 us))"

lemma utf16_of_utf8_length: "length (utf16_of_utf8 bs) \<le> 2 * length bs"
  using encode_all_length [OF encode_utf16_length decoded_encodable(1)] utf8.decode_units_length [of bs]
  by (meson add_leD1 le_trans mult_le_mono2)

lemma utf8_of_utf16_length: "length (utf8_of_utf16 us) \<le> 4 * length us"
  using encode_all_length [OF encode_utf8_length decoded_encodable(2)] utf16.decode_units_length [of us]
  by (meson add_leD1 le_trans mult_le_mono2)

lemma each_of_utf8:
  assumes "each body (fst (decode_utf8 bs)) st = Some st'"
  shows "\<exists>d. convert_loop body (map ucast bs) (PhInitializeUnicodeDecoder PH_UNICODE_UTF8) st = Some (d, st')"
  using utf8.convert_loop_units [OF initial_decoders(1), of body bs st] assms by auto

lemma each_of_utf16:
  assumes "each body (fst (decode_utf16 us)) st = Some st'"
  shows "\<exists>d. convert_loop body (map ucast us) (PhInitializeUnicodeDecoder PH_UNICODE_UTF16) st = Some (d, st')"
  using utf16.convert_loop_units [OF initial_decoders(2), of body us st] assms by auto

lemma mem_read_all: "unat n = length d \<Longrightarrow> mem_read d 0 (unat n) = Some d"
  by (simp add: mem_read_def)

lemma utf8_size:
  assumes "unat n = length bs"
  shows "PhConvertUtf8ToUtf16Size bs n = Some (True, of_nat (2 * length (utf16_of_utf8 bs)))"
  using each_of_utf8 [OF size_all [OF decoded_encodable(1), where k = 2 and s = "(True, 0)"], of bs] mem_read_all [OF assms]
  by (auto simp: PhConvertUtf8ToUtf16Size_def utf16_units_eq)

lemma utf16_size:
  assumes "unat n div 2 = length us"
  shows "PhConvertUtf16ToUtf8Size us n = Some (True, of_nat (length (utf8_of_utf16 us)))"
  using each_of_utf16 [OF size_all [OF decoded_encodable(2), where k = 1 and s = "(True, 0)"], of us] assms
  by (auto simp: PhConvertUtf16ToUtf8Size_def utf8_units_eq mem_read_def unat_div)

lemma utf8_buffer:
  assumes n: "unat n = length bs" and m: "unat maxBytes div 2 \<le> length out"
  shows "\<exists>ok out'. PhConvertUtf8ToUtf16Buffer out maxBytes bs n
           = Some (ok, of_nat (2 * length (utf16_of_utf8 bs)), out')
     \<and> (ok \<longleftrightarrow> 2 * length (utf16_of_utf8 bs) \<le> unat maxBytes) \<and> length out' = length out
     \<and> drop (unat maxBytes div 2) out' = drop (unat maxBytes div 2) out
     \<and> (ok \<longrightarrow> out' = map Some (utf16_of_utf8 bs) @ drop (length (utf16_of_utf8 bs)) out)"
proof -
  let ?s = "\<lparr> cv_result = True, cv_out = out, cv_position = 0, cv_outRemaining = maxBytes div 2, cv_bytes = 0 \<rparr>"
  have l: "encode_utf16 cp = Some us \<Longrightarrow> length us \<le> 4" for cp us
    using encode_utf16_length [of cp us] by simp
  obtain s' where s': "each (buffer_body encode_utf16 2) (fst (decode_utf8 bs)) ?s = Some s'"
    "cv_bytes s' = of_nat (length (utf16_of_utf8 bs)) * 2"
    "cv_result s' \<longleftrightarrow> length (utf16_of_utf8 bs) \<le> unat maxBytes div 2" "length (cv_out s') = length out"
    "drop (unat maxBytes div 2) (cv_out s') = drop (unat maxBytes div 2) out"
    "length (utf16_of_utf8 bs) \<le> unat maxBytes div 2 \<longrightarrow>
       cv_out s' = map Some (utf16_of_utf8 bs) @ drop (length (utf16_of_utf8 bs)) out"
    using buffer_all [OF decoded_encodable(1), of ?s "unat maxBytes div 2" 2 bs] m l by (auto simp: unat_div)
  obtain d where "convert_loop (buffer_body encode_utf16 2) (map ucast bs)
      (PhInitializeUnicodeDecoder PH_UNICODE_UTF8) ?s = Some (d, s')"
    using each_of_utf8 [OF s'(1)] by blast
  then have "PhConvertUtf8ToUtf16Buffer out maxBytes bs n = Some (cv_result s', cv_bytes s', cv_out s')"
    using mem_read_all [OF n] by (simp add: PhConvertUtf8ToUtf16Buffer_def utf16_units_eq)
  moreover have "length (utf16_of_utf8 bs) \<le> unat maxBytes div 2 \<longleftrightarrow> 2 * length (utf16_of_utf8 bs) \<le> unat maxBytes"
    by linarith
  ultimately show ?thesis using s' by (auto simp: mult.commute)
qed

lemma utf16_buffer:
  assumes n: "unat n div 2 = length us" and m: "unat maxBytes \<le> length out"
  shows "\<exists>ok out'. PhConvertUtf16ToUtf8Buffer out maxBytes us n
           = Some (ok, of_nat (length (utf8_of_utf16 us)), out')
     \<and> (ok \<longleftrightarrow> length (utf8_of_utf16 us) \<le> unat maxBytes) \<and> length out' = length out
     \<and> drop (unat maxBytes) out' = drop (unat maxBytes) out
     \<and> (ok \<longrightarrow> out' = map Some (utf8_of_utf16 us) @ drop (length (utf8_of_utf16 us)) out)"
proof -
  let ?s = "\<lparr> cv_result = True, cv_out = out, cv_position = 0, cv_outRemaining = maxBytes, cv_bytes = 0 \<rparr>"
  obtain s' where s': "each (buffer_body encode_utf8 1) (fst (decode_utf16 us)) ?s = Some s'"
    "cv_bytes s' = of_nat (length (utf8_of_utf16 us))"
    "cv_result s' \<longleftrightarrow> length (utf8_of_utf16 us) \<le> unat maxBytes" "length (cv_out s') = length out"
    "drop (unat maxBytes) (cv_out s') = drop (unat maxBytes) out"
    "length (utf8_of_utf16 us) \<le> unat maxBytes \<longrightarrow>
       cv_out s' = map Some (utf8_of_utf16 us) @ drop (length (utf8_of_utf16 us)) out"
    using buffer_all [OF decoded_encodable(2), of ?s "unat maxBytes" 1 us] m encode_utf8_length by auto
  obtain d where "convert_loop (buffer_body encode_utf8 1) (map ucast us)
      (PhInitializeUnicodeDecoder PH_UNICODE_UTF16) ?s = Some (d, s')"
    using each_of_utf16 [OF s'(1)] by blast
  then have "PhConvertUtf16ToUtf8Buffer out maxBytes us n = Some (cv_result s', cv_bytes s', cv_out s')"
    using n by (simp add: PhConvertUtf16ToUtf8Buffer_def utf8_units_eq mem_read_def unat_div)
  with s' show ?thesis by auto
qed

lemma unat_of_nat_small: "n < 2 ^ 64 \<Longrightarrow> unat (of_nat n :: ulong64) = n"
  by (simp add: unat_of_nat)

lemma PhCreateStringEx_None:
  assumes "2 * n < 2 ^ 64"
  shows "PhCreateStringEx None (of_nat (2 * n))
         = Some \<lparr> str_Length = of_nat (2 * n), str_Buffer = replicate n None @ [Some 0] \<rparr>"
proof -
  have u: "unat (of_nat (2 * n) :: ulong64) = 2 * n" using assms by (rule unat_of_nat_small)
  have "(PhAllocate (n + 1))[n := Some 0] = replicate n None @ [Some (0 :: wchar)]"
    by (rule nth_equalityI) (auto simp: PhAllocate_def nth_append nth_list_update simp del: replicate_Suc)
  then show ?thesis
    unfolding PhCreateStringEx_def u Let_def by simp
qed

lemma PhCreateBytesEx_None:
  assumes "n < 2 ^ 64"
  shows "PhCreateBytesEx None (of_nat n) = Some (of_nat n, replicate n None @ [Some 0])"
proof -
  have u: "unat (of_nat n :: ulong64) = n" using assms by (rule unat_of_nat_small)
  have "(PhAllocate (n + 1))[n := Some 0] = replicate n None @ [Some (0 :: uchar)]"
    by (rule nth_equalityI) (auto simp: PhAllocate_def nth_append nth_list_update simp del: replicate_Suc)
  then show ?thesis
    unfolding PhCreateBytesEx_def u Let_def by simp
qed

lemma utf8_ex:
  assumes n: "unat n = length bs" and small: "length bs < 2 ^ 61"
  shows "PhConvertUtf8ToUtf16Ex bs n
         = Some (Some \<lparr> str_Length = of_nat (2 * length (utf16_of_utf8 bs)),
                        str_Buffer = map Some (utf16_of_utf8 bs) @ [Some 0] \<rparr>)"
proof -
  let ?L = "length (utf16_of_utf8 bs)"
  let ?out = "replicate ?L None @ [Some (0 :: wchar)]"
  have L: "2 * ?L < 2 ^ 64" using utf16_of_utf8_length [of bs] small by simp
  have u: "unat (of_nat (2 * ?L) :: ulong64) = 2 * ?L" using L by (rule unat_of_nat_small)
  obtain out' where "PhConvertUtf8ToUtf16Buffer ?out (of_nat (2 * ?L)) bs n = Some (True, of_nat (2 * ?L), out')"
    "out' = map Some (utf16_of_utf8 bs) @ drop ?L ?out"
    using utf8_buffer [OF n, of "of_nat (2 * ?L)" ?out] unfolding u by auto
  then show ?thesis
    using utf8_size [OF n] PhCreateStringEx_None [OF L] by (simp add: PhConvertUtf8ToUtf16Ex_def)
qed

lemma utf16_ex:
  assumes n: "unat n div 2 = length us" and small: "length us < 2 ^ 61"
  shows "PhConvertUtf16ToUtf8Ex us n
         = Some (Some (of_nat (length (utf8_of_utf16 us)), map Some (utf8_of_utf16 us) @ [Some 0]))"
proof -
  let ?L = "length (utf8_of_utf16 us)"
  let ?out = "replicate ?L None @ [Some (0 :: uchar)]"
  have L: "?L < 2 ^ 64" using utf8_of_utf16_length [of us] small by simp
  have u: "unat (of_nat ?L :: ulong64) = ?L" using L by (rule unat_of_nat_small)
  obtain out' where "PhConvertUtf16ToUtf8Buffer ?out (of_nat ?L) us n = Some (True, of_nat ?L, out')"
    "out' = map Some (utf8_of_utf16 us) @ drop ?L ?out"
    using utf16_buffer [OF n, of "of_nat ?L" ?out] unfolding u by auto
  then show ?thesis
    using utf16_size [OF n] PhCreateBytesEx_None [OF L] by (simp add: PhConvertUtf16ToUtf8Ex_def)
qed

text \<open>What stays in a UTF-16 decoder at the end is a high surrogate without its partner.\<close>

lemma decode_utf16_rest:
  "snd (decode_utf16 us) = (if us \<noteq> [] \<and> is_high (last us) then [last us] else [])"
proof (induction "length us" arbitrary: us rule: less_induct)
  case less
  show ?case
  proof (cases "parse_utf16 us")
    case Incomplete
    then have "us = [] \<or> (\<exists>u. us = [u] \<and> is_high u)"
      by (auto simp: parse_utf16_def split: list.splits if_splits)
    with Incomplete show ?thesis by (auto simp: utf16.decode_units_incomplete)
  next
    case (Decoded cp n)
    then have lt: "length (drop n us) < length us" using utf16.parse_bounds [OF Decoded] by auto
    have "\<not> is_high (last us)" if "drop n us = []"
    proof -
      have "us = [u] \<Longrightarrow> \<not> is_high u" "us = [u, v] \<Longrightarrow> is_low v \<or> \<not> is_high v" for u v
        using Decoded that by (auto simp: parse_utf16_def split: if_splits)
      moreover have "\<not> is_high v" if "is_low v" for v
        using that by (auto simp: is_low_def is_high_def word_le_nat_alt)
      moreover have "\<exists>u. us = [u] \<or> (\<exists>v. us = [u, v])"
        using Decoded that by (auto simp: parse_utf16_def split: list.split_asm if_split_asm)
      ultimately show ?thesis by auto
    qed
    with less [OF lt] lt show ?thesis
      by (cases "drop n us = []") (auto simp: utf16.decode_units_point [OF Decoded] last_drop)
  qed
qed

lemma utf16_of_utf8_of_utf16:
  "utf16_of_utf8 (utf8_of_utf16 us) = (if us \<noteq> [] \<and> is_high (last us) then butlast us else us)"
proof -
  have "decode_utf8 (utf8_of_utf16 us) = (fst (decode_utf16 us), [])"
    using decoded_max(2) by (intro decode_encode_utf8) auto
  then have "utf16_of_utf8 (utf8_of_utf16 us) @ snd (decode_utf16 us) = us"
    using encode_decode_utf16 [of us] by simp
  then show ?thesis
    unfolding decode_utf16_rest by (auto split: if_splits simp: butlast_append) (metis butlast_snoc)+
qed

section \<open>ASCII\<close>

definition ascii_of :: "uchar \<Rightarrow> ulong list \<Rightarrow> uchar list" where
  "ascii_of replacement cps =
     concat (map (\<lambda>cp. if cp < 0x80 then [ucast cp] else if replacement \<noteq> 0 then [replacement] else []) cps)"

lemma ascii_of_simps [simp]:
  "ascii_of r [] = []"
  "cp < 0x80 \<Longrightarrow> ascii_of r (cp # cps) = ucast cp # ascii_of r cps"
  "\<not> cp < 0x80 \<Longrightarrow> r \<noteq> 0 \<Longrightarrow> ascii_of r (cp # cps) = r # ascii_of r cps"
  "\<not> cp < 0x80 \<Longrightarrow> ascii_of 0 (cp # cps) = ascii_of 0 cps"
  by (simp_all add: ascii_of_def)

lemma ascii_of_length: "length (ascii_of r cps) \<le> length cps"
proof (induction cps)
  case (Cons cp cps)
  then show ?case by (cases "cp < 0x80"; cases "r = 0") simp_all
qed simp

lemma ascii_all:
  assumes "unat n + length (ascii_of r cps) \<le> length m" "unat n + length (ascii_of r cps) < 2 ^ 64"
  shows "each (ascii_body r) cps (m, n)
         = Some (take (unat n) m @ map Some (ascii_of r cps) @ drop (unat n + length (ascii_of r cps)) m,
                 n + of_nat (length (ascii_of r cps)))"
  using assms
proof (induction cps arbitrary: m n)
  case Nil
  then show ?case by simp
next
  case (Cons cp cps)
  show ?case
  proof (cases "cp < 0x80 \<or> r \<noteq> 0")
    case False
    then have "ascii_of r (cp # cps) = ascii_of r cps" by auto
    with False Cons show ?thesis by (simp add: ascii_body_def)
  next
    case True
    let ?b = "if cp < 0x80 then ucast cp else r"
    let ?m = "take (unat n) m @ [Some ?b] @ drop (unat n + 1) m"
    have a: "ascii_of r (cp # cps) = ?b # ascii_of r cps" using True by (cases "cp < 0x80") auto
    have len: "unat n < length m" "unat (n + 1) = unat n + 1"
      using Cons.prems a by (simp_all add: unat_plus_no_overflow)
    have "ascii_body r cp (m, n) = Some (?m, n + 1)"
      using True len(1) by (auto simp: ascii_body_def mem_write_def)
    moreover have "each (ascii_body r) cps (?m, n + 1)
        = Some (take (unat n + 1) ?m @ map Some (ascii_of r cps) @ drop (unat n + 1 + length (ascii_of r cps)) ?m,
                n + 1 + of_nat (length (ascii_of r cps)))"
      using Cons.IH [of "n + 1" ?m] Cons.prems a len by simp
    ultimately show ?thesis
      using len Cons.prems unfolding a by (simp add: add.commute add.left_commute)
  qed
qed

lemma utf16_to_ascii:
  assumes n: "unat n div 2 = length us" and small: "length us < 2 ^ 63"
  shows "\<exists>m. PhConvertUtf16ToAsciiEx us n r = Some (of_nat (length (ascii_of r (fst (decode_utf16 us)))), m)
     \<and> take (length (ascii_of r (fst (decode_utf16 us))) + 1) m
         = map Some (ascii_of r (fst (decode_utf16 us))) @ [Some 0]
     \<and> length m = length us + 1"
proof -
  let ?A = "ascii_of r (fst (decode_utf16 us))" and ?N = "length us"
  let ?out = "replicate ?N None @ [Some (0 :: uchar)]"
  have L: "length ?A \<le> ?N"
    using ascii_of_length [of r "fst (decode_utf16 us)"] utf16.decode_units_length [of us] by linarith
  then have u: "unat (of_nat (length ?A) :: ulong64) = length ?A" using small by (intro unat_of_nat_small) simp
  have "n div 2 = of_nat ?N" using n small by (simp add: word_unat_eq_iff unat_div unat_of_nat_small [symmetric] del: unat_of_nat_small)
  then have c: "PhCreateBytesEx None (n div 2) = Some (n div 2, ?out)"
    using PhCreateBytesEx_None [of ?N] small by simp
  let ?m = "map Some ?A @ drop (length ?A) ?out"
  have e: "each (ascii_body r) (fst (decode_utf16 us)) (?out, 0) = Some (?m, of_nat (length ?A))"
    using ascii_all [of 0 r "fst (decode_utf16 us)" ?out] L small by simp
  obtain d where "convert_loop (ascii_body r) (map ucast us) (PhInitializeUnicodeDecoder PH_UNICODE_UTF16) (?out, 0)
      = Some (d, ?m, of_nat (length ?A))"
    using each_of_utf16 [OF e] by blast
  moreover have "mem_write ?m (length ?A) [Some 0] = Some (map Some ?A @ [Some 0] @ drop (length ?A + 1) ?out)"
    using L by (simp add: mem_write_def)
  ultimately have "PhConvertUtf16ToAsciiEx us n r
      = Some (of_nat (length ?A), map Some ?A @ [Some 0] @ drop (length ?A + 1) ?out)"
    using n by (simp add: PhConvertUtf16ToAsciiEx_def c mem_read_def unat_div u)
  with L show ?thesis by simp
qed

section \<open>Zero extension: the result\<close>

definition extended :: "uchar list \<Rightarrow> wchar option list \<Rightarrow> nat \<Rightarrow> wchar option list" where
  "extended input out0 n = map (\<lambda>b. Some (ucast b)) (take n input) @ drop n out0"

lemma extend_more:
  assumes "n + j \<le> length input" "length input \<le> length out0"
  shows "\<exists>d. mem_read input n j = Some d
     \<and> mem_write (extended input out0 n) n (map (\<lambda>b. Some (C_1uTo2 b)) d) = Some (extended input out0 (n + j))"
proof -
  have "take (n + j) input = take n input @ take j (drop n input)" by (rule take_add)
  moreover have "drop (n + j) out0 = drop j (drop n out0)" by (simp add: add.commute)
  ultimately show ?thesis
    using assms by (simp add: mem_read_def mem_write_def extended_def C_1uTo2_def del: drop_drop)
qed

lemma zero_extend_one_extended:
  assumes "n < length input" "length input \<le> length out0"
  shows "zero_extend_one input (n, extended input out0 n) = Some (n + 1, extended input out0 (n + 1))"
  using extend_more [of n 1 input out0] assms by (auto simp: zero_extend_one_def)

lemma zero_extend_blocks_extended:
  assumes "n + 4 * Suc k \<le> length input" "length input \<le> length out0" "length input < 2 ^ 64"
  shows "zero_extend_blocks input n (of_nat (4 * Suc k)) (extended input out0 n)
         = Some (n + 4 * Suc k, extended input out0 (n + 4 * Suc k))"
  using assms(1)
proof (induction k arbitrary: n)
  case 0
  with extend_more [of n 4 input out0] assms(2) show ?case
    by (subst zero_extend_blocks.simps) auto
next
  case (Suc k)
  have w: "of_nat (4 * Suc (Suc k)) - 4 = (of_nat (4 * Suc k) :: ulong64)" by simp
  have "unat (of_nat (4 * Suc k) :: ulong64) = 4 * Suc k"
    using Suc.prems assms(3) by (intro unat_of_nat_small) simp
  then have nz: "(of_nat (4 * Suc k) :: ulong64) \<noteq> 0" by auto
  obtain d where "mem_read input n 4 = Some d"
    "mem_write (extended input out0 n) n (map (\<lambda>b. Some (C_1uTo2 b)) d) = Some (extended input out0 (n + 4))"
    using extend_more [of n 4 input out0] Suc.prems assms(2) by auto
  then have "zero_extend_blocks input n (of_nat (4 * Suc (Suc k))) (extended input out0 n)
      = zero_extend_blocks input (n + 4) (of_nat (4 * Suc k)) (extended input out0 (n + 4))"
    using nz by (subst zero_extend_blocks.simps) (simp only: w bind.bind_lunit Let_def if_True simp_thms)
  also have "\<dots> = Some (n + 4 + 4 * Suc k, extended input out0 (n + 4 + 4 * Suc k))"
    using Suc.prems by (intro Suc.IH) simp
  finally show ?case by (simp add: algebra_simps)
qed

lemma and_not_mask_shift: "n AND NOT (mask k) = push_bit k (drop_bit k (n :: 'a::len word))"
  by (rule bit_word_eqI) (auto simp: bit_simps)

lemma and_minus_4: "unat (n AND - 4 :: ulong64) = 4 * (unat n div 4)" "unat (n AND 3) = unat n mod 4"
proof -
  have "(- 4 :: ulong64) = NOT (mask 2)" by (simp add: mask_eq_exp_minus_1)
  then have "n AND - 4 = push_bit 2 (drop_bit 2 n)"
    by (simp only: and_not_mask_shift)
  then have "unat (n AND - 4) = take_bit 64 (4 * (unat n div 4))"
    by (simp only: unsigned_push_bit_eq unat_drop_bit_eq) (simp add: push_bit_eq_mult drop_bit_eq_div mult.commute)
  moreover have "4 * (unat n div 4) < 2 ^ 64"
    using unsigned_less [of n, where ?'a = nat] by simp
  ultimately show "unat (n AND - 4 :: ulong64) = 4 * (unat n div 4)"
    by (simp add: take_bit_nat_eq_self)
  show "unat (n AND 3) = unat n mod 4"
    using unat_and_mask [of n 2] by (simp add: mask_eq_exp_minus_1)
qed

lemma zero_extend_all:
  assumes n: "unat n = length input" and out: "length input \<le> length out0"
  shows "PhZeroExtendToUtf16Buffer input n out0
         = Some (map (\<lambda>b. Some (ucast b)) input @ drop (length input) out0)"
proof -
  let ?k = "unat n div 4" and ?r = "unat n mod 4"
  have e0: "extended input out0 0 = out0" by (simp add: extended_def)
  have small: "length input < 2 ^ 64" using n unsigned_less [of n, where ?'a = nat] by simp
  have len: "length input = 4 * ?k + ?r" using n by simp
  have first: "(if n AND - 4 \<noteq> 0 then zero_extend_blocks input 0 (n AND - 4) out0 else Some (0, out0))
      = Some (4 * ?k, extended input out0 (4 * ?k))"
  proof (cases ?k)
    case 0
    then have "n AND - 4 = 0" using and_minus_4(1) [of n] by (simp add: word_unat_eq_iff)
    then show ?thesis using 0 e0 by simp
  next
    case (Suc k)
    then have "n AND - 4 = of_nat (4 * Suc k)"
      using and_minus_4(1) [of n] small len by (simp only: word_unat_eq_iff) (subst unat_of_nat_small, simp_all)
    moreover have "n AND - 4 \<noteq> 0" using and_minus_4(1) [of n] Suc by (auto simp: word_unat_eq_iff)
    ultimately show ?thesis
      using zero_extend_blocks_extended [of 0 k input out0] Suc len out small e0 by simp
  qed
  have one: "zero_extend_one input (m, extended input out0 m) = Some (m + 1, extended input out0 (m + 1))"
    if "m < length input" for m
    using that out by (rule zero_extend_one_extended)
  have fin: "extended input out0 (length input) = map (\<lambda>b. Some (ucast b)) input @ drop (length input) out0"
    by (simp add: extended_def)
  have "unat (of_nat ?r :: ulong64) = ?r"
    by (intro unat_of_nat_small) (rule less_trans [of _ 4], simp_all)
  then have r: "n AND 3 = of_nat ?r" using and_minus_4(2) [of n] by (simp add: word_unat_eq_iff)
  consider "?r = 0" | "?r = 1" | "?r = 2" | "?r = 3" by linarith
  then show ?thesis
  proof cases
      case 1
    with first r fin len show ?thesis by (simp add: PhZeroExtendToUtf16Buffer_def)
  next
    case 2
    then have "Suc (4 * ?k) = length input" using len by linarith
    with first r fin one [of "4 * ?k"] 2 show ?thesis by (simp add: PhZeroExtendToUtf16Buffer_def)
  next
    case 3
    then have "Suc (Suc (4 * ?k)) = length input" using len by linarith
    with first r fin one [of "4 * ?k"] one [of "4 * ?k + 1"] 3 show ?thesis
      by (simp add: PhZeroExtendToUtf16Buffer_def)
  next
    case 4
    then have "Suc (Suc (Suc (4 * ?k))) = length input" using len by linarith
    with first r fin one [of "4 * ?k"] one [of "4 * ?k + 1"] one [of "4 * ?k + 2"] 4 show ?thesis
      by (simp add: PhZeroExtendToUtf16Buffer_def)
  qed
qed

section \<open>Correctness of the conversions\<close>

text \<open>
  C11. For inputs of fewer than \<open>2 ^ 61\<close> code units the conversions between UTF-8 and UTF-16 never return \<open>NULL\<close> and
  stay in their buffers: the size that the
  first pass computes is the one the second pass needs, and the result is the encoding of the code
  points of the reference decoder, with a null terminator.
\<close>

theorem PhConvertUtf_correct:
  assumes "length bs < 2 ^ 61" "length us < 2 ^ 61"
  shows "PhConvertUtf8ToUtf16Ex bs (of_nat (length bs))
           = Some (Some \<lparr> str_Length = of_nat (2 * length (utf16_of_utf8 bs)),
                          str_Buffer = map Some (utf16_of_utf8 bs) @ [Some 0] \<rparr>)
       \<and> PhConvertUtf16ToUtf8Ex us (of_nat (2 * length us))
           = Some (Some (of_nat (length (utf8_of_utf16 us)), map Some (utf8_of_utf16 us) @ [Some 0]))"
proof
  have "unat (of_nat (length bs) :: ulong64) = length bs" "unat (of_nat (2 * length us) :: ulong64) = 2 * length us"
    using assms by (intro unat_of_nat_small; simp)+
  then show "PhConvertUtf8ToUtf16Ex bs (of_nat (length bs))
           = Some (Some \<lparr> str_Length = of_nat (2 * length (utf16_of_utf8 bs)),
                          str_Buffer = map Some (utf16_of_utf8 bs) @ [Some 0] \<rparr>)"
    "PhConvertUtf16ToUtf8Ex us (of_nat (2 * length us))
       = Some (Some (of_nat (length (utf8_of_utf16 us)), map Some (utf8_of_utf16 us) @ [Some 0]))"
    using assms by (intro utf8_ex utf16_ex; simp)+
qed

theorem PhConvertUtf_correct_witness:
  "PhConvertUtf8ToUtf16Ex [0x41, 0xf0, 0x9f] (of_nat (length [0x41, 0xf0, 0x9f :: uchar]))
     = Some (Some \<lparr> str_Length = of_nat (2 * length (utf16_of_utf8 [0x41, 0xf0, 0x9f])),
                    str_Buffer = map Some (utf16_of_utf8 [0x41, 0xf0, 0x9f]) @ [Some 0] \<rparr>)
   \<and> PhConvertUtf16ToUtf8Ex [0xd83d, 0xde00] (of_nat (2 * length [0xd83d, 0xde00 :: ushort]))
     = Some (Some (of_nat (length (utf8_of_utf16 [0xd83d, 0xde00])), map Some (utf8_of_utf16 [0xd83d, 0xde00]) @ [Some 0]))"
  by (rule PhConvertUtf_correct) simp_all

text \<open>
  C36. Converting any UTF-16 string of fewer than \<open>2 ^ 59\<close> code units to UTF-8 and back, well-formed or not, gives the string back, except that
  a high surrogate at its end is lost without an error: the decoder still waits for its partner.
\<close>

theorem PhConvertUtf_roundtrip:
  assumes "length us < 2 ^ 59"
  shows "\<exists>bs n. PhConvertUtf16ToUtf8Ex us (of_nat (2 * length us)) = Some (Some (n, map Some bs @ [Some 0]))
     \<and> unat n = length bs
     \<and> PhConvertUtf8ToUtf16Ex bs n
       = Some (Some (let ws = if us \<noteq> [] \<and> is_high (last us) then butlast us else us
                     in \<lparr> str_Length = of_nat (2 * length ws), str_Buffer = map Some ws @ [Some 0] \<rparr>))"
proof -
  let ?bs = "utf8_of_utf16 us"
  have l: "length ?bs < 2 ^ 61" using utf8_of_utf16_length [of us] assms by simp
  then have n: "unat (of_nat (length ?bs) :: ulong64) = length ?bs" by (simp add: unat_of_nat)
  have "unat (of_nat (2 * length us) :: ulong64) = 2 * length us"
    using assms by (intro unat_of_nat_small) simp
  then have "PhConvertUtf16ToUtf8Ex us (of_nat (2 * length us)) = Some (Some (of_nat (length ?bs), map Some ?bs @ [Some 0]))"
    using assms by (intro utf16_ex) simp_all
  then show ?thesis
    using utf8_ex [OF n l] n by (intro exI [of _ ?bs] exI) (simp add: Let_def utf16_of_utf8_of_utf16)
qed

theorem PhConvertUtf_roundtrip_witness:
  "\<exists>bs n. PhConvertUtf16ToUtf8Ex [0x20ac, 0xd83d] (of_nat (2 * length [0x20ac, 0xd83d :: ushort]))
       = Some (Some (n, map Some bs @ [Some 0]))
     \<and> unat n = length bs
     \<and> PhConvertUtf8ToUtf16Ex bs n
       = Some (Some (let ws = if [0x20ac, 0xd83d :: ushort] \<noteq> [] \<and> is_high (last [0x20ac, 0xd83d])
                               then butlast [0x20ac, 0xd83d] else [0x20ac, 0xd83d]
                     in \<lparr> str_Length = of_nat (2 * length ws), str_Buffer = map Some ws @ [Some 0] \<rparr>))"
  by (rule PhConvertUtf_roundtrip) simp

text \<open>
  C37. A conversion into a buffer of the caller never writes behind the given number of bytes, however small
  it is; it reports the number of bytes that the whole result takes, and succeeds exactly when they fit. The inputs
  have fewer than \<open>2 ^ 61\<close> code units.
\<close>

theorem PhConvertUtfBuffer_bounds:
  assumes "length bs < 2 ^ 61" "unat m div 2 \<le> length out" "length us < 2 ^ 61" "unat k \<le> length out8"
  shows "(\<exists>ok out'. PhConvertUtf8ToUtf16Buffer out m bs (of_nat (length bs))
             = Some (ok, of_nat (2 * length (utf16_of_utf8 bs)), out')
           \<and> (ok \<longleftrightarrow> 2 * length (utf16_of_utf8 bs) \<le> unat m) \<and> length out' = length out
           \<and> drop (unat m div 2) out' = drop (unat m div 2) out
           \<and> (ok \<longrightarrow> out' = map Some (utf16_of_utf8 bs) @ drop (length (utf16_of_utf8 bs)) out))
       \<and> (\<exists>ok out'. PhConvertUtf16ToUtf8Buffer out8 k us (of_nat (2 * length us))
             = Some (ok, of_nat (length (utf8_of_utf16 us)), out')
           \<and> (ok \<longleftrightarrow> length (utf8_of_utf16 us) \<le> unat k) \<and> length out' = length out8
           \<and> drop (unat k) out' = drop (unat k) out8
           \<and> (ok \<longrightarrow> out' = map Some (utf8_of_utf16 us) @ drop (length (utf8_of_utf16 us)) out8))"
proof -
  have "unat (of_nat (length bs) :: ulong64) = length bs" "unat (of_nat (2 * length us) :: ulong64) = 2 * length us"
    using assms by (intro unat_of_nat_small; simp)+
  then show ?thesis
    using assms by (intro conjI utf8_buffer utf16_buffer) simp_all
qed

theorem PhConvertUtfBuffer_bounds_witness:
  "(\<exists>ok out'. PhConvertUtf8ToUtf16Buffer [None, Some 7] 2 [0x41, 0x42] (of_nat (length [0x41, 0x42 :: uchar]))
             = Some (ok, of_nat (2 * length (utf16_of_utf8 [0x41, 0x42])), out')
           \<and> (ok \<longleftrightarrow> 2 * length (utf16_of_utf8 [0x41, 0x42]) \<le> unat (2 :: ulong64)) \<and> length out' = length [None, Some (7 :: wchar)]
           \<and> drop (unat (2 :: ulong64) div 2) out' = drop (unat (2 :: ulong64) div 2) [None, Some 7]
           \<and> (ok \<longrightarrow> out' = map Some (utf16_of_utf8 [0x41, 0x42]) @ drop (length (utf16_of_utf8 [0x41, 0x42])) [None, Some 7]))
       \<and> (\<exists>ok out'. PhConvertUtf16ToUtf8Buffer [None] 1 [0xe9] (of_nat (2 * length [0xe9 :: ushort]))
             = Some (ok, of_nat (length (utf8_of_utf16 [0xe9])), out')
           \<and> (ok \<longleftrightarrow> length (utf8_of_utf16 [0xe9]) \<le> unat (1 :: ulong64)) \<and> length out' = length [None :: uchar option]
           \<and> drop (unat (1 :: ulong64)) out' = drop (unat (1 :: ulong64)) [None]
           \<and> (ok \<longrightarrow> out' = map Some (utf8_of_utf16 [0xe9]) @ drop (length (utf8_of_utf16 [0xe9])) [None]))"
  by (rule PhConvertUtfBuffer_bounds) simp_all

text \<open>
  C38. The unrolled loop of the zero extension, with the jump into its remainder, converts every byte and
  nothing more; the conversion to ASCII replaces or drops each code point that is not ASCII, a surrogate
  pair as one, and its result fits the buffer of one byte for each unit, of which there are fewer than \<open>2 ^ 63\<close>.
\<close>

theorem PhZeroExtendToUtf16_correct:
  assumes "unat n = length input" "length input \<le> length out0" "unat len div 2 = length us" "length us < 2 ^ 63"
  shows "PhZeroExtendToUtf16Buffer input n out0
           = Some (map (\<lambda>b. Some (ucast b)) input @ drop (length input) out0)
       \<and> (\<exists>m. PhConvertUtf16ToAsciiEx us len r = Some (of_nat (length (ascii_of r (fst (decode_utf16 us)))), m)
             \<and> take (length (ascii_of r (fst (decode_utf16 us))) + 1) m
                = map Some (ascii_of r (fst (decode_utf16 us))) @ [Some 0]
             \<and> length m = length us + 1)"
  using zero_extend_all [OF assms(1,2)] utf16_to_ascii [OF assms(3,4)] by simp

theorem PhZeroExtendToUtf16_correct_witness:
  "PhZeroExtendToUtf16Buffer [1, 2, 3, 4, 5, 6] 6 (replicate 7 None)
           = Some (map (\<lambda>b. Some (ucast b)) [1, 2, 3, 4, 5, 6 :: uchar] @ drop (length [1, 2, 3, 4, 5, 6 :: uchar]) (replicate 7 None))
       \<and> (\<exists>m. PhConvertUtf16ToAsciiEx [0x41, 0xd83d, 0xde00] 6 0x3f
                = Some (of_nat (length (ascii_of 0x3f (fst (decode_utf16 [0x41, 0xd83d, 0xde00])))), m)
             \<and> take (length (ascii_of 0x3f (fst (decode_utf16 [0x41, 0xd83d, 0xde00]))) + 1) m
                = map Some (ascii_of 0x3f (fst (decode_utf16 [0x41, 0xd83d, 0xde00]))) @ [Some 0]
             \<and> length m = length [0x41, 0xd83d, 0xde00 :: ushort] + 1)"
  by (rule PhZeroExtendToUtf16_correct) simp_all

end
