(* ===== verification/PhHandleTable.thy ===== *)
theory PhHandleTable
  imports PhPrelude
begin

text \<open>
  The handle table of \<open>phlib/handle.c\<close> as one thread sees it that runs alone: an interlocked operation
  is then a plain one, a loop around a compare and exchange ends after one round, and the queued locks
  are free. A table has one to three levels of 256 entries. The blocks of a table have one owner each
  and never move, so that a table is the tree of its blocks, and a pointer to an entry is the handle
  value it belongs to. The result \<open>None\<close> of an operation is an access outside the blocks, or a wait that
  no one ends.
\<close>

section \<open>Entries\<close>

record handle_entry =
  he_Value :: ulong64
  he_Value2 :: ulong64

definition PH_HANDLE_TABLE_ENTRY_TYPE :: ulong64 where "PH_HANDLE_TABLE_ENTRY_TYPE = 1"
definition PH_HANDLE_TABLE_ENTRY_IN_USE :: ulong64 where "PH_HANDLE_TABLE_ENTRY_IN_USE = 0"
definition PH_HANDLE_TABLE_ENTRY_FREE :: ulong64 where "PH_HANDLE_TABLE_ENTRY_FREE = 1"
definition PH_HANDLE_TABLE_ENTRY_LOCKED :: ulong64 where "PH_HANDLE_TABLE_ENTRY_LOCKED = 2"
definition PH_HANDLE_VALUE_INVALID :: ulong where "PH_HANDLE_VALUE_INVALID = - 1"

lemmas handle_constants = PH_HANDLE_TABLE_ENTRY_TYPE_def PH_HANDLE_TABLE_ENTRY_IN_USE_def
  PH_HANDLE_TABLE_ENTRY_FREE_def PH_HANDLE_TABLE_ENTRY_LOCKED_def

text \<open>\<open>NextFreeValue\<close> shares the low half of \<open>Value2\<close>.\<close>

definition NextFreeValue :: "handle_entry \<Rightarrow> ulong" where
  "NextFreeValue e = ucast (he_Value2 e)"

definition set_NextFreeValue :: "ulong \<Rightarrow> handle_entry \<Rightarrow> handle_entry" where
  "set_NextFreeValue n e = e\<lparr>he_Value2 := (he_Value2 e AND NOT 0xffffffff) OR ucast n\<rparr>"

definition PhpEncodeHandle :: "ulong \<Rightarrow> ulong64" where
  "PhpEncodeHandle handleValue = ucast (push_bit 2 handleValue + 4)"

definition PhpDecodeHandle :: "ulong64 \<Rightarrow> ulong" where
  "PhpDecodeHandle h = drop_bit 2 (ucast h - 4)"

section \<open>The table\<close>

type_synonym block = "handle_entry list"

datatype table =
    Level0 block
  | Level1 "block option list"
  | Level2 "block option list option list"

record PH_HANDLE_TABLE =
  ht_Count :: ulong
  ht_Table :: table
  ht_FreeValue :: ulong
  ht_NextValue :: ulong
  ht_FreeValueAlt :: ulong
  ht_Flags :: ulong

definition PH_HANDLE_VALUE_LEVEL0 :: "ulong \<Rightarrow> ulong" where
  "PH_HANDLE_VALUE_LEVEL0 v = v AND 0xff"

definition PH_HANDLE_VALUE_LEVEL1_U :: "ulong \<Rightarrow> ulong" where
  "PH_HANDLE_VALUE_LEVEL1_U v = drop_bit 8 v"

definition PH_HANDLE_VALUE_LEVEL1 :: "ulong \<Rightarrow> ulong" where
  "PH_HANDLE_VALUE_LEVEL1 v = PH_HANDLE_VALUE_LEVEL1_U v AND 0xff"

definition PH_HANDLE_VALUE_LEVEL2_U :: "ulong \<Rightarrow> ulong" where
  "PH_HANDLE_VALUE_LEVEL2_U v = drop_bit 16 v"

text \<open>An array access, a dereferenced pointer of an array of pointers.\<close>

definition at :: "'a list \<Rightarrow> ulong \<Rightarrow> 'a option" where
  "at xs i = (if unat i < length xs then Some (xs ! unat i) else None)"

definition deref_pointer :: "'a option list \<Rightarrow> ulong \<Rightarrow> 'a option" where
  "deref_pointer xs i = Option.bind (at xs i) (\<lambda>p. p)"

text \<open>The entry of a handle value: the walk of \<open>PhpLookupHandleTableEntry\<close> through the levels.\<close>

definition get_entry :: "table \<Rightarrow> ulong \<Rightarrow> handle_entry option" where
  "get_entry t v =
     (case t of
        Level0 table0 \<Rightarrow> at table0 v
      | Level1 table1 \<Rightarrow>
          Option.bind (deref_pointer table1 (PH_HANDLE_VALUE_LEVEL1_U v)) (\<lambda>table0.
          at table0 (PH_HANDLE_VALUE_LEVEL0 v))
      | Level2 table2 \<Rightarrow>
          Option.bind (deref_pointer table2 (PH_HANDLE_VALUE_LEVEL2_U v)) (\<lambda>table1.
          Option.bind (deref_pointer table1 (PH_HANDLE_VALUE_LEVEL1 v)) (\<lambda>table0.
          at table0 (PH_HANDLE_VALUE_LEVEL0 v))))"

text \<open>A write to the entry a pointer was looked up for.\<close>

definition put :: "'a list \<Rightarrow> ulong \<Rightarrow> 'a \<Rightarrow> 'a list option" where
  "put xs i x = (if unat i < length xs then Some (xs[unat i := x]) else None)"

definition set_entry :: "table \<Rightarrow> ulong \<Rightarrow> handle_entry \<Rightarrow> table option" where
  "set_entry t v e =
     (case t of
        Level0 table0 \<Rightarrow> map_option Level0 (put table0 v e)
      | Level1 table1 \<Rightarrow>
          Option.bind (deref_pointer table1 (PH_HANDLE_VALUE_LEVEL1_U v)) (\<lambda>table0.
          Option.bind (put table0 (PH_HANDLE_VALUE_LEVEL0 v) e) (\<lambda>table0.
          map_option Level1 (put table1 (PH_HANDLE_VALUE_LEVEL1_U v) (Some table0))))
      | Level2 table2 \<Rightarrow>
          Option.bind (deref_pointer table2 (PH_HANDLE_VALUE_LEVEL2_U v)) (\<lambda>table1.
          Option.bind (deref_pointer table1 (PH_HANDLE_VALUE_LEVEL1 v)) (\<lambda>table0.
          Option.bind (put table0 (PH_HANDLE_VALUE_LEVEL0 v) e) (\<lambda>table0.
          Option.bind (put table1 (PH_HANDLE_VALUE_LEVEL1 v) (Some table0)) (\<lambda>table1.
          map_option Level2 (put table2 (PH_HANDLE_VALUE_LEVEL2_U v) (Some table1)))))))"

definition update_entry :: "PH_HANDLE_TABLE \<Rightarrow> ulong \<Rightarrow> (handle_entry \<Rightarrow> handle_entry) \<Rightarrow> PH_HANDLE_TABLE option" where
  "update_entry H v f =
     Option.bind (get_entry (ht_Table H) v) (\<lambda>e.
     map_option (\<lambda>t. H\<lparr>ht_Table := t\<rparr>) (set_entry (ht_Table H) v (f e)))"

text \<open>The pointer that the code returns, \<open>NULL\<close> (\<open>Some None\<close>) for a value that is out of range.\<close>

definition PhpLookupHandleTableEntry :: "PH_HANDLE_TABLE \<Rightarrow> ulong \<Rightarrow> ulong option option" where
  "PhpLookupHandleTableEntry H handleValue =
     (if handleValue \<ge> ht_NextValue H then Some None
      else map_option (\<lambda>e. Some handleValue) (get_entry (ht_Table H) handleValue))"

section \<open>Blocks\<close>

text \<open>
  What the allocator gives: a block of entries of unknown contents, or nothing when memory is exhausted
  (\<open>PH_HANDLE_TABLE_SAFE\<close>), and whether a table of the first and of the second level can be allocated.
\<close>

record allocation =
  al_Level0 :: "block option"
  al_Level1 :: bool
  al_Level2 :: bool

fun init_entries :: "block \<Rightarrow> ulong \<Rightarrow> block" where
  "init_entries [] i = []"
| "init_entries [e] i = [set_NextFreeValue PH_HANDLE_VALUE_INVALID (e\<lparr>he_Value := PH_HANDLE_TABLE_ENTRY_FREE\<rparr>)]"
| "init_entries (e # es) i =
     set_NextFreeValue i (e\<lparr>he_Value := PH_HANDLE_TABLE_ENTRY_FREE\<rparr>) # init_entries es (i + 1)"

definition PhpCreateHandleTableLevel0 :: "allocation \<Rightarrow> ulong \<Rightarrow> bool \<Rightarrow> block option" where
  "PhpCreateHandleTableLevel0 a nextValue initialize =
     map_option (\<lambda>table. if initialize then init_entries table (nextValue + 1) else table) (al_Level0 a)"

definition PhpCreateHandleTableLevel1 :: "allocation \<Rightarrow> block option list option" where
  "PhpCreateHandleTableLevel1 a = (if al_Level1 a then Some (replicate 256 None) else None)"

definition PhpCreateHandleTableLevel2 :: "allocation \<Rightarrow> block option list option list option" where
  "PhpCreateHandleTableLevel2 a = (if al_Level2 a then Some (replicate 256 None) else None)"

definition PhCreateHandleTable :: "allocation \<Rightarrow> PH_HANDLE_TABLE option" where
  "PhCreateHandleTable a =
     map_option (\<lambda>table0.
       \<lparr> ht_Count = 0, ht_Table = Level0 table0, ht_FreeValue = 0, ht_NextValue = 256,
         ht_FreeValueAlt = PH_HANDLE_VALUE_INVALID, ht_Flags = 0 \<rparr>)
       (PhpCreateHandleTableLevel0 a 0 True)"

text \<open>The blocks of entries that \<open>PhDestroyHandleTable\<close> gives back, in order.\<close>

definition free_blocks :: "block option list \<Rightarrow> block list" where
  "free_blocks table1 = map the (takeWhile (\<lambda>p. p \<noteq> None) table1)"

definition PhDestroyHandleTable :: "PH_HANDLE_TABLE \<Rightarrow> block list" where
  "PhDestroyHandleTable H =
     (case ht_Table H of
        Level0 table0 \<Rightarrow> [table0]
      | Level1 table1 \<Rightarrow> free_blocks table1
      | Level2 table2 \<Rightarrow> concat (map (\<lambda>p. free_blocks (the p)) (takeWhile (\<lambda>p. p \<noteq> None) table2)))"

text \<open>The part of \<open>PhpAllocateMoreHandleTableEntries\<close> that puts a new block into the tree.\<close>

definition add_block :: "allocation \<Rightarrow> PH_HANDLE_TABLE \<Rightarrow> bool \<Rightarrow> table option" where
  "add_block a H initialize =
     (case ht_Table H of
        Level0 table0 \<Rightarrow>
          Option.bind (PhpCreateHandleTableLevel1 a) (\<lambda>table1.
          Option.bind (PhpCreateHandleTableLevel0 a (ht_NextValue H) initialize) (\<lambda>new.
          Some (Level1 (table1[0 := Some table0, 1 := Some new]))))
      | Level1 table1 \<Rightarrow>
          (let i = ht_NextValue H div 256
           in if i < 256 then
                Option.bind (PhpCreateHandleTableLevel0 a (ht_NextValue H) True) (\<lambda>new.
                Some (Level1 (table1[unat i := Some new])))
              else
                Option.bind (PhpCreateHandleTableLevel2 a) (\<lambda>table2.
                Option.bind (PhpCreateHandleTableLevel1 a) (\<lambda>newTable1.
                Option.bind (PhpCreateHandleTableLevel0 a (ht_NextValue H) initialize) (\<lambda>new.
                Some (Level2 (table2[0 := Some table1, 1 := Some (newTable1[0 := Some new])]))))))
      | Level2 table2 \<Rightarrow>
          (let i = ht_NextValue H div (256 * 256)
           in if i \<ge> 256 then None
              else
                (case table2 ! unat i of
                   Some table1 \<Rightarrow>
                     Option.bind (PhpCreateHandleTableLevel0 a (ht_NextValue H) initialize) (\<lambda>new.
                     let j = (ht_NextValue H - i * (256 * 256)) div 256
                     in Some (Level2 (table2[unat i := Some (table1[unat j := Some new])])))
                 | None \<Rightarrow>
                     Option.bind (PhpCreateHandleTableLevel1 a) (\<lambda>table1.
                     Option.bind (PhpCreateHandleTableLevel0 a (ht_NextValue H) True) (\<lambda>new.
                     Some (Level2 (table2[unat i := Some (table1[0 := Some new])])))))))"

definition PhpAllocateMoreHandleTableEntries ::
    "allocation \<Rightarrow> PH_HANDLE_TABLE \<Rightarrow> bool \<Rightarrow> (bool \<times> PH_HANDLE_TABLE) option" where
  "PhpAllocateMoreHandleTableEntries a H initialize =
     (case add_block a H initialize of
        None \<Rightarrow> Some (False, H)
      | Some t \<Rightarrow>
          (let oldNextValue = ht_NextValue H;
               H = H\<lparr>ht_Table := t, ht_NextValue := oldNextValue + 256\<rparr>
           in if initialize then
                Option.bind (update_entry H (oldNextValue + 255) (set_NextFreeValue (ht_FreeValue H))) (\<lambda>H.
                Some (True, H\<lparr>ht_FreeValue := oldNextValue\<rparr>))
              else Some (True, H)))"

section \<open>Locking an entry\<close>

text \<open>
  The bit says that the entry is not locked. An entry that is in use and locked makes the caller wait
  for the thread that holds it.
\<close>

definition PhLockHandleTableEntry :: "PH_HANDLE_TABLE \<Rightarrow> ulong \<Rightarrow> (bool \<times> PH_HANDLE_TABLE) option" where
  "PhLockHandleTableEntry H entry =
     Option.bind (get_entry (ht_Table H) entry) (\<lambda>e.
       let v = he_Value e
       in if v AND PH_HANDLE_TABLE_ENTRY_TYPE \<noteq> PH_HANDLE_TABLE_ENTRY_IN_USE then Some (False, H)
          else if v AND PH_HANDLE_TABLE_ENTRY_LOCKED \<noteq> 0 then
            map_option (Pair True) (update_entry H entry (\<lambda>e. e\<lparr>he_Value := v - PH_HANDLE_TABLE_ENTRY_LOCKED\<rparr>))
          else None)"

definition PhUnlockHandleTableEntry :: "PH_HANDLE_TABLE \<Rightarrow> ulong \<Rightarrow> PH_HANDLE_TABLE option" where
  "PhUnlockHandleTableEntry H entry =
     update_entry H entry (\<lambda>e. e\<lparr>he_Value := he_Value e OR PH_HANDLE_TABLE_ENTRY_LOCKED\<rparr>)"

section \<open>The free lists\<close>

definition PH_HANDLE_TABLE_STRICT_FIFO :: ulong where "PH_HANDLE_TABLE_STRICT_FIFO = 1"
definition PH_HANDLE_TABLE_VALID_FLAGS :: ulong where "PH_HANDLE_TABLE_VALID_FLAGS = 1"
definition PH_HANDLE_TABLE_FREE_COUNT :: ulong where "PH_HANDLE_TABLE_FREE_COUNT = 64"

abbreviation strict_fifo :: "PH_HANDLE_TABLE \<Rightarrow> bool" where
  "strict_fifo H \<equiv> ht_Flags H AND PH_HANDLE_TABLE_STRICT_FIFO \<noteq> 0"

text \<open>The reversal of a chain: the new first index, the first entry that was met, and the number.\<close>

partial_function (option) reverse_loop ::
    "PH_HANDLE_TABLE \<Rightarrow> ulong \<Rightarrow> ulong \<Rightarrow> ulong \<Rightarrow> ulong \<Rightarrow> (ulong \<times> ulong \<times> ulong \<times> PH_HANDLE_TABLE) option" where
  "reverse_loop H index lastIndex firstEntry count =
     Option.bind (PhpLookupHandleTableEntry H index) (\<lambda>entry.
     Option.bind entry (\<lambda>entry.
     Option.bind (get_entry (ht_Table H) entry) (\<lambda>e.
       let count = count + 1;
           firstEntry = (if lastIndex = PH_HANDLE_VALUE_INVALID then entry else firstEntry);
           nextIndex = NextFreeValue e
       in Option.bind (update_entry H entry (set_NextFreeValue lastIndex)) (\<lambda>H.
          if nextIndex = PH_HANDLE_VALUE_INVALID then Some (index, firstEntry, count, H)
          else reverse_loop H nextIndex index firstEntry count))))"

definition PhpMoveFreeHandleTableEntries :: "PH_HANDLE_TABLE \<Rightarrow> (ulong \<times> PH_HANDLE_TABLE) option" where
  "PhpMoveFreeHandleTableEntries H =
     (let freeValueAlt = ht_FreeValueAlt H;
          H = H\<lparr>ht_FreeValueAlt := PH_HANDLE_VALUE_INVALID\<rparr>
      in if freeValueAlt = PH_HANDLE_VALUE_INVALID then Some (PH_HANDLE_VALUE_INVALID, H)
         else if \<not> strict_fifo H \<and> ht_FreeValue H = PH_HANDLE_VALUE_INVALID then
           Some (freeValueAlt, H\<lparr>ht_FreeValue := freeValueAlt\<rparr>)
         else
           Option.bind (reverse_loop H freeValueAlt PH_HANDLE_VALUE_INVALID 0 0) (\<lambda>(index, firstEntry, count, H).
           Option.bind (update_entry H firstEntry (set_NextFreeValue (ht_FreeValue H))) (\<lambda>H.
             let H = H\<lparr>ht_FreeValue := index\<rparr>
             in Some (if strict_fifo H \<and> count < PH_HANDLE_TABLE_FREE_COUNT
                      then PH_HANDLE_VALUE_INVALID else index, H))))"

text \<open>
  The inner loop of \<open>PhpAllocateHandleTableEntry\<close>: a free value, or \<open>Some None\<close> for the return of \<open>NULL\<close>.
\<close>

partial_function (option) free_value_loop ::
    "allocation \<Rightarrow> PH_HANDLE_TABLE \<Rightarrow> ulong \<Rightarrow> (ulong option \<times> PH_HANDLE_TABLE) option" where
  "free_value_loop a H freeValue =
     (if freeValue = PH_HANDLE_VALUE_INVALID then
        let freeValue = ht_FreeValue H
        in if freeValue \<noteq> PH_HANDLE_VALUE_INVALID then Some (Some freeValue, H)
           else
             Option.bind (PhpMoveFreeHandleTableEntries H) (\<lambda>(freeValue, H).
             if freeValue \<noteq> PH_HANDLE_VALUE_INVALID then Some (Some freeValue, H)
             else
               Option.bind (PhpAllocateMoreHandleTableEntries a H True) (\<lambda>(result, H).
                 let freeValue = ht_FreeValue H
                 in if \<not> result \<and> freeValue = PH_HANDLE_VALUE_INVALID then Some (None, H)
                    else free_value_loop a H freeValue))
      else Some (Some freeValue, H))"

definition PhpAllocateHandleTableEntry ::
    "allocation \<Rightarrow> PH_HANDLE_TABLE \<Rightarrow> (ulong option \<times> PH_HANDLE_TABLE) option" where
  "PhpAllocateHandleTableEntry a H =
     Option.bind (free_value_loop a H (ht_FreeValue H)) (\<lambda>(freeValue, H).
       case freeValue of
         None \<Rightarrow> Some (None, H)
       | Some freeValue \<Rightarrow>
           Option.bind (PhpLookupHandleTableEntry H freeValue) (\<lambda>entry.
           Option.bind entry (\<lambda>entry.
           Option.bind (get_entry (ht_Table H) entry) (\<lambda>e.
           Some (Some freeValue, H\<lparr>ht_FreeValue := NextFreeValue e, ht_Count := ht_Count H + 1\<rparr>)))))"

definition PhpFreeHandleTableEntry :: "PH_HANDLE_TABLE \<Rightarrow> ulong \<Rightarrow> ulong \<Rightarrow> PH_HANDLE_TABLE option" where
  "PhpFreeHandleTableEntry H handleValue entry =
     (let H = H\<lparr>ht_Count := ht_Count H - 1\<rparr>
      in if \<not> strict_fifo H then
           map_option (\<lambda>H. H\<lparr>ht_FreeValue := handleValue\<rparr>)
             (update_entry H entry (set_NextFreeValue (ht_FreeValue H)))
         else
           map_option (\<lambda>H. H\<lparr>ht_FreeValueAlt := handleValue\<rparr>)
             (update_entry H entry (set_NextFreeValue (ht_FreeValueAlt H))))"

section \<open>Handles\<close>

text \<open>A handle of 0 is \<open>NULL\<close>.\<close>

definition PhCreateHandle :: "allocation \<Rightarrow> PH_HANDLE_TABLE \<Rightarrow> handle_entry \<Rightarrow> (ulong64 \<times> PH_HANDLE_TABLE) option" where
  "PhCreateHandle a H entry =
     Option.bind (PhpAllocateHandleTableEntry a H) (\<lambda>(handleValue, H).
       case handleValue of
         None \<Rightarrow> Some (0, H)
       | Some handleValue \<Rightarrow>
           Option.bind (update_entry H handleValue (\<lambda>e.
               e\<lparr>he_Value := (he_Value e AND PH_HANDLE_TABLE_ENTRY_LOCKED) OR (he_Value entry AND NOT 3),
                 he_Value2 := he_Value2 entry\<rparr>)) (\<lambda>H.
           Option.bind (PhUnlockHandleTableEntry H handleValue) (\<lambda>H.
           Some (PhpEncodeHandle handleValue, H))))"

definition PhDestroyHandle ::
    "PH_HANDLE_TABLE \<Rightarrow> ulong64 \<Rightarrow> ulong option \<Rightarrow> (bool \<times> PH_HANDLE_TABLE) option" where
  "PhDestroyHandle H h handleTableEntry =
     (let handleValue = PhpDecodeHandle h
      in Option.bind
           (case handleTableEntry of
              Some entry \<Rightarrow> Some (Some entry, H)
            | None \<Rightarrow>
                Option.bind (PhpLookupHandleTableEntry H handleValue) (\<lambda>entry.
                  case entry of
                    None \<Rightarrow> Some (None, H)
                  | Some entry \<Rightarrow>
                      map_option (\<lambda>(locked, H). (if locked then Some entry else None, H))
                        (PhLockHandleTableEntry H entry)))
           (\<lambda>(entry, H).
              case entry of
                None \<Rightarrow> Some (False, H)
              | Some entry \<Rightarrow>
                  Option.bind (update_entry H entry (\<lambda>e. e\<lparr>he_Value := PH_HANDLE_TABLE_ENTRY_FREE\<rparr>)) (\<lambda>H.
                  map_option (Pair True) (PhpFreeHandleTableEntry H handleValue entry))))"

definition PhLookupHandleTableEntry :: "PH_HANDLE_TABLE \<Rightarrow> ulong64 \<Rightarrow> (ulong option \<times> PH_HANDLE_TABLE) option" where
  "PhLookupHandleTableEntry H h =
     Option.bind (PhpLookupHandleTableEntry H (PhpDecodeHandle h)) (\<lambda>entry.
       case entry of
         None \<Rightarrow> Some (None, H)
       | Some entry \<Rightarrow>
           map_option (\<lambda>(locked, H). (if locked then Some entry else None, H))
             (PhLockHandleTableEntry H entry))"

text \<open>
  The callback of the enumerations gets the handle and the entry, which it does not change, and a
  context of its own; it says whether to continue.
\<close>

partial_function (option) enum_handles_loop ::
    "(ulong64 \<Rightarrow> handle_entry \<Rightarrow> 'c \<Rightarrow> bool \<times> 'c) \<Rightarrow> PH_HANDLE_TABLE \<Rightarrow> ulong \<Rightarrow> 'c \<Rightarrow> (PH_HANDLE_TABLE \<times> 'c) option" where
  "enum_handles_loop callback H handleValue c =
     Option.bind (PhpLookupHandleTableEntry H handleValue) (\<lambda>entry.
       case entry of
         None \<Rightarrow> Some (H, c)
       | Some entry \<Rightarrow>
           Option.bind (PhLockHandleTableEntry H entry) (\<lambda>(locked, H).
             if locked then
               Option.bind (get_entry (ht_Table H) entry) (\<lambda>e.
                 let r = callback (PhpEncodeHandle handleValue) e c
                 in Option.bind (PhUnlockHandleTableEntry H entry) (\<lambda>H.
                    if fst r then enum_handles_loop callback H (handleValue + 1) (snd r) else Some (H, snd r)))
             else enum_handles_loop callback H (handleValue + 1) c))"

definition PhEnumHandleTable ::
    "(ulong64 \<Rightarrow> handle_entry \<Rightarrow> 'c \<Rightarrow> bool \<times> 'c) \<Rightarrow> PH_HANDLE_TABLE \<Rightarrow> 'c \<Rightarrow> (PH_HANDLE_TABLE \<times> 'c) option" where
  "PhEnumHandleTable callback H c = enum_handles_loop callback H 0 c"

partial_function (option) sweep_loop ::
    "(ulong64 \<Rightarrow> handle_entry \<Rightarrow> 'c \<Rightarrow> bool \<times> 'c) \<Rightarrow> PH_HANDLE_TABLE \<Rightarrow> ulong \<Rightarrow> 'c \<Rightarrow> 'c option" where
  "sweep_loop callback H handleValue c =
     Option.bind (PhpLookupHandleTableEntry H handleValue) (\<lambda>entry.
       case entry of
         None \<Rightarrow> Some c
       | Some entry \<Rightarrow>
           Option.bind (get_entry (ht_Table H) entry) (\<lambda>e.
             if he_Value e AND PH_HANDLE_TABLE_ENTRY_TYPE = PH_HANDLE_TABLE_ENTRY_IN_USE then
               let r = callback (PhpEncodeHandle handleValue) e c
               in if fst r then sweep_loop callback H (handleValue + 1) (snd r) else Some (snd r)
             else sweep_loop callback H (handleValue + 1) c))"

definition PhSweepHandleTable ::
    "(ulong64 \<Rightarrow> handle_entry \<Rightarrow> 'c \<Rightarrow> bool \<times> 'c) \<Rightarrow> PH_HANDLE_TABLE \<Rightarrow> 'c \<Rightarrow> 'c option" where
  "PhSweepHandleTable callback H c = sweep_loop callback H 0 c"

section \<open>Information\<close>

datatype information_class = HandleTableBasicInformation | HandleTableFlagsInformation | MaxHandleTableInfoClass

record PH_HANDLE_TABLE_BASIC_INFORMATION =
  bi_Count :: ulong
  bi_Flags :: ulong
  bi_TableLevel :: ulong

datatype information = BasicInformation PH_HANDLE_TABLE_BASIC_INFORMATION | FlagsInformation ulong

definition table_level :: "table \<Rightarrow> ulong" where
  "table_level t = (case t of Level0 _ \<Rightarrow> 0 | Level1 _ \<Rightarrow> 1 | Level2 _ \<Rightarrow> 2)"

text \<open>The status, the return length, and what is written to the buffer.\<close>

definition PhQueryInformationHandleTable ::
    "PH_HANDLE_TABLE \<Rightarrow> information_class \<Rightarrow> ulong \<Rightarrow> ntstatus \<times> ulong \<times> information option" where
  "PhQueryInformationHandleTable H c bufferLength =
     (case c of
        HandleTableBasicInformation \<Rightarrow>
          (if bufferLength = 12
           then (STATUS_SUCCESS, 12,
                 Some (BasicInformation \<lparr> bi_Count = ht_Count H, bi_Flags = ht_Flags H,
                                          bi_TableLevel = table_level (ht_Table H) \<rparr>))
           else (STATUS_INFO_LENGTH_MISMATCH, 12, None))
      | HandleTableFlagsInformation \<Rightarrow>
          (if bufferLength = 4 then (STATUS_SUCCESS, 4, Some (FlagsInformation (ht_Flags H)))
           else (STATUS_INFO_LENGTH_MISMATCH, 4, None))
      | MaxHandleTableInfoClass \<Rightarrow> (STATUS_INVALID_INFO_CLASS, 0, None))"

definition PhSetInformationHandleTable ::
    "PH_HANDLE_TABLE \<Rightarrow> information_class \<Rightarrow> ulong \<Rightarrow> ulong \<Rightarrow> ntstatus \<times> PH_HANDLE_TABLE" where
  "PhSetInformationHandleTable H c flags bufferLength =
     (case c of
        HandleTableFlagsInformation \<Rightarrow>
          (if bufferLength = 4 then
             if flags AND PH_HANDLE_TABLE_VALID_FLAGS = flags then (STATUS_SUCCESS, H\<lparr>ht_Flags := flags\<rparr>)
             else (STATUS_INVALID_PARAMETER, H)
           else (STATUS_INFO_LENGTH_MISMATCH, H))
      | _ \<Rightarrow> (STATUS_INVALID_INFO_CLASS, H))"

end
