(* ===== verification/PhHandleShape.thy ===== *)
theory PhHandleShape
  imports PhHandleTable
begin

text \<open>
  The tree of blocks of a handle table as the list of its entries: reading and writing an entry through
  the levels is indexing and updating the list, and a new block is appended to it.
\<close>

section \<open>Arrays of pointers\<close>

text \<open>An array of 256 pointers of which the first ones are set.\<close>

definition pointers :: "'a list \<Rightarrow> 'a option list" where
  "pointers xs = map Some xs @ replicate (256 - length xs) None"

lemma pointers_length: "length xs \<le> 256 \<Longrightarrow> length (pointers xs) = 256"
  by (simp add: pointers_def)

lemma pointers_at: "length xs \<le> 256 \<Longrightarrow> i < 256 \<Longrightarrow> pointers xs ! i = (if i < length xs then Some (xs ! i) else None)"
  by (simp add: pointers_def nth_append)

lemma pointers_update: "i < length xs \<Longrightarrow> (pointers xs)[i := Some x] = pointers (xs[i := x])"
  by (simp add: pointers_def list_update_append map_update)

lemma pointers_append:
  assumes "length xs < 256"
  shows "(pointers xs)[length xs := Some x] = pointers (xs @ [x])"
proof -
  have "replicate (256 - length xs) (None :: 'a option) = None # replicate (256 - length (xs @ [x])) None"
    using assms by (simp flip: replicate_Suc add: Suc_diff_Suc)
  then show ?thesis by (simp add: pointers_def list_update_append)
qed

lemma pointers_Nil: "pointers [] = replicate 256 None"
  by (simp add: pointers_def)

lemma takeWhile_pointers: "map the (takeWhile (\<lambda>p. p \<noteq> None) (pointers xs)) = xs"
proof -
  have "map the (takeWhile (\<lambda>p. p \<noteq> None) (map Some xs @ replicate n None)) = xs" for n
    by (induction xs) (cases n, simp_all)
  then show ?thesis by (simp add: pointers_def)
qed

section \<open>Chunks\<close>

text \<open>The blocks below one table of the first level, and how many such tables there are.\<close>

definition chunk :: "nat \<Rightarrow> 'a list \<Rightarrow> 'a list" where
  "chunk i xs = take 256 (drop (256 * i) xs)"

definition chunks :: "'a list \<Rightarrow> 'a list list" where
  "chunks xs = map (\<lambda>i. chunk i xs) [0..<(length xs + 255) div 256]"

lemma chunk_length: "length (chunk i xs) = min 256 (length xs - 256 * i)"
  by (simp add: chunk_def)

lemma chunk_nth:
  assumes "j < length (chunk i xs)"
  shows "chunk i xs ! j = xs ! (256 * i + j)"
proof -
  have "j < 256" "j < length xs - 256 * i" using assms by (simp_all add: chunk_length)
  moreover from this have "256 * i \<le> length xs" by linarith
  ultimately show ?thesis by (simp add: chunk_def)
qed

lemma quotient_next:
  fixes n :: nat
  assumes "n mod 256 \<noteq> 0"
  shows "(n + 255) div 256 = Suc (n div 256)"
proof -
  define q m where "q = n div 256" and "m = n mod 256"
  have n: "n = 256 * q + m" "0 < m" "m < 256" using assms by (simp_all add: q_def m_def)
  then have "(256 * q + m + 255) div 256 = Suc q" by (intro div_nat_eqI) simp_all
  then have "(n + 255) div 256 = Suc q" by (simp only: n(1))
  then show ?thesis by (simp only: q_def)
qed

lemma position_256: "j < 256 \<Longrightarrow> 256 * i + j = k \<longleftrightarrow> i = k div 256 \<and> j = k mod 256" for i j k :: nat
  by auto

lemma chunk_update:
  assumes "k < length xs"
  shows "chunk i (xs[k := x]) = (if i = k div 256 then (chunk i xs)[k mod 256 := x] else chunk i xs)"
proof (rule nth_equalityI)
  show "length (chunk i (xs[k := x])) = length (if i = k div 256 then (chunk i xs)[k mod 256 := x] else chunk i xs)"
    by (simp add: chunk_length)
next
  fix j assume "j < length (chunk i (xs[k := x]))"
  then have j: "j < length (chunk i xs)" "j < 256" "256 * i + j < length xs"
    by (auto simp: chunk_length)
  then have "chunk i (xs[k := x]) ! j = xs[k := x] ! (256 * i + j)"
    by (simp add: chunk_nth chunk_length)
  also have "\<dots> = (if i = k div 256 \<and> j = k mod 256 then x else xs ! (256 * i + j))"
    using j(3) position_256 [OF j(2), of i k] by (auto simp: nth_list_update simp del: mult_div_mod_eq)
  also have "\<dots> = (if i = k div 256 then (chunk i xs)[k mod 256 := x] else chunk i xs) ! j"
    using j(1) by (auto simp: chunk_nth nth_list_update)
  finally show "chunk i (xs[k := x]) ! j = (if i = k div 256 then (chunk i xs)[k mod 256 := x] else chunk i xs) ! j" .
qed

lemma chunks_length: "length (chunks xs) = (length xs + 255) div 256"
  by (simp add: chunks_def)

lemma chunks_nth: "i < length (chunks xs) \<Longrightarrow> chunks xs ! i = chunk i xs"
  by (simp add: chunks_def)

lemma chunks_index: "k < length xs \<Longrightarrow> k div 256 < length (chunks xs)"
  by (simp add: chunks_length)

lemma chunks_update:
  assumes "k < length xs"
  shows "chunks (xs[k := x]) = (chunks xs)[k div 256 := (chunk (k div 256) xs)[k mod 256 := x]]"
  using chunks_index [OF assms] assms
  by (intro nth_equalityI) (auto simp: chunks_length chunks_nth chunk_update nth_list_update)

lemma chunks_append_new:
  assumes "length xs mod 256 = 0"
  shows "chunks (xs @ [x]) = chunks xs @ [[x]]"
proof -
  obtain m where m: "length xs = 256 * m" using assms by auto
  have "chunk i (xs @ [x]) = chunk i xs" if "i < m" for i
    using that m by (simp add: chunk_def)
  moreover have "chunk m (xs @ [x]) = [x]" using m by (simp add: chunk_def)
  ultimately show ?thesis using m by (simp add: chunks_def)
qed

lemma chunks_append:
  assumes "length xs mod 256 \<noteq> 0"
  shows "chunks (xs @ [x]) = (chunks xs)[length xs div 256 := chunk (length xs div 256) xs @ [x]]"
proof -
  let ?m = "length xs div 256"
  have len: "length (chunks (xs @ [x])) = Suc ?m" "length (chunks xs) = Suc ?m"
    using quotient_next [OF assms] assms by (simp_all add: chunks_length)
  have "chunk i (xs @ [x]) = chunk i xs" if "i < ?m" for i
    using that by (simp add: chunk_def)
  moreover have "chunk ?m (xs @ [x]) = chunk ?m xs @ [x]"
  proof -
    have "length xs - 256 * ?m < 256" by (simp add: minus_mult_div_eq_mod)
    then show ?thesis by (simp add: chunk_def)
  qed
  ultimately show ?thesis
    using len by (intro nth_equalityI) (auto simp: chunks_nth nth_list_update less_Suc_eq)
qed

lemma concat_chunks: "concat (chunks xs) = xs"
proof (induction xs rule: rev_induct)
  case Nil
  show ?case by (simp add: chunks_def)
next
  case (snoc x xs)
  show ?case
  proof (cases "length xs mod 256 = 0")
    case True
    with snoc show ?thesis by (simp add: chunks_append_new)
  next
    case False
    let ?m = "length xs div 256"
    have l: "length (chunks xs) = Suc ?m" using quotient_next [OF False] by (simp add: chunks_length)
    then have s: "chunks xs = take ?m (chunks xs) @ [chunk ?m xs]"
      by (metis chunks_nth lessI take_Suc_conv_app_nth take_all_iff order_refl)
    then have "(chunks xs)[?m := chunk ?m xs @ [x]] = take ?m (chunks xs) @ [chunk ?m xs @ [x]]"
      using l by (metis (no_types, lifting) length_take list_update_length min.absorb2 lessI less_imp_le_nat)
    with False s snoc show ?thesis
      by (metis (no_types, lifting) append_assoc chunks_append concat.simps(1) concat.simps(2) concat_append append_Nil2)
  qed
qed

section \<open>The entries of a table\<close>

text \<open>The blocks below a table, in order, and the list of all entries.\<close>

definition shape :: "table \<Rightarrow> block list \<Rightarrow> bool" where
  "shape t bs \<longleftrightarrow>
     t = Level0 (bs ! 0) \<and> length bs = 1
     \<or> t = Level1 (pointers bs) \<and> 1 < length bs \<and> length bs \<le> 256
     \<or> t = Level2 (pointers (map pointers (chunks bs))) \<and> 256 < length bs \<and> length bs \<le> 65536"

definition represents :: "table \<Rightarrow> handle_entry list \<Rightarrow> bool" where
  "represents t es \<longleftrightarrow> (\<exists>bs. shape t bs \<and> (\<forall>b\<in>set bs. length b = 256) \<and> es = concat bs)"

text \<open>The entries of a list of blocks.\<close>

lemma concat_256_length: "\<forall>b\<in>set bs. length b = 256 \<Longrightarrow> length (concat bs) = 256 * length bs"
  by (induction bs) auto

lemma concat_256_nth:
  "\<forall>b\<in>set bs. length b = 256 \<Longrightarrow> k < 256 * length bs \<Longrightarrow> concat bs ! k = bs ! (k div 256) ! (k mod 256)"
proof (induction bs arbitrary: k)
  case (Cons b bs)
  show ?case
  proof (cases "k < 256")
    case True
    with Cons.prems show ?thesis by (simp add: nth_append)
  next
    case False
    then obtain k' where k: "k = 256 + k'" by (metis le_Suc_ex not_less)
    then have "k div 256 = Suc (k' div 256)" "k mod 256 = k' mod 256" by simp_all
    with k Cons show ?thesis by (simp add: nth_append)
  qed
qed simp

lemma concat_256_update:
  assumes "\<forall>b\<in>set bs. length b = 256" and "k < 256 * length bs"
  shows "concat (bs[k div 256 := (bs ! (k div 256))[k mod 256 := x]]) = (concat bs)[k := x]"
  using assms
proof (induction bs arbitrary: k)
  case (Cons b bs)
  show ?case
  proof (cases "k < 256")
    case True
    with Cons.prems show ?thesis by (simp add: list_update_append)
  next
    case False
    then obtain k' where k: "k = 256 + k'" by (metis le_Suc_ex not_less)
    then have "k div 256 = Suc (k' div 256)" "k mod 256 = k' mod 256" by simp_all
    with k Cons show ?thesis by (simp add: list_update_append)
  qed
qed simp

lemma blocks_update:
  assumes "\<forall>b\<in>set bs. length b = 256" and "i < length bs"
  shows "\<forall>b\<in>set (bs[i := (bs ! i)[j := x]]). length b = 256"
proof -
  have "set (bs[i := (bs ! i)[j := x]]) \<subseteq> insert ((bs ! i)[j := x]) (set bs)"
    by (rule set_update_subset_insert)
  with assms show ?thesis by auto
qed

section \<open>Reading and writing through the levels\<close>

lemma level0_unat [word_nat]: "unat (PH_HANDLE_VALUE_LEVEL0 v) = unat v mod 256"
  using unat_and_mask [of v 8] by (simp add: PH_HANDLE_VALUE_LEVEL0_def mask_eq_exp_minus_1)

lemma level1_U_unat [word_nat]: "unat (PH_HANDLE_VALUE_LEVEL1_U v) = unat v div 256"
  by (simp add: PH_HANDLE_VALUE_LEVEL1_U_def drop_bit_eq_div unat_div)

lemma level1_unat [word_nat]: "unat (PH_HANDLE_VALUE_LEVEL1 v) = unat v div 256 mod 256"
  using unat_and_mask [of "PH_HANDLE_VALUE_LEVEL1_U v" 8]
  by (simp add: PH_HANDLE_VALUE_LEVEL1_def level1_U_unat mask_eq_exp_minus_1)

lemma level2_U_unat [word_nat]: "unat (PH_HANDLE_VALUE_LEVEL2_U v) = unat v div 256 div 256"
  by (simp add: PH_HANDLE_VALUE_LEVEL2_U_def drop_bit_eq_div unat_div div_mult2_eq [symmetric])

lemma deref_pointers:
  "length xs \<le> 256 \<Longrightarrow> unat i < length xs \<Longrightarrow> deref_pointer (pointers xs) i = Some (xs ! unat i)"
  by (simp add: deref_pointer_def at_def pointers_length pointers_at)

lemma put_pointers:
  "length xs \<le> 256 \<Longrightarrow> unat i < length xs \<Longrightarrow> put (pointers xs) i (Some x) = Some (pointers (xs[unat i := x]))"
  by (simp add: put_def pointers_length pointers_update)

lemma at_Some: "unat i < length xs \<Longrightarrow> at xs i = Some (xs ! unat i)"
  by (simp add: at_def)

lemma put_Some: "unat i < length xs \<Longrightarrow> put xs i x = Some (xs[unat i := x])"
  by (simp add: put_def)

lemma chunk_bound: "k < length xs \<Longrightarrow> k mod 256 < length (chunk (k div 256) xs)"
proof -
  assume k: "k < length xs"
  define q m where "q = k div 256" and "m = k mod 256"
  then have "k = 256 * q + m" "m < 256" by simp_all
  with k have "m < length (chunk q xs)" by (simp add: chunk_length)
  then show ?thesis by (simp add: q_def m_def)
qed

lemma chunk_at: "k < length xs \<Longrightarrow> chunk (k div 256) xs ! (k mod 256) = xs ! k"
  by (simp add: chunk_nth chunk_bound)

lemma chunks_small: "length xs \<le> 65536 \<Longrightarrow> length (chunks xs) \<le> 256"
  by (simp add: chunks_length)

lemma chunk_small: "length (chunk i xs) \<le> 256"
  by (simp add: chunk_length)

text \<open>The two accesses to a table of the second level.\<close>

lemma deref_chunks:
  assumes "length bs \<le> 65536" and "unat v div 256 < length bs"
  shows "deref_pointer (pointers (map pointers (chunks bs))) (PH_HANDLE_VALUE_LEVEL2_U v)
           = Some (pointers (chunk (unat v div 256 div 256) bs))"
  using chunks_small [OF assms(1)] chunks_index [OF assms(2)]
  by (simp add: deref_pointers word_nat chunks_nth)

lemma deref_chunk:
  assumes "unat v div 256 < length bs"
  shows "deref_pointer (pointers (chunk (unat v div 256 div 256) bs)) (PH_HANDLE_VALUE_LEVEL1 v)
           = Some (bs ! (unat v div 256))"
  using chunk_bound [OF assms] chunk_at [OF assms] by (simp add: deref_pointers chunk_small word_nat)

lemma get_shape:
  assumes "shape t bs" and "\<forall>b\<in>set bs. length b = 256" and "unat v < 256 * length bs"
  shows "get_entry t v = Some (bs ! (unat v div 256) ! (unat v mod 256))"
proof -
  have k: "unat v div 256 < length bs" using assms(3) by (simp add: less_mult_imp_div_less mult.commute)
  then have b: "length (bs ! (unat v div 256)) = 256" using assms(2) by simp
  from assms(1) consider
      "t = Level0 (bs ! 0)" "length bs = 1"
    | "t = Level1 (pointers bs)" "length bs \<le> 256"
    | "t = Level2 (pointers (map pointers (chunks bs)))" "length bs \<le> 65536"
    by (auto simp: shape_def)
  then show ?thesis
  proof cases
    case 1
    with assms b show ?thesis by (simp add: get_entry_def at_Some)
  next
    case 2
    with k b show ?thesis by (simp add: get_entry_def at_Some deref_pointers word_nat)
  next
    case 3
    with k b show ?thesis by (simp add: get_entry_def at_Some deref_chunks deref_chunk word_nat)
  qed
qed

lemma set_shape:
  assumes "shape t bs" and "\<forall>b\<in>set bs. length b = 256" and "unat v < 256 * length bs"
  shows "\<exists>t'. set_entry t v e = Some t'
    \<and> shape t' (bs[unat v div 256 := (bs ! (unat v div 256))[unat v mod 256 := e]])"
proof -
  have k: "unat v div 256 < length bs" using assms(3) by (simp add: less_mult_imp_div_less mult.commute)
  then have b: "length (bs ! (unat v div 256)) = 256" using assms(2) by simp
  from assms(1) consider
      "t = Level0 (bs ! 0)" "length bs = 1"
    | "t = Level1 (pointers bs)" "1 < length bs" "length bs \<le> 256"
    | "t = Level2 (pointers (map pointers (chunks bs)))" "256 < length bs" "length bs \<le> 65536"
    by (auto simp: shape_def)
  then show ?thesis
  proof cases
    case 1
    with assms b show ?thesis by (simp add: set_entry_def put_Some shape_def)
  next
    case 2
    with k b show ?thesis
      by (simp add: set_entry_def put_Some deref_pointers put_pointers word_nat shape_def)
  next
    case 3
    have "put (pointers (chunk (unat v div 256 div 256) bs)) (PH_HANDLE_VALUE_LEVEL1 v) (Some x)
        = Some (pointers ((chunk (unat v div 256 div 256) bs)[unat v div 256 mod 256 := x]))" for x
      using chunk_bound [OF k] by (simp add: put_pointers chunk_small word_nat)
    moreover have "put (pointers (map pointers (chunks bs))) (PH_HANDLE_VALUE_LEVEL2_U v) (Some (pointers c))
        = Some (pointers (map pointers ((chunks bs)[unat v div 256 div 256 := c])))" for c
      using chunks_small [OF 3(3)] chunks_index [OF k] by (simp add: put_pointers word_nat map_update)
    ultimately show ?thesis
      using 3 k b
      by (simp add: set_entry_def put_Some deref_chunks deref_chunk word_nat shape_def chunks_update)
  qed
qed

section \<open>A new block\<close>

lemma replicate_first: "(replicate 256 None)[0 := Some x] = pointers [x]"
  using pointers_append [of "[]" x] by (simp add: pointers_def)

lemma replicate_two: "(replicate 256 None)[0 := Some x, Suc 0 := Some y] = pointers [x, y]"
  using pointers_append [of "[x]" y] by (simp add: replicate_first)

lemma pointers_second: "(pointers [x])[Suc 0 := Some y] = pointers [x, y]"
  using pointers_append [of "[x]" y] by simp

lemma chunks_full: "length xs = 256 \<Longrightarrow> chunks xs = [xs]"
  by (simp add: chunks_def chunk_def)

lemma chunks_length_exact: "length xs mod 256 = 0 \<Longrightarrow> length (chunks xs) = length xs div 256"
proof -
  assume "length xs mod 256 = 0"
  then obtain q where "length xs = 256 * q" by auto
  then show ?thesis by (simp add: chunks_length)
qed

lemma chunks_length_next: "length xs mod 256 \<noteq> 0 \<Longrightarrow> length (chunks xs) = Suc (length xs div 256)"
  unfolding chunks_length by (rule quotient_next)

text \<open>The table of the second level once the last block is in place.\<close>

lemma append_new_chunk:
  assumes "length bs mod 256 = 0" and "length bs < 65536"
  shows "(pointers (map pointers (chunks bs)))[length bs div 256 := Some (pointers [b])]
           = pointers (map pointers (chunks (bs @ [b])))"
proof -
  have "length (map pointers (chunks bs)) = length bs div 256"
    using assms(1) by (simp add: chunks_length_exact)
  moreover have "length bs div 256 < 256" using assms(2) by (simp add: less_mult_imp_div_less)
  ultimately show ?thesis
    using pointers_append [of "map pointers (chunks bs)" "pointers [b]"] assms(1)
    by (simp add: chunks_append_new)
qed

lemma append_to_chunk:
  assumes "length bs mod 256 \<noteq> 0" and "length bs < 65536"
  shows "(pointers (map pointers (chunks bs)))[length bs div 256 :=
             Some ((pointers (chunk (length bs div 256) bs))[length bs mod 256 := Some b])]
           = pointers (map pointers (chunks (bs @ [b])))"
proof -
  let ?m = "length bs div 256"
  have "length bs - 256 * ?m = length bs mod 256" by (simp add: minus_mult_div_eq_mod)
  then have l: "length (chunk ?m bs) = length bs mod 256" by (simp add: chunk_length)
  have "(pointers (chunk ?m bs))[length bs mod 256 := Some b] = pointers (chunk ?m bs @ [b])"
    using pointers_append [of "chunk ?m bs" b] l by simp
  moreover have "?m < length (map pointers (chunks bs))"
    using assms(1) by (simp add: chunks_length_next)
  ultimately show ?thesis
    using assms(1) by (simp add: pointers_update chunks_append map_update)
qed

text \<open>The position in the last table of the first level, which the code computes by subtraction.\<close>

lemma next_position:
  fixes n :: ulong
  assumes "unat n = 256 * k" and "k < 65536"
  shows "unat ((n - n div 65536 * 65536) div 256) = k mod 256"
proof -
  have q: "unat (n div 65536) = k div 256" using assms(1) by (simp add: unat_div)
  then have m: "unat (n div 65536 * 65536) = k div 256 * 65536"
    using assms(2) by (simp add: unat_word_ariths div_times_less_eq_dividend)
  have "k div 256 * 65536 \<le> 256 * k" using div_times_less_eq_dividend [of k 256] by linarith
  then have "unat (n - n div 65536 * 65536) = 256 * k - k div 256 * 65536"
    using assms(1) m by (simp add: unat_sub word_le_nat_alt)
  also have "\<dots> = 256 * (k mod 256)"
    using minus_div_mult_eq_mod [of k 256] by (simp add: algebra_simps)
  finally show ?thesis by (simp add: unat_div)
qed

text \<open>
  A table that has \<open>256 * length bs\<close> entries gets the next block exactly where the lookup will find
  it, on each of the five ways through the code. It stays as it is when an allocation fails or the
  table is full.
\<close>

lemma add_block_Some:
  assumes "shape (ht_Table H) bs" and "unat (ht_NextValue H) = 256 * length bs"
    and "add_block a H True = Some t"
  shows "\<exists>new. al_Level0 a = Some new \<and> length bs < 65536
    \<and> shape t (bs @ [init_entries new (ht_NextValue H + 1)])"
proof -
  let ?n = "\<lambda>new. init_entries new (ht_NextValue H + 1)"
  have i: "unat (ht_NextValue H div 256) = length bs" "unat (ht_NextValue H div (256 * 256)) = length bs div 256"
    using assms(2) by (simp_all add: unat_div)
  from assms(1) consider
      "ht_Table H = Level0 (bs ! 0)" "length bs = 1"
    | "ht_Table H = Level1 (pointers bs)" "1 < length bs" "length bs < 256"
    | "ht_Table H = Level1 (pointers bs)" "length bs = 256"
    | "ht_Table H = Level2 (pointers (map pointers (chunks bs)))" "256 < length bs" "length bs \<le> 65536"
    by (auto simp: shape_def le_less)
  then show ?thesis
  proof cases
    case 1
    from 1(2) obtain b where "bs = [b]" by (auto simp: length_Suc_conv)
    with 1 assms(3) show ?thesis
      by (auto simp: add_block_def PhpCreateHandleTableLevel1_def PhpCreateHandleTableLevel0_def
          replicate_two shape_def bind_eq_Some_conv split: if_splits)
  next
    case 2
    with i have "ht_NextValue H div 256 < 256" by (simp add: word_less_nat_alt)
    with 2 i assms(3) show ?thesis
      by (auto simp: add_block_def Let_def PhpCreateHandleTableLevel0_def pointers_append
          shape_def bind_eq_Some_conv)
  next
    case 3
    with i have "\<not> ht_NextValue H div 256 < 256" by (simp add: word_less_nat_alt)
    with 3 assms(3) show ?thesis
      by (auto simp: add_block_def Let_def PhpCreateHandleTableLevel0_def PhpCreateHandleTableLevel1_def
          PhpCreateHandleTableLevel2_def replicate_first pointers_second shape_def bind_eq_Some_conv
          chunks_append_new chunks_full split: if_splits)
  next
    case 4
    let ?t = "pointers (map pointers (chunks bs))"
    from 4 assms(3) have lt: "length bs < 65536"
      using i by (auto simp: add_block_def Let_def word_le_nat_alt split: if_splits)
    with i have small: "\<not> ht_NextValue H div (256 * 256) \<ge> 256" by (simp add: word_le_nat_alt)
    show ?thesis
    proof (cases "length bs mod 256 = 0")
      case True
      with lt have "?t ! (length bs div 256) = None"
        using chunks_small [OF 4(3)] by (simp add: pointers_at chunks_length_exact less_mult_imp_div_less)
      with 4 i small assms(3) lt True append_new_chunk [OF True lt] show ?thesis
        by (auto simp: add_block_def Let_def PhpCreateHandleTableLevel0_def PhpCreateHandleTableLevel1_def
            replicate_first shape_def bind_eq_Some_conv split: if_splits)
    next
      case False
      with lt have "?t ! (length bs div 256) = Some (pointers (chunk (length bs div 256) bs))"
        using chunks_small [OF 4(3)]
        by (simp add: pointers_at chunks_length_next chunks_nth less_mult_imp_div_less)
      moreover have "unat ((ht_NextValue H - ht_NextValue H div (256 * 256) * (256 * 256)) div 256)
          = length bs mod 256"
        using next_position [OF assms(2) lt] by simp
      ultimately show ?thesis
        using 4 i small assms(3) lt append_to_chunk [OF False lt]
        by (auto simp: add_block_def Let_def PhpCreateHandleTableLevel0_def shape_def bind_eq_Some_conv)
    qed
  qed
qed

lemma add_block_None:
  assumes "shape (ht_Table H) bs" and "unat (ht_NextValue H) = 256 * length bs"
    and "add_block a H True = None"
  shows "al_Level0 a = None \<or> \<not> al_Level1 a \<or> \<not> al_Level2 a \<or> length bs = 65536"
proof -
  have i: "unat (ht_NextValue H div (256 * 256)) = length bs div 256"
    using assms(2) by (simp add: unat_div)
  have d: "length bs = 65536" if "256 \<le> length bs div 256" "length bs \<le> 65536"
    using that div_times_less_eq_dividend [of "length bs" 256] by linarith
  show ?thesis
  proof (cases "al_Level0 a")
    case (Some new)
    with assms(1,3) i d show ?thesis
      by (cases "ht_Table H")
        (auto simp: add_block_def Let_def PhpCreateHandleTableLevel0_def PhpCreateHandleTableLevel1_def
          PhpCreateHandleTableLevel2_def shape_def word_le_nat_alt split: if_splits option.splits)
  qed simp
qed

section \<open>The table as a list\<close>

lemma rep_length: "represents t es \<Longrightarrow> 256 \<le> length es \<and> length es \<le> 16777216"
  by (auto simp: represents_def shape_def concat_256_length)

lemma rep_get:
  assumes "represents t es" and "unat v < length es"
  shows "get_entry t v = Some (es ! unat v)"
proof -
  from assms(1) obtain bs where "shape t bs" "\<forall>b\<in>set bs. length b = 256" "es = concat bs"
    by (auto simp: represents_def)
  with assms(2) show ?thesis by (simp add: get_shape concat_256_length concat_256_nth)
qed

lemma rep_set:
  assumes "represents t es" and "unat v < length es"
  shows "\<exists>t'. set_entry t v e = Some t' \<and> represents t' (es[unat v := e])"
proof -
  from assms(1) obtain bs where bs: "shape t bs" "\<forall>b\<in>set bs. length b = 256" "es = concat bs"
    by (auto simp: represents_def)
  with assms(2) have v: "unat v < 256 * length bs" by (simp add: concat_256_length)
  then have "unat v div 256 < length bs" by (simp add: less_mult_imp_div_less mult.commute)
  with bs v set_shape [OF bs(1,2) v, of e] show ?thesis
    unfolding represents_def by (metis blocks_update concat_256_update)
qed

lemma init_entries_length [simp]: "length (init_entries es i) = length es"
  by (induction es i rule: init_entries.induct) simp_all

lemma rep_grow:
  assumes "represents (ht_Table H) es" and "unat (ht_NextValue H) = length es"
    and "add_block a H True = Some t" and "\<forall>b. al_Level0 a = Some b \<longrightarrow> length b = 256"
  shows "\<exists>new. al_Level0 a = Some new \<and> length es < 16777216
    \<and> represents t (es @ init_entries new (ht_NextValue H + 1))"
proof -
  from assms(1) obtain bs where bs: "shape (ht_Table H) bs" "\<forall>b\<in>set bs. length b = 256" "es = concat bs"
    by (auto simp: represents_def)
  then have n: "unat (ht_NextValue H) = 256 * length bs" using assms(2) by (simp add: concat_256_length)
  from add_block_Some [OF bs(1) n assms(3)] obtain new where new: "al_Level0 a = Some new"
      "length bs < 65536" "shape t (bs @ [init_entries new (ht_NextValue H + 1)])"
    by blast
  with assms(4) bs(2) have "represents t (concat (bs @ [init_entries new (ht_NextValue H + 1)]))"
    unfolding represents_def by (metis Un_iff empty_iff empty_set init_entries_length insert_iff list.simps(15) set_append)
  with new bs show ?thesis by (simp add: concat_256_length)
qed

lemma rep_no_grow:
  assumes "represents (ht_Table H) es" and "unat (ht_NextValue H) = length es" and "add_block a H True = None"
  shows "al_Level0 a = None \<or> \<not> al_Level1 a \<or> \<not> al_Level2 a \<or> length es = 16777216"
proof -
  from assms(1) obtain bs where bs: "shape (ht_Table H) bs" "\<forall>b\<in>set bs. length b = 256" "es = concat bs"
    by (auto simp: represents_def)
  then have n: "unat (ht_NextValue H) = 256 * length bs" using assms(2) by (simp add: concat_256_length)
  show ?thesis using add_block_None [OF bs(1) n assms(3)] bs by (auto simp: concat_256_length)
qed

text \<open>What is given back when the table is destroyed.\<close>

lemma free_blocks_pointers: "free_blocks (pointers bs) = bs"
  by (simp only: free_blocks_def takeWhile_pointers)

lemma rep_destroy:
  assumes "represents (ht_Table H) es"
  shows "concat (PhDestroyHandleTable H) = es \<and> (\<forall>b\<in>set (PhDestroyHandleTable H). length b = 256)"
proof -
  from assms obtain bs where bs: "shape (ht_Table H) bs" "\<forall>b\<in>set bs. length b = 256" "es = concat bs"
    by (auto simp: represents_def)
  have c: "concat (map (\<lambda>p. free_blocks (the p)) (takeWhile (\<lambda>p. p \<noteq> None) (pointers (map pointers cs)))) = concat cs" for cs
  proof -
    have "map (\<lambda>p. free_blocks (the p)) (takeWhile (\<lambda>p. p \<noteq> None) (pointers (map pointers cs)))
        = map free_blocks (map the (takeWhile (\<lambda>p. p \<noteq> None) (pointers (map pointers cs))))"
      by (simp only: map_map comp_def)
    also have "\<dots> = cs" by (simp only: takeWhile_pointers map_map comp_def free_blocks_pointers map_ident)
    finally show ?thesis by (simp only:)
  qed
  from bs(1) consider
      "ht_Table H = Level0 (bs ! 0)" "length bs = 1"
    | "ht_Table H = Level1 (pointers bs)"
    | "ht_Table H = Level2 (pointers (map pointers (chunks bs)))"
    by (auto simp: shape_def)
  then have "PhDestroyHandleTable H = bs"
  proof cases
    case 1
    then show ?thesis by (cases bs) (simp_all add: PhDestroyHandleTable_def)
  next
    case 2
    then show ?thesis by (simp add: PhDestroyHandleTable_def free_blocks_pointers)
  next
    case 3
    then show ?thesis by (simp only: PhDestroyHandleTable_def table.simps c concat_chunks)
  qed
  with bs show ?thesis by simp
qed

end
