(* ===== verification/PhHandleFree.thy ===== *)
theory PhHandleFree
  imports PhHandleShape
begin

text \<open>
  The entries of a handle table and its two free lists: the invariant says that the free entries are on
  the lists, once each, and that the count is the number of the others. Moving the alternative list,
  adding a block and taking or giving back an entry keep it, and the search for a free value ends.
\<close>

section \<open>The entries of a handle table\<close>

definition entries :: "PH_HANDLE_TABLE \<Rightarrow> handle_entry list \<Rightarrow> bool" where
  "entries H es \<longleftrightarrow> represents (ht_Table H) es \<and> unat (ht_NextValue H) = length es"

lemma entries_bound: "entries H es \<Longrightarrow> 256 \<le> length es \<and> length es \<le> 16777216"
  using rep_length by (auto simp: entries_def)

lemma entries_fields [simp]:
  "entries (H\<lparr>ht_Count := c\<rparr>) es = entries H es"
  "entries (H\<lparr>ht_FreeValue := v\<rparr>) es = entries H es"
  "entries (H\<lparr>ht_FreeValueAlt := v\<rparr>) es = entries H es"
  "entries (H\<lparr>ht_Flags := v\<rparr>) es = entries H es"
  by (simp_all add: entries_def)

lemma entries_get: "entries H es \<Longrightarrow> unat v < length es \<Longrightarrow> get_entry (ht_Table H) v = Some (es ! unat v)"
  by (simp add: entries_def rep_get)

lemma entries_lookup:
  assumes "entries H es"
  shows "PhpLookupHandleTableEntry H v = Some (if unat v < length es then Some v else None)"
  using assms by (auto simp: PhpLookupHandleTableEntry_def entries_get entries_def word_le_nat_alt rep_get)

lemma entries_update:
  assumes "entries H es" and "unat v < length es"
  shows "\<exists>t. update_entry H v f = Some (H\<lparr>ht_Table := t\<rparr>) \<and> entries (H\<lparr>ht_Table := t\<rparr>) (es[unat v := f (es ! unat v)])"
  using assms rep_set [of "ht_Table H" es v "f (es ! unat v)"]
  by (auto simp: update_entry_def entries_def rep_get)

section \<open>Chains\<close>

fun value_chain :: "handle_entry list \<Rightarrow> ulong \<Rightarrow> ulong list \<Rightarrow> bool" where
  "value_chain es v [] \<longleftrightarrow> v = PH_HANDLE_VALUE_INVALID"
| "value_chain es v (x # xs) \<longleftrightarrow> v = x \<and> unat x < length es \<and> value_chain es (NextFreeValue (es ! unat x)) xs"

lemma chain_members: "value_chain es v xs \<Longrightarrow> x \<in> set xs \<Longrightarrow> unat x < length es"
  by (induction xs arbitrary: v) auto

lemma chain_change:
  "value_chain es v xs \<Longrightarrow> length es \<le> length es'
     \<Longrightarrow> \<forall>x\<in>set xs. NextFreeValue (es' ! unat x) = NextFreeValue (es ! unat x) \<Longrightarrow> value_chain es' v xs"
  by (induction xs arbitrary: v) auto

lemma unat_distinct: "u \<noteq> v \<Longrightarrow> unat u \<noteq> unat v" for u v :: ulong
  using unsigned_word_eqI by blast

lemma chain_other:
  assumes "value_chain es v xs" and "i \<notin> set xs"
  shows "value_chain (es[unat i := e]) v xs"
proof (rule chain_change [OF assms(1)])
  have "unat i \<noteq> unat x" if "x \<in> set xs" for x
    using that assms(2) by (metis unat_distinct)
  then show "\<forall>x\<in>set xs. NextFreeValue (es[unat i := e] ! unat x) = NextFreeValue (es ! unat x)" by auto
qed simp

lemma NextFreeValue_set [simp]: "NextFreeValue (set_NextFreeValue n e) = n"
proof -
  have m: "(0xffffffff :: ulong64) = mask 32" by (simp add: mask_eq_exp_minus_1)
  show ?thesis
    unfolding NextFreeValue_def set_NextFreeValue_def m by (simp add: bit_eq_iff bit_simps)
qed

lemma set_NextFreeValue_Value [simp]: "he_Value (set_NextFreeValue n e) = he_Value e"
  by (simp add: set_NextFreeValue_def)

lemma NextFreeValue_Value [simp]: "NextFreeValue (e\<lparr>he_Value := v\<rparr>) = NextFreeValue e"
  by (simp add: NextFreeValue_def)

lemma invalid_unat: "unat PH_HANDLE_VALUE_INVALID = 4294967295"
  by (simp add: PH_HANDLE_VALUE_INVALID_def unsigned_minus_1_eq_mask mask_eq_exp_minus_1)

section \<open>The invariant\<close>

abbreviation is_free :: "handle_entry \<Rightarrow> bool" where
  "is_free e \<equiv> he_Value e AND PH_HANDLE_TABLE_ENTRY_TYPE \<noteq> PH_HANDLE_TABLE_ENTRY_IN_USE"

definition frees :: "handle_entry list \<Rightarrow> ulong list \<Rightarrow> bool" where
  "frees es xs \<longleftrightarrow>
     distinct xs
     \<and> (\<forall>v. unat v < length es \<longrightarrow> (v \<in> set xs \<longleftrightarrow> is_free (es ! unat v)))
     \<and> (\<forall>v\<in>set xs. he_Value (es ! unat v) = PH_HANDLE_TABLE_ENTRY_FREE)"

definition ok_with :: "PH_HANDLE_TABLE \<Rightarrow> handle_entry list \<Rightarrow> ulong list \<Rightarrow> ulong list \<Rightarrow> bool" where
  "ok_with H es fs gs \<longleftrightarrow>
     entries H es \<and> value_chain es (ht_FreeValue H) fs \<and> value_chain es (ht_FreeValueAlt H) gs
     \<and> frees es (fs @ gs) \<and> unat (ht_Count H) + length (fs @ gs) = length es"

definition handle_table_ok :: "PH_HANDLE_TABLE \<Rightarrow> bool" where
  "handle_table_ok H \<longleftrightarrow> (\<exists>es fs gs. ok_with H es fs gs)"

text \<open>The map from values to the entries that are in use.\<close>

definition handles :: "PH_HANDLE_TABLE \<Rightarrow> ulong \<Rightarrow> handle_entry option" where
  "handles H v =
     (if v < ht_NextValue H
      then Option.bind (get_entry (ht_Table H) v) (\<lambda>e. if is_free e then None else Some e)
      else None)"

lemma handles_entries:
  "entries H es \<Longrightarrow> handles H v = (if unat v < length es \<and> \<not> is_free (es ! unat v) then Some (es ! unat v) else None)"
  by (auto simp: handles_def entries_get entries_def word_less_nat_alt rep_get)

section \<open>Moving the alternative free list\<close>

text \<open>Two states of the entries that differ in the links of some of them only.\<close>

definition relinked :: "ulong set \<Rightarrow> handle_entry list \<Rightarrow> handle_entry list \<Rightarrow> bool" where
  "relinked S es es' \<longleftrightarrow>
     length es' = length es
     \<and> (\<forall>v::ulong. unat v < length es \<longrightarrow> he_Value (es' ! unat v) = he_Value (es ! unat v))
     \<and> (\<forall>v. unat v < length es \<and> v \<notin> S \<longrightarrow> es' ! unat v = es ! unat v)"

lemma nth_update_word:
  fixes u v :: ulong
  shows "unat v < length es \<Longrightarrow> es[unat u := e] ! unat v = (if v = u then e else es ! unat v)"
  by (auto simp: unat_distinct)

lemma relinked_update:
  "relinked (insert u S) es (es[unat u := set_NextFreeValue n (es ! unat u)])"
  by (auto simp: relinked_def nth_update_word)

lemma relinked_trans:
  "relinked S es es' \<Longrightarrow> relinked S es' es'' \<Longrightarrow> relinked S es es''"
  by (simp add: relinked_def)

lemma chain_relinked: "relinked S es es' \<Longrightarrow> value_chain es v xs \<Longrightarrow> set xs \<inter> S = {} \<Longrightarrow> value_chain es' v xs"
  by (rule chain_change) (auto simp: relinked_def dest!: chain_members)

lemma chain_link:
  assumes "value_chain es v xs" and "xs \<noteq> []" and "distinct xs" and "value_chain es f ys" and "last xs \<notin> set ys"
  shows "value_chain (es[unat (last xs) := set_NextFreeValue f (es ! unat (last xs))]) v (xs @ ys)"
  using assms
proof (induction xs arbitrary: v)
  case (Cons x xs)
  show ?case
  proof (cases "xs = []")
    case True
    with Cons.prems show ?thesis by (auto intro: chain_other)
  next
    case False
    with Cons.prems have "last xs \<noteq> x" using last_in_set by force
    with False Cons show ?thesis by (auto simp: nth_update_word)
  qed
qed simp

lemma chain_invalid:
  assumes "entries H es" and "value_chain es v xs"
  shows "v = PH_HANDLE_VALUE_INVALID \<longleftrightarrow> xs = []"
proof (cases xs)
  case (Cons x ys)
  with assms have "unat v < 4294967295" using entries_bound [OF assms(1)] by simp
  then have "v \<noteq> PH_HANDLE_VALUE_INVALID" using invalid_unat by force
  with Cons show ?thesis by simp
qed (use assms in simp)

lemma reverse_loop_correct:
  assumes "entries H es" and "value_chain es index xs" and "xs \<noteq> []" and "value_chain es lastIndex acc"
    and "distinct (xs @ acc)" and "acc \<noteq> [] \<longrightarrow> first = last acc"
  shows "\<exists>t es' c. reverse_loop H index lastIndex first count
      = Some (hd (rev xs @ acc), last (rev xs @ acc), c, H\<lparr>ht_Table := t\<rparr>)
    \<and> entries (H\<lparr>ht_Table := t\<rparr>) es' \<and> value_chain es' (hd (rev xs @ acc)) (rev xs @ acc) \<and> relinked (set xs) es es'"
  using assms
proof (induction xs arbitrary: H es index lastIndex acc first count)
  case (Cons x xs)
  let ?es = "es[unat x := set_NextFreeValue lastIndex (es ! unat x)]"
  from Cons.prems have x: "index = x" "unat x < length es" "value_chain es (NextFreeValue (es ! unat x)) xs" by simp_all
  obtain t where t: "update_entry H x (set_NextFreeValue lastIndex) = Some (H\<lparr>ht_Table := t\<rparr>)"
      "entries (H\<lparr>ht_Table := t\<rparr>) ?es"
    using entries_update [OF Cons.prems(1) x(2)] by blast
  let ?first = "if lastIndex = PH_HANDLE_VALUE_INVALID then x else first"
  have f: "?first = last (x # acc)"
    using chain_invalid [OF Cons.prems(1,4)] Cons.prems(6) by auto
  have c: "value_chain ?es (NextFreeValue (es ! unat x)) xs" "value_chain ?es x (x # acc)"
    using x Cons.prems by (auto intro: chain_other)
  have loop: "reverse_loop H index lastIndex first count =
      (if NextFreeValue (es ! unat x) = PH_HANDLE_VALUE_INVALID then Some (x, ?first, count + 1, H\<lparr>ht_Table := t\<rparr>)
       else reverse_loop (H\<lparr>ht_Table := t\<rparr>) (NextFreeValue (es ! unat x)) x ?first (count + 1))"
    using x(2) t(1) Cons.prems(1) unfolding x(1)
    by (subst reverse_loop.simps) (simp add: entries_lookup entries_get Let_def)
  show ?case
  proof (cases "xs = []")
    case True
    then have "reverse_loop H index lastIndex first count = Some (x, last (x # acc), count + 1, H\<lparr>ht_Table := t\<rparr>)"
      using loop chain_invalid [OF Cons.prems(1) x(3)] f by simp
    with True x(2) c(2) t(2) relinked_update [of x "{}" es lastIndex] show ?thesis
      by (intro exI [of _ t] exI [of _ ?es] exI [of _ "count + 1"]) simp
  next
    case False
    then have "reverse_loop H index lastIndex first count
        = reverse_loop (H\<lparr>ht_Table := t\<rparr>) (NextFreeValue (es ! unat x)) x ?first (count + 1)"
      using loop chain_invalid [OF Cons.prems(1) x(3)] by simp
    moreover from Cons.IH [OF t(2) c(1) False c(2), of ?first "count + 1"] Cons.prems(5) f
    obtain t' es' c' where
      "reverse_loop (H\<lparr>ht_Table := t\<rparr>) (NextFreeValue (es ! unat x)) x ?first (count + 1)
         = Some (hd (rev xs @ x # acc), last (rev xs @ x # acc), c', H\<lparr>ht_Table := t'\<rparr>)"
      "entries (H\<lparr>ht_Table := t'\<rparr>) es'" "value_chain es' (hd (rev xs @ x # acc)) (rev xs @ x # acc)"
      "relinked (set xs) ?es es'"
      by auto
    moreover from this(4) have "relinked (set (x # xs)) es es'"
      using relinked_update [of x "set xs" es lastIndex] relinked_trans
      by (auto simp: relinked_def)
    ultimately show ?thesis by auto
  qed
qed simp

lemma frees_relinked:
  assumes "frees es xs" and "relinked S es es'" and "distinct ys" and "set ys = set xs"
    and "\<forall>x\<in>set xs. unat x < length es"
  shows "frees es' ys"
  using assms by (simp add: frees_def relinked_def)

lemma handles_relinked:
  assumes "entries H es" and "entries H' es'" and "relinked S es es'" and "\<forall>v\<in>S. unat v < length es \<longrightarrow> is_free (es ! unat v)"
  shows "handles H' = handles H"
proof
  fix v
  show "handles H' v = handles H v"
    using assms by (cases "v \<in> S") (auto simp: handles_entries relinked_def)
qed

lemma ok_bounds: "ok_with H es fs gs \<Longrightarrow> v \<in> set (fs @ gs) \<Longrightarrow> unat v < length es"
  by (auto simp: ok_with_def dest: chain_members)

lemma ok_free: "ok_with H es fs gs \<Longrightarrow> v \<in> set (fs @ gs) \<Longrightarrow> is_free (es ! unat v)"
  using ok_bounds [of H es fs gs v] unfolding ok_with_def frees_def by blast

text \<open>Relinking that keeps the set of the free entries.\<close>

lemma ok_relink:
  assumes "ok_with H es fs gs" and "relinked (set (fs @ gs)) es es'" and "entries H' es'"
    and "value_chain es' (ht_FreeValue H') fs'" and "value_chain es' (ht_FreeValueAlt H') gs'"
    and "distinct (fs' @ gs')" and "set (fs' @ gs') = set (fs @ gs)" and "ht_Count H' = ht_Count H"
  shows "ok_with H' es' fs' gs' \<and> handles H' = handles H"
proof -
  have "frees es (fs @ gs)" using assms(1) by (simp add: ok_with_def)
  then have "frees es' (fs' @ gs')"
    using frees_relinked [OF _ assms(2,6,7)] ok_bounds [OF assms(1)] by blast
  moreover have "length (fs' @ gs') = length (fs @ gs)"
    using assms(1,6,7) by (metis distinct_card frees_def ok_with_def)
  moreover have "handles H' = handles H"
    using handles_relinked [OF _ assms(3,2)] assms(1) ok_free [OF assms(1)] by (auto simp: ok_with_def)
  ultimately show ?thesis using assms by (simp add: ok_with_def relinked_def)
qed

lemma PhpMoveFreeHandleTableEntries_ok:
  assumes ok: "ok_with H es fs gs"
  shows "\<exists>v H' es' fs'. PhpMoveFreeHandleTableEntries H = Some (v, H') \<and> ok_with H' es' fs' []
    \<and> handles H' = handles H \<and> length es' = length es \<and> ht_Flags H' = ht_Flags H \<and> ht_Count H' = ht_Count H
    \<and> (v \<noteq> PH_HANDLE_VALUE_INVALID \<longrightarrow> v = ht_FreeValue H')"
proof -
  let ?H = "H\<lparr>ht_FreeValueAlt := PH_HANDLE_VALUE_INVALID\<rparr>"
  have e: "entries H es" "value_chain es (ht_FreeValue H) fs" "value_chain es (ht_FreeValueAlt H) gs"
    and d: "distinct (fs @ gs)"
    using ok by (simp_all add: ok_with_def frees_def)
  have same: "relinked S es es" for S by (simp add: relinked_def)
  show ?thesis
  proof (cases "gs = []")
    case True
    with ok have "PhpMoveFreeHandleTableEntries H = Some (PH_HANDLE_VALUE_INVALID, ?H)" "ok_with ?H es fs []"
      "handles ?H = handles H"
      using ok_relink [OF ok same, of ?H fs "[]"] e d
      by (simp_all add: PhpMoveFreeHandleTableEntries_def chain_invalid [OF e(1)] ok_with_def)
    then show ?thesis by (intro exI conjI) (assumption | simp)+
  next
    case False
    then have alt: "ht_FreeValueAlt H \<noteq> PH_HANDLE_VALUE_INVALID" using chain_invalid [OF e(1,3)] by simp
    show ?thesis
    proof (cases "\<not> strict_fifo H \<and> ht_FreeValue H = PH_HANDLE_VALUE_INVALID")
      case True
      let ?H' = "?H\<lparr>ht_FreeValue := ht_FreeValueAlt H\<rparr>"
      have "fs = []" using True chain_invalid [OF e(1,2)] by simp
      then have "ok_with ?H' es gs [] \<and> handles ?H' = handles H"
        using ok_relink [OF ok same, of ?H' gs "[]"] e d by simp
      moreover have "PhpMoveFreeHandleTableEntries H = Some (ht_FreeValueAlt H, ?H')"
        using True alt by (simp add: PhpMoveFreeHandleTableEntries_def Let_def)
      ultimately show ?thesis
        by (intro exI [of _ "ht_FreeValueAlt H"] exI [of _ ?H'] exI [of _ es] exI [of _ gs]) simp
    next
      case again: False
      obtain t es1 c where loop:
        "reverse_loop ?H (ht_FreeValueAlt H) PH_HANDLE_VALUE_INVALID 0 0
           = Some (hd (rev gs), last (rev gs), c, ?H\<lparr>ht_Table := t\<rparr>)"
        "entries (?H\<lparr>ht_Table := t\<rparr>) es1" "value_chain es1 (hd (rev gs)) (rev gs)" "relinked (set gs) es es1"
        using reverse_loop_correct [of ?H es "ht_FreeValueAlt H" gs PH_HANDLE_VALUE_INVALID "[]" 0 0]
          e d False by auto
      let ?f = "last (rev gs)"
      have f: "?f \<in> set gs" "?f \<notin> set fs" using False d last_in_set [of "rev gs"] by auto
      have "unat ?f < length es1"
        using chain_members [OF loop(3), of ?f] f by simp
      from entries_update [OF loop(2) this] obtain t' where up:
        "update_entry (?H\<lparr>ht_Table := t\<rparr>) ?f (set_NextFreeValue (ht_FreeValue H))
           = Some (?H\<lparr>ht_Table := t'\<rparr>)"
        "entries (?H\<lparr>ht_Table := t'\<rparr>) (es1[unat ?f := set_NextFreeValue (ht_FreeValue H) (es1 ! unat ?f)])"
        by auto
      let ?es = "es1[unat ?f := set_NextFreeValue (ht_FreeValue H) (es1 ! unat ?f)]"
      let ?H' = "?H\<lparr>ht_Table := t', ht_FreeValue := hd (rev gs)\<rparr>"
      have "value_chain es1 (ht_FreeValue H) fs"
        using chain_relinked [OF loop(4) e(2)] d by auto
      then have "value_chain ?es (hd (rev gs)) (rev gs @ fs)"
        using chain_link [OF loop(3), of "ht_FreeValue H" fs] False d f by auto
      moreover have "relinked (set (fs @ gs)) es ?es"
        using loop(4) relinked_update [of ?f "set (fs @ gs)" es1] f
        by (auto simp: relinked_def)
      ultimately have "ok_with ?H' ?es (rev gs @ fs) [] \<and> handles ?H' = handles H" "length ?es = length es"
        using ok_relink [OF ok, of ?es ?H' "rev gs @ fs" "[]"] up d by (auto simp: relinked_def)
      moreover have "PhpMoveFreeHandleTableEntries H
          = Some (if strict_fifo H \<and> c < PH_HANDLE_TABLE_FREE_COUNT then PH_HANDLE_VALUE_INVALID else hd (rev gs), ?H')"
        using again alt loop(1) up(1) by (auto simp: PhpMoveFreeHandleTableEntries_def Let_def)
      ultimately show ?thesis
        by (intro exI [of _ "if strict_fifo H \<and> c < PH_HANDLE_TABLE_FREE_COUNT then PH_HANDLE_VALUE_INVALID else hd (rev gs)"]
            exI [of _ ?H'] exI [of _ ?es] exI [of _ "rev gs @ fs"]) simp
    qed
  qed
qed

section \<open>Allocating more entries\<close>

text \<open>Where the allocator is the one of the code: blocks have the size that was asked for.\<close>

definition allocation_ok :: "allocation \<Rightarrow> bool" where
  "allocation_ok a \<longleftrightarrow> (case al_Level0 a of None \<Rightarrow> True | Some b \<Rightarrow> length b = 256)"

definition no_memory :: "allocation \<Rightarrow> bool" where
  "no_memory a \<longleftrightarrow> al_Level0 a = None \<or> \<not> al_Level1 a \<or> \<not> al_Level2 a"

lemma init_entries_nth:
  "k < length b \<Longrightarrow> he_Value (init_entries b i ! k) = PH_HANDLE_TABLE_ENTRY_FREE
     \<and> NextFreeValue (init_entries b i ! k) = (if Suc k < length b then i + of_nat k else PH_HANDLE_VALUE_INVALID)"
proof (induction b i arbitrary: k rule: init_entries.induct)
  case (2 e i)
  then show ?case by simp
next
  case (3 e e' es i)
  show ?case
  proof (cases k)
    case (Suc m)
    with 3 have "he_Value (init_entries (e' # es) (i + 1) ! m) = PH_HANDLE_TABLE_ENTRY_FREE
     \<and> NextFreeValue (init_entries (e' # es) (i + 1) ! m)
        = (if Suc m < length (e' # es) then i + 1 + of_nat m else PH_HANDLE_VALUE_INVALID)"
      by (intro 3(1)) simp
    with Suc show ?thesis by (simp add: algebra_simps)
  qed simp
qed simp

lemma free_constant: "PH_HANDLE_TABLE_ENTRY_FREE AND PH_HANDLE_TABLE_ENTRY_TYPE \<noteq> PH_HANDLE_TABLE_ENTRY_IN_USE"
  by (simp add: handle_constants)

text \<open>The values of the new block, in the order in which they are linked.\<close>

definition new_values :: "nat \<Rightarrow> nat \<Rightarrow> ulong list" where
  "new_values n k = map (\<lambda>j. of_nat (n + j)) [k..<256]"

lemma new_values_Cons: "k < 256 \<Longrightarrow> new_values n k = of_nat (n + k) # new_values n (Suc k)"
  by (simp add: new_values_def upt_conv_Cons)

lemma unat_value: "n + j < 4294967296 \<Longrightarrow> unat (of_nat (n + j) :: ulong) = n + j"
  by (simp only: unat_of_nat take_bit_eq_mod) simp

lemma new_values_set:
  assumes "n \<le> 16777216"
  shows "v \<in> set (new_values n 0) \<longleftrightarrow> n \<le> unat v \<and> unat v < n + 256"
proof
  assume "v \<in> set (new_values n 0)"
  then obtain j where "j < 256" "v = of_nat (n + j)" by (auto simp: new_values_def)
  with assms show "n \<le> unat v \<and> unat v < n + 256" by (simp only: unat_value) simp
next
  assume "n \<le> unat v \<and> unat v < n + 256"
  then have n: "n + (unat v - n) = unat v" "unat v - n \<in> {0..<256}" by auto
  have "v = of_nat (n + (unat v - n))" unfolding n(1) by simp
  then show "v \<in> set (new_values n 0)"
    unfolding new_values_def set_map set_upt
    by (rule image_eqI [where x = "unat v - n"]) (rule n(2))
qed

lemma new_values_distinct: "n \<le> 16777216 \<Longrightarrow> distinct (new_values n 0)"
  unfolding new_values_def by (auto simp: distinct_map intro!: inj_onI dest!: arg_cong [where f = unat] simp: unat_value simp del: of_nat_add)

lemma new_values_chain:
  assumes "length es = n" and "n \<le> 16777216" and "length b = 256" and "k < 256" and "i = of_nat (n + 1)"
  shows "value_chain (es @ init_entries b i) (of_nat (n + k)) (new_values n k)"
  using assms(4)
proof (induction "255 - k" arbitrary: k)
  case 0
  then have k: "k = 255" by simp
  have "unat (of_nat (n + 255) :: ulong) = n + 255" using assms(2) by (intro unat_value) simp
  with assms init_entries_nth [of 255 b i] show ?case unfolding k
    by (simp add: new_values_Cons nth_append new_values_def [of _ 256] del: of_nat_add)
next
  case (Suc m)
  then have k: "Suc k < 256" by simp
  have "unat (of_nat (n + k) :: ulong) = n + k" using assms(2) k by (intro unat_value) simp
  moreover have "i + of_nat k = of_nat (n + Suc k)" using assms(5) by simp
  moreover have "value_chain (es @ init_entries b i) (of_nat (n + Suc k)) (new_values n (Suc k))"
    by (rule Suc.hyps(1)) (use Suc.hyps(2) k in simp_all)
  ultimately show ?case
    using assms(1,3) init_entries_nth [of k b i] k
    by (simp add: new_values_Cons [of k] nth_append del: of_nat_add of_nat_Suc add_Suc_right)
qed

lemma chain_new_entries: "value_chain es v xs \<Longrightarrow> value_chain (es @ ys) v xs"
  by (rule chain_change) (auto simp: nth_append dest!: chain_members)

lemma PhpAllocateMoreHandleTableEntries_ok:
  assumes ok: "ok_with H es fs []" and a: "allocation_ok a"
  shows "(PhpAllocateMoreHandleTableEntries a H True = Some (False, H) \<and> (no_memory a \<or> length es = 16777216))
    \<or> (\<exists>H' es' fs'. PhpAllocateMoreHandleTableEntries a H True = Some (True, H') \<and> ok_with H' es' fs' []
         \<and> fs' \<noteq> [] \<and> handles H' = handles H \<and> ht_Count H' = ht_Count H \<and> ht_Flags H' = ht_Flags H)"
proof (cases "add_block a H True")
  case None
  have "represents (ht_Table H) es" "unat (ht_NextValue H) = length es"
    using ok by (simp_all add: ok_with_def entries_def)
  from rep_no_grow [OF this None] None show ?thesis
    by (auto simp: PhpAllocateMoreHandleTableEntries_def no_memory_def)
next
  case (Some t)
  have r: "represents (ht_Table H) es" "unat (ht_NextValue H) = length es"
    using ok by (simp_all add: ok_with_def entries_def)
  let ?n = "length es" and ?N = "ht_NextValue H"
  have "\<forall>b. al_Level0 a = Some b \<longrightarrow> length b = 256" using a by (auto simp: allocation_ok_def)
  from rep_grow [OF r Some this] a obtain new where new: "al_Level0 a = Some new" "length new = 256" "?n < 16777216"
      "represents t (es @ init_entries new (?N + 1))"
    by (auto simp: allocation_ok_def)
  let ?b = "init_entries new (?N + 1)"
  let ?H = "H\<lparr>ht_Table := t, ht_NextValue := ?N + 256\<rparr>"
  have N: "of_nat ?n = ?N" by (simp flip: r(2))
  have e: "entries ?H (es @ ?b)" using new r(2) by (simp add: entries_def unat_plus_no_overflow)
  have last: "unat (?N + 255) = ?n + 255" using new(3) r(2) by (simp add: unat_plus_no_overflow)
  from entries_update [OF e, of "?N + 255" "set_NextFreeValue (ht_FreeValue H)"] last new(2)
  obtain t' where up: "update_entry ?H (?N + 255) (set_NextFreeValue (ht_FreeValue H)) = Some (?H\<lparr>ht_Table := t'\<rparr>)"
    "entries (?H\<lparr>ht_Table := t'\<rparr>) ((es @ ?b)[unat (?N + 255) :=
        set_NextFreeValue (ht_FreeValue H) ((es @ ?b) ! unat (?N + 255))])"
    by auto
  let ?es = "(es @ ?b)[unat (?N + 255) := set_NextFreeValue (ht_FreeValue H) ((es @ ?b) ! unat (?N + 255))]"
  let ?H' = "?H\<lparr>ht_Table := t', ht_FreeValue := ?N\<rparr>"
  let ?ns = "new_values ?n 0"
  have ns: "v \<in> set ?ns \<longleftrightarrow> ?n \<le> unat v \<and> unat v < ?n + 256" for v
    using new(3) by (intro new_values_set) simp
  have last_ns: "last ?ns = ?N + 255"
    by (simp add: new_values_def last_map N)
  have ne: "?ns \<noteq> []" by (simp add: new_values_def)
  have fs: "v \<in> set fs \<Longrightarrow> unat v < ?n" for v using ok_bounds [OF ok] by simp
  have "value_chain (es @ ?b) ?N ?ns"
    using new_values_chain [of es ?n new 0 "?N + 1"] new N by simp
  moreover have "value_chain (es @ ?b) (ht_FreeValue H) fs"
    using ok by (intro chain_new_entries) (simp add: ok_with_def)
  moreover have "distinct ?ns" using new(3) by (intro new_values_distinct) simp
  moreover have "?N + 255 \<notin> set fs" using fs last by force
  ultimately have c: "value_chain ?es ?N (?ns @ fs)"
    using chain_link [of "es @ ?b" ?N ?ns "ht_FreeValue H" fs] ne by (simp add: last_ns)
  have old: "?es ! unat v = es ! unat v" if "unat v < ?n" for v :: ulong
    using that last by (simp add: nth_append)
  have fresh: "he_Value (?es ! unat v) = PH_HANDLE_TABLE_ENTRY_FREE" if "v \<in> set ?ns" for v
  proof -
    from that obtain k where k: "unat v = ?n + k" "k < 256" unfolding ns by (metis le_Suc_ex nat_add_left_cancel_less)
    then show ?thesis
      using last new(2) init_entries_nth [of k new "?N + 1"] by (auto simp: nth_append nth_list_update)
  qed
  have "frees ?es (?ns @ fs)"
  proof -
    have f: "frees es fs" using ok by (simp add: ok_with_def)
    have "distinct (?ns @ fs)" using \<open>distinct ?ns\<close> f fs ns by (auto simp: frees_def) (meson leD)
    moreover have "v \<in> set (?ns @ fs) \<longleftrightarrow> is_free (?es ! unat v)" if "unat v < length ?es" for v :: ulong
    proof (cases "unat v < ?n")
      case True
      then show ?thesis using f old ns by (simp add: frees_def)
    next
      case False
      then have "v \<in> set ?ns" using that new(2) ns by simp
      then show ?thesis using fresh free_constant by simp
    qed
    moreover have "he_Value (?es ! unat v) = PH_HANDLE_TABLE_ENTRY_FREE" if "v \<in> set (?ns @ fs)" for v
      using that fresh f fs old by (auto simp: frees_def)
    ultimately show ?thesis unfolding frees_def by blast
  qed
  moreover have "length ?ns = 256" by (simp add: new_values_def)
  ultimately have "ok_with ?H' ?es (?ns @ fs) []"
    using ok up c new(2) by (simp add: ok_with_def)
  moreover have "handles ?H' = handles H"
  proof
    fix v
    have e': "entries ?H' ?es" "entries H es" using up ok by (simp_all add: ok_with_def)
    show "handles ?H' v = handles H v"
      unfolding handles_entries [OF e'(1)] handles_entries [OF e'(2)]
      using old [of v] fresh [of v] free_constant new(2) by (cases "unat v < ?n") (auto simp: ns)
  qed
  moreover have "PhpAllocateMoreHandleTableEntries a H True = Some (True, ?H')"
    using Some up(1) by (simp add: PhpAllocateMoreHandleTableEntries_def Let_def)
  ultimately show ?thesis
    using ne by (intro disjI2 exI [of _ ?H'] exI [of _ ?es] exI [of _ "?ns @ fs"]) simp
qed

section \<open>Taking an entry from the free list\<close>

text \<open>What an operation leaves alone.\<close>

definition unchanged :: "PH_HANDLE_TABLE \<Rightarrow> PH_HANDLE_TABLE \<Rightarrow> bool" where
  "unchanged H H' \<longleftrightarrow> handles H' = handles H \<and> ht_Count H' = ht_Count H \<and> ht_Flags H' = ht_Flags H"

lemma ok_head:
  assumes "ok_with H es fs gs"
  shows "ht_FreeValue H = PH_HANDLE_VALUE_INVALID \<longleftrightarrow> fs = []"
    and "fs \<noteq> [] \<Longrightarrow> fs = ht_FreeValue H # tl fs"
  using assms chain_invalid [of H es "ht_FreeValue H" fs] by (cases fs; simp add: ok_with_def)+

lemma free_value_loop_head:
  assumes "ok_with H es fs gs" and "fs \<noteq> []"
  shows "free_value_loop a H (ht_FreeValue H) = Some (Some (ht_FreeValue H), H)"
  using assms ok_head [OF assms(1)] by (subst free_value_loop.simps) simp

lemma free_value_loop_ok:
  assumes ok: "ok_with H es fs gs" and a: "allocation_ok a"
  shows "(\<exists>H' es'. free_value_loop a H (ht_FreeValue H) = Some (None, H') \<and> ok_with H' es' [] []
            \<and> unchanged H H' \<and> (no_memory a \<or> length es' = 16777216))
    \<or> (\<exists>H' es' fs' gs'. free_value_loop a H (ht_FreeValue H) = Some (Some (ht_FreeValue H'), H')
            \<and> ok_with H' es' fs' gs' \<and> fs' \<noteq> [] \<and> unchanged H H')"
proof (cases "fs = []")
  case False
  with ok free_value_loop_head [OF ok] show ?thesis by (auto simp: unchanged_def)
next
  case True
  let ?L = "free_value_loop a H (ht_FreeValue H)"
  from True have inv: "ht_FreeValue H = PH_HANDLE_VALUE_INVALID" using ok_head [OF ok] by simp
  from PhpMoveFreeHandleTableEntries_ok [OF ok] obtain v H1 es1 fs1 where
    mv: "PhpMoveFreeHandleTableEntries H = Some (v, H1)" "ok_with H1 es1 fs1 []" "unchanged H H1"
      "v \<noteq> PH_HANDLE_VALUE_INVALID \<longrightarrow> v = ht_FreeValue H1"
    by (auto simp: unchanged_def)
  show ?thesis
  proof (cases "v = PH_HANDLE_VALUE_INVALID")
    case False
    with mv have "?L = Some (Some (ht_FreeValue H1), H1)" "fs1 \<noteq> []"
      using inv ok_head(1) [OF mv(2)] by (auto simp: free_value_loop.simps [of a H])
    with mv show ?thesis by blast
  next
    case none: True
    let ?A = "PhpAllocateMoreHandleTableEntries a H1 True"
    show ?thesis
    proof (cases "?A = Some (False, H1)")
      case True
      then have L: "?L = (if ht_FreeValue H1 = PH_HANDLE_VALUE_INVALID then Some (None, H1)
                          else free_value_loop a H1 (ht_FreeValue H1))"
        using inv none mv(1) by (subst free_value_loop.simps) simp
      from PhpAllocateMoreHandleTableEntries_ok [OF mv(2) a] True
      have "no_memory a \<or> length es1 = 16777216" by auto
      with L mv free_value_loop_head [OF mv(2)] ok_head(1) [OF mv(2)] show ?thesis
        by (cases "fs1 = []") auto
    next
      case False
      with PhpAllocateMoreHandleTableEntries_ok [OF mv(2) a] obtain H2 es2 fs2 where
        al: "?A = Some (True, H2)" "ok_with H2 es2 fs2 []" "fs2 \<noteq> []" "unchanged H1 H2"
        by (auto simp: unchanged_def)
      then have "?L = free_value_loop a H2 (ht_FreeValue H2)"
        using inv none mv(1) by (subst free_value_loop.simps) simp
      with al mv(3) free_value_loop_head [OF al(2,3)] show ?thesis by (auto simp: unchanged_def)
    qed
  qed
qed

text \<open>Taking the first free entry, and giving one back to either list.\<close>

lemma ok_take:
  assumes ok: "ok_with H es fs gs" and fs: "fs \<noteq> []" and v: "v = ht_FreeValue H"
    and H': "entries H' (es[unat v := e])" "ht_FreeValue H' = NextFreeValue (es ! unat v)"
      "ht_FreeValueAlt H' = ht_FreeValueAlt H" "ht_Count H' = ht_Count H + 1"
    and e: "\<not> is_free e"
  shows "ok_with H' (es[unat v := e]) (tl fs) gs \<and> handles H' = (handles H)(v \<mapsto> e) \<and> handles H v = None"
proof -
  from ok_head(2) [OF ok fs] v have fsv: "fs = v # tl fs" by simp
  have vl: "unat v < length es" using ok_bounds [OF ok, of v] fsv by (metis Un_iff list.set_intros(1) set_append)
  have free: "is_free (es ! unat v)" using ok_free [OF ok, of v] fsv by (metis Un_iff list.set_intros(1) set_append)
  have es: "entries H es" "value_chain es (ht_FreeValue H) fs" "value_chain es (ht_FreeValueAlt H) gs" "frees es (fs @ gs)"
      "unat (ht_Count H) + length (fs @ gs) = length es"
    using ok by (simp_all add: ok_with_def)
  have d: "v \<notin> set (tl fs)" "v \<notin> set gs"
    using es(4) by (subst (asm) fsv, simp add: frees_def)+
  have "value_chain es (NextFreeValue (es ! unat v)) (tl fs)" using es(2) by (subst (asm) fsv) simp
  then have c: "value_chain (es[unat v := e]) (ht_FreeValue H') (tl fs)" "value_chain (es[unat v := e]) (ht_FreeValueAlt H') gs"
    using es(3) d H' by (auto intro: chain_other)
  have "\<forall>u\<in>set (tl fs) \<union> set gs. unat u < length es"
    using ok_bounds [OF ok] fs by (metis Un_iff list.set_sel(2) set_append)
  then have "frees (es[unat v := e]) (tl fs @ gs)"
    using es(4) d e vl by (subst (asm) fsv) (auto simp: frees_def nth_update_word)
  moreover have "unat (ht_Count H') = unat (ht_Count H) + 1"
    using es(5) entries_bound [OF es(1)] H'(4) by (simp add: unat_plus_no_overflow)
  moreover have "length fs = Suc (length (tl fs))" using fs by simp
  ultimately have "ok_with H' (es[unat v := e]) (tl fs) gs"
    using es(5) c H' by (simp add: ok_with_def)
  moreover have "handles H' = (handles H)(v \<mapsto> e)"
    using vl e by (auto simp: handles_entries [OF H'(1)] handles_entries [OF es(1)] nth_update_word fun_eq_iff
        split: if_splits)
  moreover have "handles H v = None" using free by (simp add: handles_entries [OF es(1)])
  ultimately show ?thesis by simp
qed

end
