(* ===== verification/PhHandleCorrect.thy ===== *)
theory PhHandleCorrect
  imports PhHandleFree PhPointerList
begin

text \<open>
  The handle table as a finite map from handle values to entries: every operation keeps the invariant and
  does to the map what its contract says, the enumerations deliver the map, and the history of a table
  from its creation to its end refines the history of the map.
\<close>

section \<open>PhCreateHandle\<close>

text \<open>The entry in the table: the caller's value above the two bits, in use and not locked.\<close>

definition stored_entry :: "handle_entry \<Rightarrow> handle_entry" where
  "stored_entry entry = \<lparr> he_Value = (he_Value entry AND NOT 3) OR PH_HANDLE_TABLE_ENTRY_LOCKED,
                    he_Value2 = he_Value2 entry \<rparr>"

lemma stored_in_use: "\<not> is_free (stored_entry entry)"
  by (simp add: stored_entry_def handle_constants bit.conj_disj_distrib2 and.assoc)

lemma create_Some:
  assumes ok: "ok_with H es fs gs" and fs: "fs \<noteq> []" and loop: "free_value_loop a H0 (ht_FreeValue H0) = Some (Some (ht_FreeValue H), H)"
  shows "\<exists>H' es'. PhCreateHandle a H0 entry = Some (PhpEncodeHandle (ht_FreeValue H), H')
    \<and> ok_with H' es' (tl fs) gs \<and> handles H' = (handles H)(ht_FreeValue H \<mapsto> stored_entry entry)
    \<and> handles H (ht_FreeValue H) = None \<and> ht_Count H' = ht_Count H + 1 \<and> ht_Flags H' = ht_Flags H
    \<and> unat (ht_FreeValue H) < 16777216"
proof -
  let ?v = "ht_FreeValue H"
  from ok_head(2) [OF ok fs] have "?v \<in> set (fs @ gs)" by (metis Un_iff list.set_intros(1) set_append)
  then have vl: "unat ?v < length es" and free: "he_Value (es ! unat ?v) = PH_HANDLE_TABLE_ENTRY_FREE"
    using ok ok_bounds [OF ok] by (auto simp: ok_with_def frees_def)
  have e: "entries H es" using ok by (simp add: ok_with_def)
  let ?H1 = "H\<lparr>ht_FreeValue := NextFreeValue (es ! unat ?v), ht_Count := ht_Count H + 1\<rparr>"
  have "PhpAllocateHandleTableEntry a H0 = Some (Some ?v, ?H1)"
    using loop vl by (simp add: PhpAllocateHandleTableEntry_def entries_lookup [OF e] entries_get [OF e])
  moreover
  let ?f = "\<lambda>e. e\<lparr>he_Value := (he_Value e AND PH_HANDLE_TABLE_ENTRY_LOCKED) OR (he_Value entry AND NOT 3),
                he_Value2 := he_Value2 entry\<rparr>"
  have e1: "entries ?H1 es" using e by simp
  from entries_update [OF e1 vl, of ?f] obtain t1 where t1:
    "update_entry ?H1 ?v ?f = Some (?H1\<lparr>ht_Table := t1\<rparr>)"
    "entries (?H1\<lparr>ht_Table := t1\<rparr>) (es[unat ?v := ?f (es ! unat ?v)])"
    by auto
  moreover
  let ?g = "\<lambda>e. e\<lparr>he_Value := he_Value e OR PH_HANDLE_TABLE_ENTRY_LOCKED\<rparr>"
  from entries_update [OF t1(2), of ?v ?g] vl obtain t2 where t2:
    "update_entry (?H1\<lparr>ht_Table := t1\<rparr>) ?v ?g = Some (?H1\<lparr>ht_Table := t2\<rparr>)"
    "entries (?H1\<lparr>ht_Table := t2\<rparr>) (es[unat ?v := ?g (?f (es ! unat ?v))])"
    by auto
  moreover have "?g (?f (es ! unat ?v)) = stored_entry entry"
    using free by (simp add: stored_entry_def handle_constants)
  moreover have "unat ?v < 16777216" using vl entries_bound [OF e] by simp
  ultimately show ?thesis
    using ok_take [OF ok fs refl, of "?H1\<lparr>ht_Table := t2\<rparr>" "stored_entry entry"] stored_in_use [of entry]
    by (auto simp: PhCreateHandle_def PhUnlockHandleTableEntry_def)
qed

lemma create_None:
  assumes "free_value_loop a H0 (ht_FreeValue H0) = Some (None, H)"
  shows "PhCreateHandle a H0 entry = Some (0, H)"
  using assms by (simp add: PhCreateHandle_def PhpAllocateHandleTableEntry_def)

lemma decode_encode:
  assumes "unat v < 16777216"
  shows "PhpDecodeHandle (PhpEncodeHandle v) = v" and "PhpEncodeHandle v \<noteq> 0"
proof -
  have v: "push_bit 2 v + 4 = 4 * v + 4" by (simp add: push_bit_eq_mult)
  have u: "unat (4 * v + 4) = 4 * unat v + 4" using assms by (simp add: unat_word_ariths)
  have uu: "(ucast (ucast x :: ulong64) :: ulong) = x" for x :: ulong
    by (rule bit_word_eqI) (simp add: bit_simps)
  have "PhpDecodeHandle (PhpEncodeHandle v) = 4 * v div 4"
    by (simp add: PhpDecodeHandle_def PhpEncodeHandle_def v uu drop_bit_eq_div)
  also have "unat \<dots> = unat v" using assms by (simp add: unat_div unat_word_ariths)
  finally show d: "PhpDecodeHandle (PhpEncodeHandle v) = v" by (metis unat_distinct)
  have "PhpDecodeHandle 0 = 0x3FFFFFFF" by (simp add: PhpDecodeHandle_def drop_bit_eq_div)
  with d assms show "PhpEncodeHandle v \<noteq> 0" by auto
qed

lemma full_table:
  assumes "ok_with H es [] []" and "length es = 16777216" and "unat v < 16777216"
  shows "handles H v \<noteq> None"
proof -
  have e: "entries H es" and f: "frees es []" using assms(1) by (simp_all add: ok_with_def)
  from f assms(2,3) have "\<not> is_free (es ! unat v)" by (simp add: frees_def)
  then show ?thesis using assms(2,3) by (simp add: handles_entries [OF e])
qed

text \<open>Creating a handle.\<close>

lemma create_handle_ok:
  assumes "handle_table_ok H" and "allocation_ok a"
  shows "\<exists>h H'. PhCreateHandle a H entry = Some (h, H') \<and> handle_table_ok H' \<and> ht_Flags H' = ht_Flags H
    \<and> (h \<noteq> 0 \<and> h = PhpEncodeHandle (PhpDecodeHandle h) \<and> handles H (PhpDecodeHandle h) = None
          \<and> handles H' = (handles H)(PhpDecodeHandle h \<mapsto> stored_entry entry) \<and> ht_Count H' = ht_Count H + 1
      \<or> h = 0 \<and> handles H' = handles H \<and> ht_Count H' = ht_Count H
          \<and> (no_memory a \<or> (\<forall>v. unat v < 16777216 \<longrightarrow> handles H v \<noteq> None)))"
proof -
  from assms(1) obtain es fs gs where ok: "ok_with H es fs gs" by (auto simp: handle_table_ok_def)
  show ?thesis
  proof (rule disjE [OF free_value_loop_ok [OF ok assms(2)]]; elim exE conjE)
    fix H' es'
    assume "free_value_loop a H (ht_FreeValue H) = Some (None, H')" and ok': "ok_with H' es' [] []"
      and "unchanged H H'" and "no_memory a \<or> length es' = 16777216"
    then show ?thesis
      using create_None [of a H H' entry] full_table [OF ok'] ok'
      by (auto simp: handle_table_ok_def unchanged_def)
  next
    fix H1 es1 fs1 gs1
    assume l: "free_value_loop a H (ht_FreeValue H) = Some (Some (ht_FreeValue H1), H1)"
      and ok1: "ok_with H1 es1 fs1 gs1" and fs1: "fs1 \<noteq> []" and un: "unchanged H H1"
    from create_Some [OF ok1 fs1 l, of entry] obtain H' es' where
      c: "PhCreateHandle a H entry = Some (PhpEncodeHandle (ht_FreeValue H1), H')" "ok_with H' es' (tl fs1) gs1"
        "handles H' = (handles H1)(ht_FreeValue H1 \<mapsto> stored_entry entry)" "handles H1 (ht_FreeValue H1) = None"
        "ht_Count H' = ht_Count H1 + 1" "ht_Flags H' = ht_Flags H1" "unat (ht_FreeValue H1) < 16777216"
      by blast
    then have "handle_table_ok H'" by (auto simp: handle_table_ok_def)
    with c un decode_encode [OF c(7)] show ?thesis by (simp add: unchanged_def)
  qed
qed

section \<open>Locking and destroying\<close>

text \<open>A write to an entry in use that leaves it in use: locking, unlocking, the owner's changes.\<close>

abbreviation unlocked :: "handle_entry \<Rightarrow> bool" where
  "unlocked e \<equiv> he_Value e AND PH_HANDLE_TABLE_ENTRY_LOCKED \<noteq> 0"

definition locked_entry :: "handle_entry \<Rightarrow> handle_entry" where
  "locked_entry e = e\<lparr>he_Value := he_Value e - PH_HANDLE_TABLE_ENTRY_LOCKED\<rparr>"

definition unlocked_entry :: "handle_entry \<Rightarrow> handle_entry" where
  "unlocked_entry e = e\<lparr>he_Value := he_Value e OR PH_HANDLE_TABLE_ENTRY_LOCKED\<rparr>"

lemma unlocked_bit: "unlocked e \<longleftrightarrow> bit (he_Value e) 1"
  using and_exp_eq_0_iff_not_bit [of "he_Value e" 1] by (simp add: handle_constants)

lemma minus_locked:
  assumes "unlocked e"
  shows "he_Value e - PH_HANDLE_TABLE_ENTRY_LOCKED = he_Value e AND NOT PH_HANDLE_TABLE_ENTRY_LOCKED"
proof -
  have "NOT (he_Value e) AND 2 = 0"
    using assms unfolding unlocked_bit by (intro bit_word_eqI) (auto simp: bit_simps bit_2_iff)
  then show ?thesis by (simp add: disjunctive_diff_eq_and_not handle_constants)
qed

lemma lock_in_use: "unlocked e \<Longrightarrow> is_free (locked_entry e) \<longleftrightarrow> is_free e"
  by (simp add: locked_entry_def minus_locked) (simp add: handle_constants and.assoc)

lemma unlock_in_use: "is_free (unlocked_entry e) \<longleftrightarrow> is_free e"
  by (simp add: unlocked_entry_def handle_constants bit.conj_disj_distrib2 and.assoc)

lemma relock: "unlocked e \<Longrightarrow> unlocked_entry (locked_entry e) = e"
  using minus_locked [of e] unfolding unlocked_bit
  by (simp add: unlocked_entry_def locked_entry_def handle_constants)
    (intro handle_entry.equality bit_word_eqI; auto simp: bit_simps bit_2_iff)

lemma ok_write:
  assumes ok: "ok_with H es fs gs" and v: "unat v < length es" and f: "\<not> is_free (es ! unat v)" "\<not> is_free (f (es ! unat v))"
  shows "\<exists>H'. update_entry H v f = Some H' \<and> ok_with H' (es[unat v := f (es ! unat v)]) fs gs
    \<and> handles H' = (handles H)(v \<mapsto> f (es ! unat v)) \<and> ht_Count H' = ht_Count H \<and> ht_Flags H' = ht_Flags H"
proof -
  have e: "entries H es" "value_chain es (ht_FreeValue H) fs" "value_chain es (ht_FreeValueAlt H) gs" "frees es (fs @ gs)"
    using ok by (simp_all add: ok_with_def)
  from entries_update [OF e(1) v] obtain t where t: "update_entry H v f = Some (H\<lparr>ht_Table := t\<rparr>)"
    "entries (H\<lparr>ht_Table := t\<rparr>) (es[unat v := f (es ! unat v)])"
    by blast
  have n: "v \<notin> set (fs @ gs)" using ok_free [OF ok, of v] f by blast
  have b: "\<forall>u\<in>set (fs @ gs). unat u < length es" using ok_bounds [OF ok] by blast
  have "frees (es[unat v := f (es ! unat v)]) (fs @ gs)"
    using e(4) n b f v by (auto simp: frees_def nth_update_word)
  then have "ok_with (H\<lparr>ht_Table := t\<rparr>) (es[unat v := f (es ! unat v)]) fs gs"
    using ok n t by (auto simp: ok_with_def intro: chain_other)
  moreover have "handles (H\<lparr>ht_Table := t\<rparr>) = (handles H)(v \<mapsto> f (es ! unat v))"
    using v f by (auto simp: handles_entries [OF t(2)] handles_entries [OF e(1)] nth_update_word fun_eq_iff
        split: if_splits)
  ultimately show ?thesis using t(1) by simp
qed

lemma ok_give_back:
  assumes ok: "ok_with H es fs gs" and v: "unat v < length es" and f: "\<not> is_free (es ! unat v)"
    and H': "entries H' (es[unat v := e])" and e: "he_Value e = PH_HANDLE_TABLE_ENTRY_FREE"
    and lists: "ht_FreeValue H' = v \<and> NextFreeValue e = ht_FreeValue H \<and> ht_FreeValueAlt H' = ht_FreeValueAlt H
      \<or> ht_FreeValueAlt H' = v \<and> NextFreeValue e = ht_FreeValueAlt H \<and> ht_FreeValue H' = ht_FreeValue H"
    and c: "ht_Count H' = ht_Count H - 1"
  shows "handle_table_ok H' \<and> handles H' = (handles H)(v := None)"
proof -
  have es: "entries H es" "value_chain es (ht_FreeValue H) fs" "value_chain es (ht_FreeValueAlt H) gs" "frees es (fs @ gs)"
      "unat (ht_Count H) + length (fs @ gs) = length es"
    using ok by (simp_all add: ok_with_def)
  have n: "v \<notin> set (fs @ gs)" using ok_free [OF ok, of v] f by blast
  have b: "\<forall>u\<in>set (fs @ gs). unat u < length es" using ok_bounds [OF ok] by blast
  have free: "is_free e" using e free_constant by simp
  have "distinct (map unat (v # fs @ gs))" "set (map unat (v # fs @ gs)) \<subseteq> {..<length es}"
    using n es(4) b v by (auto simp: frees_def distinct_map inj_on_def dest: unsigned_word_eqI)
  then have "length (v # fs @ gs) \<le> length es"
    by (metis card_lessThan card_mono distinct_card finite_lessThan length_map)
  then have "unat (ht_Count H) \<noteq> 0" using es(5) by simp
  then have count: "unat (ht_Count H') = unat (ht_Count H) - 1"
    using c by (simp add: unat_sub word_le_nat_alt)
  have others: "value_chain (es[unat v := e]) (ht_FreeValue H) fs" "value_chain (es[unat v := e]) (ht_FreeValueAlt H) gs"
    using es(2,3) n by (auto intro: chain_other)
  have fr: "frees (es[unat v := e]) xs" if "distinct xs" "set xs = insert v (set (fs @ gs))" for xs
    using that es(4) n b v e free by (auto simp: frees_def nth_update_word)
  have h: "handles H' = (handles H)(v := None)"
    using v free by (auto simp: handles_entries [OF H'] handles_entries [OF es(1)] nth_update_word fun_eq_iff
        split: if_splits)
  have fr2: "frees (es[unat v := e]) (v # fs @ gs)" "frees (es[unat v := e]) (fs @ v # gs)"
    using n es(4) by (intro fr; auto simp: frees_def)+
  from lists show ?thesis
  proof
    assume l: "ht_FreeValue H' = v \<and> NextFreeValue e = ht_FreeValue H \<and> ht_FreeValueAlt H' = ht_FreeValueAlt H"
    have "ok_with H' (es[unat v := e]) (v # fs) gs"
      using l others v H' es(5) count \<open>unat (ht_Count H) \<noteq> 0\<close> fr2 by (auto simp: ok_with_def)
    with h show ?thesis by (auto simp: handle_table_ok_def)
  next
    assume l: "ht_FreeValueAlt H' = v \<and> NextFreeValue e = ht_FreeValueAlt H \<and> ht_FreeValue H' = ht_FreeValue H"
    have "ok_with H' (es[unat v := e]) fs (v # gs)"
      using l others v H' es(5) count \<open>unat (ht_Count H) \<noteq> 0\<close> fr2 by (auto simp: ok_with_def)
    with h show ?thesis by (auto simp: handle_table_ok_def)
  qed
qed

lemma handles_Some:
  assumes "ok_with H es fs gs"
  shows "handles H v = Some e \<longleftrightarrow> unat v < length es \<and> es ! unat v = e \<and> \<not> is_free e"
proof -
  have "entries H es" using assms by (simp add: ok_with_def)
  from handles_entries [OF this] show ?thesis by auto
qed

text \<open>Locking the entry of a value.\<close>

lemma lock_entry:
  assumes ok: "ok_with H es fs gs" and v: "unat v < length es"
  shows "case handles H v of
      None \<Rightarrow> PhLockHandleTableEntry H v = Some (False, H)
    | Some e \<Rightarrow>
        if unlocked e
        then \<exists>H'. PhLockHandleTableEntry H v = Some (True, H') \<and> ok_with H' (es[unat v := locked_entry e]) fs gs
               \<and> handles H' = (handles H)(v \<mapsto> locked_entry e) \<and> ht_Count H' = ht_Count H \<and> ht_Flags H' = ht_Flags H
        else PhLockHandleTableEntry H v = None"
proof -
  have e: "entries H es" using ok by (simp add: ok_with_def)
  let ?e = "es ! unat v"
  let ?f = "\<lambda>e. e\<lparr>he_Value := he_Value ?e - PH_HANDLE_TABLE_ENTRY_LOCKED\<rparr>"
  have lock: "PhLockHandleTableEntry H v =
      (if is_free ?e then Some (False, H) else if unlocked ?e then map_option (Pair True) (update_entry H v ?f) else None)"
    using v by (simp add: PhLockHandleTableEntry_def entries_get [OF e] Let_def)
  show ?thesis
  proof (cases "is_free ?e \<or> \<not> unlocked ?e")
    case True
    with lock v show ?thesis by (auto simp: handles_entries [OF e])
  next
    case False
    then have f: "?f ?e = locked_entry ?e" "\<not> is_free (locked_entry ?e)"
      by (simp_all add: locked_entry_def [of ?e, symmetric] lock_in_use)
    with False ok_write [OF ok v, of ?f] obtain H' where "update_entry H v ?f = Some H'"
      "ok_with H' (es[unat v := locked_entry ?e]) fs gs" "handles H' = (handles H)(v \<mapsto> locked_entry ?e)"
      "ht_Count H' = ht_Count H" "ht_Flags H' = ht_Flags H"
      by auto
    with False lock v show ?thesis by (simp add: handles_entries [OF e])
  qed
qed

lemma unlock_entry:
  assumes ok: "ok_with H es fs gs" and v: "handles H v = Some e"
  shows "\<exists>H'. PhUnlockHandleTableEntry H v = Some H' \<and> ok_with H' (es[unat v := unlocked_entry e]) fs gs
    \<and> handles H' = (handles H)(v \<mapsto> unlocked_entry e) \<and> ht_Count H' = ht_Count H \<and> ht_Flags H' = ht_Flags H"
proof -
  have e: "unat v < length es" "es ! unat v = e" "\<not> is_free e" using v handles_Some [OF ok] by blast+
  with ok_write [OF ok e(1), of unlocked_entry] unlock_in_use [of e] show ?thesis
    by (simp add: PhUnlockHandleTableEntry_def unlocked_entry_def [abs_def])
qed

text \<open>Giving back the entry of a value that the caller holds.\<close>

definition release :: "PH_HANDLE_TABLE \<Rightarrow> ulong \<Rightarrow> PH_HANDLE_TABLE option" where
  "release H v =
     Option.bind (update_entry H v (\<lambda>e. e\<lparr>he_Value := PH_HANDLE_TABLE_ENTRY_FREE\<rparr>)) (\<lambda>H. PhpFreeHandleTableEntry H v v)"

lemma release_entry:
  assumes ok: "ok_with H es fs gs" and v: "handles H v = Some e"
  shows "\<exists>H'. release H v = Some H' \<and> handle_table_ok H' \<and> handles H' = (handles H)(v := None)
    \<and> ht_Count H' = ht_Count H - 1 \<and> ht_Flags H' = ht_Flags H"
proof -
  have e: "unat v < length es" "es ! unat v = e" "\<not> is_free e" "entries H es"
    using v handles_Some [OF ok] ok by (auto simp: ok_with_def)
  let ?f = "\<lambda>e. e\<lparr>he_Value := PH_HANDLE_TABLE_ENTRY_FREE\<rparr>"
  from entries_update [OF e(4,1), of ?f] obtain t where t: "update_entry H v ?f = Some (H\<lparr>ht_Table := t\<rparr>)"
    "entries (H\<lparr>ht_Table := t\<rparr>) (es[unat v := ?f e])"
    using e(2) by auto
  let ?H = "H\<lparr>ht_Table := t, ht_Count := ht_Count H - 1\<rparr>"
  let ?n = "if strict_fifo H then ht_FreeValueAlt H else ht_FreeValue H"
  have "entries ?H (es[unat v := ?f e])" "unat v < length (es[unat v := ?f e])" using t(2) e(1) by simp_all
  from entries_update [OF this, of "set_NextFreeValue ?n"] e(1) obtain t' where t':
    "update_entry ?H v (set_NextFreeValue ?n) = Some (?H\<lparr>ht_Table := t'\<rparr>)"
    "entries (?H\<lparr>ht_Table := t'\<rparr>) (es[unat v := set_NextFreeValue ?n (?f e)])"
    by auto
  let ?H' = "if strict_fifo H then ?H\<lparr>ht_Table := t', ht_FreeValueAlt := v\<rparr> else ?H\<lparr>ht_Table := t', ht_FreeValue := v\<rparr>"
  have r: "release H v = Some ?H'"
    using t(1) t'(1) by (cases "strict_fifo H") (simp_all add: release_def PhpFreeHandleTableEntry_def Let_def)
  have "handle_table_ok ?H' \<and> handles ?H' = (handles H)(v := None)"
    by (rule ok_give_back [OF ok e(1), where e = "set_NextFreeValue ?n (?f e)"]) (use e t'(2) in \<open>auto split: if_splits\<close>)
  with r show ?thesis by (intro exI [of _ ?H']) simp
qed

lemma destroy_held: "PhDestroyHandle H h (Some (PhpDecodeHandle h)) = map_option (Pair True) (release H (PhpDecodeHandle h))"
  by (simp add: PhDestroyHandle_def release_def Let_def option.map_comp comp_def split: bind_split)

lemma destroy_lookup:
  assumes "ok_with H es fs gs"
  shows "PhDestroyHandle H h None =
    (let v = PhpDecodeHandle h
     in if unat v < length es
        then Option.bind (PhLockHandleTableEntry H v) (\<lambda>(locked, H).
               if locked then map_option (Pair True) (release H v) else Some (False, H))
        else Some (False, H))"
proof -
  have "entries H es" using assms by (simp add: ok_with_def)
  then show ?thesis
    by (auto simp: PhDestroyHandle_def release_def Let_def entries_lookup split: bind_split prod.split)
qed

text \<open>Destroying.\<close>

lemma destroy_handle_ok:
  assumes "handle_table_ok H" and "v = PhpDecodeHandle h"
  shows "(case handles H v of
       None \<Rightarrow> PhDestroyHandle H h None = Some (False, H)
     | Some e \<Rightarrow>
        if unlocked e
        then \<exists>H'. PhDestroyHandle H h None = Some (True, H') \<and> handle_table_ok H' \<and> handles H' = (handles H)(v := None)
               \<and> ht_Count H' = ht_Count H - 1 \<and> ht_Flags H' = ht_Flags H
        else PhDestroyHandle H h None = None)
    \<and> (handles H v \<noteq> None \<longrightarrow> (\<exists>H'. PhDestroyHandle H h (Some v) = Some (True, H') \<and> handle_table_ok H'
         \<and> handles H' = (handles H)(v := None) \<and> ht_Count H' = ht_Count H - 1 \<and> ht_Flags H' = ht_Flags H))"
proof -
  from assms(1) obtain es fs gs where ok: "ok_with H es fs gs" by (auto simp: handle_table_ok_def)
  have held: "\<exists>H'. PhDestroyHandle H h (Some v) = Some (True, H') \<and> handle_table_ok H'
         \<and> handles H' = (handles H)(v := None) \<and> ht_Count H' = ht_Count H - 1 \<and> ht_Flags H' = ht_Flags H"
    if "handles H v = Some e" for e
    using release_entry [OF ok that] unfolding assms(2) by (auto simp: destroy_held)
  have "case handles H v of
       None \<Rightarrow> PhDestroyHandle H h None = Some (False, H)
     | Some e \<Rightarrow>
        if unlocked e
        then \<exists>H'. PhDestroyHandle H h None = Some (True, H') \<and> handle_table_ok H' \<and> handles H' = (handles H)(v := None)
               \<and> ht_Count H' = ht_Count H - 1 \<and> ht_Flags H' = ht_Flags H
        else PhDestroyHandle H h None = None"
  proof (cases "handles H v")
    case None
    then show ?thesis
      using lock_entry [OF ok, of v] by (simp add: destroy_lookup [OF ok] assms(2) [symmetric] Let_def)
  next
    case (Some e)
    then have v: "unat v < length es" using handles_Some [OF ok] by blast
    show ?thesis
    proof (cases "unlocked e")
      case True
      with Some lock_entry [OF ok v] obtain H1 where
        l: "PhLockHandleTableEntry H v = Some (True, H1)" "ok_with H1 (es[unat v := locked_entry e]) fs gs"
          "handles H1 = (handles H)(v \<mapsto> locked_entry e)" "ht_Count H1 = ht_Count H" "ht_Flags H1 = ht_Flags H"
        by auto
      with release_entry [OF l(2), of v "locked_entry e"] True Some v show ?thesis
        by (auto simp: destroy_lookup [OF ok] assms(2) [symmetric] Let_def)
    next
      case False
      with Some lock_entry [OF ok v] v show ?thesis
        by (simp add: destroy_lookup [OF ok] assms(2) [symmetric] Let_def)
    qed
  qed
  with held show ?thesis by blast
qed

text \<open>Looking up.\<close>

lemma PhLookupHandleTableEntry_ok:
  assumes "handle_table_ok H" and "v = PhpDecodeHandle h"
  shows "case handles H v of
       None \<Rightarrow> PhLookupHandleTableEntry H h = Some (None, H)
     | Some e \<Rightarrow>
        if unlocked e
        then \<exists>H'. PhLookupHandleTableEntry H h = Some (Some v, H') \<and> handle_table_ok H'
               \<and> handles H' = (handles H)(v \<mapsto> locked_entry e) \<and> ht_Count H' = ht_Count H \<and> ht_Flags H' = ht_Flags H
        else PhLookupHandleTableEntry H h = None"
proof -
  from assms(1) obtain es fs gs where ok: "ok_with H es fs gs" by (auto simp: handle_table_ok_def)
  then have e: "entries H es" by (simp add: ok_with_def)
  have lookup: "PhLookupHandleTableEntry H h =
      (if unat v < length es then map_option (\<lambda>(locked, H). (if locked then Some v else None, H)) (PhLockHandleTableEntry H v)
       else Some (None, H))"
    by (simp add: PhLookupHandleTableEntry_def assms(2) [symmetric] entries_lookup [OF e])
  show ?thesis
  proof (cases "unat v < length es")
    case True
    with lock_entry [OF ok True] lookup show ?thesis
      by (cases "handles H v") (auto simp: handle_table_ok_def split: if_splits)
  next
    case False
    with lookup show ?thesis by (simp add: handles_entries [OF e])
  qed
qed

section \<open>Enumeration\<close>

text \<open>The values in use in ascending order, and a callback that runs over a list until it says stop.\<close>

definition values_in_use :: "PH_HANDLE_TABLE \<Rightarrow> ulong list" where
  "values_in_use H = filter (\<lambda>v. handles H v \<noteq> None) (map of_nat [0..<unat (ht_NextValue H)])"

fun visit_until :: "('a \<Rightarrow> 'c \<Rightarrow> bool \<times> 'c) \<Rightarrow> 'a list \<Rightarrow> 'c \<Rightarrow> 'c" where
  "visit_until f [] c = c"
| "visit_until f (x # xs) c = (let r = f x c in if fst r then visit_until f xs (snd r) else snd r)"

text \<open>The same when each element must be free first: \<open>None\<close> when one that is not is reached.\<close>

fun visit_free :: "('a \<Rightarrow> bool) \<Rightarrow> ('a \<Rightarrow> 'c \<Rightarrow> bool \<times> 'c) \<Rightarrow> 'a list \<Rightarrow> 'c \<Rightarrow> 'c option" where
  "visit_free free f [] c = Some c"
| "visit_free free f (x # xs) c =
     (if \<not> free x then None else let r = f x c in if fst r then visit_free free f xs (snd r) else Some (snd r))"

lemma visit_free_all: "\<forall>x\<in>set xs. free x \<Longrightarrow> visit_free free f xs c = Some (visit_until f xs c)"
  by (induction xs arbitrary: c) (simp_all add: Let_def)

definition in_use_from :: "PH_HANDLE_TABLE \<Rightarrow> nat \<Rightarrow> ulong list" where
  "in_use_from H k = filter (\<lambda>v. handles H v \<noteq> None) (map of_nat [k..<unat (ht_NextValue H)])"

lemma in_use_from_step:
  "k < unat (ht_NextValue H) \<Longrightarrow>
     in_use_from H k = (if handles H (of_nat k) \<noteq> None then of_nat k # in_use_from H (Suc k) else in_use_from H (Suc k))"
  by (simp add: in_use_from_def upt_conv_Cons)

lemma sweep_loop_correct:
  assumes "entries H es" and "unat k \<le> length es"
  shows "sweep_loop callback H k c
    = Some (visit_until (\<lambda>v. callback (PhpEncodeHandle v) (the (handles H v))) (in_use_from H (unat k)) c)"
  using assms(2)
proof (induction "length es - unat k" arbitrary: k c)
  case 0
  then have k: "unat k = length es" by simp
  have "unat (ht_NextValue H) = length es" using assms(1) by (simp add: entries_def)
  then show ?case
    by (subst sweep_loop.simps) (simp add: entries_lookup [OF assms(1)] in_use_from_def k)
next
  case (Suc m)
  then have k: "unat k < length es" by simp
  have n: "unat (ht_NextValue H) = length es" using assms(1) by (simp add: entries_def)
  have s: "unat (k + 1) = Suc (unat k)"
    using k entries_bound [OF assms(1)] by (simp add: unat_plus_no_overflow)
  have IH: "sweep_loop callback H (k + 1) c
    = Some (visit_until (\<lambda>v. callback (PhpEncodeHandle v) (the (handles H v))) (in_use_from H (Suc (unat k))) c)" for c
    using Suc(1) [of "k + 1" c] Suc(2) k s by simp
  show ?case
    using k n in_use_from_step [of "unat k" H]
    by (subst sweep_loop.simps)
      (simp add: entries_lookup [OF assms(1)] entries_get [OF assms(1)] handles_entries [OF assms(1)] IH Let_def)
qed

lemma lock_and_unlock:
  assumes ok: "ok_with H es fs gs" and v: "handles H v = Some e" and u: "unlocked e"
  shows "\<exists>H1 H2. PhLockHandleTableEntry H v = Some (True, H1) \<and> get_entry (ht_Table H1) v = Some (locked_entry e)
    \<and> PhUnlockHandleTableEntry H1 v = Some H2 \<and> ok_with H2 es fs gs
    \<and> ht_Count H2 = ht_Count H \<and> ht_Flags H2 = ht_Flags H"
proof -
  have e: "unat v < length es" "es ! unat v = e" using v handles_Some [OF ok] by blast+
  from lock_entry [OF ok e(1)] v u obtain H1 where l: "PhLockHandleTableEntry H v = Some (True, H1)"
    "ok_with H1 (es[unat v := locked_entry e]) fs gs" "handles H1 = (handles H)(v \<mapsto> locked_entry e)"
    "ht_Count H1 = ht_Count H" "ht_Flags H1 = ht_Flags H"
    by auto
  moreover have "get_entry (ht_Table H1) v = Some (locked_entry e)"
    using l(2) e(1) by (auto simp: ok_with_def entries_get)
  moreover from unlock_entry [OF l(2), of v "locked_entry e"] l(3) obtain H2 where
    "PhUnlockHandleTableEntry H1 v = Some H2"
    "ok_with H2 (es[unat v := locked_entry e, unat v := unlocked_entry (locked_entry e)]) fs gs"
    "ht_Count H2 = ht_Count H1" "ht_Flags H2 = ht_Flags H1"
    by auto
  ultimately show ?thesis using relock [OF u] e(2) by auto
qed

lemma same_entries:
  assumes "ok_with H es fs gs" and "ok_with H' es fs gs"
  shows "handles H' = handles H" and "ht_NextValue H' = ht_NextValue H"
proof -
  have "entries H es" "entries H' es" using assms by (simp_all add: ok_with_def)
  then show "handles H' = handles H" by (simp add: handles_entries fun_eq_iff)
  have "unat (ht_NextValue H') = unat (ht_NextValue H)"
    using \<open>entries H es\<close> \<open>entries H' es\<close> by (simp add: entries_def)
  then show "ht_NextValue H' = ht_NextValue H" using unat_distinct by blast
qed

text \<open>A handle whose entry is not locked, and the call for it, which sees the entry locked.\<close>

definition free_handle :: "PH_HANDLE_TABLE \<Rightarrow> ulong \<Rightarrow> bool" where
  "free_handle H v = unlocked (the (handles H v))"

definition call_back ::
  "(ulong64 \<Rightarrow> handle_entry \<Rightarrow> 'c \<Rightarrow> bool \<times> 'c) \<Rightarrow> PH_HANDLE_TABLE \<Rightarrow> ulong \<Rightarrow> 'c \<Rightarrow> bool \<times> 'c"
where
  "call_back callback H v = callback (PhpEncodeHandle v) (locked_entry (the (handles H v)))"

lemma enum_loop_correct:
  assumes "ok_with H es fs gs" and "unat k \<le> length es"
  shows "case visit_free (free_handle H) (call_back callback H) (in_use_from H (unat k)) c of
      None \<Rightarrow> enum_handles_loop callback H k c = None
    | Some c' \<Rightarrow> \<exists>H'. enum_handles_loop callback H k c = Some (H', c')
        \<and> ok_with H' es fs gs \<and> ht_Count H' = ht_Count H \<and> ht_Flags H' = ht_Flags H"
  using assms
proof (induction "length es - unat k" arbitrary: H k c)
  case 0
  then have k: "unat k = length es" by simp
  have e: "entries H es" "unat (ht_NextValue H) = length es"
    using "0.prems"(1) by (simp_all add: ok_with_def entries_def)
  with 0 k show ?case
    by (subst enum_handles_loop.simps) (simp add: entries_lookup [OF e(1)] in_use_from_def)
next
  case (Suc m)
  then have k: "unat k < length es" by simp
  have e: "entries H es" "unat (ht_NextValue H) = length es"
    using Suc.prems(1) by (simp_all add: ok_with_def entries_def)
  have s: "unat (k + 1) = Suc (unat k)" "m = length es - unat (k + 1)" "unat (k + 1) \<le> length es"
    using Suc(2) k entries_bound [OF e(1)] by (simp_all add: unat_plus_no_overflow)
  show ?case
  proof (cases "handles H k")
    case None
    with lock_entry [OF Suc.prems(1) k] have loop: "enum_handles_loop callback H k c = enum_handles_loop callback H (k + 1) c"
      using k by (subst enum_handles_loop.simps) (simp add: entries_lookup [OF e(1)])
    have step: "in_use_from H (unat k) = in_use_from H (unat (k + 1))"
      using None in_use_from_step [of "unat k" H] k e(2) s(1) by simp
    show ?thesis unfolding loop step by (rule Suc.hyps(1) [OF s(2) Suc.prems(1) s(3)])
  next
    case (Some x)
    have step: "in_use_from H (unat k) = k # in_use_from H (Suc (unat k))"
      using in_use_from_step [of "unat k" H] Some k e(2) by simp
    show ?thesis
    proof (cases "unlocked x")
      case False
      with lock_entry [OF Suc.prems(1) k] Some have "PhLockHandleTableEntry H k = None" by simp
      then have "enum_handles_loop callback H k c = None"
        using k by (subst enum_handles_loop.simps) (simp add: entries_lookup [OF e(1)])
      with step Some False show ?thesis by (simp add: free_handle_def)
    next
      case True
      with lock_and_unlock [OF Suc.prems(1) Some] obtain H1 H2 where
        l: "PhLockHandleTableEntry H k = Some (True, H1)" "get_entry (ht_Table H1) k = Some (locked_entry x)"
          "PhUnlockHandleTableEntry H1 k = Some H2" "ok_with H2 es fs gs"
          "ht_Count H2 = ht_Count H" "ht_Flags H2 = ht_Flags H"
        by blast
      let ?r = "callback (PhpEncodeHandle k) (locked_entry x) c"
      have loop: "enum_handles_loop callback H k c =
          (if fst ?r then enum_handles_loop callback H2 (k + 1) (snd ?r) else Some (H2, snd ?r))"
        using k l by (subst enum_handles_loop.simps) (simp add: entries_lookup [OF e(1)] Let_def)
      have same: "free_handle H2 = free_handle H" "call_back callback H2 = call_back callback H" "in_use_from H2 = in_use_from H"
        using same_entries [OF Suc.prems(1) l(4)]
        by (simp_all add: in_use_from_def [abs_def] free_handle_def [abs_def] call_back_def [abs_def])
      have f: "free_handle H k" "call_back callback H k c = ?r"
        using Some True by (simp_all add: free_handle_def call_back_def)
      show ?thesis
        using Suc.hyps(1) [OF s(2) l(4) s(3), of "snd ?r"] l(4-6) f
        unfolding loop step same s(1) by (auto simp: Let_def split: option.splits)
    qed
  qed
qed

text \<open>Enumerating.\<close>

lemma enum_handles_ok:
  assumes "handle_table_ok H"
  shows "case visit_free (free_handle H) (call_back callback H) (values_in_use H) c of
      None \<Rightarrow> PhEnumHandleTable callback H c = None
    | Some c' \<Rightarrow> \<exists>H'. PhEnumHandleTable callback H c = Some (H', c')
        \<and> handle_table_ok H' \<and> handles H' = handles H \<and> ht_Count H' = ht_Count H \<and> ht_Flags H' = ht_Flags H"
proof -
  from assms obtain es fs gs where ok: "ok_with H es fs gs" by (auto simp: handle_table_ok_def)
  have v: "values_in_use H = in_use_from H (unat (0::ulong))" by (simp add: values_in_use_def in_use_from_def)
  from enum_loop_correct [OF ok, of 0 callback c] same_entries(1) [OF ok] show ?thesis
    unfolding v PhEnumHandleTable_def handle_table_ok_def by (auto split: option.splits)
qed

lemma PhSweepHandleTable_ok:
  assumes "handle_table_ok H"
  shows "PhSweepHandleTable callback H c
      = Some (visit_until (\<lambda>v. callback (PhpEncodeHandle v) (the (handles H v))) (values_in_use H) c)"
proof -
  from assms obtain es where e: "entries H es" by (auto simp: handle_table_ok_def ok_with_def)
  from sweep_loop_correct [OF e, of 0 callback c] show ?thesis
    by (simp add: PhSweepHandleTable_def values_in_use_def in_use_from_def)
qed

section \<open>Information\<close>

lemma PhSetInformationHandleTable_ok:
  assumes "handle_table_ok H"
  shows "handle_table_ok (snd (PhSetInformationHandleTable H c flags n))
    \<and> handles (snd (PhSetInformationHandleTable H c flags n)) = handles H"
  using assms
  by (auto simp: PhSetInformationHandleTable_def handle_table_ok_def ok_with_def handles_def fun_eq_iff
      split: information_class.splits)

lemma PhSetInformationHandleTable_status:
  "fst (PhSetInformationHandleTable H HandleTableFlagsInformation flags 4)
    = (if flags AND PH_HANDLE_TABLE_VALID_FLAGS = flags then STATUS_SUCCESS else STATUS_INVALID_PARAMETER)"
  by (simp add: PhSetInformationHandleTable_def)

section \<open>Creating and destroying a table\<close>

lemma PhCreateHandleTable_ok:
  assumes "allocation_ok a"
  shows "case PhCreateHandleTable a of
      None \<Rightarrow> al_Level0 a = None
    | Some H \<Rightarrow> handle_table_ok H \<and> handles H = (\<lambda>v. None) \<and> ht_Count H = 0"
proof (cases "al_Level0 a")
  case (Some b)
  with assms have b: "length b = 256" by (simp add: allocation_ok_def)
  let ?es = "init_entries b 1" and ?fs = "new_values 0 0"
  let ?H = "\<lparr> ht_Count = 0, ht_Table = Level0 ?es, ht_FreeValue = 0, ht_NextValue = 256,
         ht_FreeValueAlt = PH_HANDLE_VALUE_INVALID, ht_Flags = 0 \<rparr>"
  have "represents (Level0 ?es) ?es"
    using b unfolding represents_def shape_def by (intro exI [of _ "[?es]"]) simp
  then have e: "entries ?H ?es" using b by (simp add: entries_def)
  have f: "is_free (?es ! unat v)" "he_Value (?es ! unat v) = PH_HANDLE_TABLE_ENTRY_FREE" if "unat v < 256" for v :: ulong
    using init_entries_nth [of "unat v" b 1] that b free_constant by simp_all
  have "frees ?es ?fs"
    using f b new_values_distinct [of 0] by (simp add: frees_def new_values_set)
  moreover have "value_chain ?es 0 ?fs" using new_values_chain [of "[]" 0 b 0 1] b by simp
  moreover have "length ?fs = 256" by (simp add: new_values_def)
  ultimately have "ok_with ?H ?es ?fs []" using e b by (simp add: ok_with_def)
  moreover have "handles ?H = (\<lambda>v. None)" using f b by (simp add: handles_entries [OF e] fun_eq_iff)
  moreover have "PhCreateHandleTable a = Some ?H"
    using Some by (simp add: PhCreateHandleTable_def PhpCreateHandleTableLevel0_def)
  ultimately show ?thesis by (auto simp: handle_table_ok_def)
qed (simp add: PhCreateHandleTable_def PhpCreateHandleTableLevel0_def)

text \<open>Destroying the table.\<close>

lemma destroy_table_ok:
  assumes "handle_table_ok H"
  shows "length (concat (PhDestroyHandleTable H)) = unat (ht_NextValue H)
    \<and> (\<forall>b\<in>set (PhDestroyHandleTable H). length b = 256)
    \<and> (\<forall>v < ht_NextValue H. get_entry (ht_Table H) v = Some (concat (PhDestroyHandleTable H) ! unat v))"
proof -
  from assms obtain es where e: "entries H es" by (auto simp: handle_table_ok_def ok_with_def)
  then have "represents (ht_Table H) es" by (simp add: entries_def)
  from rep_destroy [OF this] e show ?thesis
    by (auto simp: entries_get [OF e] entries_def word_less_nat_alt)
qed

section \<open>Histories\<close>

lemma count_handles:
  assumes "handle_table_ok H"
  shows "unat (ht_Count H) = card (dom (handles H))"
proof -
  from assms obtain es fs gs where ok: "ok_with H es fs gs" by (auto simp: handle_table_ok_def)
  then have f: "frees es (fs @ gs)" and c: "unat (ht_Count H) + length (fs @ gs) = length es"
    and len: "length es \<le> 16777216"
    using entries_bound [of H es] by (simp_all add: ok_with_def)
  let ?V = "{v :: ulong. unat v < length es}"
  have V: "bij_betw unat ?V {..<length es}"
  proof (intro bij_betw_imageI inj_onI)
    show "unat ` ?V = {..<length es}"
    proof (intro equalityI subsetI)
      fix n assume n: "n \<in> {..<length es}"
      then have "unat (of_nat n :: ulong) = n" using unat_value [of 0 n] len by simp
      with n show "n \<in> unat ` ?V" by (metis imageI lessThan_iff mem_Collect_eq)
    qed auto
  qed (use unat_distinct in blast)
  then have card: "card ?V = length es" using bij_betw_same_card by fastforce
  have fin: "finite ?V" using V bij_betw_finite by blast
  have "dom (handles H) = {v. unat v < length es \<and> \<not> is_free (es ! unat v)}"
    using handles_Some [OF ok] by (auto simp: dom_def)
  moreover have "set (fs @ gs) = {v. unat v < length es \<and> is_free (es ! unat v)}"
    using ok_bounds [OF ok] f unfolding frees_def by blast
  ultimately have "?V = dom (handles H) \<union> set (fs @ gs)" "dom (handles H) \<inter> set (fs @ gs) = {}"
    by blast+
  moreover from this(1) fin have "finite (dom (handles H))" by (metis finite_Un)
  ultimately have "card ?V = card (dom (handles H)) + card (set (fs @ gs))"
    by (metis List.finite_set card_Un_disjoint)
  moreover have "card (set (fs @ gs)) = length (fs @ gs)" using f by (metis distinct_card frees_def)
  ultimately show ?thesis using c card by simp
qed

text \<open>
  The operations of a client, the map that they mean, and the calls that do not come back: waiting for
  an entry that is locked. Unlocking an entry that is not in use is an error of the client.
\<close>

datatype handle_op =
    CreateHandle allocation handle_entry
  | DestroyHandle ulong64
  | LookupHandle ulong64
  | UnlockEntry ulong
  | SetFlags ulong

datatype handle_result = Created ulong64 | Destroyed bool | Found "ulong option" | Unlocked | Status ntstatus

definition run_handle_op :: "handle_op \<Rightarrow> PH_HANDLE_TABLE \<Rightarrow> (handle_result \<times> PH_HANDLE_TABLE) option" where
  "run_handle_op op H =
     (case op of
        CreateHandle a entry \<Rightarrow> map_option (map_prod Created id) (PhCreateHandle a H entry)
      | DestroyHandle h \<Rightarrow> map_option (map_prod Destroyed id) (PhDestroyHandle H h None)
      | LookupHandle h \<Rightarrow> map_option (map_prod Found id) (PhLookupHandleTableEntry H h)
      | UnlockEntry v \<Rightarrow>
          if handles H v = None then None else map_option (Pair Unlocked) (PhUnlockHandleTableEntry H v)
      | SetFlags flags \<Rightarrow>
          Some (map_prod Status id (PhSetInformationHandleTable H HandleTableFlagsInformation flags 4)))"

fun run_handle_ops :: "handle_op list \<Rightarrow> PH_HANDLE_TABLE \<Rightarrow> handle_result list \<times> PH_HANDLE_TABLE \<times> handle_op list" where
  "run_handle_ops [] H = ([], H, [])"
| "run_handle_ops (op # ops) H =
     (case run_handle_op op H of
        None \<Rightarrow> ([], H, op # ops)
      | Some (r, H) \<Rightarrow> (let (rs, H, rest) = run_handle_ops ops H in (r # rs, H, rest)))"

type_synonym handle_map = "ulong \<Rightarrow> handle_entry option"

inductive handle_step :: "handle_map \<Rightarrow> handle_op \<Rightarrow> handle_result \<Rightarrow> handle_map \<Rightarrow> bool" where
  created: "m (PhpDecodeHandle h) = None \<Longrightarrow> h = PhpEncodeHandle (PhpDecodeHandle h) \<Longrightarrow> h \<noteq> 0 \<Longrightarrow>
    handle_step m (CreateHandle a entry) (Created h) (m(PhpDecodeHandle h \<mapsto> stored_entry entry))"
| not_created: "no_memory a \<or> (\<forall>v. unat v < 16777216 \<longrightarrow> m v \<noteq> None) \<Longrightarrow>
    handle_step m (CreateHandle a entry) (Created 0) m"
| destroyed: "m (PhpDecodeHandle h) = Some e \<Longrightarrow> unlocked e \<Longrightarrow>
    handle_step m (DestroyHandle h) (Destroyed True) (m(PhpDecodeHandle h := None))"
| not_destroyed: "m (PhpDecodeHandle h) = None \<Longrightarrow> handle_step m (DestroyHandle h) (Destroyed False) m"
| found: "m (PhpDecodeHandle h) = Some e \<Longrightarrow> unlocked e \<Longrightarrow>
    handle_step m (LookupHandle h) (Found (Some (PhpDecodeHandle h))) (m(PhpDecodeHandle h \<mapsto> locked_entry e))"
| not_found: "m (PhpDecodeHandle h) = None \<Longrightarrow> handle_step m (LookupHandle h) (Found None) m"
| unlocked: "m v = Some e \<Longrightarrow> handle_step m (UnlockEntry v) Unlocked (m(v \<mapsto> unlocked_entry e))"
| flags_set: "s = (if flags AND PH_HANDLE_TABLE_VALID_FLAGS = flags then STATUS_SUCCESS else STATUS_INVALID_PARAMETER) \<Longrightarrow>
    handle_step m (SetFlags flags) (Status s) m"

inductive handle_steps :: "handle_map \<Rightarrow> handle_op list \<Rightarrow> handle_result list \<Rightarrow> handle_map \<Rightarrow> bool" where
  no_steps: "handle_steps m [] [] m"
| more_steps: "handle_step m op r m' \<Longrightarrow> handle_steps m' ops rs m'' \<Longrightarrow> handle_steps m (op # ops) (r # rs) m''"

definition op_waits :: "handle_map \<Rightarrow> handle_op \<Rightarrow> bool" where
  "op_waits m op =
     (let locked = (\<lambda>h. case m (PhpDecodeHandle h) of None \<Rightarrow> False | Some e \<Rightarrow> \<not> unlocked e)
      in case op of CreateHandle _ _ \<Rightarrow> False | DestroyHandle h \<Rightarrow> locked h | LookupHandle h \<Rightarrow> locked h
         | UnlockEntry v \<Rightarrow> m v = None | SetFlags _ \<Rightarrow> False)"

definition op_ok :: "handle_op \<Rightarrow> bool" where
  "op_ok op = (case op of CreateHandle a _ \<Rightarrow> allocation_ok a | _ \<Rightarrow> True)"

lemma run_op_correct:
  assumes ok: "handle_table_ok H" and op: "op_ok op"
  shows "if op_waits (handles H) op then run_handle_op op H = None
    else \<exists>r H'. run_handle_op op H = Some (r, H') \<and> handle_table_ok H' \<and> handle_step (handles H) op r (handles H')"
proof (cases op)
  case (CreateHandle a entry)
  with op have a: "allocation_ok a" by (simp add: op_ok_def)
  from create_handle_ok [OF ok a, of entry] obtain h H' where c:
    "PhCreateHandle a H entry = Some (h, H')" "handle_table_ok H'"
    "(h \<noteq> 0 \<and> h = PhpEncodeHandle (PhpDecodeHandle h) \<and> handles H (PhpDecodeHandle h) = None
          \<and> handles H' = (handles H)(PhpDecodeHandle h \<mapsto> stored_entry entry))
      \<or> (h = 0 \<and> handles H' = handles H \<and> (no_memory a \<or> (\<forall>v. unat v < 16777216 \<longrightarrow> handles H v \<noteq> None)))"
    by blast
  from c(3) have "handle_step (handles H) op (Created h) (handles H')"
    unfolding CreateHandle by (elim disjE conjE) (simp_all add: handle_step.intros)
  with c CreateHandle show ?thesis by (auto simp: run_handle_op_def op_waits_def Let_def)
next
  case (DestroyHandle h)
  let ?v = "PhpDecodeHandle h"
  show ?thesis
  proof (cases "\<exists>e. handles H ?v = Some e \<and> unlocked e")
    case True
    then obtain e where e: "handles H ?v = Some e" "unlocked e" by blast
    with destroy_handle_ok [OF ok refl, of h] obtain H' where
      "PhDestroyHandle H h None = Some (True, H')" "handle_table_ok H'" "handles H' = (handles H)(?v := None)"
      by auto
    with DestroyHandle e show ?thesis
      using handle_step.destroyed [of "handles H" h e] by (simp add: run_handle_op_def op_waits_def)
  next
    case False
    with DestroyHandle ok destroy_handle_ok [OF ok refl, of h] show ?thesis
      by (cases "handles H ?v") (auto simp: run_handle_op_def op_waits_def intro: handle_step.intros)
  qed
next
  case (LookupHandle h)
  let ?v = "PhpDecodeHandle h"
  show ?thesis
  proof (cases "\<exists>e. handles H ?v = Some e \<and> unlocked e")
    case True
    then obtain e where e: "handles H ?v = Some e" "unlocked e" by blast
    with PhLookupHandleTableEntry_ok [OF ok refl, of h] obtain H' where
      "PhLookupHandleTableEntry H h = Some (Some ?v, H')" "handle_table_ok H'" "handles H' = (handles H)(?v \<mapsto> locked_entry e)"
      by auto
    with LookupHandle e show ?thesis
      using handle_step.found [of "handles H" h e] by (simp add: run_handle_op_def op_waits_def)
  next
    case False
    with LookupHandle ok PhLookupHandleTableEntry_ok [OF ok refl, of h] show ?thesis
      by (cases "handles H ?v") (auto simp: run_handle_op_def op_waits_def intro: handle_step.intros)
  qed
next
  case (UnlockEntry v)
  from ok obtain es fs gs where o: "ok_with H es fs gs" by (auto simp: handle_table_ok_def)
  show ?thesis
  proof (cases "handles H v")
    case (Some e)
    from unlock_entry [OF o Some] obtain H' where
      "PhUnlockHandleTableEntry H v = Some H'" "ok_with H' (es[unat v := unlocked_entry e]) fs gs"
      "handles H' = (handles H)(v \<mapsto> unlocked_entry e)"
      by blast
    with UnlockEntry Some show ?thesis
      using handle_step.unlocked [of "handles H" v e] by (auto simp: run_handle_op_def op_waits_def handle_table_ok_def)
  qed (simp add: UnlockEntry run_handle_op_def op_waits_def)
next
  case (SetFlags flags)
  with PhSetInformationHandleTable_ok [OF ok, of HandleTableFlagsInformation flags 4]
    PhSetInformationHandleTable_status [of H flags] show ?thesis
    by (cases "PhSetInformationHandleTable H HandleTableFlagsInformation flags 4")
      (auto simp: run_handle_op_def op_waits_def intro: handle_step.flags_set)
qed

lemma run_ops_correct:
  assumes "handle_table_ok H" and "list_all op_ok ops" and "run_handle_ops ops H = (rs, H', rest)"
  shows "\<exists>ran. ops = ran @ rest \<and> handle_steps (handles H) ran rs (handles H') \<and> handle_table_ok H'
    \<and> (rest \<noteq> [] \<longrightarrow> op_waits (handles H') (hd rest))"
  using assms
proof (induction ops arbitrary: H rs)
  case Nil
  then show ?case by (auto intro: no_steps)
next
  case (Cons op ops)
  show ?case
  proof (cases "run_handle_op op H")
    case None
    with Cons.prems run_op_correct [OF Cons.prems(1), of op] show ?thesis
      by (auto intro: no_steps split: if_splits)
  next
    case (Some x)
    then obtain r H1 where x: "run_handle_op op H = Some (r, H1)" by (cases x) simp
    from x Cons.prems(3) obtain rs1 where rs: "run_handle_ops ops H1 = (rs1, H', rest)" "rs = r # rs1"
      by (auto simp: Let_def split: prod.splits)
    from run_op_correct [OF Cons.prems(1), of op] Cons.prems(2) x
    have s: "handle_table_ok H1" "handle_step (handles H) op r (handles H1)" "list_all op_ok ops"
      by (auto split: if_splits)
    from Cons.IH [OF s(1,3) rs(1)] obtain ran where "ops = ran @ rest" "handle_steps (handles H1) ran rs1 (handles H')"
      "handle_table_ok H'" "rest \<noteq> [] \<longrightarrow> op_waits (handles H') (hd rest)"
      by blast
    with rs(2) s(2) show ?thesis by (intro exI [of _ "op # ran"]) (simp add: more_steps)
  qed
qed

section \<open>The table as a table of handles\<close>

text \<open>
  With memory to spare a handle table keeps the contract of a table of handles, for entries whose two low
  bits say that they are in use and not locked, as the table itself stores them.
\<close>

definition create_entry :: "allocation \<Rightarrow> PH_HANDLE_TABLE \<Rightarrow> handle_entry \<Rightarrow> (ulong \<times> PH_HANDLE_TABLE) option" where
  "create_entry a H e =
     Option.bind (PhCreateHandle a H e) (\<lambda>(h, H). if h = 0 then None else Some (PhpDecodeHandle h, H))"

definition destroy_entry :: "PH_HANDLE_TABLE \<Rightarrow> ulong \<Rightarrow> PH_HANDLE_TABLE option" where
  "destroy_entry H v = map_option snd (PhDestroyHandle H (PhpEncodeHandle v) (Some v))"

definition plenty :: allocation where
  "plenty = \<lparr> al_Level0 = Some (replicate 256 \<lparr> he_Value = 0, he_Value2 = 0 \<rparr>), al_Level1 = True, al_Level2 = True \<rparr>"

lemma handles_bound: "handle_table_ok H \<Longrightarrow> handles H v \<noteq> None \<Longrightarrow> unat v < 16777216"
  using entries_bound by (fastforce simp: handle_table_ok_def ok_with_def handles_entries split: if_splits)

lemma handles_finite: "finite (dom (handles H))"
  by (rule finite_subset [OF subset_UNIV]) simp

lemma values_card: "card {v :: ulong. unat v < 16777216} = 16777216"
proof -
  have "bij_betw unat {v :: ulong. unat v < 16777216} {..<16777216}"
  proof (intro bij_betw_imageI inj_onI)
    show "unat ` {v :: ulong. unat v < 16777216} = {..<16777216}"
    proof (intro equalityI subsetI)
      fix n :: nat assume n: "n \<in> {..<16777216}"
      then have "unat (of_nat n :: ulong) = n" using unat_value [of 0 n] by simp
      with n show "n \<in> unat ` {v :: ulong. unat v < 16777216}" by (metis imageI lessThan_iff mem_Collect_eq)
    qed auto
  qed (use unat_distinct in blast)
  then show ?thesis using bij_betw_same_card by fastforce
qed

lemma some_value_free:
  assumes "card (dom (handles H)) < 16777216"
  shows "\<exists>v. unat v < 16777216 \<and> handles H v = None"
proof (rule ccontr)
  assume "\<not> ?thesis"
  then have "{v. unat v < 16777216} \<subseteq> dom (handles H)" by (auto simp: dom_def)
  from card_mono [OF handles_finite this] assms values_card show False by simp
qed

interpretation ht: handle_table handle_table_ok handles "\<lambda>e. stored_entry e = e" 16777216
  "create_entry plenty" destroy_entry
proof
  fix H :: PH_HANDLE_TABLE and e
  assume ok: "handle_table_ok H" and e: "stored_entry e = e" and c: "card (dom (handles H)) < 16777216"
  have a: "allocation_ok plenty" "\<not> no_memory plenty"
    by (simp_all add: plenty_def allocation_ok_def no_memory_def)
  from create_handle_ok [OF ok a(1), of e] a(2) some_value_free [OF c]
  obtain h H' where "PhCreateHandle plenty H e = Some (h, H')" "h \<noteq> 0" "handle_table_ok H'"
    "handles H (PhpDecodeHandle h) = None" "handles H' = (handles H)(PhpDecodeHandle h \<mapsto> e)"
    unfolding e by blast
  then show "\<exists>v H'. create_entry plenty H e = Some (v, H') \<and> handle_table_ok H' \<and> handles H v = None
      \<and> handles H' = (handles H)(v \<mapsto> e)"
    by (auto simp: create_entry_def)
next
  fix H :: PH_HANDLE_TABLE and v
  assume ok: "handle_table_ok H" and v: "handles H v \<noteq> None"
  have d: "PhpDecodeHandle (PhpEncodeHandle v) = v" using decode_encode(1) handles_bound [OF ok v] by simp
  with destroy_handle_ok [OF ok refl, of "PhpEncodeHandle v"] v
  show "\<exists>H'. destroy_entry H v = Some H' \<and> handle_table_ok H' \<and> handles H' = (handles H)(v := None)"
    by (auto simp: destroy_entry_def)
qed (rule handles_finite)

text \<open>So the handles that a client creates one after the other are all different.\<close>

lemma create_entries_distinct:
  assumes "handle_table_ok H" and "\<forall>e\<in>set es. stored_entry e = e" and "card (dom (handles H)) + length es \<le> 16777216"
  shows "\<exists>vs H'. add_pointers (create_entry plenty) H es = Some (vs, H') \<and> handle_table_ok H' \<and> distinct vs
    \<and> handles H' = (handles H)(vs [\<mapsto>] es)"
  using ht.add_pointers_table [OF assms(1) _ assms(3)] assms(2) by (auto simp: list_all_iff)

section \<open>Properties\<close>

text \<open>
  C24. Creating a handle always returns: there is a handle that nobody has, never \<open>NULL\<close>, that stands for a
  copy of the entry, in use and not locked, or there is \<open>NULL\<close> and nothing has changed; the latter only
  when memory is exhausted or all 16,777,216 values are in use. The other handles and the count of them
  are as they should be, and the flags stay.
\<close>

theorem PhCreateHandle_correct:
  assumes "handle_table_ok H" and "allocation_ok a"
  shows "\<exists>h H'. PhCreateHandle a H entry = Some (h, H') \<and> handle_table_ok H' \<and> ht_Flags H' = ht_Flags H
    \<and> (h \<noteq> 0 \<and> h = PhpEncodeHandle (PhpDecodeHandle h) \<and> handles H (PhpDecodeHandle h) = None
          \<and> handles H' = (handles H)(PhpDecodeHandle h \<mapsto> stored_entry entry) \<and> ht_Count H' = ht_Count H + 1
      \<or> h = 0 \<and> handles H' = handles H \<and> ht_Count H' = ht_Count H
          \<and> (no_memory a \<or> (\<forall>v. unat v < 16777216 \<longrightarrow> handles H v \<noteq> None)))"
  using assms by (rule create_handle_ok)

text \<open>
  C23. Destroying a handle says \<open>FALSE\<close> and does nothing when the handle is not in use, op_waits when another
  owner has the entry locked, and otherwise, or when the caller passes the entry that it holds, takes
  exactly this handle out of the table, on either free list.
\<close>

theorem PhDestroyHandle_correct:
  assumes "handle_table_ok H" and "v = PhpDecodeHandle h"
  shows "(case handles H v of
       None \<Rightarrow> PhDestroyHandle H h None = Some (False, H)
     | Some e \<Rightarrow>
        if unlocked e
        then \<exists>H'. PhDestroyHandle H h None = Some (True, H') \<and> handle_table_ok H' \<and> handles H' = (handles H)(v := None)
               \<and> ht_Count H' = ht_Count H - 1 \<and> ht_Flags H' = ht_Flags H
        else PhDestroyHandle H h None = None)
    \<and> (handles H v \<noteq> None \<longrightarrow> (\<exists>H'. PhDestroyHandle H h (Some v) = Some (True, H') \<and> handle_table_ok H'
         \<and> handles H' = (handles H)(v := None) \<and> ht_Count H' = ht_Count H - 1 \<and> ht_Flags H' = ht_Flags H))"
  using assms by (rule destroy_handle_ok)

text \<open>
  C39. The enumerations call back for the handles in use in ascending order, until the callback says stop. The
  first one locks the entry for the call. When it reaches an entry that is locked it waits (\<open>None\<close>: for ever, unless
  another thread unlocks the entry); otherwise it ends, and the table means the same as before. So it ends when no entry
  is locked. The second one does not lock and always ends.
\<close>

theorem PhEnumHandleTable_correct:
  assumes "handle_table_ok H"
  shows "(case visit_free (free_handle H) (call_back callback H) (values_in_use H) c of
        None \<Rightarrow> PhEnumHandleTable callback H c = None
      | Some c' \<Rightarrow> \<exists>H'. PhEnumHandleTable callback H c = Some (H', c')
          \<and> handle_table_ok H' \<and> handles H' = handles H \<and> ht_Count H' = ht_Count H \<and> ht_Flags H' = ht_Flags H)
    \<and> ((\<forall>v e. handles H v = Some e \<longrightarrow> unlocked e) \<longrightarrow>
         visit_free (free_handle H) (call_back callback H) (values_in_use H) c
           = Some (visit_until (call_back callback H) (values_in_use H) c))
    \<and> PhSweepHandleTable callback H c
      = Some (visit_until (\<lambda>v. callback (PhpEncodeHandle v) (the (handles H v))) (values_in_use H) c)"
proof -
  have "visit_free (free_handle H) (call_back callback H) (values_in_use H) c
      = Some (visit_until (call_back callback H) (values_in_use H) c)" if "\<forall>v e. handles H v = Some e \<longrightarrow> unlocked e"
    by (rule visit_free_all) (use that in \<open>auto simp: values_in_use_def free_handle_def\<close>)
  then show ?thesis
    using enum_handles_ok [OF assms, of callback c] PhSweepHandleTable_ok [OF assms, of callback c] by blast
qed

text \<open>
  C1. From a new table on, every sequence of operations does to the finite map from handles to entries what
  the operations mean, up to the first one that op_waits for an entry that is locked. The count is the size
  of the map, and destroying the table gives back every block of entries, once.
\<close>

theorem handle_table_history:
  assumes "PhCreateHandleTable a = Some H" and "allocation_ok a" and "list_all op_ok ops"
    and "run_handle_ops ops H = (results, H', rest)"
  shows "(\<exists>ran. ops = ran @ rest \<and> handle_steps (\<lambda>v. None) ran results (handles H'))
    \<and> (rest \<noteq> [] \<longrightarrow> op_waits (handles H') (hd rest))
    \<and> handle_table_ok H' \<and> unat (ht_Count H') = card (dom (handles H'))
    \<and> (\<forall>b\<in>set (PhDestroyHandleTable H'). length b = 256)
    \<and> map Some (concat (PhDestroyHandleTable H'))
        = map (get_entry (ht_Table H')) (map of_nat [0..<unat (ht_NextValue H')])"
proof -
  have H: "handle_table_ok H" "handles H = (\<lambda>v. None)"
    using PhCreateHandleTable_ok [OF assms(2)] assms(1) by simp_all
  from run_ops_correct [OF H(1) assms(3,4)] H(2) obtain ran where
    ran: "ops = ran @ rest" "handle_steps (\<lambda>v. None) ran results (handles H')" "handle_table_ok H'"
      "rest \<noteq> [] \<longrightarrow> op_waits (handles H') (hd rest)"
    by auto
  have d: "length (concat (PhDestroyHandleTable H')) = unat (ht_NextValue H')"
      "\<forall>b\<in>set (PhDestroyHandleTable H'). length b = 256"
      "\<forall>v < ht_NextValue H'. get_entry (ht_Table H') v = Some (concat (PhDestroyHandleTable H') ! unat v)"
    using destroy_table_ok [OF ran(3)] by blast+
  have "map Some (concat (PhDestroyHandleTable H'))
        = map (get_entry (ht_Table H')) (map of_nat [0..<unat (ht_NextValue H')])"
  proof (rule nth_equalityI)
    fix i assume "i < length (map Some (concat (PhDestroyHandleTable H')))"
    then have i: "i < unat (ht_NextValue H')" using d(1) by simp
    then have u: "unat (of_nat i :: ulong) = i"
      using unat_value [of 0 i] unat_ulong_less [of "ht_NextValue H'"] by simp
    with i d(3) have "get_entry (ht_Table H') (of_nat i) = Some (concat (PhDestroyHandleTable H') ! i)"
      by (simp add: word_less_nat_alt)
    with i d(1) show "map Some (concat (PhDestroyHandleTable H')) ! i
        = map (get_entry (ht_Table H')) (map of_nat [0..<unat (ht_NextValue H')]) ! i"
      by (simp del: map_concat)
  qed (use d(1) in simp)
  with ran d(2) count_handles [OF ran(3)] show ?thesis by blast
qed

section \<open>Witnesses\<close>

definition sample_allocation :: allocation where
  "sample_allocation = \<lparr> al_Level0 = Some (replicate 256 \<lparr> he_Value = 5, he_Value2 = 6 \<rparr>), al_Level1 = True, al_Level2 = True \<rparr>"

definition sample_table :: PH_HANDLE_TABLE where
  "sample_table = the (PhCreateHandleTable sample_allocation)"

lemma sample_allocation_ok: "allocation_ok sample_allocation \<and> \<not> no_memory sample_allocation"
  by (simp add: sample_allocation_def allocation_ok_def no_memory_def)

lemma sample_table_Some: "PhCreateHandleTable sample_allocation = Some sample_table"
  by (simp add: sample_table_def PhCreateHandleTable_def PhpCreateHandleTableLevel0_def sample_allocation_def)

lemma sample_table_ok: "handle_table_ok sample_table \<and> handles sample_table = (\<lambda>v. None) \<and> ht_Count sample_table = 0"
  using PhCreateHandleTable_ok [of sample_allocation] sample_allocation_ok sample_table_Some by simp

lemma sample_handle:
  "\<exists>h H. handle_table_ok H \<and> handles H = [PhpDecodeHandle h \<mapsto> stored_entry \<lparr> he_Value = 8, he_Value2 = 9 \<rparr>]"
  using create_handle_ok [of sample_table sample_allocation "\<lparr> he_Value = 8, he_Value2 = 9 \<rparr>"]
    sample_table_ok sample_allocation_ok by (metis less_numeral_extra(3) unat_0 zero_less_numeral)

lemma small_value: "\<exists>v :: ulong. unat v < 16777216"
  by (rule exI [of _ 0]) simp

lemma stored_unlocked: "unlocked (stored_entry e)"
  by (simp add: stored_entry_def handle_constants bit.conj_disj_distrib2)

theorem PhCreateHandle_correct_witness:
  "\<exists>h H. PhCreateHandle sample_allocation sample_table \<lparr> he_Value = 8, he_Value2 = 9 \<rparr> = Some (h, H) \<and> h \<noteq> 0
     \<and> handles H = [PhpDecodeHandle h \<mapsto> \<lparr> he_Value = 10, he_Value2 = 9 \<rparr>]"
  using PhCreateHandle_correct [of sample_table sample_allocation "\<lparr> he_Value = 8, he_Value2 = 9 \<rparr>"]
    sample_table_ok sample_allocation_ok small_value by (auto simp: stored_entry_def handle_constants)

theorem PhDestroyHandle_correct_witness:
  "\<exists>h H H'. handles H (PhpDecodeHandle h) = Some \<lparr> he_Value = 10, he_Value2 = 9 \<rparr>
     \<and> PhDestroyHandle H h None = Some (True, H') \<and> handles H' = (\<lambda>v. None)"
proof -
  obtain h H where H: "handle_table_ok H" "handles H = [PhpDecodeHandle h \<mapsto> stored_entry \<lparr> he_Value = 8, he_Value2 = 9 \<rparr>]"
    using sample_handle by blast
  have s: "stored_entry \<lparr> he_Value = 8, he_Value2 = 9 \<rparr> = \<lparr> he_Value = 10, he_Value2 = 9 \<rparr>"
    by (simp add: stored_entry_def handle_constants)
  from PhDestroyHandle_correct [OF H(1) refl, of h] H(2) stored_unlocked [of "\<lparr> he_Value = 8, he_Value2 = 9 \<rparr>"]
  obtain H' where "PhDestroyHandle H h None = Some (True, H')" "handles H' = (\<lambda>v. None)"
    unfolding s by auto
  with H(2) s show ?thesis by (intro exI [of _ h] exI [of _ H] exI [of _ H']) simp
qed

text \<open>A table with one handle in use, which both enumerations visit once, and the same table with the entry locked.\<close>

lemma one_value:
  assumes "handle_table_ok H" and "handles H = [v \<mapsto> e]"
  shows "values_in_use H = [v]"
proof -
  from assms(1) obtain es where es: "entries H es" by (auto simp: handle_table_ok_def ok_with_def)
  have n: "unat (ht_NextValue H) = length es" using es by (simp add: entries_def)
  have "handles H v = Some e" using assms(2) by simp
  then have v: "unat v < unat (ht_NextValue H)"
    using n by (simp add: handles_entries [OF es] split: if_splits)
  have eq: "(of_nat k = v) = (k = unat v)" if "k < unat (ht_NextValue H)" for k
    using that unat_value [of 0 k] unat_ulong_less [of "ht_NextValue H"] by auto
  have "values_in_use H = map of_nat (filter (\<lambda>k. of_nat k = v) [0..<unat (ht_NextValue H)])"
    using assms(2) by (simp add: values_in_use_def filter_map comp_def)
  also have "filter (\<lambda>k. of_nat k = v) [0..<unat (ht_NextValue H)] = filter (\<lambda>k. k = unat v) [0..<unat (ht_NextValue H)]"
    by (rule filter_cong) (use eq in auto)
  also have "[0..<unat (ht_NextValue H)] = [0..<unat v] @ unat v # [Suc (unat v)..<unat (ht_NextValue H)]"
    using v upt_add_eq_append [of 0 "unat v" "unat (ht_NextValue H) - unat v"] by (simp add: upt_conv_Cons)
  also have "filter (\<lambda>k. k = unat v) \<dots> = [unat v]" by simp
  finally show ?thesis by simp
qed

theorem PhEnumHandleTable_correct_witness:
  "\<exists>H v. handles H = [v \<mapsto> \<lparr> he_Value = 10, he_Value2 = 9 \<rparr>]
     \<and> PhSweepHandleTable (\<lambda>h e n. (True, n + he_Value2 e)) H 0 = Some 9
     \<and> (\<exists>H'. PhEnumHandleTable (\<lambda>h e n. (True, n + he_Value2 e)) H 0 = Some (H', 9) \<and> handles H' = handles H)"
proof -
  let ?f = "\<lambda>(h :: ulong64) e n. (True, n + he_Value2 e)"
  obtain h H where H: "handle_table_ok H" "handles H = [PhpDecodeHandle h \<mapsto> stored_entry \<lparr> he_Value = 8, he_Value2 = 9 \<rparr>]"
    using sample_handle by blast
  have s: "stored_entry \<lparr> he_Value = 8, he_Value2 = 9 \<rparr> = \<lparr> he_Value = 10, he_Value2 = 9 \<rparr>"
    by (simp add: stored_entry_def handle_constants)
  have u: "unlocked \<lparr> he_Value = 10, he_Value2 = 9 \<rparr>"
    using stored_unlocked [of "\<lparr> he_Value = 8, he_Value2 = 9 \<rparr>"] s by simp
  note v = one_value [OF H]
  from PhEnumHandleTable_correct [OF H(1), of ?f 0] H(2) u show ?thesis
    unfolding v s by (intro exI [of _ H] exI [of _ "PhpDecodeHandle h"])
      (auto simp: free_handle_def call_back_def locked_entry_def Let_def)
qed

inductive_cases handle_stepsE: "handle_steps m (op # ops) rs m'" "handle_steps m [] rs m'"
inductive_cases created_stepE: "handle_step m (CreateHandle a e) r m'"
inductive_cases flags_stepE: "handle_step m (SetFlags flags) r m'"

theorem handle_table_history_witness:
  "\<exists>h H'. run_handle_ops [SetFlags 1, CreateHandle sample_allocation \<lparr> he_Value = 8, he_Value2 = 9 \<rparr>] sample_table
       = ([Status STATUS_SUCCESS, Created h], H', [])
     \<and> h \<noteq> 0 \<and> handles H' = [PhpDecodeHandle h \<mapsto> \<lparr> he_Value = 10, he_Value2 = 9 \<rparr>] \<and> unat (ht_Count H') = 1"
proof -
  let ?ops = "[SetFlags 1, CreateHandle sample_allocation \<lparr> he_Value = 8, he_Value2 = 9 \<rparr>]"
  obtain results H' rest where r: "run_handle_ops ?ops sample_table = (results, H', rest)" by (metis prod_cases3)
  have ok: "list_all op_ok ?ops" using sample_allocation_ok by (simp add: op_ok_def)
  note h = handle_table_history [OF sample_table_Some _ ok r]
  obtain ran where ran: "?ops = ran @ rest" "handle_steps (\<lambda>v. None) ran results (handles H')"
    and rest: "rest \<noteq> [] \<longrightarrow> op_waits (handles H') (hd rest)" and c: "unat (ht_Count H') = card (dom (handles H'))"
    using h sample_allocation_ok by blast
  have "rest = []"
    using ran(1) rest by (cases ran; cases "tl ran") (auto simp: op_waits_def Cons_eq_append_conv)
  then have "handle_steps (\<lambda>v. None) ?ops results (handles H')" using ran by simp
  then obtain k where k: "results = [Status STATUS_SUCCESS, Created k]"
      "k \<noteq> 0 \<and> handles H' = [PhpDecodeHandle k \<mapsto> \<lparr> he_Value = 10, he_Value2 = 9 \<rparr>]"
    using sample_allocation_ok small_value
    by (auto elim!: handle_stepsE created_stepE flags_stepE simp: PH_HANDLE_TABLE_VALID_FLAGS_def stored_entry_def
        handle_constants)
  with r k c \<open>rest = []\<close> show ?thesis by (intro exI [of _ k] exI [of _ H']) simp
qed

end
