(* ===== verification/PhFastLock.thy ===== *)
theory PhFastLock
  imports PhPrelude
begin

text \<open>
  The fast lock of \<open>src/phlib/fastlock.c\<close> as a system of threads that interleave at every access to shared
  memory and at every call of the operating system. A thread is a number below \<open>N\<close> and has at most one
  acquisition at a time, so that a thread of the program that owns the lock shared several times is
  several of the model. The lock is one word with two flags and three counters of ten bits, and two
  semaphores; \<open>spinCount\<close> is what \<open>PhpGetSpinCount\<close> gives.
\<close>

section \<open>State\<close>

definition PH_LOCK_OWNED :: ulong where "PH_LOCK_OWNED = 0x1"
definition PH_LOCK_EXCLUSIVE_WAKING :: ulong where "PH_LOCK_EXCLUSIVE_WAKING = 0x2"
definition PH_LOCK_SHARED_OWNERS_SHIFT :: nat where "PH_LOCK_SHARED_OWNERS_SHIFT = 2"
definition PH_LOCK_SHARED_OWNERS_MASK :: ulong where "PH_LOCK_SHARED_OWNERS_MASK = 0x3ff"
definition PH_LOCK_SHARED_OWNERS_INC :: ulong where "PH_LOCK_SHARED_OWNERS_INC = 0x4"
definition PH_LOCK_SHARED_WAITERS_SHIFT :: nat where "PH_LOCK_SHARED_WAITERS_SHIFT = 12"
definition PH_LOCK_SHARED_WAITERS_MASK :: ulong where "PH_LOCK_SHARED_WAITERS_MASK = 0x3ff"
definition PH_LOCK_SHARED_WAITERS_INC :: ulong where "PH_LOCK_SHARED_WAITERS_INC = 0x1000"
definition PH_LOCK_EXCLUSIVE_WAITERS_SHIFT :: nat where "PH_LOCK_EXCLUSIVE_WAITERS_SHIFT = 22"
definition PH_LOCK_EXCLUSIVE_WAITERS_MASK :: ulong where "PH_LOCK_EXCLUSIVE_WAITERS_MASK = 0x3ff"
definition PH_LOCK_EXCLUSIVE_WAITERS_INC :: ulong where "PH_LOCK_EXCLUSIVE_WAITERS_INC = 0x400000"

definition PH_LOCK_EXCLUSIVE_MASK :: ulong where
  "PH_LOCK_EXCLUSIVE_MASK =
     PH_LOCK_EXCLUSIVE_WAKING OR push_bit PH_LOCK_EXCLUSIVE_WAITERS_SHIFT PH_LOCK_EXCLUSIVE_WAITERS_MASK"

text \<open>
  Where a thread is, with the values it has read and its spin counter: in
  \<open>PhfAcquireFastLockExclusive\<close> and \<open>PhfAcquireFastLockShared\<close> (the head of the loop, after the read, in
  \<open>PhpEnsureEventCreated\<close>, before the exchange that makes it a waiter, asleep, and, for the exclusive
  lock, woken), in the two release functions (the loop, after the read, before the semaphore is released)
  and in the two functions that try.
\<close>

datatype fl_pc =
    FlIdle
  | ExLoop ulong | ExRead ulong ulong | ExEnsure ulong ulong | ExCreate ulong ulong | ExWait ulong ulong
  | ExSleep | ExWoken | ExTake ulong | ExOwned
  | ShLoop ulong | ShRead ulong ulong | ShEnsure ulong ulong | ShCreate ulong ulong | ShWait ulong ulong
  | ShSleep ulong | ShOwned
  | ExRelease | ExReleaseRead ulong | ExSignal | ShSignal ulong
  | ShRelease | ShReleaseRead ulong
  | TryEx ulong | TrySh ulong
  | FlRaised

text \<open>A semaphore is its count; the handle of one that is not created is \<open>NULL\<close>.\<close>

record fast_lock =
  fl_Value :: ulong
  fl_ExclusiveWakeEvent :: "nat option"
  fl_SharedWakeEvent :: "nat option"
  fl_pc :: "nat \<Rightarrow> fl_pc"

abbreviation fl_goto :: "fast_lock \<Rightarrow> nat \<Rightarrow> fl_pc \<Rightarrow> fast_lock" where
  "fl_goto s t p \<equiv> s\<lparr>fl_pc := (fl_pc s)(t := p)\<rparr>"

definition PhInitializeFastLock :: "fast_lock \<Rightarrow> fast_lock" where
  "PhInitializeFastLock s = s\<lparr>fl_Value := 0, fl_ExclusiveWakeEvent := None, fl_SharedWakeEvent := None\<rparr>"

definition PhDeleteFastLock :: "fast_lock \<Rightarrow> fast_lock" where
  "PhDeleteFastLock s = s\<lparr>fl_ExclusiveWakeEvent := None, fl_SharedWakeEvent := None\<rparr>"

section \<open>Steps\<close>

text \<open>\<open>_InterlockedCompareExchange\<close> on the value: continue at \<open>yes\<close> if it was \<open>old\<close>, at \<open>no\<close> otherwise.\<close>

definition fl_cas :: "fast_lock \<Rightarrow> nat \<Rightarrow> ulong \<Rightarrow> ulong \<Rightarrow> fl_pc \<Rightarrow> fl_pc \<Rightarrow> fast_lock" where
  "fl_cas s t old new yes no =
     (if fl_Value s = old then fl_goto (s\<lparr>fl_Value := new\<rparr>) t yes else fl_goto s t no)"

text \<open>
  \<open>NtWaitForSingleObject\<close> on a semaphore: \<open>None\<close> while its count is 0. Waiting on \<open>NULL\<close> fails, and the
  code raises an exception.
\<close>

definition wait_exclusive :: "fast_lock \<Rightarrow> nat \<Rightarrow> fl_pc \<Rightarrow> fast_lock option" where
  "wait_exclusive s t p =
     (case fl_ExclusiveWakeEvent s of
        None \<Rightarrow> Some (fl_goto s t FlRaised)
      | Some n \<Rightarrow> if n = 0 then None else Some (fl_goto (s\<lparr>fl_ExclusiveWakeEvent := Some (n - 1)\<rparr>) t p))"

definition wait_shared :: "fast_lock \<Rightarrow> nat \<Rightarrow> fl_pc \<Rightarrow> fast_lock option" where
  "wait_shared s t p =
     (case fl_SharedWakeEvent s of
        None \<Rightarrow> Some (fl_goto s t FlRaised)
      | Some n \<Rightarrow> if n = 0 then None else Some (fl_goto (s\<lparr>fl_SharedWakeEvent := Some (n - 1)\<rparr>) t p))"

text \<open>\<open>NtReleaseSemaphore\<close>; its status is ignored.\<close>

definition release_exclusive :: "fast_lock \<Rightarrow> nat \<Rightarrow> fast_lock" where
  "release_exclusive s n = s\<lparr>fl_ExclusiveWakeEvent := map_option (\<lambda>k. k + n) (fl_ExclusiveWakeEvent s)\<rparr>"

definition release_shared :: "fast_lock \<Rightarrow> nat \<Rightarrow> fast_lock" where
  "release_shared s n = s\<lparr>fl_SharedWakeEvent := map_option (\<lambda>k. k + n) (fl_SharedWakeEvent s)\<rparr>"

text \<open>The next action of a thread inside a call; \<open>None\<close> if it is outside, or blocked.\<close>

fun PhfAcquireFastLockExclusive :: "ulong \<Rightarrow> fast_lock \<Rightarrow> nat \<Rightarrow> fl_pc \<Rightarrow> fast_lock option" where
  "PhfAcquireFastLockExclusive spinCount s t (ExLoop i) = Some (fl_goto s t (ExRead i (fl_Value s)))"
| "PhfAcquireFastLockExclusive spinCount s t (ExRead i value) =
     (if value AND (PH_LOCK_OWNED OR PH_LOCK_EXCLUSIVE_WAKING) = 0 then
        Some (fl_cas s t value (value + PH_LOCK_OWNED) ExOwned (ExLoop (i + 1)))
      else if i \<ge> spinCount then Some (fl_goto s t (ExEnsure i value))
      else Some (fl_goto s t (ExLoop (i + 1))))"
| "PhfAcquireFastLockExclusive spinCount s t (ExEnsure i value) =
     Some (fl_goto s t (if fl_ExclusiveWakeEvent s \<noteq> None then ExWait i value else ExCreate i value))"
| "PhfAcquireFastLockExclusive spinCount s t (ExCreate i value) =
     Some (fl_goto (if fl_ExclusiveWakeEvent s = None then s\<lparr>fl_ExclusiveWakeEvent := Some 0\<rparr> else s) t (ExWait i value))"
| "PhfAcquireFastLockExclusive spinCount s t (ExWait i value) =
     Some (fl_cas s t value (value + PH_LOCK_EXCLUSIVE_WAITERS_INC) ExSleep (ExLoop (i + 1)))"
| "PhfAcquireFastLockExclusive spinCount s t ExSleep = wait_exclusive s t ExWoken"
| "PhfAcquireFastLockExclusive spinCount s t ExWoken = Some (fl_goto s t (ExTake (fl_Value s)))"
| "PhfAcquireFastLockExclusive spinCount s t (ExTake value) =
     Some (fl_cas s t value (value + PH_LOCK_OWNED - PH_LOCK_EXCLUSIVE_WAKING) ExOwned ExWoken)"
| "PhfAcquireFastLockExclusive spinCount s t _ = None"

fun PhfAcquireFastLockShared :: "ulong \<Rightarrow> fast_lock \<Rightarrow> nat \<Rightarrow> fl_pc \<Rightarrow> fast_lock option" where
  "PhfAcquireFastLockShared spinCount s t (ShLoop i) = Some (fl_goto s t (ShRead i (fl_Value s)))"
| "PhfAcquireFastLockShared spinCount s t (ShRead i value) =
     (if value AND (PH_LOCK_OWNED OR push_bit PH_LOCK_SHARED_OWNERS_SHIFT PH_LOCK_SHARED_OWNERS_MASK
                    OR PH_LOCK_EXCLUSIVE_MASK) = 0 then
        Some (fl_cas s t value (value + PH_LOCK_OWNED + PH_LOCK_SHARED_OWNERS_INC) ShOwned (ShLoop (i + 1)))
      else if value AND PH_LOCK_OWNED \<noteq> 0
              \<and> drop_bit PH_LOCK_SHARED_OWNERS_SHIFT value AND PH_LOCK_SHARED_OWNERS_MASK > 0
              \<and> value AND PH_LOCK_EXCLUSIVE_MASK = 0 then
        Some (fl_cas s t value (value + PH_LOCK_SHARED_OWNERS_INC) ShOwned (ShLoop (i + 1)))
      else if i \<ge> spinCount then Some (fl_goto s t (ShEnsure i value))
      else Some (fl_goto s t (ShLoop (i + 1))))"
| "PhfAcquireFastLockShared spinCount s t (ShEnsure i value) =
     Some (fl_goto s t (if fl_SharedWakeEvent s \<noteq> None then ShWait i value else ShCreate i value))"
| "PhfAcquireFastLockShared spinCount s t (ShCreate i value) =
     Some (fl_goto (if fl_SharedWakeEvent s = None then s\<lparr>fl_SharedWakeEvent := Some 0\<rparr> else s) t (ShWait i value))"
| "PhfAcquireFastLockShared spinCount s t (ShWait i value) =
     Some (fl_cas s t value (value + PH_LOCK_SHARED_WAITERS_INC) (ShSleep i) (ShLoop (i + 1)))"
| "PhfAcquireFastLockShared spinCount s t (ShSleep i) = wait_shared s t (ShLoop i)"
| "PhfAcquireFastLockShared spinCount s t _ = None"

fun PhfReleaseFastLockExclusive :: "fast_lock \<Rightarrow> nat \<Rightarrow> fl_pc \<Rightarrow> fast_lock option" where
  "PhfReleaseFastLockExclusive s t ExRelease = Some (fl_goto s t (ExReleaseRead (fl_Value s)))"
| "PhfReleaseFastLockExclusive s t (ExReleaseRead value) =
     (if drop_bit PH_LOCK_EXCLUSIVE_WAITERS_SHIFT value AND PH_LOCK_EXCLUSIVE_WAITERS_MASK \<noteq> 0 then
        Some (fl_cas s t value (value - PH_LOCK_OWNED + PH_LOCK_EXCLUSIVE_WAKING - PH_LOCK_EXCLUSIVE_WAITERS_INC)
                ExSignal ExRelease)
      else
        (let sharedWaiters = drop_bit PH_LOCK_SHARED_WAITERS_SHIFT value AND PH_LOCK_SHARED_WAITERS_MASK
         in Some (fl_cas s t value
                    (value AND NOT (PH_LOCK_OWNED OR push_bit PH_LOCK_SHARED_WAITERS_SHIFT PH_LOCK_SHARED_WAITERS_MASK))
                    (if sharedWaiters \<noteq> 0 then ShSignal sharedWaiters else FlIdle) ExRelease)))"
| "PhfReleaseFastLockExclusive s t (ShSignal sharedWaiters) =
     Some (fl_goto (release_shared s (unat sharedWaiters)) t FlIdle)"
| "PhfReleaseFastLockExclusive s t ExSignal = Some (fl_goto (release_exclusive s 1) t FlIdle)"
| "PhfReleaseFastLockExclusive s t _ = None"

fun PhfReleaseFastLockShared :: "fast_lock \<Rightarrow> nat \<Rightarrow> fl_pc \<Rightarrow> fast_lock option" where
  "PhfReleaseFastLockShared s t ShRelease = Some (fl_goto s t (ShReleaseRead (fl_Value s)))"
| "PhfReleaseFastLockShared s t (ShReleaseRead value) =
     (if drop_bit PH_LOCK_SHARED_OWNERS_SHIFT value AND PH_LOCK_SHARED_OWNERS_MASK > 1 then
        Some (fl_cas s t value (value - PH_LOCK_SHARED_OWNERS_INC) FlIdle ShRelease)
      else if drop_bit PH_LOCK_EXCLUSIVE_WAITERS_SHIFT value AND PH_LOCK_EXCLUSIVE_WAITERS_MASK \<noteq> 0 then
        Some (fl_cas s t value (value - PH_LOCK_OWNED + PH_LOCK_EXCLUSIVE_WAKING
                                - PH_LOCK_SHARED_OWNERS_INC - PH_LOCK_EXCLUSIVE_WAITERS_INC)
                ExSignal ShRelease)
      else
        Some (fl_cas s t value (value - PH_LOCK_OWNED - PH_LOCK_SHARED_OWNERS_INC) FlIdle ShRelease))"
| "PhfReleaseFastLockShared s t ExSignal = Some (fl_goto (release_exclusive s 1) t FlIdle)"
| "PhfReleaseFastLockShared s t _ = None"

fun PhfTryAcquireFastLockExclusive :: "fast_lock \<Rightarrow> nat \<Rightarrow> fl_pc \<Rightarrow> fast_lock option" where
  "PhfTryAcquireFastLockExclusive s t (TryEx value) =
     (if value AND (PH_LOCK_OWNED OR PH_LOCK_EXCLUSIVE_WAKING) \<noteq> 0 then Some (fl_goto s t FlIdle)
      else Some (fl_cas s t value (value + PH_LOCK_OWNED) ExOwned FlIdle))"
| "PhfTryAcquireFastLockExclusive s t _ = None"

fun PhfTryAcquireFastLockShared :: "fast_lock \<Rightarrow> nat \<Rightarrow> fl_pc \<Rightarrow> fast_lock option" where
  "PhfTryAcquireFastLockShared s t (TrySh value) =
     (if value AND PH_LOCK_EXCLUSIVE_MASK \<noteq> 0 then Some (fl_goto s t FlIdle)
      else if value AND PH_LOCK_OWNED = 0 then
        Some (fl_cas s t value (value + PH_LOCK_OWNED + PH_LOCK_SHARED_OWNERS_INC) ShOwned FlIdle)
      else if drop_bit PH_LOCK_SHARED_OWNERS_SHIFT value AND PH_LOCK_SHARED_OWNERS_MASK \<noteq> 0 then
        Some (fl_cas s t value (value + PH_LOCK_SHARED_OWNERS_INC) ShOwned FlIdle)
      else Some (fl_goto s t FlIdle))"
| "PhfTryAcquireFastLockShared s t _ = None"

definition fl_next :: "ulong \<Rightarrow> fast_lock \<Rightarrow> nat \<Rightarrow> fast_lock option" where
  "fl_next spinCount s t =
     (let p = fl_pc s t in
      case PhfAcquireFastLockExclusive spinCount s t p of Some s' \<Rightarrow> Some s' | None \<Rightarrow>
      case PhfAcquireFastLockShared spinCount s t p of Some s' \<Rightarrow> Some s' | None \<Rightarrow>
      case PhfReleaseFastLockExclusive s t p of Some s' \<Rightarrow> Some s' | None \<Rightarrow>
      case PhfReleaseFastLockShared s t p of Some s' \<Rightarrow> Some s' | None \<Rightarrow>
      case PhfTryAcquireFastLockExclusive s t p of Some s' \<Rightarrow> Some s' | None \<Rightarrow>
      PhfTryAcquireFastLockShared s t p)"

text \<open>A thread that is outside starts a call; an owner releases the lock in the way it acquired it.\<close>

inductive fl_step :: "ulong \<Rightarrow> nat \<Rightarrow> fast_lock \<Rightarrow> fast_lock \<Rightarrow> bool" for spinCount :: ulong and N :: nat where
  acquire_exclusive: "t < N \<Longrightarrow> fl_pc s t = FlIdle \<Longrightarrow> fl_step spinCount N s (fl_goto s t (ExLoop 0))"
| acquire_shared: "t < N \<Longrightarrow> fl_pc s t = FlIdle \<Longrightarrow> fl_step spinCount N s (fl_goto s t (ShLoop 0))"
| try_exclusive: "t < N \<Longrightarrow> fl_pc s t = FlIdle \<Longrightarrow> fl_step spinCount N s (fl_goto s t (TryEx (fl_Value s)))"
| try_shared: "t < N \<Longrightarrow> fl_pc s t = FlIdle \<Longrightarrow> fl_step spinCount N s (fl_goto s t (TrySh (fl_Value s)))"
| release_exclusive: "t < N \<Longrightarrow> fl_pc s t = ExOwned \<Longrightarrow> fl_step spinCount N s (fl_goto s t ExRelease)"
| release_shared: "t < N \<Longrightarrow> fl_pc s t = ShOwned \<Longrightarrow> fl_step spinCount N s (fl_goto s t ShRelease)"
| run: "t < N \<Longrightarrow> fl_next spinCount s t = Some s' \<Longrightarrow> fl_step spinCount N s s'"

abbreviation fl_steps :: "ulong \<Rightarrow> nat \<Rightarrow> fast_lock \<Rightarrow> fast_lock \<Rightarrow> bool" where
  "fl_steps spinCount N \<equiv> (fl_step spinCount N)\<^sup>*\<^sup>*"

definition fl_start :: "fast_lock \<Rightarrow> bool" where
  "fl_start s \<longleftrightarrow> PhInitializeFastLock s = s \<and> (\<forall>t. fl_pc s t = FlIdle)"

section \<open>The fields of the value\<close>

text \<open>Owned, exclusive waking, shared owners, shared waiters, exclusive waiters.\<close>

definition fields :: "ulong \<Rightarrow> nat \<Rightarrow> nat \<Rightarrow> nat \<Rightarrow> nat \<Rightarrow> nat \<Rightarrow> bool" where
  "fields v ow w so sw ew \<longleftrightarrow>
     v = of_nat (ow + 2 * w + 4 * so + 4096 * sw + 4194304 * ew)
     \<and> ow \<le> 1 \<and> w \<le> 1 \<and> so < 1024 \<and> sw < 1024 \<and> ew < 1024"

lemma unat_of_nat_ulong: "n < 2 ^ 32 \<Longrightarrow> unat (of_nat n :: ulong) = n"
  by (simp add: unat_of_nat)

lemma fields_unat:
  assumes "fields v ow w so sw ew"
  shows "unat v = ow + 2 * w + 4 * so + 4096 * sw + 4194304 * ew"
proof -
  have v: "v = of_nat (ow + 2 * w + 4 * so + 4096 * sw + 4194304 * ew)" using assms by (simp only: fields_def)
  have "ow + 2 * w + 4 * so + 4096 * sw + 4194304 * ew < 2 ^ 32" using assms by (simp add: fields_def)
  then show ?thesis unfolding v by (rule unat_of_nat_ulong)
qed

lemma unat_and_0x3ff: "unat (x AND 0x3ff) = unat x mod 1024" for x :: ulong
  using unat_and_mask [of x 10] by (simp add: mask_eq_exp_minus_1)

lemma mod_remainder: "r < n \<Longrightarrow> m = r + n * x \<Longrightarrow> m mod n = r" for r n m x :: nat
  by simp

text \<open>The counters as the code extracts them.\<close>

lemma fields_counters:
  assumes "fields v ow w so sw ew"
  shows "unat (drop_bit PH_LOCK_SHARED_OWNERS_SHIFT v AND PH_LOCK_SHARED_OWNERS_MASK) = so"
    and "unat (drop_bit PH_LOCK_SHARED_WAITERS_SHIFT v AND PH_LOCK_SHARED_WAITERS_MASK) = sw"
    and "unat (drop_bit PH_LOCK_EXCLUSIVE_WAITERS_SHIFT v AND PH_LOCK_EXCLUSIVE_WAITERS_MASK) = ew"
proof -
  have b: "ow \<le> 1" "w \<le> 1" "so < 1024" "sw < 1024" "ew < 1024" using assms by (simp_all add: fields_def)
  have "unat v div 4 = so + 1024 * sw + 1048576 * ew"
    unfolding fields_unat [OF assms] using b by (intro div_nat_eqI) simp_all
  moreover have "(so + 1024 * sw + 1048576 * ew) mod 1024 = so"
    using b by (intro mod_remainder [where x = "sw + 1024 * ew"]) simp_all
  ultimately show "unat (drop_bit PH_LOCK_SHARED_OWNERS_SHIFT v AND PH_LOCK_SHARED_OWNERS_MASK) = so"
    by (simp add: PH_LOCK_SHARED_OWNERS_SHIFT_def PH_LOCK_SHARED_OWNERS_MASK_def unat_and_0x3ff
        drop_bit_eq_div unat_div)
  have "unat v div 4096 = sw + 1024 * ew"
    unfolding fields_unat [OF assms] using b by (intro div_nat_eqI) simp_all
  then show "unat (drop_bit PH_LOCK_SHARED_WAITERS_SHIFT v AND PH_LOCK_SHARED_WAITERS_MASK) = sw"
    using b by (simp add: PH_LOCK_SHARED_WAITERS_SHIFT_def PH_LOCK_SHARED_WAITERS_MASK_def unat_and_0x3ff
        drop_bit_eq_div unat_div)
  have "unat v div 4194304 = ew"
    unfolding fields_unat [OF assms] using b by (intro div_nat_eqI) simp_all
  then show "unat (drop_bit PH_LOCK_EXCLUSIVE_WAITERS_SHIFT v AND PH_LOCK_EXCLUSIVE_WAITERS_MASK) = ew"
    using b by (simp add: PH_LOCK_EXCLUSIVE_WAITERS_SHIFT_def PH_LOCK_EXCLUSIVE_WAITERS_MASK_def unat_and_0x3ff
        drop_bit_eq_div unat_div)
qed

lemma unat_zero_iff: "unat x = n \<Longrightarrow> x = 0 \<longleftrightarrow> n = 0" for x :: ulong
  by (metis unat_0 unat_eq_zero)

text \<open>The tests of the flags.\<close>

lemma and_push_bit_zero: "x AND push_bit n m = 0 \<longleftrightarrow> drop_bit n x AND m = 0"
  if "push_bit n m = 0 \<longrightarrow> m = 0" "drop_bit n (push_bit n m) = m" for x m :: ulong
proof -
  have "x AND push_bit n m = push_bit n (drop_bit n x AND m)"
    by (intro bit_word_eqI) (auto simp: bit_simps)
  moreover have "drop_bit n (push_bit n (drop_bit n x AND m)) = drop_bit n x AND m"
    using that(2) by (metis calculation drop_bit_and)
  ultimately show ?thesis by (metis drop_bit_of_0 push_bit_of_0)
qed

lemma fields_flags:
  assumes "fields v ow w so sw ew"
  shows "v AND PH_LOCK_OWNED = 0 \<longleftrightarrow> ow = 0"
    and "v AND PH_LOCK_EXCLUSIVE_WAKING = 0 \<longleftrightarrow> w = 0"
    and "v AND push_bit PH_LOCK_SHARED_OWNERS_SHIFT PH_LOCK_SHARED_OWNERS_MASK = 0 \<longleftrightarrow> so = 0"
    and "v AND push_bit PH_LOCK_EXCLUSIVE_WAITERS_SHIFT PH_LOCK_EXCLUSIVE_WAITERS_MASK = 0 \<longleftrightarrow> ew = 0"
proof -
  have b: "ow \<le> 1" "w \<le> 1" using assms by (simp_all add: fields_def)
  have "(ow + 2 * w + 4 * so + 4096 * sw + 4194304 * ew) mod 2 = ow"
    using b by (intro mod_remainder [where x = "w + 2 * so + 2048 * sw + 2097152 * ew"]) simp_all
  then have "unat (v AND 1) = ow"
    using unat_and_mask [of v 1] fields_unat [OF assms] by (simp add: mask_eq_exp_minus_1)
  then have "v AND 1 = 0 \<longleftrightarrow> ow = 0" by (metis unat_0 unat_eq_zero)
  then show "v AND PH_LOCK_OWNED = 0 \<longleftrightarrow> ow = 0" by (simp add: PH_LOCK_OWNED_def)
  have "unat v div 2 = w + 2 * so + 2048 * sw + 2097152 * ew"
    unfolding fields_unat [OF assms] using b by (intro div_nat_eqI) simp_all
  moreover have "(w + 2 * so + 2048 * sw + 2097152 * ew) mod 2 = w"
    using b by (intro mod_remainder [where x = "so + 1024 * sw + 1048576 * ew"]) simp_all
  ultimately have "unat (drop_bit 1 v AND 1) = w"
    using unat_and_mask [of "drop_bit 1 v" 1] by (simp add: mask_eq_exp_minus_1 drop_bit_eq_div unat_div)
  then have "drop_bit 1 v AND 1 = 0 \<longleftrightarrow> w = 0" by (metis unat_0 unat_eq_zero)
  then show "v AND PH_LOCK_EXCLUSIVE_WAKING = 0 \<longleftrightarrow> w = 0"
    using and_push_bit_zero [of 1 1 v] by (simp add: PH_LOCK_EXCLUSIVE_WAKING_def drop_bit_eq_div push_bit_eq_mult)
  show "v AND push_bit PH_LOCK_SHARED_OWNERS_SHIFT PH_LOCK_SHARED_OWNERS_MASK = 0 \<longleftrightarrow> so = 0"
    using unat_zero_iff [OF fields_counters(1) [OF assms]]
      and_push_bit_zero [of PH_LOCK_SHARED_OWNERS_SHIFT PH_LOCK_SHARED_OWNERS_MASK v]
    by (auto simp: PH_LOCK_SHARED_OWNERS_SHIFT_def PH_LOCK_SHARED_OWNERS_MASK_def drop_bit_eq_div push_bit_eq_mult)
  show "v AND push_bit PH_LOCK_EXCLUSIVE_WAITERS_SHIFT PH_LOCK_EXCLUSIVE_WAITERS_MASK = 0 \<longleftrightarrow> ew = 0"
    using unat_zero_iff [OF fields_counters(3) [OF assms]]
      and_push_bit_zero [of PH_LOCK_EXCLUSIVE_WAITERS_SHIFT PH_LOCK_EXCLUSIVE_WAITERS_MASK v]
    by (auto simp: PH_LOCK_EXCLUSIVE_WAITERS_SHIFT_def PH_LOCK_EXCLUSIVE_WAITERS_MASK_def drop_bit_eq_div push_bit_eq_mult)
qed

lemmas fl_constants = PH_LOCK_OWNED_def PH_LOCK_EXCLUSIVE_WAKING_def PH_LOCK_SHARED_OWNERS_INC_def
  PH_LOCK_SHARED_WAITERS_INC_def PH_LOCK_EXCLUSIVE_WAITERS_INC_def

lemma or_test: "x AND (a OR b) = 0 \<longleftrightarrow> x AND a = 0 \<and> x AND b = 0" for x a b :: ulong
  by (simp add: bit.conj_disj_distrib or_eq_0_iff)

lemma fields_tests:
  assumes "fields v ow w so sw ew"
  shows "v AND PH_LOCK_OWNED = 0 \<longleftrightarrow> ow = 0"
    and "v AND (PH_LOCK_OWNED OR PH_LOCK_EXCLUSIVE_WAKING) = 0 \<longleftrightarrow> ow = 0 \<and> w = 0"
    and "v AND PH_LOCK_EXCLUSIVE_MASK = 0 \<longleftrightarrow> w = 0 \<and> ew = 0"
    and "v AND (PH_LOCK_OWNED OR push_bit PH_LOCK_SHARED_OWNERS_SHIFT PH_LOCK_SHARED_OWNERS_MASK
                OR PH_LOCK_EXCLUSIVE_MASK) = 0 \<longleftrightarrow> ow = 0 \<and> so = 0 \<and> w = 0 \<and> ew = 0"
    and "drop_bit PH_LOCK_SHARED_OWNERS_SHIFT v AND PH_LOCK_SHARED_OWNERS_MASK > 0 \<longleftrightarrow> so > 0"
    and "drop_bit PH_LOCK_SHARED_OWNERS_SHIFT v AND PH_LOCK_SHARED_OWNERS_MASK = 0 \<longleftrightarrow> so = 0"
    and "drop_bit PH_LOCK_SHARED_OWNERS_SHIFT v AND PH_LOCK_SHARED_OWNERS_MASK > 1 \<longleftrightarrow> so > 1"
    and "drop_bit PH_LOCK_SHARED_WAITERS_SHIFT v AND PH_LOCK_SHARED_WAITERS_MASK = 0 \<longleftrightarrow> sw = 0"
    and "drop_bit PH_LOCK_EXCLUSIVE_WAITERS_SHIFT v AND PH_LOCK_EXCLUSIVE_WAITERS_MASK = 0 \<longleftrightarrow> ew = 0"
  by (simp_all only: or_test PH_LOCK_EXCLUSIVE_MASK_def fields_flags [OF assms] fields_counters [OF assms]
      word_less_nat_alt unat_zero_iff [OF fields_counters(1) [OF assms]]
      unat_zero_iff [OF fields_counters(2) [OF assms]] unat_zero_iff [OF fields_counters(3) [OF assms]]
      unat_0 unat_1)

text \<open>The updates of the code.\<close>

lemma fields_updates:
  "fields v 0 w so sw ew \<Longrightarrow> fields (v + PH_LOCK_OWNED) (Suc 0) w so sw ew"
  "fields v ow w so sw ew \<Longrightarrow> Suc so < 1024 \<Longrightarrow> fields (v + PH_LOCK_SHARED_OWNERS_INC) ow w (Suc so) sw ew"
  "fields v 0 w so sw ew \<Longrightarrow> Suc so < 1024 \<Longrightarrow>
     fields (v + PH_LOCK_OWNED + PH_LOCK_SHARED_OWNERS_INC) (Suc 0) w (Suc so) sw ew"
  "fields v ow w so sw ew \<Longrightarrow> Suc sw < 1024 \<Longrightarrow> fields (v + PH_LOCK_SHARED_WAITERS_INC) ow w so (Suc sw) ew"
  "fields v ow w so sw ew \<Longrightarrow> Suc ew < 1024 \<Longrightarrow> fields (v + PH_LOCK_EXCLUSIVE_WAITERS_INC) ow w so sw (Suc ew)"
  "fields v 0 (Suc 0) so sw ew \<Longrightarrow> fields (v + PH_LOCK_OWNED - PH_LOCK_EXCLUSIVE_WAKING) (Suc 0) 0 so sw ew"
  "fields v (Suc 0) 0 so sw (Suc ew) \<Longrightarrow>
     fields (v - PH_LOCK_OWNED + PH_LOCK_EXCLUSIVE_WAKING - PH_LOCK_EXCLUSIVE_WAITERS_INC) 0 (Suc 0) so sw ew"
  "fields v ow w (Suc so) sw ew \<Longrightarrow> fields (v - PH_LOCK_SHARED_OWNERS_INC) ow w so sw ew"
  "fields v (Suc 0) 0 (Suc 0) sw (Suc ew) \<Longrightarrow>
     fields (v - PH_LOCK_OWNED + PH_LOCK_EXCLUSIVE_WAKING - PH_LOCK_SHARED_OWNERS_INC - PH_LOCK_EXCLUSIVE_WAITERS_INC)
       0 (Suc 0) 0 sw ew"
  "fields v (Suc 0) w (Suc 0) sw ew \<Longrightarrow> fields (v - PH_LOCK_OWNED - PH_LOCK_SHARED_OWNERS_INC) 0 w 0 sw ew"
  by (simp_all add: fields_def fl_constants algebra_simps)

lemma fields_clear:
  assumes "fields v (Suc 0) w so sw ew"
  shows "fields (v AND NOT (PH_LOCK_OWNED OR push_bit PH_LOCK_SHARED_WAITERS_SHIFT PH_LOCK_SHARED_WAITERS_MASK))
           0 w so 0 ew"
proof -
  let ?q = "push_bit PH_LOCK_SHARED_WAITERS_SHIFT PH_LOCK_SHARED_WAITERS_MASK"
  let ?m = "PH_LOCK_OWNED OR ?q"
  have c: "PH_LOCK_OWNED AND ?q = 0"
    by (simp add: fl_constants PH_LOCK_SHARED_WAITERS_SHIFT_def PH_LOCK_SHARED_WAITERS_MASK_def push_bit_eq_mult)
  have "v = (v AND NOT ?m) OR (v AND ?m)" by (intro bit_word_eqI) (auto simp: bit_simps)
  also have "\<dots> = (v AND NOT ?m) + (v AND ?m)"
    by (intro disjunctive_add_eq_or [symmetric] bit_word_eqI) (auto simp: bit_simps)
  finally have split: "v AND NOT ?m = v - (v AND ?m)" by (metis add_diff_cancel_right')
  have "v AND ?m = (v AND PH_LOCK_OWNED) OR (v AND ?q)" by (rule bit.conj_disj_distrib)
  also have "\<dots> = (v AND PH_LOCK_OWNED) + (v AND ?q)"
  proof (rule disjunctive_add_eq_or [symmetric])
    show "(v AND PH_LOCK_OWNED) AND (v AND ?q) = 0" using c by (metis and.left_commute and.assoc and_zero_eq)
  qed
  also have "v AND PH_LOCK_OWNED = 1"
  proof -
    have "v AND PH_LOCK_OWNED \<noteq> 0" using fields_flags(1) [OF assms] by simp
    then show ?thesis by (simp add: PH_LOCK_OWNED_def and_one_eq)
  qed
  also have "v AND ?q = push_bit 12 (drop_bit PH_LOCK_SHARED_WAITERS_SHIFT v AND PH_LOCK_SHARED_WAITERS_MASK)"
    unfolding PH_LOCK_SHARED_WAITERS_SHIFT_def by (intro bit_word_eqI) (auto simp: bit_simps)
  also have "drop_bit PH_LOCK_SHARED_WAITERS_SHIFT v AND PH_LOCK_SHARED_WAITERS_MASK = of_nat sw"
    unfolding fields_counters(2) [OF assms, symmetric] by simp
  finally have "v AND ?m = 1 + 4096 * of_nat sw" by (simp add: push_bit_eq_mult)
  with assms show ?thesis unfolding split by (simp add: fields_def algebra_simps)
qed

section \<open>Invariant\<close>

text \<open>
  What the threads are, in numbers: the owners of both kinds, the threads that have been woken for
  exclusive ownership and those about to wake one, the threads asleep on the two semaphores, and the
  wake-ups of shared waiters that are under way.
\<close>

fun ex_owner :: "fl_pc \<Rightarrow> nat" where
  "ex_owner ExOwned = 1" | "ex_owner ExRelease = 1" | "ex_owner (ExReleaseRead _) = 1" | "ex_owner _ = 0"

fun sh_owner :: "fl_pc \<Rightarrow> nat" where
  "sh_owner ShOwned = 1" | "sh_owner ShRelease = 1" | "sh_owner (ShReleaseRead _) = 1" | "sh_owner _ = 0"

fun ex_woken :: "fl_pc \<Rightarrow> nat" where
  "ex_woken ExWoken = 1" | "ex_woken (ExTake _) = 1" | "ex_woken _ = 0"

fun ex_signal :: "fl_pc \<Rightarrow> nat" where
  "ex_signal ExSignal = 1" | "ex_signal _ = 0"

fun ex_asleep :: "fl_pc \<Rightarrow> nat" where
  "ex_asleep ExSleep = 1" | "ex_asleep _ = 0"

fun sh_asleep :: "fl_pc \<Rightarrow> nat" where
  "sh_asleep (ShSleep _) = 1" | "sh_asleep _ = 0"

fun sh_signal :: "fl_pc \<Rightarrow> nat" where
  "sh_signal (ShSignal n) = unat n" | "sh_signal _ = 0"

definition total :: "(fl_pc \<Rightarrow> nat) \<Rightarrow> nat \<Rightarrow> (nat \<Rightarrow> fl_pc) \<Rightarrow> nat" where
  "total w N pcs = (\<Sum>t<N. w (pcs t))"

definition permits :: "nat option \<Rightarrow> nat" where
  "permits e = (case e of None \<Rightarrow> 0 | Some n \<Rightarrow> n)"

lemma permits_simps [simp]: "permits None = 0" "permits (Some n) = n"
  by (simp_all add: permits_def)

lemma total_upd: "t < N \<Longrightarrow> total w N (pcs(t := p)) + w (pcs t) = total w N pcs + w p"
  unfolding total_def
  by (simp add: sum.remove [of "{..<N}" t])

lemma total_le: "(\<And>p. w p \<le> 1) \<Longrightarrow> total w N pcs \<le> N"
  unfolding total_def using sum_bounded_above [of "{..<N}" "\<lambda>t. w (pcs t)" 1] by simp

lemma total_member: "t < N \<Longrightarrow> w (pcs t) \<le> total w N pcs"
  unfolding total_def by (rule member_le_sum) simp_all

lemma total_zero: "total w N pcs = 0 \<longleftrightarrow> (\<forall>t<N. w (pcs t) = 0)"
  unfolding total_def by (simp add: lessThan_def)

lemma weights_le:
  "ex_owner p \<le> 1" "sh_owner p \<le> 1" "ex_woken p \<le> 1" "ex_signal p \<le> 1" "ex_asleep p \<le> 1" "sh_asleep p \<le> 1"
  by (cases p; simp)+

text \<open>
  The numbers and the value: \<open>x\<close>, \<open>so\<close> owners, \<open>wk\<close> woken, \<open>sg\<close> signals under way, \<open>pe\<close> the count of the
  exclusive semaphore, \<open>xa\<close>, \<open>sa\<close> threads asleep, \<open>sq\<close> shared wake-ups under way, \<open>ps\<close> the count of the
  shared semaphore.
\<close>

definition numbers_ok ::
    "ulong \<Rightarrow> nat \<Rightarrow> nat \<Rightarrow> nat \<Rightarrow> nat \<Rightarrow> nat \<Rightarrow> nat \<Rightarrow> nat \<Rightarrow> nat \<Rightarrow> nat \<Rightarrow> bool" where
  "numbers_ok v x so wk sg pe xa sa sq ps \<longleftrightarrow>
     (\<exists>ow w sw ew. fields v ow w so sw ew
        \<and> ow = x + of_bool (0 < so) \<and> ow + w \<le> 1
        \<and> w = wk + sg + pe \<and> xa = ew + sg + pe \<and> sa = sw + sq + ps
        \<and> (0 < ew \<longrightarrow> ow + w = 1) \<and> (0 < sw \<longrightarrow> 0 < x \<or> 0 < ew \<or> 0 < w))"

lemma numbers_okI:
  assumes "fields v ow w so sw ew" and "ow = x + of_bool (0 < so)" and "ow + w \<le> 1" and "w = wk + sg + pe"
    and "xa = ew + sg + pe" and "sa = sw + sq + ps" and "0 < ew \<Longrightarrow> ow + w = 1"
    and "0 < sw \<Longrightarrow> 0 < x \<or> 0 < ew \<or> 0 < w"
  shows "numbers_ok v x so wk sg pe xa sa sq ps"
  unfolding numbers_ok_def using assms by (intro exI conjI) (assumption | simp)+

lemma numbers_okE:
  assumes "numbers_ok v x so wk sg pe xa sa sq ps"
  obtains ow w sw ew where "fields v ow w so sw ew" "ow = x + of_bool (0 < so)" "ow + w \<le> 1" "w = wk + sg + pe"
    "xa = ew + sg + pe" "sa = sw + sq + ps" "0 < ew \<longrightarrow> ow + w = 1" "0 < sw \<longrightarrow> 0 < x \<or> 0 < ew \<or> 0 < w"
  using assms unfolding numbers_ok_def by blast

lemma numbers_acquire_exclusive:
  assumes "numbers_ok v x so wk sg pe xa sa sq ps"
    and "v AND (PH_LOCK_OWNED OR PH_LOCK_EXCLUSIVE_WAKING) = 0"
  shows "numbers_ok (v + PH_LOCK_OWNED) (Suc x) so wk sg pe xa sa sq ps"
  using assms(1)
proof (rule numbers_okE)
  fix ow w sw ew
  assume n: "fields v ow w so sw ew" "ow = x + of_bool (0 < so)" "ow + w \<le> 1" "w = wk + sg + pe"
    "xa = ew + sg + pe" "sa = sw + sq + ps" "0 < ew \<longrightarrow> ow + w = 1" "0 < sw \<longrightarrow> 0 < x \<or> 0 < ew \<or> 0 < w"
  then have z: "ow = 0" "w = 0" using fields_tests(2) [OF n(1)] assms(2) by simp_all
  with n fields_updates(1) [of v w so sw ew] show ?thesis
    by (intro numbers_okI [where ow = 1 and w = w and sw = sw and ew = ew]) (auto split: if_splits)
qed

lemma numbers_acquire_shared:
  assumes "numbers_ok v x so wk sg pe xa sa sq ps"
    and "v AND PH_LOCK_OWNED = 0" and "v AND PH_LOCK_EXCLUSIVE_MASK = 0"
  shows "numbers_ok (v + PH_LOCK_OWNED + PH_LOCK_SHARED_OWNERS_INC) x (Suc so) wk sg pe xa sa sq ps"
  using assms(1)
proof (rule numbers_okE)
  fix ow w sw ew
  assume n: "fields v ow w so sw ew" "ow = x + of_bool (0 < so)" "ow + w \<le> 1" "w = wk + sg + pe"
    "xa = ew + sg + pe" "sa = sw + sq + ps" "0 < ew \<longrightarrow> ow + w = 1" "0 < sw \<longrightarrow> 0 < x \<or> 0 < ew \<or> 0 < w"
  then have z: "ow = 0" "w = 0" "ew = 0" using fields_tests(1,3) [OF n(1)] assms(2,3) by simp_all
  with n fields_updates(3) [of v w so sw ew] show ?thesis
    by (intro numbers_okI [where ow = 1 and w = w and sw = sw and ew = ew]) (auto split: if_splits)
qed

lemma numbers_share:
  assumes "numbers_ok v x so wk sg pe xa sa sq ps"
    and "drop_bit PH_LOCK_SHARED_OWNERS_SHIFT v AND PH_LOCK_SHARED_OWNERS_MASK \<noteq> 0" and "Suc so < 1024"
  shows "numbers_ok (v + PH_LOCK_SHARED_OWNERS_INC) x (Suc so) wk sg pe xa sa sq ps"
  using assms(1)
proof (rule numbers_okE)
  fix ow w sw ew
  assume n: "fields v ow w so sw ew" "ow = x + of_bool (0 < so)" "ow + w \<le> 1" "w = wk + sg + pe"
    "xa = ew + sg + pe" "sa = sw + sq + ps" "0 < ew \<longrightarrow> ow + w = 1" "0 < sw \<longrightarrow> 0 < x \<or> 0 < ew \<or> 0 < w"
  then have z: "so \<noteq> 0" using fields_tests(6) [OF n(1)] assms(2) by simp
  with n assms(3) fields_updates(2) [of v ow w so sw ew] show ?thesis
    by (intro numbers_okI [where ow = ow and w = w and sw = sw and ew = ew]) auto
qed

lemma numbers_sleep_exclusive:
  assumes "numbers_ok v x so wk sg pe xa sa sq ps"
    and "v AND (PH_LOCK_OWNED OR PH_LOCK_EXCLUSIVE_WAKING) \<noteq> 0" and "Suc xa < 1024"
  shows "numbers_ok (v + PH_LOCK_EXCLUSIVE_WAITERS_INC) x so wk sg pe (Suc xa) sa sq ps"
  using assms(1)
proof (rule numbers_okE)
  fix ow w sw ew
  assume n: "fields v ow w so sw ew" "ow = x + of_bool (0 < so)" "ow + w \<le> 1" "w = wk + sg + pe"
    "xa = ew + sg + pe" "sa = sw + sq + ps" "0 < ew \<longrightarrow> ow + w = 1" "0 < sw \<longrightarrow> 0 < x \<or> 0 < ew \<or> 0 < w"
  then have z: "ow + w = 1" using fields_tests(2) [OF n(1)] assms(2) by auto
  with n assms(3) fields_updates(5) [of v ow w so sw ew] show ?thesis
    by (intro numbers_okI [where ow = ow and w = w and sw = sw and ew = "Suc ew"]) auto
qed

lemma numbers_sleep_shared:
  assumes "numbers_ok v x so wk sg pe xa sa sq ps"
    and "v AND (PH_LOCK_OWNED OR push_bit PH_LOCK_SHARED_OWNERS_SHIFT PH_LOCK_SHARED_OWNERS_MASK
                OR PH_LOCK_EXCLUSIVE_MASK) \<noteq> 0"
    and "\<not> (v AND PH_LOCK_OWNED \<noteq> 0
            \<and> drop_bit PH_LOCK_SHARED_OWNERS_SHIFT v AND PH_LOCK_SHARED_OWNERS_MASK > 0
            \<and> v AND PH_LOCK_EXCLUSIVE_MASK = 0)" and "Suc sa < 1024"
  shows "numbers_ok (v + PH_LOCK_SHARED_WAITERS_INC) x so wk sg pe xa (Suc sa) sq ps"
  using assms(1)
proof (rule numbers_okE)
  fix ow w sw ew
  assume n: "fields v ow w so sw ew" "ow = x + of_bool (0 < so)" "ow + w \<le> 1" "w = wk + sg + pe"
    "xa = ew + sg + pe" "sa = sw + sq + ps" "0 < ew \<longrightarrow> ow + w = 1" "0 < sw \<longrightarrow> 0 < x \<or> 0 < ew \<or> 0 < w"
  note t = fields_tests [OF n(1)]
  have "0 < x \<or> 0 < ew \<or> 0 < w"
    using assms(2,3) n(2,3) unfolding t(1,3,4,5) by (auto split: if_splits)
  with n assms(4) fields_updates(4) [of v ow w so sw ew] show ?thesis
    by (intro numbers_okI [where ow = ow and w = w and sw = "Suc sw" and ew = ew]) auto
qed

lemma numbers_wake_exclusive:
  "numbers_ok v x so wk sg (Suc pe) (Suc xa) sa sq ps \<Longrightarrow> numbers_ok v x so (Suc wk) sg pe xa sa sq ps"
  by (elim numbers_okE, rule numbers_okI, assumption) auto

lemma numbers_wake_shared:
  "numbers_ok v x so wk sg pe xa (Suc sa) sq (Suc ps) \<Longrightarrow> numbers_ok v x so wk sg pe xa sa sq ps"
  by (elim numbers_okE, rule numbers_okI, assumption) auto

lemma numbers_signal_exclusive:
  "numbers_ok v x so wk (Suc sg) pe xa sa sq ps \<Longrightarrow> numbers_ok v x so wk sg (Suc pe) xa sa sq ps"
  by (elim numbers_okE, rule numbers_okI, assumption) auto

lemma numbers_signal_shared:
  "numbers_ok v x so wk sg pe xa sa (sq + n) ps \<Longrightarrow> numbers_ok v x so wk sg pe xa sa sq (ps + n)"
  by (elim numbers_okE, rule numbers_okI, assumption) auto

lemma numbers_take:
  assumes "numbers_ok v x so (Suc wk) sg pe xa sa sq ps"
  shows "numbers_ok (v + PH_LOCK_OWNED - PH_LOCK_EXCLUSIVE_WAKING) (Suc x) so wk sg pe xa sa sq ps"
  using assms(1)
proof (rule numbers_okE)
  fix ow w sw ew
  assume n: "fields v ow w so sw ew" "ow = x + of_bool (0 < so)" "ow + w \<le> 1" "w = Suc wk + sg + pe"
    "xa = ew + sg + pe" "sa = sw + sq + ps" "0 < ew \<longrightarrow> ow + w = 1" "0 < sw \<longrightarrow> 0 < x \<or> 0 < ew \<or> 0 < w"
  then have z: "ow = 0" "w = Suc 0" "wk = 0" "sg = 0" "pe = 0" "x = 0" "so = 0" by (auto split: if_splits)
  with n fields_updates(6) [of v so sw ew] show ?thesis
    by (intro numbers_okI [where ow = "Suc 0" and w = 0 and sw = sw and ew = ew]) auto
qed

lemma numbers_release_exclusive_wake:
  assumes "numbers_ok v (Suc x) so wk sg pe xa sa sq ps"
    and "drop_bit PH_LOCK_EXCLUSIVE_WAITERS_SHIFT v AND PH_LOCK_EXCLUSIVE_WAITERS_MASK \<noteq> 0"
  shows "numbers_ok (v - PH_LOCK_OWNED + PH_LOCK_EXCLUSIVE_WAKING - PH_LOCK_EXCLUSIVE_WAITERS_INC)
           x so wk (Suc sg) pe xa sa sq ps"
  using assms(1)
proof (rule numbers_okE)
  fix ow w sw ew
  assume n: "fields v ow w so sw ew" "ow = Suc x + of_bool (0 < so)" "ow + w \<le> 1" "w = wk + sg + pe"
    "xa = ew + sg + pe" "sa = sw + sq + ps" "0 < ew \<longrightarrow> ow + w = 1" "0 < sw \<longrightarrow> 0 < Suc x \<or> 0 < ew \<or> 0 < w"
  then obtain e where e: "ew = Suc e" using fields_tests(9) [OF n(1)] assms(2) by (cases ew) auto
  have z: "ow = Suc 0" "w = 0" "x = 0" "so = 0" "wk = 0" "sg = 0" "pe = 0" using n by (auto split: if_splits)
  with n e fields_updates(7) [of v so sw e] show ?thesis
    by (intro numbers_okI [where ow = 0 and w = "Suc 0" and sw = sw and ew = e]) auto
qed

lemma numbers_release_exclusive_all:
  assumes "numbers_ok v (Suc x) so wk sg pe xa sa sq ps"
    and "drop_bit PH_LOCK_EXCLUSIVE_WAITERS_SHIFT v AND PH_LOCK_EXCLUSIVE_WAITERS_MASK = 0"
  shows "numbers_ok (v AND NOT (PH_LOCK_OWNED OR push_bit PH_LOCK_SHARED_WAITERS_SHIFT PH_LOCK_SHARED_WAITERS_MASK))
           x so wk sg pe xa sa
           (sq + unat (drop_bit PH_LOCK_SHARED_WAITERS_SHIFT v AND PH_LOCK_SHARED_WAITERS_MASK)) ps"
  using assms(1)
proof (rule numbers_okE)
  fix ow w sw ew
  assume n: "fields v ow w so sw ew" "ow = Suc x + of_bool (0 < so)" "ow + w \<le> 1" "w = wk + sg + pe"
    "xa = ew + sg + pe" "sa = sw + sq + ps" "0 < ew \<longrightarrow> ow + w = 1" "0 < sw \<longrightarrow> 0 < Suc x \<or> 0 < ew \<or> 0 < w"
  then have e: "ew = 0" using fields_tests(9) [OF n(1)] assms(2) by simp
  have z: "ow = Suc 0" "w = 0" "x = 0" "so = 0" "wk = 0" "sg = 0" "pe = 0" using n by (auto split: if_splits)
  with n e fields_clear [of v w so sw ew] fields_counters(2) [OF n(1)] show ?thesis
    by (intro numbers_okI [where ow = 0 and w = 0 and sw = 0 and ew = 0]) auto
qed

lemma numbers_release_shared:
  assumes "numbers_ok v x (Suc so) wk sg pe xa sa sq ps"
    and "drop_bit PH_LOCK_SHARED_OWNERS_SHIFT v AND PH_LOCK_SHARED_OWNERS_MASK > 1"
  shows "numbers_ok (v - PH_LOCK_SHARED_OWNERS_INC) x so wk sg pe xa sa sq ps"
  using assms(1)
proof (rule numbers_okE)
  fix ow w sw ew
  assume n: "fields v ow w (Suc so) sw ew" "ow = x + of_bool (0 < Suc so)" "ow + w \<le> 1" "w = wk + sg + pe"
    "xa = ew + sg + pe" "sa = sw + sq + ps" "0 < ew \<longrightarrow> ow + w = 1" "0 < sw \<longrightarrow> 0 < x \<or> 0 < ew \<or> 0 < w"
  then have "0 < so" using fields_tests(7) [OF n(1)] assms(2) by simp
  with n fields_updates(8) [of v ow w so sw ew] show ?thesis
    by (intro numbers_okI [where ow = ow and w = w and sw = sw and ew = ew]) auto
qed

lemma numbers_release_shared_wake:
  assumes "numbers_ok v x (Suc so) wk sg pe xa sa sq ps"
    and "\<not> drop_bit PH_LOCK_SHARED_OWNERS_SHIFT v AND PH_LOCK_SHARED_OWNERS_MASK > 1"
    and "drop_bit PH_LOCK_EXCLUSIVE_WAITERS_SHIFT v AND PH_LOCK_EXCLUSIVE_WAITERS_MASK \<noteq> 0"
  shows "numbers_ok (v - PH_LOCK_OWNED + PH_LOCK_EXCLUSIVE_WAKING - PH_LOCK_SHARED_OWNERS_INC
                     - PH_LOCK_EXCLUSIVE_WAITERS_INC) x so wk (Suc sg) pe xa sa sq ps"
  using assms(1)
proof (rule numbers_okE)
  fix ow w sw ew
  assume n: "fields v ow w (Suc so) sw ew" "ow = x + of_bool (0 < Suc so)" "ow + w \<le> 1" "w = wk + sg + pe"
    "xa = ew + sg + pe" "sa = sw + sq + ps" "0 < ew \<longrightarrow> ow + w = 1" "0 < sw \<longrightarrow> 0 < x \<or> 0 < ew \<or> 0 < w"
  then have so: "so = 0" using fields_tests(7) [OF n(1)] assms(2) by simp
  from n assms(3) obtain e where e: "ew = Suc e" using fields_tests(9) [OF n(1)] by (cases ew) auto
  have z: "ow = Suc 0" "w = 0" "x = 0" "wk = 0" "sg = 0" "pe = 0" using n by (auto split: if_splits)
  with n e so fields_updates(9) [of v sw e] show ?thesis
    by (intro numbers_okI [where ow = 0 and w = "Suc 0" and sw = sw and ew = e]) auto
qed

lemma numbers_release_shared_last:
  assumes "numbers_ok v x (Suc so) wk sg pe xa sa sq ps"
    and "\<not> drop_bit PH_LOCK_SHARED_OWNERS_SHIFT v AND PH_LOCK_SHARED_OWNERS_MASK > 1"
    and "drop_bit PH_LOCK_EXCLUSIVE_WAITERS_SHIFT v AND PH_LOCK_EXCLUSIVE_WAITERS_MASK = 0"
  shows "numbers_ok (v - PH_LOCK_OWNED - PH_LOCK_SHARED_OWNERS_INC) x so wk sg pe xa sa sq ps"
  using assms(1)
proof (rule numbers_okE)
  fix ow w sw ew
  assume n: "fields v ow w (Suc so) sw ew" "ow = x + of_bool (0 < Suc so)" "ow + w \<le> 1" "w = wk + sg + pe"
    "xa = ew + sg + pe" "sa = sw + sq + ps" "0 < ew \<longrightarrow> ow + w = 1" "0 < sw \<longrightarrow> 0 < x \<or> 0 < ew \<or> 0 < w"
  then have so: "so = 0" using fields_tests(7) [OF n(1)] assms(2) by simp
  have e: "ew = 0" using fields_tests(9) [OF n(1)] assms(3) by simp
  have z: "ow = Suc 0" "w = 0" "x = 0" "wk = 0" "sg = 0" "pe = 0" using n by (auto split: if_splits)
  with n e so fields_updates(10) [of v w sw ew] show ?thesis
    by (intro numbers_okI [where ow = 0 and w = 0 and sw = sw and ew = 0]) auto
qed

end
