(* ===== verification/PhFastLockCorrect.thy ===== *)
theory PhFastLockCorrect
  imports PhFastLock
begin

text \<open>
  The invariant of the fast lock: the numbers of \<open>PhFastLock\<close> are those of the threads, and a thread
  that sleeps, or will, has a semaphore to sleep on. Every step keeps it; exclusion and progress follow.
\<close>

section \<open>Preservation\<close>

abbreviation busy_exclusive :: "ulong \<Rightarrow> bool" where
  "busy_exclusive v \<equiv> v AND (PH_LOCK_OWNED OR PH_LOCK_EXCLUSIVE_WAKING) \<noteq> 0"

definition busy_shared :: "ulong \<Rightarrow> bool" where
  "busy_shared v \<longleftrightarrow>
     v AND (PH_LOCK_OWNED OR push_bit PH_LOCK_SHARED_OWNERS_SHIFT PH_LOCK_SHARED_OWNERS_MASK
            OR PH_LOCK_EXCLUSIVE_MASK) \<noteq> 0
     \<and> \<not> (v AND PH_LOCK_OWNED \<noteq> 0
          \<and> drop_bit PH_LOCK_SHARED_OWNERS_SHIFT v AND PH_LOCK_SHARED_OWNERS_MASK > 0
          \<and> v AND PH_LOCK_EXCLUSIVE_MASK = 0)"

text \<open>What a thread knows, where \<open>a\<close> and \<open>b\<close> say whether the two semaphores exist.\<close>

fun pc_ok :: "bool \<Rightarrow> bool \<Rightarrow> fl_pc \<Rightarrow> bool" where
  "pc_ok a b (ExEnsure _ v) = busy_exclusive v"
| "pc_ok a b (ExCreate _ v) = busy_exclusive v"
| "pc_ok a b (ExWait _ v) = (a \<and> busy_exclusive v)"
| "pc_ok a b ExSleep = a"
| "pc_ok a b ExSignal = a"
| "pc_ok a b (ShEnsure _ v) = busy_shared v"
| "pc_ok a b (ShCreate _ v) = busy_shared v"
| "pc_ok a b (ShWait _ v) = (b \<and> busy_shared v)"
| "pc_ok a b (ShSleep _) = b"
| "pc_ok a b (ShSignal _) = b"
| "pc_ok a b FlRaised = False"
| "pc_ok a b _ = True"

definition fl_numbers :: "nat \<Rightarrow> fast_lock \<Rightarrow> bool" where
  "fl_numbers N s \<longleftrightarrow>
     numbers_ok (fl_Value s) (total ex_owner N (fl_pc s)) (total sh_owner N (fl_pc s)) (total ex_woken N (fl_pc s))
       (total ex_signal N (fl_pc s)) (permits (fl_ExclusiveWakeEvent s)) (total ex_asleep N (fl_pc s))
       (total sh_asleep N (fl_pc s)) (total sh_signal N (fl_pc s)) (permits (fl_SharedWakeEvent s))"

definition fl_inv :: "nat \<Rightarrow> fast_lock \<Rightarrow> bool" where
  "fl_inv N s \<longleftrightarrow>
     (\<forall>t. N \<le> t \<longrightarrow> fl_pc s t = FlIdle)
     \<and> (\<forall>t. pc_ok (fl_ExclusiveWakeEvent s \<noteq> None) (fl_SharedWakeEvent s \<noteq> None) (fl_pc s t))
     \<and> fl_numbers N s"

text \<open>The threads other than \<open>t\<close>.\<close>

definition rest :: "(fl_pc \<Rightarrow> nat) \<Rightarrow> nat \<Rightarrow> nat \<Rightarrow> (nat \<Rightarrow> fl_pc) \<Rightarrow> nat" where
  "rest w N t pcs = (\<Sum>u \<in> {..<N} - {t}. w (pcs u))"

lemma total_split: "t < N \<Longrightarrow> total w N pcs = rest w N t pcs + w (pcs t)"
  by (simp add: total_def rest_def sum.remove [of "{..<N}" t])

lemma rest_upd [simp]: "rest w N t (pcs(t := p)) = rest w N t pcs"
  unfolding rest_def by (intro sum.cong) auto

lemma rest_le: "t < N \<Longrightarrow> (\<And>p. w p \<le> 1) \<Longrightarrow> Suc (rest w N t pcs) \<le> N"
proof -
  assume t: "t < N" and w: "\<And>p. w p \<le> 1"
  have "rest w N t pcs \<le> card ({..<N} - {t})"
    unfolding rest_def using sum_bounded_above [of "{..<N} - {t}" "\<lambda>u. w (pcs u)" 1] w by simp
  then show ?thesis using t by simp
qed

lemma fl_inv_rest:
  assumes "fl_inv N s" and "t < N" and "fl_pc s t = p"
  shows "numbers_ok (fl_Value s) (rest ex_owner N t (fl_pc s) + ex_owner p) (rest sh_owner N t (fl_pc s) + sh_owner p)
    (rest ex_woken N t (fl_pc s) + ex_woken p) (rest ex_signal N t (fl_pc s) + ex_signal p)
    (permits (fl_ExclusiveWakeEvent s)) (rest ex_asleep N t (fl_pc s) + ex_asleep p)
    (rest sh_asleep N t (fl_pc s) + sh_asleep p) (rest sh_signal N t (fl_pc s) + sh_signal p)
    (permits (fl_SharedWakeEvent s))"
  using assms by (simp add: fl_inv_def fl_numbers_def total_split [OF assms(2)])

lemma pc_ok_mono: "pc_ok a b p \<Longrightarrow> (a \<Longrightarrow> a') \<Longrightarrow> (b \<Longrightarrow> b') \<Longrightarrow> pc_ok a' b' p"
  by (cases p) simp_all

lemma fl_invI:
  assumes "fl_inv N s" and "t < N" and "fl_pc s' = (fl_pc s)(t := p)"
    and "fl_ExclusiveWakeEvent s \<noteq> None \<Longrightarrow> fl_ExclusiveWakeEvent s' \<noteq> None"
    and "fl_SharedWakeEvent s \<noteq> None \<Longrightarrow> fl_SharedWakeEvent s' \<noteq> None"
    and "pc_ok (fl_ExclusiveWakeEvent s' \<noteq> None) (fl_SharedWakeEvent s' \<noteq> None) p"
    and "numbers_ok (fl_Value s') (rest ex_owner N t (fl_pc s) + ex_owner p) (rest sh_owner N t (fl_pc s) + sh_owner p)
      (rest ex_woken N t (fl_pc s) + ex_woken p) (rest ex_signal N t (fl_pc s) + ex_signal p)
      (permits (fl_ExclusiveWakeEvent s')) (rest ex_asleep N t (fl_pc s) + ex_asleep p)
      (rest sh_asleep N t (fl_pc s) + sh_asleep p) (rest sh_signal N t (fl_pc s) + sh_signal p)
      (permits (fl_SharedWakeEvent s'))"
  shows "fl_inv N s'"
proof -
  have "pc_ok (fl_ExclusiveWakeEvent s' \<noteq> None) (fl_SharedWakeEvent s' \<noteq> None) (fl_pc s u)" for u
    using assms(1) by (intro pc_ok_mono [OF _ assms(4,5)]) (simp_all add: fl_inv_def)
  then show ?thesis
    using assms(1,2,6,7) by (simp add: fl_inv_def fl_numbers_def total_split [OF assms(2)] assms(3))
qed

definition same_weights :: "fl_pc \<Rightarrow> fl_pc \<Rightarrow> bool" where
  "same_weights p q \<longleftrightarrow> ex_owner p = ex_owner q \<and> sh_owner p = sh_owner q \<and> ex_woken p = ex_woken q
     \<and> ex_signal p = ex_signal q \<and> ex_asleep p = ex_asleep q \<and> sh_asleep p = sh_asleep q \<and> sh_signal p = sh_signal q"

lemma fl_inv_goto:
  assumes "fl_inv N s" and "t < N" and "same_weights (fl_pc s t) p"
    and "pc_ok (fl_ExclusiveWakeEvent s \<noteq> None) (fl_SharedWakeEvent s \<noteq> None) p"
  shows "fl_inv N (fl_goto s t p)"
  using fl_inv_rest [OF assms(1,2) refl] assms(3,4)
  by (intro fl_invI [OF assms(1,2), where p = p]) (simp_all add: same_weights_def)

lemma fl_inv_cas:
  assumes "fl_inv N s" and "t < N" and "same_weights (fl_pc s t) no"
    and "pc_ok (fl_ExclusiveWakeEvent s \<noteq> None) (fl_SharedWakeEvent s \<noteq> None) no"
    and "pc_ok (fl_ExclusiveWakeEvent s \<noteq> None) (fl_SharedWakeEvent s \<noteq> None) yes"
    and "fl_Value s = old \<Longrightarrow> numbers_ok new
      (rest ex_owner N t (fl_pc s) + ex_owner yes) (rest sh_owner N t (fl_pc s) + sh_owner yes)
      (rest ex_woken N t (fl_pc s) + ex_woken yes) (rest ex_signal N t (fl_pc s) + ex_signal yes)
      (permits (fl_ExclusiveWakeEvent s)) (rest ex_asleep N t (fl_pc s) + ex_asleep yes)
      (rest sh_asleep N t (fl_pc s) + sh_asleep yes) (rest sh_signal N t (fl_pc s) + sh_signal yes)
      (permits (fl_SharedWakeEvent s))"
  shows "fl_inv N (fl_cas s t old new yes no)"
proof (cases "fl_Value s = old")
  case True
  then show ?thesis
    using assms by (auto simp: fl_cas_def intro!: fl_invI [OF assms(1,2), where p = yes])
next
  case False
  then show ?thesis using fl_inv_goto [OF assms(1-4)] by (simp add: fl_cas_def)
qed

lemma fl_next_pc:
  "fl_pc s t = p \<Longrightarrow> fl_next spinCount s t =
     (case p of
        FlIdle \<Rightarrow> None | ExOwned \<Rightarrow> None | ShOwned \<Rightarrow> None | FlRaised \<Rightarrow> None
      | ExLoop _ \<Rightarrow> PhfAcquireFastLockExclusive spinCount s t p | ExRead _ _ \<Rightarrow> PhfAcquireFastLockExclusive spinCount s t p
      | ExEnsure _ _ \<Rightarrow> PhfAcquireFastLockExclusive spinCount s t p | ExCreate _ _ \<Rightarrow> PhfAcquireFastLockExclusive spinCount s t p
      | ExWait _ _ \<Rightarrow> PhfAcquireFastLockExclusive spinCount s t p | ExSleep \<Rightarrow> PhfAcquireFastLockExclusive spinCount s t p
      | ExWoken \<Rightarrow> PhfAcquireFastLockExclusive spinCount s t p | ExTake _ \<Rightarrow> PhfAcquireFastLockExclusive spinCount s t p
      | ExRelease \<Rightarrow> PhfReleaseFastLockExclusive s t p | ExReleaseRead _ \<Rightarrow> PhfReleaseFastLockExclusive s t p
      | ExSignal \<Rightarrow> PhfReleaseFastLockExclusive s t p | ShSignal _ \<Rightarrow> PhfReleaseFastLockExclusive s t p
      | ShRelease \<Rightarrow> PhfReleaseFastLockShared s t p | ShReleaseRead _ \<Rightarrow> PhfReleaseFastLockShared s t p
      | TryEx _ \<Rightarrow> PhfTryAcquireFastLockExclusive s t p | TrySh _ \<Rightarrow> PhfTryAcquireFastLockShared s t p
      | _ \<Rightarrow> PhfAcquireFastLockShared spinCount s t p)"
  by (cases p) (simp_all add: fl_next_def Let_def wait_exclusive_def wait_shared_def split: option.splits)

text \<open>A semaphore with a waiter exists.\<close>

lemma exclusive_semaphore:
  assumes "fl_inv N s"
    and "drop_bit PH_LOCK_EXCLUSIVE_WAITERS_SHIFT (fl_Value s) AND PH_LOCK_EXCLUSIVE_WAITERS_MASK \<noteq> 0"
  shows "fl_ExclusiveWakeEvent s \<noteq> None"
proof -
  from assms(1) have "fl_numbers N s" by (simp add: fl_inv_def)
  then obtain ow w sw ew where n: "fields (fl_Value s) ow w (total sh_owner N (fl_pc s)) sw ew"
      "total ex_asleep N (fl_pc s) = ew + total ex_signal N (fl_pc s) + permits (fl_ExclusiveWakeEvent s)"
    unfolding fl_numbers_def by (elim numbers_okE)
  then have "total ex_asleep N (fl_pc s) \<noteq> 0" using fields_tests(9) [OF n(1)] assms(2) by auto
  then obtain t where "ex_asleep (fl_pc s t) \<noteq> 0" unfolding total_zero by blast
  then have "fl_pc s t = ExSleep" by (cases "fl_pc s t") simp_all
  moreover have "pc_ok (fl_ExclusiveWakeEvent s \<noteq> None) (fl_SharedWakeEvent s \<noteq> None) (fl_pc s t)"
    using assms(1) by (simp add: fl_inv_def)
  ultimately show ?thesis by simp
qed

lemma shared_semaphore:
  assumes "fl_inv N s"
    and "drop_bit PH_LOCK_SHARED_WAITERS_SHIFT (fl_Value s) AND PH_LOCK_SHARED_WAITERS_MASK \<noteq> 0"
  shows "fl_SharedWakeEvent s \<noteq> None"
proof -
  from assms(1) have "fl_numbers N s" by (simp add: fl_inv_def)
  then obtain ow w sw ew where n: "fields (fl_Value s) ow w (total sh_owner N (fl_pc s)) sw ew"
      "total sh_asleep N (fl_pc s) = sw + total sh_signal N (fl_pc s) + permits (fl_SharedWakeEvent s)"
    unfolding fl_numbers_def by (elim numbers_okE)
  then have "total sh_asleep N (fl_pc s) \<noteq> 0" using fields_tests(8) [OF n(1)] assms(2) by auto
  then obtain t where "sh_asleep (fl_pc s t) \<noteq> 0" unfolding total_zero by blast
  then obtain i where "fl_pc s t = ShSleep i" by (cases "fl_pc s t") simp_all
  moreover have "pc_ok (fl_ExclusiveWakeEvent s \<noteq> None) (fl_SharedWakeEvent s \<noteq> None) (fl_pc s t)"
    using assms(1) by (simp add: fl_inv_def)
  ultimately show ?thesis by simp
qed

lemma exclusive_run:
  assumes inv: "fl_inv N s" and t: "t < N" and N: "N < 1024"
    and step: "PhfAcquireFastLockExclusive spinCount s t (fl_pc s t) = Some s'"
  shows "fl_inv N s'"
proof -
  have ok: "pc_ok (fl_ExclusiveWakeEvent s \<noteq> None) (fl_SharedWakeEvent s \<noteq> None) (fl_pc s t)"
    using inv by (simp add: fl_inv_def)
  note n = fl_inv_rest [OF inv t]
  show ?thesis
  proof (cases "fl_pc s t")
    case (ExRead i v)
    show ?thesis
    proof (cases "busy_exclusive v")
      case True
      with ExRead step show ?thesis
        by (auto intro!: fl_inv_goto [OF inv t] simp: same_weights_def split: if_splits)
    next
      case False
      then have "s' = fl_cas s t v (v + PH_LOCK_OWNED) ExOwned (ExLoop (i + 1))" using ExRead step by simp
      then show ?thesis
        using numbers_acquire_exclusive [OF n [OF ExRead]] False ExRead
        by (auto intro!: fl_inv_cas [OF inv t] simp: same_weights_def)
    qed
  next
    case (ExCreate i v)
    let ?s = "if fl_ExclusiveWakeEvent s = None then s\<lparr>fl_ExclusiveWakeEvent := Some 0\<rparr> else s"
    have "s' = fl_goto ?s t (ExWait i v)" using ExCreate step by simp
    with ok ExCreate n [OF ExCreate] show ?thesis
      by (intro fl_invI [OF inv t, where p = "ExWait i v"]) auto
  next
    case (ExWait i v)
    then have "s' = fl_cas s t v (v + PH_LOCK_EXCLUSIVE_WAITERS_INC) ExSleep (ExLoop (i + 1))" using step by simp
    moreover have "Suc (rest ex_asleep N t (fl_pc s)) < 1024" using rest_le [OF t weights_le(5)] N by (rule le_less_trans)
    ultimately show ?thesis
      using numbers_sleep_exclusive [OF n [OF ExWait]] ok ExWait
      by (auto intro!: fl_inv_cas [OF inv t] simp: same_weights_def)
  next
    case ExSleep
    with ok obtain k where k: "fl_ExclusiveWakeEvent s = Some k" by auto
    with ExSleep step obtain m where m: "k = Suc m" by (cases k) (simp_all add: wait_exclusive_def)
    with k ExSleep step have "s' = fl_goto (s\<lparr>fl_ExclusiveWakeEvent := Some m\<rparr>) t ExWoken"
      by (simp add: wait_exclusive_def)
    with n [OF ExSleep] k m show ?thesis
      by (intro fl_invI [OF inv t, where p = ExWoken]) (auto intro: numbers_wake_exclusive)
  next
    case (ExTake v)
    then have "s' = fl_cas s t v (v + PH_LOCK_OWNED - PH_LOCK_EXCLUSIVE_WAKING) ExOwned ExWoken" using step by simp
    with n [OF ExTake] ExTake show ?thesis
      using numbers_take by (auto intro!: fl_inv_cas [OF inv t] simp: same_weights_def)
  qed (use step ok in \<open>auto intro!: fl_inv_goto [OF inv t] simp: same_weights_def split: if_splits\<close>)
qed

lemma shared_run:
  assumes inv: "fl_inv N s" and t: "t < N" and N: "N < 1024"
    and step: "PhfAcquireFastLockShared spinCount s t (fl_pc s t) = Some s'"
  shows "fl_inv N s'"
proof -
  have ok: "pc_ok (fl_ExclusiveWakeEvent s \<noteq> None) (fl_SharedWakeEvent s \<noteq> None) (fl_pc s t)"
    using inv by (simp add: fl_inv_def)
  note n = fl_inv_rest [OF inv t]
  have so: "Suc (rest sh_owner N t (fl_pc s)) < 1024" using rest_le [OF t weights_le(2)] N by (rule le_less_trans)
  show ?thesis
  proof (cases "fl_pc s t")
    case (ShRead i v)
    let ?free = "v AND (PH_LOCK_OWNED OR push_bit PH_LOCK_SHARED_OWNERS_SHIFT PH_LOCK_SHARED_OWNERS_MASK
                        OR PH_LOCK_EXCLUSIVE_MASK) = 0"
    let ?counter = "drop_bit PH_LOCK_SHARED_OWNERS_SHIFT v AND PH_LOCK_SHARED_OWNERS_MASK"
    show ?thesis
    proof (cases "busy_shared v")
      case True
      with ShRead step show ?thesis
        by (auto intro!: fl_inv_goto [OF inv t] simp: same_weights_def busy_shared_def split: if_splits)
    next
      case False
      show ?thesis
      proof (cases ?free)
        case True
        then have z: "v AND PH_LOCK_OWNED = 0" "v AND PH_LOCK_EXCLUSIVE_MASK = 0" by (simp_all add: or_test)
        have "s' = fl_cas s t v (v + PH_LOCK_OWNED + PH_LOCK_SHARED_OWNERS_INC) ShOwned (ShLoop (i + 1))"
          using True ShRead step by simp
        then show ?thesis
          using numbers_acquire_shared [OF n [OF ShRead]] z ShRead
          by (auto intro!: fl_inv_cas [OF inv t] simp: same_weights_def)
      next
        case again: False
        with False have c: "?counter \<noteq> 0" "v AND PH_LOCK_OWNED \<noteq> 0" "v AND PH_LOCK_EXCLUSIVE_MASK = 0" "?counter > 0"
          by (auto simp: busy_shared_def)
        have "s' = fl_cas s t v (v + PH_LOCK_SHARED_OWNERS_INC) ShOwned (ShLoop (i + 1))"
          using again c(2-4) ShRead step by (simp only: PhfAcquireFastLockShared.simps if_False if_True simp_thms) simp
        then show ?thesis
          using numbers_share [OF n [OF ShRead]] c(1) so ShRead
          by (auto intro!: fl_inv_cas [OF inv t] simp: same_weights_def)
      qed
    qed
  next
    case (ShCreate i v)
    let ?s = "if fl_SharedWakeEvent s = None then s\<lparr>fl_SharedWakeEvent := Some 0\<rparr> else s"
    have "s' = fl_goto ?s t (ShWait i v)" using ShCreate step by simp
    with ok ShCreate n [OF ShCreate] show ?thesis
      by (intro fl_invI [OF inv t, where p = "ShWait i v"]) auto
  next
    case (ShWait i v)
    then have "s' = fl_cas s t v (v + PH_LOCK_SHARED_WAITERS_INC) (ShSleep i) (ShLoop (i + 1))" using step by simp
    moreover have "Suc (rest sh_asleep N t (fl_pc s)) < 1024" using rest_le [OF t weights_le(6)] N by (rule le_less_trans)
    ultimately show ?thesis
      using numbers_sleep_shared [OF n [OF ShWait]] ok ShWait
      by (auto intro!: fl_inv_cas [OF inv t] simp: same_weights_def busy_shared_def)
  next
    case (ShSleep i)
    with ok obtain k where k: "fl_SharedWakeEvent s = Some k" by auto
    with ShSleep step obtain m where m: "k = Suc m" by (cases k) (simp_all add: wait_shared_def)
    with k ShSleep step have "s' = fl_goto (s\<lparr>fl_SharedWakeEvent := Some m\<rparr>) t (ShLoop i)"
      by (simp add: wait_shared_def)
    with n [OF ShSleep] k m show ?thesis
      by (intro fl_invI [OF inv t, where p = "ShLoop i"]) (auto intro: numbers_wake_shared)
  qed (use step ok in \<open>auto intro!: fl_inv_goto [OF inv t] simp: same_weights_def split: if_splits\<close>)
qed

lemma signal_run:
  assumes inv: "fl_inv N s" and t: "t < N" and p: "fl_pc s t = ExSignal"
  shows "fl_inv N (fl_goto (release_exclusive s 1) t FlIdle)"
proof -
  from inv p obtain k where "fl_ExclusiveWakeEvent s = Some k" by (force simp: fl_inv_def dest: spec [of _ t])
  with fl_inv_rest [OF inv t p] show ?thesis
    by (intro fl_invI [OF inv t, where p = FlIdle]) (auto simp: release_exclusive_def intro: numbers_signal_exclusive)
qed

lemma release_exclusive_run:
  assumes inv: "fl_inv N s" and t: "t < N"
    and step: "PhfReleaseFastLockExclusive s t (fl_pc s t) = Some s'"
  shows "fl_inv N s'"
proof -
  have ok: "pc_ok (fl_ExclusiveWakeEvent s \<noteq> None) (fl_SharedWakeEvent s \<noteq> None) (fl_pc s t)"
    using inv by (simp add: fl_inv_def)
  note n = fl_inv_rest [OF inv t]
  show ?thesis
  proof (cases "fl_pc s t")
    case (ExReleaseRead v)
    let ?waiters = "drop_bit PH_LOCK_EXCLUSIVE_WAITERS_SHIFT v AND PH_LOCK_EXCLUSIVE_WAITERS_MASK"
    let ?shared = "drop_bit PH_LOCK_SHARED_WAITERS_SHIFT v AND PH_LOCK_SHARED_WAITERS_MASK"
    show ?thesis
    proof (cases "?waiters = 0")
      case False
      then have s': "s' = fl_cas s t v (v - PH_LOCK_OWNED + PH_LOCK_EXCLUSIVE_WAKING - PH_LOCK_EXCLUSIVE_WAITERS_INC)
          ExSignal ExRelease"
        using ExReleaseRead step by simp
      show ?thesis
      proof (cases "fl_Value s = v")
        case True
        then show ?thesis
          unfolding s' using numbers_release_exclusive_wake [of v "rest ex_owner N t (fl_pc s)"] n [OF ExReleaseRead]
            False ExReleaseRead exclusive_semaphore [OF inv]
          by (intro fl_inv_cas [OF inv t]) (simp_all add: same_weights_def)
      next
        case False
        then show ?thesis
          unfolding s' using ExReleaseRead by (simp add: fl_cas_def) (auto intro!: fl_inv_goto [OF inv t] simp: same_weights_def)
      qed
    next
      case True
      let ?next = "if ?shared \<noteq> 0 then ShSignal ?shared else FlIdle"
      have s': "s' = fl_cas s t v
          (v AND NOT (PH_LOCK_OWNED OR push_bit PH_LOCK_SHARED_WAITERS_SHIFT PH_LOCK_SHARED_WAITERS_MASK)) ?next ExRelease"
        using True ExReleaseRead step by (simp add: Let_def)
      show ?thesis
      proof (cases "fl_Value s = v")
        case yes: True
        have w: "ex_owner ?next = 0" "sh_owner ?next = 0" "ex_woken ?next = 0" "ex_signal ?next = 0"
          "ex_asleep ?next = 0" "sh_asleep ?next = 0" "sh_signal ?next = unat ?shared"
          by (simp_all split: if_split)
        have "pc_ok (fl_ExclusiveWakeEvent s \<noteq> None) (fl_SharedWakeEvent s \<noteq> None) ?next"
          using shared_semaphore [OF inv] yes by (simp split: if_split)
        then show ?thesis
          unfolding s' using numbers_release_exclusive_all [of v "rest ex_owner N t (fl_pc s)"] n [OF ExReleaseRead]
            True yes ExReleaseRead
          by (intro fl_inv_cas [OF inv t]) (simp_all only: w, simp_all add: same_weights_def)
      next
        case False
        then show ?thesis
          unfolding s' using ExReleaseRead by (simp add: fl_cas_def) (auto intro!: fl_inv_goto [OF inv t] simp: same_weights_def)
      qed
    qed
  next
    case (ShSignal q)
    with ok obtain k where "fl_SharedWakeEvent s = Some k" by auto
    with n [OF ShSignal] ShSignal step show ?thesis
      by (intro fl_invI [OF inv t, where p = FlIdle])
        (auto simp: release_shared_def add.commute intro!: numbers_signal_shared)
  next
    case ExSignal
    with step signal_run [OF inv t] show ?thesis by simp
  qed (use step ok in \<open>auto intro!: fl_inv_goto [OF inv t] simp: same_weights_def split: if_splits\<close>)
qed

lemma release_shared_run:
  assumes inv: "fl_inv N s" and t: "t < N"
    and step: "PhfReleaseFastLockShared s t (fl_pc s t) = Some s'"
  shows "fl_inv N s'"
proof -
  note n = fl_inv_rest [OF inv t]
  show ?thesis
  proof (cases "fl_pc s t")
    case (ShReleaseRead v)
    let ?waiters = "drop_bit PH_LOCK_EXCLUSIVE_WAITERS_SHIFT v AND PH_LOCK_EXCLUSIVE_WAITERS_MASK"
    let ?owners = "drop_bit PH_LOCK_SHARED_OWNERS_SHIFT v AND PH_LOCK_SHARED_OWNERS_MASK"
    have no: "fl_inv N (fl_goto s t ShRelease)"
      using ShReleaseRead by (auto intro!: fl_inv_goto [OF inv t] simp: same_weights_def)
    show ?thesis
    proof (cases "?owners > 1")
      case True
      then have "s' = fl_cas s t v (v - PH_LOCK_SHARED_OWNERS_INC) FlIdle ShRelease"
        using ShReleaseRead step by simp
      then show ?thesis
        using numbers_release_shared [of v _ "rest sh_owner N t (fl_pc s)"] n [OF ShReleaseRead] True ShReleaseRead
        by (auto intro!: fl_inv_cas [OF inv t] simp: same_weights_def)
    next
      case one: False
      show ?thesis
      proof (cases "?waiters = 0")
        case False
        then have s': "s' = fl_cas s t v (v - PH_LOCK_OWNED + PH_LOCK_EXCLUSIVE_WAKING - PH_LOCK_SHARED_OWNERS_INC
            - PH_LOCK_EXCLUSIVE_WAITERS_INC) ExSignal ShRelease"
          using one ShReleaseRead step by simp
        show ?thesis
        proof (cases "fl_Value s = v")
          case True
          then show ?thesis
            unfolding s'
            using numbers_release_shared_wake [of v _ "rest sh_owner N t (fl_pc s)"] n [OF ShReleaseRead]
              one False ShReleaseRead exclusive_semaphore [OF inv]
            by (intro fl_inv_cas [OF inv t]) (simp_all add: same_weights_def)
        qed (use s' no in \<open>simp add: fl_cas_def\<close>)
      next
        case True
        then have "s' = fl_cas s t v (v - PH_LOCK_OWNED - PH_LOCK_SHARED_OWNERS_INC) FlIdle ShRelease"
          using one ShReleaseRead step by simp
        then show ?thesis
          using numbers_release_shared_last [of v _ "rest sh_owner N t (fl_pc s)"] n [OF ShReleaseRead] one True ShReleaseRead
          by (auto intro!: fl_inv_cas [OF inv t] simp: same_weights_def)
      qed
    qed
  next
    case ExSignal
    with step signal_run [OF inv t] show ?thesis by simp
  qed (use step in \<open>auto intro!: fl_inv_goto [OF inv t] simp: same_weights_def\<close>)
qed

lemma try_exclusive_run:
  assumes inv: "fl_inv N s" and t: "t < N"
    and step: "PhfTryAcquireFastLockExclusive s t (fl_pc s t) = Some s'"
  shows "fl_inv N s'"
proof (cases "fl_pc s t")
  case (TryEx v)
  note n = fl_inv_rest [OF inv t TryEx]
  have no: "fl_inv N (fl_goto s t FlIdle)"
    using TryEx by (auto intro!: fl_inv_goto [OF inv t] simp: same_weights_def)
  show ?thesis
  proof (cases "busy_exclusive v")
    case True
    with step TryEx no show ?thesis by simp
  next
    case False
    then have "s' = fl_cas s t v (v + PH_LOCK_OWNED) ExOwned FlIdle" using step TryEx by simp
    then show ?thesis
      using numbers_acquire_exclusive [OF n] False TryEx
      by (auto intro!: fl_inv_cas [OF inv t] simp: same_weights_def)
  qed
qed (use step in auto)

lemma try_shared_run:
  assumes inv: "fl_inv N s" and t: "t < N" and N: "N < 1024"
    and step: "PhfTryAcquireFastLockShared s t (fl_pc s t) = Some s'"
  shows "fl_inv N s'"
proof (cases "fl_pc s t")
  case (TrySh v)
  note n = fl_inv_rest [OF inv t TrySh]
  have so: "Suc (rest sh_owner N t (fl_pc s)) < 1024" using rest_le [OF t weights_le(2)] N by (rule le_less_trans)
  have no: "fl_inv N (fl_goto s t FlIdle)"
    using TrySh by (auto intro!: fl_inv_goto [OF inv t] simp: same_weights_def)
  consider (first) "v AND PH_LOCK_EXCLUSIVE_MASK = 0" "v AND PH_LOCK_OWNED = 0"
    | (more) "v AND PH_LOCK_EXCLUSIVE_MASK = 0" "v AND PH_LOCK_OWNED \<noteq> 0"
        "drop_bit PH_LOCK_SHARED_OWNERS_SHIFT v AND PH_LOCK_SHARED_OWNERS_MASK \<noteq> 0"
    | (fails) "s' = fl_goto s t FlIdle"
    using step TrySh by (auto split: if_splits)
  then show ?thesis
  proof cases
    case first
    then have "s' = fl_cas s t v (v + PH_LOCK_OWNED + PH_LOCK_SHARED_OWNERS_INC) ShOwned FlIdle"
      using step TrySh by simp
    then show ?thesis
      using numbers_acquire_shared [OF n] first TrySh
      by (auto intro!: fl_inv_cas [OF inv t] simp: same_weights_def)
  next
    case more
    then have "s' = fl_cas s t v (v + PH_LOCK_SHARED_OWNERS_INC) ShOwned FlIdle"
      using step TrySh by simp
    then show ?thesis
      using numbers_share [OF n] more(3) so TrySh
      by (auto intro!: fl_inv_cas [OF inv t] simp: same_weights_def)
  qed (use no in simp)
qed (use step in auto)

lemma fl_inv_step:
  assumes "fl_step spinCount N s s'" and "fl_inv N s" and "N < 1024"
  shows "fl_inv N s'"
  using assms(1)
proof cases
  case (run t)
  have "PhfAcquireFastLockExclusive spinCount s t (fl_pc s t) = Some s'
    \<or> PhfAcquireFastLockShared spinCount s t (fl_pc s t) = Some s'
    \<or> PhfReleaseFastLockExclusive s t (fl_pc s t) = Some s' \<or> PhfReleaseFastLockShared s t (fl_pc s t) = Some s'
    \<or> PhfTryAcquireFastLockExclusive s t (fl_pc s t) = Some s' \<or> PhfTryAcquireFastLockShared s t (fl_pc s t) = Some s'"
    using run(2) by (auto simp: fl_next_def Let_def split: option.splits)
  then show ?thesis
    using exclusive_run [OF assms(2) run(1) assms(3)] shared_run [OF assms(2) run(1) assms(3)]
      release_exclusive_run [OF assms(2) run(1)] release_shared_run [OF assms(2) run(1)]
      try_exclusive_run [OF assms(2) run(1)] try_shared_run [OF assms(2) run(1) assms(3)]
    by blast
qed (use assms(2) in \<open>auto intro!: fl_inv_goto simp: same_weights_def\<close>)

lemma fl_inv_start: "fl_start s \<Longrightarrow> fl_inv N s"
proof -
  assume s: "fl_start s"
  then have "fl_Value s = 0" "fl_ExclusiveWakeEvent s = None" "fl_SharedWakeEvent s = None" "\<forall>t. fl_pc s t = FlIdle"
    unfolding fl_start_def PhInitializeFastLock_def by (metis fast_lock.select_convs fast_lock.surjective fast_lock.update_convs)+
  then show ?thesis
    by (auto simp: fl_inv_def fl_numbers_def total_def fields_def
        intro!: numbers_okI [where ow = 0 and w = 0 and sw = 0 and ew = 0])
qed

lemma fl_inv_steps: "fl_steps spinCount N s s' \<Longrightarrow> fl_inv N s \<Longrightarrow> N < 1024 \<Longrightarrow> fl_inv N s'"
  by (induction rule: rtranclp_induct) (auto intro: fl_inv_step)

section \<open>Exclusion and progress\<close>

definition ex_owns :: "fast_lock \<Rightarrow> nat \<Rightarrow> bool" where
  "ex_owns s t \<longleftrightarrow> ex_owner (fl_pc s t) = 1"

definition sh_owns :: "fast_lock \<Rightarrow> nat \<Rightarrow> bool" where
  "sh_owns s t \<longleftrightarrow> sh_owner (fl_pc s t) = 1"

text \<open>A thread that holds the lock and is outside the functions of the lock, or asleep.\<close>

definition holds_lock :: "fast_lock \<Rightarrow> nat \<Rightarrow> bool" where
  "holds_lock s t \<longleftrightarrow> fl_pc s t \<in> {ExOwned, ShOwned}"

definition asleep :: "fast_lock \<Rightarrow> nat \<Rightarrow> bool" where
  "asleep s t \<longleftrightarrow> fl_pc s t = ExSleep \<or> (\<exists>i. fl_pc s t = ShSleep i)"

lemma total_two: "t < N \<Longrightarrow> u < N \<Longrightarrow> t \<noteq> u \<Longrightarrow> w (pcs t) + w (pcs u) \<le> total w N pcs"
  using total_split [of t N w pcs] member_le_sum [of u "{..<N} - {t}" "\<lambda>u. w (pcs u)"] by (simp add: rest_def)

lemma fl_inv_numbers:
  assumes "fl_inv N s"
  shows "total ex_owner N (fl_pc s) + of_bool (0 < total sh_owner N (fl_pc s)) \<le> 1"
proof -
  from assms have "fl_numbers N s" by (simp add: fl_inv_def)
  then show ?thesis unfolding fl_numbers_def by (elim numbers_okE) linarith
qed

lemma fl_inv_idle: "fl_inv N s \<Longrightarrow> w FlIdle = 0 \<Longrightarrow> w (fl_pc s t) \<noteq> 0 \<Longrightarrow> t < N"
  by (rule ccontr) (auto simp: fl_inv_def)

lemma mutual_exclusion:
  assumes inv: "fl_inv N s" and t: "ex_owns s t"
  shows "u \<noteq> t \<Longrightarrow> \<not> ex_owns s u" and "\<not> sh_owns s u"
proof -
  note n = fl_inv_numbers [OF inv]
  have tN: "t < N" by (rule fl_inv_idle [OF inv, of ex_owner]) (use t in \<open>simp_all add: ex_owns_def\<close>)
  show "\<not> ex_owns s u" if "u \<noteq> t"
  proof
    assume u: "ex_owns s u"
    have "u < N" by (rule fl_inv_idle [OF inv, of ex_owner]) (use u in \<open>simp_all add: ex_owns_def\<close>)
    from total_two [OF tN this, of ex_owner "fl_pc s"] that t u n show False by (simp add: ex_owns_def)
  qed
  show "\<not> sh_owns s u"
  proof
    assume u: "sh_owns s u"
    have "u < N" by (rule fl_inv_idle [OF inv, of sh_owner]) (use u in \<open>simp_all add: sh_owns_def\<close>)
    from total_member [OF this, of sh_owner "fl_pc s"] total_member [OF tN, of ex_owner "fl_pc s"] t u n
    show False by (simp add: ex_owns_def sh_owns_def split: if_splits)
  qed
qed

text \<open>Every thread in a call can go on, unless it sleeps on a semaphore of count 0.\<close>

lemma fl_next_blocked:
  assumes "fl_inv N s" and "fl_next spinCount s t = None" and "\<not> holds_lock s t"
  shows "fl_pc s t = FlIdle \<or> fl_pc s t = ExSleep \<and> permits (fl_ExclusiveWakeEvent s) = 0
    \<or> (\<exists>i. fl_pc s t = ShSleep i) \<and> permits (fl_SharedWakeEvent s) = 0"
proof -
  have ok: "pc_ok (fl_ExclusiveWakeEvent s \<noteq> None) (fl_SharedWakeEvent s \<noteq> None) (fl_pc s t)"
    using assms(1) by (simp add: fl_inv_def)
  show ?thesis
  proof (cases "fl_pc s t")
    case ExSleep
    with ok assms(2) show ?thesis
      by (auto simp: fl_next_pc [OF ExSleep] wait_exclusive_def split: if_splits option.splits)
  next
    case (ShSleep i)
    with ok assms(2) show ?thesis
      by (auto simp: fl_next_pc [OF ShSleep] wait_shared_def split: if_splits option.splits)
  qed (use assms(2,3) ok in \<open>simp_all add: fl_next_pc [OF refl] holds_lock_def Let_def split: if_splits\<close>)
qed

lemma no_deadlock:
  assumes inv: "fl_inv N s" and blocked: "\<forall>t<N. fl_next spinCount s t = None" and u: "asleep s u"
  shows "\<exists>t<N. holds_lock s t"
proof (rule ccontr)
  assume none: "\<not> ?thesis"
  note b = fl_next_blocked [OF inv]
  have pcs: "fl_pc s t = FlIdle \<or> fl_pc s t = ExSleep \<or> (\<exists>i. fl_pc s t = ShSleep i)" if "t < N" for t
  proof -
    have "fl_next spinCount s t = None" "\<not> holds_lock s t" using blocked none that by simp_all
    from b [OF this] show ?thesis by auto
  qed
  have zero: "total w N (fl_pc s) = 0" if "w FlIdle = 0" "w ExSleep = 0" "\<And>i. w (ShSleep i) = 0" for w
    unfolding total_zero using pcs that by metis
  have z: "total ex_owner N (fl_pc s) = 0" "total sh_owner N (fl_pc s) = 0" "total ex_woken N (fl_pc s) = 0"
    "total ex_signal N (fl_pc s) = 0" "total sh_signal N (fl_pc s) = 0"
    by (rule zero; simp)+
  from inv have "fl_numbers N s" by (simp add: fl_inv_def)
  then obtain w sw ew where n: "w = permits (fl_ExclusiveWakeEvent s)"
      "total ex_asleep N (fl_pc s) = ew + permits (fl_ExclusiveWakeEvent s)"
      "total sh_asleep N (fl_pc s) = sw + permits (fl_SharedWakeEvent s)"
      "0 < ew \<longrightarrow> w = 1" "0 < sw \<longrightarrow> 0 < ew \<or> 0 < w"
    unfolding fl_numbers_def z by (elim numbers_okE) simp
  have uN: "u < N"
    using u inv by (auto simp: asleep_def fl_inv_def) (metis fl_pc.distinct not_less)+
  have ex: "total ex_asleep N (fl_pc s) = 0"
  proof (rule ccontr)
    assume "total ex_asleep N (fl_pc s) \<noteq> 0"
    then obtain t where t: "t < N" "ex_asleep (fl_pc s t) \<noteq> 0" unfolding total_zero by blast
    then have "fl_pc s t = ExSleep" by (cases "fl_pc s t") simp_all
    then have "permits (fl_ExclusiveWakeEvent s) = 0" using b [of spinCount t] blocked none t(1) by auto
    with n \<open>total ex_asleep N (fl_pc s) \<noteq> 0\<close> show False by simp
  qed
  with n have e: "ew = 0" "w = 0" by simp_all
  have "fl_pc s u \<noteq> ExSleep" using ex uN unfolding total_zero by fastforce
  with u obtain i where i: "fl_pc s u = ShSleep i" by (auto simp: asleep_def)
  then have "permits (fl_SharedWakeEvent s) = 0" using b [of spinCount u] blocked none uN by auto
  moreover have "total sh_asleep N (fl_pc s) \<noteq> 0" using i uN unfolding total_zero by fastforce
  ultimately show False using n e by simp
qed

section \<open>Overflow\<close>

text \<open>The state after \<open>k\<close> threads have acquired the lock shared.\<close>

definition shared_by :: "nat \<Rightarrow> fast_lock" where
  "shared_by k =
     \<lparr> fl_Value = (if k = 0 then 0 else of_nat (1 + 4 * k)), fl_ExclusiveWakeEvent = None, fl_SharedWakeEvent = None,
       fl_pc = (\<lambda>t. if t < k then ShOwned else FlIdle) \<rparr>"

lemma fl_run:
  assumes "t < N" and "fl_next spinCount s t = Some s1" and "fl_steps spinCount N s1 s2"
  shows "fl_steps spinCount N s s2"
  by (rule converse_rtranclp_into_rtranclp [OF fl_step.run [OF assms(1,2)] assms(3)])

lemma share_step:
  assumes "k < 1024" and "k < N"
  shows "fl_steps spinCount N (shared_by k) (shared_by (Suc k))"
proof -
  let ?v = "fl_Value (shared_by k)"
  have idle: "fl_pc (shared_by k) k = FlIdle" by (simp add: shared_by_def)
  let ?a = "fl_goto (shared_by k) k (ShLoop 0)" and ?b = "fl_goto (shared_by k) k (ShRead 0 ?v)"
  have f: "fields ?v (of_bool (0 < k)) 0 k 0 0"
    using assms(1) by (cases k) (simp_all add: shared_by_def fields_def)
  note t = fields_tests [OF f]
  have b: "fl_next spinCount ?b k = Some (shared_by (Suc k))"
  proof (cases "k = 0")
    case True
    then show ?thesis
      using t(4) by (simp add: fl_next_pc fl_cas_def) (simp add: shared_by_def fl_constants fun_eq_iff)
  next
    case False
    then show ?thesis
      using t(1,3,4,5) by (simp add: fl_next_pc fl_cas_def) (simp add: shared_by_def fl_constants fun_eq_iff algebra_simps)
  qed
  have a: "fl_next spinCount ?a k = Some ?b" by (simp add: fl_next_pc)
  from fl_run [OF assms(2) a fl_run [OF assms(2) b rtranclp.rtrancl_refl]]
  show ?thesis
    using fl_step.acquire_shared [OF assms(2) idle] by (rule converse_rtranclp_into_rtranclp [rotated])
qed

lemma share_steps: "k \<le> 1024 \<Longrightarrow> k \<le> N \<Longrightarrow> fl_steps spinCount N (shared_by 0) (shared_by k)"
proof (induction k)
  case (Suc k)
  then show ?case using share_step [of k N spinCount] by (meson Suc_le_eq Suc_leD rtranclp_trans)
qed simp

text \<open>With 1024 owners the counter is 0 again, and the first of them to leave gives the lock away.\<close>

lemma overflow_steps:
  "\<exists>s. fl_steps spinCount 1025 (shared_by 1024) s \<and> fl_pc s 1024 = ExOwned \<and> (\<forall>t. 0 < t \<and> t < 1024 \<longrightarrow> fl_pc s t = ShOwned)"
proof -
  let ?s = "shared_by 1024"
  have v: "fl_Value ?s = 4097" by (simp add: shared_by_def)
  have f: "fields 4097 1 0 0 1 0" by (simp add: fields_def)
  note t = fields_tests [OF f]
  let ?a = "fl_goto ?s 0 ShRelease" and ?b = "fl_goto ?s 0 (ShReleaseRead 4097)"
  let ?c = "fl_goto (?s\<lparr>fl_Value := 4092\<rparr>) 0 FlIdle"
  let ?d = "fl_goto ?c 1024 (TryEx 4092)" and ?e = "fl_goto (?c\<lparr>fl_Value := 4093\<rparr>) 1024 ExOwned"
  have "fl_step spinCount 1025 ?s ?a" by (intro fl_step.release_shared) (simp_all add: shared_by_def)
  moreover have "fl_next spinCount ?a 0 = Some ?b" by (simp add: fl_next_pc v)
  then have "fl_step spinCount 1025 ?a ?b" by (intro fl_step.run) simp_all
  moreover have "fl_next spinCount ?b 0 = Some ?c"
    using t(7,9) by (simp add: fl_next_pc v fl_cas_def fl_constants)
  then have "fl_step spinCount 1025 ?b ?c" by (intro fl_step.run) simp_all
  moreover have "fl_step spinCount 1025 ?c ?d"
    using fl_step.try_exclusive [of 1024 1025 ?c spinCount] by (simp add: shared_by_def)
  moreover have "fl_next spinCount ?d 1024 = Some ?e"
    by (simp add: fl_next_pc fl_cas_def fl_constants)
  then have "fl_step spinCount 1025 ?d ?e" by (intro fl_step.run) simp_all
  ultimately have "fl_steps spinCount 1025 ?s ?e" by (meson converse_rtranclp_into_rtranclp rtranclp.rtrancl_refl)
  then show ?thesis by (intro exI [of _ ?e]) (simp add: shared_by_def)
qed

lemma weight_bool: "n \<le> 1 \<Longrightarrow> n = of_bool (n = 1)" for n :: nat
  by auto

section \<open>Properties\<close>

text \<open>
  C8. With fewer than 1024 threads, in every state that any interleaving of acquisitions, attempts and
  releases reaches: a thread that owns the lock exclusively is the only owner, the counter of shared
  owners in the value is their number, and no thread waits for a semaphore that does not exist, so that
  no acquisition raises an exception.
\<close>

theorem PhFastLock_exclusion:
  assumes "fl_start s" and "fl_steps spinCount N s s'" and "N < 1024"
  shows "(\<forall>t u. ex_owns s' t \<and> u \<noteq> t \<longrightarrow> \<not> ex_owns s' u \<and> \<not> sh_owns s' u)
    \<and> unat (drop_bit PH_LOCK_SHARED_OWNERS_SHIFT (fl_Value s') AND PH_LOCK_SHARED_OWNERS_MASK)
        = card {t. sh_owns s' t}
    \<and> (fl_Value s' AND PH_LOCK_OWNED \<noteq> 0 \<longleftrightarrow> (\<exists>t. ex_owns s' t \<or> sh_owns s' t))
    \<and> (\<forall>t. fl_pc s' t \<noteq> FlRaised)"
proof -
  have inv: "fl_inv N s'" by (rule fl_inv_steps [OF assms(2) fl_inv_start [OF assms(1)] assms(3)])
  have "pc_ok (fl_ExclusiveWakeEvent s' \<noteq> None) (fl_SharedWakeEvent s' \<noteq> None) (fl_pc s' t)" for t
    using inv by (simp add: fl_inv_def)
  then have r: "fl_pc s' t \<noteq> FlRaised" for t by (metis pc_ok.simps(11))
  have idle: "t < N" if "sh_owns s' t \<or> ex_owns s' t" for t
    using that fl_inv_idle [OF inv, of sh_owner t] fl_inv_idle [OF inv, of ex_owner t]
    by (auto simp: sh_owns_def ex_owns_def)
  from inv have "fl_numbers N s'" by (simp add: fl_inv_def)
  then obtain ow w sw ew where n: "fields (fl_Value s') ow w (total sh_owner N (fl_pc s')) sw ew"
      "ow = total ex_owner N (fl_pc s') + of_bool (0 < total sh_owner N (fl_pc s'))"
    unfolding fl_numbers_def by (elim numbers_okE)
  have "total sh_owner N (fl_pc s') = (\<Sum>t<N. of_bool (sh_owns s' t))"
    unfolding total_def sh_owns_def using weights_le(2) by (intro sum.cong refl weight_bool)
  also have "\<dots> = card ({..<N} \<inter> {t. sh_owns s' t})" by (simp add: sum_of_bool_eq)
  also have "{..<N} \<inter> {t. sh_owns s' t} = {t. sh_owns s' t}" using idle by auto
  finally have card: "total sh_owner N (fl_pc s') = card {t. sh_owns s' t}" .
  have own: "total w N (fl_pc s') \<noteq> 0 \<longleftrightarrow> (\<exists>t<N. w (fl_pc s' t) = 1)" if "\<And>p. w p \<le> 1" for w
  proof -
    have "w p \<noteq> 0 \<longleftrightarrow> w p = 1" for p using that [of p] by auto
    then show ?thesis unfolding total_zero by simp
  qed
  have "total ex_owner N (fl_pc s') \<noteq> 0 \<longleftrightarrow> (\<exists>t. ex_owns s' t)"
    unfolding own [OF weights_le(1)] using idle by (auto simp: ex_owns_def)
  moreover have "total sh_owner N (fl_pc s') \<noteq> 0 \<longleftrightarrow> (\<exists>t. sh_owns s' t)"
    unfolding own [OF weights_le(2)] using idle by (auto simp: sh_owns_def)
  ultimately have "ow \<noteq> 0 \<longleftrightarrow> (\<exists>t. ex_owns s' t \<or> sh_owns s' t)"
    unfolding n(2) by auto
  moreover have "(\<forall>t u. ex_owns s' t \<and> u \<noteq> t \<longrightarrow> \<not> ex_owns s' u \<and> \<not> sh_owns s' u)"
    using mutual_exclusion [OF inv] by blast
  ultimately show ?thesis
    using r fields_counters(1) [OF n(1)] fields_tests(1) [OF n(1)] card by simp
qed

text \<open>
  C9. No wake-up is lost: with fewer than 1024 threads, in every reachable state in which a thread sleeps,
  some thread can take a step inside a call, or some thread holds the lock and can release it.
\<close>

theorem PhFastLock_no_lost_wakeup:
  assumes "fl_start s" and "fl_steps spinCount N s s'" and "N < 1024" and "asleep s' u"
  shows "(\<exists>t<N. fl_next spinCount s' t \<noteq> None) \<or> (\<exists>t<N. holds_lock s' t)"
proof -
  have "fl_inv N s'" by (rule fl_inv_steps [OF assms(2) fl_inv_start [OF assms(1)] assms(3)])
  from no_deadlock [OF this _ assms(4)] show ?thesis by blast
qed

text \<open>
  C40. The counters have ten bits and nothing guards them: with 1024 shared owners the next release lets an
  exclusive owner in, next to 1023 shared ones.
\<close>

theorem PhFastLock_overflow:
  "\<exists>s s'. fl_start s \<and> fl_steps spinCount 1025 s s' \<and> ex_owns s' 1024 \<and> (\<forall>t. t \<in> {1..<1024} \<longrightarrow> sh_owns s' t)"
proof -
  obtain s' where s': "fl_steps spinCount 1025 (shared_by 1024) s'" "fl_pc s' 1024 = ExOwned"
      "\<forall>t. 0 < t \<and> t < 1024 \<longrightarrow> fl_pc s' t = ShOwned"
    using overflow_steps by blast
  have "fl_start (shared_by 0)" by (simp add: fl_start_def shared_by_def PhInitializeFastLock_def)
  moreover have "fl_steps spinCount 1025 (shared_by 0) s'"
    by (rule rtranclp_trans [OF share_steps s'(1)]) simp_all
  ultimately show ?thesis using s'(2,3) by (intro exI [of _ "shared_by 0"] exI [of _ s']) (simp add: ex_owns_def sh_owns_def)
qed

section \<open>Witnesses\<close>

text \<open>Two threads of which the first takes the lock and the second goes to sleep.\<close>

fun fl_runs :: "ulong \<Rightarrow> nat list \<Rightarrow> fast_lock \<Rightarrow> fast_lock option" where
  "fl_runs spinCount [] s = Some s"
| "fl_runs spinCount (t # ts) s = Option.bind (fl_next spinCount s t) (fl_runs spinCount ts)"

lemma fl_runs_steps: "fl_runs spinCount ts s = Some s' \<Longrightarrow> list_all (\<lambda>t. t < N) ts \<Longrightarrow> fl_steps spinCount N s s'"
  by (induction ts arbitrary: s) (auto simp: bind_eq_Some_conv intro: fl_run)

definition two_threads :: fast_lock where
  "two_threads = fl_goto (fl_goto (shared_by 0) 0 (ExLoop 0)) 1 (ExLoop 0)"

lemma two_threads_start: "fl_start (shared_by 0)" "fl_steps spinCount 2 (shared_by 0) two_threads"
proof -
  show "fl_start (shared_by 0)" by (simp add: fl_start_def shared_by_def PhInitializeFastLock_def)
  have "fl_step spinCount 2 (shared_by 0) (fl_goto (shared_by 0) 0 (ExLoop 0))"
    by (intro fl_step.acquire_exclusive) (simp_all add: shared_by_def)
  moreover have "fl_step spinCount 2 (fl_goto (shared_by 0) 0 (ExLoop 0)) two_threads"
    unfolding two_threads_def by (intro fl_step.acquire_exclusive) (simp_all add: shared_by_def)
  ultimately show "fl_steps spinCount 2 (shared_by 0) two_threads"
    by (meson converse_rtranclp_into_rtranclp rtranclp.rtrancl_refl)
qed

definition one_asleep :: fast_lock where
  "one_asleep = \<lparr> fl_Value = 0x400001, fl_ExclusiveWakeEvent = Some 0, fl_SharedWakeEvent = None,
                   fl_pc = (\<lambda>t. FlIdle)(0 := ExOwned, 1 := ExSleep) \<rparr>"

lemma one_asleep_run: "fl_runs 0 [0, 0, 1, 1, 1, 1, 1] two_threads = Some one_asleep"
  by (simp add: two_threads_def shared_by_def one_asleep_def fl_next_pc fl_cas_def fl_constants fun_eq_iff)

lemma one_asleep_steps: "fl_steps 0 2 (shared_by 0) one_asleep"
  by (rule rtranclp_trans [OF two_threads_start(2) fl_runs_steps [OF one_asleep_run]]) simp

theorem PhFastLock_exclusion_witness:
  "ex_owns one_asleep 0 \<and> \<not> ex_owns one_asleep 1 \<and> card {t. sh_owns one_asleep t} = 0"
  using PhFastLock_exclusion [OF two_threads_start(1) one_asleep_steps]
  by (auto simp: ex_owns_def sh_owns_def one_asleep_def)

theorem PhFastLock_no_lost_wakeup_witness:
  "asleep one_asleep 1 \<and> ((\<exists>t<2. fl_next 0 one_asleep t \<noteq> None) \<or> (\<exists>t<2. holds_lock one_asleep t))"
  using PhFastLock_no_lost_wakeup [OF two_threads_start(1) one_asleep_steps, of 1]
  by (simp add: asleep_def one_asleep_def)

theorem PhFastLock_overflow_witness:
  "\<exists>s. ex_owns s 1024 \<and> sh_owns s 1 \<and> sh_owns s 1023"
proof -
  have "(1 :: nat) \<in> {1..<1024}" "(1023 :: nat) \<in> {1..<1024}" by simp_all
  with PhFastLock_overflow [of 0] show ?thesis by blast
qed

end
