(* ===== verification/PhObject.thy ===== *)
theory PhObject
  imports PhPrelude "HOL-Library.Multiset"
begin

text \<open>
  The memory of the object manager, from \<open>src/phlib/ref.c\<close>, \<open>refp.h\<close> and \<open>ref.h\<close>, with the free lists of
  \<open>basesup.c\<close> that it allocates from: object headers and the members they share by a union, object types and
  their table, allocation, the reference count operations and the auto-dereference pool. The address of an
  object is the address of its header here; \<open>0\<close> is \<open>NULL\<close>. Every function is one run of the code; the
  interleavings of several threads are the subject of \<open>PhObjectSteps\<close>.
\<close>

section \<open>Free lists\<close>

text \<open>
  The list head is an \<open>SLIST_HEADER\<close> of the system: here the list of its entries. \<open>PhAllocate\<close> is outside the
  program: the block it would return is an argument.
\<close>

record PH_FREE_LIST =
  ListHead :: "nat list"
  FreeCount :: ulong
  MaximumCount :: ulong
  BlockSize :: ulong64

definition PhInitializeFreeList :: "ulong64 \<Rightarrow> ulong \<Rightarrow> PH_FREE_LIST" where
  "PhInitializeFreeList sz maximum =
     \<lparr>ListHead = [], FreeCount = 0, MaximumCount = maximum, BlockSize = sz\<rparr>"

text \<open>The blocks that \<open>PhFree\<close> is called for, in order, and the list afterwards.\<close>

definition PhDeleteFreeList :: "PH_FREE_LIST \<Rightarrow> nat list \<times> PH_FREE_LIST" where
  "PhDeleteFreeList fl = (ListHead fl, fl\<lparr>ListHead := []\<rparr>)"

definition PhAllocateFromFreeList :: "nat \<Rightarrow> PH_FREE_LIST \<Rightarrow> nat \<times> PH_FREE_LIST" where
  "PhAllocateFromFreeList fresh fl =
     (case ListHead fl of
        entry # rest \<Rightarrow> (entry, fl\<lparr>ListHead := rest, FreeCount := FreeCount fl - 1\<rparr>)
      | [] \<Rightarrow> (fresh, fl))"

definition PhFreeToFreeList :: "nat \<Rightarrow> PH_FREE_LIST \<Rightarrow> PH_FREE_LIST" where
  "PhFreeToFreeList entry fl =
     (if FreeCount fl < MaximumCount fl
      then fl\<lparr>ListHead := entry # ListHead fl, FreeCount := FreeCount fl + 1\<rparr>
      else fl)"

section \<open>Object headers\<close>

text \<open>
  The first eight bytes of a header hold the type index and the flags, or, while the object is on the list of
  deferred deletions, its list entry. Reading one member after the other has been written is an error of the
  model.
\<close>

datatype header_word = TypeFields ushort uchar | DeferDeleteListEntry nat

record PH_OBJECT_HEADER =
  First :: header_word
  RefCount :: ulong

abbreviation PH_OBJECT_FROM_SMALL_FREE_LIST :: uchar where "PH_OBJECT_FROM_SMALL_FREE_LIST \<equiv> 1"
abbreviation PH_OBJECT_FROM_TYPE_FREE_LIST :: uchar where "PH_OBJECT_FROM_TYPE_FREE_LIST \<equiv> 2"

text \<open>
  The bit fields over the reference count: \<open>SavedTypeIndex\<close> in the bits 0 to 15, \<open>SavedFlags\<close> in 16 to 23,
  \<open>DeferDelete\<close> in bit 31.
\<close>

definition set_DeferDelete :: "ulong \<Rightarrow> ulong" where
  "set_DeferDelete r = r OR 0x80000000"

definition set_SavedTypeIndex :: "ushort \<Rightarrow> ulong \<Rightarrow> ulong" where
  "set_SavedTypeIndex ti r = (r AND NOT 0xFFFF) OR ucast ti"

definition set_SavedFlags :: "uchar \<Rightarrow> ulong \<Rightarrow> ulong" where
  "set_SavedFlags fl r = (r AND NOT 0xFF0000) OR push_bit 16 (ucast fl)"

definition SavedTypeIndex :: "ulong \<Rightarrow> ushort" where
  "SavedTypeIndex r = ucast r"

definition SavedFlags :: "ulong \<Rightarrow> uchar" where
  "SavedFlags r = ucast (drop_bit 16 r)"

text \<open>The sign of a \<open>LONG\<close>.\<close>

abbreviation negative :: "ulong \<Rightarrow> bool" where
  "negative r \<equiv> bit r 31"

abbreviation positive :: "ulong \<Rightarrow> bool" where
  "positive r \<equiv> r \<noteq> 0 \<and> \<not> negative r"

section \<open>Object types\<close>

record PH_OBJECT_TYPE =
  TypeFlags :: ushort
  TypeIndex :: uchar
  NumberOfObjects :: ulong
  DeleteProcedure :: bool
  TypeName :: string
  FreeList :: PH_FREE_LIST

abbreviation PH_OBJECT_TYPE_USE_FREE_LIST :: ulong where "PH_OBJECT_TYPE_USE_FREE_LIST \<equiv> 1"
abbreviation PH_OBJECT_TYPE_VALID_FLAGS :: ulong where "PH_OBJECT_TYPE_VALID_FLAGS \<equiv> 1"
abbreviation PH_OBJECT_SMALL_OBJECT_SIZE :: ulong64 where "PH_OBJECT_SMALL_OBJECT_SIZE \<equiv> 48"
abbreviation PH_OBJECT_SMALL_OBJECT_COUNT :: ulong where "PH_OBJECT_SMALL_OBJECT_COUNT \<equiv> 512"
abbreviation PH_OBJECT_TYPE_TABLE_SIZE :: nat where "PH_OBJECT_TYPE_TABLE_SIZE \<equiv> 256"

definition PhAddObjectHeaderSize :: "ulong64 \<Rightarrow> ulong64" where
  "PhAddObjectHeaderSize sz = sz + 16"

record object_manager =
  Headers :: "nat \<Rightarrow> PH_OBJECT_HEADER option"
  Types :: "nat \<Rightarrow> PH_OBJECT_TYPE"
  PhObjectTypeTable :: "nat list"
  PhObjectTypeCount :: ulong
  PhObjectSmallFreeList :: PH_FREE_LIST
  PhObjectDeferDeleteListHead :: nat

abbreviation set_header :: "object_manager \<Rightarrow> nat \<Rightarrow> PH_OBJECT_HEADER \<Rightarrow> object_manager" where
  "set_header m x h \<equiv> m\<lparr>Headers := (Headers m)(x := Some h)\<rparr>"

abbreviation set_type :: "object_manager \<Rightarrow> nat \<Rightarrow> PH_OBJECT_TYPE \<Rightarrow> object_manager" where
  "set_type m ty d \<equiv> m\<lparr>Types := (Types m)(ty := d)\<rparr>"

text \<open>
  \<open>PhGetObjectType\<close>: \<open>None\<close> if the header is not in memory, if its first word holds a list entry, or if the
  index is outside the table.
\<close>

definition PhGetObjectType :: "object_manager \<Rightarrow> nat \<Rightarrow> nat option" where
  "PhGetObjectType m x =
     (case Headers m x of
        Some h \<Rightarrow>
          (case First h of
             TypeFields ti fl \<Rightarrow>
               if unat ti < length (PhObjectTypeTable m) then Some (PhObjectTypeTable m ! unat ti) else None
           | DeferDeleteListEntry _ \<Rightarrow> None)
      | None \<Rightarrow> None)"

record PH_OBJECT_TYPE_INFORMATION =
  InfoName :: string
  InfoNumberOfObjects :: ulong
  InfoFlags :: ushort
  InfoTypeIndex :: uchar

definition PhGetObjectTypeInformation :: "object_manager \<Rightarrow> nat \<Rightarrow> PH_OBJECT_TYPE_INFORMATION" where
  "PhGetObjectTypeInformation m ty =
     \<lparr>InfoName = TypeName (Types m ty), InfoNumberOfObjects = NumberOfObjects (Types m ty),
      InfoFlags = TypeFlags (Types m ty), InfoTypeIndex = TypeIndex (Types m ty)\<rparr>"

section \<open>Creation\<close>

text \<open>The block for an object, its flags, and the manager with the free list it was taken from.\<close>

definition PhpAllocateObject ::
  "nat \<Rightarrow> nat \<Rightarrow> ulong64 \<Rightarrow> object_manager \<Rightarrow> nat \<times> uchar \<times> object_manager"
where
  "PhpAllocateObject fresh ty sz m =
     (if TypeFlags (Types m ty) AND ucast PH_OBJECT_TYPE_USE_FREE_LIST \<noteq> 0 then
        let (x, fl) = PhAllocateFromFreeList fresh (FreeList (Types m ty))
        in (x, PH_OBJECT_FROM_TYPE_FREE_LIST, set_type m ty ((Types m ty)\<lparr>FreeList := fl\<rparr>))
      else if sz \<le> PH_OBJECT_SMALL_OBJECT_SIZE then
        let (x, fl) = PhAllocateFromFreeList fresh (PhObjectSmallFreeList m)
        in (x, PH_OBJECT_FROM_SMALL_FREE_LIST, m\<lparr>PhObjectSmallFreeList := fl\<rparr>)
      else (fresh, 0, m))"

definition add_objects :: "object_manager \<Rightarrow> nat \<Rightarrow> ulong \<Rightarrow> object_manager" where
  "add_objects m ty n = set_type m ty ((Types m ty)\<lparr>NumberOfObjects := NumberOfObjects (Types m ty) + n\<rparr>)"

definition PhCreateObject :: "nat \<Rightarrow> ulong64 \<Rightarrow> nat \<Rightarrow> object_manager \<Rightarrow> nat \<times> object_manager" where
  "PhCreateObject fresh sz ty m =
     (let (x, fl, m) = PhpAllocateObject fresh ty sz m;
          m = add_objects m ty 1
      in (x, set_header m x \<lparr>First = TypeFields (ucast (TypeIndex (Types m ty))) fl, RefCount = 1\<rparr>))"

text \<open>
  The parameters of \<open>PhCreateObjectTypeEx\<close> are the size and the number of the free blocks. The exceptions are
  \<open>Inl\<close>. The body of the new type object is written before the table entry. The index is the old count, cast to
  the \<open>UCHAR\<close> member. In between is an \<open>assert\<close> that the new count is below the size of the table; \<open>checked\<close> says
  that the build has assertions (the release configurations define \<open>NDEBUG\<close> and have none), and \<open>None\<close> that the
  assertion fails.
\<close>

definition PhCreateObjectTypeEx ::
  "bool \<Rightarrow> nat \<Rightarrow> nat \<Rightarrow> string \<Rightarrow> ulong \<Rightarrow> bool \<Rightarrow> (ulong64 \<times> ulong) option \<Rightarrow> object_manager
   \<Rightarrow> (ntstatus + nat \<times> object_manager) option"
where
  "PhCreateObjectTypeEx checked typeObject fresh name flags deleteProcedure parameters m =
     (if flags AND PH_OBJECT_TYPE_VALID_FLAGS \<noteq> flags then Some (Inl STATUS_INVALID_PARAMETER_3)
      else if flags AND PH_OBJECT_TYPE_USE_FREE_LIST \<noteq> 0 \<and> parameters = None
      then Some (Inl STATUS_INVALID_PARAMETER_MIX)
      else
        let (ty, m) = PhCreateObject fresh 64 typeObject m;
            index = ucast (PhObjectTypeCount m) :: uchar;
            m = m\<lparr>PhObjectTypeCount := PhObjectTypeCount m + 1\<rparr>;
            d = (Types m ty)\<lparr>TypeFlags := ucast flags, TypeIndex := index, NumberOfObjects := 0,
                             DeleteProcedure := deleteProcedure, TypeName := name\<rparr>;
            d' = (case parameters of
                   Some (sz, maximum) \<Rightarrow>
                     if flags AND PH_OBJECT_TYPE_USE_FREE_LIST \<noteq> 0
                     then d\<lparr>FreeList := PhInitializeFreeList (PhAddObjectHeaderSize sz) maximum\<rparr> else d
                 | None \<Rightarrow> d)
        in if checked \<and> \<not> unat (PhObjectTypeCount m) < PH_OBJECT_TYPE_TABLE_SIZE then None
           else Some (Inr (ty, (set_type m ty d')\<lparr>PhObjectTypeTable := (PhObjectTypeTable m)[unat index := ty]\<rparr>)))"

definition PhCreateObjectType ::
  "bool \<Rightarrow> nat \<Rightarrow> nat \<Rightarrow> string \<Rightarrow> ulong \<Rightarrow> bool \<Rightarrow> object_manager
   \<Rightarrow> (ntstatus + nat \<times> object_manager) option"
where
  "PhCreateObjectType checked typeObject fresh name flags deleteProcedure m =
     PhCreateObjectTypeEx checked typeObject fresh name flags deleteProcedure None m"

text \<open>
  \<open>PhRefInitialization\<close> up to the reservation of the TLS slot: the type of the type objects is made with a
  dummy, \<open>dummy\<close> on the stack, and then replaces it. The results are \<open>PhObjectTypeObject\<close>, \<open>PhAllocType\<close> and the
  manager. The two creations have valid flags, so that neither raises an exception.
\<close>

definition PhRefInitialization ::
  "bool \<Rightarrow> nat \<Rightarrow> nat \<Rightarrow> nat \<Rightarrow> object_manager \<Rightarrow> (ntstatus + nat \<times> nat \<times> object_manager) option"
where
  "PhRefInitialization checked dummy fresh1 fresh2 m =
     (let m = m\<lparr>PhObjectDeferDeleteListHead := 0,
                PhObjectSmallFreeList :=
                  PhInitializeFreeList (PhAddObjectHeaderSize PH_OBJECT_SMALL_OBJECT_SIZE) PH_OBJECT_SMALL_OBJECT_COUNT\<rparr>;
          m = set_type m dummy
                \<lparr>TypeFlags = 0, TypeIndex = 0, NumberOfObjects = 0, DeleteProcedure = False, TypeName = [],
                 FreeList = \<lparr>ListHead = [], FreeCount = 0, MaximumCount = 0, BlockSize = 0\<rparr>\<rparr>;
          m = m\<lparr>PhObjectTypeTable := (PhObjectTypeTable m)[0 := dummy]\<rparr>
      in case PhCreateObjectType checked dummy fresh1 ''Type'' 0 False m of
           None \<Rightarrow> None
         | Some (Inl e) \<Rightarrow> Some (Inl e)
         | Some (Inr (typeObject, m)) \<Rightarrow>
             (case Headers m typeObject of
                None \<Rightarrow> None
              | Some h \<Rightarrow>
                  let fl = (case First h of TypeFields _ fl \<Rightarrow> fl | DeferDeleteListEntry _ \<Rightarrow> 0);
                      m = set_header m typeObject
                            (h\<lparr>First := TypeFields (ucast (TypeIndex (Types m typeObject))) fl\<rparr>);
                      m = set_type m typeObject ((Types m typeObject)\<lparr>NumberOfObjects := 1\<rparr>)
                  in case PhCreateObjectType checked typeObject fresh2 ''Alloc'' 0 False m of
                       None \<Rightarrow> None
                     | Some (Inl e) \<Rightarrow> Some (Inl e)
                     | Some (Inr (allocType, m)) \<Rightarrow> Some (Inr (typeObject, allocType, m))))"

text \<open>\<open>PhCreateAlloc\<close> and \<open>PhCreateObjectZero\<close>, which clears the body, are creations.\<close>

definition PhCreateAlloc :: "nat \<Rightarrow> nat \<Rightarrow> ulong64 \<Rightarrow> object_manager \<Rightarrow> nat \<times> object_manager" where
  "PhCreateAlloc allocType fresh sz m = PhCreateObject fresh sz allocType m"

section \<open>References\<close>

text \<open>
  The interlocked additions to the reference count. \<open>None\<close>: the header is not in memory. The second component
  of the result is the count after the addition.
\<close>

definition exchange_add :: "object_manager \<Rightarrow> nat \<Rightarrow> ulong \<Rightarrow> (object_manager \<times> ulong) option" where
  "exchange_add m x n =
     (case Headers m x of
        Some h \<Rightarrow> Some (set_header m x (h\<lparr>RefCount := RefCount h + n\<rparr>), RefCount h + n)
      | None \<Rightarrow> None)"

definition PhReferenceObject :: "object_manager \<Rightarrow> nat \<Rightarrow> object_manager option" where
  "PhReferenceObject m x = map_option fst (exchange_add m x 1)"

definition PhReferenceObjectEx :: "object_manager \<Rightarrow> nat \<Rightarrow> ulong \<Rightarrow> object_manager option" where
  "PhReferenceObjectEx m x n = map_option fst (exchange_add m x n)"

text \<open>What a dereference goes on with.\<close>

datatype dereference = Keep | FreeObject | DeferDelete | RaiseStatus ntstatus

definition PhDereferenceObject :: "object_manager \<Rightarrow> nat \<Rightarrow> (object_manager \<times> dereference) option" where
  "PhDereferenceObject m x =
     (case exchange_add m x (- 1) of
        Some (m, newRefCount) \<Rightarrow> Some (m, if newRefCount = 0 then FreeObject else Keep)
      | None \<Rightarrow> None)"

definition PhDereferenceObjectEx ::
  "object_manager \<Rightarrow> nat \<Rightarrow> ulong \<Rightarrow> bool \<Rightarrow> (object_manager \<times> dereference) option"
where
  "PhDereferenceObjectEx m x n defer =
     (case exchange_add m x (- n) of
        Some (m, newRefCount) \<Rightarrow>
          Some (m, if newRefCount = 0 then (if defer then DeferDelete else FreeObject)
                   else if negative newRefCount then RaiseStatus STATUS_INVALID_PARAMETER else Keep)
      | None \<Rightarrow> None)"

definition PhDereferenceObjectDeferDelete :: "object_manager \<Rightarrow> nat \<Rightarrow> (object_manager \<times> dereference) option" where
  "PhDereferenceObjectDeferDelete m x = PhDereferenceObjectEx m x 1 True"

text \<open>
  The last action of \<open>PhpFreeObject\<close>: the block goes back to where its flags say it is from. In every case the
  header is no longer an object.
\<close>

definition free_storage :: "object_manager \<Rightarrow> nat \<Rightarrow> nat \<Rightarrow> uchar \<Rightarrow> object_manager" where
  "free_storage m ty x fl =
     (let m = m\<lparr>Headers := (Headers m)(x := None)\<rparr>
      in if fl AND PH_OBJECT_FROM_TYPE_FREE_LIST \<noteq> 0 then
           set_type m ty ((Types m ty)\<lparr>FreeList := PhFreeToFreeList x (FreeList (Types m ty))\<rparr>)
         else if fl AND PH_OBJECT_FROM_SMALL_FREE_LIST \<noteq> 0 then
           m\<lparr>PhObjectSmallFreeList := PhFreeToFreeList x (PhObjectSmallFreeList m)\<rparr>
         else m)"

section \<open>The auto-dereference pool\<close>

text \<open>
  The pool of a thread; \<open>DynamicObjects\<close> is \<open>None\<close> for \<open>NULL\<close>, else the allocated array. \<open>NextPool\<close> links the pools of
  a thread, here a stack of addresses kept by the caller: the current pool is its head.
\<close>

record PH_AUTO_POOL =
  StaticCount :: ulong
  StaticObjects :: "nat list"
  DynamicCount :: ulong
  DynamicAllocated :: ulong
  DynamicObjects :: "nat list option"

abbreviation PH_AUTO_POOL_STATIC_SIZE :: nat where "PH_AUTO_POOL_STATIC_SIZE \<equiv> 64"
abbreviation PH_AUTO_POOL_DYNAMIC_BIG_SIZE :: ulong where "PH_AUTO_POOL_DYNAMIC_BIG_SIZE \<equiv> 256"

text \<open>
  \<open>PhInitializeAutoPool\<close> pushes the pool at the address \<open>pool\<close> on the stack; the static array has what is in the memory.
\<close>

definition PhInitializeAutoPool :: "nat list \<Rightarrow> nat \<Rightarrow> nat list \<Rightarrow> PH_AUTO_POOL \<times> nat list" where
  "PhInitializeAutoPool cells pool pools =
     (\<lparr>StaticCount = 0, StaticObjects = cells, DynamicCount = 0, DynamicAllocated = 0, DynamicObjects = None\<rparr>, pool # pools)"

text \<open>
  A write of an element outside the array is \<open>None\<close>. \<open>garbage\<close> fills the memory that \<open>PhAllocate\<close> and
  \<open>PhReAllocate\<close> hand out; its argument is the number of cells.
\<close>

definition store :: "nat list \<Rightarrow> ulong \<Rightarrow> nat \<Rightarrow> nat list option" where
  "store a i x = (if unat i < length a then Some (a[unat i := x]) else None)"

definition PhAutoDereferenceObject ::
  "(nat \<Rightarrow> nat list) \<Rightarrow> nat \<Rightarrow> PH_AUTO_POOL \<Rightarrow> PH_AUTO_POOL option"
where
  "PhAutoDereferenceObject garbage x p =
     (if x = 0 then Some p
      else if unat (StaticCount p) < PH_AUTO_POOL_STATIC_SIZE then
        map_option (\<lambda>a. p\<lparr>StaticObjects := a, StaticCount := StaticCount p + 1\<rparr>)
          (store (StaticObjects p) (StaticCount p) x)
      else
        let p = (if DynamicObjects p = None
                 then p\<lparr>DynamicAllocated := 64, DynamicObjects := Some (garbage 64)\<rparr> else p);
            p = (if DynamicCount p = DynamicAllocated p
                 then let n = 2 * DynamicAllocated p; a = the (DynamicObjects p)
                      in p\<lparr>DynamicAllocated := n,
                           DynamicObjects := Some (take (unat n) (a @ garbage (unat n - length a)))\<rparr>
                 else p)
        in map_option (\<lambda>a. p\<lparr>DynamicObjects := Some a, DynamicCount := DynamicCount p + 1\<rparr>)
             (store (the (DynamicObjects p)) (DynamicCount p) x))"

text \<open>
  The delete procedures that the dereferences of a drain run may add objects to the pool that is drained, when it is the
  current one. They are a parameter: \<open>deletes h\<close> lists the objects that are added while the last object of
  \<open>h\<close> is dereferenced, \<open>h\<close> being all that has been dereferenced so far. An object that keeps a reference adds none.
\<close>

fun PhAutoDereferenceObjects ::
  "(nat \<Rightarrow> nat list) \<Rightarrow> nat list \<Rightarrow> PH_AUTO_POOL \<Rightarrow> PH_AUTO_POOL option"
where
  "PhAutoDereferenceObjects garbage [] p = Some p"
| "PhAutoDereferenceObjects garbage (x # xs) p =
     (case PhAutoDereferenceObject garbage x p of
        Some p \<Rightarrow> PhAutoDereferenceObjects garbage xs p
      | None \<Rightarrow> None)"

text \<open>
  \<open>PhDereferenceObjects\<close> on an array of the pool, from the index \<open>i\<close> for \<open>n\<close> objects: what has been dereferenced, in order, and
  the pool. \<open>array\<close> reads the array in the pool as it is at that moment; \<open>None\<close> if the array is no longer where the call was
  told, or is too short.
\<close>

fun PhDereferenceObjects ::
  "(nat \<Rightarrow> nat list) \<Rightarrow> (nat list \<Rightarrow> nat list) \<Rightarrow> (PH_AUTO_POOL \<Rightarrow> nat list option) \<Rightarrow> nat \<Rightarrow> nat \<Rightarrow> nat list \<Rightarrow> PH_AUTO_POOL
   \<Rightarrow> (nat list \<times> PH_AUTO_POOL) option"
where
  "PhDereferenceObjects garbage deletes array i 0 h p = Some (h, p)"
| "PhDereferenceObjects garbage deletes array i (Suc n) h p =
     (case array p of
        None \<Rightarrow> None
      | Some a \<Rightarrow>
          if i < length a then
            (case PhAutoDereferenceObjects garbage (deletes (h @ [a ! i])) p of
               Some p \<Rightarrow> PhDereferenceObjects garbage deletes array (i + 1) n (h @ [a ! i]) p
             | None \<Rightarrow> None)
          else None)"

text \<open>
  \<open>PhDrainAutoPool\<close> passes the address of the dynamic array by value. \<open>PhReAllocate\<close> ends the life of the old
  block, and it comes with a new \<open>DynamicAllocated\<close>: the doubled number differs from the old one, however
  often it is doubled, unless it is 0, which has no room for an object to read.
\<close>

definition PhDrainAutoPool ::
  "(nat \<Rightarrow> nat list) \<Rightarrow> (nat list \<Rightarrow> nat list) \<Rightarrow> nat list \<Rightarrow> PH_AUTO_POOL \<Rightarrow> (nat list \<times> PH_AUTO_POOL) option"
where
  "PhDrainAutoPool garbage deletes h p =
     (case PhDereferenceObjects garbage deletes (\<lambda>p. Some (StaticObjects p)) 0 (unat (StaticCount p)) h p of
        None \<Rightarrow> None
      | Some (h, p) \<Rightarrow>
          let p = p\<lparr>StaticCount := 0\<rparr>
          in case DynamicObjects p of
               None \<Rightarrow> Some (h, p)
             | Some _ \<Rightarrow>
                 (case PhDereferenceObjects garbage deletes
                         (\<lambda>q. if DynamicAllocated q = DynamicAllocated p then DynamicObjects q else None)
                         0 (unat (DynamicCount p)) h p of
                    None \<Rightarrow> None
                  | Some (h, p) \<Rightarrow>
                      let p = p\<lparr>DynamicCount := 0\<rparr>
                      in Some (h,
                           if DynamicAllocated p > PH_AUTO_POOL_DYNAMIC_BIG_SIZE
                           then p\<lparr>DynamicAllocated := 0, DynamicObjects := None\<rparr> else p)))"

text \<open>
  \<open>PhDeleteAutoPool\<close> drains the pool, raises an exception when it is not the current one, and pops it. The result
  also says whether the array is freed.
\<close>

definition PhDeleteAutoPool ::
  "(nat \<Rightarrow> nat list) \<Rightarrow> (nat list \<Rightarrow> nat list) \<Rightarrow> nat \<Rightarrow> nat list \<Rightarrow> nat list \<Rightarrow> PH_AUTO_POOL
   \<Rightarrow> (nat list \<times> (ntstatus + nat list \<times> bool)) option"
where
  "PhDeleteAutoPool garbage deletes pool pools h p =
     (case PhDrainAutoPool garbage deletes h p of
        None \<Rightarrow> None
      | Some (h, p) \<Rightarrow>
          Some (h, case pools of
                      current # rest \<Rightarrow>
                        if current = pool then Inr (rest, DynamicObjects p \<noteq> None) else Inl STATUS_UNSUCCESSFUL
                    | [] \<Rightarrow> Inl STATUS_UNSUCCESSFUL))"

section \<open>Facts about words\<close>

lemma negative_iff: "negative r \<longleftrightarrow> 2147483648 \<le> unat r"
proof -
  have "bit r 31 \<longleftrightarrow> bit (unat r) 31" by (simp add: bit_unsigned_iff)
  also have "\<dots> \<longleftrightarrow> odd (unat r div 2147483648)" by (simp add: bit_iff_odd)
  also have "\<dots> \<longleftrightarrow> 2147483648 \<le> unat r"
  proof (cases "2147483648 \<le> unat r")
    case True
    then have "unat r div 2147483648 = 1"
      using unat_ulong_less [of r] by (intro div_nat_eqI) simp_all
    then show ?thesis using True by simp
  qed simp
  finally show ?thesis .
qed

lemma positive_iff: "positive r \<longleftrightarrow> 0 < unat r \<and> unat r < 2147483648"
  by (auto simp: negative_iff unat_gt_0)

lemma flag_masks:
  "(0xFFFF :: ulong) = mask 16" "(0xFF0000 :: ulong) = push_bit 16 (mask 8)"
  "(0x80000000 :: ulong) = push_bit 31 1"
  by (simp_all add: mask_eq_exp_minus_1)

lemma saved_fields:
  fixes ti :: ushort and fl :: uchar
  defines "r \<equiv> set_SavedFlags fl (set_SavedTypeIndex ti (set_DeferDelete 0))"
  shows "SavedTypeIndex r = ti" and "SavedFlags r = fl" and "\<not> positive r"
proof -
  note defs = r_def SavedTypeIndex_def SavedFlags_def set_SavedFlags_def set_SavedTypeIndex_def
    set_DeferDelete_def flag_masks
  show "SavedTypeIndex r = ti"
    unfolding defs by (intro bit_word_eqI) (auto simp: bit_simps)
  show "SavedFlags r = fl"
    unfolding defs by (intro bit_word_eqI) (auto simp: bit_simps)
  show "\<not> positive r"
    unfolding defs by (simp add: bit_simps)
qed

section \<open>What the pool holds\<close>

definition static_objects :: "PH_AUTO_POOL \<Rightarrow> nat list" where
  "static_objects p = take (unat (StaticCount p)) (StaticObjects p)"

definition dynamic_objects :: "PH_AUTO_POOL \<Rightarrow> nat list" where
  "dynamic_objects p = (case DynamicObjects p of Some a \<Rightarrow> take (unat (DynamicCount p)) a | None \<Rightarrow> [])"

definition pool_objects :: "PH_AUTO_POOL \<Rightarrow> nat list" where
  "pool_objects p = static_objects p @ dynamic_objects p"

text \<open>
  The counts are within the arrays, at all times; between the calls the dynamic array is used only when the static
  one is full.
\<close>

definition pool_wf :: "PH_AUTO_POOL \<Rightarrow> bool" where
  "pool_wf p \<longleftrightarrow>
     length (StaticObjects p) = PH_AUTO_POOL_STATIC_SIZE \<and> unat (StaticCount p) \<le> PH_AUTO_POOL_STATIC_SIZE \<and>
     (case DynamicObjects p of
        None \<Rightarrow> DynamicCount p = 0
      | Some a \<Rightarrow> length a = unat (DynamicAllocated p) \<and> 0 < DynamicAllocated p \<and> DynamicCount p \<le> DynamicAllocated p)"

definition pool_ok :: "PH_AUTO_POOL \<Rightarrow> bool" where
  "pool_ok p \<longleftrightarrow> pool_wf p \<and> (dynamic_objects p \<noteq> [] \<longrightarrow> length (static_objects p) = PH_AUTO_POOL_STATIC_SIZE)"

definition same_dynamic :: "PH_AUTO_POOL \<Rightarrow> PH_AUTO_POOL \<Rightarrow> bool" where
  "same_dynamic p q \<longleftrightarrow>
     DynamicObjects q = DynamicObjects p \<and> DynamicCount q = DynamicCount p \<and> DynamicAllocated q = DynamicAllocated p"

lemma same_dynamic_objects: "same_dynamic p q \<Longrightarrow> dynamic_objects q = dynamic_objects p"
  by (auto simp: same_dynamic_def dynamic_objects_def split: option.splits)

lemma length_static: "pool_wf p \<Longrightarrow> length (static_objects p) = unat (StaticCount p)"
  by (simp add: pool_wf_def static_objects_def)

lemma length_dynamic: "pool_wf p \<Longrightarrow> length (dynamic_objects p) = unat (DynamicCount p)"
  by (auto simp: pool_wf_def dynamic_objects_def word_le_nat_alt split: option.splits)

lemma store_within: "unat i < length a \<Longrightarrow> store a i x = Some (a[unat i := x])"
  by (simp add: store_def)

lemma take_put: "unat i < length a \<Longrightarrow> take (unat i + 1) (a[unat i := x]) = take (unat i) a @ [x]"
  by (simp add: take_Suc_conv_app_nth)

lemma pool_static:
  assumes wf: "pool_wf p" and x: "x \<noteq> 0" and room: "length (static_objects p) < PH_AUTO_POOL_STATIC_SIZE"
  shows "\<exists>p'. PhAutoDereferenceObject garbage x p = Some p' \<and> pool_wf p' \<and>
    static_objects p' = static_objects p @ [x] \<and> same_dynamic p p'"
proof -
  have r: "unat (StaticCount p) < PH_AUTO_POOL_STATIC_SIZE" using room length_static [OF wf] by simp
  have l: "unat (StaticCount p) < length (StaticObjects p)" using wf r by (simp add: pool_wf_def)
  have u: "unat (StaticCount p + 1) = unat (StaticCount p) + 1"
    using r by (simp add: unat_plus_no_overflow)
  show ?thesis
    using wf x r store_within [OF l] take_put [OF l, of x] u
    by (auto simp: PhAutoDereferenceObject_def pool_wf_def static_objects_def same_dynamic_def split: option.splits)
qed

text \<open>Room for one more object in the dynamic array.\<close>

lemma pool_dynamic:
  assumes ok: "pool_wf p" and x: "x \<noteq> 0" and full: "\<not> length (static_objects p) < PH_AUTO_POOL_STATIC_SIZE"
    and few: "length (dynamic_objects p) < 2147483648" and g: "\<And>n. length (garbage n) = n"
  shows "\<exists>p'. PhAutoDereferenceObject garbage x p = Some p' \<and> pool_wf p' \<and>
    static_objects p' = static_objects p \<and> dynamic_objects p' = dynamic_objects p @ [x]"
proof -
  have few: "unat (DynamicCount p) < 2147483648" using few length_dynamic [OF ok] by simp
  have full: "\<not> unat (StaticCount p) < PH_AUTO_POOL_STATIC_SIZE" using full length_static [OF ok] by simp
  define q where "q = (if DynamicObjects p = None then p\<lparr>DynamicAllocated := 64, DynamicObjects := Some (garbage 64)\<rparr> else p)"
  have q: "pool_wf q" "static_objects q = static_objects p" "dynamic_objects q = dynamic_objects p"
      "DynamicCount q = DynamicCount p" "DynamicObjects q \<noteq> None"
    using ok g by (auto simp: q_def pool_wf_def static_objects_def dynamic_objects_def)
  define r where "r = (if DynamicCount q = DynamicAllocated q
      then q\<lparr>DynamicAllocated := 2 * DynamicAllocated q,
             DynamicObjects := Some (take (unat (2 * DynamicAllocated q))
               (the (DynamicObjects q) @ garbage (unat (2 * DynamicAllocated q) - length (the (DynamicObjects q)))))\<rparr>
      else q)"
  have r: "pool_wf r" "static_objects r = static_objects p" "dynamic_objects r = dynamic_objects p"
      "DynamicCount r = DynamicCount p" "DynamicObjects r \<noteq> None" "unat (DynamicCount r) < unat (DynamicAllocated r)"
  proof -
    obtain a where a: "DynamicObjects q = Some a" using q(5) by blast
    have "pool_wf r \<and> static_objects r = static_objects p \<and> dynamic_objects r = dynamic_objects p \<and>
      DynamicCount r = DynamicCount p \<and> DynamicObjects r \<noteq> None \<and> unat (DynamicCount r) < unat (DynamicAllocated r)"
    proof (cases "DynamicCount q = DynamicAllocated q")
      case True
      have l: "length a = unat (DynamicAllocated q)" "0 < DynamicAllocated q" using q(1) a by (auto simp: pool_wf_def)
      have u: "unat (2 * DynamicAllocated q) = 2 * unat (DynamicAllocated q)"
        using few q(4) True by (simp add: unat_word_ariths)
      have "0 < unat (DynamicAllocated q)" using l(2) by (simp add: word_gt_0 unat_gt_0)
      then have d: "DynamicAllocated q < 2 * DynamicAllocated q" using u by (simp add: word_less_nat_alt)
      have "0 < DynamicCount q" using True l(2) by simp
      then show ?thesis
        using True a l u d q g
        by (auto simp: r_def pool_wf_def static_objects_def dynamic_objects_def word_less_nat_alt word_le_nat_alt
            split: option.splits)
    next
      case False
      have "DynamicCount q \<le> DynamicAllocated q" using q(1) a by (simp add: pool_wf_def)
      then have "DynamicCount q < DynamicAllocated q" using False by simp
      then show ?thesis using False q by (simp add: r_def word_less_nat_alt)
    qed
    then show "pool_wf r" "static_objects r = static_objects p" "dynamic_objects r = dynamic_objects p"
      "DynamicCount r = DynamicCount p" "DynamicObjects r \<noteq> None" "unat (DynamicCount r) < unat (DynamicAllocated r)" by blast+
  qed
  obtain a where a: "DynamicObjects r = Some a" using r(5) by blast
  have l: "unat (DynamicCount r) < length a" using r(1,6) a by (simp add: pool_wf_def)
  have u: "unat (DynamicCount r + 1) = unat (DynamicCount r) + 1"
    using few r(4) by (simp add: unat_plus_no_overflow)
  have run: "PhAutoDereferenceObject garbage x p =
      map_option (\<lambda>a. r\<lparr>DynamicObjects := Some a, DynamicCount := DynamicCount r + 1\<rparr>) (store a (DynamicCount r) x)"
    using x full a unfolding PhAutoDereferenceObject_def Let_def q_def [symmetric] r_def [symmetric] by simp
  show ?thesis
    unfolding r(2,3) [symmetric] run store_within [OF l]
    using r(1,6) a u take_put [OF l, of x]
    by (simp add: pool_wf_def static_objects_def dynamic_objects_def word_le_nat_alt)
qed

text \<open>What a list of additions does: the static array is filled first, and the rest goes to the dynamic one.\<close>

definition objects :: "nat list \<Rightarrow> nat list" where
  "objects xs = filter (\<lambda>x. x \<noteq> 0) xs"

abbreviation static_room :: "PH_AUTO_POOL \<Rightarrow> nat" where
  "static_room p \<equiv> PH_AUTO_POOL_STATIC_SIZE - length (static_objects p)"

lemma pool_add:
  assumes "pool_wf p" and "length (dynamic_objects p) < 2147483648" and "\<And>n. length (garbage n) = n"
  shows "\<exists>p'. PhAutoDereferenceObject garbage x p = Some p' \<and> pool_wf p' \<and>
    static_objects p' = static_objects p @ take (static_room p) (objects [x]) \<and>
    dynamic_objects p' = dynamic_objects p @ drop (static_room p) (objects [x]) \<and>
    (length (objects [x]) \<le> static_room p \<longrightarrow> same_dynamic p p')"
proof (cases "x = 0")
  case False
  show ?thesis
  proof (cases "length (static_objects p) < PH_AUTO_POOL_STATIC_SIZE")
    case True
    then have "Suc 0 \<le> static_room p" by simp
    then show ?thesis
      using pool_static [OF assms(1) False True, of garbage] False same_dynamic_objects by (fastforce simp: objects_def)
  next
    case full: False
    then show ?thesis
      using pool_dynamic [OF assms(1) False full assms(2,3)] False by (fastforce simp: objects_def)
  qed
qed (use assms in \<open>simp add: PhAutoDereferenceObject_def objects_def same_dynamic_def\<close>)

lemma pool_adds:
  assumes "pool_wf p" and "length (dynamic_objects p) + length (objects xs) < 2147483648"
    and "\<And>n. length (garbage n) = n"
  shows "\<exists>p'. PhAutoDereferenceObjects garbage xs p = Some p' \<and> pool_wf p' \<and>
    static_objects p' = static_objects p @ take (static_room p) (objects xs) \<and>
    dynamic_objects p' = dynamic_objects p @ drop (static_room p) (objects xs) \<and>
    (length (objects xs) \<le> static_room p \<longrightarrow> same_dynamic p p')"
  using assms(1,2)
proof (induction xs arbitrary: p)
  case Nil
  then show ?case by (simp add: objects_def same_dynamic_def)
next
  case (Cons x xs)
  have o: "objects (x # xs) = objects [x] @ objects xs" by (simp add: objects_def)
  obtain q where q: "PhAutoDereferenceObject garbage x p = Some q" "pool_wf q"
      "static_objects q = static_objects p @ take (static_room p) (objects [x])"
      "dynamic_objects q = dynamic_objects p @ drop (static_room p) (objects [x])"
      "length (objects [x]) \<le> static_room p \<longrightarrow> same_dynamic p q"
    using pool_add [OF Cons.prems(1) _ assms(3), of x] Cons.prems(2) by fastforce
  have room: "static_room q = static_room p - length (objects [x])" by (simp add: q(3))
  have "length (dynamic_objects q) + length (objects xs) < 2147483648" using Cons.prems(2) unfolding q(4) o by simp
  from Cons.IH [OF q(2) this]
  obtain r where r: "PhAutoDereferenceObjects garbage xs q = Some r" "pool_wf r"
      "static_objects r = static_objects q @ take (static_room q) (objects xs)"
      "dynamic_objects r = dynamic_objects q @ drop (static_room q) (objects xs)"
      "length (objects xs) \<le> static_room q \<longrightarrow> same_dynamic q r" by blast
  have "static_objects r = static_objects p @ take (static_room p) (objects (x # xs))"
    unfolding r(3) room unfolding q(3) o by simp
  moreover have "dynamic_objects r = dynamic_objects p @ drop (static_room p) (objects (x # xs))"
    unfolding r(4) room unfolding q(4) o by simp
  moreover have "same_dynamic p r" if "length (objects (x # xs)) \<le> static_room p"
  proof -
    have "length (objects [x]) \<le> static_room p" "length (objects xs) \<le> static_room q"
      using that unfolding room unfolding o by simp_all
    then show ?thesis using q(5) r(5) by (simp add: same_dynamic_def)
  qed
  ultimately show ?case using q(1) r(1,2) by simp
qed

text \<open>The objects that are added while the objects of a list are dereferenced, after the history \<open>h\<close>.\<close>

fun additions :: "(nat list \<Rightarrow> nat list) \<Rightarrow> nat list \<Rightarrow> nat list \<Rightarrow> nat list" where
  "additions deletes h [] = []"
| "additions deletes h (x # xs) = objects (deletes (h @ [x])) @ additions deletes (h @ [x]) xs"

lemma take_from:
  assumes "i + Suc k \<le> length xs"
  shows "take (Suc k) (drop i xs) = xs ! i # take k (drop (i + 1) xs)"
  using assms by (subst Cons_nth_drop_Suc [symmetric]) simp_all

lemma dereference_static:
  assumes "pool_wf p" and "i + k \<le> length (static_objects p)"
    and "length (dynamic_objects p) + length (additions deletes h (take k (drop i (static_objects p)))) < 2147483648"
    and g: "\<And>n. length (garbage n) = n"
  shows "\<exists>p'. PhDereferenceObjects garbage deletes (\<lambda>p. Some (StaticObjects p)) i k h p =
      Some (h @ take k (drop i (static_objects p)), p') \<and> pool_wf p' \<and>
    static_objects p' = static_objects p @ take (static_room p) (additions deletes h (take k (drop i (static_objects p)))) \<and>
    dynamic_objects p' = dynamic_objects p @ drop (static_room p) (additions deletes h (take k (drop i (static_objects p))))"
  using assms(1-3)
proof (induction k arbitrary: i h p)
  case (Suc k)
  let ?x = "static_objects p ! i"
  have i: "i < length (StaticObjects p)" and x: "StaticObjects p ! i = ?x"
    using Suc.prems(2) by (auto simp: static_objects_def)
  note t = take_from [OF Suc.prems(2)]
  obtain q where q: "PhAutoDereferenceObjects garbage (deletes (h @ [?x])) p = Some q" "pool_wf q"
      "static_objects q = static_objects p @ take (static_room p) (objects (deletes (h @ [?x])))"
      "dynamic_objects q = dynamic_objects p @ drop (static_room p) (objects (deletes (h @ [?x])))"
    using pool_adds [OF Suc.prems(1) _ g, of "deletes (h @ [?x])"] Suc.prems(3) unfolding t by fastforce
  have room: "static_room q = static_room p - length (objects (deletes (h @ [?x])))" by (simp add: q(3))
  have same: "take k (drop (i + 1) (static_objects q)) = take k (drop (i + 1) (static_objects p))"
    using Suc.prems(2) unfolding q(3) by simp
  have le: "i + 1 + k \<le> length (static_objects q)" using Suc.prems(2) unfolding q(3) by simp
  have few: "length (dynamic_objects q) +
      length (additions deletes (h @ [?x]) (take k (drop (i + 1) (static_objects q)))) < 2147483648"
    using Suc.prems(3) unfolding same t q(4) by simp
  from Suc.IH [OF q(2) le few]
  obtain r where r: "PhDereferenceObjects garbage deletes (\<lambda>p. Some (StaticObjects p)) (i + 1) k (h @ [?x]) q =
        Some ((h @ [?x]) @ take k (drop (i + 1) (static_objects p)), r)" "pool_wf r"
      "static_objects r = static_objects q @
        take (static_room q) (additions deletes (h @ [?x]) (take k (drop (i + 1) (static_objects p))))"
      "dynamic_objects r = dynamic_objects q @
        drop (static_room q) (additions deletes (h @ [?x]) (take k (drop (i + 1) (static_objects p))))"
    unfolding same by blast
  have "PhDereferenceObjects garbage deletes (\<lambda>p. Some (StaticObjects p)) i (Suc k) h p =
      Some (h @ take (Suc k) (drop i (static_objects p)), r)"
    using i q(1) r(1) unfolding t by (simp add: x)
  moreover have "static_objects r = static_objects p @
      take (static_room p) (additions deletes h (take (Suc k) (drop i (static_objects p))))"
    unfolding r(3) room t unfolding q(3) by simp
  moreover have "dynamic_objects r = dynamic_objects p @
      drop (static_room p) (additions deletes h (take (Suc k) (drop i (static_objects p))))"
    unfolding r(4) room t unfolding q(4) by simp
  ultimately show ?case using r(2) by blast
qed simp

text \<open>While the dynamic array is dereferenced it must not move: the additions have to fit in the static array.\<close>

lemma dereference_dynamic:
  assumes "pool_wf p" and "DynamicObjects p = Some a" and "i + k \<le> unat (DynamicCount p)"
    and "length (static_objects p) + length (additions deletes h (take k (drop i (dynamic_objects p)))) \<le> 64"
    and few: "unat (DynamicCount p) < 2147483584" and g: "\<And>n. length (garbage n) = n"
  shows "\<exists>p'. PhDereferenceObjects garbage deletes
        (\<lambda>q. if DynamicAllocated q = DynamicAllocated p then DynamicObjects q else None) i k h p =
      Some (h @ take k (drop i (dynamic_objects p)), p') \<and> pool_wf p' \<and>
    static_objects p' = static_objects p @ additions deletes h (take k (drop i (dynamic_objects p))) \<and> same_dynamic p p'"
  using assms(1-5)
proof (induction k arbitrary: i h p)
  case 0
  then show ?case by (simp add: same_dynamic_def)
next
  case (Suc k)
  let ?x = "dynamic_objects p ! i"
  have l: "length (dynamic_objects p) = unat (DynamicCount p)" by (rule length_dynamic [OF Suc.prems(1)])
  have i: "i < length a" and x: "a ! i = ?x"
    using Suc.prems(1-3) by (auto simp: dynamic_objects_def pool_wf_def word_le_nat_alt)
  have t: "take (Suc k) (drop i (dynamic_objects p)) = ?x # take k (drop (i + 1) (dynamic_objects p))"
    by (rule take_from) (use Suc.prems(3) l in simp)
  have fit: "length (objects (deletes (h @ [?x]))) \<le> static_room p"
    using Suc.prems(4) unfolding t by simp
  obtain q where q: "PhAutoDereferenceObjects garbage (deletes (h @ [?x])) p = Some q" "pool_wf q"
      "static_objects q = static_objects p @ objects (deletes (h @ [?x]))" "same_dynamic p q"
    using pool_adds [OF Suc.prems(1) _ g, of "deletes (h @ [?x])"] fit Suc.prems(5) l by fastforce
  have d: "DynamicObjects q = Some a" "DynamicCount q = DynamicCount p" "DynamicAllocated q = DynamicAllocated p"
      "dynamic_objects q = dynamic_objects p"
    using q(4) Suc.prems(2) same_dynamic_objects by (auto simp: same_dynamic_def)
  have le: "i + 1 + k \<le> unat (DynamicCount q)" using Suc.prems(3) d(2) by simp
  have room: "length (static_objects q) +
      length (additions deletes (h @ [?x]) (take k (drop (i + 1) (dynamic_objects q)))) \<le> 64"
    using Suc.prems(4) unfolding t q(3) d(4) by simp
  have few: "unat (DynamicCount q) < 2147483584" using Suc.prems(5) d(2) by simp
  from Suc.IH [OF q(2) d(1) le room few]
  obtain r where r: "PhDereferenceObjects garbage deletes
        (\<lambda>q. if DynamicAllocated q = DynamicAllocated p then DynamicObjects q else None) (i + 1) k (h @ [?x]) q =
        Some ((h @ [?x]) @ take k (drop (i + 1) (dynamic_objects p)), r)" "pool_wf r"
      "static_objects r = static_objects q @ additions deletes (h @ [?x]) (take k (drop (i + 1) (dynamic_objects p)))"
      "same_dynamic q r"
    unfolding d(3,4) by blast
  have "PhDereferenceObjects garbage deletes
        (\<lambda>q. if DynamicAllocated q = DynamicAllocated p then DynamicObjects q else None) i (Suc k) h p =
      Some (h @ take (Suc k) (drop i (dynamic_objects p)), r)"
    using i q(1) r(1) Suc.prems(2) unfolding t by (simp add: x)
  moreover have "static_objects r = static_objects p @ additions deletes h (take (Suc k) (drop i (dynamic_objects p)))"
    unfolding t r(3) q(3) by simp
  moreover have "same_dynamic p r" using q(4) r(4) by (simp add: same_dynamic_def)
  ultimately show ?case using r(2) by blast
qed

text \<open>
  The contract of the pool, on the list of its objects. A drain dereferences them all. The objects added while the
  first 64 are dereferenced are lost as far as they fit in the static array, and join the objects to be dereferenced
  from there on; the ones added after that are the objects of the pool when the drain returns.
\<close>

definition drained :: "(nat list \<Rightarrow> nat list) \<Rightarrow> nat list \<Rightarrow> nat list \<Rightarrow> nat list" where
  "drained deletes h xs =
     xs @ drop (PH_AUTO_POOL_STATIC_SIZE - length xs) (additions deletes h (take PH_AUTO_POOL_STATIC_SIZE xs))"

definition kept :: "(nat list \<Rightarrow> nat list) \<Rightarrow> nat list \<Rightarrow> nat list \<Rightarrow> nat list" where
  "kept deletes h xs =
     additions deletes (h @ take PH_AUTO_POOL_STATIC_SIZE xs)
       (drop (min PH_AUTO_POOL_STATIC_SIZE (length xs)) (drained deletes h xs))"

text \<open>The additions of a drain that the code can take: the dynamic array does not move while it is dereferenced.\<close>

definition drain_ok :: "(nat list \<Rightarrow> nat list) \<Rightarrow> nat list \<Rightarrow> nat list \<Rightarrow> bool" where
  "drain_ok deletes h xs \<longleftrightarrow>
     length (drained deletes h xs) < 2147483584 \<and> length (kept deletes h xs) \<le> PH_AUTO_POOL_STATIC_SIZE"

lemma pool_objects_split:
  assumes "pool_ok p"
  shows "take PH_AUTO_POOL_STATIC_SIZE (pool_objects p) = static_objects p"
    and "drop PH_AUTO_POOL_STATIC_SIZE (pool_objects p) = dynamic_objects p"
    and "PH_AUTO_POOL_STATIC_SIZE - length (pool_objects p) = static_room p"
proof -
  have l: "length (static_objects p) \<le> 64" using assms by (simp add: pool_ok_def length_static) (simp add: pool_wf_def)
  show "take 64 (pool_objects p) = static_objects p" "drop 64 (pool_objects p) = dynamic_objects p"
    "64 - length (pool_objects p) = static_room p"
    using assms l by (cases "dynamic_objects p = []"; simp add: pool_ok_def pool_objects_def)+
qed

lemma pool_drain:
  assumes ok: "pool_ok p" and legal: "drain_ok deletes h (pool_objects p)" and g: "\<And>n. length (garbage n) = n"
  shows "\<exists>p'. PhDrainAutoPool garbage deletes h p = Some (h @ drained deletes h (pool_objects p), p') \<and> pool_ok p' \<and>
    pool_objects p' = kept deletes h (pool_objects p)"
proof -
  let ?s = "static_objects p" and ?A = "additions deletes h (static_objects p)"
  note split = pool_objects_split [OF ok]
  have wf: "pool_wf p" using ok by (simp add: pool_ok_def)
  have le: "length ?s \<le> 64" using wf by (simp add: length_static) (simp add: pool_wf_def)
  define ys where "ys = dynamic_objects p @ drop (static_room p) ?A"
  have d: "drained deletes h (pool_objects p) = ?s @ ys"
    unfolding drained_def split(1,3) by (simp add: pool_objects_def ys_def)
  have "min 64 (length (pool_objects p)) = length ?s"
    unfolding split(1) [symmetric] by simp
  then have dr: "drop (min 64 (length (pool_objects p))) (drained deletes h (pool_objects p)) = ys"
    unfolding d by simp
  have k: "kept deletes h (pool_objects p) = additions deletes (h @ ?s) ys"
    unfolding kept_def split(1) dr by (rule refl)
  have few: "length (dynamic_objects p) + length ?A < 2147483648"
    using legal le unfolding drain_ok_def d by (simp add: ys_def) linarith
  obtain q where q: "PhDereferenceObjects garbage deletes (\<lambda>p. Some (StaticObjects p)) 0 (length ?s) h p = Some (h @ ?s, q)"
      "pool_wf q" "dynamic_objects q = ys"
    using dereference_static [OF wf, of 0 "length ?s" deletes h garbage] few g unfolding ys_def by fastforce
  define r where "r = q\<lparr>StaticCount := 0\<rparr>"
  have r: "pool_wf r" "static_objects r = []" "dynamic_objects r = ys"
    using q(2,3) by (auto simp: r_def pool_wf_def static_objects_def dynamic_objects_def split: option.splits)
  have n: "unat (StaticCount p) = length ?s" using length_static [OF wf] by simp
  show ?thesis
  proof (cases "DynamicObjects q")
    case None
    then have y: "ys = []" using q(3) by (simp add: dynamic_objects_def)
    have "PhDrainAutoPool garbage deletes h p = Some (h @ ?s, r)"
      unfolding PhDrainAutoPool_def n q(1) by (simp add: None r_def)
    then show ?thesis using r y unfolding d k by (auto simp: pool_ok_def pool_objects_def)
  next
    case (Some a)
    then have a: "DynamicObjects r = Some a" by (simp add: r_def)
    have c: "unat (DynamicCount r) = length ys" using length_dynamic [OF r(1)] r(3) by simp
    have room: "length (static_objects r) + length (additions deletes (h @ ?s) (take (length ys) (drop 0 (dynamic_objects r)))) \<le> 64"
      using legal unfolding drain_ok_def k by (simp add: r(2,3))
    have few: "unat (DynamicCount r) < 2147483584" using legal unfolding drain_ok_def d by (simp add: c)
    obtain t where t: "PhDereferenceObjects garbage deletes
          (\<lambda>q. if DynamicAllocated q = DynamicAllocated r then DynamicObjects q else None) 0 (length ys) (h @ ?s) r =
          Some ((h @ ?s) @ ys, t)" "pool_wf t" "static_objects t = additions deletes (h @ ?s) ys"
      using dereference_dynamic [OF r(1) a _ room few g] c r(2,3) by auto
    define u where "u = (if DynamicAllocated t > PH_AUTO_POOL_DYNAMIC_BIG_SIZE
        then t\<lparr>DynamicCount := 0, DynamicAllocated := 0, DynamicObjects := None\<rparr> else t\<lparr>DynamicCount := 0\<rparr>)"
    have run: "PhDrainAutoPool garbage deletes h p = Some (h @ ?s @ ys, u)"
      unfolding PhDrainAutoPool_def n q(1) option.case prod.case Let_def r_def [symmetric] a c t(1)
      by (simp add: u_def)
    have "pool_wf u" "static_objects u = static_objects t" "dynamic_objects u = []"
      using t(2) by (auto simp: u_def pool_wf_def static_objects_def dynamic_objects_def split: option.splits)
    then show ?thesis using run t(3) unfolding d k by (simp add: pool_ok_def pool_objects_def)
  qed
qed

lemma pool_add_ok:
  assumes ok: "pool_ok p" and few: "length (pool_objects p) < 2147483648" and g: "\<And>n. length (garbage n) = n"
  shows "\<exists>p'. PhAutoDereferenceObject garbage x p = Some p' \<and> pool_ok p' \<and> pool_objects p' = pool_objects p @ objects [x]"
proof -
  have wf: "pool_wf p" using ok by (simp add: pool_ok_def)
  have le: "length (static_objects p) \<le> 64" using wf by (simp add: length_static) (simp add: pool_wf_def)
  obtain q where q: "PhAutoDereferenceObject garbage x p = Some q" "pool_wf q"
      "static_objects q = static_objects p @ take (static_room p) (objects [x])"
      "dynamic_objects q = dynamic_objects p @ drop (static_room p) (objects [x])"
    using pool_add [OF wf _ g, of x] few by (auto simp: pool_objects_def)
  have "pool_ok q \<and> pool_objects q = pool_objects p @ objects [x]"
  proof (cases "length (static_objects p) = 64")
    case True
    then show ?thesis using q(2-4) by (simp add: pool_ok_def pool_objects_def)
  next
    case False
    then have "dynamic_objects p = []" using ok by (auto simp: pool_ok_def)
    moreover have "Suc 0 \<le> static_room p" using False le by arith
    then have "length (objects [x]) \<le> static_room p" by (simp add: objects_def)
    ultimately show ?thesis using q(2-4) by (simp add: pool_ok_def pool_objects_def)
  qed
  then show ?thesis using q(1) by blast
qed

datatype pool_op = AutoDereference nat | Drain

fun pool_run ::
  "(nat \<Rightarrow> nat list) \<Rightarrow> (nat list \<Rightarrow> nat list) \<Rightarrow> pool_op list \<Rightarrow> nat list \<Rightarrow> PH_AUTO_POOL \<Rightarrow> (nat list \<times> PH_AUTO_POOL) option"
where
  "pool_run garbage deletes [] h p = Some (h, p)"
| "pool_run garbage deletes (AutoDereference x # ops) h p =
     (case PhAutoDereferenceObject garbage x p of Some p \<Rightarrow> pool_run garbage deletes ops h p | None \<Rightarrow> None)"
| "pool_run garbage deletes (Drain # ops) h p =
     (case PhDrainAutoPool garbage deletes h p of Some (h, p) \<Rightarrow> pool_run garbage deletes ops h p | None \<Rightarrow> None)"

text \<open>The same operations on the history and the list of the objects, and what they may be.\<close>

fun pool_spec :: "(nat list \<Rightarrow> nat list) \<Rightarrow> pool_op list \<Rightarrow> nat list \<Rightarrow> nat list \<Rightarrow> nat list \<times> nat list" where
  "pool_spec deletes [] h xs = (h, xs)"
| "pool_spec deletes (AutoDereference x # ops) h xs = pool_spec deletes ops h (xs @ objects [x])"
| "pool_spec deletes (Drain # ops) h xs = pool_spec deletes ops (h @ drained deletes h xs) (kept deletes h xs)"

fun pool_legal :: "(nat list \<Rightarrow> nat list) \<Rightarrow> pool_op list \<Rightarrow> nat list \<Rightarrow> nat list \<Rightarrow> bool" where
  "pool_legal deletes [] h xs \<longleftrightarrow> True"
| "pool_legal deletes (AutoDereference x # ops) h xs \<longleftrightarrow>
     length xs < 2147483648 \<and> pool_legal deletes ops h (xs @ objects [x])"
| "pool_legal deletes (Drain # ops) h xs \<longleftrightarrow>
     drain_ok deletes h xs \<and> pool_legal deletes ops (h @ drained deletes h xs) (kept deletes h xs)"

fun added :: "pool_op list \<Rightarrow> nat list" where
  "added [] = []"
| "added (AutoDereference x # ops) = objects [x] @ added ops"
| "added (Drain # ops) = added ops"

lemma pool_run_correct:
  assumes "pool_ok p" and "pool_legal deletes ops h (pool_objects p)" and g: "\<And>n. length (garbage n) = n"
  shows "\<exists>h' p'. pool_run garbage deletes ops h p = Some (h', p') \<and> pool_ok p' \<and>
    pool_spec deletes ops h (pool_objects p) = (h', pool_objects p')"
  using assms(1,2)
proof (induction ops arbitrary: h p)
  case (Cons op ops)
  show ?case
  proof (cases op)
    case (AutoDereference x)
    then obtain q where "PhAutoDereferenceObject garbage x p = Some q" "pool_ok q" "pool_objects q = pool_objects p @ objects [x]"
      using pool_add_ok [OF Cons.prems(1) _ g, of x] Cons.prems(2) by auto
    then show ?thesis using Cons.IH [of q h] Cons.prems(2) AutoDereference by simp
  next
    case Drain
    then obtain q where "PhDrainAutoPool garbage deletes h p = Some (h @ drained deletes h (pool_objects p), q)" "pool_ok q"
        "pool_objects q = kept deletes h (pool_objects p)"
      using pool_drain [OF Cons.prems(1) _ g, of deletes h] Cons.prems(2) by auto
    then show ?thesis
      using Cons.IH [of q "h @ drained deletes h (pool_objects p)"] Cons.prems(2) Drain by simp
  qed
qed simp

lemma pool_legal_append:
  "pool_legal deletes (ops @ ops') h xs \<longleftrightarrow>
     pool_legal deletes ops h xs \<and> (case pool_spec deletes ops h xs of (h, xs) \<Rightarrow> pool_legal deletes ops' h xs)"
  by (induction deletes ops h xs rule: pool_spec.induct) auto

lemma pool_spec_append:
  "pool_spec deletes (ops @ ops') h xs = (case pool_spec deletes ops h xs of (h, xs) \<Rightarrow> pool_spec deletes ops' h xs)"
  by (induction deletes ops h xs rule: pool_spec.induct) auto

text \<open>No object that is added between the drains is lost, whatever the delete procedures do.\<close>

lemma pool_spec_mset:
  "mset h + mset xs + mset (added ops) \<subseteq>#
     mset (fst (pool_spec deletes ops h xs)) + mset (snd (pool_spec deletes ops h xs))"
proof (induction deletes ops h xs rule: pool_spec.induct)
  case (2 deletes x ops h xs)
  then show ?case by (simp add: ac_simps)
next
  case (3 deletes ops h xs)
  have "mset h + mset xs + mset (added ops) \<subseteq>#
      mset (h @ drained deletes h xs) + mset (kept deletes h xs) + mset (added ops)"
    by (simp add: drained_def ac_simps)
  also note 3
  finally show ?case by simp
qed simp

lemma no_additions: "\<forall>h. deletes h = [] \<Longrightarrow> additions deletes h xs = []"
  by (induction xs arbitrary: h) (simp_all add: objects_def)

lemma pool_spec_no_additions:
  assumes "\<forall>h. deletes h = []"
  shows "case pool_spec deletes ops h xs of (h', xs') \<Rightarrow> h' @ xs' = h @ xs @ added ops"
  using no_additions [OF assms]
  by (induction deletes ops h xs rule: pool_spec.induct) (auto simp: drained_def kept_def)

lemma pool_legal_no_additions:
  assumes "\<forall>h. deletes h = []" and "length xs + length ops < 2147483584"
  shows "pool_legal deletes ops h xs"
  using assms(2) no_additions [OF assms(1)]
  by (induction deletes ops h xs rule: pool_legal.induct) (auto simp: drain_ok_def drained_def kept_def objects_def)

section \<open>The table of types\<close>

text \<open>The parameters of a type: the block of the type object, name, flags, delete procedure, free list.\<close>

type_synonym type_parameters = "nat \<times> string \<times> ulong \<times> bool \<times> (ulong64 \<times> ulong) option"

definition valid_parameters :: "type_parameters \<Rightarrow> bool" where
  "valid_parameters c = (case c of (_, _, flags, _, ps) \<Rightarrow> flags = 0 \<or> flags = 1 \<and> ps \<noteq> None)"

fun create_types ::
  "bool \<Rightarrow> nat \<Rightarrow> type_parameters list \<Rightarrow> object_manager \<Rightarrow> (ntstatus + object_manager) option"
where
  "create_types checked typeObject [] m = Some (Inr m)"
| "create_types checked typeObject ((fresh, name, flags, dp, ps) # cs) m =
     (case PhCreateObjectTypeEx checked typeObject fresh name flags dp ps m of
        None \<Rightarrow> None
      | Some (Inl e) \<Rightarrow> Some (Inl e)
      | Some (Inr (_, m)) \<Rightarrow> create_types checked typeObject cs m)"

text \<open>The number of types that can be made: the assertion fails for the one that would fill the table.\<close>

definition type_limit :: "bool \<Rightarrow> nat" where
  "type_limit checked = (if checked then PH_OBJECT_TYPE_TABLE_SIZE - 1 else PH_OBJECT_TYPE_TABLE_SIZE)"

definition table_ok :: "object_manager \<Rightarrow> nat list \<Rightarrow> bool" where
  "table_ok m tys \<longleftrightarrow>
     length (PhObjectTypeTable m) = PH_OBJECT_TYPE_TABLE_SIZE \<and> unat (PhObjectTypeCount m) = length tys \<and> tys \<noteq> [] \<and>
     TypeFlags (Types m (hd tys)) = 0 \<and> length tys \<le> PH_OBJECT_TYPE_TABLE_SIZE \<and>
     (\<exists>h fl. Headers m (hd tys) = Some h \<and> First h = TypeFields 0 fl) \<and>
     (\<forall>i<length tys. PhObjectTypeTable m ! i = tys ! i \<and> unat (TypeIndex (Types m (tys ! i))) = i)"

lemma create_type_object:
  assumes "TypeFlags (Types m typeObject) = 0"
  shows "PhCreateObject fresh 64 typeObject m =
    (fresh, set_header (add_objects m typeObject 1) fresh
       \<lparr>First = TypeFields (ucast (TypeIndex (Types m typeObject))) 0, RefCount = 1\<rparr>)"
  using assms by (simp add: PhCreateObject_def PhpAllocateObject_def add_objects_def Let_def)

lemma create_type_step:
  assumes flags: "flags = 0 \<or> flags = 1 \<and> ps \<noteq> None" and t: "TypeFlags (Types m typeObject) = 0" and "fresh \<noteq> typeObject"
    and passes: "checked \<Longrightarrow> unat (PhObjectTypeCount m + 1) < PH_OBJECT_TYPE_TABLE_SIZE"
  shows "\<exists>m'. PhCreateObjectTypeEx checked typeObject fresh name flags dp ps m = Some (Inr (fresh, m')) \<and>
    PhObjectTypeCount m' = PhObjectTypeCount m + 1 \<and>
    PhObjectTypeTable m' = (PhObjectTypeTable m)[unat (ucast (PhObjectTypeCount m) :: uchar) := fresh] \<and>
    TypeIndex (Types m' fresh) = ucast (PhObjectTypeCount m) \<and> TypeFlags (Types m' fresh) = ucast flags \<and>
    Headers m' fresh = Some \<lparr>First = TypeFields (ucast (TypeIndex (Types m typeObject))) 0, RefCount = 1\<rparr> \<and>
    (\<forall>y. y \<noteq> fresh \<longrightarrow> TypeIndex (Types m' y) = TypeIndex (Types m y) \<and> TypeFlags (Types m' y) = TypeFlags (Types m y) \<and>
       Headers m' y = Headers m y)"
proof -
  let ?h = "\<lparr>First = TypeFields (ucast (TypeIndex (Types m typeObject))) 0, RefCount = 1\<rparr>"
  define m1 where "m1 = set_header (add_objects m typeObject 1) fresh ?h"
  have m1: "PhObjectTypeCount m1 = PhObjectTypeCount m" "PhObjectTypeTable m1 = PhObjectTypeTable m"
      "Headers m1 = (Headers m)(fresh := Some ?h)"
      "\<forall>y. TypeIndex (Types m1 y) = TypeIndex (Types m y) \<and> TypeFlags (Types m1 y) = TypeFlags (Types m y)"
    by (simp_all add: m1_def add_objects_def)
  have valid: "flags AND PH_OBJECT_TYPE_VALID_FLAGS = flags" "flags AND PH_OBJECT_TYPE_USE_FREE_LIST = 0 \<or> ps \<noteq> None"
    using flags by auto
  obtain d where "PhCreateObjectTypeEx checked typeObject fresh name flags dp ps m =
      Some (Inr (fresh, (set_type (m1\<lparr>PhObjectTypeCount := PhObjectTypeCount m1 + 1\<rparr>) fresh d)
        \<lparr>PhObjectTypeTable := (PhObjectTypeTable m1)[unat (ucast (PhObjectTypeCount m1) :: uchar) := fresh]\<rparr>))"
      and "TypeIndex d = ucast (PhObjectTypeCount m)" "TypeFlags d = ucast flags"
    using valid passes unfolding PhCreateObjectTypeEx_def create_type_object [OF t] m1_def [symmetric]
    by (auto simp: Let_def m1(1) split: option.splits)
  then show ?thesis using m1 by simp
qed

lemma table_index:
  assumes "unat (n :: ulong) < 256"
  shows "unat (ucast n :: uchar) = unat n"
proof -
  have "unat (ucast n :: uchar) = unat n mod 256" by (simp add: unsigned_ucast_eq take_bit_eq_mod)
  then show ?thesis using assms by simp
qed

lemma table_ok_add:
  assumes ok: "table_ok m tys" and n: "length tys < type_limit checked" and fresh: "fresh \<notin> set tys"
    and flags: "flags = 0 \<or> flags = 1 \<and> ps \<noteq> None"
  shows "\<exists>m'. PhCreateObjectTypeEx checked (hd tys) fresh name flags dp ps m = Some (Inr (fresh, m')) \<and> table_ok m' (tys @ [fresh])"
proof -
  have ne: "tys \<noteq> []" and t: "TypeFlags (Types m (hd tys)) = 0" and c: "unat (PhObjectTypeCount m) = length tys"
    using ok by (simp_all add: table_ok_def)
  note limit = n
  have n: "length tys < PH_OBJECT_TYPE_TABLE_SIZE" using limit by (simp add: type_limit_def split: if_splits)
  have u: "unat (PhObjectTypeCount m + 1) = length tys + 1"
    using c n by (simp add: unat_plus_no_overflow)
  have passes: "checked \<Longrightarrow> unat (PhObjectTypeCount m + 1) < PH_OBJECT_TYPE_TABLE_SIZE"
    using limit u by (simp add: type_limit_def)
  have "fresh \<noteq> hd tys" using fresh hd_in_set [OF ne] by blast
  from create_type_step [OF flags t this passes]
  obtain m' where m': "PhCreateObjectTypeEx checked (hd tys) fresh name flags dp ps m = Some (Inr (fresh, m'))"
      "PhObjectTypeCount m' = PhObjectTypeCount m + 1"
      "PhObjectTypeTable m' = (PhObjectTypeTable m)[unat (ucast (PhObjectTypeCount m) :: uchar) := fresh]"
      "TypeIndex (Types m' fresh) = ucast (PhObjectTypeCount m)"
      "\<forall>y. y \<noteq> fresh \<longrightarrow> TypeIndex (Types m' y) = TypeIndex (Types m y) \<and> TypeFlags (Types m' y) = TypeFlags (Types m y) \<and>
         Headers m' y = Headers m y"
    by blast
  have i: "unat (ucast (PhObjectTypeCount m) :: uchar) = length tys"
    using table_index [of "PhObjectTypeCount m"] c n by simp
  have "PhObjectTypeTable m' ! j = (tys @ [fresh]) ! j \<and> unat (TypeIndex (Types m' ((tys @ [fresh]) ! j))) = j"
    if j: "j < length (tys @ [fresh])" for j
  proof (cases "j = length tys")
    case True
    then show ?thesis using m'(3,4) i n ok by (simp add: table_ok_def)
  next
    case False
    then have l: "j < length tys" using j by simp
    then have "tys ! j \<noteq> fresh" using fresh by (metis nth_mem)
    then show ?thesis using l m'(3,5) i ok False by (simp add: table_ok_def nth_append)
  qed
  then have "table_ok m' (tys @ [fresh])"
    using ok n m'(2,3,5) u ne \<open>fresh \<noteq> hd tys\<close> by (simp add: table_ok_def)
  then show ?thesis using m'(1) by blast
qed

lemma create_types_ok:
  assumes "table_ok m tys" and "length tys + length cs \<le> type_limit checked"
    and "distinct (tys @ map fst cs)" and "\<forall>c\<in>set cs. valid_parameters c"
  shows "\<exists>m'. create_types checked (hd tys) cs m = Some (Inr m') \<and> table_ok m' (tys @ map fst cs)"
  using assms
proof (induction cs arbitrary: m tys)
  case (Cons c cs)
  obtain fresh name flags dp ps where c: "c = (fresh, name, flags, dp, ps)" by (cases c)
  have "flags = 0 \<or> flags = 1 \<and> ps \<noteq> None" using Cons.prems(4) c by (simp add: valid_parameters_def)
  from table_ok_add [OF Cons.prems(1) _ _ this, where fresh = fresh and name = name and dp = dp and checked = checked]
  obtain m' where m': "PhCreateObjectTypeEx checked (hd tys) fresh name flags dp ps m = Some (Inr (fresh, m'))" "table_ok m' (tys @ [fresh])"
    using Cons.prems(2,3) c by auto
  have "hd (tys @ [fresh]) = hd tys" using Cons.prems(1) by (simp add: table_ok_def)
  then obtain m'' where "create_types checked (hd tys) cs m' = Some (Inr m'')" "table_ok m'' ((tys @ [fresh]) @ map fst cs)"
    using Cons.IH [OF m'(2)] Cons.prems(2-4) c by auto
  then show ?case using m'(1) c by simp
qed simp

text \<open>The two types made by \<open>PhRefInitialization\<close>.\<close>

lemma PhRefInitialization_ok:
  assumes m: "length (PhObjectTypeTable m) = PH_OBJECT_TYPE_TABLE_SIZE" "PhObjectTypeCount m = 0"
    and f: "distinct [dummy, f1, f2]"
  shows "\<exists>m'. PhRefInitialization checked dummy f1 f2 m = Some (Inr (f1, f2, m')) \<and> table_ok m' [f1, f2]"
proof -
  define m0 where "m0 = (set_type (m\<lparr>PhObjectDeferDeleteListHead := 0,
      PhObjectSmallFreeList := PhInitializeFreeList (PhAddObjectHeaderSize PH_OBJECT_SMALL_OBJECT_SIZE) PH_OBJECT_SMALL_OBJECT_COUNT\<rparr>) dummy
      \<lparr>TypeFlags = 0, TypeIndex = 0, NumberOfObjects = 0, DeleteProcedure = False, TypeName = [],
       FreeList = \<lparr>ListHead = [], FreeCount = 0, MaximumCount = 0, BlockSize = 0\<rparr>\<rparr>)
      \<lparr>PhObjectTypeTable := (PhObjectTypeTable m)[0 := dummy]\<rparr>"
  have m0: "TypeFlags (Types m0 dummy) = 0" "TypeIndex (Types m0 dummy) = 0" "PhObjectTypeCount m0 = 0"
      "length (PhObjectTypeTable m0) = PH_OBJECT_TYPE_TABLE_SIZE"
    using m by (simp_all add: m0_def)
  have flags: "(0 :: ulong) = 0 \<or> (0 :: ulong) = 1 \<and> (None :: (ulong64 \<times> ulong) option) \<noteq> None" by simp
  obtain m1 where m1: "PhCreateObjectTypeEx checked dummy f1 ''Type'' 0 False None m0 = Some (Inr (f1, m1))"
      "PhObjectTypeCount m1 = 1" "PhObjectTypeTable m1 = (PhObjectTypeTable m0)[0 := f1]"
      "TypeIndex (Types m1 f1) = 0" "TypeFlags (Types m1 f1) = 0"
      "Headers m1 f1 = Some \<lparr>First = TypeFields 0 0, RefCount = 1\<rparr>"
    using create_type_step [OF flags m0(1), of f1 checked "''Type''" False] f m0 by auto
  define m2 where "m2 = set_type (set_header m1 f1 \<lparr>First = TypeFields 0 0, RefCount = 1\<rparr>) f1
      ((Types m1 f1)\<lparr>NumberOfObjects := 1\<rparr>)"
  have t: "table_ok m2 [f1]"
    using m1 m0(4) by (simp add: m2_def table_ok_def)
  have "length [f1] < type_limit checked" and "f2 \<notin> set [f1]" using f by (auto simp: type_limit_def)
  from table_ok_add [OF t this flags, of "''Alloc''" False]
  obtain m3 where m3: "PhCreateObjectTypeEx checked f1 f2 ''Alloc'' 0 False None m2 = Some (Inr (f2, m3))" "table_ok m3 [f1, f2]"
    by auto
  have "PhRefInitialization checked dummy f1 f2 m = Some (Inr (f1, f2, m3))"
    using m1(1,4,6) m3(1)
    by (simp add: PhRefInitialization_def PhCreateObjectType_def Let_def m0_def m2_def)
  then show ?thesis using m3(2) by blast
qed

section \<open>Properties\<close>

text \<open>
  C22. A new pool is used for any sequence of additions and drains and then deleted. The delete procedures of the objects
  may add objects to the pool during the drains, in any way that depends on what has been dereferenced, as long as
  each drain leaves at most 64 of them (more would move the array that is being read) and the pool never holds
  \<open>2 ^ 31 - 64\<close> objects. Then all accesses are within the arrays of the pool; the objects dereferenced and the objects
  in the pool are those of the contract \<open>pool_spec\<close>, which says which additions of the delete procedures are dropped;
  no object added between the drains is ever dropped; the deletion restores the pool before this one when
  this one is current. If the delete procedures add nothing, the objects dereferenced are the objects added, \<open>NULL\<close>
  left out, each once and in the order of the additions.
\<close>

theorem PhAutoPool_history:
  assumes "\<And>n. length (garbage n) = n" and "length cells = PH_AUTO_POOL_STATIC_SIZE"
    and "pool_legal deletes (ops @ [Drain]) [] []"
  shows "case PhInitializeAutoPool cells pool pools of (p\<^sub>0, stack) \<Rightarrow>
    \<exists>h p h' freed. pool_run garbage deletes ops [] p\<^sub>0 = Some (h, p) \<and>
      pool_spec deletes ops [] [] = (h, pool_objects p) \<and>
      PhDeleteAutoPool garbage deletes pool stack h p = Some (h', Inr (pools, freed)) \<and>
      h' = fst (pool_spec deletes (ops @ [Drain]) [] []) \<and> mset (added ops) \<subseteq># mset h' \<and>
      ((\<forall>h. deletes h = []) \<longrightarrow> h' = added ops)"
proof -
  let ?p = "fst (PhInitializeAutoPool cells pool pools)"
  have p: "pool_ok ?p" "pool_objects ?p = []"
    using assms(2) by (simp_all add: pool_ok_def pool_wf_def pool_objects_def static_objects_def dynamic_objects_def
        PhInitializeAutoPool_def)
  have l: "pool_legal deletes ops [] (pool_objects ?p)"
    using assms(3) p(2) by (simp add: pool_legal_append)
  obtain h p where r: "pool_run garbage deletes ops [] ?p = Some (h, p)" "pool_ok p"
      "pool_spec deletes ops [] [] = (h, pool_objects p)"
    using pool_run_correct [OF p(1) l assms(1)] p(2) by auto
  have d: "drain_ok deletes h (pool_objects p)" using assms(3) r(3) by (simp add: pool_legal_append)
  obtain p' where p': "PhDrainAutoPool garbage deletes h p = Some (h @ drained deletes h (pool_objects p), p')"
    using pool_drain [OF r(2) d assms(1)] by blast
  have "mset (added ops) \<subseteq># mset h + mset (pool_objects p)"
    using pool_spec_mset [where h = "[]" and xs = "[]" and ops = ops and deletes = deletes] r(3) by simp
  then have "mset (added ops) \<subseteq># mset (h @ drained deletes h (pool_objects p))"
    by (rule subset_mset.order_trans) (simp add: drained_def)
  moreover have "h @ drained deletes h (pool_objects p) = added ops" if "\<forall>h. deletes h = []"
    using pool_spec_no_additions [OF that, where ops = ops and h = "[]" and xs = "[]"] r(3) by (simp add: drained_def no_additions [OF that])
  ultimately show ?thesis
    using r(1,3) p' by (auto simp: PhDeleteAutoPool_def PhInitializeAutoPool_def pool_spec_append)
qed

text \<open>The delete procedure of the first object adds another one, which the drain drops.\<close>

theorem PhAutoPool_history_witness:
  "case PhInitializeAutoPool (replicate 64 9) 1 [2] of (p\<^sub>0, stack) \<Rightarrow>
     \<exists>h p h' freed.
       pool_run (\<lambda>n. replicate n 7) (\<lambda>h. if h = [16] then [48] else [])
         [AutoDereference 16, AutoDereference 0, Drain, AutoDereference 32] [] p\<^sub>0 = Some (h, p) \<and>
       pool_objects p = [32] \<and>
       PhDeleteAutoPool (\<lambda>n. replicate n 7) (\<lambda>h. if h = [16] then [48] else []) 1 stack h p = Some (h', Inr ([2], freed)) \<and>
       h' = [16, 32]"
  using PhAutoPool_history [of "\<lambda>n. replicate n 7" "replicate 64 9" "\<lambda>h. if h = [16] then [48] else []"
      "[AutoDereference 16, AutoDereference 0, Drain, AutoDereference 32]" 1 "[2]"]
  by (auto simp: drain_ok_def drained_def kept_def objects_def)

text \<open>
  C21. A build with assertions makes up to 255 types, a release build up to 256, the two of \<open>PhRefInitialization\<close>
  among them: the table has every type at the index the type has, so that the type of every object is found. One
  type more stops the first build at the assertion, which already fails for the type that would fill the table; in the
  second it has the index 0 again and takes the place of the type of the type objects, whose type is then taken
  for the new one.
\<close>

theorem PhCreateObjectType_table:
  assumes "length (PhObjectTypeTable m) = PH_OBJECT_TYPE_TABLE_SIZE" and "PhObjectTypeCount m = 0"
    and "distinct (dummy # f1 # f2 # map fst cs @ [f])" and "\<forall>c\<in>set cs. valid_parameters c"
    and "2 + length cs \<le> (if checked then 255 else 256)"
  shows "\<exists>m1 m2. PhRefInitialization checked dummy f1 f2 m = Some (Inr (f1, f2, m1)) \<and>
    create_types checked f1 cs m1 = Some (Inr m2) \<and>
    (\<forall>i<2 + length cs. PhObjectTypeTable m2 ! i = (f1 # f2 # map fst cs) ! i \<and>
       unat (TypeIndex (Types m2 ((f1 # f2 # map fst cs) ! i))) = i) \<and>
    PhGetObjectType m2 f1 = Some f1 \<and>
    (checked \<and> length cs = 253 \<longrightarrow> PhCreateObjectTypeEx checked f1 f name 0 dp None m2 = None) \<and>
    (\<not> checked \<and> length cs = 254 \<longrightarrow>
       (\<exists>m3. PhCreateObjectTypeEx checked f1 f name 0 dp None m2 = Some (Inr (f, m3)) \<and> TypeIndex (Types m3 f) = 0 \<and>
          PhGetObjectType m3 f1 = Some f))"
proof -
  obtain m1 where m1: "PhRefInitialization checked dummy f1 f2 m = Some (Inr (f1, f2, m1))" "table_ok m1 [f1, f2]"
    using PhRefInitialization_ok [OF assms(1,2), of dummy f1 f2 checked] assms(3) by auto
  have "\<exists>m2. create_types checked (hd [f1, f2]) cs m1 = Some (Inr m2) \<and> table_ok m2 ([f1, f2] @ map fst cs)"
    by (rule create_types_ok [OF m1(2)]) (use assms(3-5) in \<open>auto simp: type_limit_def\<close>)
  then obtain m2 where m2: "create_types checked f1 cs m1 = Some (Inr m2)" "table_ok m2 (f1 # f2 # map fst cs)"
    by auto
  then obtain h fl where h: "Headers m2 f1 = Some h" "First h = TypeFields 0 fl"
    by (auto simp: table_ok_def)
  have z: "PhObjectTypeTable m2 ! 0 = f1" "length (PhObjectTypeTable m2) = 256" "TypeFlags (Types m2 f1) = 0"
      "unat (PhObjectTypeCount m2) = 2 + length cs"
    using m2(2) by (auto simp: table_ok_def)
  have g: "PhGetObjectType m2 f1 = Some f1" using h z by (simp add: PhGetObjectType_def)
  have a: "PhCreateObjectTypeEx checked f1 f name 0 dp None m2 = None" if "checked" "length cs = 253"
  proof -
    have "unat (PhObjectTypeCount m2) = unat (255 :: ulong)" using z(4) that(2) by simp
    then have c: "PhObjectTypeCount m2 = 255" by (rule unsigned_word_eqI)
    show ?thesis
      using that(1) by (simp add: PhCreateObjectTypeEx_def create_type_object [OF z(3)] add_objects_def c Let_def)
  qed
  have w: "\<exists>m3. PhCreateObjectTypeEx checked f1 f name 0 dp None m2 = Some (Inr (f, m3)) \<and> TypeIndex (Types m3 f) = 0 \<and>
      PhGetObjectType m3 f1 = Some f" if "\<not> checked" "length cs = 254"
  proof -
    have "unat (PhObjectTypeCount m2) = unat (256 :: ulong)" using z(4) that(2) by simp
    then have c: "PhObjectTypeCount m2 = 256" by (rule unsigned_word_eqI)
    have i: "(ucast (256 :: ulong) :: uchar) = 0" by simp
    show ?thesis
      using create_type_step [of 0 None m2 f1 f checked name dp] z h assms(3) that(1) unfolding c i
      by (auto simp: PhGetObjectType_def)
  qed
  show ?thesis
    using m1(1) m2 g a w by (intro exI [of _ m1] exI [of _ m2]) (simp add: table_ok_def)
qed

theorem PhCreateObjectType_table_witness:
  "\<exists>m1 m2. PhRefInitialization True 1 2 3
       \<lparr>Headers = (\<lambda>_. None), Types = (\<lambda>_. \<lparr>TypeFlags = 0, TypeIndex = 0, NumberOfObjects = 0, DeleteProcedure = False,
          TypeName = [], FreeList = PhInitializeFreeList 0 0\<rparr>), PhObjectTypeTable = replicate 256 0,
        PhObjectTypeCount = 0, PhObjectSmallFreeList = PhInitializeFreeList 0 0, PhObjectDeferDeleteListHead = 0\<rparr> =
       Some (Inr (2, 3, m1)) \<and>
     create_types True 2 (map (\<lambda>i. (i, ''Process'', 1, True, Some (100, 16))) [4..<257]) m1 = Some (Inr m2) \<and>
     PhCreateObjectTypeEx True 2 257 ''Thread'' 0 False None m2 = None"
proof -
  let ?m = "\<lparr>Headers = (\<lambda>_. None), Types = (\<lambda>_. \<lparr>TypeFlags = 0, TypeIndex = 0,
          NumberOfObjects = 0, DeleteProcedure = False,
          TypeName = [], FreeList = PhInitializeFreeList 0 0\<rparr>), PhObjectTypeTable = replicate 256 0,
        PhObjectTypeCount = 0, PhObjectSmallFreeList = PhInitializeFreeList 0 0, PhObjectDeferDeleteListHead = 0\<rparr>"
  let ?cs = "map (\<lambda>i. (i, ''Process'', 1, True, Some (100, 16))) [4..<257] :: type_parameters list"
  have l: "length ?cs = 253" by (simp del: upt_rec_numeral)
  have d: "distinct (1 # 2 # 3 # map fst ?cs @ [257])" by (simp add: comp_def del: upt_rec_numeral)
  have v: "\<forall>c\<in>set ?cs. valid_parameters c" by (simp add: valid_parameters_def del: upt_rec_numeral)
  have "length (PhObjectTypeTable ?m) = 256" "PhObjectTypeCount ?m = 0" "2 + length ?cs \<le> (if True then 255 else 256)"
    unfolding l by simp_all
  from PhCreateObjectType_table [OF this(1,2) d v this(3), of "''Thread''" False] l
  show ?thesis by blast
qed

end
