(* ===== verification/PhObjectSteps.thy ===== *)
theory PhObjectSteps
  imports PhObject
begin

text \<open>
  The object manager as a system of threads: \<open>PhReferenceObjectSafe\<close>, \<open>PhDereferenceObject\<close> and its variants,
  \<open>PhpFreeObject\<close>, \<open>PhpDeferDeleteObject\<close> and \<open>PhpDeferDeleteObjectRoutine\<close> of \<open>src/phlib/ref.c\<close>, interleaved at
  every access to memory that another thread can reach. What a thread does inside a delete procedure is done
  by another thread of the model while the first one waits in the procedure.
\<close>

section \<open>State\<close>

text \<open>
  The next action of a thread, with what it has read. \<open>Safe*\<close>: inside \<open>PhReferenceObjectSafe\<close>, called with the
  mutex that its remarks ask for; \<open>Free*\<close>: inside \<open>PhpFreeObject\<close>, whose last argument says whether it was called
  by \<open>PhpDeferDeleteObjectRoutine\<close> and with which entry that continues; \<open>Defer*\<close>: inside
  \<open>PhpDeferDeleteObject\<close>; \<open>Work*\<close>: inside \<open>PhpDeferDeleteObjectRoutine\<close>.
\<close>

datatype ob_pc =
    Idle
  | SafeRead nat | SafeCas nat ulong | SafeUnlock
  | FreeType nat "nat option" | FreeDelete nat nat "nat option" | FreeStorage nat nat "nat option"
  | DeferBit nat | DeferSavedType nat | DeferSavedFlags nat | DeferFirst nat | DeferPush nat nat | DeferQueue nat
  | WorkFlush | WorkLoop nat

text \<open>
  \<open>items\<close> counts the work items queued for \<open>PhpDeferDeleteObjectRoutine\<close> and not yet taken by a worker thread.
  \<open>mutex\<close> and \<open>registered\<close> are the program's: the objects that can be looked up, and the mutex that protects the
  lookup. The rest is bookkeeping that no action reads: the references the program owns, the type index and the
  flags an object was created with, how often a block became an object, its deletion was run, and its storage
  was released, whether the list of deferred deletions was found empty by a thread that had read it
  as not empty, and whether a header was accessed that is not there.
\<close>

record ob_state =
  manager :: object_manager
  pc :: "nat \<Rightarrow> ob_pc"
  items :: nat
  mutex :: "nat option"
  registered :: "nat list"
  held :: "nat \<Rightarrow> nat"
  born :: "nat \<Rightarrow> ushort \<times> uchar"
  creations :: "nat \<Rightarrow> nat"
  deletions :: "nat \<Rightarrow> nat"
  releases :: "nat \<Rightarrow> nat"
  raced :: bool
  fault :: bool

abbreviation goto :: "ob_state \<Rightarrow> nat \<Rightarrow> ob_pc \<Rightarrow> ob_state" where
  "goto s t p \<equiv> s\<lparr>pc := (pc s)(t := p)\<rparr>"

abbreviation header :: "ob_state \<Rightarrow> nat \<Rightarrow> PH_OBJECT_HEADER option" where
  "header s x \<equiv> Headers (manager s) x"

abbreviation put_header :: "ob_state \<Rightarrow> nat \<Rightarrow> PH_OBJECT_HEADER \<Rightarrow> ob_state" where
  "put_header s x h \<equiv> s\<lparr>manager := set_header (manager s) x h\<rparr>"

abbreviation list_head :: "ob_state \<Rightarrow> nat" where
  "list_head s \<equiv> PhObjectDeferDeleteListHead (manager s)"

definition at_header :: "ob_state \<Rightarrow> nat \<Rightarrow> (PH_OBJECT_HEADER \<Rightarrow> ob_state) \<Rightarrow> ob_state" where
  "at_header s x f = (case header s x of Some h \<Rightarrow> f h | None \<Rightarrow> s\<lparr>fault := True\<rparr>)"

section \<open>The actions inside the functions\<close>

text \<open>\<open>_InterlockedIncrementPositive\<close>: go on with the value read last.\<close>

definition safe_check :: "ob_state \<Rightarrow> nat \<Rightarrow> nat \<Rightarrow> ulong \<Rightarrow> ob_state" where
  "safe_check s t x value = goto s t (if positive value then SafeCas x value else SafeUnlock)"

definition PhReferenceObjectSafe :: "ob_state \<Rightarrow> nat \<Rightarrow> ob_state option" where
  "PhReferenceObjectSafe s t =
     (case pc s t of
        SafeRead x \<Rightarrow> Some (at_header s x (\<lambda>h. safe_check s t x (RefCount h)))
      | SafeCas x value \<Rightarrow>
          Some (at_header s x (\<lambda>h.
            if RefCount h = value
            then goto (put_header (s\<lparr>held := (held s)(x := held s x + 1)\<rparr>) x (h\<lparr>RefCount := value + 1\<rparr>)) t SafeUnlock
            else safe_check s t x (RefCount h)))
      | SafeUnlock \<Rightarrow> Some (goto (s\<lparr>mutex := None\<rparr>) t Idle)
      | _ \<Rightarrow> None)"

text \<open>
  \<open>PhpFreeObject\<close>. A delete procedure takes the mutex, makes the object unknown and releases the mutex.
\<close>

definition PhpFreeObject :: "ob_state \<Rightarrow> nat \<Rightarrow> ob_state option" where
  "PhpFreeObject s t =
     (case pc s t of
        FreeType x k \<Rightarrow>
          Some (case PhGetObjectType (manager s) x of
                  Some ty \<Rightarrow> goto (s\<lparr>manager := add_objects (manager s) ty (- 1)\<rparr>) t (FreeDelete x ty k)
                | None \<Rightarrow> s\<lparr>fault := True\<rparr>)
      | FreeDelete x ty k \<Rightarrow>
          let s' = goto (s\<lparr>deletions := (deletions s)(x := deletions s x + 1)\<rparr>) t (FreeStorage x ty k)
          in if DeleteProcedure (Types (manager s) ty)
             then if mutex s = None then Some (s'\<lparr>registered := removeAll x (registered s)\<rparr>) else None
             else Some s'
      | FreeStorage x ty k \<Rightarrow>
          Some (at_header s x (\<lambda>h.
            case First h of
              TypeFields ti fl \<Rightarrow>
                goto (s\<lparr>manager := free_storage (manager s) ty x fl, releases := (releases s)(x := releases s x + 1)\<rparr>) t
                  (case k of Some entry \<Rightarrow> WorkLoop entry | None \<Rightarrow> Idle)
            | DeferDeleteListEntry _ \<Rightarrow> s\<lparr>fault := True\<rparr>))
      | _ \<Rightarrow> None)"

text \<open>
  \<open>PhpDeferDeleteObject\<close>. The list is an \<open>SLIST_HEADER\<close>: \<open>RtlFirstEntrySList\<close> reads its first entry, and
  \<open>RtlInterlockedPushEntrySList\<close> links the entry to the first one and puts it in front, in one action.
\<close>

definition PhpDeferDeleteObject :: "ob_state \<Rightarrow> nat \<Rightarrow> ob_state option" where
  "PhpDeferDeleteObject s t =
     (case pc s t of
        DeferBit x \<Rightarrow>
          Some (at_header s x (\<lambda>h. goto (put_header s x (h\<lparr>RefCount := set_DeferDelete (RefCount h)\<rparr>)) t (DeferSavedType x)))
      | DeferSavedType x \<Rightarrow>
          Some (at_header s x (\<lambda>h.
            case First h of
              TypeFields ti fl \<Rightarrow>
                goto (put_header s x (h\<lparr>RefCount := set_SavedTypeIndex ti (RefCount h)\<rparr>)) t (DeferSavedFlags x)
            | DeferDeleteListEntry _ \<Rightarrow> s\<lparr>fault := True\<rparr>))
      | DeferSavedFlags x \<Rightarrow>
          Some (at_header s x (\<lambda>h.
            case First h of
              TypeFields ti fl \<Rightarrow>
                goto (put_header s x (h\<lparr>RefCount := set_SavedFlags fl (RefCount h)\<rparr>)) t (DeferFirst x)
            | DeferDeleteListEntry _ \<Rightarrow> s\<lparr>fault := True\<rparr>))
      | DeferFirst x \<Rightarrow> Some (goto s t (DeferPush x (list_head s)))
      | DeferPush x oldFirstEntry \<Rightarrow>
          Some (at_header s x (\<lambda>h.
            goto (s\<lparr>manager := (set_header (manager s) x (h\<lparr>First := DeferDeleteListEntry (list_head s)\<rparr>))
                                 \<lparr>PhObjectDeferDeleteListHead := x\<rparr>,
                    raced := (raced s \<or> oldFirstEntry \<noteq> 0 \<and> list_head s = 0)\<rparr>) t (DeferQueue oldFirstEntry)))
      | DeferQueue oldFirstEntry \<Rightarrow>
          Some (goto (if oldFirstEntry = 0 then s\<lparr>items := items s + 1\<rparr> else s) t Idle)
      | _ \<Rightarrow> None)"

text \<open>
  \<open>PhpDeferDeleteObjectRoutine\<close>: \<open>RtlInterlockedFlushSList\<close> takes the whole list. The entry is read before the
  type index and the flags are restored over it; the routine alone can reach the object.
\<close>

definition PhpDeferDeleteObjectRoutine :: "ob_state \<Rightarrow> nat \<Rightarrow> ob_state option" where
  "PhpDeferDeleteObjectRoutine s t =
     (case pc s t of
        WorkFlush \<Rightarrow>
          Some (goto (s\<lparr>manager := (manager s)\<lparr>PhObjectDeferDeleteListHead := 0\<rparr>\<rparr>) t (WorkLoop (list_head s)))
      | WorkLoop listEntry \<Rightarrow>
          Some (if listEntry = 0 then goto s t Idle
                else at_header s listEntry (\<lambda>h.
                  case First h of
                    DeferDeleteListEntry nextEntry \<Rightarrow>
                      goto (put_header s listEntry
                              (h\<lparr>First := TypeFields (SavedTypeIndex (RefCount h)) (SavedFlags (RefCount h))\<rparr>)) t
                        (FreeType listEntry (Some nextEntry))
                  | TypeFields _ _ \<Rightarrow> s\<lparr>fault := True\<rparr>))
      | _ \<Rightarrow> None)"

text \<open>The next action of a thread; \<open>None\<close> if it is outside the functions or blocked.\<close>

definition ob_run :: "ob_state \<Rightarrow> nat \<Rightarrow> ob_state option" where
  "ob_run s t =
     (case pc s t of
        Idle \<Rightarrow> None
      | SafeRead _ \<Rightarrow> PhReferenceObjectSafe s t
      | SafeCas _ _ \<Rightarrow> PhReferenceObjectSafe s t
      | SafeUnlock \<Rightarrow> PhReferenceObjectSafe s t
      | FreeType _ _ \<Rightarrow> PhpFreeObject s t
      | FreeDelete _ _ _ \<Rightarrow> PhpFreeObject s t
      | FreeStorage _ _ _ \<Rightarrow> PhpFreeObject s t
      | WorkFlush \<Rightarrow> PhpDeferDeleteObjectRoutine s t
      | WorkLoop _ \<Rightarrow> PhpDeferDeleteObjectRoutine s t
      | _ \<Rightarrow> PhpDeferDeleteObject s t)"

section \<open>The calls of the program\<close>

text \<open>
  A program that follows the rules: it references and dereferences an object only while it owns a reference,
  gives back no more than it owns, keeps fewer than \<open>2 ^ 31\<close> references to an object, the one that a lookup
  under way may add included, creates objects of types
  of the table, and looks up an object without owning a reference only under the mutex that the delete
  procedure of its type acquires. \<open>PhAllocate\<close> returns a block that is not in use.
\<close>

definition type_known :: "object_manager \<Rightarrow> nat \<Rightarrow> bool" where
  "type_known m ty \<longleftrightarrow> ty \<noteq> 0 \<and> ty \<in> set (PhObjectTypeTable m)"

definition unused :: "object_manager \<Rightarrow> nat \<Rightarrow> bool" where
  "unused m x \<longleftrightarrow>
     x \<noteq> 0 \<and> Headers m x = None \<and> x \<notin> set (ListHead (PhObjectSmallFreeList m)) \<and>
     (\<forall>ty\<in>set (PhObjectTypeTable m). x \<notin> set (ListHead (FreeList (Types m ty))))"

fun type_fields :: "header_word \<Rightarrow> ushort \<times> uchar" where
  "type_fields (TypeFields ti fl) = (ti, fl)"
| "type_fields (DeferDeleteListEntry _) = (0, 0)"

datatype ob_call =
    CreateObject nat ulong64 nat
  | ReferenceObject nat
  | ReferenceObjectEx nat ulong
  | ReferenceObjectSafe nat
  | DereferenceObject nat
  | DereferenceObjectEx nat ulong bool
  | Register nat
  | TakeItem

definition dereferenced :: "ob_state \<Rightarrow> nat \<Rightarrow> nat \<Rightarrow> nat \<Rightarrow> object_manager \<times> dereference \<Rightarrow> ob_state" where
  "dereferenced s t x n r =
     goto (s\<lparr>manager := fst r, held := (held s)(x := held s x - n)\<rparr>) t
       (case snd r of FreeObject \<Rightarrow> FreeType x None | DeferDelete \<Rightarrow> DeferBit x | _ \<Rightarrow> Idle)"

definition referenced :: "ob_state \<Rightarrow> nat \<Rightarrow> nat \<Rightarrow> object_manager option \<Rightarrow> ob_state" where
  "referenced s x n r =
     (case r of Some m \<Rightarrow> s\<lparr>manager := m, held := (held s)(x := held s x + n)\<rparr> | None \<Rightarrow> s\<lparr>fault := True\<rparr>)"

definition ob_call :: "ob_state \<Rightarrow> nat \<Rightarrow> ob_call \<Rightarrow> ob_state option" where
  "ob_call s t c =
     (if pc s t \<noteq> Idle then None else
      case c of
        CreateObject fresh sz ty \<Rightarrow>
          if unused (manager s) fresh \<and> type_known (manager s) ty then
            let (x, m) = PhCreateObject fresh sz ty (manager s)
            in Some (s\<lparr>manager := m, held := (held s)(x := 1), creations := (creations s)(x := creations s x + 1),
                       born := (born s)(x := type_fields (First (the (Headers m x))))\<rparr>)
          else None
      | ReferenceObject x \<Rightarrow>
          if 0 < held s x \<and> held s x + 1 < 2147483647
          then Some (referenced s x 1 (PhReferenceObject (manager s) x)) else None
      | ReferenceObjectEx x n \<Rightarrow>
          if 0 < held s x \<and> held s x + unat n < 2147483647
          then Some (referenced s x (unat n) (PhReferenceObjectEx (manager s) x n)) else None
      | ReferenceObjectSafe x \<Rightarrow>
          if mutex s = None \<and> x \<in> set (registered s) \<and> held s x < 2147483647
          then Some (goto (s\<lparr>mutex := Some t\<rparr>) t (SafeRead x)) else None
      | DereferenceObject x \<Rightarrow>
          if 0 < held s x
          then Some (case PhDereferenceObject (manager s) x of
                       Some r \<Rightarrow> dereferenced s t x 1 r | None \<Rightarrow> s\<lparr>fault := True\<rparr>) else None
      | DereferenceObjectEx x n defer \<Rightarrow>
          if 0 < held s x \<and> unat n \<le> held s x
          then Some (case PhDereferenceObjectEx (manager s) x n defer of
                       Some r \<Rightarrow> dereferenced s t x (unat n) r | None \<Rightarrow> s\<lparr>fault := True\<rparr>) else None
      | Register x \<Rightarrow>
          (case PhGetObjectType (manager s) x of
             Some ty \<Rightarrow>
               if 0 < held s x \<and> mutex s = None \<and> DeleteProcedure (Types (manager s) ty)
               then Some (s\<lparr>registered := x # registered s\<rparr>) else None
           | None \<Rightarrow> None)
      | TakeItem \<Rightarrow>
          if 0 < items s then Some (goto (s\<lparr>items := items s - 1\<rparr>) t WorkFlush) else None)"

inductive ob_step :: "ob_state \<Rightarrow> ob_state \<Rightarrow> bool" where
  call: "ob_call s t c = Some s' \<Longrightarrow> ob_step s s'"
| run: "ob_run s t = Some s' \<Longrightarrow> ob_step s s'"

inductive_cases ob_step_cases: "ob_step s s'"

definition initial :: "ob_state \<Rightarrow> bool" where
  "initial s \<longleftrightarrow>
     Headers (manager s) = (\<lambda>_. None) \<and> list_head s = 0 \<and> ListHead (PhObjectSmallFreeList (manager s)) = [] \<and>
     length (PhObjectTypeTable (manager s)) = PH_OBJECT_TYPE_TABLE_SIZE \<and>
     (\<forall>i<PH_OBJECT_TYPE_TABLE_SIZE.
        let ty = PhObjectTypeTable (manager s) ! i
        in ty \<noteq> 0 \<longrightarrow> unat (TypeIndex (Types (manager s) ty)) = i \<and> ListHead (FreeList (Types (manager s) ty)) = []) \<and>
     pc s = (\<lambda>_. Idle) \<and> items s = 0 \<and> mutex s = None \<and> registered s = [] \<and> held s = (\<lambda>_. 0) \<and>
     creations s = (\<lambda>_. 0) \<and> deletions s = (\<lambda>_. 0) \<and> releases s = (\<lambda>_. 0) \<and> \<not> raced s \<and> \<not> fault s"

abbreviation ob_reachable :: "ob_state \<Rightarrow> bool" where
  "ob_reachable s \<equiv> \<exists>s\<^sub>0. initial s\<^sub>0 \<and> ob_step\<^sup>*\<^sup>* s\<^sub>0 s"

end
