(* ===== verification/PhObjectCorrect.thy ===== *)
theory PhObjectCorrect
  imports PhObjectSteps
begin

text \<open>
  What the object manager keeps under every interleaving: who may touch an object whose count has reached zero,
  and how the count of the others agrees with the references the program owns. Then the deferred deletions:
  when they are carried out, and the interleaving after which none is carried out any more.
\<close>

section \<open>Invariant of the headers\<close>

type_synonym heads = "nat \<Rightarrow> PH_OBJECT_HEADER option"
type_synonym origin = "nat \<Rightarrow> ushort \<times> uchar"

definition saved_word :: "ushort \<times> uchar \<Rightarrow> ulong" where
  "saved_word f = set_SavedFlags (snd f) (set_SavedTypeIndex (fst f) (set_DeferDelete 0))"

abbreviation fields_of :: "ushort \<times> uchar \<Rightarrow> header_word" where
  "fields_of f \<equiv> TypeFields (fst f) (snd f)"

text \<open>The objects with no reference left.\<close>

definition dying :: "heads \<Rightarrow> nat set" where
  "dying H = {x. \<exists>h. H x = Some h \<and> \<not> positive (RefCount h)}"

text \<open>The chain of list entries from an address on.\<close>

fun chained :: "heads \<Rightarrow> origin \<Rightarrow> nat \<Rightarrow> nat list \<Rightarrow> bool" where
  "chained H b e [] \<longleftrightarrow> e = 0"
| "chained H b e (x # xs) \<longleftrightarrow>
     e = x \<and> x \<noteq> 0 \<and>
     (\<exists>n. H x = Some \<lparr>First = DeferDeleteListEntry n, RefCount = saved_word (b x)\<rparr> \<and> chained H b n xs)"

definition restored :: "heads \<Rightarrow> origin \<Rightarrow> nat \<Rightarrow> bool" where
  "restored H b x \<longleftrightarrow> (\<exists>r. H x = Some \<lparr>First = fields_of (b x), RefCount = r\<rparr> \<and> \<not> positive r)"

definition counted :: "heads \<Rightarrow> origin \<Rightarrow> nat \<Rightarrow> ulong \<Rightarrow> bool" where
  "counted H b x r \<longleftrightarrow> H x = Some \<lparr>First = fields_of (b x), RefCount = r\<rparr>"

fun continues :: "heads \<Rightarrow> origin \<Rightarrow> nat option \<Rightarrow> nat list \<Rightarrow> bool" where
  "continues H b None xs \<longleftrightarrow> xs = []"
| "continues H b (Some e) xs \<longleftrightarrow> chained H b e xs"

text \<open>\<open>xs\<close> are the dying objects that only the thread can reach; \<open>T\<close> is the table of types.\<close>

fun thread_ok :: "nat list \<Rightarrow> heads \<Rightarrow> origin \<Rightarrow> ob_pc \<Rightarrow> nat list \<Rightarrow> bool" where
  "thread_ok T H b (FreeType x k) xs \<longleftrightarrow> (\<exists>ys. xs = x # ys \<and> restored H b x \<and> continues H b k ys)"
| "thread_ok T H b (FreeDelete x ty k) xs \<longleftrightarrow>
     (\<exists>ys. xs = x # ys \<and> restored H b x \<and> continues H b k ys) \<and> ty = T ! unat (fst (b x))"
| "thread_ok T H b (FreeStorage x ty k) xs \<longleftrightarrow>
     (\<exists>ys. xs = x # ys \<and> restored H b x \<and> continues H b k ys) \<and> ty = T ! unat (fst (b x))"
| "thread_ok T H b (DeferBit x) xs \<longleftrightarrow> xs = [x] \<and> counted H b x 0"
| "thread_ok T H b (DeferSavedType x) xs \<longleftrightarrow> xs = [x] \<and> counted H b x (set_DeferDelete 0)"
| "thread_ok T H b (DeferSavedFlags x) xs \<longleftrightarrow>
     xs = [x] \<and> counted H b x (set_SavedTypeIndex (fst (b x)) (set_DeferDelete 0))"
| "thread_ok T H b (DeferFirst x) xs \<longleftrightarrow> xs = [x] \<and> counted H b x (saved_word (b x))"
| "thread_ok T H b (DeferPush x old) xs \<longleftrightarrow> xs = [x] \<and> counted H b x (saved_word (b x))"
| "thread_ok T H b (WorkLoop e) xs \<longleftrightarrow> chained H b e xs"
| "thread_ok T H b Idle xs \<longleftrightarrow> xs = []"
| "thread_ok T H b (SafeRead _) xs \<longleftrightarrow> xs = []"
| "thread_ok T H b (SafeCas _ value) xs \<longleftrightarrow> xs = [] \<and> positive value"
| "thread_ok T H b SafeUnlock xs \<longleftrightarrow> xs = []"
| "thread_ok T H b (DeferQueue _) xs \<longleftrightarrow> xs = []"
| "thread_ok T H b WorkFlush xs \<longleftrightarrow> xs = []"

text \<open>
  \<open>cl None\<close> are the objects on the list of deferred deletions, \<open>cl (Some t)\<close> those of the thread \<open>t\<close>.
\<close>

definition claims_ok :: "heads \<Rightarrow> (nat option \<Rightarrow> nat list) \<Rightarrow> bool" where
  "claims_ok H cl \<longleftrightarrow>
     (\<forall>p. distinct (cl p)) \<and> (\<forall>p q. p \<noteq> q \<longrightarrow> set (cl p) \<inter> set (cl q) = {}) \<and>
     (\<forall>x. x \<in> dying H \<longleftrightarrow> (\<exists>p. x \<in> set (cl p)))"

definition entry_ok :: "PH_OBJECT_HEADER option \<Rightarrow> ushort \<times> uchar \<Rightarrow> nat \<Rightarrow> bool" where
  "entry_ok e f n \<longleftrightarrow>
     (case e of
        Some h \<Rightarrow> if positive (RefCount h) then n = unat (RefCount h) \<and> First h = fields_of f else n = 0
      | None \<Rightarrow> n = 0)"

definition ledger_ok :: "heads \<Rightarrow> origin \<Rightarrow> (nat \<Rightarrow> nat) \<Rightarrow> bool" where
  "ledger_ok H b r \<longleftrightarrow> (\<forall>x. entry_ok (H x) (b x) (r x))"

lemma entry_ok_simps [simp]:
  "entry_ok None f n \<longleftrightarrow> n = 0"
  "positive (RefCount h) \<Longrightarrow> entry_ok (Some h) f n \<longleftrightarrow> n = unat (RefCount h) \<and> First h = fields_of f"
  "\<not> positive (RefCount h) \<Longrightarrow> entry_ok (Some h) f n \<longleftrightarrow> n = 0"
  by (auto simp: entry_ok_def)

lemma ledger_upd:
  "ledger_ok H b r \<Longrightarrow> entry_ok e (b' x) n \<Longrightarrow> (\<And>y. y \<noteq> x \<Longrightarrow> b' y = b y) \<Longrightarrow> ledger_ok (H(x := e)) b' (r(x := n))"
  by (simp add: ledger_ok_def)

lemma ledger_dead:
  assumes "ledger_ok H b r" and "H x = Some g" and "\<not> positive (RefCount g)" and "e = None \<or> (\<exists>h. e = Some h \<and> \<not> positive (RefCount h))"
  shows "ledger_ok (H(x := e)) b r"
proof -
  have "entry_ok (H x) (b x) (r x)" using assms(1) by (simp add: ledger_ok_def)
  then have "r x = 0" using assms(2,3) by simp
  moreover have "entry_ok e (b x) 0" using assms(4) by auto
  ultimately show ?thesis using ledger_upd [OF assms(1), of e b x 0] by (simp add: fun_upd_idem)
qed

definition heads_ok ::
  "nat list \<Rightarrow> heads \<Rightarrow> origin \<Rightarrow> (nat \<Rightarrow> nat) \<Rightarrow> nat \<Rightarrow> (nat \<Rightarrow> ob_pc) \<Rightarrow> (nat option \<Rightarrow> nat list) \<Rightarrow> bool"
where
  "heads_ok T H b r e pcs cl \<longleftrightarrow>
     H 0 = None \<and> claims_ok H cl \<and> ledger_ok H b r \<and> chained H b e (cl None) \<and>
     (\<forall>t. thread_ok T H b (pcs t) (cl (Some t)))"

lemma chained_frame:
  "chained H b e xs \<Longrightarrow> (\<And>x. x \<in> set xs \<Longrightarrow> H' x = H x \<and> b' x = b x) \<Longrightarrow> chained H' b' e xs"
  by (induction xs arbitrary: e) (fastforce)+

lemma continues_frame:
  "continues H b k xs \<Longrightarrow> (\<And>x. x \<in> set xs \<Longrightarrow> H' x = H x \<and> b' x = b x) \<Longrightarrow> continues H' b' k xs"
  by (cases k) (auto intro: chained_frame)

lemma thread_ok_frame:
  assumes "thread_ok T H b p xs" and "\<And>x. x \<in> set xs \<Longrightarrow> H' x = H x \<and> b' x = b x"
  shows "thread_ok T H' b' p xs"
  using assms
  by (cases p) (auto simp: restored_def counted_def elim!: chained_frame continues_frame)

lemma heads_okD:
  assumes "heads_ok T H b r e pcs cl"
  shows "H 0 = None" and "claims_ok H cl" and "ledger_ok H b r" and "chained H b e (cl None)"
    and "thread_ok T H b (pcs t) (cl (Some t))"
  using assms by (simp_all add: heads_ok_def)

lemma claims_apart:
  "claims_ok H cl \<Longrightarrow> x \<in> set (cl p) \<Longrightarrow> q \<noteq> p \<Longrightarrow> x \<notin> set (cl q)"
  by (auto simp: claims_ok_def)

lemma claimed_dying: "claims_ok H cl \<Longrightarrow> x \<in> set (cl p) \<Longrightarrow> \<exists>h. H x = Some h \<and> \<not> positive (RefCount h)"
  by (auto simp: claims_ok_def dying_def)

lemma not_dying_claimed: "claims_ok H cl \<Longrightarrow> x \<notin> dying H \<Longrightarrow> x \<notin> set (cl p)"
  by (auto simp: claims_ok_def)

lemma ledgerD:
  "ledger_ok H b r \<Longrightarrow> 0 < r x \<Longrightarrow>
     \<exists>h. H x = Some h \<and> positive (RefCount h) \<and> r x = unat (RefCount h) \<and> First h = fields_of (b x)"
  unfolding ledger_ok_def entry_ok_def by (drule spec [of _ x]) (auto split: option.splits if_splits)

text \<open>A thread moves on, perhaps with a change of the objects that are its own.\<close>

lemma heads_ok_move:
  assumes ok: "heads_ok T H b r e pcs cl" and "thread_ok T H b p (cl (Some t))"
  shows "heads_ok T H b r e (pcs(t := p)) cl"
  using assms by (auto simp: heads_ok_def)

lemma heads_ok_own:
  assumes ok: "heads_ok T H b r e pcs cl" and x: "x \<in> set (cl (Some t))" and h: "\<not> positive (RefCount h)"
    and p: "thread_ok T (H(x := Some h)) b p (cl (Some t))"
  shows "heads_ok T (H(x := Some h)) b r e (pcs(t := p)) cl"
proof -
  note D = heads_okD [OF ok]
  have other: "y \<noteq> x" if "y \<in> set (cl q)" "q \<noteq> Some t" for y q
    using claims_apart [OF D(2) x that(2)] that(1) by blast
  obtain g where g: "H x = Some g" "\<not> positive (RefCount g)" using claimed_dying [OF D(2) x] by blast
  have "dying (H(x := Some h)) = dying H" using g h by (auto simp: dying_def)
  then have "claims_ok (H(x := Some h)) cl" using D(2) by (simp add: claims_ok_def)
  moreover have "ledger_ok (H(x := Some h)) b r"
    by (rule ledger_dead [OF D(3) g]) (use h in auto)
  moreover have "chained (H(x := Some h)) b e (cl None)"
    by (rule chained_frame [OF D(4)]) (use other in auto)
  moreover have "thread_ok T (H(x := Some h)) b ((pcs(t := p)) u) (cl (Some u))" for u
    using p by (cases "u = t") (auto intro!: thread_ok_frame [OF D(5)] dest: other)
  moreover have "x \<noteq> 0" using D(1) g(1) by (metis option.distinct(1))
  ultimately show ?thesis using D(1) by (simp add: heads_ok_def)
qed

text \<open>A change of the claims of one place, or of two, for given sets of dying objects.\<close>

lemma claims_add:
  assumes "claims_ok H cl" and "cl p = []" and "x \<notin> dying H" and "dying H' = insert x (dying H)"
  shows "claims_ok H' (cl(p := [x]))"
proof -
  have n: "\<forall>q. x \<notin> set (cl q)" using assms(1,3) by (auto simp: claims_ok_def)
  have d: "y \<in> dying H' \<longleftrightarrow> y = x \<or> (\<exists>q. y \<in> set (cl q))" for y
    using assms(1,4) by (auto simp: claims_ok_def)
  have "y \<in> dying H' \<longleftrightarrow> (\<exists>q. y \<in> set ((cl(p := [x])) q))" for y
    unfolding d using assms(2) by (metis fun_upd_apply list.set(1) empty_iff list.set_intros(1) set_ConsD)
  then show ?thesis
    using assms(1) n by (simp add: claims_ok_def)
qed

lemma claims_move:
  assumes "claims_ok H cl" and "cl p = xs @ ys" and "cl q = zs" and "p \<noteq> q"
  shows "claims_ok H (cl(p := ys, q := xs @ zs))"
proof -
  let ?cl = "cl(p := ys, q := xs @ zs)"
  have D: "\<forall>p. distinct (cl p)" "\<forall>p q. p \<noteq> q \<longrightarrow> set (cl p) \<inter> set (cl q) = {}"
      "\<forall>x. x \<in> dying H \<longleftrightarrow> (\<exists>p. x \<in> set (cl p))"
    using assms(1) by (simp_all add: claims_ok_def)
  have pq: "set (cl p) \<inter> set (cl q) = {}" and dp: "distinct (cl p)" and dq: "distinct (cl q)"
    using D assms(4) by blast+
  have "distinct (?cl u)" for u
    using D(1) pq dp dq assms(2-4) by auto
  moreover have "set (?cl u) \<inter> set (?cl v) = {}" if "u \<noteq> v" for u v
  proof -
    have a: "set (cl w) \<inter> set (cl w') = {}" if "w \<noteq> w'" for w w' using D(2) that by blast
    show ?thesis
      using a [OF that] a [of u p] a [of u q] a [of v p] a [of v q] dp that assms(2-4)
      by (auto split: if_splits)
  qed
  moreover have "(\<exists>u. x \<in> set (?cl u)) \<longleftrightarrow> (\<exists>u. x \<in> set (cl u))" for x
  proof
    assume "\<exists>u. x \<in> set (?cl u)"
    then obtain u where "x \<in> set (?cl u)" ..
    then have "x \<in> set (cl p) \<or> x \<in> set (cl q) \<or> x \<in> set (cl u)"
      using assms(2-4) by (auto split: if_splits)
    then show "\<exists>u. x \<in> set (cl u)" by blast
  next
    assume "\<exists>u. x \<in> set (cl u)"
    then obtain u where u: "x \<in> set (cl u)" ..
    show "\<exists>u. x \<in> set (?cl u)"
    proof (cases "u = p \<and> x \<in> set ys")
      case True
      then show ?thesis using assms(4) by (intro exI [of _ p]) simp
    next
      case False
      then have "x \<in> set (?cl (if u = p then q else u))"
        using u assms(2-4) by auto
      then show ?thesis ..
    qed
  qed
  ultimately show ?thesis using D(3) by (simp add: claims_ok_def)
qed

lemma claims_drop:
  assumes "claims_ok H cl" and "cl p = x # ys" and "dying H' = dying H - {x}"
  shows "claims_ok H' (cl(p := ys))"
proof -
  have D: "\<forall>p. distinct (cl p)" "\<forall>p q. p \<noteq> q \<longrightarrow> set (cl p) \<inter> set (cl q) = {}"
      "\<forall>x. x \<in> dying H \<longleftrightarrow> (\<exists>p. x \<in> set (cl p))"
    using assms(1) by (simp_all add: claims_ok_def)
  have xs: "x \<notin> set ys" "distinct ys" using D(1) assms(2) by (metis distinct.simps(2))+
  have other: "set (cl q) \<inter> insert x (set ys) = {}" if "q \<noteq> p" for q
    using D(2) that assms(2) by (metis list.simps(15))
  have "z \<in> dying H' \<longleftrightarrow> (\<exists>q. z \<in> set ((cl(p := ys)) q))" for z
  proof
    assume "z \<in> dying H'"
    then obtain q where "z \<in> set (cl q)" "z \<noteq> x" using D(3) assms(3) by auto
    then have "z \<in> set ((cl(p := ys)) q)" using assms(2) by auto
    then show "\<exists>q. z \<in> set ((cl(p := ys)) q)" ..
  next
    assume "\<exists>q. z \<in> set ((cl(p := ys)) q)"
    then obtain q where "z \<in> set ((cl(p := ys)) q)" ..
    then have "z \<in> set (cl q)" "z \<noteq> x" using xs other [of q] assms(2) by (auto split: if_splits)
    then show "z \<in> dying H'" using D(3) assms(3) by auto
  qed
  moreover have "set ((cl(p := ys)) u) \<inter> set ((cl(p := ys)) v) = {}" if "u \<noteq> v" for u v
    using D(2) that other [of u] other [of v] by auto
  ultimately show ?thesis using D(1) xs by (simp add: claims_ok_def)
qed

lemma heads_ok_push:
  assumes ok: "heads_ok T H b r e pcs cl" and t: "pcs t = DeferPush x old"
    and h: "H x = Some h"
  shows "heads_ok T (H(x := Some (h\<lparr>First := DeferDeleteListEntry e\<rparr>))) b r x (pcs(t := DeferQueue old))
           (cl(Some t := [], None := [x] @ cl None))"
proof -
  note D = heads_okD [OF ok]
  let ?H = "H(x := Some (h\<lparr>First := DeferDeleteListEntry e\<rparr>))"
  have c: "cl (Some t) = [x]" "counted H b x (saved_word (b x))" using D(5) [of t] t by simp_all
  have rc: "RefCount h = saved_word (b x)" using c(2) h by (auto simp: counted_def)
  have np: "\<not> positive (RefCount h)" using saved_fields(3) by (simp add: rc saved_word_def)
  have other: "y \<noteq> x" if "y \<in> set (cl q)" "q \<noteq> Some t" for y q
    using claims_apart [OF D(2) _ that(2), of x] c(1) that(1) by auto
  have x0: "x \<noteq> 0" using D(1) h by (metis option.distinct(1))
  have "dying ?H = dying H" using np h by (auto simp: dying_def)
  then have "claims_ok ?H cl" using D(2) by (simp add: claims_ok_def)
  then have "claims_ok ?H (cl(Some t := [], None := [x] @ cl None))"
    by (rule claims_move) (simp_all add: c)
  moreover have "ledger_ok ?H b r"
    by (rule ledger_dead [OF D(3) h np]) (use np in auto)
  moreover have "chained ?H b x ([x] @ cl None)"
  proof -
    have "chained ?H b e (cl None)" by (rule chained_frame [OF D(4)]) (use other in auto)
    moreover have "h\<lparr>First := DeferDeleteListEntry e\<rparr> = \<lparr>First = DeferDeleteListEntry e, RefCount = saved_word (b x)\<rparr>"
      using rc by (cases h) simp
    ultimately show ?thesis using x0 by simp
  qed
  moreover have "thread_ok T ?H b ((pcs(t := DeferQueue old)) u) ((cl(Some t := [], None := [x] @ cl None)) (Some u))" for u
    by (cases "u = t") (auto intro!: thread_ok_frame [OF D(5)] dest: other)
  ultimately show ?thesis using D(1) x0 by (simp add: heads_ok_def)
qed

lemma heads_ok_flush:
  assumes ok: "heads_ok T H b r e pcs cl" and t: "cl (Some t) = []"
  shows "heads_ok T H b r 0 (pcs(t := WorkLoop e)) (cl(None := [], Some t := cl None @ cl (Some t)))"
proof -
  note D = heads_okD [OF ok]
  have "claims_ok H (cl(None := [], Some t := cl None @ cl (Some t)))"
    by (rule claims_move [OF D(2)]) simp_all
  then show ?thesis
    using D(1,3,4,5) t by (auto simp: heads_ok_def)
qed

lemma heads_ok_release:
  assumes ok: "heads_ok T H b r e pcs cl" and c: "cl (Some t) = x # ys"
    and p: "thread_ok T H b p ys"
  shows "heads_ok T (H(x := None)) b r e (pcs(t := p)) (cl(Some t := ys))"
proof -
  note D = heads_okD [OF ok]
  have other: "y \<noteq> x" if "y \<in> set (cl q)" "q \<noteq> Some t" for y q
    using claims_apart [OF D(2) _ that(2), of x] c(1) that(1) by auto
  have ys: "x \<notin> set ys" using D(2) c by (metis claims_ok_def distinct.simps(2))
  obtain g where g: "H x = Some g" "\<not> positive (RefCount g)"
    using claimed_dying [OF D(2), of x "Some t"] c by auto
  have "dying (H(x := None)) = dying H - {x}" by (auto simp: dying_def)
  then have "claims_ok (H(x := None)) (cl(Some t := ys))" by (rule claims_drop [OF D(2) c])
  moreover have "ledger_ok (H(x := None)) b r"
    by (rule ledger_dead [OF D(3) g]) simp
  moreover have "chained (H(x := None)) b e (cl None)"
    by (rule chained_frame [OF D(4)]) (use other in auto)
  moreover have "thread_ok T (H(x := None)) b ((pcs(t := p)) u) ((cl(Some t := ys)) (Some u))" for u
    using ys by (cases "u = t") (auto intro!: thread_ok_frame [OF D(5)] thread_ok_frame [OF p] dest: other)
  ultimately show ?thesis using D(1) by (simp add: heads_ok_def)
qed

text \<open>The count of an object that stays referenced, the last reference, and a new object.\<close>

lemma heads_ok_alive:
  assumes ok: "heads_ok T H b r e pcs cl" and x: "x \<notin> dying H" "x \<noteq> 0"
    and h: "positive (RefCount h)" "First h = fields_of (b' x)" and b: "\<And>y. y \<noteq> x \<Longrightarrow> b' y = b y"
  shows "heads_ok T (H(x := Some h)) b' (r(x := unat (RefCount h))) e pcs cl"
proof -
  note D = heads_okD [OF ok]
  have other: "y \<noteq> x" if "y \<in> set (cl q)" for y q
    using not_dying_claimed [OF D(2) x(1)] that by blast
  have "dying (H(x := Some h)) = dying H" using x h by (auto simp: dying_def)
  then have "claims_ok (H(x := Some h)) cl" using D(2) by (simp add: claims_ok_def)
  moreover have "ledger_ok (H(x := Some h)) b' (r(x := unat (RefCount h)))"
    by (rule ledger_upd [OF D(3)]) (use h b in auto)
  moreover have "chained (H(x := Some h)) b' e (cl None)"
    by (rule chained_frame [OF D(4)]) (use other b in auto)
  moreover have "thread_ok T (H(x := Some h)) b' (pcs u) (cl (Some u))" for u
    by (rule thread_ok_frame [OF D(5)]) (use other b in auto)
  ultimately show ?thesis using D(1) x by (simp add: heads_ok_def)
qed

lemma heads_ok_zero:
  assumes ok: "heads_ok T H b r e pcs cl" and h: "H x = Some h" "positive (RefCount h)"
    and t: "cl (Some t) = []" and p: "p = FreeType x None \<or> p = DeferBit x"
  shows "heads_ok T (H(x := Some (h\<lparr>RefCount := 0\<rparr>))) b (r(x := 0)) e (pcs(t := p)) (cl(Some t := [x]))"
proof -
  note D = heads_okD [OF ok]
  let ?H = "H(x := Some (h\<lparr>RefCount := 0\<rparr>))"
  have x: "x \<notin> dying H" using h by (auto simp: dying_def)
  have x0: "x \<noteq> 0" using h(1) D(1) by (metis option.distinct(1))
  have other: "y \<noteq> x" if "y \<in> set (cl q)" for y q
    using not_dying_claimed [OF D(2) x] that by blast
  have "entry_ok (H x) (b x) (r x)" using D(3) by (simp add: ledger_ok_def)
  then have f: "First h = fields_of (b x)" using h by simp
  have hx: "?H x = Some \<lparr>First = fields_of (b x), RefCount = 0\<rparr>" using f by (cases h) simp
  have "dying ?H = insert x (dying H)" by (auto simp: dying_def)
  then have "claims_ok ?H (cl(Some t := [x]))" by (rule claims_add [OF D(2) t x])
  moreover have "ledger_ok ?H b (r(x := 0))"
    by (rule ledger_upd [OF D(3)]) simp_all
  moreover have "chained ?H b e (cl None)"
    by (rule chained_frame [OF D(4)]) (use other in auto)
  moreover have "thread_ok T ?H b ((pcs(t := p)) u) ((cl(Some t := [x])) (Some u))" for u
  proof (cases "u = t")
    case True
    with p hx show ?thesis by (auto simp: restored_def counted_def)
  next
    case False
    then show ?thesis using thread_ok_frame [OF D(5) [of u], of ?H b] other by auto
  qed
  ultimately show ?thesis using D(1) x0 by (simp add: heads_ok_def)
qed

section \<open>Invariant of the storage\<close>

text \<open>The blocks on the free list of small objects, and on that of a type.\<close>

definition blocks :: "nat list \<Rightarrow> (nat \<Rightarrow> PH_OBJECT_TYPE) \<Rightarrow> nat list \<Rightarrow> nat option \<Rightarrow> nat list" where
  "blocks T S small p =
     (case p of
        None \<Rightarrow> small
      | Some ty \<Rightarrow> if ty \<noteq> 0 \<and> ty \<in> set T then ListHead (FreeList (S ty)) else [])"

definition blocks_ok :: "heads \<Rightarrow> (nat option \<Rightarrow> nat list) \<Rightarrow> bool" where
  "blocks_ok H B \<longleftrightarrow>
     (\<forall>p. distinct (B p)) \<and> (\<forall>p q. p \<noteq> q \<longrightarrow> set (B p) \<inter> set (B q) = {}) \<and>
     (\<forall>p. \<forall>x\<in>set (B p). H x = None \<and> x \<noteq> 0)"

definition types_ok :: "nat list \<Rightarrow> (nat \<Rightarrow> PH_OBJECT_TYPE) \<Rightarrow> bool" where
  "types_ok T S \<longleftrightarrow>
     length T = PH_OBJECT_TYPE_TABLE_SIZE \<and>
     (\<forall>i<PH_OBJECT_TYPE_TABLE_SIZE. T ! i \<noteq> 0 \<longrightarrow> unat (TypeIndex (S (T ! i))) = i)"

definition typed :: "nat list \<Rightarrow> ushort \<times> uchar \<Rightarrow> bool" where
  "typed T f \<longleftrightarrow> unat (fst f) < PH_OBJECT_TYPE_TABLE_SIZE \<and> T ! unat (fst f) \<noteq> 0"

definition storage_ok :: "object_manager \<Rightarrow> origin \<Rightarrow> bool" where
  "storage_ok m b \<longleftrightarrow>
     types_ok (PhObjectTypeTable m) (Types m) \<and>
     blocks_ok (Headers m) (blocks (PhObjectTypeTable m) (Types m) (ListHead (PhObjectSmallFreeList m))) \<and>
     (\<forall>x. Headers m x \<noteq> None \<longrightarrow> typed (PhObjectTypeTable m) (b x))"

lemma storage_okD:
  assumes "storage_ok m b"
  shows "types_ok (PhObjectTypeTable m) (Types m)"
    and "blocks_ok (Headers m) (blocks (PhObjectTypeTable m) (Types m) (ListHead (PhObjectSmallFreeList m)))"
    and "Headers m x \<noteq> None \<Longrightarrow> typed (PhObjectTypeTable m) (b x)"
  using assms by (auto simp: storage_ok_def)

lemma blocks_ok_free:
  "blocks_ok H B \<Longrightarrow> blocks_ok (H(x := None)) B"
  by (auto simp: blocks_ok_def)

lemma blocks_ok_push:
  assumes B: "blocks_ok H B" and x: "H x = Some h" "x \<noteq> 0"
  shows "blocks_ok (H(x := None)) (B(p := x # B p))"
proof -
  have "x \<notin> set (B q)" for q using B x by (auto simp: blocks_ok_def)
  then show ?thesis using B x unfolding blocks_ok_def by (auto split: if_splits)
qed

lemma blocks_ok_pop:
  assumes B: "blocks_ok H B" and x: "B p = x # ys"
  shows "blocks_ok (H(x := Some h)) (B(p := ys))"
proof -
  have D: "distinct (B q)" "\<forall>z\<in>set (B q). H z = None \<and> z \<noteq> 0" for q
    using B by (auto simp: blocks_ok_def)
  have a: "set (B q) \<inter> set (B q') = {}" if "q \<noteq> q'" for q q'
    using B that unfolding blocks_ok_def by blast
  have n: "x \<notin> set ys" "x \<notin> set (B q)" if "q \<noteq> p" for q
    using D(1) [of p] a [OF that] x by auto
  have n': "x \<notin> set ys" using D(1) [of p] x by simp
  have "distinct ((B(p := ys)) q)" for q using D(1) [of p] D(1) [of q] x by simp
  moreover have "set ((B(p := ys)) q) \<inter> set ((B(p := ys)) q') = {}" if "q \<noteq> q'" for q q'
    using a [OF that] that x by auto
  moreover have "\<forall>z\<in>set ((B(p := ys)) q). (H(x := Some h)) z = None \<and> z \<noteq> 0" for q
    using D(2) [of p] D(2) [of q] n n' x by (cases "q = p") auto
  ultimately show ?thesis unfolding blocks_ok_def by blast
qed

lemma blocks_ok_take:
  "blocks_ok H B \<Longrightarrow> \<forall>p. x \<notin> set (B p) \<Longrightarrow> blocks_ok (H(x := Some h)) B"
  by (auto simp: blocks_ok_def)

lemma unused_blocks:
  "unused m x \<Longrightarrow> x \<notin> set (blocks (PhObjectTypeTable m) (Types m) (ListHead (PhObjectSmallFreeList m)) p)"
  by (cases p) (auto simp: unused_def blocks_def)

lemma blocks_type:
  "ty \<noteq> 0 \<Longrightarrow> ty \<in> set T \<Longrightarrow> blocks T (S(ty := d)) small = (blocks T S small)(Some ty := ListHead (FreeList d))"
  by (auto simp: blocks_def fun_eq_iff split: option.splits)

lemma blocks_small: "blocks T S small' = (blocks T S small)(None := small')"
  by (rule ext) (simp add: blocks_def split: option.split)

lemma blocks_same:
  "ListHead (FreeList d) = ListHead (FreeList (S ty)) \<Longrightarrow> blocks T (S(ty := d)) small = blocks T S small"
  by (auto simp: blocks_def fun_eq_iff split: option.splits)

lemma types_ok_upd:
  assumes "TypeIndex d = TypeIndex (S ty)"
  shows "types_ok T (S(ty := d)) = types_ok T S"
proof -
  have "TypeIndex ((S(ty := d)) y) = TypeIndex (S y)" for y using assms by simp
  then show ?thesis by (simp only: types_ok_def)
qed

lemma typed_known: "types_ok T S \<Longrightarrow> typed T f \<Longrightarrow> T ! unat (fst f) \<noteq> 0 \<and> T ! unat (fst f) \<in> set T"
  by (auto simp: typed_def types_ok_def)

lemma known_typed:
  assumes "types_ok T S" and "ty \<noteq> 0" "ty \<in> set T"
  shows "typed T (ucast (TypeIndex (S ty)), fl)" and "T ! unat (ucast (TypeIndex (S ty)) :: ushort) = ty"
proof -
  obtain i where i: "i < length T" "T ! i = ty"
    using assms(3) by (auto simp: in_set_conv_nth)
  then have n: "unat (TypeIndex (S ty)) = i" "i < 256"
    using assms by (auto simp: types_ok_def)
  have "unat (ucast (TypeIndex (S ty)) :: ushort) = unat (TypeIndex (S ty))"
    using unat_uchar_less [of "TypeIndex (S ty)"] by (simp add: unsigned_ucast_eq take_bit_nat_eq_self)
  then show "typed T (ucast (TypeIndex (S ty)), fl)" and "T ! unat (ucast (TypeIndex (S ty)) :: ushort) = ty"
    using i n assms(2) by (simp_all add: typed_def)
qed

lemma storage_ok_add_objects:
  "storage_ok m b \<Longrightarrow> storage_ok (add_objects m ty n) b"
  by (simp add: storage_ok_def add_objects_def types_ok_upd blocks_same)

lemma storage_ok_header:
  assumes "storage_ok m b" and "Headers m x = Some g"
  shows "storage_ok (set_header m x h) b"
  using assms by (auto simp: storage_ok_def blocks_ok_def)

lemma free_list_push: "\<exists>ys. (ys = ListHead fl \<or> ys = x # ListHead fl) \<and> ListHead (PhFreeToFreeList x fl) = ys"
  by (simp add: PhFreeToFreeList_def)

lemma storage_ok_free_storage:
  assumes ok: "storage_ok m b" and x: "Headers m x = Some h" "x \<noteq> 0" and ty: "type_known m ty"
  shows "storage_ok (free_storage m ty x fl) b"
proof -
  let ?B = "blocks (PhObjectTypeTable m) (Types m) (ListHead (PhObjectSmallFreeList m))"
  note B = storage_okD(2) [OF ok] and T = storage_okD(1) [OF ok]
  have p: "blocks_ok ((Headers m)(x := None)) (?B(q := ListHead (PhFreeToFreeList x fr)))"
    if "ListHead fr = ?B q" for q fr
    using blocks_ok_push [OF B x, of q] blocks_ok_free [OF B, of x] that
    by (auto simp: PhFreeToFreeList_def fun_upd_idem)
  have l: "ListHead (FreeList (Types m ty)) = ?B (Some ty)" "ListHead (PhObjectSmallFreeList m) = ?B None"
    using ty by (simp_all add: blocks_def type_known_def)
  have f: "\<forall>y. ((Headers m)(x := None)) y \<noteq> None \<longrightarrow> typed (PhObjectTypeTable m) (b y)"
    using storage_okD(3) [OF ok] by simp
  consider (type) "fl AND PH_OBJECT_FROM_TYPE_FREE_LIST \<noteq> 0"
    | (small) "fl AND PH_OBJECT_FROM_TYPE_FREE_LIST = 0" "fl AND PH_OBJECT_FROM_SMALL_FREE_LIST \<noteq> 0"
    | (heap) "fl AND PH_OBJECT_FROM_TYPE_FREE_LIST = 0" "fl AND PH_OBJECT_FROM_SMALL_FREE_LIST = 0"
    by blast
  then show ?thesis
  proof cases
    case type
    then show ?thesis
      using p [OF l(1)] T f ty
      by (simp add: free_storage_def storage_ok_def types_ok_upd blocks_type type_known_def)
  next
    case small
    then show ?thesis
      using p [OF l(2)] T f
      by (simp add: free_storage_def storage_ok_def
          blocks_small [of _ _ "ListHead (PhFreeToFreeList x fr)" "ListHead (PhObjectSmallFreeList m)" for fr])
  next
    case heap
    then show ?thesis
      using blocks_ok_free [OF B, of x] T f by (simp add: free_storage_def storage_ok_def)
  qed
qed

section \<open>Lookups, counts and work items\<close>

fun in_safe :: "ob_pc \<Rightarrow> bool" where
  "in_safe (SafeRead _) = True"
| "in_safe (SafeCas _ _) = True"
| "in_safe SafeUnlock = True"
| "in_safe _ = False"

fun target :: "ob_pc \<Rightarrow> nat option" where
  "target (SafeRead x) = Some x"
| "target (SafeCas x _) = Some x"
| "target _ = None"

fun storage_of :: "ob_pc \<Rightarrow> nat option" where
  "storage_of (FreeStorage x _ _) = Some x"
| "storage_of _ = None"

lemma storage_of_Some [simp]: "storage_of p = Some x \<longleftrightarrow> (\<exists>ty k. p = FreeStorage x ty k)"
  by (cases p) auto

definition deleted :: "(nat \<Rightarrow> ob_pc) \<Rightarrow> nat \<Rightarrow> bool" where
  "deleted pcs x \<longleftrightarrow> (\<exists>t. storage_of (pcs t) = Some x)"

definition lookup_ok ::
  "heads \<Rightarrow> (nat \<Rightarrow> bool) \<Rightarrow> nat list \<Rightarrow> nat option \<Rightarrow> (nat \<Rightarrow> ob_pc) \<Rightarrow> bool"
where
  "lookup_ok H P reg mx pcs \<longleftrightarrow>
     (\<forall>x\<in>set reg. H x \<noteq> None \<and> P x \<and> \<not> deleted pcs x) \<and>
     (\<forall>t. mx = Some t \<longleftrightarrow> in_safe (pcs t)) \<and>
     (\<forall>t x. target (pcs t) = Some x \<longrightarrow> x \<in> set reg)"

definition counts_ok ::
  "heads \<Rightarrow> (nat \<Rightarrow> nat) \<Rightarrow> (nat \<Rightarrow> nat) \<Rightarrow> (nat \<Rightarrow> nat) \<Rightarrow> (nat \<Rightarrow> ob_pc) \<Rightarrow> bool"
where
  "counts_ok H c d r pcs \<longleftrightarrow>
     (\<forall>x. c x = r x + (if H x = None then 0 else 1) \<and> d x = r x + (if deleted pcs x then 1 else 0))"

definition work_ok :: "bool \<Rightarrow> nat \<Rightarrow> nat \<Rightarrow> (nat \<Rightarrow> ob_pc) \<Rightarrow> bool" where
  "work_ok ra e n pcs \<longleftrightarrow> (\<not> ra \<longrightarrow> e \<noteq> 0 \<longrightarrow> 0 < n \<or> (\<exists>t. pcs t = WorkFlush \<or> pcs t = DeferQueue 0))"

text \<open>A lookup under way finds room for one more reference.\<close>

definition room_ok :: "(nat \<Rightarrow> nat) \<Rightarrow> (nat \<Rightarrow> ob_pc) \<Rightarrow> bool" where
  "room_ok r pcs \<longleftrightarrow> (\<forall>t x. target (pcs t) = Some x \<longrightarrow> r x < 2147483647)"

definition has_delete :: "object_manager \<Rightarrow> origin \<Rightarrow> nat \<Rightarrow> bool" where
  "has_delete m b x \<longleftrightarrow> DeleteProcedure (Types m (PhObjectTypeTable m ! unat (fst (b x))))"

definition ob_inv :: "ob_state \<Rightarrow> (nat option \<Rightarrow> nat list) \<Rightarrow> bool" where
  "ob_inv s cl \<longleftrightarrow>
     heads_ok (PhObjectTypeTable (manager s)) (Headers (manager s)) (born s) (held s) (list_head s) (pc s) cl \<and>
     storage_ok (manager s) (born s) \<and>
     lookup_ok (Headers (manager s)) (has_delete (manager s) (born s)) (registered s) (mutex s) (pc s) \<and>
     counts_ok (Headers (manager s)) (creations s) (deletions s) (releases s) (pc s) \<and>
     work_ok (raced s) (list_head s) (items s) (pc s) \<and> room_ok (held s) (pc s) \<and> \<not> fault s"

lemma ob_invD:
  assumes "ob_inv s cl"
  shows "heads_ok (PhObjectTypeTable (manager s)) (Headers (manager s)) (born s) (held s) (list_head s) (pc s) cl"
    and "storage_ok (manager s) (born s)"
    and "lookup_ok (Headers (manager s)) (has_delete (manager s) (born s)) (registered s) (mutex s) (pc s)"
    and "counts_ok (Headers (manager s)) (creations s) (deletions s) (releases s) (pc s)"
    and "work_ok (raced s) (list_head s) (items s) (pc s)" and "\<not> fault s" and "room_ok (held s) (pc s)"
  using assms by (simp_all add: ob_inv_def)

lemma deleted_upd:
  assumes "storage_of (pcs t) = None" and "storage_of p = None"
  shows "deleted (pcs(t := p)) x = deleted pcs x"
  using assms unfolding deleted_def by (metis fun_upd_apply option.distinct(1))

lemma lookup_ok_move:
  assumes ok: "lookup_ok H P reg mx pcs" and "\<not> in_safe (pcs t)" "\<not> in_safe p"
    and "storage_of (pcs t) = None" "storage_of p = None"
    and "\<And>x. x \<in> set reg \<Longrightarrow> H' x \<noteq> None \<and> P' x"
  shows "lookup_ok H' P' reg mx (pcs(t := p))"
proof -
  have t: "target (pcs t) = None" "target p = None" using assms(2,3) by (cases "pcs t"; simp; cases p; simp)+
  show ?thesis
    using ok assms(2,3,6) t deleted_upd [where pcs = pcs and t = t and p = p, OF assms(4,5)] unfolding lookup_ok_def by auto
qed

lemma target_safe: "target p = Some x \<Longrightarrow> in_safe p"
  by (cases p) auto

lemma lookup_ok_release:
  assumes ok: "lookup_ok H P reg mx pcs" and t: "\<not> in_safe (pcs t)" "\<not> in_safe p"
    and del: "\<And>y. deleted (pcs(t := p)) y \<longleftrightarrow> y \<noteq> x \<and> deleted pcs y" and x: "deleted pcs x"
  shows "lookup_ok (H(x := None)) P reg mx (pcs(t := p))"
proof -
  have g: "target (pcs t) = None" "target p = None" using t by (cases "pcs t"; simp; cases p; simp)+
  have "y \<noteq> x" if "y \<in> set reg" for y using ok that x by (auto simp: lookup_ok_def)
  then show ?thesis using ok t g del by (auto simp: lookup_ok_def)
qed

lemma lookup_ok_delete:
  assumes ok: "lookup_ok H P reg mx pcs" and t: "\<not> in_safe (pcs t)" "\<not> in_safe p"
    and del: "\<And>y. deleted (pcs(t := p)) y \<longleftrightarrow> y = x \<or> deleted pcs y"
    and reg: "if P x then mx = None \<and> reg' = removeAll x reg else reg' = reg"
  shows "lookup_ok H P reg' mx (pcs(t := p))"
proof -
  have g: "target (pcs t) = None" "target p = None" using t by (cases "pcs t"; simp; cases p; simp)+
  show ?thesis
  proof (cases "P x")
    case True
    then have "\<not> in_safe (pcs u)" for u using ok reg by (auto simp: lookup_ok_def)
    then have "target (pcs u) = None" for u using target_safe by (cases "target (pcs u)") auto
    then show ?thesis using ok t g del reg True by (auto simp: lookup_ok_def)
  next
    case False
    then have "x \<notin> set reg" using ok by (auto simp: lookup_ok_def)
    then show ?thesis using ok t g del reg False by (auto simp: lookup_ok_def)
  qed
qed

lemma counts_ok_move:
  assumes ok: "counts_ok H c d r pcs" and "storage_of (pcs t) = None" "storage_of p = None"
    and "\<And>x. (H' x = None) = (H x = None)"
  shows "counts_ok H' c d r (pcs(t := p))"
  using ok assms(4) deleted_upd [where pcs = pcs and t = t and p = p, OF assms(2,3)] by (simp add: counts_ok_def)

lemma no_target: "\<not> in_safe p \<Longrightarrow> target p = None"
  by (cases p) auto

lemma room_ok_move:
  assumes "room_ok r pcs" and "target p = None" and "\<And>x. r' x \<le> r x \<or> r' x < 2147483647"
  shows "room_ok r' (pcs(t := p))"
proof -
  have "r' x < 2147483647" if "target (pcs u) = Some x" for u x
    using assms(1) that assms(3) [of x] by (fastforce simp: room_ok_def)
  then show ?thesis using assms(2) by (simp add: room_ok_def)
qed

lemma work_ok_move:
  "work_ok ra e n pcs \<Longrightarrow> pcs t \<noteq> WorkFlush \<Longrightarrow> pcs t \<noteq> DeferQueue 0 \<Longrightarrow> work_ok ra e n (pcs(t := p))"
  unfolding work_ok_def by (metis fun_upd_apply)

lemma work_ok_push:
  assumes w: "work_ok ra e n pcs" and t: "pcs t \<noteq> WorkFlush" "pcs t \<noteq> DeferQueue 0"
  shows "work_ok (ra \<or> old \<noteq> 0 \<and> e = 0) x n (pcs(t := DeferQueue old))"
proof (cases "old = 0")
  case False
  show ?thesis unfolding work_ok_def
  proof (intro impI)
    assume r: "\<not> (ra \<or> old \<noteq> 0 \<and> e = 0)"
    then have "0 < n \<or> (\<exists>u. pcs u = WorkFlush \<or> pcs u = DeferQueue 0)"
      using w False by (simp add: work_ok_def)
    then show "0 < n \<or> (\<exists>u. (pcs(t := DeferQueue old)) u = WorkFlush \<or> (pcs(t := DeferQueue old)) u = DeferQueue 0)"
      using t by (metis fun_upd_apply)
  qed
qed (auto simp: work_ok_def)

lemma work_ok_queue:
  assumes "work_ok ra e n pcs" and "pcs t = DeferQueue old"
  shows "work_ok ra e (if old = 0 then n + 1 else n) (pcs(t := p))"
proof (cases "old = 0")
  case False
  then show ?thesis using work_ok_move [OF assms(1), of t p] assms(2) by simp
qed (simp add: work_ok_def)

lemma deleted_enter:
  assumes "storage_of (pcs t) = None" and "storage_of p = Some x"
  shows "deleted (pcs(t := p)) y \<longleftrightarrow> y = x \<or> deleted pcs y"
proof
  assume "deleted (pcs(t := p)) y"
  then obtain u where u: "storage_of ((pcs(t := p)) u) = Some y" by (auto simp only: deleted_def)
  show "y = x \<or> deleted pcs y"
  proof (cases "u = t")
    case True
    then show ?thesis using u assms(2) by (simp del: storage_of_Some)
  next
    case False
    then have "storage_of (pcs u) = Some y" using u by (simp del: storage_of_Some)
    then show ?thesis unfolding deleted_def by blast
  qed
next
  assume "y = x \<or> deleted pcs y"
  then show "deleted (pcs(t := p)) y"
  proof
    assume "y = x"
    then show ?thesis using assms(2) unfolding deleted_def by (intro exI [of _ t]) (simp del: storage_of_Some)
  next
    assume "deleted pcs y"
    then obtain u where u: "storage_of (pcs u) = Some y" by (auto simp only: deleted_def)
    then have "u \<noteq> t" using assms(1) by auto
    then show ?thesis using u unfolding deleted_def by (intro exI [of _ u]) (simp del: storage_of_Some)
  qed
qed

lemma deleted_leave:
  assumes "storage_of (pcs t) = Some x" and "\<And>u. storage_of (pcs u) = Some x \<Longrightarrow> u = t" and "storage_of p = None"
  shows "deleted (pcs(t := p)) y \<longleftrightarrow> y \<noteq> x \<and> deleted pcs y"
proof
  assume "deleted (pcs(t := p)) y"
  then obtain u where u: "storage_of ((pcs(t := p)) u) = Some y" by (auto simp only: deleted_def)
  then have "u \<noteq> t" using assms(3) by auto
  then show "y \<noteq> x \<and> deleted pcs y" using u assms(2) unfolding deleted_def by (auto simp del: storage_of_Some)
next
  assume y: "y \<noteq> x \<and> deleted pcs y"
  then obtain u where u: "storage_of (pcs u) = Some y" by (auto simp only: deleted_def)
  then have "u \<noteq> t" using assms(1) y by (auto simp del: storage_of_Some)
  then show "deleted (pcs(t := p)) y" using u unfolding deleted_def by (intro exI [of _ u]) (simp del: storage_of_Some)
qed

text \<open>Deleting an object happens at one place at a time.\<close>

lemma deleted_once:
  assumes "heads_ok T H b r e pcs cl" and "pcs t = FreeStorage x ty k" and "pcs u = FreeStorage x ty' k'"
  shows "u = t"
proof -
  have "x \<in> set (cl (Some t))" "x \<in> set (cl (Some u))"
    using heads_okD(5) [OF assms(1), of t] heads_okD(5) [OF assms(1), of u] assms(2,3) by auto
  then show ?thesis using claims_apart [OF heads_okD(2) [OF assms(1)]] by blast
qed

lemma not_yet_deleted:
  assumes "heads_ok T H b r e pcs cl" and "x \<in> set (cl (Some t))" and "\<And>ty k. pcs t \<noteq> FreeStorage x ty k"
  shows "\<not> deleted pcs x"
proof
  assume "deleted pcs x"
  then obtain u ty k where u: "pcs u = FreeStorage x ty k" by (auto simp: deleted_def)
  then have "x \<in> set (cl (Some u))" using heads_okD(5) [OF assms(1), of u] by auto
  then have "u = t" using claims_apart [OF heads_okD(2) [OF assms(1)] assms(2)] by blast
  with u assms(3) show False by simp
qed

text \<open>A step outside the lookups and the release of storage that leaves the types and the free lists alone.\<close>

lemma ob_inv_local:
  assumes inv: "ob_inv s cl"
    and m: "PhObjectTypeTable (manager s') = PhObjectTypeTable (manager s)" "Types (manager s') = Types (manager s)"
      "PhObjectSmallFreeList (manager s') = PhObjectSmallFreeList (manager s)"
    and f: "registered s' = registered s" "mutex s' = mutex s" "creations s' = creations s"
      "deletions s' = deletions s" "releases s' = releases s" "fault s' = fault s" "born s' = born s"
      "pc s' = (pc s)(t := p)"
    and heads: "heads_ok (PhObjectTypeTable (manager s)) (Headers (manager s')) (born s) (held s') (list_head s')
      ((pc s)(t := p)) cl'"
    and dom: "\<And>x. (header s' x = None) = (header s x = None)"
    and w: "work_ok (raced s') (list_head s') (items s') ((pc s)(t := p))"
    and held: "\<And>x. held s' x \<le> held s x \<or> held s' x < 2147483647"
    and p: "\<not> in_safe (pc s t)" "\<not> in_safe p" "storage_of (pc s t) = None" "storage_of p = None"
  shows "ob_inv s' cl'"
proof -
  note D = ob_invD [OF inv]
  have st: "storage_ok (manager s') (born s)"
    using D(2) dom unfolding storage_ok_def blocks_ok_def m by simp
  have reg: "header s' x \<noteq> None \<and> has_delete (manager s') (born s) x" if "x \<in> set (registered s)" for x
    using D(3) that dom by (simp add: lookup_ok_def has_delete_def m)
  show ?thesis
    unfolding ob_inv_def f m
    using heads st lookup_ok_move [OF D(3) p reg] counts_ok_move [OF D(4) p(3,4) dom] w D(6)
      room_ok_move [OF D(7) no_target [OF p(2)] held] by simp
qed

section \<open>Every action keeps the invariant\<close>

lemma own_step:
  assumes inv: "ob_inv s cl" and x: "x \<in> set (cl (Some t))" and h: "\<not> positive (RefCount h)"
    and ok: "thread_ok (PhObjectTypeTable (manager s)) ((Headers (manager s))(x := Some h)) (born s) p (cl (Some t))"
    and p: "\<not> in_safe (pc s t)" "\<not> in_safe p" "storage_of (pc s t) = None" "storage_of p = None"
      "pc s t \<noteq> WorkFlush" "pc s t \<noteq> DeferQueue 0"
  shows "ob_inv (goto (put_header s x h) t p) cl"
proof (rule ob_inv_local [where s = s and t = t and p = p and cl = cl, OF inv])
  note D = ob_invD [OF inv]
  show "heads_ok (PhObjectTypeTable (manager s)) (Headers (manager (goto (put_header s x h) t p))) (born s)
     (held (goto (put_header s x h) t p)) (list_head (goto (put_header s x h) t p)) ((pc s)(t := p)) cl"
    using heads_ok_own [OF D(1) x h ok] by simp
  show "(header (goto (put_header s x h) t p) y = None) = (header s y = None)" for y
    using claimed_dying [OF heads_okD(2) [OF D(1)] x] by auto
  show "work_ok (raced (goto (put_header s x h) t p)) (list_head (goto (put_header s x h) t p))
     (items (goto (put_header s x h) t p)) ((pc s)(t := p))"
    using work_ok_move [OF D(5) p(5,6)] by simp
qed (use p in simp_all)

lemma own_move:
  assumes inv: "ob_inv s cl"
    and ok: "thread_ok (PhObjectTypeTable (manager s)) (Headers (manager s)) (born s) p (cl (Some t))"
    and p: "\<not> in_safe (pc s t)" "\<not> in_safe p" "storage_of (pc s t) = None" "storage_of p = None"
      "pc s t \<noteq> WorkFlush" "pc s t \<noteq> DeferQueue 0"
  shows "ob_inv (goto s t p) cl"
  by (rule ob_inv_local [where s = s and t = t and p = p and cl = cl, OF inv])
     (use p heads_ok_move [OF ob_invD(1) [OF inv] ok] work_ok_move [OF ob_invD(5) [OF inv] p(5,6)] in simp_all)

text \<open>The word over the reference count as the bit fields are written.\<close>

lemma saved_steps:
  "\<not> positive (set_DeferDelete 0)"
  "\<not> positive (set_SavedTypeIndex ti (set_DeferDelete 0))"
  "\<not> positive (saved_word f)"
  unfolding saved_word_def set_DeferDelete_def set_SavedTypeIndex_def set_SavedFlags_def flag_masks
  by (simp_all add: bit_simps)

lemma saved_reads [simp]:
  "SavedTypeIndex (saved_word f) = fst f" "SavedFlags (saved_word f) = snd f"
  using saved_fields(1,2) by (simp_all add: saved_word_def)

lemma saved_flags_word: "set_SavedFlags (snd f) (set_SavedTypeIndex (fst f) (set_DeferDelete 0)) = saved_word f"
  by (simp add: saved_word_def)

lemma PhpDeferDeleteObject_inv:
  assumes inv: "ob_inv s cl" and run: "PhpDeferDeleteObject s t = Some s'"
  shows "\<exists>cl'. ob_inv s' cl'"
proof -
  let ?T = "PhObjectTypeTable (manager s)" and ?H = "Headers (manager s)" and ?b = "born s"
  note D = ob_invD [OF inv]
  have ok: "thread_ok ?T ?H ?b (pc s t) (cl (Some t))" using heads_okD(5) [OF D(1)] .
  show ?thesis
  proof (cases "pc s t")
    case (DeferBit x)
    then have c: "cl (Some t) = [x]" "?H x = Some \<lparr>First = fields_of (?b x), RefCount = 0\<rparr>"
      using ok by (auto simp: counted_def)
    then have "s' = goto (put_header s x \<lparr>First = fields_of (?b x), RefCount = set_DeferDelete 0\<rparr>) t (DeferSavedType x)"
      using run DeferBit by (simp add: PhpDeferDeleteObject_def at_header_def)
    then show ?thesis
      using own_step [OF inv, of x t "\<lparr>First = fields_of (?b x), RefCount = set_DeferDelete 0\<rparr>" "DeferSavedType x"]
        c DeferBit saved_steps by (auto simp: counted_def)
  next
    case (DeferSavedType x)
    let ?h = "\<lparr>First = fields_of (?b x), RefCount = set_SavedTypeIndex (fst (?b x)) (set_DeferDelete 0)\<rparr>"
    have c: "cl (Some t) = [x]" "?H x = Some \<lparr>First = fields_of (?b x), RefCount = set_DeferDelete 0\<rparr>"
      using ok DeferSavedType by (auto simp: counted_def)
    then have "s' = goto (put_header s x ?h) t (DeferSavedFlags x)"
      using run DeferSavedType by (simp add: PhpDeferDeleteObject_def at_header_def)
    then show ?thesis
      using own_step [OF inv, of x t ?h "DeferSavedFlags x"] c DeferSavedType saved_steps(2) [of "fst (?b x)"]
      by (auto simp: counted_def)
  next
    case (DeferSavedFlags x)
    let ?h = "\<lparr>First = fields_of (?b x), RefCount = saved_word (?b x)\<rparr>"
    have c: "cl (Some t) = [x]"
        "?H x = Some \<lparr>First = fields_of (?b x), RefCount = set_SavedTypeIndex (fst (?b x)) (set_DeferDelete 0)\<rparr>"
      using ok DeferSavedFlags by (auto simp: counted_def)
    then have "s' = goto (put_header s x ?h) t (DeferFirst x)"
      using run DeferSavedFlags by (simp add: PhpDeferDeleteObject_def at_header_def saved_flags_word)
    then show ?thesis
      using own_step [OF inv, of x t ?h "DeferFirst x"] c DeferSavedFlags saved_steps(3) [of "?b x"]
      by (auto simp: counted_def)
  next
    case (DeferFirst x)
    then have "s' = goto s t (DeferPush x (list_head s))"
      using run by (simp add: PhpDeferDeleteObject_def)
    then show ?thesis using own_move [OF inv, of "DeferPush x (list_head s)" t] ok DeferFirst by auto
  next
    case (DeferPush x old)
    have c: "?H x = Some \<lparr>First = fields_of (?b x), RefCount = saved_word (?b x)\<rparr>" and x0: "x \<noteq> 0"
      using ok DeferPush heads_okD(1) [OF D(1)] by (auto simp: counted_def intro!: Nat.gr0I)
    let ?h = "\<lparr>First = fields_of (?b x), RefCount = saved_word (?b x)\<rparr>"
    let ?g = "?h\<lparr>First := DeferDeleteListEntry (list_head s)\<rparr>"
    let ?pc = "(pc s)(t := DeferQueue old)"
    have s': "s' = s\<lparr>manager := (manager s)\<lparr>Headers := ?H(x := Some ?g), PhObjectDeferDeleteListHead := x\<rparr>,
        raced := (raced s \<or> old \<noteq> 0 \<and> list_head s = 0), pc := ?pc\<rparr>"
      using run DeferPush c by (simp add: PhpDeferDeleteObject_def at_header_def)
    have H: "heads_ok ?T (?H(x := Some ?g)) ?b (held s) x ?pc (cl(Some t := [], None := [x] @ cl None))"
      using heads_ok_push [OF D(1) DeferPush c] .
    have w: "work_ok (raced s \<or> old \<noteq> 0 \<and> list_head s = 0) x (items s) ?pc"
      by (rule work_ok_push [OF D(5)]) (simp_all add: DeferPush)
    have "ob_inv s' (cl(Some t := [], None := [x] @ cl None))"
      by (rule ob_inv_local [where t = t and p = "DeferQueue old", OF inv])
         (use H w c DeferPush in \<open>simp_all add: s'\<close>)
    then show ?thesis by blast
  next
    case (DeferQueue old)
    let ?n = "if old = 0 then items s + 1 else items s"
    have s': "s' = goto (s\<lparr>items := ?n\<rparr>) t Idle"
      using run DeferQueue by (cases "old = 0") (simp_all add: PhpDeferDeleteObject_def)
    have w: "work_ok (raced s) (list_head s) ?n ((pc s)(t := Idle))"
      by (rule work_ok_queue [where pcs = "pc s" and t = t and old = old and p = Idle, OF D(5) DeferQueue])
    have "ob_inv s' cl"
      by (rule ob_inv_local [where t = t and p = Idle, OF inv])
         (use heads_ok_move [OF D(1), of Idle t] w ok DeferQueue in \<open>simp_all add: s'\<close>)
    then show ?thesis by blast
  qed (use run in \<open>simp_all add: PhpDeferDeleteObject_def\<close>)
qed

lemma chained_Cons:
  assumes "chained H b e xs" and "e \<noteq> 0"
  obtains n ys where "xs = e # ys" and "H e = Some \<lparr>First = DeferDeleteListEntry n, RefCount = saved_word (b e)\<rparr>"
    and "chained H b n ys"
  using assms by (cases xs) auto

lemma chained_0: "chained H b 0 xs \<longleftrightarrow> xs = []"
  by (cases xs) auto

lemma chained_same_head: "chained H b e xs \<Longrightarrow> x \<notin> set xs \<Longrightarrow> chained (H(x := h)) b e xs"
  by (erule chained_frame) auto

lemma PhpDeferDeleteObjectRoutine_inv:
  assumes inv: "ob_inv s cl" and run: "PhpDeferDeleteObjectRoutine s t = Some s'"
  shows "\<exists>cl'. ob_inv s' cl'"
proof -
  let ?T = "PhObjectTypeTable (manager s)" and ?H = "Headers (manager s)" and ?b = "born s"
  note D = ob_invD [OF inv]
  have ok: "thread_ok ?T ?H ?b (pc s t) (cl (Some t))" using heads_okD(5) [OF D(1)] .
  show ?thesis
  proof (cases "pc s t")
    case WorkFlush
    then have s': "s' = goto (s\<lparr>manager := (manager s)\<lparr>PhObjectDeferDeleteListHead := 0\<rparr>\<rparr>) t (WorkLoop (list_head s))"
      using run by (simp add: PhpDeferDeleteObjectRoutine_def)
    have "cl (Some t) = []" using ok WorkFlush by simp
    from heads_ok_flush [OF D(1) this]
    have "ob_inv s' (cl(None := [], Some t := cl None @ cl (Some t)))"
      by (intro ob_inv_local [where t = t and p = "WorkLoop (list_head s)", OF inv])
         (use WorkFlush in \<open>simp_all add: s' work_ok_def\<close>)
    then show ?thesis by blast
  next
    case (WorkLoop e)
    show ?thesis
    proof (cases "e = 0")
      case True
      then have "s' = goto s t Idle" using run WorkLoop by (simp add: PhpDeferDeleteObjectRoutine_def)
      moreover have "cl (Some t) = []" using ok WorkLoop True by (simp add: chained_0)
      ultimately show ?thesis using own_move [OF inv, of Idle t] WorkLoop by auto
    next
      case False
      have "chained ?H ?b e (cl (Some t))" using ok WorkLoop by simp
      then obtain n ys where c: "cl (Some t) = e # ys"
          "?H e = Some \<lparr>First = DeferDeleteListEntry n, RefCount = saved_word (?b e)\<rparr>" "chained ?H ?b n ys"
        using False by (rule chained_Cons)
      let ?h = "\<lparr>First = fields_of (?b e), RefCount = saved_word (?b e)\<rparr>"
      have "s' = goto (put_header s e ?h) t (FreeType e (Some n))"
        using run WorkLoop False c by (simp add: PhpDeferDeleteObjectRoutine_def at_header_def)
      moreover have "e \<notin> set ys"
        using heads_okD(2) [OF D(1)] c(1) by (metis claims_ok_def distinct.simps(2))
      then have "chained (?H(e := Some ?h)) ?b n ys" by (rule chained_same_head [OF c(3)])
      ultimately show ?thesis
        using own_step [OF inv, of e t ?h "FreeType e (Some n)"] c(1) WorkLoop saved_steps(3) [of "?b e"]
        by (auto simp: restored_def)
    qed
  qed (use run in \<open>simp_all add: PhpDeferDeleteObjectRoutine_def\<close>)
qed

lemma object_type:
  assumes "storage_ok m b" and "restored (Headers m) b x"
  shows "PhGetObjectType m x = Some (PhObjectTypeTable m ! unat (fst (b x)))"
    and "type_known m (PhObjectTypeTable m ! unat (fst (b x)))"
proof -
  have h: "Headers m x \<noteq> None" "\<exists>r. Headers m x = Some \<lparr>First = fields_of (b x), RefCount = r\<rparr>"
    using assms(2) by (auto simp: restored_def)
  then have ty: "typed (PhObjectTypeTable m) (b x)" using storage_okD(3) [OF assms(1)] by blast
  note T = storage_okD(1) [OF assms(1)]
  show "PhGetObjectType m x = Some (PhObjectTypeTable m ! unat (fst (b x)))"
    using h(2) ty T by (auto simp: PhGetObjectType_def typed_def types_ok_def)
  show "type_known m (PhObjectTypeTable m ! unat (fst (b x)))"
    using typed_known [OF T ty] by (simp add: type_known_def)
qed

lemma add_objects_simps [simp]:
  "Headers (add_objects m ty n) = Headers m"
  "PhObjectTypeTable (add_objects m ty n) = PhObjectTypeTable m"
  "PhObjectDeferDeleteListHead (add_objects m ty n) = PhObjectDeferDeleteListHead m"
  "DeleteProcedure (Types (add_objects m ty n) y) = DeleteProcedure (Types m y)"
  by (simp_all add: add_objects_def)

lemma free_storage_simps [simp]:
  "Headers (free_storage m ty x fl) = (Headers m)(x := None)"
  "PhObjectTypeTable (free_storage m ty x fl) = PhObjectTypeTable m"
  "PhObjectDeferDeleteListHead (free_storage m ty x fl) = PhObjectDeferDeleteListHead m"
  "DeleteProcedure (Types (free_storage m ty x fl) y) = DeleteProcedure (Types m y)"
  by (simp_all add: free_storage_def Let_def)

lemma has_delete_cong:
  "PhObjectTypeTable m' = PhObjectTypeTable m \<Longrightarrow> (\<And>y. DeleteProcedure (Types m' y) = DeleteProcedure (Types m y)) \<Longrightarrow>
     has_delete m' b = has_delete m b"
  by (simp add: has_delete_def fun_eq_iff)

lemma PhpFreeObject_inv:
  assumes inv: "ob_inv s cl" and run: "PhpFreeObject s t = Some s'"
  shows "\<exists>cl'. ob_inv s' cl'"
proof -
  let ?T = "PhObjectTypeTable (manager s)" and ?H = "Headers (manager s)" and ?b = "born s"
  note D = ob_invD [OF inv]
  have ok: "thread_ok ?T ?H ?b (pc s t) (cl (Some t))" using heads_okD(5) [OF D(1)] .
  show ?thesis
  proof (cases "pc s t")
    case (FreeType x k)
    let ?ty = "?T ! unat (fst (?b x))" and ?p = "FreeDelete x (?T ! unat (fst (?b x))) k"
    have r: "restored ?H ?b x" and ok': "thread_ok ?T ?H ?b ?p (cl (Some t))" using ok FreeType by auto
    have s': "s' = goto (s\<lparr>manager := add_objects (manager s) ?ty (- 1)\<rparr>) t ?p"
      using run FreeType object_type [OF D(2) r] by (simp add: PhpFreeObject_def)
    have "ob_inv s' cl"
      using heads_ok_move [OF D(1) ok'] storage_ok_add_objects [OF D(2), of ?ty "- 1"]
        lookup_ok_move [where pcs = "pc s" and t = t and p = ?p and H' = ?H and P' = "has_delete (manager s) ?b", OF D(3)]
        counts_ok_move [where pcs = "pc s" and t = t and p = ?p and H' = ?H, OF D(4)]
        work_ok_move [OF D(5), of t ?p] D(3,6) FreeType
        room_ok_move [OF D(7), of ?p "held s" t]
        has_delete_cong [of "add_objects (manager s) ?ty (- 1)" "manager s" ?b]
      by (simp add: ob_inv_def s' lookup_ok_def)
    then show ?thesis by blast
  next
    case (FreeDelete x ty k)
    let ?p = "FreeStorage x ty k"
    let ?reg = "if DeleteProcedure (Types (manager s) ty) then removeAll x (registered s) else registered s"
    have ok': "thread_ok ?T ?H ?b ?p (cl (Some t))" and ty: "ty = ?T ! unat (fst (?b x))" and x: "x \<in> set (cl (Some t))"
      using ok FreeDelete by auto
    have s': "s' = goto (s\<lparr>deletions := (deletions s)(x := deletions s x + 1), registered := ?reg\<rparr>) t ?p"
      using run FreeDelete by (auto simp: PhpFreeObject_def Let_def split: if_splits)
    have mx: "DeleteProcedure (Types (manager s) ty) \<longrightarrow> mutex s = None"
      using run FreeDelete by (auto simp: PhpFreeObject_def Let_def split: if_splits)
    have nd: "\<not> deleted (pc s) x"
      by (rule not_yet_deleted [OF D(1) x]) (simp add: FreeDelete)
    have del: "deleted ((pc s)(t := ?p)) y \<longleftrightarrow> y = x \<or> deleted (pc s) y" for y
      by (rule deleted_enter) (simp_all add: FreeDelete)
    have L: "lookup_ok ?H (has_delete (manager s) ?b) ?reg (mutex s) ((pc s)(t := ?p))"
      by (rule lookup_ok_delete [where pcs = "pc s" and t = t and p = ?p, OF D(3) _ _ del])
         (use FreeDelete mx ty in \<open>auto simp: has_delete_def\<close>)
    have C: "counts_ok ?H (creations s) ((deletions s)(x := deletions s x + 1)) (releases s) ((pc s)(t := ?p))"
      using D(4) del nd by (simp add: counts_ok_def)
    have "ob_inv s' cl"
      using heads_ok_move [OF D(1) ok'] D(2,6) work_ok_move [OF D(5), of t ?p] room_ok_move [OF D(7), of ?p "held s" t]
        FreeDelete L C
      by (simp add: ob_inv_def s')
    then show ?thesis by blast
  next
    case (FreeStorage x ty k)
    let ?p = "case k of Some entry \<Rightarrow> WorkLoop entry | None \<Rightarrow> Idle"
    obtain ys where c: "cl (Some t) = x # ys" "restored ?H ?b x" "continues ?H ?b k ys" "ty = ?T ! unat (fst (?b x))"
      using ok FreeStorage by auto
    obtain r where r: "?H x = Some \<lparr>First = fields_of (?b x), RefCount = r\<rparr>"
      using c(2) by (auto simp: restored_def)
    have p: "\<not> in_safe ?p" "target ?p = None" "storage_of ?p = None" by (cases k; simp)+
    have s': "s' = goto (s\<lparr>manager := free_storage (manager s) ty x (snd (?b x)),
        releases := (releases s)(x := releases s x + 1)\<rparr>) t ?p"
      using run FreeStorage r by (simp add: PhpFreeObject_def at_header_def)
    have ok': "thread_ok ?T ?H ?b ?p ys" using c(3) by (cases k) auto
    have del: "deleted ((pc s)(t := ?p)) y \<longleftrightarrow> y \<noteq> x \<and> deleted (pc s) y" for y
    proof (rule deleted_leave)
      show "storage_of (pc s t) = Some x" by (simp add: FreeStorage)
      show "u = t" if u: "storage_of (pc s u) = Some x" for u
      proof -
        obtain ty' k' where "pc s u = FreeStorage x ty' k'" using u by auto
        then show ?thesis by (rule deleted_once [OF D(1) FreeStorage])
      qed
    qed (rule p(3))
    have dx: "deleted (pc s) x" using FreeStorage unfolding deleted_def by (intro exI [of _ t]) simp
    have "lookup_ok (?H(x := None)) (has_delete (manager s) ?b) (registered s) (mutex s) ((pc s)(t := ?p))"
      by (rule lookup_ok_release [where pcs = "pc s" and t = t and p = ?p, OF D(3) _ p(1) del dx]) (simp add: FreeStorage)
    then have L: "lookup_ok (?H(x := None)) (has_delete (manager s') ?b) (registered s) (mutex s) ((pc s)(t := ?p))"
      using has_delete_cong [of "manager s'" "manager s" ?b] by (simp add: s')
    have C: "counts_ok (?H(x := None)) (creations s) (deletions s) ((releases s)(x := releases s x + 1)) ((pc s)(t := ?p))"
      using D(4) del dx r by (auto simp: counts_ok_def)
    have st: "storage_ok (manager s') ?b"
      using storage_ok_free_storage [OF D(2) r _ object_type(2) [OF D(2) c(2)]] heads_okD(1) [OF D(1)] r c(4)
      by (cases "x = 0") (simp_all add: s')
    have "ob_inv s' (cl(Some t := ys))"
      using heads_ok_release [OF D(1) c(1) ok'] st work_ok_move [OF D(5), of t ?p] D(6) FreeStorage L C
        room_ok_move [OF D(7) p(2), of "held s" t]
      by (simp add: ob_inv_def s')
    then show ?thesis by blast
  qed (use run in \<open>simp_all add: PhpFreeObject_def\<close>)
qed

text \<open>The lookups.\<close>

lemma lookup_ok_safe:
  assumes ok: "lookup_ok H P reg mx pcs" and t: "in_safe (pcs t)" "in_safe p"
    and g: "target p = None \<or> target p = target (pcs t)" and dom: "\<And>x. (H' x = None) = (H x = None)"
  shows "lookup_ok H' P reg mx (pcs(t := p))"
proof -
  have "storage_of (pcs t) = None" "storage_of p = None" using t by (cases "pcs t"; simp; cases p; simp)+
  from deleted_upd [where pcs = pcs and t = t and p = p, OF this]
  show ?thesis using ok t g dom by (auto simp: lookup_ok_def)
qed

lemma lookup_ok_enter:
  assumes ok: "lookup_ok H P reg None pcs" and "\<not> in_safe (pcs t)" "storage_of (pcs t) = None" "x \<in> set reg"
  shows "lookup_ok H P reg (Some t) (pcs(t := SafeRead x))"
  using ok assms(2,4) deleted_upd [where pcs = pcs and t = t and p = "SafeRead x", OF assms(3)]
  by (auto simp: lookup_ok_def)

lemma lookup_ok_exit:
  assumes ok: "lookup_ok H P reg mx pcs" and "pcs t = SafeUnlock"
  shows "lookup_ok H P reg None (pcs(t := Idle))"
proof -
  have m: "mx = Some u \<longleftrightarrow> in_safe (pcs u)" for u using ok by (simp add: lookup_ok_def)
  have "\<not> in_safe (pcs u)" if "u \<noteq> t" for u using m [of t] m [of u] that assms(2) by auto
  then show ?thesis
    using ok assms(2) deleted_upd [where pcs = pcs and t = t and p = Idle] by (auto simp: lookup_ok_def)
qed

lemma safe_step:
  assumes inv: "ob_inv s cl"
    and m: "PhObjectTypeTable (manager s') = PhObjectTypeTable (manager s)" "Types (manager s') = Types (manager s)"
      "PhObjectSmallFreeList (manager s') = PhObjectSmallFreeList (manager s)" "list_head s' = list_head s"
    and f: "registered s' = registered s" "mutex s' = mutex s" "creations s' = creations s"
      "deletions s' = deletions s" "releases s' = releases s" "fault s' = fault s" "born s' = born s"
      "raced s' = raced s" "items s' = items s" "pc s' = (pc s)(t := p)"
    and heads: "heads_ok (PhObjectTypeTable (manager s)) (Headers (manager s')) (born s) (held s') (list_head s)
      ((pc s)(t := p)) cl"
    and dom: "\<And>x. (header s' x = None) = (header s x = None)"
    and room: "room_ok (held s') ((pc s)(t := p))"
    and p: "in_safe (pc s t)" "in_safe p" "target p = None \<or> target p = target (pc s t)"
  shows "ob_inv s' cl"
proof -
  note D = ob_invD [OF inv]
  have st: "storage_ok (manager s') (born s)"
    using D(2) dom unfolding storage_ok_def blocks_ok_def m by simp
  have hd: "has_delete (manager s') (born s) = has_delete (manager s) (born s)"
    by (rule has_delete_cong) (simp_all add: m)
  have "storage_of (pc s t) = None" "storage_of p = None" using p(1,2) by (cases "pc s t"; simp; cases p; simp)+
  then have C: "counts_ok (Headers (manager s')) (creations s) (deletions s) (releases s) ((pc s)(t := p))"
    by (rule counts_ok_move [OF D(4) _ _ dom])
  have w: "work_ok (raced s) (list_head s) (items s) ((pc s)(t := p))"
    using p(1) by (intro work_ok_move [OF D(5)]) auto
  show ?thesis
    unfolding ob_inv_def f m hd
    using heads st lookup_ok_safe [OF D(3) p dom] C w room D(6) by simp
qed

lemma PhReferenceObjectSafe_inv:
  assumes inv: "ob_inv s cl" and run: "PhReferenceObjectSafe s t = Some s'"
  shows "\<exists>cl'. ob_inv s' cl'"
proof -
  let ?T = "PhObjectTypeTable (manager s)" and ?H = "Headers (manager s)" and ?b = "born s"
  note D = ob_invD [OF inv]
  have ok: "thread_ok ?T ?H ?b (pc s t) (cl (Some t))" using heads_okD(5) [OF D(1)] .
  have check: "ob_inv (safe_check s t x v) cl"
    if "in_safe (pc s t)" "target (pc s t) = Some x" for x v
  proof -
    let ?p = "if positive v then SafeCas x v else SafeUnlock"
    have "cl (Some t) = []" using ok that by (cases "pc s t") auto
    then have "thread_ok ?T ?H ?b ?p (cl (Some t))" by simp
    from heads_ok_move [OF D(1) this] show ?thesis
      unfolding safe_check_def
      by (intro safe_step [where t = t and p = ?p, OF inv])
         (use that D(7) in \<open>auto simp: room_ok_def split: if_splits\<close>)
  qed
  have live: "\<exists>h. ?H x = Some h" if "target (pc s t) = Some x" for x
    using D(3) that by (auto simp: lookup_ok_def)
  show ?thesis
  proof (cases "pc s t")
    case (SafeRead x)
    obtain h where h: "?H x = Some h" using live [of x] SafeRead by auto
    have "s' = safe_check s t x (RefCount h)"
      using run SafeRead h by (simp add: PhReferenceObjectSafe_def at_header_def)
    then show ?thesis using check [of x "RefCount h"] SafeRead by auto
  next
    case (SafeCas x v)
    obtain h where h: "?H x = Some h" using live [of x] SafeCas by auto
    show ?thesis
    proof (cases "RefCount h = v")
      case False
      have "s' = safe_check s t x (RefCount h)"
        using run SafeCas h False by (simp add: PhReferenceObjectSafe_def at_header_def)
      then show ?thesis using check [of x "RefCount h"] SafeCas by auto
    next
      case True
      let ?g = "h\<lparr>RefCount := v + 1\<rparr>"
      have s': "s' = goto (put_header (s\<lparr>held := (held s)(x := held s x + 1)\<rparr>) x ?g) t SafeUnlock"
        using run SafeCas h True by (simp add: PhReferenceObjectSafe_def at_header_def)
      have c: "cl (Some t) = []" "positive (RefCount h)" using ok SafeCas True by auto
      have e: "held s x = unat (RefCount h)" "First h = fields_of (?b x)"
        using heads_okD(3) [OF D(1)] h c(2) by (auto simp: ledger_ok_def dest: spec [of _ x])
      have "held s x < 2147483647" using D(7) SafeCas unfolding room_ok_def by (metis target.simps(2))
      then have u: "unat (v + 1) = held s x + 1" "positive (RefCount ?g)"
        using e(1) True by (simp_all add: positive_iff unat_plus_no_overflow)
      have x: "x \<notin> dying ?H" "x \<noteq> 0" using h c(2) heads_okD(1) [OF D(1)] by (auto simp: dying_def intro!: Nat.gr0I)
      have H: "heads_ok ?T (?H(x := Some ?g)) ?b ((held s)(x := held s x + 1)) (list_head s) ((pc s)(t := SafeUnlock)) cl"
        using heads_ok_move [OF heads_ok_alive [OF D(1) x u(2), of ?b], of SafeUnlock t] e(2) u(1) c(1) by simp
      have "target (pc s u) = Some x \<Longrightarrow> u = t" for u
        using D(3) SafeCas target_safe by (metis in_safe.simps(2) lookup_ok_def option.inject)
      then have room: "room_ok ((held s)(x := held s x + 1)) ((pc s)(t := SafeUnlock))"
        using D(7) by (auto simp: room_ok_def)
      have "ob_inv s' cl"
        by (rule safe_step [where t = t and p = SafeUnlock, OF inv])
           (use H h room SafeCas in \<open>simp_all add: s'\<close>)
      then show ?thesis by blast
    qed
  next
    case SafeUnlock
    have s': "s' = goto (s\<lparr>mutex := None\<rparr>) t Idle"
      using run SafeUnlock by (simp add: PhReferenceObjectSafe_def)
    have "ob_inv s' cl"
      using heads_ok_move [OF D(1), of Idle t] ok D(2,6) lookup_ok_exit [OF D(3) SafeUnlock] SafeUnlock
        counts_ok_move [where pcs = "pc s" and t = t and p = Idle and H' = ?H, OF D(4)] work_ok_move [OF D(5), of t Idle]
        room_ok_move [OF D(7), of Idle "held s" t]
      by (simp add: ob_inv_def s')
    then show ?thesis by blast
  qed (use run in \<open>simp_all add: PhReferenceObjectSafe_def\<close>)
qed

text \<open>Creation: the block is not in use, and is on no free list afterwards.\<close>

lemma free_list_pop:
  "PhAllocateFromFreeList fresh fl = (x, fl') \<Longrightarrow> ListHead fl = x # ListHead fl' \<or> x = fresh \<and> fl' = fl"
  by (auto simp: PhAllocateFromFreeList_def split: list.splits)

lemma blocks_ok_allocate:
  assumes B: "blocks_ok H B" and fresh: "H fresh = None" "fresh \<noteq> 0" "\<forall>p. fresh \<notin> set (B p)"
    and a: "PhAllocateFromFreeList fresh fl = (x, fl')" and l: "B p = ListHead fl"
  shows "H x = None \<and> x \<noteq> 0 \<and> blocks_ok (H(x := Some h)) (B(p := ListHead fl'))"
  using free_list_pop [OF a]
proof
  assume pop: "ListHead fl = x # ListHead fl'"
  then have "x \<in> set (B p)" using l by simp
  then have "H x = None \<and> x \<noteq> 0" using B unfolding blocks_ok_def by blast
  then show ?thesis using blocks_ok_pop [OF B, of p x "ListHead fl'"] pop l by simp
next
  assume "x = fresh \<and> fl' = fl"
  then show ?thesis using blocks_ok_take [OF B fresh(3)] fresh l by (simp add: fun_upd_idem)
qed

lemma PhpAllocateObject_ok:
  assumes ok: "storage_ok m b" and fresh: "unused m fresh" and ty: "type_known m ty"
    and a: "PhpAllocateObject fresh ty sz m = (x, fl, m')"
  shows "Headers m x = None \<and> x \<noteq> 0 \<and> Headers m' = Headers m \<and> PhObjectTypeTable m' = PhObjectTypeTable m \<and>
    PhObjectDeferDeleteListHead m' = PhObjectDeferDeleteListHead m \<and> types_ok (PhObjectTypeTable m) (Types m') \<and>
    (\<forall>y. DeleteProcedure (Types m' y) = DeleteProcedure (Types m y) \<and> TypeIndex (Types m' y) = TypeIndex (Types m y)) \<and>
    blocks_ok ((Headers m)(x := Some h)) (blocks (PhObjectTypeTable m) (Types m') (ListHead (PhObjectSmallFreeList m')))"
proof -
  let ?T = "PhObjectTypeTable m"
  let ?B = "blocks ?T (Types m) (ListHead (PhObjectSmallFreeList m))"
  note B = storage_okD(2) [OF ok] and T = storage_okD(1) [OF ok]
  have f: "Headers m fresh = None" "fresh \<noteq> 0" "\<forall>p. fresh \<notin> set (?B p)"
    using fresh unused_blocks [OF fresh] by (simp_all add: unused_def)
  have t: "ty \<noteq> 0" "ty \<in> set ?T" using ty by (simp_all add: type_known_def)
  obtain x1 f1 x2 f2 where p: "PhAllocateFromFreeList fresh (FreeList (Types m ty)) = (x1, f1)"
      "PhAllocateFromFreeList fresh (PhObjectSmallFreeList m) = (x2, f2)"
    by (meson surj_pair)
  show ?thesis
  proof (cases "TypeFlags (Types m ty) AND ucast PH_OBJECT_TYPE_USE_FREE_LIST \<noteq> 0")
    case True
    then have m': "x = x1" "m' = set_type m ty ((Types m ty)\<lparr>FreeList := f1\<rparr>)"
      using a p by (simp_all add: PhpAllocateObject_def)
    have "?B (Some ty) = ListHead (FreeList (Types m ty))" using t by (simp add: blocks_def)
    from blocks_ok_allocate [OF B f p(1) this, of h] show ?thesis
      using m' T t by (simp add: blocks_type types_ok_upd)
  next
    case False
    show ?thesis
    proof (cases "sz \<le> PH_OBJECT_SMALL_OBJECT_SIZE")
      case True
      then have m': "x = x2" "m' = m\<lparr>PhObjectSmallFreeList := f2\<rparr>"
        using a p False by (simp_all add: PhpAllocateObject_def)
      have "?B None = ListHead (PhObjectSmallFreeList m)" by (simp add: blocks_def)
      from blocks_ok_allocate [OF B f p(2) this, of h] show ?thesis
        using m' T blocks_small [of ?T "Types m" "ListHead f2" "ListHead (PhObjectSmallFreeList m)"] by simp
    next
      case heap: False
      then have "x = fresh" "m' = m" using a False by (simp_all add: PhpAllocateObject_def)
      then show ?thesis using blocks_ok_take [OF B f(3)] f T by simp
    qed
  qed
qed

lemma PhCreateObject_ok:
  assumes ok: "storage_ok m b" and fresh: "unused m fresh" and ty: "type_known m ty"
    and c: "PhCreateObject fresh sz ty m = (x, m')"
  obtains fl where "Headers m x = None" and "x \<noteq> 0"
    and "Headers m' = (Headers m)(x := Some \<lparr>First = TypeFields (ucast (TypeIndex (Types m ty))) fl, RefCount = 1\<rparr>)"
    and "storage_ok m' (b(x := (ucast (TypeIndex (Types m ty)), fl)))"
    and "PhObjectTypeTable m' = PhObjectTypeTable m" and "PhObjectDeferDeleteListHead m' = PhObjectDeferDeleteListHead m"
    and "\<And>y. DeleteProcedure (Types m' y) = DeleteProcedure (Types m y)"
proof -
  obtain x' fl m1 where a: "PhpAllocateObject fresh ty sz m = (x', fl, m1)" by (metis prod_cases3)
  let ?h = "\<lparr>First = TypeFields (ucast (TypeIndex (Types m ty))) fl, RefCount = 1\<rparr>"
  note A = PhpAllocateObject_ok [OF ok fresh ty a, of ?h]
  have m': "x = x'" "m' = set_header (add_objects m1 ty 1) x ?h"
    using c a A by (auto simp: PhCreateObject_def add_objects_def)
  have t: "ty \<noteq> 0" "ty \<in> set (PhObjectTypeTable m)" using ty by (simp_all add: type_known_def)
  have st: "storage_ok m' (b(x := (ucast (TypeIndex (Types m ty)), fl)))"
    using A m' storage_okD(3) [OF ok] known_typed(1) [OF storage_okD(1) [OF ok] t]
    by (auto simp: storage_ok_def add_objects_def types_ok_upd blocks_same)
  show thesis
    by (rule that [of fl]) (use A m' st in auto)
qed

text \<open>References and dereferences.\<close>

lemma held_alive:
  assumes "ob_inv s cl" and "0 < held s x"
  obtains h where "header s x = Some h" and "positive (RefCount h)" and "held s x = unat (RefCount h)"
    and "First h = fields_of (born s x)"
  using ledgerD [OF heads_okD(3) [OF ob_invD(1) [OF assms(1)]] assms(2)] by blast

lemma count_change:
  assumes inv: "ob_inv s cl" and h: "header s x = Some h" "positive (RefCount h)" and t: "pc s t = Idle"
    and r: "positive r" "unat r \<le> held s x \<or> unat r < 2147483647"
    and s': "s' = s\<lparr>manager := set_header (manager s) x (h\<lparr>RefCount := r\<rparr>), held := (held s)(x := unat r), pc := (pc s)(t := Idle)\<rparr>"
  shows "ob_inv s' cl"
proof -
  note D = ob_invD [OF inv]
  let ?g = "h\<lparr>RefCount := r\<rparr>"
  have x: "x \<notin> dying (Headers (manager s))" "x \<noteq> 0"
    using h heads_okD(1) [OF D(1)] by (auto simp: dying_def intro!: Nat.gr0I)
  have f: "First h = fields_of (born s x)"
    using heads_okD(3) [OF D(1)] h by (auto simp: ledger_ok_def dest: spec [of _ x])
  have pc: "(pc s)(t := Idle) = pc s" using t by (simp add: fun_upd_idem)
  have "heads_ok (PhObjectTypeTable (manager s)) ((Headers (manager s))(x := Some ?g)) (born s)
      ((held s)(x := unat (RefCount ?g))) (list_head s) (pc s) cl"
    by (rule heads_ok_alive [OF D(1) x]) (use r f in simp_all)
  then show ?thesis
    by (intro ob_inv_local [where t = t and p = Idle, OF inv]) (use h r D(5) t in \<open>simp_all add: s' pc\<close>)
qed

lemma count_zero:
  assumes inv: "ob_inv s cl" and h: "header s x = Some h" "positive (RefCount h)" and t: "pc s t = Idle"
    and p: "p = FreeType x None \<or> p = DeferBit x"
    and s': "s' = s\<lparr>manager := set_header (manager s) x (h\<lparr>RefCount := 0\<rparr>), held := (held s)(x := 0), pc := (pc s)(t := p)\<rparr>"
  shows "\<exists>cl'. ob_inv s' cl'"
proof -
  note D = ob_invD [OF inv]
  have "cl (Some t) = []" using heads_okD(5) [OF D(1), of t] t by simp
  note H = heads_ok_zero [OF D(1) h this p]
  have "ob_inv s' (cl(Some t := [x]))"
    by (rule ob_inv_local [where t = t and p = p, OF inv])
       (use H h p t work_ok_move [OF D(5), of t p] in \<open>auto simp: s'\<close>)
  then show ?thesis by blast
qed

lemma dereferenced_inv:
  assumes inv: "ob_inv s cl" and t: "pc s t = Idle" and n: "unat n \<le> held s x" and x: "0 < held s x"
    and r: "exchange_add (manager s) x (- n) = Some (m, c)"
    and d: "c = 0 \<longrightarrow> d = FreeObject \<or> d = DeferDelete" "c \<noteq> 0 \<longrightarrow> d = Keep \<or> negative c"
  shows "\<exists>cl'. ob_inv (dereferenced s t x (unat n) (m, d)) cl'"
proof -
  obtain h where h: "header s x = Some h" "positive (RefCount h)" "held s x = unat (RefCount h)"
    using held_alive [OF inv x] by metis
  have m: "m = set_header (manager s) x (h\<lparr>RefCount := RefCount h - n\<rparr>)" "c = RefCount h - n"
    using r h(1) by (auto simp: exchange_add_def)
  have "n \<le> RefCount h" using n h(3) by (simp add: word_le_nat_alt)
  then have u: "unat c = held s x - unat n" using h(3) m(2) by (simp add: unat_sub)
  show ?thesis
  proof (cases "c = 0")
    case True
    let ?p = "case d of FreeObject \<Rightarrow> FreeType x None | DeferDelete \<Rightarrow> DeferBit x | _ \<Rightarrow> Idle"
    have "?p = FreeType x None \<or> ?p = DeferBit x" using d(1) True by auto
    moreover have "held s x - unat n = 0" using u True by simp
    ultimately show ?thesis
      by (intro count_zero [OF inv h(1,2) t, of ?p]) (use True m in \<open>simp_all add: dereferenced_def\<close>)
  next
    case False
    have c: "positive c" using u h(3) h(2) [unfolded positive_iff] False by (auto simp: negative_iff)
    then have "d = Keep" using d(2) by blast
    moreover have "unat c \<le> held s x" using u by simp
    ultimately have "ob_inv (dereferenced s t x (unat n) (m, d)) cl"
      by (intro count_change [OF inv h(1,2) t c]) (use u m in \<open>simp_all add: dereferenced_def\<close>)
    then show ?thesis by blast
  qed
qed

lemma referenced_inv:
  assumes inv: "ob_inv s cl" and t: "pc s t = Idle" and x: "0 < held s x" "held s x + unat n < 2147483647"
  shows "ob_inv (referenced s x (unat n) (map_option fst (exchange_add (manager s) x n))) cl"
proof -
  obtain h where h: "header s x = Some h" "positive (RefCount h)" "held s x = unat (RefCount h)"
    using held_alive [OF inv x(1)] by metis
  have u: "unat (RefCount h + n) = held s x + unat n" using x(2) h(3) by (simp add: unat_plus_no_overflow)
  then have r: "positive (RefCount h + n)" using x by (simp add: positive_iff)
  have pc: "(pc s)(t := Idle) = pc s" using t by (simp add: fun_upd_idem)
  have "referenced s x (unat n) (map_option fst (exchange_add (manager s) x n)) =
      s\<lparr>manager := set_header (manager s) x (h\<lparr>RefCount := RefCount h + n\<rparr>),
        held := (held s)(x := unat (RefCount h + n)), pc := (pc s)(t := Idle)\<rparr>"
    using h u by (simp add: referenced_def exchange_add_def pc)
  then show ?thesis
    by (intro count_change [OF inv h(1,2) t r]) (use u x in simp_all)
qed

lemma create_inv:
  assumes inv: "ob_inv s cl" and fresh: "unused (manager s) fresh" and ty: "type_known (manager s) ty"
    and c: "PhCreateObject fresh sz ty (manager s) = (x, m)"
  shows "ob_inv (s\<lparr>manager := m, held := (held s)(x := 1), creations := (creations s)(x := creations s x + 1),
    born := (born s)(x := type_fields (First (the (Headers m x))))\<rparr>) cl"
proof -
  note D = ob_invD [OF inv]
  obtain fl where o: "Headers (manager s) x = None" "x \<noteq> 0"
      "Headers m = (Headers (manager s))(x := Some \<lparr>First = TypeFields (ucast (TypeIndex (Types (manager s) ty))) fl, RefCount = 1\<rparr>)"
      "storage_ok m ((born s)(x := (ucast (TypeIndex (Types (manager s) ty)), fl)))"
      "PhObjectTypeTable m = PhObjectTypeTable (manager s)" "PhObjectDeferDeleteListHead m = list_head s"
      "\<And>y. DeleteProcedure (Types m y) = DeleteProcedure (Types (manager s) y)"
    using PhCreateObject_ok [OF D(2) fresh ty c] by metis
  let ?b = "(born s)(x := (ucast (TypeIndex (Types (manager s) ty)), fl))"
  let ?h = "\<lparr>First = TypeFields (ucast (TypeIndex (Types (manager s) ty))) fl, RefCount = 1\<rparr>"
  have H: "heads_ok (PhObjectTypeTable m) (Headers m) ?b ((held s)(x := 1)) (PhObjectDeferDeleteListHead m) (pc s) cl"
    using heads_ok_alive [OF D(1) _ o(2), of ?h ?b] o(1,3,5,6) by (simp add: dying_def bit_simps)
  have L: "lookup_ok (Headers m) (has_delete m ?b) (registered s) (mutex s) (pc s)"
    using D(3) o(1,3,5,7) by (auto simp: lookup_ok_def has_delete_def)
  have C: "counts_ok (Headers m) ((creations s)(x := creations s x + 1)) (deletions s) (releases s) (pc s)"
    using D(4) o(1,3) by (simp add: counts_ok_def)
  have R: "room_ok ((held s)(x := 1)) (pc s)"
    using D(7) by (simp add: room_ok_def)
  show ?thesis
    using H o(3,4) L C D(5,6) o(5,6) R by (simp add: ob_inv_def)
qed

lemma ob_call_inv:
  assumes inv: "ob_inv s cl" and call: "ob_call s t c = Some s'"
  shows "\<exists>cl'. ob_inv s' cl'"
proof -
  note D = ob_invD [OF inv]
  have t: "pc s t = Idle" using call by (simp add: ob_call_def split: if_splits)
  have c0: "cl (Some t) = []" using heads_okD(5) [OF D(1), of t] t by simp
  show ?thesis
  proof (cases c)
    case (CreateObject fresh sz ty)
    obtain x m where m: "PhCreateObject fresh sz ty (manager s) = (x, m)" by (meson surj_pair)
    have g: "unused (manager s) fresh" "type_known (manager s) ty"
      using call t CreateObject by (auto simp: ob_call_def split: if_splits)
    show ?thesis
      using create_inv [OF inv g m] call t CreateObject g m by (auto simp: ob_call_def)
  next
    case (ReferenceObject x)
    then have g: "0 < held s x" "held s x + 1 < 2147483647"
        "s' = referenced s x 1 (map_option fst (exchange_add (manager s) x 1))"
      using call t by (auto simp: ob_call_def PhReferenceObject_def split: if_splits)
    have "ob_inv s' cl" using referenced_inv [OF inv t g(1), of 1] g by simp
    then show ?thesis by blast
  next
    case (ReferenceObjectEx x n)
    then have g: "0 < held s x" "held s x + unat n < 2147483647"
        "s' = referenced s x (unat n) (map_option fst (exchange_add (manager s) x n))"
      using call t by (auto simp: ob_call_def PhReferenceObjectEx_def split: if_splits)
    show ?thesis using referenced_inv [OF inv t g(1,2)] g(3) by blast
  next
    case (ReferenceObjectSafe x)
    then have g: "mutex s = None" "x \<in> set (registered s)" "held s x < 2147483647"
        "s' = goto (s\<lparr>mutex := Some t\<rparr>) t (SafeRead x)"
      using call t by (auto simp: ob_call_def split: if_splits)
    have L: "lookup_ok (Headers (manager s)) (has_delete (manager s) (born s)) (registered s) (Some t) ((pc s)(t := SafeRead x))"
      using lookup_ok_enter [OF D(3) [unfolded g(1)], of t x] t g(2) by simp
    have R: "room_ok (held s) ((pc s)(t := SafeRead x))"
      using D(7) g(3) by (simp add: room_ok_def)
    have "ob_inv s' cl"
      using heads_ok_move [OF D(1), of "SafeRead x" t] c0 D(2,6) L R t
        counts_ok_move [where pcs = "pc s" and t = t and p = "SafeRead x" and H' = "Headers (manager s)", OF D(4)]
        work_ok_move [OF D(5), of t "SafeRead x"]
      by (simp add: ob_inv_def g(4))
    then show ?thesis by blast
  next
    case (DereferenceObject x)
    then have x: "0 < held s x" using call t by (auto simp: ob_call_def split: if_splits)
    then obtain h where h: "header s x = Some h" using held_alive [OF inv] by metis
    let ?m = "set_header (manager s) x (h\<lparr>RefCount := RefCount h - 1\<rparr>)"
    let ?d = "if RefCount h - 1 = 0 then FreeObject else Keep"
    have r: "exchange_add (manager s) x (- 1) = Some (?m, RefCount h - 1)" using h by (simp add: exchange_add_def)
    have s': "s' = dereferenced s t x (unat (1 :: ulong)) (?m, ?d)"
      using call t DereferenceObject x h by (auto simp: ob_call_def PhDereferenceObject_def exchange_add_def)
    show ?thesis
      unfolding s' by (rule dereferenced_inv [OF inv t _ x r]) (use x in simp_all)
  next
    case (DereferenceObjectEx x n df)
    then have x: "0 < held s x" "unat n \<le> held s x" using call t by (auto simp: ob_call_def split: if_splits)
    then obtain h where h: "header s x = Some h" using held_alive [OF inv] by metis
    let ?m = "set_header (manager s) x (h\<lparr>RefCount := RefCount h - n\<rparr>)" and ?c = "RefCount h - n"
    let ?d = "if ?c = 0 then if df then DeferDelete else FreeObject
              else if negative ?c then RaiseStatus STATUS_INVALID_PARAMETER else Keep"
    have r: "exchange_add (manager s) x (- n) = Some (?m, ?c)" using h by (simp add: exchange_add_def)
    have s': "s' = dereferenced s t x (unat n) (?m, ?d)"
      using call t DereferenceObjectEx x h by (auto simp: ob_call_def PhDereferenceObjectEx_def exchange_add_def)
    show ?thesis
      unfolding s' by (rule dereferenced_inv [OF inv t x(2,1) r]) simp_all
  next
    case (Register x)
    then obtain ty where g: "PhGetObjectType (manager s) x = Some ty" "0 < held s x"
        "DeleteProcedure (Types (manager s) ty)" "s' = s\<lparr>registered := x # registered s\<rparr>"
      using call t by (auto simp: ob_call_def split: if_splits option.splits)
    obtain h where h: "header s x = Some h" "positive (RefCount h)" "First h = fields_of (born s x)"
      using held_alive [OF inv g(2)] by metis
    have "ty = PhObjectTypeTable (manager s) ! unat (fst (born s x))"
      using g(1) h(1,3) by (auto simp: PhGetObjectType_def split: if_splits)
    then have P: "has_delete (manager s) (born s) x" using g(3) by (simp add: has_delete_def)
    have "\<not> deleted (pc s) x"
    proof
      assume "deleted (pc s) x"
      then obtain u where "storage_of (pc s u) = Some x" unfolding deleted_def by blast
      then have "x \<in> set (cl (Some u))" using heads_okD(5) [OF D(1), of u] by auto
      then show False using claimed_dying [OF heads_okD(2) [OF D(1)], of x "Some u"] h by auto
    qed
    then have "lookup_ok (Headers (manager s)) (has_delete (manager s) (born s)) (x # registered s) (mutex s) (pc s)"
      using D(3) h(1) P by (auto simp: lookup_ok_def)
    then have "ob_inv s' cl" using D by (simp add: ob_inv_def g(4))
    then show ?thesis by blast
  next
    case TakeItem
    then have g: "0 < items s" "s' = goto (s\<lparr>items := items s - 1\<rparr>) t WorkFlush"
      using call t by (auto simp: ob_call_def split: if_splits)
    have "ob_inv s' cl"
      by (rule ob_inv_local [where t = t and p = WorkFlush, OF inv])
         (use heads_ok_move [OF D(1), of WorkFlush t] c0 t in \<open>auto simp: g work_ok_def\<close>)
    then show ?thesis by blast
  qed
qed

lemma ob_run_inv:
  assumes "ob_inv s cl" and "ob_run s t = Some s'"
  shows "\<exists>cl'. ob_inv s' cl'"
  using assms(2) PhReferenceObjectSafe_inv [OF assms(1), of t s'] PhpFreeObject_inv [OF assms(1), of t s']
    PhpDeferDeleteObject_inv [OF assms(1), of t s'] PhpDeferDeleteObjectRoutine_inv [OF assms(1), of t s']
  by (simp add: ob_run_def split: ob_pc.splits)

lemma ob_step_inv: "ob_inv s cl \<Longrightarrow> ob_step s s' \<Longrightarrow> \<exists>cl'. ob_inv s' cl'"
  by (auto elim!: ob_step_cases dest: ob_call_inv ob_run_inv)

lemma initial_inv:
  assumes "initial s"
  shows "ob_inv s (\<lambda>_. [])"
proof -
  have i: "unat (TypeIndex (Types (manager s) (PhObjectTypeTable (manager s) ! i))) = i \<and>
      ListHead (FreeList (Types (manager s) (PhObjectTypeTable (manager s) ! i))) = []"
    if "i < 256" "PhObjectTypeTable (manager s) ! i \<noteq> 0" for i
    using assms that by (simp add: initial_def Let_def)
  have T: "types_ok (PhObjectTypeTable (manager s)) (Types (manager s))"
    using assms i by (simp add: types_ok_def initial_def)
  have "blocks (PhObjectTypeTable (manager s)) (Types (manager s)) (ListHead (PhObjectSmallFreeList (manager s))) p = []" for p
    using assms i by (auto simp: blocks_def initial_def in_set_conv_nth split: option.splits)
  then have B: "storage_ok (manager s) (born s)"
    using T assms by (simp add: storage_ok_def blocks_ok_def initial_def)
  show ?thesis
    using B assms
    by (simp add: initial_def ob_inv_def heads_ok_def claims_ok_def dying_def ledger_ok_def lookup_ok_def
        counts_ok_def work_ok_def room_ok_def deleted_def)
qed

lemma reachable_inv:
  assumes "ob_reachable s"
  shows "\<exists>cl. ob_inv s cl"
proof -
  obtain s\<^sub>0 where "initial s\<^sub>0" "ob_step\<^sup>*\<^sup>* s\<^sub>0 s" using assms by blast
  from this(2) show ?thesis
    by (induction rule: rtranclp_induct) (use initial_inv [OF \<open>initial s\<^sub>0\<close>] ob_step_inv in blast)+
qed

end
