(* ===== verification/PhObjectRace.thy ===== *)
theory PhObjectRace
  imports PhObjectCorrect
begin

text \<open>
  The consequences of the invariant of the object manager: the life of an object, objects that are being
  destroyed, and the list of deferred deletions, with the interleaving after which nothing on it is deleted.
\<close>

section \<open>Objects that are being destroyed\<close>

lemma dying_not_held:
  assumes "ob_inv s cl" and "header s x = Some h" and "\<not> positive (RefCount h)"
  shows "held s x = 0"
  using heads_okD(3) [OF ob_invD(1) [OF assms(1)]] assms(2,3) by (auto simp: ledger_ok_def dest: spec [of _ x])

text \<open>A step gives no reference to an object that has none left.\<close>

lemma dying_step_call:
  assumes inv: "ob_inv s cl" and h: "header s x = Some h" "\<not> positive (RefCount h)" and call: "ob_call s t c = Some s'"
  shows "held s' x = 0"
proof -
  note z = dying_not_held [OF inv h]
  note D = ob_invD [OF inv]
  have t: "pc s t = Idle" using call by (simp add: ob_call_def split: if_splits)
  show ?thesis
  proof (cases c)
    case (CreateObject fresh sz ty)
    obtain y m where m: "PhCreateObject fresh sz ty (manager s) = (y, m)" by (meson surj_pair)
    have g: "unused (manager s) fresh" "type_known (manager s) ty"
      using call t CreateObject by (auto simp: ob_call_def split: if_splits)
    have "header s y = None" using PhCreateObject_ok [OF D(2) g m] by metis
    then show ?thesis using call t CreateObject g m z h by (auto simp: ob_call_def)
  next
    case (DereferenceObject y)
    then show ?thesis
      using call t z by (auto simp: ob_call_def dereferenced_def split: if_splits option.splits)
  next
    case (DereferenceObjectEx y n d)
    then show ?thesis
      using call t z by (auto simp: ob_call_def dereferenced_def split: if_splits option.splits)
  qed (use call t z in \<open>auto simp: ob_call_def referenced_def split: if_splits option.splits\<close>)
qed

lemma dying_step_run:
  assumes inv: "ob_inv s cl" and h: "header s x = Some h" "\<not> positive (RefCount h)" and run: "ob_run s t = Some s'"
  shows "held s' x = 0"
proof -
  note z = dying_not_held [OF inv h]
  show ?thesis
  proof (cases "pc s t")
    case (SafeCas y v)
    have "positive v" using heads_okD(5) [OF ob_invD(1) [OF inv], of t] SafeCas by simp
    then show ?thesis
      using run SafeCas z h by (auto simp: ob_run_def PhReferenceObjectSafe_def at_header_def safe_check_def split: option.splits)
  qed (use run z in \<open>auto simp: ob_run_def PhReferenceObjectSafe_def PhpFreeObject_def PhpDeferDeleteObject_def
         PhpDeferDeleteObjectRoutine_def at_header_def safe_check_def Let_def split: option.splits header_word.splits if_splits\<close>)
qed

lemma dying_step:
  assumes inv: "ob_inv s cl" and h: "header s x = Some h" "\<not> positive (RefCount h)" and step: "ob_step s s'"
  shows "held s' x = 0"
  using step dying_step_call [OF inv h] dying_step_run [OF inv h] by (auto elim!: ob_step_cases)

lemma not_held_dead:
  assumes "ob_inv s cl" and "held s x = 0"
  shows "header s x = None \<or> (\<exists>h. header s x = Some h \<and> \<not> positive (RefCount h))"
proof (cases "header s x")
  case (Some h)
  have "entry_ok (header s x) (born s x) (held s x)"
    using heads_okD(3) [OF ob_invD(1) [OF assms(1)]] by (simp add: ledger_ok_def)
  then show ?thesis using Some assms(2) positive_iff [of "RefCount h"] by (cases "positive (RefCount h)") auto
qed simp

section \<open>A list that nobody empties\<close>

text \<open>The thread is not, and will not by itself get, inside \<open>PhpDeferDeleteObjectRoutine\<close>, nor queue a work item.\<close>

fun calm :: "ob_pc \<Rightarrow> bool" where
  "calm WorkFlush = False"
| "calm (WorkLoop _) = False"
| "calm (FreeType _ k) = (k = None)"
| "calm (FreeDelete _ _ k) = (k = None)"
| "calm (FreeStorage _ _ k) = (k = None)"
| "calm (DeferPush _ old) = (old \<noteq> 0)"
| "calm (DeferQueue old) = (old \<noteq> 0)"
| "calm _ = True"

definition stuck :: "ob_state \<Rightarrow> bool" where
  "stuck s \<longleftrightarrow> items s = 0 \<and> list_head s \<noteq> 0 \<and> (\<forall>t. calm (pc s t))"

definition queued :: "ob_state \<Rightarrow> nat \<Rightarrow> bool" where
  "queued s x \<longleftrightarrow> (\<exists>n r. header s x = Some \<lparr>First = DeferDeleteListEntry n, RefCount = r\<rparr>)"

lemma queued_dying:
  assumes "ob_inv s cl" and "queued s x"
  shows "held s x = 0"
proof -
  obtain h n where h: "header s x = Some h" "First h = DeferDeleteListEntry n"
    using assms(2) by (auto simp: queued_def)
  have "entry_ok (header s x) (born s x) (held s x)"
    using heads_okD(3) [OF ob_invD(1) [OF assms(1)]] by (simp add: ledger_ok_def)
  then show ?thesis using h by (cases "positive (RefCount h)") auto
qed

lemma stuck_call:
  assumes inv: "ob_inv s cl" and st: "stuck s" and call: "ob_call s t c = Some s'"
  shows "stuck s'"
proof -
  note D = ob_invD [OF inv]
  have t: "pc s t = Idle" using call by (simp add: ob_call_def split: if_splits)
  have i: "items s = 0" "list_head s \<noteq> 0" "\<And>t. calm (pc s t)" using st by (simp_all add: stuck_def)
  show ?thesis
  proof (cases c)
    case (CreateObject fresh sz ty)
    obtain y m where m: "PhCreateObject fresh sz ty (manager s) = (y, m)" by (meson surj_pair)
    have g: "unused (manager s) fresh" "type_known (manager s) ty"
      using call t CreateObject by (auto simp: ob_call_def split: if_splits)
    have "PhObjectDeferDeleteListHead m = list_head s" using PhCreateObject_ok [OF D(2) g m] by metis
    then show ?thesis using call t CreateObject g m i by (auto simp: ob_call_def stuck_def)
  next
    case (DereferenceObject y)
    then show ?thesis
      using call t i by (auto simp: ob_call_def dereferenced_def PhDereferenceObject_def exchange_add_def stuck_def split: if_splits option.splits)
  next
    case (DereferenceObjectEx y n d)
    then show ?thesis
      using call t i by (auto simp: ob_call_def dereferenced_def PhDereferenceObjectEx_def exchange_add_def stuck_def split: if_splits option.splits)
  qed (use call t i in \<open>auto simp: ob_call_def referenced_def PhReferenceObject_def PhReferenceObjectEx_def
         exchange_add_def stuck_def split: if_splits option.splits\<close>)
qed

lemma stuck_run:
  assumes inv: "ob_inv s cl" and st: "stuck s" and run: "ob_run s t = Some s'"
  shows "stuck s'"
proof -
  have i: "items s = 0" "list_head s \<noteq> 0" "\<And>t. calm (pc s t)" using st by (simp_all add: stuck_def)
  have ok: "thread_ok (PhObjectTypeTable (manager s)) (Headers (manager s)) (born s) (pc s t) (cl (Some t))"
    using heads_okD(5) [OF ob_invD(1) [OF inv]] .
  show ?thesis
  proof (cases "pc s t")
    case (DeferPush x old)
    have "x \<noteq> 0" using ok DeferPush heads_okD(1) [OF ob_invD(1) [OF inv]] by (auto simp: counted_def intro!: Nat.gr0I)
    then show ?thesis
      using run DeferPush i i(3) [of t]
      by (auto simp: ob_run_def PhpDeferDeleteObject_def at_header_def stuck_def split: option.splits)
  qed (use run i i(3) [of t] in \<open>auto simp: ob_run_def PhReferenceObjectSafe_def PhpFreeObject_def PhpDeferDeleteObject_def
         PhpDeferDeleteObjectRoutine_def at_header_def safe_check_def Let_def stuck_def
         split: option.splits header_word.splits if_splits\<close>)
qed

lemma queued_call:
  assumes inv: "ob_inv s cl" and q: "queued s x" and call: "ob_call s t c = Some s'"
  shows "header s' x = header s x \<and> releases s' x = releases s x"
proof -
  note D = ob_invD [OF inv]
  note z = queued_dying [OF inv q]
  have t: "pc s t = Idle" using call by (simp add: ob_call_def split: if_splits)
  show ?thesis
  proof (cases c)
    case (CreateObject fresh sz ty)
    obtain y m where m: "PhCreateObject fresh sz ty (manager s) = (y, m)" by (meson surj_pair)
    have g: "unused (manager s) fresh" "type_known (manager s) ty"
      using call t CreateObject by (auto simp: ob_call_def split: if_splits)
    obtain h where "header s y = None" "Headers m = (Headers (manager s))(y := Some h)"
      using PhCreateObject_ok [OF D(2) g m] by metis
    then show ?thesis using call t CreateObject g m q by (auto simp: ob_call_def queued_def)
  next
    case (DereferenceObject y)
    then show ?thesis
      using call t z by (auto simp: ob_call_def dereferenced_def PhDereferenceObject_def exchange_add_def split: if_splits option.splits)
  next
    case (DereferenceObjectEx y n d)
    then show ?thesis
      using call t z by (auto simp: ob_call_def dereferenced_def PhDereferenceObjectEx_def exchange_add_def split: if_splits option.splits)
  qed (use call t z in \<open>auto simp: ob_call_def referenced_def PhReferenceObject_def PhReferenceObjectEx_def
         exchange_add_def split: if_splits option.splits\<close>)
qed

lemma queued_run:
  assumes inv: "ob_inv s cl" and q: "queued s x" and st: "stuck s" and run: "ob_run s t = Some s'"
  shows "header s' x = header s x \<and> releases s' x = releases s x"
proof -
  obtain h n where h: "header s x = Some h" "First h = DeferDeleteListEntry n"
    using q by (auto simp: queued_def)
  have ok: "thread_ok (PhObjectTypeTable (manager s)) (Headers (manager s)) (born s) (pc s t) (cl (Some t))"
    using heads_okD(5) [OF ob_invD(1) [OF inv]] .
  have calm: "calm (pc s t)" using st by (simp add: stuck_def)
  have np: "\<not> positive (RefCount h)"
  proof
    assume p: "positive (RefCount h)"
    have "entry_ok (header s x) (born s x) (held s x)"
      using heads_okD(3) [OF ob_invD(1) [OF inv]] by (simp add: ledger_ok_def)
    with h p show False by simp
  qed
  show ?thesis
  proof (cases "pc s t")
    case (SafeCas y v)
    have "positive v" using ok SafeCas by simp
    then show ?thesis
      using run SafeCas h np by (auto simp: ob_run_def PhReferenceObjectSafe_def at_header_def safe_check_def split: option.splits)
  qed (use run h ok calm in \<open>auto simp: ob_run_def PhReferenceObjectSafe_def PhpFreeObject_def PhpDeferDeleteObject_def
         PhpDeferDeleteObjectRoutine_def at_header_def safe_check_def Let_def counted_def restored_def
         split: option.splits header_word.splits if_splits\<close>)
qed

lemma stuck_forever:
  assumes "ob_inv s cl" and "stuck s" and "queued s x" and "ob_step\<^sup>*\<^sup>* s s'"
  shows "(\<exists>cl'. ob_inv s' cl') \<and> stuck s' \<and> header s' x = header s x \<and> releases s' x = releases s x"
  using assms(4)
proof (induction rule: rtranclp_induct)
  case base
  then show ?case using assms(1,2) by blast
next
  case (step u v)
  then obtain cl' where u: "ob_inv u cl'" "stuck u" "header u x = header s x" "releases u x = releases s x" by blast
  have q: "queued u x" using assms(3) u(3) by (simp add: queued_def)
  have "stuck v \<and> header v x = header u x \<and> releases v x = releases u x"
    using step(2) stuck_call [OF u(1,2)] stuck_run [OF u(1,2)] queued_call [OF u(1) q] queued_run [OF u(1) q u(2)]
    by (blast elim!: ob_step_cases)
  then show ?case using ob_step_inv [OF u(1) step(2)] u by auto
qed

section \<open>Runs of given actions\<close>

fun ob_exec :: "(nat \<times> ob_call option) list \<Rightarrow> ob_state \<Rightarrow> ob_state option" where
  "ob_exec [] s = Some s"
| "ob_exec ((t, a) # as) s =
     (case (case a of Some c \<Rightarrow> ob_call s t c | None \<Rightarrow> ob_run s t) of
        Some s' \<Rightarrow> ob_exec as s'
      | None \<Rightarrow> None)"

lemma ob_exec_steps: "ob_exec as s = Some s' \<Longrightarrow> ob_step\<^sup>*\<^sup>* s s'"
proof (induction as arbitrary: s)
  case (Cons a as)
  obtain t c where a: "a = (t, c)" by (cases a)
  then obtain u where u: "(case c of Some c \<Rightarrow> ob_call s t c | None \<Rightarrow> ob_run s t) = Some u" "ob_exec as u = Some s'"
    using Cons.prems by (auto split: option.splits)
  have "ob_step s u" using u(1) by (auto split: option.splits intro: ob_step.intros)
  then show ?case using Cons.IH [OF u(2)] by simp
qed simp

lemma ob_exec_append:
  "ob_exec (as @ bs) s = (case ob_exec as s of Some s' \<Rightarrow> ob_exec bs s' | None \<Rightarrow> None)"
  by (induction as s rule: ob_exec.induct) (auto split: option.splits)

text \<open>
  A program with one type of objects, without a delete procedure, and three threads: thread 0 creates two
  objects and gives up the first for deferred deletion; thread 1 gives up the second, but is interrupted between
  the look at the list and the push; meanwhile the worker, thread 2, empties the list.
\<close>

definition one_type :: ob_state where
  "one_type =
     \<lparr>manager =
        \<lparr>Headers = (\<lambda>_. None),
         Types = (\<lambda>_. \<lparr>TypeFlags = 0, TypeIndex = 0, NumberOfObjects = 0, DeleteProcedure = False, TypeName = ''Type'',
                      FreeList = \<lparr>ListHead = [], FreeCount = 0, MaximumCount = 0, BlockSize = 0\<rparr>\<rparr>),
         PhObjectTypeTable = 8 # replicate 255 0, PhObjectTypeCount = 1,
         PhObjectSmallFreeList = PhInitializeFreeList 64 512, PhObjectDeferDeleteListHead = 0\<rparr>,
      pc = (\<lambda>_. Idle), items = 0, mutex = None, registered = [], held = (\<lambda>_. 0), born = (\<lambda>_. (0, 0)),
      creations = (\<lambda>_. 0), deletions = (\<lambda>_. 0), releases = (\<lambda>_. 0), raced = False, fault = False\<rparr>"

definition race_run :: "(nat \<times> ob_call option) list" where
  "race_run =
     [(0, Some (CreateObject 16 8 8)), (0, Some (CreateObject 32 8 8)),
      (0, Some (DereferenceObjectEx 16 1 True)), (0, None), (0, None), (0, None), (0, None), (0, None), (0, None),
      (1, Some (DereferenceObjectEx 32 1 True)), (1, None), (1, None), (1, None), (1, None),
      (2, Some TakeItem), (2, None), (2, None), (2, None), (2, None), (2, None), (2, None),
      (1, None), (1, None)]"

lemma one_type_initial: "initial one_type"
proof -
  have "(8 # replicate 255 0) ! i = (if i = 0 then 8 else (0::nat))" if "i < 256" for i
    using that by (cases i) auto
  then show ?thesis
    by (simp add: initial_def one_type_def PhInitializeFreeList_def Let_def)
qed

lemmas call_defs =
  ob_call_def unused_def type_known_def PhCreateObject_def PhpAllocateObject_def PhAllocateFromFreeList_def
  PhInitializeFreeList_def add_objects_def PhDereferenceObjectEx_def exchange_add_def dereferenced_def

lemmas run_defs =
  ob_run_def PhpDeferDeleteObject_def PhpDeferDeleteObjectRoutine_def PhpFreeObject_def at_header_def
  set_DeferDelete_def set_SavedTypeIndex_def set_SavedFlags_def SavedTypeIndex_def SavedFlags_def
  PhGetObjectType_def free_storage_def PhFreeToFreeList_def

lemma race_run_result:
  "\<exists>s. ob_exec race_run one_type = Some s \<and> items s = 0 \<and> pc s = (\<lambda>_. Idle) \<and> list_head s = 32 \<and> raced s \<and>
       queued s 32 \<and> releases s 32 = 0"
  by (simp add: race_run_def one_type_def call_defs run_defs queued_def Let_def) (simp add: fun_eq_iff)

section \<open>The work item\<close>

text \<open>One turn of the loop of \<open>PhpDeferDeleteObjectRoutine\<close>, undisturbed.\<close>

lemma routine_turn:
  assumes inv: "ob_inv u cl" and t: "pc u t = WorkLoop x" and x: "x \<noteq> 0" and mx: "mutex u = None"
    and h: "header u x = Some \<lparr>First = DeferDeleteListEntry n, RefCount = saved_word (born u x)\<rparr>"
  shows "\<exists>v. ob_step\<^sup>*\<^sup>* u v \<and> pc v t = WorkLoop n \<and> Headers (manager v) = (Headers (manager u))(x := None) \<and>
    releases v = (releases u)(x := releases u x + 1) \<and> born v = born u \<and> mutex v = None \<and> list_head v = list_head u"
proof -
  let ?h = "\<lparr>First = fields_of (born u x), RefCount = saved_word (born u x)\<rparr>"
  obtain a where a: "ob_run u t = Some a" "a = goto (put_header u x ?h) t (FreeType x (Some n))"
    using t x h by (simp add: ob_run_def PhpDeferDeleteObjectRoutine_def at_header_def)
  obtain ca where ca: "ob_inv a ca" using ob_run_inv [OF inv a(1)] by blast
  have "restored (Headers (manager a)) (born a) x" using saved_steps(3) by (simp add: a(2) restored_def)
  then obtain ty where ty: "PhGetObjectType (manager a) x = Some ty"
    using object_type(1) [OF ob_invD(2) [OF ca]] by blast
  obtain b where b: "ob_run a t = Some b" "b = goto (a\<lparr>manager := add_objects (manager a) ty (- 1)\<rparr>) t (FreeDelete x ty (Some n))"
    using ty by (simp add: ob_run_def PhpFreeObject_def a(2))
  obtain c where c: "ob_run b t = Some c" "pc c t = FreeStorage x ty (Some n)" "manager c = manager b"
      "releases c = releases b" "born c = born b" "mutex c = None"
    using mx by (cases "DeleteProcedure (Types (manager b) ty)") (auto simp: ob_run_def PhpFreeObject_def b(2) a(2))
  have "header c x = Some ?h" using c(3) b(2) a(2) by simp
  then obtain d where d: "ob_run c t = Some d"
      "d = goto (c\<lparr>manager := free_storage (manager c) ty x (snd (born u x)), releases := (releases c)(x := releases c x + 1)\<rparr>) t (WorkLoop n)"
    using c(2) by (simp add: ob_run_def PhpFreeObject_def at_header_def)
  have "ob_step\<^sup>*\<^sup>* u d"
    using ob_step.run [OF a(1)] ob_step.run [OF b(1)] ob_step.run [OF c(1)] ob_step.run [OF d(1)]
    by (meson converse_rtranclp_into_rtranclp r_into_rtranclp)
  then show ?thesis
    using d(2) c(3-6) b(2) a(2) by (intro exI [of _ d]) simp
qed

lemma ob_steps_inv:
  assumes "ob_inv s cl" and "ob_step\<^sup>*\<^sup>* s s'"
  shows "\<exists>cl'. ob_inv s' cl'"
  using assms(2,1) by (induction rule: rtranclp_induct) (blast dest: ob_step_inv)+

lemma routine_loop:
  assumes "\<exists>cl. ob_inv u cl" and "pc u t = WorkLoop e" and "chained (Headers (manager u)) (born u) e xs"
    and "distinct xs" and "mutex u = None"
  shows "\<exists>v. ob_step\<^sup>*\<^sup>* u v \<and> pc v t = Idle \<and> list_head v = list_head u \<and>
    (\<forall>x. if x \<in> set xs then header v x = None \<and> releases v x = releases u x + 1
         else header v x = header u x \<and> releases v x = releases u x)"
  using assms
proof (induction xs arbitrary: u e)
  case Nil
  then have "ob_run u t = Some (goto u t Idle)" by (simp add: ob_run_def PhpDeferDeleteObjectRoutine_def)
  then have "ob_step\<^sup>*\<^sup>* u (goto u t Idle)" by (blast intro: ob_step.run)
  then show ?case by (intro exI [of _ "goto u t Idle"]) simp
next
  case (Cons x xs)
  obtain cl where inv: "ob_inv u cl" using Cons.prems(1) by blast
  obtain n where n: "e = x" "x \<noteq> 0" "chained (Headers (manager u)) (born u) n xs"
      "header u x = Some \<lparr>First = DeferDeleteListEntry n, RefCount = saved_word (born u x)\<rparr>"
    using Cons.prems(3) by auto
  obtain v where v: "ob_step\<^sup>*\<^sup>* u v" "pc v t = WorkLoop n" "Headers (manager v) = (Headers (manager u))(x := None)"
      "releases v = (releases u)(x := releases u x + 1)" "born v = born u" "mutex v = None" "list_head v = list_head u"
    using routine_turn [OF inv _ n(2) Cons.prems(5) n(4), of t] Cons.prems(2) n(1) by blast
  have "chained (Headers (manager v)) (born v) n xs"
    using chained_same_head [OF n(3), of x None] Cons.prems(4) v(3,5) by simp
  moreover have "\<exists>cl. ob_inv v cl" using ob_steps_inv [OF inv v(1)] .
  ultimately obtain w where w: "ob_step\<^sup>*\<^sup>* v w" "pc w t = Idle" "list_head w = list_head v"
      "\<forall>y. if y \<in> set xs then header w y = None \<and> releases w y = releases v y + 1
           else header w y = header v y \<and> releases w y = releases v y"
    using Cons.IH [of v n] v(2,6) Cons.prems(4) by auto
  have "if y \<in> set (x # xs) then header w y = None \<and> releases w y = releases u y + 1
        else header w y = header u y \<and> releases w y = releases u y" for y
    using w(4) [rule_format, of y] v(3,4) Cons.prems(4) by (cases "y = x") (auto split: if_splits)
  then show ?case using w(1-3) v(1,7) by (intro exI [of _ w]) (auto intro: rtranclp_trans)
qed

lemma routine_frees:
  assumes inv: "ob_inv s cl" and i: "0 < items s" and t: "pc s t = Idle" and mx: "mutex s = None"
  shows "\<exists>s'. ob_step\<^sup>*\<^sup>* s s' \<and> list_head s' = 0 \<and>
    (\<forall>x. if x \<in> set (cl None) then header s' x = None \<and> releases s' x = releases s x + 1
         else header s' x = header s x \<and> releases s' x = releases s x)"
proof -
  note D = ob_invD [OF inv]
  have L: "chained (Headers (manager s)) (born s) (list_head s) (cl None)" "distinct (cl None)"
    using heads_okD(2,4) [OF D(1)] by (auto simp: claims_ok_def)
  obtain a where a: "ob_call s t TakeItem = Some a" "a = goto (s\<lparr>items := items s - 1\<rparr>) t WorkFlush"
    using i t by (simp add: ob_call_def)
  obtain b where b: "ob_run a t = Some b"
      "b = goto (a\<lparr>manager := (manager a)\<lparr>PhObjectDeferDeleteListHead := 0\<rparr>\<rparr>) t (WorkLoop (list_head a))"
    by (simp add: ob_run_def PhpDeferDeleteObjectRoutine_def a(2))
  have sb: "ob_step\<^sup>*\<^sup>* s b"
    using ob_step.call [OF a(1)] ob_step.run [OF b(1)] by (meson converse_rtranclp_into_rtranclp r_into_rtranclp)
  have "\<exists>v. ob_step\<^sup>*\<^sup>* b v \<and> pc v t = Idle \<and> list_head v = list_head b \<and>
    (\<forall>x. if x \<in> set (cl None) then header v x = None \<and> releases v x = releases b x + 1
         else header v x = header b x \<and> releases v x = releases b x)"
    by (rule routine_loop [OF ob_steps_inv [OF inv sb], of t "list_head s"]) (use L mx in \<open>simp_all add: a(2) b(2)\<close>)
  then show ?thesis
    using sb by (auto simp: a(2) b(2) intro: rtranclp_trans)
qed

section \<open>Properties\<close>

lemma race_reachable:
  obtains s where "ob_reachable s" and "items s = 0" and "pc s = (\<lambda>_. Idle)" and "list_head s = 32" and "raced s"
    and "queued s 32" and "releases s 32 = 0"
  using race_run_result one_type_initial ob_exec_steps by blast

text \<open>
  C6. From a start with any table of types on, under every interleaving of any number of threads that follow
  the rules: no header is accessed that is not there. A block is an object exactly between its creation and
  the release of its storage, which take turns, and its deletion is run once in each of these lives, before the
  release. The count of an object that is referenced is the number of references the program owns, and its
  type is the one it was created with.
\<close>

theorem PhObject_lifetime:
  assumes "ob_reachable s"
  shows "\<not> fault s \<and>
    creations s x = releases s x + (if header s x = None then 0 else 1) \<and>
    deletions s x = releases s x + (if \<exists>t ty k. pc s t = FreeStorage x ty k then 1 else 0) \<and>
    (if 0 < held s x
     then \<exists>h. header s x = Some h \<and> \<not> negative (RefCount h) \<and> unat (RefCount h) = held s x \<and>
            PhGetObjectType (manager s) x = Some (PhObjectTypeTable (manager s) ! unat (fst (born s x)))
     else header s x = None \<or> (\<exists>h. header s x = Some h \<and> (RefCount h = 0 \<or> negative (RefCount h))))"
proof -
  obtain cl where inv: "ob_inv s cl" using reachable_inv [OF assms] by blast
  note D = ob_invD [OF inv]
  have "deleted (pc s) x \<longleftrightarrow> (\<exists>t ty k. pc s t = FreeStorage x ty k)" by (simp add: deleted_def)
  moreover have "PhGetObjectType (manager s) x = Some (PhObjectTypeTable (manager s) ! unat (fst (born s x)))"
    if "header s x = Some h" "First h = fields_of (born s x)" for h
  proof -
    have "typed (PhObjectTypeTable (manager s)) (born s x)" using storage_okD(3) [OF D(2)] that(1) by simp
    then show ?thesis
      using that storage_okD(1) [OF D(2)] by (simp add: PhGetObjectType_def typed_def types_ok_def)
  qed
  ultimately have T: "PhGetObjectType (manager s) x = Some (PhObjectTypeTable (manager s) ! unat (fst (born s x)))"
    if "header s x = Some h" "First h = fields_of (born s x)" for h
    using that by blast
  have "if 0 < held s x
     then \<exists>h. header s x = Some h \<and> \<not> negative (RefCount h) \<and> unat (RefCount h) = held s x \<and>
            PhGetObjectType (manager s) x = Some (PhObjectTypeTable (manager s) ! unat (fst (born s x)))
     else header s x = None \<or> (\<exists>h. header s x = Some h \<and> (RefCount h = 0 \<or> negative (RefCount h)))"
  proof (cases "0 < held s x")
    case True
    then obtain h where "header s x = Some h" "positive (RefCount h)" "held s x = unat (RefCount h)"
        "First h = fields_of (born s x)"
      using held_alive [OF inv] by metis
    then show ?thesis using True T by simp
  next
    case False
    then show ?thesis using not_held_dead [OF inv, of x] by auto
  qed
  then show ?thesis
    using D(4,6) \<open>deleted (pc s) x \<longleftrightarrow> _\<close> by (simp add: counts_ok_def)
qed

theorem PhObject_lifetime_witness:
  "\<exists>s. ob_reachable s \<and> pc s = (\<lambda>_. Idle) \<and> \<not> fault s \<and> creations s 32 = releases s 32 + 1 \<and>
       deletions s 32 = releases s 32"
proof -
  obtain s where s: "ob_reachable s" "pc s = (\<lambda>_. Idle)" "queued s 32" by (rule race_reachable)
  then have "header s 32 \<noteq> None" by (auto simp: queued_def)
  then show ?thesis using PhObject_lifetime [OF s(1), of 32] s by (intro exI [of _ s]) auto
qed

text \<open>
  C14. An object without a reference never gets one again, whatever step is taken: \<open>PhReferenceObjectSafe\<close>,
  called under the mutex that the delete procedure acquires, gives \<open>NULL\<close> for it until its storage is released.
\<close>

theorem PhObject_no_resurrection:
  assumes "ob_reachable s" and "header s x = Some h" and "RefCount h = 0 \<or> negative (RefCount h)" and "ob_step s s'"
  shows "held s' x = 0 \<and>
    (header s' x = None \<or> (\<exists>h'. header s' x = Some h' \<and> (RefCount h' = 0 \<or> negative (RefCount h'))))"
proof -
  obtain cl where inv: "ob_inv s cl" using reachable_inv [OF assms(1)] by blast
  obtain cl' where inv': "ob_inv s' cl'" using ob_step_inv [OF inv assms(4)] by blast
  have "held s' x = 0" by (rule dying_step [OF inv assms(2) _ assms(4)]) (use assms(3) in blast)
  then show ?thesis using not_held_dead [OF inv', of x] by auto
qed

text \<open>An object created and given up by thread 0, which has made its count zero; then the thread goes on.\<close>

theorem PhObject_no_resurrection_witness:
  "\<exists>s s' h. ob_reachable s \<and> header s 16 = Some h \<and> RefCount h = 0 \<and> ob_step s s' \<and> held s' 16 = 0"
proof -
  let ?run = "[(0, Some (CreateObject 16 8 8)), (0, Some (DereferenceObjectEx 16 1 True))]"
  have "\<exists>s s' h. ob_exec ?run one_type = Some s \<and> header s 16 = Some h \<and> RefCount h = 0 \<and> ob_run s 0 = Some s'"
    by (simp add: one_type_def call_defs run_defs Let_def)
  then obtain s s' h where s: "ob_reachable s" "header s 16 = Some h" "RefCount h = 0" "ob_run s 0 = Some s'"
    using one_type_initial ob_exec_steps by blast
  then show ?thesis
    using PhObject_no_resurrection [OF s(1,2) _ ob_step.run [OF s(4)]] ob_step.run [OF s(4)] by blast
qed

text \<open>
  C7. An interleaving, of a worker thread that empties the list of deferred deletions with a thread between its
  look at the list and its push, ends in a state with no thread inside the functions, an object on the list and no
  work item, and from this state on no work item is ever queued and the storage of that object is never released,
  whatever the program does.
\<close>

theorem PhpDeferDeleteObject_lost:
  "\<exists>s x. ob_reachable s \<and> pc s = (\<lambda>_. Idle) \<and> items s = 0 \<and> list_head s = x \<and> held s x = 0 \<and>
     {s'. ob_step\<^sup>*\<^sup>* s s'} \<subseteq> {s'. items s' = 0 \<and> list_head s' \<noteq> 0 \<and> header s' x = header s x \<and> header s' x \<noteq> None \<and>
                                  releases s' x = releases s x}"
proof -
  obtain s where s: "ob_reachable s" "items s = 0" "pc s = (\<lambda>_. Idle)" "list_head s = 32" "queued s 32"
    by (rule race_reachable)
  obtain cl where inv: "ob_inv s cl" using reachable_inv [OF s(1)] by blast
  have st: "stuck s" using s(2-4) by (simp add: stuck_def)
  have "items s' = 0 \<and> list_head s' \<noteq> 0 \<and> header s' 32 = header s 32 \<and> header s' 32 \<noteq> None \<and> releases s' 32 = releases s 32"
    if "ob_step\<^sup>*\<^sup>* s s'" for s'
    using stuck_forever [OF inv st s(5) that] s(5) by (auto simp: stuck_def queued_def)
  then have "{s'. ob_step\<^sup>*\<^sup>* s s'} \<subseteq> {s'. items s' = 0 \<and> list_head s' \<noteq> 0 \<and> header s' 32 = header s 32 \<and>
      header s' 32 \<noteq> None \<and> releases s' 32 = releases s 32}"
    by blast
  then show ?thesis
    by (intro exI [of _ s] exI [of _ 32] conjI s queued_dying [OF inv s(5)])
qed

text \<open>
  C13. As long as no thread has pushed onto a list that had been emptied since its look at it, a list of deferred
  deletions that is not empty has a work item, queued or just taken, or a thread about to queue one. And a work
  item is enough: a worker thread that takes it, while nobody holds the mutex, can run to its end, and then
  the objects of the list are released, once each, and no other object is.
\<close>

theorem PhpDeferDeleteObjectRoutine_frees:
  assumes "ob_reachable s"
  shows "(\<not> raced s \<and> list_head s \<noteq> 0 \<longrightarrow> 0 < items s \<or> (\<exists>t. pc s t = WorkFlush \<or> pc s t = DeferQueue 0)) \<and>
    (0 < items s \<and> pc s t = Idle \<and> mutex s = None \<longrightarrow>
      (\<exists>xs s'. chained (Headers (manager s)) (born s) (list_head s) xs \<and> ob_step\<^sup>*\<^sup>* s s' \<and> list_head s' = 0 \<and>
        (\<forall>x. if x \<in> set xs then header s' x = None \<and> releases s' x = releases s x + 1
             else header s' x = header s x \<and> releases s' x = releases s x)))"
proof -
  obtain cl where inv: "ob_inv s cl" using reachable_inv [OF assms] by blast
  note D = ob_invD [OF inv]
  show ?thesis
    using D(5) heads_okD(4) [OF D(1)] routine_frees [OF inv, of t] unfolding work_ok_def by blast
qed

text \<open>One object, given up for deferred deletion by thread 0; the work item is queued.\<close>

definition defer_run :: "(nat \<times> ob_call option) list" where
  "defer_run =
     [(0, Some (CreateObject 16 8 8)),
      (0, Some (DereferenceObjectEx 16 1 True)), (0, None), (0, None), (0, None), (0, None), (0, None), (0, None)]"

theorem PhpDeferDeleteObjectRoutine_frees_witness:
  "\<exists>s s'. ob_reachable s \<and> list_head s = 16 \<and> ob_step\<^sup>*\<^sup>* s s' \<and> list_head s' = 0 \<and> header s' 16 = None \<and>
     releases s' 16 = releases s 16 + 1"
proof -
  have "\<exists>s. ob_exec defer_run one_type = Some s \<and> items s = 1 \<and> pc s = (\<lambda>_. Idle) \<and> mutex s = None \<and> list_head s = 16"
    by (simp add: defer_run_def one_type_def call_defs run_defs Let_def fun_eq_iff)
  then obtain s where s: "ob_reachable s" "items s = 1" "pc s 0 = Idle" "mutex s = None" "list_head s = 16"
    using one_type_initial ob_exec_steps by fastforce
  then obtain xs s' where r: "chained (Headers (manager s)) (born s) 16 xs" "ob_step\<^sup>*\<^sup>* s s'" "list_head s' = 0"
      "\<forall>x. if x \<in> set xs then header s' x = None \<and> releases s' x = releases s x + 1
           else header s' x = header s x \<and> releases s' x = releases s x"
    using PhpDeferDeleteObjectRoutine_frees [OF s(1), of 0] by auto
  have "16 \<in> set xs" using r(1) by (cases xs) auto
  then show ?thesis using s r(2,3) r(4) [rule_format, of 16] by auto
qed

end
