(* ===== verification/Spec2Isabelle.thy ===== *)
theory Spec2Isabelle
  imports KphMessage PhHashtable PhPointerList PhBuilder PhAvlCorrect PhRundown PhEvent PhCircularBuffer PhConvert PhHandleCorrect PhFastLockCorrect PhObjectRace
begin

text \<open>
  \<^bold>\<open>System Informer: the support library and the driver messages\<close>

  System Informer is a process viewer and a kernel driver. Its application, its plugins and its tools
  are windows and operating system calls over two libraries of their own: \<open>src/phlib\<close>, whose
  \<open>basesup.c\<close> and neighbours hold the data structures, strings and memory routines everything else
  uses, and \<open>src/kphlib\<close>, the messages that the driver \<open>src/KSystemInformer\<close> and the application
  exchange. This development models the parts of these two libraries that have a behaviour of their
  own and proves them correct, each from the code as it is written.

  \<^bold>\<open>Theories and the code they model\<close>

  \<^item> \<open>PhPrelude\<close>: the integer types of the code (\<open>ULONG\<close> is \<open>ulong\<close>, a 32-bit word, and so on), the
    memory routines \<open>memmove\<close>, \<open>memcpy\<close> on lists of cells where an access out of range is \<open>None\<close>, and
    facts on words.
  \<^item> \<open>KphMessage\<close>: \<open>kphmsg.c\<close>, \<open>kphmsgdyn.c\<close>. A message is a record with its header, its table of dynamic
    entries and the bytes behind it; the operations return the code's status values.
  \<^item> \<open>PhNumeric\<close>: powers of two, exponentiation, hexadecimal strings and the parsing of integers, from
    \<open>basesup.c\<close> and the tables of \<open>data.c\<close>.
  \<^item> \<open>PhHashtable\<close>: \<open>PH_HASHTABLE\<close> and the simple hashtable. Buckets, entries, chains through \<open>Next\<close> and the
    free chain are as in the code; a loop through a chain is a partial function.
  \<^item> \<open>PhSequence\<close>: \<open>PH_ARRAY\<close> and \<open>PH_LIST\<close>. \<open>PhPointerList\<close>: \<open>PH_POINTER_LIST\<close>, with the encoding of free
    slots in the pointers.
  \<^item> \<open>PhString\<close>: null-terminated strings and string references, with the vector code of comparison, search
    and counting. \<open>PhBuilder\<close>: the string builder and the byte string builder.
  \<^item> \<open>PhAvlTree\<close>: \<open>avltree.c\<close>, on a heap of links with parent pointers; \<open>PhAvlShape\<close> has the abstract trees,
    \<open>PhAvlRep\<close> the representation and the rotations, \<open>PhAvlUpdate\<close> the loops of insertion and removal,
    \<open>PhAvlWalk\<close> neighbours and enumeration, \<open>PhAvlCorrect\<close> the results.
  \<^item> \<open>PhUnicode\<close>: the encoder and the decoder of UTF-8, UTF-16 and UTF-32 of \<open>basesup.c\<close>, with the reference
    decoders; \<open>PhConvert\<close>: the conversions of strings that are built on them.
  \<^item> \<open>PhCircularBuffer\<close>: the circular buffers of samples, \<open>circbuf_i.h\<close> and \<open>circbuf_h.h\<close>.
  \<^item> \<open>PhHandleTable\<close>: \<open>handle.c\<close>, the handle table of one to three levels of 256 entries with its two free
    lists, as one thread sees it that runs alone; \<open>PhHandleShape\<close> relates the tree of blocks to the list of
    the entries, \<open>PhHandleFree\<close> has the invariant of the free lists, \<open>PhHandleCorrect\<close> the results.
  \<^item> \<open>PhRundown\<close> and \<open>PhEvent\<close>: rundown protection and the event object of \<open>sync.c\<close>, as step relations of
    any number of threads with one step for each access to shared memory. \<open>PhFastLock\<close>: the fast lock of
    \<open>fastlock.c\<close> in the same way, with its two semaphores; \<open>PhFastLockCorrect\<close> has the invariant, for fewer
    than 1024 threads, the number that the counters of the lock can hold.
  \<^item> \<open>PhObject\<close>: the memory of the object manager of \<open>ref.c\<close>, headers, types, creation, references, with the free
    lists of \<open>basesup.c\<close>, and the auto-dereference pools, whose drains run delete procedures that may add to
    the pool. \<open>PhObjectSteps\<close>: lookups, dereferences and deferred
    deletions as steps of threads, \<open>PhObjectCorrect\<close> their invariant, \<open>PhObjectRace\<close> the results.

  \<^bold>\<open>How code is modelled\<close>

  A structure is a record with the code's fields and an allocated buffer a list; allocation and growth
  follow the code and cells that the code does not initialise are parameters or unknown values.
  Integers are words of their width, so that every wrap-around of the code is one of the model. An
  access outside a buffer, or through a null pointer, is \<open>None\<close>; a property that gives \<open>Some\<close> thus shows
  that there is none. A loop that is not bounded by its data is a \<open>partial_function (option)\<close>, and the
  properties show that it returns. No fuel is used.

  \<^bold>\<open>Interfaces\<close>

  Contracts that several components share are locales: sequences that can be appended to, cut and
  inserted into (\<open>appendable\<close>, \<open>removable\<close>, \<open>insertable\<close>) with the correctness of a whole sequence of
  edits proved once and interpreted for lists, arrays and both builders; tables of handles
  (\<open>handle_table\<close>), interpreted for pointer lists and for the handle table; hash and equality functions; decoders that follow a reference
  parser (\<open>unit_decoder\<close>), interpreted for the three encodings; and comparison functions that follow a key
  (\<open>element_order\<close>), interpreted for the trees of symbol modules and of mapped views.

  \<^bold>\<open>What the properties show\<close>

  Each data structure refines its mathematical counterpart for every sequence of operations: messages
  maps of typed fields, hashtables finite maps, lists, arrays and string builders lists, pointer lists
  tables of handles, handle tables finite maps of locked and unlocked entries, AVL trees sorted lists,
  circular buffers the most recent items. The invariants behind that are the chains and free lists of
  tables and the parent pointers, balance factors and order of trees. Optimised code equals plain code:
  vector searches, powers by squaring, unrolled loops, the decoder that reads ahead and the parser of
  well-formed sequences. Encodings read back: dynamic fields, hexadecimal strings, Unicode strings.
  Sizes are sufficient: the stack of 47 entries in \<open>PhEnumAvlTree\<close> holds the path to any element of a
  tree of fewer than \<open>2 ^ 32\<close> elements, whose height is at most 45. Under every interleaving, the waiter
  of a rundown returns only when no thread holds the protection and can always still return, and no
  thread that waits for an event misses it; a fast lock has at most one exclusive owner and no sleeper
  without someone to wake it; an object is freed once, when its last reference is given up, and not
  touched afterwards, but one interleaving of deferred deletions loses them all. Where the code does not do what its
  documentation says, the property states what it does. Where a property holds within limits only, it names them, and
  most have a counterpart that shows what happens beyond: the 1024th shared owner of a fast lock, stack traces of 8192
  frames, circular buffers enlarged while not full, the type that fills the table, six bytes under way in the
  decoder, objects added to a pool while it is drained.

  \<^bold>\<open>Not modelled\<close>

  The rest of \<open>basesup.c\<close> (threads, heap, time and object creation are operating system calls, as
  are the multi-byte conversions), the barriers and the one-time initialisation of \<open>sync.c\<close>,
  the queued locks (\<open>queuedlock.c\<close>), the interleaving of threads in \<open>handle.c\<close>, \<open>workqueue.c\<close>, the mapped file of the
  file pool, settings and formats, and all code whose behaviour is that of operating system calls or of windows: \<open>native.c\<close>, \<open>util.c\<close>, the controls, the application, the
  driver's callbacks, plugins and tools. Vendored code under \<open>tools/thirdparty\<close> and the declarations in
  \<open>phnt\<close> are not part of the program's own logic. Exceptions raised when memory is exhausted are not
  modelled: an allocation succeeds, except in the handle table, whose allocations report their failure. An \<open>assert\<close>
  is left out, as in the release builds, unless the text says otherwise.
\<close>

end
